(* ===== verification/Qn_Prelude.thy ===== *)
theory Qn_Prelude
  imports Main "HOL-Library.Word"
begin

unbundle bit_operations_syntax

text \<open>
  The shared prelude of the Qanat development: names for the C integer types, the
  collections of rewrite rules that the component proofs use, and the generic facts about
  words, naturals and lists that several components need.  Nothing here models code of the
  repository; every theory with definitions that do so imports this one.

  Integers of the C sources keep their width (\<open>u8\<close>, \<open>u16\<close>, \<open>u32\<close>, \<open>u64\<close>) wherever the code
  relies on wrap-around or guards against it.  \<open>size_t\<close> is 64 bits wide, as on the AArch64
  targets of the repository.
\<close>

section \<open>Integer types\<close>

type_synonym u8 = "8 word"
type_synonym u16 = "16 word"
type_synonym u32 = "32 word"
type_synonym u64 = "64 word"
type_synonym bytes = "u8 list"

abbreviation UINT32_MAX :: nat where "UINT32_MAX \<equiv> 4294967295"
abbreviation UINT64_MAX :: nat where "UINT64_MAX \<equiv> 18446744073709551615"

section \<open>Collections of rules\<close>

text \<open>\<open>word_nat\<close> moves comparisons and guarded arithmetic of words to \<open>nat\<close>.\<close>

named_theorems word_nat
named_theorems qn_defs

declare word_le_nat_alt [word_nat] word_less_nat_alt [word_nat]
declare unat_div [word_nat] unat_mod [word_nat]

lemma unat_lt_size [simp]:
  "unat (x :: u8) < 256" "unat (y :: u16) < 65536"
  "unat (z :: u32) < 4294967296" "unat (w :: u64) < 18446744073709551616"
  using unsigned_less [of x] unsigned_less [of y] unsigned_less [of z] unsigned_less [of w] by simp_all

lemma unat_sub_le: "b \<le> a \<Longrightarrow> unat (a - b) = unat a - unat b" for a b :: "'a::len word"
  by (simp add: unat_sub)

lemma unat_add_u64: "unat a + unat b < 2 ^ 64 \<Longrightarrow> unat (a + b) = unat a + unat b" for a b :: u64
  by (simp add: unat_word_ariths)

lemma unat_add_u32: "unat a + unat b < 2 ^ 32 \<Longrightarrow> unat (a + b) = unat a + unat b" for a b :: u32
  by (simp add: unat_word_ariths)

lemma unat_mult_u64: "unat a * unat b < 2 ^ 64 \<Longrightarrow> unat (a * b) = unat a * unat b" for a b :: u64
  by (simp add: unat_word_ariths)

lemma unat_eq_iff: "a = b \<longleftrightarrow> unat a = unat b" for a b :: "'a::len word"
  by (simp add: word_unat_eq_iff)

lemma unat_ucast_le: "LENGTH('a) \<le> LENGTH('b::len) \<Longrightarrow> unat (ucast x :: 'b word) = unat x"
  for x :: "'a::len word"
  by (simp add: unsigned_ucast_eq)
    (metis unsigned_less le_trans power_increasing one_le_numeral order_less_le_trans
      take_bit_nat_eq_self)

lemma unat_ucast_up [simp]:
  "unat (ucast (a :: u8) :: u16) = unat a" "unat (ucast a :: u32) = unat a"
  "unat (ucast a :: u64) = unat a" "unat (ucast (b :: u16) :: u32) = unat b"
  "unat (ucast b :: u64) = unat b" "unat (ucast (c :: u32) :: u64) = unat c"
  by (rule unat_ucast_le, simp)+

lemma unat_ucast_down:
  "unat (ucast (x :: u64) :: u32) = unat x mod 2 ^ 32" "unat (ucast x :: u16) = unat x mod 2 ^ 16"
  "unat (ucast x :: u8) = unat x mod 2 ^ 8" "unat (ucast (y :: u32) :: u16) = unat y mod 2 ^ 16"
  "unat (ucast y :: u8) = unat y mod 2 ^ 8" "unat (ucast (z :: u16) :: u8) = unat z mod 2 ^ 8"
  by (simp_all add: unsigned_ucast_eq take_bit_eq_mod)

lemma unat_word_of_nat [simp]:
  "n < 2 ^ 64 \<Longrightarrow> unat (word_of_nat n :: u64) = n" "n < 2 ^ 32 \<Longrightarrow> unat (word_of_nat n :: u32) = n"
  "n < 2 ^ 16 \<Longrightarrow> unat (word_of_nat n :: u16) = n" "n < 2 ^ 8 \<Longrightarrow> unat (word_of_nat n :: u8) = n"
  by (simp_all add: unsigned_of_nat take_bit_nat_eq_self)

lemma unat_max_word:
  "unat (- 1 :: u64) = 2 ^ 64 - 1" "unat (- 1 :: u32) = 2 ^ 32 - 1"
  by (simp_all add: unsigned_minus_1_eq_mask mask_eq_exp_minus_1)

section \<open>Lists and sets\<close>

lemma inj_on_into_finite_bij:
  "finite S \<Longrightarrow> inj_on f S \<Longrightarrow> f ` S \<subseteq> S \<Longrightarrow> bij_betw f S S"
  by (simp add: bij_betw_def endo_inj_surj)

lemma bij_betw_lessThan_ex1:
  assumes "bij_betw f {..<n} {..<(n::nat)}" and "y < n"
  shows "\<exists>x<n. f x = y"
  using assms by (metis bij_betw_imp_surj_on imageE lessThan_iff)

end
