(* ===== verification/Timewheel.thy ===== *)
theory Timewheel
  imports Qn_Prelude
begin

text \<open>
  \<^verbatim>\<open>src/core/timewheel.c\<close>: the timeout wheel of a sweep worker, 1024 slots of 8 ms, each slot a
  doubly linked list threaded through the nodes themselves.  The model keeps the pointers:
  a node is a number, the heap maps it to its fields, a slot holds the head of its list.
  The second half of the theory shows that the pointer surgery of \<open>qn_tw_arm\<close> and
  \<open>qn_tw_disarm\<close> is list insertion and removal, whatever the shape of the wheel.  What the
  wheel promises about time is in the theory \<open>Timewheel_Time\<close>.

  The unsigned 64-bit clock values are naturals here; each place where the C code could wrap
  writes the saturation or the reduction out.
\<close>

section \<open>State\<close>

record tw_node =
  n_prev :: "nat option"
  n_next :: "nat option"
  n_deadline :: nat
  n_slot :: nat
  n_armed :: bool

record qn_timewheel =
  tw_nodes :: "nat \<Rightarrow> tw_node"
  tw_slot :: "nat \<Rightarrow> nat option"
  tw_now :: nat
  tw_cursor :: nat
  tw_armed :: nat

abbreviation QN_TW_SLOTS :: nat where "QN_TW_SLOTS \<equiv> 1024"
abbreviation QN_TW_TICK_MS :: nat where "QN_TW_TICK_MS \<equiv> 8"
abbreviation TW_SPAN_MS :: nat where "TW_SPAN_MS \<equiv> QN_TW_SLOTS * QN_TW_TICK_MS"

abbreviation node_of :: "qn_timewheel \<Rightarrow> nat \<Rightarrow> tw_node" where
  "node_of w n \<equiv> tw_nodes w n"

definition set_node :: "qn_timewheel \<Rightarrow> nat \<Rightarrow> (tw_node \<Rightarrow> tw_node) \<Rightarrow> qn_timewheel" where
  "set_node w n f = w\<lparr>tw_nodes := (tw_nodes w)(n := f (tw_nodes w n))\<rparr>"

section \<open>Operations\<close>

text \<open>The nodes belong to the caller and enter the wheel unarmed.\<close>

definition qn_tw_init :: "(nat \<Rightarrow> tw_node) \<Rightarrow> nat \<Rightarrow> qn_timewheel" where
  "qn_tw_init nodes now_ms =
     \<lparr>tw_nodes = nodes, tw_slot = (\<lambda>_. None), tw_now = now_ms,
      tw_cursor = now_ms div QN_TW_TICK_MS, tw_armed = 0\<rparr>"

definition qn_tw_disarm :: "qn_timewheel \<Rightarrow> nat \<Rightarrow> qn_timewheel" where
  "qn_tw_disarm w n =
     (if \<not> n_armed (node_of w n) then w
      else
        (let w1 = (case n_prev (node_of w n) of
                     Some p \<Rightarrow> set_node w p (\<lambda>x. x\<lparr>n_next := n_next (node_of w n)\<rparr>)
                   | None \<Rightarrow> w\<lparr>tw_slot := (tw_slot w)(n_slot (node_of w n) := n_next (node_of w n))\<rparr>);
             w2 = (case n_next (node_of w1 n) of
                     Some q \<Rightarrow> set_node w1 q (\<lambda>x. x\<lparr>n_prev := n_prev (node_of w1 n)\<rparr>)
                   | None \<Rightarrow> w1);
             w3 = set_node w2 n (\<lambda>x. x\<lparr>n_prev := None, n_next := None, n_armed := False\<rparr>)
         in w3\<lparr>tw_armed := (tw_armed w3 + (2 ^ 32 - 1)) mod 2 ^ 32\<rparr>))"

definition sat_add :: "nat \<Rightarrow> nat \<Rightarrow> nat" where
  "sat_add now after = (if UINT64_MAX - now < after then UINT64_MAX else now + after)"

definition wheel_tick :: "nat \<Rightarrow> nat" where
  "wheel_tick wheel_deadline =
     wheel_deadline div QN_TW_TICK_MS + (if wheel_deadline mod QN_TW_TICK_MS \<noteq> 0 then 1 else 0)"

definition qn_tw_arm :: "qn_timewheel \<Rightarrow> nat \<Rightarrow> nat \<Rightarrow> nat \<Rightarrow> qn_timewheel" where
  "qn_tw_arm w0 n now_ms after_ms =
     (let w1 = (if n_armed (node_of w0 n) then qn_tw_disarm w0 n else w0);
          w2 = (if tw_now w1 < now_ms then w1\<lparr>tw_now := now_ms\<rparr> else w1);
          deadline = sat_add (tw_now w2) after_ms;
          after = (if TW_SPAN_MS - 2 * QN_TW_TICK_MS < after_ms
                   then TW_SPAN_MS - 2 * QN_TW_TICK_MS else after_ms);
          tick = wheel_tick (sat_add (tw_now w2) after);
          slot = tick mod QN_TW_SLOTS;
          w3 = set_node w2 n (\<lambda>x. x\<lparr>n_deadline := deadline, n_slot := slot, n_armed := True,
                                   n_prev := None, n_next := tw_slot w2 slot\<rparr>);
          w4 = (case n_next (node_of w3 n) of
                  Some q \<Rightarrow> set_node w3 q (\<lambda>x. x\<lparr>n_prev := Some n\<rparr>)
                | None \<Rightarrow> w3)
      in w4\<lparr>tw_slot := (tw_slot w4)(slot := Some n), tw_armed := (tw_armed w4 + 1) mod 2 ^ 32\<rparr>)"

text \<open>
  The \<open>for (;;)\<close> of \<open>qn_tw_expire\<close>: \<open>None\<close> is a sweep that never returns, \<open>Some (None, w)\<close> is
  the C \<open>NULL\<close>.
\<close>

partial_function (option) tw_sweep ::
  "nat \<Rightarrow> qn_timewheel \<Rightarrow> (nat option \<times> qn_timewheel) option" where
  "tw_sweep now_tick w =
     (case tw_slot w (tw_cursor w mod QN_TW_SLOTS) of
        Some n \<Rightarrow>
          (let w1 = qn_tw_disarm w n in
            if tw_now w1 < n_deadline (node_of w1 n)
            then tw_sweep now_tick
                   (qn_tw_arm w1 n (tw_now w1) ((n_deadline (node_of w1 n) - tw_now w1) mod 2 ^ 32))
            else Some (Some n, w1))
      | None \<Rightarrow>
          if now_tick \<le> tw_cursor w then Some (None, w)
          else tw_sweep now_tick (w\<lparr>tw_cursor := tw_cursor w + 1\<rparr>))"

definition tw_advance :: "qn_timewheel \<Rightarrow> nat \<Rightarrow> qn_timewheel" where
  "tw_advance w now_ms =
     (let w1 = (if tw_now w < now_ms then w\<lparr>tw_now := now_ms\<rparr> else w);
          now_tick = tw_now w1 div QN_TW_TICK_MS
      in if tw_cursor w1 + QN_TW_SLOTS \<le> now_tick
         then w1\<lparr>tw_cursor := now_tick - (QN_TW_SLOTS - 1)\<rparr> else w1)"

definition qn_tw_expire :: "qn_timewheel \<Rightarrow> nat \<Rightarrow> (nat option \<times> qn_timewheel) option" where
  "qn_tw_expire w now_ms =
     (let w1 = tw_advance w now_ms in tw_sweep (tw_now w1 div QN_TW_TICK_MS) w1)"

text \<open>The inner loop of \<open>qn_tw_next_timeout\<close> follows the list of one slot.\<close>

partial_function (option) chain_soonest ::
  "(nat \<Rightarrow> tw_node) \<Rightarrow> nat option \<Rightarrow> nat \<Rightarrow> nat option" where
  "chain_soonest h p soonest =
     (case p of
        None \<Rightarrow> Some soonest
      | Some n \<Rightarrow> chain_soonest h (n_next (h n))
                   (if n_deadline (h n) < soonest then n_deadline (h n) else soonest))"

fun slots_soonest :: "qn_timewheel \<Rightarrow> nat \<Rightarrow> nat \<Rightarrow> nat \<Rightarrow> nat option" where
  "slots_soonest w tick 0 soonest = Some soonest"
| "slots_soonest w tick (Suc k) soonest =
     Option.bind (chain_soonest (tw_nodes w) (tw_slot w (tick mod QN_TW_SLOTS)) soonest)
       (slots_soonest w (Suc tick) k)"

definition qn_tw_next_timeout :: "qn_timewheel \<Rightarrow> nat \<Rightarrow> nat \<Rightarrow> nat option" where
  "qn_tw_next_timeout w now0 cap =
     (if tw_armed w = 0 then Some cap
      else
        (let now_ms = (if now0 < tw_now w then tw_now w else now0);
             now_tick = now_ms div QN_TW_TICK_MS
         in if tw_cursor w < now_tick then Some 0
            else
              (let ahead0 = cap div QN_TW_TICK_MS + 2;
                   ahead = (if QN_TW_SLOTS < ahead0 then QN_TW_SLOTS else ahead0)
               in Option.bind (slots_soonest w now_tick ahead UINT64_MAX)
                    (\<lambda>soonest. if soonest = UINT64_MAX then Some cap
                               else if soonest \<le> now_ms then Some 0
                               else Some (if soonest - now_ms < cap then soonest - now_ms else cap)))))"

section \<open>Lists in the heap\<close>

text \<open>
  \<open>seg h p a xs b\<close>: following \<open>n_next\<close> from \<open>a\<close> visits exactly \<open>xs\<close> and ends at \<open>b\<close>; the
  \<open>n_prev\<close> pointers run backwards and the first one is \<open>p\<close>.
\<close>

fun seg :: "(nat \<Rightarrow> tw_node) \<Rightarrow> nat option \<Rightarrow> nat option \<Rightarrow> nat list \<Rightarrow> nat option \<Rightarrow> bool" where
  "seg h p a [] b = (a = b)"
| "seg h p a (x # xs) b = (a = Some x \<and> n_prev (h x) = p \<and> seg h (Some x) (n_next (h x)) xs b)"

abbreviation last_or :: "nat option \<Rightarrow> nat list \<Rightarrow> nat option" where
  "last_or p xs \<equiv> (if xs = [] then p else Some (last xs))"

lemma seg_append:
  "seg h p a (xs @ ys) b \<longleftrightarrow> (\<exists>m. seg h p a xs m \<and> seg h (last_or p xs) m ys b)"
  by (induction xs arbitrary: p a) auto

lemma seg_cong:
  "(\<And>x. x \<in> set xs \<Longrightarrow> n_prev (h x) = n_prev (h' x) \<and> n_next (h x) = n_next (h' x)) \<Longrightarrow>
   seg h p a xs b = seg h' p a xs b"
  by (induction xs arbitrary: p a) auto

lemma seg_fun_upd: "n \<notin> set xs \<Longrightarrow> seg (h(n := x)) p a xs b = seg h p a xs b"
  by (rule seg_cong) auto

lemma seg_unique: "seg h p a xs None \<Longrightarrow> seg h p' a ys None \<Longrightarrow> xs = ys"
proof (induction xs arbitrary: p p' a ys)
  case Nil
  then show ?case by (cases ys) auto
next
  case (Cons x xs)
  then show ?case by (cases ys) auto
qed

text \<open>Redirecting the last \<open>n_next\<close>, and the first \<open>n_prev\<close>, of a segment.\<close>

lemma seg_set_next:
  "seg h p a (xs @ [x]) b \<Longrightarrow> x \<notin> set xs \<Longrightarrow>
   seg (h(x := (h x)\<lparr>n_next := b'\<rparr>)) p a (xs @ [x]) b'"
  by (auto simp: seg_append seg_fun_upd)

lemma seg_set_prev:
  "seg h p a (x # xs) b \<Longrightarrow> x \<notin> set xs \<Longrightarrow>
   seg (h(x := (h x)\<lparr>n_prev := p'\<rparr>)) p' a (x # xs) b"
  by (auto simp: seg_fun_upd)

section \<open>Well-formed wheels\<close>

definition armed_set :: "qn_timewheel \<Rightarrow> nat set" where
  "armed_set w = {n. n_armed (node_of w n)}"

definition tw_wf :: "qn_timewheel \<Rightarrow> (nat \<Rightarrow> nat list) \<Rightarrow> bool" where
  "tw_wf w L \<longleftrightarrow>
     (\<forall>i. seg (tw_nodes w) None (tw_slot w i) (L i) None \<and> distinct (L i)) \<and>
     (\<forall>n i. n \<in> set (L i) \<longleftrightarrow> n_armed (node_of w n) \<and> n_slot (node_of w n) = i) \<and>
     finite (armed_set w) \<and> tw_armed w = card (armed_set w) \<and> card (armed_set w) < 2 ^ 32"

lemma tw_wf_init: "(\<And>n. \<not> n_armed (nodes n)) \<Longrightarrow> tw_wf (qn_tw_init nodes now) (\<lambda>_. [])"
  by (simp add: tw_wf_def qn_tw_init_def armed_set_def)

lemma tw_wf_slot_cases:
  assumes "tw_wf w L"
  shows "tw_slot w i = (case L i of [] \<Rightarrow> None | n # _ \<Rightarrow> Some n)"
proof -
  have "seg (tw_nodes w) None (tw_slot w i) (L i) None"
    using assms by (simp add: tw_wf_def)
  then show ?thesis by (cases "L i") auto
qed

text \<open>Unlinking a node from the middle of its list, on the heap alone.\<close>

definition unlink :: "(nat \<Rightarrow> tw_node) \<Rightarrow> nat \<Rightarrow> nat \<Rightarrow> tw_node" where
  "unlink h n =
     (let h1 = (case n_prev (h n) of Some p \<Rightarrow> h(p := (h p)\<lparr>n_next := n_next (h n)\<rparr>) | None \<Rightarrow> h)
      in case n_next (h n) of Some q \<Rightarrow> h1(q := (h1 q)\<lparr>n_prev := n_prev (h n)\<rparr>) | None \<Rightarrow> h1)"

lemma unlink_seg:
  assumes s: "seg h None a (xs @ n # ys) None" and d: "distinct (xs @ n # ys)"
  shows "seg (unlink h n) None (if xs = [] then n_next (h n) else a) (xs @ ys) None"
proof -
  from s have sx: "seg h None a xs (Some n)" and np: "n_prev (h n) = last_or None xs"
    and sy: "seg h (Some n) (n_next (h n)) ys None"
    by (auto simp: seg_append)
  define h1 where "h1 = (case n_prev (h n) of Some p \<Rightarrow> h(p := (h p)\<lparr>n_next := n_next (h n)\<rparr>) | None \<Rightarrow> h)"
  have left: "seg h1 None (if xs = [] then n_next (h n) else a) xs (n_next (h n))"
  proof (cases xs rule: rev_cases)
    case Nil
    then show ?thesis by simp
  next
    case (snoc xs' x)
    with sx d np show ?thesis
      by (auto simp: h1_def intro!: seg_set_next)
  qed
  have right: "seg h1 (Some n) (n_next (h n)) ys None"
  proof (cases "xs = []")
    case True
    with sy np show ?thesis by (simp add: h1_def)
  next
    case False
    then have "last xs \<notin> set ys" using d by (auto dest: last_in_set)
    with False sy np show ?thesis by (simp add: h1_def seg_fun_upd)
  qed
  show ?thesis
  proof (cases ys)
    case Nil
    with right have "n_next (h n) = None" by simp
    with left Nil show ?thesis by (simp add: unlink_def h1_def [symmetric])
  next
    case (Cons y ys')
    with right have y: "n_next (h n) = Some y" by simp
    have "seg (h1(y := (h1 y)\<lparr>n_prev := n_prev (h n)\<rparr>)) (n_prev (h n)) (Some y) ys None"
      unfolding Cons using right d Cons y by (intro seg_set_prev) auto
    moreover have "seg (h1(y := (h1 y)\<lparr>n_prev := n_prev (h n)\<rparr>)) None
        (if xs = [] then n_next (h n) else a) xs (Some y)"
      using left d Cons y by (subst seg_fun_upd) auto
    ultimately show ?thesis
      unfolding seg_append unlink_def h1_def [symmetric] using y np by auto
  qed
qed

lemma disarm_eq:
  assumes wf: "tw_wf w L" and a: "n_armed (node_of w n)"
  shows "qn_tw_disarm w n = w\<lparr>
      tw_nodes := (unlink (tw_nodes w) n)(n := (node_of w n)\<lparr>n_prev := None, n_next := None, n_armed := False\<rparr>),
      tw_slot := (if n_prev (node_of w n) = None
                  then (tw_slot w)(n_slot (node_of w n) := n_next (node_of w n)) else tw_slot w),
      tw_armed := tw_armed w - 1\<rparr>"
proof -
  let ?i = "n_slot (node_of w n)"
  have "n \<in> set (L ?i)" using wf a by (simp add: tw_wf_def)
  then obtain xs ys where L: "L ?i = xs @ n # ys" by (meson split_list)
  then have s: "seg (tw_nodes w) None (tw_slot w ?i) (xs @ n # ys) None" and d: "distinct (xs @ n # ys)"
    using wf by (metis tw_wf_def)+
  from s have np: "n_prev (node_of w n) = last_or None xs"
    and sy: "seg (tw_nodes w) (Some n) (n_next (node_of w n)) ys None"
    by (auto simp: seg_append)
  have pn: "n_prev (node_of w n) \<noteq> Some n" using np d by (auto split: if_splits)
  have nn: "n_next (node_of w n) \<noteq> Some n" using sy d by (cases ys) auto
  have c: "tw_armed w = card (armed_set w)" "0 < card (armed_set w)" "card (armed_set w) < 2 ^ 32"
    using wf a by (auto simp: tw_wf_def armed_set_def card_gt_0_iff)
  then have "(tw_armed w + (2 ^ 32 - 1)) mod 2 ^ 32 = tw_armed w - 1"
    by (simp add: mod_if)
  then show ?thesis
    using a pn nn
    by (cases "n_prev (node_of w n)"; cases "n_next (node_of w n)")
      (auto simp: qn_tw_disarm_def unlink_def set_node_def Let_def fun_eq_iff)
qed

lemma unlink_frame [simp]:
  "n_deadline (unlink h n m) = n_deadline (h m)" "n_slot (unlink h n m) = n_slot (h m)"
  "n_armed (unlink h n m) = n_armed (h m)"
  by (auto simp: unlink_def Let_def split: option.split)

lemma unlink_other: "Some m \<noteq> n_prev (h n) \<Longrightarrow> Some m \<noteq> n_next (h n) \<Longrightarrow> unlink h n m = h m"
  by (auto simp: unlink_def Let_def split: option.split)

lemma seg_prev_member:
  "seg h None a (xs @ n # ys) None \<Longrightarrow> Some m = n_prev (h n) \<Longrightarrow> m \<in> set xs"
  by (auto simp: seg_append split: if_splits)

lemma seg_next_member:
  assumes "seg h p a (xs @ n # ys) None" "Some m = n_next (h n)"
  shows "m \<in> set ys"
proof -
  have "seg h (Some n) (Some m) ys None" using assms by (auto simp: seg_append)
  then show ?thesis by (cases ys) auto
qed

text \<open>\<open>qn_tw_disarm\<close> removes the node from its slot and leaves every other list alone.\<close>

lemma tw_wf_disarm:
  assumes wf: "tw_wf w L" and a: "n_armed (node_of w n)"
  defines "i \<equiv> n_slot (node_of w n)"
  shows "tw_wf (qn_tw_disarm w n) (L(i := remove1 n (L i)))" (is "tw_wf ?w ?L")
proof -
  have n: "n \<in> set (L i)" using wf a by (simp add: tw_wf_def i_def)
  then obtain xs ys where L: "L i = xs @ n # ys" by (meson split_list)
  then have sg: "seg (tw_nodes w) None (tw_slot w i) (xs @ n # ys) None" and d: "distinct (xs @ n # ys)"
    using wf by (metis tw_wf_def)+
  have rm: "remove1 n (L i) = xs @ ys" using L d by (simp add: remove1_append)
  have np: "n_prev (node_of w n) = last_or None xs" using sg by (auto simp: seg_append)
  note eq = disarm_eq [OF wf a]
  have "seg (tw_nodes ?w) None (tw_slot ?w j) (?L j) None" for j
  proof (cases "j = i")
    case True
    have "seg (unlink (tw_nodes w) n) None (if xs = [] then n_next (node_of w n) else tw_slot w i)
        (xs @ ys) None"
      by (rule unlink_seg [OF sg d])
    with True rm np d show ?thesis
      by (simp add: eq seg_fun_upd i_def [symmetric] split: if_splits)
  next
    case False
    have "unlink (tw_nodes w) n x = node_of w x \<and> x \<noteq> n" if "x \<in> set (L j)" for x
    proof -
      have "x \<notin> set (L i)" using that wf False by (auto simp: tw_wf_def)
      then show ?thesis using L seg_prev_member [OF sg] seg_next_member [OF sg] n by (intro conjI unlink_other) auto
    qed
    then have "seg (tw_nodes ?w) None (tw_slot w j) (L j) None = seg (tw_nodes w) None (tw_slot w j) (L j) None"
      by (intro seg_cong) (simp add: eq)
    with False wf show ?thesis by (simp add: eq tw_wf_def i_def [symmetric])
  qed
  moreover have "distinct (?L j)" for j using wf by (auto simp: tw_wf_def)
  moreover have "m \<in> set (?L j) \<longleftrightarrow> n_armed (node_of ?w m) \<and> n_slot (node_of ?w m) = j" for m j
  proof -
    have "set (?L j) = set (L j) - {n}" using wf by (auto simp: tw_wf_def i_def)
    with wf show ?thesis by (auto simp: eq tw_wf_def i_def)
  qed
  moreover have "armed_set ?w = armed_set w - {n}" by (auto simp: armed_set_def eq)
  moreover have "tw_armed ?w = tw_armed w - 1" by (simp add: eq)
  ultimately show ?thesis using wf a by (auto simp: tw_wf_def armed_set_def)
qed

lemma disarm_fields:
  assumes "tw_wf w L"
  shows "n_deadline (node_of (qn_tw_disarm w n) m) = n_deadline (node_of w m)"
    "n_slot (node_of (qn_tw_disarm w n) m) = n_slot (node_of w m)"
    "n_armed (node_of (qn_tw_disarm w n) m) \<longleftrightarrow> n_armed (node_of w m) \<and> m \<noteq> n"
    "tw_now (qn_tw_disarm w n) = tw_now w" "tw_cursor (qn_tw_disarm w n) = tw_cursor w"
  using disarm_eq [OF assms] by (cases "n_armed (node_of w n)"; auto simp: qn_tw_disarm_def)+

text \<open>\<open>qn_tw_arm\<close> on a node that is not armed.\<close>

definition arm_now :: "qn_timewheel \<Rightarrow> nat \<Rightarrow> nat" where
  "arm_now w now_ms = max (tw_now w) now_ms"

definition arm_tick :: "qn_timewheel \<Rightarrow> nat \<Rightarrow> nat \<Rightarrow> nat" where
  "arm_tick w now_ms after_ms =
     wheel_tick (sat_add (arm_now w now_ms) (min after_ms (TW_SPAN_MS - 2 * QN_TW_TICK_MS)))"

lemma arm_unarmed_eq:
  assumes wf: "tw_wf w L" and a: "\<not> n_armed (node_of w n)" and room: "card (armed_set w) + 1 < 2 ^ 32"
    and slot: "slot = arm_tick w now_ms after_ms mod QN_TW_SLOTS"
  shows "qn_tw_arm w n now_ms after_ms = w\<lparr>
      tw_now := arm_now w now_ms,
      tw_nodes := (case tw_slot w slot of None \<Rightarrow> tw_nodes w
                   | Some q \<Rightarrow> (tw_nodes w)(q := (node_of w q)\<lparr>n_prev := Some n\<rparr>))
         (n := (node_of w n)\<lparr>n_deadline := sat_add (arm_now w now_ms) after_ms, n_slot := slot,
                  n_armed := True, n_prev := None, n_next := tw_slot w slot\<rparr>),
      tw_slot := (tw_slot w)(slot := Some n), tw_armed := tw_armed w + 1\<rparr>"
proof -
  have "tw_slot w slot \<noteq> Some n"
  proof
    assume "tw_slot w slot = Some n"
    then have "n \<in> set (L slot)" using tw_wf_slot_cases [OF wf, of slot] by (auto split: list.splits)
    with wf a show False by (simp add: tw_wf_def)
  qed
  moreover have "(tw_armed w + 1) mod 2 ^ 32 = tw_armed w + 1"
    using room wf by (simp add: tw_wf_def)
  moreover have "(if TW_SPAN_MS - 2 * QN_TW_TICK_MS < after_ms then TW_SPAN_MS - 2 * QN_TW_TICK_MS
      else after_ms) = min after_ms (TW_SPAN_MS - 2 * QN_TW_TICK_MS)" by simp
  moreover have "(if tw_now w < now_ms then w\<lparr>tw_now := now_ms\<rparr> else w) = w\<lparr>tw_now := arm_now w now_ms\<rparr>"
    by (simp add: arm_now_def)
  ultimately show ?thesis
    using a by (cases "tw_slot w slot")
      (auto simp: qn_tw_arm_def Let_def set_node_def slot arm_tick_def fun_eq_iff)
qed

lemma arm_fields:
  assumes wf: "tw_wf w L" and a: "\<not> n_armed (node_of w n)" and room: "card (armed_set w) + 1 < 2 ^ 32"
  shows "n_deadline (node_of (qn_tw_arm w n now_ms after_ms) m) =
      (if m = n then sat_add (arm_now w now_ms) after_ms else n_deadline (node_of w m))"
    "n_slot (node_of (qn_tw_arm w n now_ms after_ms) m) =
      (if m = n then arm_tick w now_ms after_ms mod QN_TW_SLOTS else n_slot (node_of w m))"
    "n_armed (node_of (qn_tw_arm w n now_ms after_ms) m) \<longleftrightarrow> n_armed (node_of w m) \<or> m = n"
    "tw_now (qn_tw_arm w n now_ms after_ms) = arm_now w now_ms"
    "tw_cursor (qn_tw_arm w n now_ms after_ms) = tw_cursor w"
  by (auto simp: arm_unarmed_eq [OF wf a room refl] split: option.split)

text \<open>It puts the node at the head of its slot.\<close>

lemma tw_wf_arm_unarmed:
  assumes wf: "tw_wf w L" and a: "\<not> n_armed (node_of w n)" and room: "card (armed_set w) + 1 < 2 ^ 32"
    and slot: "slot = arm_tick w now_ms after_ms mod QN_TW_SLOTS"
  shows "tw_wf (qn_tw_arm w n now_ms after_ms) (L(slot := n # L slot))" (is "tw_wf ?w ?L")
proof -
  note eq = arm_unarmed_eq [OF wf a room slot]
  note head = tw_wf_slot_cases [OF wf, of slot]
  have mem: "m \<in> set (L i) \<longleftrightarrow> n_armed (node_of w m) \<and> n_slot (node_of w m) = i" for m i
    using wf by (simp add: tw_wf_def)
  have nn: "n \<notin> set (L i)" for i using mem a by simp
  have sg: "seg (tw_nodes w) None (tw_slot w i) (L i) None" and di: "distinct (L i)" for i
    using wf by (simp_all add: tw_wf_def)
  have "seg (tw_nodes ?w) None (tw_slot ?w j) (?L j) None" for j
  proof (cases "j = slot")
    case True
    show ?thesis
    proof (cases "L slot")
      case Nil
      with True head show ?thesis by (simp add: eq)
    next
      case (Cons q ys)
      have "seg ((tw_nodes w)(q := (node_of w q)\<lparr>n_prev := Some n\<rparr>)) (Some n) (tw_slot w slot) (q # ys) None"
        using sg [of slot] di [of slot] Cons by (intro seg_set_prev) auto
      with True head Cons nn [of slot] show ?thesis by (auto simp: eq seg_fun_upd)
    qed
  next
    case False
    have "x \<noteq> n \<and> tw_slot w slot \<noteq> Some x" if "x \<in> set (L j)" for x
      using that mem [of x slot] mem [of x j] nn [of j] False head by (auto split: list.splits)
    then have "seg (tw_nodes ?w) None (tw_slot w j) (L j) None = seg (tw_nodes w) None (tw_slot w j) (L j) None"
      by (intro seg_cong) (auto simp: eq split: option.split)
    with False sg show ?thesis by (simp add: eq)
  qed
  moreover have "distinct (?L j)" for j using di nn by auto
  moreover have "m \<in> set (?L j) \<longleftrightarrow> n_armed (node_of ?w m) \<and> n_slot (node_of ?w m) = j" for m j
    using mem nn a slot by (auto simp: arm_fields [OF wf a room])
  moreover have "armed_set ?w = insert n (armed_set w)"
    by (auto simp: armed_set_def arm_fields [OF wf a room])
  moreover have "tw_armed ?w = tw_armed w + 1" by (simp add: eq)
  ultimately show ?thesis using wf a room by (auto simp: tw_wf_def armed_set_def)
qed

text \<open>Arming an armed node moves it: the code disarms it first.\<close>

lemma arm_armed_eq:
  assumes "tw_wf w L" "n_armed (node_of w n)"
  shows "qn_tw_arm w n now_ms after_ms = qn_tw_arm (qn_tw_disarm w n) n now_ms after_ms"
  using assms disarm_fields(3) [OF assms(1), of n n] by (simp add: qn_tw_arm_def)

lemma card_armed_disarm:
  assumes "tw_wf w L" "n_armed (node_of w n)"
  shows "card (armed_set (qn_tw_disarm w n)) + 1 = card (armed_set w)"
proof -
  have "armed_set (qn_tw_disarm w n) = armed_set w - {n}"
    by (auto simp: armed_set_def disarm_fields [OF assms(1)])
  moreover have "n \<in> armed_set w" "finite (armed_set w)"
    using assms by (simp_all add: armed_set_def tw_wf_def)
  ultimately show ?thesis by (metis Suc_eq_plus1 card_Suc_Diff1)
qed

end
