(* ===== verification/Timewheel_Time.thy ===== *)
theory Timewheel_Time
  imports Timewheel
begin

text \<open>
  What the timeout wheel of \<^verbatim>\<open>src/core/timewheel.c\<close> promises about time.  The invariant
  \<open>tw_time\<close> says that the sweep reaches every armed node no later than the tick of its
  deadline; with it \<open>qn_tw_expire\<close> never fires early, leaves nothing overdue by a whole tick
  behind, and \<open>qn_tw_next_timeout\<close> never oversleeps a deadline by more than 5 ms.

  The sweep re-arms the nodes it finds too early, and whether it ends depends on where they
  land: \<open>expire_returns\<close> gives the condition under which it does and \<open>expire_hangs\<close> a family of
  wheels on which it does not.
\<close>

section \<open>The invariant\<close>

definition visit_by :: "qn_timewheel \<Rightarrow> nat \<Rightarrow> nat \<Rightarrow> bool" where
  "visit_by w n T \<longleftrightarrow> (\<exists>t. t mod QN_TW_SLOTS = n_slot (node_of w n) \<and> tw_cursor w \<le> t \<and> t \<le> T)"

definition tw_time :: "qn_timewheel \<Rightarrow> bool" where
  "tw_time w \<longleftrightarrow>
     tw_cursor w \<le> tw_now w div QN_TW_TICK_MS \<and> tw_now w \<le> UINT64_MAX \<and>
     (\<forall>n. n_armed (node_of w n) \<longrightarrow>
        n_deadline (node_of w n) \<le> tw_now w + UINT32_MAX \<and> n_deadline (node_of w n) \<le> UINT64_MAX \<and>
        visit_by w n (max (wheel_tick (n_deadline (node_of w n))) (tw_now w div QN_TW_TICK_MS)))"

text \<open>The well-formedness and the timing invariant together.\<close>

definition tw_inv :: "qn_timewheel \<Rightarrow> bool" where
  "tw_inv w \<longleftrightarrow> (\<exists>L. tw_wf w L) \<and> tw_time w"

lemma wheel_tick_eq: "wheel_tick d = (d + 7) div 8"
  unfolding wheel_tick_def by presburger

lemma wheel_tick_mono: "a \<le> b \<Longrightarrow> wheel_tick a \<le> wheel_tick b"
  by (simp add: wheel_tick_eq div_le_mono)

lemma sat_add_eq: "now \<le> UINT64_MAX \<Longrightarrow> sat_add now after = min (now + after) UINT64_MAX"
  by (auto simp: sat_add_def)

lemma tw_inv_init:
  assumes "\<And>n. \<not> n_armed (nodes n)" "now_ms \<le> UINT64_MAX"
  shows "tw_inv (qn_tw_init nodes now_ms)"
  using tw_wf_init [of nodes now_ms] assms
  by (auto simp: tw_inv_def tw_time_def qn_tw_init_def)

lemma tw_inv_disarm:
  assumes "tw_inv w"
  shows "tw_inv (qn_tw_disarm w n)"
proof -
  obtain L where wf: "tw_wf w L" using assms by (auto simp: tw_inv_def)
  have "\<exists>L. tw_wf (qn_tw_disarm w n) L"
    using tw_wf_disarm [OF wf, of n] wf by (cases "n_armed (node_of w n)") (auto simp: qn_tw_disarm_def)
  moreover have "tw_time (qn_tw_disarm w n)"
    using assms by (auto simp: tw_inv_def tw_time_def visit_by_def disarm_fields [OF wf])
  ultimately show ?thesis by (simp add: tw_inv_def)
qed

lemma arm_tick_bounds:
  assumes "tw_now w \<le> UINT64_MAX" "now_ms \<le> UINT64_MAX"
  shows "arm_now w now_ms div 8 \<le> arm_tick w now_ms after_ms"
    "arm_tick w now_ms after_ms \<le> wheel_tick (sat_add (arm_now w now_ms) after_ms)"
proof -
  have "arm_now w now_ms \<le> UINT64_MAX" using assms by (simp add: arm_now_def)
  then show "arm_now w now_ms div 8 \<le> arm_tick w now_ms after_ms"
    "arm_tick w now_ms after_ms \<le> wheel_tick (sat_add (arm_now w now_ms) after_ms)"
    by (auto simp: arm_tick_def sat_add_eq wheel_tick_eq intro!: div_le_mono)
qed

lemma visit_by_mono: "visit_by w n T \<Longrightarrow> T \<le> T' \<Longrightarrow> visit_by w n T'"
  by (auto simp: visit_by_def intro: le_trans)

lemma tw_inv_arm_unarmed:
  assumes inv: "tw_inv w" and a: "\<not> n_armed (node_of w n)" and room: "card (armed_set w) + 1 < 2 ^ 32"
    and now: "now_ms \<le> UINT64_MAX" and after: "after_ms \<le> UINT32_MAX"
  shows "tw_inv (qn_tw_arm w n now_ms after_ms)" (is "tw_inv ?w")
proof -
  obtain L where wf: "tw_wf w L" and tm: "tw_time w" using inv by (auto simp: tw_inv_def)
  note f = arm_fields [OF wf a room]
  have nw: "arm_now w now_ms \<le> UINT64_MAX" "tw_now w \<le> arm_now w now_ms"
    using now tm by (auto simp: arm_now_def tw_time_def)
  have c: "tw_cursor w \<le> arm_now w now_ms div 8"
    using tm nw(2) by (auto simp: tw_time_def intro: le_trans div_le_mono)
  have "n_deadline (node_of ?w m) \<le> tw_now ?w + UINT32_MAX \<and> n_deadline (node_of ?w m) \<le> UINT64_MAX \<and>
      visit_by ?w m (max (wheel_tick (n_deadline (node_of ?w m))) (tw_now ?w div QN_TW_TICK_MS))"
    if "n_armed (node_of ?w m)" for m
  proof (cases "m = n")
    case True
    then show ?thesis
      using arm_tick_bounds [of w now_ms after_ms] tm now after nw c
      by (auto simp: f visit_by_def sat_add_eq tw_time_def intro!: exI [of _ "arm_tick w now_ms after_ms"])
  next
    case False
    with that have "n_armed (node_of w m)" by (simp add: f)
    then have d: "n_deadline (node_of w m) \<le> tw_now w + UINT32_MAX" "n_deadline (node_of w m) \<le> UINT64_MAX"
      and v: "visit_by w m (max (wheel_tick (n_deadline (node_of w m))) (tw_now w div QN_TW_TICK_MS))"
      using tm by (auto simp: tw_time_def)
    have "visit_by w m (max (wheel_tick (n_deadline (node_of w m))) (arm_now w now_ms div QN_TW_TICK_MS))"
      by (rule visit_by_mono [OF v]) (use nw(2) in \<open>auto simp: le_max_iff_disj intro: div_le_mono\<close>)
    then show ?thesis using False d nw(2) by (auto simp: f visit_by_def)
  qed
  then have "tw_time ?w" using c nw(1) by (auto simp: tw_time_def f)
  moreover have "\<exists>L. tw_wf ?w L" using tw_wf_arm_unarmed [OF wf a room refl] by blast
  ultimately show ?thesis by (simp add: tw_inv_def)
qed

lemma tw_inv_arm:
  assumes "tw_inv w" "card (armed_set w) + 1 < 2 ^ 32" "now_ms \<le> UINT64_MAX" "after_ms \<le> UINT32_MAX"
  shows "tw_inv (qn_tw_arm w n now_ms after_ms)"
proof (cases "n_armed (node_of w n)")
  case True
  obtain L where wf: "tw_wf w L" using assms by (auto simp: tw_inv_def)
  have "tw_inv (qn_tw_arm (qn_tw_disarm w n) n now_ms after_ms)"
    using assms tw_inv_disarm [of w n] card_armed_disarm [OF wf True]
    by (intro tw_inv_arm_unarmed) (auto simp: disarm_fields [OF wf])
  then show ?thesis by (simp only: arm_armed_eq [OF wf True])
qed (use assms in \<open>auto intro: tw_inv_arm_unarmed\<close>)

lemma slot_window:
  assumes "s < (1024::nat)" "1023 \<le> k"
  shows "\<exists>t. t mod 1024 = s \<and> k - 1023 \<le> t \<and> t \<le> k"
proof -
  define q r where "q = (k - s) div 1024" and "r = (k - s) mod 1024"
  have "k = 1024 * q + r + s" "r < 1024" using assms by (simp_all add: q_def r_def)
  then show ?thesis using assms by (intro exI [of _ "1024 * q + s"]) auto
qed

lemma tw_inv_advance:
  assumes inv: "tw_inv w" and now: "now_ms \<le> UINT64_MAX"
  shows "tw_inv (tw_advance w now_ms)" (is "tw_inv ?w")
proof -
  obtain L where wf: "tw_wf w L" and tm: "tw_time w" using inv by (auto simp: tw_inv_def)
  let ?now = "max (tw_now w) now_ms" let ?k = "?now div 8"
  have c: "tw_cursor w \<le> ?k" using tm by (auto simp: tw_time_def intro: le_trans div_le_mono)
  have f: "tw_nodes ?w = tw_nodes w" "tw_slot ?w = tw_slot w" "tw_armed ?w = tw_armed w" "tw_now ?w = ?now"
    "tw_cursor ?w = (if tw_cursor w + 1024 \<le> ?k then ?k - 1023 else tw_cursor w)"
    by (auto simp: tw_advance_def Let_def max_def)
  have "visit_by ?w n (max (wheel_tick (n_deadline (node_of w n))) ?k)" if a: "n_armed (node_of w n)" for n
  proof (cases "tw_cursor w + 1024 \<le> ?k")
    case True
    have "n_slot (node_of w n) < 1024"
      using tm a by (force simp: tw_time_def visit_by_def)
    then have "\<exists>t. t mod 1024 = n_slot (node_of w n) \<and> ?k - 1023 \<le> t \<and> t \<le> ?k"
      using True by (intro slot_window) auto
    with True f show ?thesis by (auto simp: visit_by_def le_max_iff_disj)
  next
    case False
    have "visit_by w n (max (wheel_tick (n_deadline (node_of w n))) (tw_now w div QN_TW_TICK_MS))"
      using tm a by (simp add: tw_time_def)
    then have "visit_by w n (max (wheel_tick (n_deadline (node_of w n))) ?k)"
      by (rule visit_by_mono) (auto simp: le_max_iff_disj intro: div_le_mono)
    with False f show ?thesis by (auto simp: visit_by_def)
  qed
  moreover have "n_deadline (node_of w n) \<le> ?now + UINT32_MAX" if "n_armed (node_of w n)" for n
  proof -
    have "n_deadline (node_of w n) \<le> tw_now w + UINT32_MAX" using tm that by (simp add: tw_time_def)
    then show ?thesis by (simp add: max_def)
  qed
  ultimately have "tw_time ?w" using tm c now f by (auto simp: tw_time_def)
  moreover have "tw_wf ?w L" using wf f by (simp add: tw_wf_def armed_set_def)
  ultimately show ?thesis by (auto simp: tw_inv_def)
qed

section \<open>Sweeping\<close>

lemma tw_wf_head:
  assumes "tw_wf w L" "tw_slot w i = Some n"
  shows "n_armed (node_of w n)" "n_slot (node_of w n) = i"
proof -
  have "n \<in> set (L i)" using tw_wf_slot_cases [OF assms(1), of i] assms(2) by (auto split: list.splits)
  then show "n_armed (node_of w n)" "n_slot (node_of w n) = i" using assms(1) by (simp_all add: tw_wf_def)
qed

lemma tw_wf_empty:
  assumes "tw_wf w L" "tw_slot w i = None" "n_armed (node_of w n)"
  shows "n_slot (node_of w n) \<noteq> i"
proof -
  have "L i = []" using tw_wf_slot_cases [OF assms(1), of i] assms(2) by (auto split: list.splits)
  then show ?thesis using assms(1,3) by (metis empty_iff empty_set tw_wf_def)
qed

text \<open>Stepping over an empty slot keeps the invariant.\<close>

lemma tw_inv_step:
  assumes inv: "tw_inv w" and e: "tw_slot w (tw_cursor w mod QN_TW_SLOTS) = None"
    and c: "tw_cursor w < tw_now w div QN_TW_TICK_MS"
  shows "tw_inv (w\<lparr>tw_cursor := tw_cursor w + 1\<rparr>)" (is "tw_inv ?w")
proof -
  obtain L where wf: "tw_wf w L" and tm: "tw_time w" using inv by (auto simp: tw_inv_def)
  have "visit_by ?w n T" if "visit_by w n T" "n_armed (node_of w n)" for n T
  proof -
    obtain t where t: "t mod QN_TW_SLOTS = n_slot (node_of w n)" "tw_cursor w \<le> t" "t \<le> T"
      using \<open>visit_by w n T\<close> by (auto simp: visit_by_def)
    moreover have "t \<noteq> tw_cursor w" using tw_wf_empty [OF wf e that(2)] t(1) by auto
    ultimately show ?thesis by (auto simp: visit_by_def intro!: exI [of _ t])
  qed
  then have "tw_time ?w" using tm c by (auto simp: tw_time_def)
  moreover have "tw_wf ?w L" using wf by (simp add: tw_wf_def armed_set_def)
  ultimately show ?thesis by (auto simp: tw_inv_def)
qed

text \<open>One turn of the loop on a node whose deadline has not come: it is put back, with the
  same deadline, in the slot of a later tick.\<close>

definition sweep_rearm :: "qn_timewheel \<Rightarrow> nat \<Rightarrow> qn_timewheel" where
  "sweep_rearm w n =
     (let w1 = qn_tw_disarm w n
      in qn_tw_arm w1 n (tw_now w1) ((n_deadline (node_of w1 n) - tw_now w1) mod 2 ^ 32))"

definition rearm_tick :: "qn_timewheel \<Rightarrow> nat \<Rightarrow> nat" where
  "rearm_tick w n = wheel_tick (min (n_deadline (node_of w n)) (tw_now w + (TW_SPAN_MS - 2 * QN_TW_TICK_MS)))"

lemma sweep_rearm:
  assumes inv: "tw_inv w" and a: "n_armed (node_of w n)" and late: "tw_now w < n_deadline (node_of w n)"
  shows "tw_inv (sweep_rearm w n)" "tw_now (sweep_rearm w n) = tw_now w"
    "tw_cursor (sweep_rearm w n) = tw_cursor w"
    "n_deadline (node_of (sweep_rearm w n) m) = n_deadline (node_of w m)"
    "n_armed (node_of (sweep_rearm w n) m) = n_armed (node_of w m)"
    "n_slot (node_of (sweep_rearm w n) m) =
       (if m = n then rearm_tick w n mod QN_TW_SLOTS else n_slot (node_of w m))"
proof -
  obtain L where wf: "tw_wf w L" and tm: "tw_time w" using inv by (auto simp: tw_inv_def)
  let ?w1 = "qn_tw_disarm w n"
  let ?d = "n_deadline (node_of w n)"
  have inv1: "tw_inv ?w1" by (rule tw_inv_disarm [OF inv])
  then obtain L1 where wf1: "tw_wf ?w1 L1" by (auto simp: tw_inv_def)
  have room: "card (armed_set ?w1) + 1 < 2 ^ 32"
    using card_armed_disarm [OF wf a] wf by (simp add: tw_wf_def)
  have un: "\<not> n_armed (node_of ?w1 n)" by (simp add: disarm_fields [OF wf])
  have d: "?d \<le> tw_now w + UINT32_MAX" "?d \<le> UINT64_MAX" "tw_now w \<le> UINT64_MAX"
    using tm a by (auto simp: tw_time_def)
  then have m: "(?d - tw_now w) mod 2 ^ 32 = ?d - tw_now w" using late by simp
  have eq: "sweep_rearm w n = qn_tw_arm ?w1 n (tw_now w) (?d - tw_now w)"
    unfolding sweep_rearm_def Let_def by (simp only: disarm_fields [OF wf] m)
  have nw: "arm_now ?w1 (tw_now w) = tw_now w" by (simp add: arm_now_def disarm_fields [OF wf])
  have tk: "arm_tick ?w1 (tw_now w) (?d - tw_now w) = rearm_tick w n"
  proof -
    have "sat_add (tw_now w) (min (?d - tw_now w) 8176) = min ?d (tw_now w + 8176)"
      using late d by (auto simp: sat_add_eq min_def)
    then show ?thesis by (simp add: arm_tick_def nw rearm_tick_def)
  qed
  have sd: "sat_add (tw_now w) (?d - tw_now w) = ?d" using late d by (simp add: sat_add_eq)
  show "tw_inv (sweep_rearm w n)"
    unfolding eq using inv1 un room d by (intro tw_inv_arm_unarmed) auto
  show "tw_now (sweep_rearm w n) = tw_now w" "tw_cursor (sweep_rearm w n) = tw_cursor w"
    "n_deadline (node_of (sweep_rearm w n) m) = n_deadline (node_of w m)"
    "n_armed (node_of (sweep_rearm w n) m) = n_armed (node_of w m)"
    "n_slot (node_of (sweep_rearm w n) m) =
       (if m = n then rearm_tick w n mod QN_TW_SLOTS else n_slot (node_of w m))"
    unfolding eq by (auto simp: arm_fields [OF wf1 un room] disarm_fields [OF wf] nw tk sd a)
qed

lemma tw_sweep_cases:
  assumes "tw_wf w L"
  shows "tw_sweep k w =
     (case tw_slot w (tw_cursor w mod QN_TW_SLOTS) of
        Some n \<Rightarrow> if tw_now w < n_deadline (node_of w n) then tw_sweep k (sweep_rearm w n)
                  else Some (Some n, qn_tw_disarm w n)
      | None \<Rightarrow> if k \<le> tw_cursor w then Some (None, w)
                else tw_sweep k (w\<lparr>tw_cursor := tw_cursor w + 1\<rparr>))"
  by (subst tw_sweep.simps)
    (simp add: sweep_rearm_def disarm_fields [OF assms] Let_def split: option.split)

text \<open>Induction over a sweep that returns: the two ways it ends and the two ways it goes on.\<close>

lemma tw_sweep_induct:
  assumes run: "tw_sweep k w = Some r" and inv: "tw_inv w" and k: "k = tw_now w div QN_TW_TICK_MS"
    and fire: "\<And>w n. tw_inv w \<Longrightarrow> tw_slot w (tw_cursor w mod QN_TW_SLOTS) = Some n \<Longrightarrow>
      n_deadline (node_of w n) \<le> tw_now w \<Longrightarrow> P w (Some n, qn_tw_disarm w n)"
    and idle: "\<And>w. tw_inv w \<Longrightarrow> tw_slot w (tw_cursor w mod QN_TW_SLOTS) = None \<Longrightarrow>
      tw_cursor w = tw_now w div QN_TW_TICK_MS \<Longrightarrow> P w (None, w)"
    and rearm: "\<And>w n r. tw_inv w \<Longrightarrow> tw_slot w (tw_cursor w mod QN_TW_SLOTS) = Some n \<Longrightarrow>
      tw_now w < n_deadline (node_of w n) \<Longrightarrow> P (sweep_rearm w n) r \<Longrightarrow> P w r"
    and step: "\<And>w r. tw_inv w \<Longrightarrow> tw_slot w (tw_cursor w mod QN_TW_SLOTS) = None \<Longrightarrow>
      tw_cursor w < tw_now w div QN_TW_TICK_MS \<Longrightarrow> P (w\<lparr>tw_cursor := tw_cursor w + 1\<rparr>) r \<Longrightarrow> P w r"
  shows "P w r"
proof -
  have "tw_inv w \<longrightarrow> k = tw_now w div QN_TW_TICK_MS \<longrightarrow> P w r"
  proof (rule tw_sweep.raw_induct [OF _ run, where P = "\<lambda>k w r. tw_inv w \<longrightarrow> k = tw_now w div QN_TW_TICK_MS \<longrightarrow> P w r"],
      intro impI)
    fix f k w r
    assume IH: "\<And>k w r. f k w = Some r \<Longrightarrow> tw_inv w \<longrightarrow> k = tw_now w div QN_TW_TICK_MS \<longrightarrow> P w r"
      and body: "(case tw_slot w (tw_cursor w mod QN_TW_SLOTS) of
        None \<Rightarrow> if k \<le> tw_cursor w then Some (None, w) else f k (w\<lparr>tw_cursor := tw_cursor w + 1\<rparr>)
        | Some n \<Rightarrow> let w1 = qn_tw_disarm w n in
            if tw_now w1 < n_deadline (node_of w1 n)
            then f k (qn_tw_arm w1 n (tw_now w1) ((n_deadline (node_of w1 n) - tw_now w1) mod 2 ^ 32))
            else Some (Some n, w1)) = Some r"
      and inv: "tw_inv w" and k: "k = tw_now w div QN_TW_TICK_MS"
    obtain L where wf: "tw_wf w L" and tm: "tw_time w" using inv by (auto simp: tw_inv_def)
    have c: "tw_cursor w \<le> k" using tm k by (simp add: tw_time_def)
    show "P w r"
    proof (cases "tw_slot w (tw_cursor w mod QN_TW_SLOTS)")
      case None
      show ?thesis
      proof (cases "k \<le> tw_cursor w")
        case True
        with None body c k show ?thesis using idle [OF inv None] by simp
      next
        case False
        have "f k (w\<lparr>tw_cursor := tw_cursor w + 1\<rparr>) = Some r" using None False body by simp
        with False k show ?thesis
          using step [OF inv None] IH tw_inv_step [OF inv None] by fastforce
      qed
    next
      case (Some n)
      have a: "n_armed (node_of w n)" by (rule tw_wf_head [OF wf Some])
      show ?thesis
      proof (cases "tw_now w < n_deadline (node_of w n)")
        case True
        then have "f k (sweep_rearm w n) = Some r"
          using Some body by (simp add: sweep_rearm_def Let_def disarm_fields [OF wf])
        then show ?thesis
          using rearm [OF inv Some True] IH sweep_rearm(1,2) [OF inv a True] k by simp
      next
        case False
        then have "r = (Some n, qn_tw_disarm w n)"
          using Some body by (simp add: Let_def disarm_fields [OF wf])
        with False show ?thesis using fire [OF inv Some] by simp
      qed
    qed
  qed
  with inv k show ?thesis by blast
qed

text \<open>What a returning sweep does to the wheel.\<close>

definition sweep_post :: "qn_timewheel \<Rightarrow> nat option \<times> qn_timewheel \<Rightarrow> bool" where
  "sweep_post w r \<longleftrightarrow>
     tw_inv (snd r) \<and> tw_now (snd r) = tw_now w \<and>
     (\<forall>m. n_deadline (node_of (snd r) m) = n_deadline (node_of w m)) \<and>
     armed_set (snd r) = armed_set w - set_option (fst r) \<and>
     (case fst r of
        Some n \<Rightarrow> n \<in> armed_set w \<and> n_deadline (node_of w n) \<le> tw_now w
      | None \<Rightarrow> \<forall>m \<in> armed_set w. tw_now w < n_deadline (node_of w m) + (QN_TW_TICK_MS - 1))"

lemma sweep_post_idle:
  assumes inv: "tw_inv w" and e: "tw_slot w (tw_cursor w mod QN_TW_SLOTS) = None"
    and c: "tw_cursor w = tw_now w div QN_TW_TICK_MS"
  shows "sweep_post w (None, w)"
proof -
  obtain L where wf: "tw_wf w L" and tm: "tw_time w" using inv by (auto simp: tw_inv_def)
  have "tw_now w < n_deadline (node_of w m) + 7" if a: "n_armed (node_of w m)" for m
  proof -
    obtain t where t: "t mod 1024 = n_slot (node_of w m)" "tw_cursor w \<le> t"
      "t \<le> max (wheel_tick (n_deadline (node_of w m))) (tw_now w div 8)"
      using tm a by (auto simp: tw_time_def visit_by_def)
    have "t \<noteq> tw_cursor w" using tw_wf_empty [OF wf e a] t(1) by auto
    with t c have "tw_now w div 8 < (n_deadline (node_of w m) + 7) div 8" by (auto simp: wheel_tick_eq)
    then show ?thesis by linarith
  qed
  with inv show ?thesis by (auto simp: sweep_post_def armed_set_def)
qed

lemma tw_sweep_post:
  assumes "tw_sweep k w = Some r" "tw_inv w" "k = tw_now w div QN_TW_TICK_MS"
  shows "sweep_post w r"
proof (rule tw_sweep_induct [OF assms])
  fix w n
  assume inv: "tw_inv w" and s: "tw_slot w (tw_cursor w mod QN_TW_SLOTS) = Some n"
    and d: "n_deadline (node_of w n) \<le> tw_now w"
  obtain L where wf: "tw_wf w L" using inv by (auto simp: tw_inv_def)
  show "sweep_post w (Some n, qn_tw_disarm w n)"
    using tw_inv_disarm [OF inv] tw_wf_head(1) [OF wf s] d
    by (auto simp: sweep_post_def armed_set_def disarm_fields [OF wf])
next
  fix w n r
  assume inv: "tw_inv w" and s: "tw_slot w (tw_cursor w mod QN_TW_SLOTS) = Some n"
    and d: "tw_now w < n_deadline (node_of w n)" and p: "sweep_post (sweep_rearm w n) r"
  obtain L where wf: "tw_wf w L" using inv by (auto simp: tw_inv_def)
  show "sweep_post w r"
    using p by (cases "fst r")
      (simp_all add: sweep_post_def armed_set_def sweep_rearm [OF inv tw_wf_head(1) [OF wf s] d])
next
  fix w r
  assume "sweep_post (w\<lparr>tw_cursor := tw_cursor w + 1\<rparr>) r"
  then show "sweep_post w r" by (cases "fst r") (simp_all add: sweep_post_def armed_set_def)
qed (rule sweep_post_idle)

section \<open>When the sweep ends\<close>

definition pending :: "qn_timewheel \<Rightarrow> nat set" where
  "pending w = {n \<in> armed_set w. visit_by w n (tw_now w div QN_TW_TICK_MS)}"

lemma same_slot_far: "t mod QN_TW_SLOTS = s mod QN_TW_SLOTS \<Longrightarrow> t < s \<Longrightarrow> t + QN_TW_SLOTS \<le> s"
  by (metis dvd_imp_le less_imp_le mod_eq_dvd_iff_nat zero_less_diff le_diff_conv2 add.commute)

lemma rearm_tick_late:
  "tw_now w < n_deadline (node_of w n) \<Longrightarrow> tw_now w div QN_TW_TICK_MS < rearm_tick w n"
  unfolding rearm_tick_def wheel_tick_eq by linarith

lemma pending_rearm:
  assumes inv: "tw_inv w" and s: "tw_slot w (tw_cursor w mod QN_TW_SLOTS) = Some n"
    and d: "tw_now w < n_deadline (node_of w n)" and near: "rearm_tick w n < tw_cursor w + QN_TW_SLOTS"
  shows "pending (sweep_rearm w n) = pending w - {n}" "n \<in> pending w"
proof -
  obtain L where wf: "tw_wf w L" and tm: "tw_time w" using inv by (auto simp: tw_inv_def)
  note a = tw_wf_head [OF wf s]
  note f = sweep_rearm [OF inv a(1) d]
  have "\<not> visit_by (sweep_rearm w n) n (tw_now w div QN_TW_TICK_MS)"
  proof
    assume "visit_by (sweep_rearm w n) n (tw_now w div QN_TW_TICK_MS)"
    then obtain t where "t mod QN_TW_SLOTS = rearm_tick w n mod QN_TW_SLOTS" "tw_cursor w \<le> t"
      "t \<le> tw_now w div QN_TW_TICK_MS" by (auto simp: visit_by_def f)
    then show False using same_slot_far [of t "rearm_tick w n"] rearm_tick_late [OF d] near by linarith
  qed
  then show "pending (sweep_rearm w n) = pending w - {n}"
    by (auto simp: pending_def armed_set_def f visit_by_def)
  show "n \<in> pending w" using a tm by (auto simp: pending_def armed_set_def visit_by_def tw_time_def)
qed

lemma sweep_returns:
  assumes "tw_inv w" "k = tw_now w div QN_TW_TICK_MS"
    "\<forall>n. n_armed (node_of w n) \<longrightarrow> tw_now w < n_deadline (node_of w n) \<longrightarrow>
         rearm_tick w n < tw_cursor w + QN_TW_SLOTS"
  shows "\<exists>r. tw_sweep k w = Some r"
  using assms
proof (induction "card (pending w) + (k - tw_cursor w)" arbitrary: w rule: less_induct)
  case less
  obtain L where wf: "tw_wf w L" and tm: "tw_time w" using less.prems(1) by (auto simp: tw_inv_def)
  have fin: "finite (pending w)" using wf by (simp add: tw_wf_def pending_def)
  show ?case
  proof (cases "tw_slot w (tw_cursor w mod QN_TW_SLOTS)")
    case None
    show ?thesis
    proof (cases "k \<le> tw_cursor w")
      case True
      then show ?thesis using None by (simp add: tw_sweep_cases [OF wf])
    next
      case False
      let ?w = "w\<lparr>tw_cursor := tw_cursor w + 1\<rparr>"
      have "pending ?w \<subseteq> pending w" by (auto simp: pending_def visit_by_def armed_set_def)
      then have "card (pending ?w) \<le> card (pending w)" by (rule card_mono [OF fin])
      then have "\<exists>r. tw_sweep k ?w = Some r"
        using less.prems False tw_inv_step [OF less.prems(1) None]
        by (intro less.hyps) (auto simp: rearm_tick_def)
      then show ?thesis using None False by (simp add: tw_sweep_cases [OF wf])
    qed
  next
    case (Some n)
    note a = tw_wf_head(1) [OF wf Some]
    show ?thesis
    proof (cases "tw_now w < n_deadline (node_of w n)")
      case True
      note f = sweep_rearm [OF less.prems(1) a True]
      have "card (pending (sweep_rearm w n)) < card (pending w)"
        using pending_rearm [OF less.prems(1) Some True] less.prems(3) a True fin
        by (metis card_Diff1_less)
      then have "\<exists>r. tw_sweep k (sweep_rearm w n) = Some r"
        using less.prems by (intro less.hyps) (auto simp: f rearm_tick_def)
      then show ?thesis using Some True by (simp add: tw_sweep_cases [OF wf])
    next
      case False
      then show ?thesis using Some by (simp add: tw_sweep_cases [OF wf])
    qed
  qed
qed

section \<open>When it does not\<close>

text \<open>
  A node more than a revolution away is put back \<open>TW_SPAN_MS - 2 * QN_TW_TICK_MS\<close> ahead of
  \<open>now\<close>.  Unless \<open>now\<close> is on a tick boundary this rounds up to \<open>now_tick + 1023\<close>, which is the
  slot of \<open>now_tick - 1\<close>.
\<close>

definition stuck :: "qn_timewheel \<Rightarrow> bool" where
  "stuck w \<longleftrightarrow>
     tw_now w mod QN_TW_TICK_MS \<noteq> 0 \<and> tw_cursor w < tw_now w div QN_TW_TICK_MS \<and>
     (\<forall>n. n_armed (node_of w n) \<longrightarrow> tw_now w < n_deadline (node_of w n)) \<and>
     (\<exists>n. n_armed (node_of w n) \<and> tw_now w + (TW_SPAN_MS - 2 * QN_TW_TICK_MS) \<le> n_deadline (node_of w n) \<and>
          n_slot (node_of w n) = (tw_now w div QN_TW_TICK_MS - 1) mod QN_TW_SLOTS)"

lemma far_rearm_slot:
  assumes "tw_now w mod QN_TW_TICK_MS \<noteq> 0" "0 < tw_now w div QN_TW_TICK_MS"
    "tw_now w + (TW_SPAN_MS - 2 * QN_TW_TICK_MS) \<le> n_deadline (node_of w n)"
  shows "rearm_tick w n mod QN_TW_SLOTS = (tw_now w div QN_TW_TICK_MS - 1) mod QN_TW_SLOTS"
proof -
  define q r where "q = tw_now w div 8" and "r = tw_now w mod 8 - 1"
  have qr: "tw_now w = 8 * q + r + 1" "r < 8" "0 < q" using assms by (auto simp: q_def r_def)
  have "rearm_tick w n = (tw_now w + 8183) div 8"
    using assms(3) by (simp add: rearm_tick_def wheel_tick_eq)
  also have "\<dots> = (8 * (q + 1023) + r) div 8" using qr by (simp add: algebra_simps)
  also have "\<dots> = (q - 1) + 1024" using qr by simp
  finally show ?thesis by (simp add: q_def)
qed

lemma sweep_stuck:
  assumes "tw_inv w" "k = tw_now w div QN_TW_TICK_MS" "stuck w"
  shows "tw_sweep k w = None"
proof (rule ccontr)
  assume "tw_sweep k w \<noteq> None"
  then obtain r where r: "tw_sweep k w = Some r" by blast
  have "\<not> stuck w"
  proof (rule tw_sweep_induct [OF r assms(1,2), where P = "\<lambda>w r. \<not> stuck w"])
    fix w n
    assume i: "tw_inv w" and s: "tw_slot w (tw_cursor w mod QN_TW_SLOTS) = Some n"
      and "n_deadline (node_of w n) \<le> tw_now w"
    then show "\<not> stuck w" using tw_wf_head(1) by (force simp: stuck_def tw_inv_def)
  next
    fix w n
    assume i: "tw_inv w" and s: "tw_slot w (tw_cursor w mod QN_TW_SLOTS) = Some n"
      and d: "tw_now w < n_deadline (node_of w n)" and IH: "\<not> stuck (sweep_rearm w n)"
    have a: "n_armed (node_of w n)" using i tw_wf_head(1) [OF _ s] by (auto simp: tw_inv_def)
    note f = sweep_rearm [OF i a d]
    show "\<not> stuck w"
    proof
      assume st: "stuck w"
      then obtain m where m: "n_armed (node_of w m)" "tw_now w + (TW_SPAN_MS - 2 * QN_TW_TICK_MS) \<le> n_deadline (node_of w m)"
        "n_slot (node_of w m) = (tw_now w div QN_TW_TICK_MS - 1) mod QN_TW_SLOTS"
        by (auto simp: stuck_def)
      then have "n_slot (node_of (sweep_rearm w n) m) = (tw_now w div QN_TW_TICK_MS - 1) mod QN_TW_SLOTS"
        using far_rearm_slot [of w n] st by (cases "m = n") (simp_all add: f stuck_def)
      with st m have "stuck (sweep_rearm w n)" unfolding stuck_def f by blast
      with IH show False by contradiction
    qed
  next
    fix w
    assume i: "tw_inv w" and s: "tw_slot w (tw_cursor w mod QN_TW_SLOTS) = None"
      and IH: "\<not> stuck (w\<lparr>tw_cursor := tw_cursor w + 1\<rparr>)"
    obtain L where wf: "tw_wf w L" using i by (auto simp: tw_inv_def)
    show "\<not> stuck w"
    proof
      assume st: "stuck w"
      then obtain n where n: "n_armed (node_of w n)"
        "n_slot (node_of w n) = (tw_now w div QN_TW_TICK_MS - 1) mod QN_TW_SLOTS"
        by (auto simp: stuck_def)
      then have "tw_cursor w \<noteq> tw_now w div QN_TW_TICK_MS - 1" using tw_wf_empty [OF wf s n(1)] by metis
      with st have "stuck (w\<lparr>tw_cursor := tw_cursor w + 1\<rparr>)" by (auto simp: stuck_def)
      with IH show False by contradiction
    qed
  qed (simp add: stuck_def)
  with assms(3) show False by contradiction
qed

section \<open>Reading the next timeout\<close>

lemma chain_soonest_seg:
  "seg h p a xs None \<Longrightarrow> chain_soonest h a s = Some (fold (\<lambda>n. min (n_deadline (h n))) xs s)"
proof (induction xs arbitrary: p a s)
  case Nil
  then show ?case by (simp add: chain_soonest.simps)
next
  case (Cons x xs)
  have a: "a = Some x" and sg: "seg h (Some x) (n_next (h x)) xs None" using Cons.prems by auto
  have "(if n_deadline (h x) < s then n_deadline (h x) else s) = min (n_deadline (h x)) s" by simp
  then show ?case unfolding a by (subst chain_soonest.simps) (simp add: Cons.IH [OF sg])
qed

lemma fold_min_le_start: "fold (\<lambda>n. min (f n)) xs (s::nat) \<le> s"
proof (induction xs arbitrary: s)
  case (Cons x xs)
  show ?case using Cons [of "min (f x) s"] by simp
qed simp

lemma fold_min_le: "n \<in> set xs \<Longrightarrow> fold (\<lambda>n. min (f n)) xs (s::nat) \<le> f n"
proof (induction xs arbitrary: s)
  case (Cons x xs)
  then show ?case using fold_min_le_start [of f xs "min (f x) s"] by auto
qed simp

lemma slots_soonest_wf:
  assumes wf: "tw_wf w L"
  shows "\<exists>m. slots_soonest w tick k s = Some m \<and> m \<le> s \<and>
    (\<forall>n t. n_armed (node_of w n) \<longrightarrow> tick \<le> t \<longrightarrow> t < tick + k \<longrightarrow> n_slot (node_of w n) = t mod QN_TW_SLOTS \<longrightarrow>
       m \<le> n_deadline (node_of w n))"
proof (induction k arbitrary: tick s)
  case 0
  then show ?case by simp
next
  case (Suc k)
  let ?xs = "L (tick mod QN_TW_SLOTS)"
  define s1 where "s1 = fold (\<lambda>n. min (n_deadline (node_of w n))) ?xs s"
  have ch: "chain_soonest (tw_nodes w) (tw_slot w (tick mod QN_TW_SLOTS)) s = Some s1"
    unfolding s1_def by (rule chain_soonest_seg [where p = None]) (use wf in \<open>simp add: tw_wf_def\<close>)
  obtain m where m: "slots_soonest w (Suc tick) k s1 = Some m" "m \<le> s1"
    "\<And>n t. n_armed (node_of w n) \<Longrightarrow> Suc tick \<le> t \<Longrightarrow> t < Suc tick + k \<Longrightarrow>
       n_slot (node_of w n) = t mod QN_TW_SLOTS \<Longrightarrow> m \<le> n_deadline (node_of w n)"
    using Suc.IH [of "Suc tick" s1] by blast
  have "m \<le> n_deadline (node_of w n)" if "n_armed (node_of w n)" "tick \<le> t" "t < tick + Suc k"
      "n_slot (node_of w n) = t mod QN_TW_SLOTS" for n t
  proof (cases "t = tick")
    case True
    then have "n \<in> set ?xs" using wf that by (simp add: tw_wf_def)
    then have "s1 \<le> n_deadline (node_of w n)" unfolding s1_def by (rule fold_min_le)
    with m(2) show ?thesis by (rule le_trans)
  qed (use that m(3) [of n t] in auto)
  moreover have "m \<le> s" using m(2) fold_min_le_start s1_def by (metis le_trans)
  ultimately show ?case using ch m(1) by auto
qed

text \<open>A node outside the window that the code reads is late enough.\<close>

lemma outside_window:
  assumes "t \<le> wheel_tick d" "now div 8 + (cap div 8 + 2) \<le> t"
  shows "now + cap \<le> d + 5"
  using assms unfolding wheel_tick_eq by linarith

lemma next_timeout_correct:
  assumes inv: "tw_inv w" and now: "now_ms + cap \<le> UINT64_MAX" "tw_now w + cap \<le> UINT64_MAX"
    and now': "now' = max now_ms (tw_now w)"
  shows "\<exists>r. qn_tw_next_timeout w now_ms cap = Some r \<and> r \<le> cap \<and>
    (\<forall>n. n_armed (node_of w n) \<longrightarrow> now' + r \<le> max now' (n_deadline (node_of w n) + 5))"
proof -
  obtain L where wf: "tw_wf w L" and tm: "tw_time w" using inv by (auto simp: tw_inv_def)
  let ?k = "now' div 8" let ?ahead = "min 1024 (cap div 8 + 2)"
  obtain m where m: "slots_soonest w ?k ?ahead UINT64_MAX = Some m" "m \<le> UINT64_MAX"
    "\<And>n t. n_armed (node_of w n) \<Longrightarrow> ?k \<le> t \<Longrightarrow> t < ?k + ?ahead \<Longrightarrow>
       n_slot (node_of w n) = t mod 1024 \<Longrightarrow> m \<le> n_deadline (node_of w n)"
    using slots_soonest_wf [OF wf, of ?k ?ahead UINT64_MAX] by metis
  define r where "r = (if tw_armed w = 0 then cap else if tw_cursor w < ?k then 0
     else if m = UINT64_MAX then cap else if m \<le> now' then 0 else min (m - now') cap)"
  have nw: "(if now_ms < tw_now w then tw_now w else now_ms) = now'" by (simp add: now')
  have ah: "(if 1024 < cap div 8 + 2 then 1024 else cap div 8 + 2) = ?ahead" by simp
  have eq: "qn_tw_next_timeout w now_ms cap = Some r"
    unfolding qn_tw_next_timeout_def Let_def nw ah r_def using m(1) by simp
  have none: "\<not> n_armed (node_of w n)" if "tw_armed w = 0" for n
    using wf that by (auto simp: tw_wf_def armed_set_def)
  have "now' + r \<le> max now' (n_deadline (node_of w n) + 5)" if a: "n_armed (node_of w n)" for n
  proof (cases "tw_cursor w < ?k")
    case True
    with none [of n] a show ?thesis by (auto simp: r_def)
  next
    case False
    moreover have "tw_now w div 8 \<le> ?k" by (simp add: now' div_le_mono)
    ultimately have c: "tw_cursor w = ?k" "tw_now w div 8 = ?k"
      using tm by (simp_all add: tw_time_def)
    obtain t where t: "t mod 1024 = n_slot (node_of w n)" "?k \<le> t"
      "t \<le> max (wheel_tick (n_deadline (node_of w n))) ?k"
      using tm a c by (auto simp: tw_time_def visit_by_def)
    show ?thesis
    proof (cases "t < ?k + ?ahead \<or> ?ahead = 1024")
      case True
      then obtain t' where "?k \<le> t'" "t' < ?k + ?ahead" "t' mod 1024 = n_slot (node_of w n)"
      proof (cases "t < ?k + ?ahead")
        case False
        with True have "?ahead = 1024" by simp
        moreover obtain t' where "t' mod 1024 = n_slot (node_of w n)" "?k + 1023 - 1023 \<le> t'" "t' \<le> ?k + 1023"
          using slot_window [of "n_slot (node_of w n)" "?k + 1023"] t(1)
          by (metis mod_less_divisor zero_less_numeral le_add2)
        ultimately show ?thesis using that [of t'] by auto
      qed (use t in auto)
      then have md: "m \<le> n_deadline (node_of w n)" using m(3) a by metis
      have mc: "now' + cap \<le> UINT64_MAX" using now now' by (simp add: max_def)
      have "now' + r \<le> max now' m"
        using False none [of n] a mc by (auto simp: r_def min_def max_def)
      with md show ?thesis by simp
    next
      case False
      then have tk: "?k + (cap div 8 + 2) \<le> t" by (simp add: min_def split: if_splits)
      then have "t \<le> wheel_tick (n_deadline (node_of w n))" using t(3) by (simp add: max_def split: if_splits)
      then have "now' + cap \<le> n_deadline (node_of w n) + 5" using tk by (rule outside_window)
      moreover have "r \<le> cap" by (auto simp: r_def)
      ultimately show ?thesis by linarith
    qed
  qed
  moreover have "r \<le> cap" by (auto simp: r_def)
  ultimately show ?thesis using eq by blast
qed

section \<open>Reachable wheels\<close>

text \<open>The wheels a worker can have, through any sequence of calls.\<close>

inductive tw_reach :: "qn_timewheel \<Rightarrow> bool" where
  init: "(\<And>n. \<not> n_armed (nodes n)) \<Longrightarrow> now_ms \<le> UINT64_MAX \<Longrightarrow> tw_reach (qn_tw_init nodes now_ms)"
| arm: "tw_reach w \<Longrightarrow> card (armed_set w) + 1 < 2 ^ 32 \<Longrightarrow> now_ms \<le> UINT64_MAX \<Longrightarrow> after_ms \<le> UINT32_MAX \<Longrightarrow>
    tw_reach (qn_tw_arm w n now_ms after_ms)"
| disarm: "tw_reach w \<Longrightarrow> tw_reach (qn_tw_disarm w n)"
| expire: "tw_reach w \<Longrightarrow> now_ms \<le> UINT64_MAX \<Longrightarrow> qn_tw_expire w now_ms = Some (res, w') \<Longrightarrow> tw_reach w'"

lemma advance_fields:
  "tw_nodes (tw_advance w now_ms) = tw_nodes w" "armed_set (tw_advance w now_ms) = armed_set w"
  "tw_now (tw_advance w now_ms) = max (tw_now w) now_ms"
  by (auto simp: tw_advance_def Let_def max_def armed_set_def)

lemma expire_post:
  assumes "tw_inv w" "now_ms \<le> UINT64_MAX" "qn_tw_expire w now_ms = Some r"
  shows "sweep_post (tw_advance w now_ms) r"
  using tw_inv_advance [OF assms(1,2)] assms(3)
  by (intro tw_sweep_post) (auto simp: qn_tw_expire_def Let_def)

lemma reach_inv: "tw_reach w \<Longrightarrow> tw_inv w"
proof (induction rule: tw_reach.induct)
  case (expire w now_ms res w')
  then show ?case using expire_post [of w now_ms "(res, w')"] by (simp add: sweep_post_def)
qed (auto intro: tw_inv_init tw_inv_arm tw_inv_disarm)

lemma expire_None:
  assumes "tw_inv w" "now_ms \<le> UINT64_MAX" "stuck (tw_advance w now_ms)"
  shows "qn_tw_expire w now_ms = None"
  using sweep_stuck [OF tw_inv_advance [OF assms(1,2)] refl assms(3)]
  by (simp add: qn_tw_expire_def Let_def)

definition idle_nodes :: "nat \<Rightarrow> tw_node" where
  "idle_nodes = (\<lambda>_. \<lparr>n_prev = None, n_next = None, n_deadline = 0, n_slot = 0, n_armed = False\<rparr>)"

text \<open>One node armed at time 0, for the examples below.\<close>

definition one_armed :: "nat \<Rightarrow> qn_timewheel" where
  "one_armed after = qn_tw_arm (qn_tw_init idle_nodes 0) 0 0 after"

lemma one_armed_reach: "after \<le> UINT32_MAX \<Longrightarrow> tw_reach (one_armed after)"
  unfolding one_armed_def
  by (intro tw_reach.intros) (auto simp: idle_nodes_def qn_tw_init_def armed_set_def)

lemma one_armed_eq:
  "one_armed after = \<lparr>tw_nodes = idle_nodes(0 := \<lparr>n_prev = None, n_next = None, n_deadline = sat_add 0 after,
      n_slot = wheel_tick (sat_add 0 (min after 8176)) mod 1024, n_armed = True\<rparr>),
    tw_slot = (\<lambda>_. None)(wheel_tick (sat_add 0 (min after 8176)) mod 1024 := Some 0),
    tw_now = 0, tw_cursor = 0, tw_armed = 1\<rparr>"
  by (simp add: one_armed_def qn_tw_arm_def qn_tw_init_def idle_nodes_def set_node_def Let_def min_def)

section \<open>Properties\<close>

text \<open>Property C8. When \<open>qn_tw_expire\<close> hands out a node, the node was armed and its deadline has
  passed; when it answers NULL, no armed node is overdue by 7 ms or more.  Either way every
  other node stays armed with the deadline it had, and the wheel stays reachable.\<close>

theorem expire_sound:
  assumes "tw_reach w" "now_ms \<le> UINT64_MAX" "qn_tw_expire w now_ms = Some (res, w')"
  shows "(case res of
      Some n \<Rightarrow> n \<in> armed_set w \<and> n_deadline (node_of w n) \<le> max (tw_now w) now_ms
    | None \<Rightarrow> \<forall>m \<in> armed_set w. max (tw_now w) now_ms < n_deadline (node_of w m) + (QN_TW_TICK_MS - 1)) \<and>
    armed_set w' = armed_set w - set_option res \<and>
    (\<forall>m. n_deadline (node_of w' m) = n_deadline (node_of w m)) \<and> tw_reach w'"
  using expire_post [OF reach_inv [OF assms(1)] assms(2,3)] tw_reach.expire [OF assms]
  by (cases res) (simp_all add: sweep_post_def advance_fields)

theorem expire_sound_witness:
  "\<exists>w'. qn_tw_expire (one_armed 10) 100 = Some (Some 0, w') \<and> armed_set w' = {}"
proof -
  obtain w' where r: "qn_tw_expire (one_armed 10) 100 = Some (Some 0, w')"
    by (simp add: one_armed_eq qn_tw_expire_def tw_advance_def wheel_tick_def sat_add_def)
      (simp add: tw_sweep.simps [of _ "_\<lparr>tw_cursor := _\<rparr>"] tw_sweep.simps Let_def qn_tw_disarm_def set_node_def)
  have "armed_set (one_armed 10) = {0}"
    by (auto simp: one_armed_eq armed_set_def idle_nodes_def)
  then show ?thesis
    using expire_sound [OF one_armed_reach _ r] r by auto
qed

text \<open>Property C9. \<open>qn_tw_expire\<close> returns whenever every armed node that is not yet due is put back
  less than one revolution past the point where the sweep starts.\<close>

theorem expire_returns:
  assumes "tw_reach w" "now_ms \<le> UINT64_MAX"
    "\<And>n. n \<in> armed_set w \<Longrightarrow>
       wheel_tick (min (n_deadline (node_of w n)) (max (tw_now w) now_ms + (TW_SPAN_MS - 2 * QN_TW_TICK_MS)))
         < tw_cursor (tw_advance w now_ms) + QN_TW_SLOTS"
  shows "\<exists>res w'. qn_tw_expire w now_ms = Some (res, w')"
proof -
  have "\<exists>r. qn_tw_expire w now_ms = Some r"
    unfolding qn_tw_expire_def Let_def using assms(3)
    by (intro sweep_returns tw_inv_advance reach_inv assms)
      (auto simp: advance_fields rearm_tick_def armed_set_def)
  then show ?thesis by (metis surj_pair)
qed

theorem expire_returns_witness: "\<exists>res w'. qn_tw_expire (one_armed 5000) 8190 = Some (res, w')"
  by (rule expire_returns [OF one_armed_reach])
    (auto simp: one_armed_eq armed_set_def idle_nodes_def tw_advance_def wheel_tick_def sat_add_def Let_def
      split: if_splits)

text \<open>Property C10. \<open>qn_tw_expire\<close> never returns when the clock is off a tick boundary, no armed node
  is due, and a node at least \<open>TW_SPAN_MS - 2 * QN_TW_TICK_MS\<close> ahead sits in the slot just
  before the current tick with the sweep still behind it: the loop finds it, puts it back in
  the same slot and finds it again.  One node armed for 60 s and a single sweep 8190 ms
  later is enough.\<close>

theorem expire_hangs:
  assumes "tw_reach w" "now_ms \<le> UINT64_MAX" "now = max (tw_now w) now_ms" "now mod QN_TW_TICK_MS \<noteq> 0"
    "tw_cursor w < now div QN_TW_TICK_MS"
    "\<And>m. m \<in> armed_set w \<Longrightarrow> now < n_deadline (node_of w m)"
    "n \<in> armed_set w" "now + (TW_SPAN_MS - 2 * QN_TW_TICK_MS) \<le> n_deadline (node_of w n)"
    "n_slot (node_of w n) = (now div QN_TW_TICK_MS - 1) mod QN_TW_SLOTS"
  shows "qn_tw_expire w now_ms = None"
proof (rule expire_None [OF reach_inv [OF assms(1)] assms(2)])
  have "tw_cursor (tw_advance w now_ms) < now div QN_TW_TICK_MS"
    using assms(3,5) by (auto simp: tw_advance_def Let_def max_def)
  then show "stuck (tw_advance w now_ms)"
    using assms unfolding stuck_def advance_fields armed_set_def by auto
qed

theorem expire_hangs_witness: "qn_tw_expire (one_armed 60000) 8190 = None"
  by (rule expire_hangs [OF one_armed_reach, where now = 8190 and n = 0])
    (auto simp: one_armed_eq armed_set_def idle_nodes_def wheel_tick_def sat_add_def split: if_splits)

text \<open>\<open>qn_tw_next_timeout\<close> always returns, never more than its cap, and sleeping that
  long oversleeps no armed deadline by more than 5 ms.\<close>

lemma next_timeout_ok:
  assumes "tw_reach w" "max now_ms (tw_now w) + cap \<le> UINT64_MAX"
  shows "\<exists>r. qn_tw_next_timeout w now_ms cap = Some r \<and> r \<le> cap \<and>
    (\<forall>n \<in> armed_set w. max now_ms (tw_now w) + r
        \<le> max (max now_ms (tw_now w)) (n_deadline (node_of w n) + 5))"
  using next_timeout_correct [OF reach_inv [OF assms(1)], of now_ms cap] assms(2)
  by (auto simp: armed_set_def max_def split: if_splits)

end
