(* ===== verification/Arena.thy ===== *)
theory Arena
  imports Qn_Prelude
begin

text \<open>
  \<^verbatim>\<open>src/core/arena.c\<close>: the bump allocator that every worker carves its buffers from.  Sizes
  and offsets keep their 64 bits, because the guards of the code exist to stop them from
  wrapping.  An arena holds the address of its mapping (\<open>None\<close> for \<open>NULL\<close>) and the bytes
  of the mapping by offset.  \<open>sysconf\<close> and \<open>mmap\<close> are parameters.

  The lemmas show that a block is aligned, zeroed, inside the mapping and disjoint from every
  block handed out since the last reset, and that allocation fails exactly when a block of
  that size does not fit.
\<close>

record qn_arena =
  a_base :: "u64 option"
  a_cap :: u64
  a_used :: u64
  a_peak :: u64
  a_mem :: "nat \<Rightarrow> u8"

definition align_up :: "u64 \<Rightarrow> u64 \<Rightarrow> u64" where
  "align_up x align = (x + align - 1) AND NOT (align - 1)"

definition arena_page :: "int \<Rightarrow> u64" where
  "arena_page pg = (if 0 < pg then word_of_int pg else 4096)"

definition qn_arena_init :: "int \<Rightarrow> (u64 \<Rightarrow> u64 option) \<Rightarrow> qn_arena \<Rightarrow> u64 \<Rightarrow> bool \<times> qn_arena" where
  "qn_arena_init pg mmap a cap =
     (let page = arena_page pg in
      if cap = 0 \<or> cap > - 1 - (page - 1) then (False, a)
      else
        (let zeroed = \<lparr>a_base = None, a_cap = 0, a_used = 0, a_peak = 0, a_mem = a_mem a\<rparr>;
             cap = align_up cap page
         in case mmap cap of
              None \<Rightarrow> (False, zeroed)
            | Some p \<Rightarrow> (True, \<lparr>a_base = Some p, a_cap = cap, a_used = 0, a_peak = 0, a_mem = (\<lambda>_. 0)\<rparr>)))"

definition qn_arena_free :: "qn_arena \<Rightarrow> qn_arena" where
  "qn_arena_free a =
     (if a_base a = None then a else a\<lparr>a_base := None, a_cap := 0, a_used := 0, a_peak := 0\<rparr>)"

text \<open>The pre-fault loop reads one byte of every page and stores it back.\<close>

fun prefault_pages :: "nat \<Rightarrow> nat list \<Rightarrow> (nat \<Rightarrow> u8) \<Rightarrow> nat \<Rightarrow> u8" where
  "prefault_pages page [] m = m"
| "prefault_pages page (i # is) m = prefault_pages page is (let value = m i in m(i := value))"

definition qn_arena_prefault :: "int \<Rightarrow> qn_arena \<Rightarrow> qn_arena" where
  "qn_arena_prefault pg a =
     (let page = unat (arena_page pg) in
      if a_base a = None then a
      else a\<lparr>a_mem := prefault_pages page (filter (\<lambda>i. page dvd i) [0..<unat (a_cap a)]) (a_mem a)\<rparr>)"

definition qn_arena_reset :: "qn_arena \<Rightarrow> qn_arena" where
  "qn_arena_reset a =
     (let a1 = (if a_used a > a_peak a then a\<lparr>a_peak := a_used a\<rparr> else a)
      in a1\<lparr>a_used := 0\<rparr>)"

definition qn_arena_alloc :: "qn_arena \<Rightarrow> u64 \<Rightarrow> u64 \<Rightarrow> u64 option \<times> qn_arena" where
  "qn_arena_alloc a n align =
     (case a_base a of
        None \<Rightarrow> (None, a)
      | Some base \<Rightarrow>
          if n = 0 \<or> align = 0 \<or> align AND (align - 1) \<noteq> 0 \<or> a_used a > - 1 - (align - 1) then (None, a)
          else
            (let off = align_up (a_used a) align in
             if off > a_cap a \<or> n > a_cap a - off then (None, a)
             else
               (let a1 = a\<lparr>a_used := off + n\<rparr>;
                    a2 = (if a_used a1 > a_peak a1 then a1\<lparr>a_peak := a_used a1\<rparr> else a1);
                    a3 = a2\<lparr>a_mem := (\<lambda>i. if unat off \<le> i \<and> i < unat off + unat n then 0 else a_mem a2 i)\<rparr>
                in (Some (base + off), a3))))"

definition qn_arena_array :: "qn_arena \<Rightarrow> u64 \<Rightarrow> u64 \<Rightarrow> u64 \<Rightarrow> u64 option \<times> qn_arena" where
  "qn_arena_array a item_size count align =
     (if item_size = 0 \<or> count = 0 \<or> item_size > (- 1) div count then (None, a)
      else qn_arena_alloc a (item_size * count) align)"

section \<open>Rounding up to a power of two\<close>

lemma nat_and_pred_pow2: "0 < n \<Longrightarrow> n AND (n - 1) = 0 \<Longrightarrow> \<exists>k. n = 2 ^ k" for n :: nat
proof (induction n rule: less_induct)
  case (less n)
  show ?case
  proof (cases "even n")
    case True
    then obtain m where m: "n = 2 * m" by blast
    then have mp: "0 < m" using less.prems by simp
    have "n AND (n - 1) = 2 * (m AND (m - 1))"
    proof -
      have "(2 * m - 1) div 2 = m - 1" "odd (2 * m - 1)" using mp by (cases m; simp)+
      then show ?thesis unfolding m by (subst and_nat_rec) simp
    qed
    then have "m AND (m - 1) = 0" using less.prems by simp
    then obtain k where "m = 2 ^ k" using less.IH [of m] m mp by auto
    then have "n = 2 ^ Suc k" using m by simp
    then show ?thesis by blast
  next
    case False
    then obtain m where m: "n = 2 * m + 1" by (elim oddE)
    have "n AND (n - 1) = 2 * m" unfolding m by (subst and_nat_rec) simp
    then have "n = 2 ^ 0" using m less.prems by simp
    then show ?thesis by blast
  qed
qed

lemma u64_pow2:
  fixes align :: u64
  assumes "unat align = 2 ^ k"
  shows "k < 64" "align = 2 ^ k"
proof -
  have "(2::nat) ^ k < 2 ^ 64" using unat_lt_size(4) [of align] assms by simp
  then show "k < 64" by (rule power_less_imp_less_exp [rotated]) simp
  have "align = word_of_nat (unat align)" by simp
  then show "align = 2 ^ k" using assms by simp
qed

lemma word_pow2:
  fixes align :: u64
  assumes "align \<noteq> 0" "align AND (align - 1) = 0"
  shows "\<exists>k<64. align = 2 ^ k \<and> unat align = 2 ^ k"
proof -
  have "unat (align - 1) = unat align - 1"
    using assms(1) by (subst unat_sub) (auto simp: word_le_nat_alt unat_gt_0 Suc_le_eq)
  moreover have "unat align AND unat (align - 1) = 0"
    using assms(2) by (metis unsigned_and_eq unsigned_0)
  ultimately obtain k where k: "unat align = 2 ^ k"
    using nat_and_pred_pow2 [of "unat align"] assms(1) by (auto simp: unat_gt_0)
  then show ?thesis using u64_pow2 by blast
qed

lemma align_up_nat:
  assumes k: "unat align = 2 ^ k" and room: "unat x + 2 ^ k \<le> 2 ^ 64"
  shows "unat (align_up x align) = (unat x + (2 ^ k - 1)) div 2 ^ k * 2 ^ k"
proof -
  let ?y = "x + align - 1"
  have p: "unat (align - 1) = 2 ^ k - 1"
    using k by (subst unat_sub) (auto simp: word_le_nat_alt)
  have e: "?y = x + (align - 1)" by simp
  have "unat (x + (align - 1)) = unat x + unat (align - 1)"
    by (rule unat_add_u64) (use room in \<open>simp add: p order_less_le_trans [OF _ room]\<close>)
  then have y: "unat ?y = unat x + (2 ^ k - 1)" unfolding e p .
  have "align_up x align = ?y AND NOT (mask k)"
    by (simp add: align_up_def u64_pow2(2) [OF k] mask_eq_exp_minus_1)
  also have "\<dots> = push_bit k (drop_bit k ?y)"
    by (rule bit_word_eqI) (auto simp: bit_simps)
  finally have "unat (align_up x align) = take_bit 64 (push_bit k (drop_bit k (unat ?y)))"
    using take_bit_nat_eq_self [of "unat ?y" 64] by (simp add: unsigned_push_bit_eq unsigned_drop_bit_eq)
  also have "\<dots> = take_bit 64 (unat ?y div 2 ^ k * 2 ^ k)"
    by (simp only: push_bit_eq_mult drop_bit_eq_div)
  also have "\<dots> = unat ?y div 2 ^ k * 2 ^ k"
  proof (rule take_bit_nat_eq_self)
    have "unat ?y div 2 ^ k * 2 ^ k \<le> unat ?y" by simp
    then show "unat ?y div 2 ^ k * 2 ^ k < 2 ^ 64"
      by (rule order_le_less_trans) simp
  qed
  finally show ?thesis by (simp only: y)
qed

section \<open>Blocks\<close>

definition arena_ok :: "qn_arena \<Rightarrow> bool" where
  "arena_ok a \<longleftrightarrow> a_used a \<le> a_peak a \<and> a_peak a \<le> a_cap a \<and> (a_base a = None \<longrightarrow> a_cap a = 0)"

text \<open>The offset a block of that alignment would start at, in unbounded arithmetic.\<close>

definition block_off :: "qn_arena \<Rightarrow> u64 \<Rightarrow> nat" where
  "block_off a align = (unat (a_used a) + (unat align - 1)) div unat align * unat align"

lemma block_off_bounds:
  assumes "0 < unat align"
  shows "unat (a_used a) \<le> block_off a align" "unat align dvd block_off a align"
    "block_off a align < unat (a_used a) + unat align"
proof -
  let ?x = "unat (a_used a) + (unat align - 1)"
  have "?x = block_off a align + ?x mod unat align" by (simp add: block_off_def)
  moreover have "?x mod unat align < unat align" using assms by simp
  ultimately show "unat (a_used a) \<le> block_off a align" using assms by linarith
  have "block_off a align \<le> ?x" by (simp add: block_off_def)
  then show "block_off a align < unat (a_used a) + unat align" using assms by linarith
qed (simp add: block_off_def)

definition fits :: "qn_arena \<Rightarrow> u64 \<Rightarrow> u64 \<Rightarrow> bool" where
  "fits a n align \<longleftrightarrow> a_base a \<noteq> None \<and> n \<noteq> 0 \<and> (\<exists>k. unat align = 2 ^ k) \<and>
     block_off a align + unat n \<le> unat (a_cap a)"

lemma pow2_and_pred: "unat align = 2 ^ k \<Longrightarrow> align AND (align - 1) = 0" for align :: u64
proof -
  assume k: "unat align = 2 ^ k"
  from u64_pow2(2) [OF k] have "align AND (align - 1) = 2 ^ k AND mask k" by (simp add: mask_eq_exp_minus_1)
  also have "\<dots> = 0" by (rule bit_word_eqI) (auto simp: bit_simps)
  finally show ?thesis .
qed

text \<open>Allocation in unbounded arithmetic: the guards of the code rule every wrap-around out.\<close>

lemma arena_alloc_eq:
  assumes ok: "arena_ok a"
  shows "qn_arena_alloc a n align =
    (if fits a n align
     then (Some (the (a_base a) + word_of_nat (block_off a align)),
           a\<lparr>a_used := word_of_nat (block_off a align + unat n),
             a_peak := max (a_peak a) (word_of_nat (block_off a align + unat n)),
             a_mem := (\<lambda>i. if block_off a align \<le> i \<and> i < block_off a align + unat n then 0 else a_mem a i)\<rparr>)
     else (None, a))"
proof (cases "a_base a = None \<or> n = 0 \<or> align = 0 \<or> align AND (align - 1) \<noteq> 0")
  case True
  then have "\<not> fits a n align"
    using pow2_and_pred [of align] by (auto simp: fits_def)
  with True show ?thesis by (auto simp: qn_arena_alloc_def split: option.split)
next
  case False
  then obtain base where base: "a_base a = Some base" by (cases "a_base a") auto
  obtain k where k: "unat align = 2 ^ k" using word_pow2 False by blast
  have big: "a_used a > - 1 - (align - 1) \<longleftrightarrow> 2 ^ 64 < unat (a_used a) + 2 ^ k"
  proof -
    have k2: "(2::nat) ^ k < 2 ^ 64" using u64_pow2(1) [OF k] by (rule power_strict_increasing) simp
    have p: "unat (align - 1) = 2 ^ k - 1" using k by (subst unat_sub) (auto simp: word_le_nat_alt)
    have "unat (- 1 - (align - 1)) = 2 ^ 64 - 1 - (2 ^ k - 1)"
      using k2 by (subst unat_sub) (simp_all add: p word_le_nat_alt unat_max_word)
    moreover note k2
    ultimately show ?thesis by (auto simp: word_less_nat_alt)
  qed
  show ?thesis
  proof (cases "2 ^ 64 < unat (a_used a) + 2 ^ k")
    case True
    have "2 ^ 64 \<le> block_off a align + 0"
    proof -
      have "(2::nat) ^ k dvd 2 ^ 64" using u64_pow2(1) [OF k] by (intro le_imp_power_dvd) simp
      then obtain c where c: "(2::nat) ^ 64 = 2 ^ k * c" by (auto elim: dvdE)
      have "c \<le> (unat (a_used a) + (2 ^ k - 1)) div 2 ^ k"
        using True c by (simp add: less_eq_div_iff_mult_less_eq mult.commute)
      then have "c * 2 ^ k \<le> block_off a align" unfolding block_off_def k by (rule mult_le_mono1)
      then show ?thesis using c by (simp add: mult.commute)
    qed
    then have "18446744073709551616 \<le> block_off a align" by simp
    then have "unat (a_cap a) < block_off a align + unat n" using unat_lt_size(4) [of "a_cap a"] by linarith
    then have "\<not> fits a n align" by (simp add: fits_def)
    with True big base show ?thesis by (simp add: qn_arena_alloc_def)
  next
    case le: False
    have off: "unat (align_up (a_used a) align) = block_off a align"
      using align_up_nat [OF k, of "a_used a"] le by (simp add: block_off_def k)
    let ?off = "align_up (a_used a) align"
    have nf: "?off > a_cap a \<or> n > a_cap a - ?off \<longleftrightarrow> \<not> fits a n align"
    proof (cases "?off \<le> a_cap a")
      case True
      then have "unat (a_cap a - ?off) = unat (a_cap a) - block_off a align" by (simp add: unat_sub_le off)
      with True base False k show ?thesis
        by (auto simp: fits_def word_less_nat_alt word_le_nat_alt off not_less)
    next
      case oo: False
      then show ?thesis by (auto simp: fits_def word_le_nat_alt word_less_nat_alt off not_less not_le)
    qed
    have w: "?off = word_of_nat (block_off a align)" "?off + n = word_of_nat (block_off a align + unat n)"
      by (simp_all add: off [symmetric])
    show ?thesis
      using False big le base nf
      by (auto simp: qn_arena_alloc_def Let_def w [symmetric] off max_def cong: if_cong)
  qed
qed

lemma fits_bounds:
  assumes "fits a n align"
  shows "block_off a align + unat n < 2 ^ 64" "0 < unat align" "0 < unat n"
    "unat (word_of_nat (block_off a align + unat n) :: u64) = block_off a align + unat n"
proof -
  show s: "block_off a align + unat n < 2 ^ 64"
    using assms order_le_less_trans [OF _ unat_lt_size(4), of _ "a_cap a"] by (auto simp: fits_def)
  show "unat (word_of_nat (block_off a align + unat n) :: u64) = block_off a align + unat n"
    using s by (rule unat_word_of_nat)
qed (use assms in \<open>auto simp: fits_def unat_gt_0\<close>)

lemma arena_ok_alloc:
  assumes ok: "arena_ok a"
  shows "arena_ok (snd (qn_arena_alloc a n align))"
proof (cases "fits a n align")
  case True
  note b = fits_bounds [OF True]
  have "block_off a align + unat n \<le> unat (a_cap a)" using True by (simp add: fits_def)
  then have "(word_of_nat (block_off a align + unat n) :: u64) \<le> a_cap a"
    by (simp add: word_le_nat_alt b(4) del: of_nat_add)
  then show ?thesis using ok True by (auto simp: arena_alloc_eq arena_ok_def max_def)
qed (use ok in \<open>auto simp: arena_alloc_eq\<close>)

lemma arena_ok_reset: "arena_ok a \<Longrightarrow> arena_ok (qn_arena_reset a)"
  by (auto simp: arena_ok_def qn_arena_reset_def Let_def)

lemma arena_ok_free: "arena_ok a \<Longrightarrow> arena_ok (qn_arena_free a)"
  by (auto simp: arena_ok_def qn_arena_free_def)

lemma arena_ok_init: "qn_arena_init pg mmap a cap = (True, a') \<Longrightarrow> arena_ok a'"
  by (auto simp: arena_ok_def qn_arena_init_def Let_def split: if_splits option.splits)

lemma prefault_pages_id: "prefault_pages page is m = m"
  by (induction "is" arbitrary: m) simp_all

lemma arena_prefault_id: "qn_arena_prefault pg a = a"
  by (simp add: qn_arena_prefault_def prefault_pages_id Let_def)

text \<open>A run of allocations with no reset in between: the blocks as offset ranges.\<close>

fun arena_run :: "qn_arena \<Rightarrow> (u64 \<times> u64) list \<Rightarrow> (nat \<times> nat) list" where
  "arena_run a [] = []"
| "arena_run a ((n, align) # reqs) =
     (case qn_arena_alloc a n align of
        (Some p, a') \<Rightarrow> (unat (p - the (a_base a)), unat n) # arena_run a' reqs
      | (None, a') \<Rightarrow> arena_run a' reqs)"

lemma alloc_offset:
  "fits a n align \<Longrightarrow> unat (the (a_base a) + word_of_nat (block_off a align) - the (a_base a)) = block_off a align"
  using fits_bounds(1) [of a n align] by simp

lemma arena_run_from:
  assumes "arena_ok a"
  shows "(\<forall>r \<in> set (arena_run a reqs). unat (a_used a) \<le> fst r \<and> fst r + snd r \<le> unat (a_cap a)) \<and>
    sorted_wrt (\<lambda>r s. fst r + snd r \<le> fst s) (arena_run a reqs)"
  using assms
proof (induction reqs arbitrary: a)
  case (Cons r reqs)
  obtain n align where r: "r = (n, align)" by (cases r)
  let ?a = "snd (qn_arena_alloc a n align)"
  note IH = Cons.IH [OF arena_ok_alloc [OF Cons.prems, of n align]]
  show ?case
  proof (cases "fits a n align")
    case True
    note b = fits_bounds [OF True]
    have f: "unat (a_used ?a) = block_off a align + unat n" "a_cap ?a = a_cap a"
      using True Cons.prems b(4) by (simp_all add: arena_alloc_eq)
    have run: "arena_run a (r # reqs) = (block_off a align, unat n) # arena_run ?a reqs"
      using True Cons.prems alloc_offset [OF True] by (simp add: r arena_alloc_eq)
    have "unat (a_used a) \<le> block_off a align" "block_off a align + unat n \<le> unat (a_cap a)"
      using block_off_bounds(1) [OF b(2)] True by (simp_all add: fits_def)
    then show ?thesis using IH unfolding run f by auto
  next
    case False
    then show ?thesis using IH Cons.prems by (simp add: r arena_alloc_eq)
  qed
qed simp

section \<open>Properties\<close>

text \<open>Property C12. \<open>qn_arena_alloc\<close> succeeds exactly when a non-empty block of that power-of-two
  alignment fits behind the bytes in use, counted without wrap-around; the block is aligned,
  starts at or after the old mark, ends inside the mapping, is zeroed, and no other byte
  changes.\<close>

theorem arena_alloc_spec:
  assumes "arena_ok a"
  shows "case qn_arena_alloc a n align of
      (None, a') \<Rightarrow> a' = a \<and> \<not> fits a n align
    | (Some p, a') \<Rightarrow> fits a n align \<and> arena_ok a' \<and>
        (let off = unat (p - the (a_base a)) in
          unat align dvd off \<and> unat (a_used a) \<le> off \<and> off < unat (a_used a) + unat align \<and>
          off + unat n = unat (a_used a') \<and> unat (a_used a') \<le> unat (a_cap a) \<and>
          (\<forall>i. a_mem a' i = (if i \<in> {off..<off + unat n} then 0 else a_mem a i)))"
proof (cases "fits a n align")
  case True
  have "arena_ok (snd (qn_arena_alloc a n align))" using assms by (rule arena_ok_alloc)
  moreover have "block_off a align + unat n \<le> unat (a_cap a)" using True by (simp add: fits_def)
  ultimately show ?thesis
    using True assms fits_bounds [OF True] block_off_bounds [of align a]
    by (simp add: arena_alloc_eq alloc_offset [OF True] Let_def del: of_nat_add)
qed (simp add: arena_alloc_eq [OF assms])

definition small_arena :: qn_arena where
  "small_arena = \<lparr>a_base = Some 4096, a_cap = 4096, a_used = 10, a_peak = 10, a_mem = (\<lambda>_. 7)\<rparr>"

lemma small_arena_ok: "arena_ok small_arena"
  by (simp add: arena_ok_def small_arena_def)

theorem arena_alloc_spec_witness:
  "fst (qn_arena_alloc small_arena 32 16) = Some 4112 \<and> fits small_arena 32 16"
  using arena_alloc_spec [OF small_arena_ok, of 32 16]
  by (simp add: qn_arena_alloc_def small_arena_def align_up_def Let_def)

text \<open>Property C13. The blocks of any run of allocations lie inside the mapping, behind what was in
  use before, and no two of them overlap.\<close>

theorem arena_blocks_disjoint:
  assumes "arena_ok a"
  shows "(\<forall>r \<in> set (arena_run a reqs). unat (a_used a) \<le> fst r \<and> fst r + snd r \<le> unat (a_cap a)) \<and>
    sorted_wrt (\<lambda>r s. fst r + snd r \<le> fst s) (arena_run a reqs)"
  by (rule arena_run_from [OF assms])

theorem arena_blocks_disjoint_witness:
  "\<exists>x y. arena_run small_arena [(32, 16), (8, 64)] = [x, y] \<and> fst x + snd x \<le> fst y"
proof -
  have "arena_run small_arena [(32, 16), (8, 64)] = [(16, 32), (64, 8)]"
    by (simp add: qn_arena_alloc_def small_arena_def align_up_def Let_def)
  then show ?thesis using arena_blocks_disjoint [OF small_arena_ok, of "[(32, 16), (8, 64)]"] by auto
qed

end
