(* ===== verification/Outcome.thy ===== *)
theory Outcome
  imports Qn_Prelude
begin

text \<open>
  \<^verbatim>\<open>src/core/outcome.c\<close>: how a run ended, its exit code, and how the outcomes of several
  parts of a run combine.  An enum value arrives as an unsigned number; \<open>of_code\<close> is the cast
  the code performs and the out-of-range branch of \<open>qn_run_outcome_worst\<close> is kept.
\<close>

datatype qn_run_outcome = QN_RUN_SUCCESS | QN_RUN_CANCELLED | QN_RUN_INCOMPLETE | QN_RUN_FAILED

definition qn_run_outcome_code :: "qn_run_outcome \<Rightarrow> nat" where
  "qn_run_outcome_code r = (case r of QN_RUN_SUCCESS \<Rightarrow> 0 | QN_RUN_CANCELLED \<Rightarrow> 1
     | QN_RUN_INCOMPLETE \<Rightarrow> 2 | QN_RUN_FAILED \<Rightarrow> 3)"

definition qn_run_outcome_str :: "nat \<Rightarrow> string" where
  "qn_run_outcome_str outcome =
     (if outcome = 0 then ''success'' else if outcome = 1 then ''cancelled''
      else if outcome = 2 then ''incomplete'' else ''failed'')"

definition qn_run_exit_code :: "nat \<Rightarrow> int" where
  "qn_run_exit_code outcome =
     (if outcome = 0 then 0 else if outcome = 1 then 130 else if outcome = 2 then 4 else 3)"

definition outcome_rank :: "nat list" where
  "outcome_rank = [0, 2, 1, 3]"

definition qn_run_outcome_worst :: "nat \<Rightarrow> nat \<Rightarrow> nat" where
  "qn_run_outcome_worst a b =
     (if length outcome_rank \<le> a \<or> length outcome_rank \<le> b then 3
      else if outcome_rank ! a \<ge> outcome_rank ! b then a else b)"

section \<open>Severity\<close>

text \<open>Severity as an order on outcomes: success, incomplete, cancelled, failed.\<close>

instantiation qn_run_outcome :: linorder
begin
definition less_eq_qn_run_outcome :: "qn_run_outcome \<Rightarrow> qn_run_outcome \<Rightarrow> bool" where
  "less_eq_qn_run_outcome x y \<longleftrightarrow>
     outcome_rank ! qn_run_outcome_code x \<le> outcome_rank ! qn_run_outcome_code y"
definition less_qn_run_outcome :: "qn_run_outcome \<Rightarrow> qn_run_outcome \<Rightarrow> bool" where
  "less_qn_run_outcome x y \<longleftrightarrow>
     outcome_rank ! qn_run_outcome_code x < outcome_rank ! qn_run_outcome_code y"
instance
proof
  fix x y :: qn_run_outcome
  show "x \<le> y \<Longrightarrow> y \<le> x \<Longrightarrow> x = y"
    by (cases x; cases y) (simp_all add: less_eq_qn_run_outcome_def outcome_rank_def qn_run_outcome_code_def)
qed (auto simp: less_eq_qn_run_outcome_def less_qn_run_outcome_def)
end

lemma outcome_code_inj: "qn_run_outcome_code x = qn_run_outcome_code y \<longleftrightarrow> x = y"
  by (cases x; cases y) (simp_all add: qn_run_outcome_code_def)

lemma worst_max:
  "qn_run_outcome_worst (qn_run_outcome_code x) (qn_run_outcome_code y) = qn_run_outcome_code (max x y)"
  by (cases x; cases y)
    (simp_all add: qn_run_outcome_worst_def max_def less_eq_qn_run_outcome_def outcome_rank_def qn_run_outcome_code_def)

text \<open>Folding the outcomes of a run's parts with \<open>qn_run_outcome_worst\<close>, as the front ends do.\<close>

lemma fold_worst:
  "fold qn_run_outcome_worst (map qn_run_outcome_code xs) (qn_run_outcome_code x) =
   qn_run_outcome_code (Max (set (x # xs)))"
proof (induction xs arbitrary: x)
  case (Cons y ys)
  show ?case by (simp add: worst_max Cons.IH max.commute) (cases "ys = []"; simp add: max.assoc max.left_commute)
qed simp

text \<open>Combining any number of run outcomes with \<open>qn_run_outcome_worst\<close> gives the most
  severe of them, whatever the order, and a run exits with status 0 exactly when every part
  of it succeeded.\<close>

lemma worst_outcome_exit:
  "qn_run_exit_code (fold qn_run_outcome_worst (map qn_run_outcome_code xs) (qn_run_outcome_code x)) = 0
     \<longleftrightarrow> set (x # xs) = {QN_RUN_SUCCESS}"
proof -
  have "qn_run_exit_code (qn_run_outcome_code m) = 0 \<longleftrightarrow> m = QN_RUN_SUCCESS" for m
    by (cases m) (simp_all add: qn_run_exit_code_def qn_run_outcome_code_def)
  moreover have "QN_RUN_SUCCESS \<le> m" for m
    by (cases m) (simp_all add: less_eq_qn_run_outcome_def outcome_rank_def qn_run_outcome_code_def)
  then have "Max (set (x # xs)) = QN_RUN_SUCCESS \<longleftrightarrow> (\<forall>m \<in> set (x # xs). m = QN_RUN_SUCCESS)"
    by (metis List.finite_set Max_ge Max_in antisym list.set_intros(1) empty_iff)
  moreover have "(\<forall>m \<in> set (x # xs). m = QN_RUN_SUCCESS) \<longleftrightarrow> set (x # xs) = {QN_RUN_SUCCESS}"
    by auto
  ultimately show ?thesis by (simp only: fold_worst)
qed

end
