(* ===== verification/Fifo.thy ===== *)
theory Fifo
  imports Qn_Prelude
begin

text \<open>
  The contract of a bounded first-in first-out channel between a worker and its collector, and
  what a client may conclude from it: in any program of pushes and batched pops the items
  that come out are the accepted items in order, and draining until a pop returns nothing
  empties the channel.  The theory \<open>Ring\<close> interprets it on the ring buffer of
  \<^verbatim>\<open>src/core/ring.c\<close>.
\<close>

locale bounded_fifo =
  fixes inv :: "'r \<Rightarrow> bool" and contents :: "'r \<Rightarrow> 'a list" and capacity :: "'r \<Rightarrow> nat"
    and push :: "'r \<Rightarrow> 'a \<Rightarrow> bool \<times> 'r" and pop :: "'r \<Rightarrow> nat \<Rightarrow> 'a list \<times> 'r"
    and limit :: nat
  assumes push_room: "inv r \<Longrightarrow> length (contents r) < capacity r \<Longrightarrow>
      fst (push r x) \<and> inv (snd (push r x)) \<and> contents (snd (push r x)) = contents r @ [x] \<and>
      capacity (snd (push r x)) = capacity r"
    and push_full: "inv r \<Longrightarrow> \<not> length (contents r) < capacity r \<Longrightarrow>
      \<not> fst (push r x) \<and> inv (snd (push r x)) \<and> contents (snd (push r x)) = contents r \<and>
      capacity (snd (push r x)) = capacity r"
    and pop_law: "inv r \<Longrightarrow> m \<le> limit \<Longrightarrow>
      inv (snd (pop r m)) \<and> contents r = fst (pop r m) @ contents (snd (pop r m)) \<and>
      length (fst (pop r m)) \<le> m \<and> capacity (snd (pop r m)) = capacity r"
    and pop_progress: "inv r \<Longrightarrow> m \<le> limit \<Longrightarrow> 0 < m \<Longrightarrow> contents r \<noteq> [] \<Longrightarrow> fst (pop r m) \<noteq> []"
    and bounded: "inv r \<Longrightarrow> length (contents r) \<le> capacity r"
begin

text \<open>A program: \<open>Inl x\<close> pushes \<open>x\<close>, \<open>Inr m\<close> pops at most \<open>m\<close> items.  The result is the accepted
  items, the delivered items and the final channel.\<close>

fun run :: "'r \<Rightarrow> ('a + nat) list \<Rightarrow> 'a list \<times> 'a list \<times> 'r" where
  "run r [] = ([], [], r)"
| "run r (Inl x # ops) =
     (let (ok, r1) = push r x; (acc, del, r2) = run r1 ops in ((if ok then x # acc else acc), del, r2))"
| "run r (Inr m # ops) =
     (let (xs, r1) = pop r m; (acc, del, r2) = run r1 ops in (acc, xs @ del, r2))"

lemma run_fifo:
  assumes "inv r" "\<forall>m. Inr m \<in> set ops \<longrightarrow> m \<le> limit" "run r ops = (acc, del, r')"
  shows "inv r' \<and> contents r @ acc = del @ contents r' \<and> length (contents r') \<le> capacity r' \<and>
    capacity r' = capacity r"
  using assms
proof (induction r ops arbitrary: acc del rule: run.induct)
  case (2 r x ops)
  obtain ok r1 where p: "push r x = (ok, r1)" by (cases "push r x")
  obtain acc1 where run: "run r1 ops = (acc1, del, r')" and acc: "acc = (if ok then x # acc1 else acc1)"
    using "2.prems"(3) p by (auto split: prod.splits)
  have i: "inv r1" "capacity r1 = capacity r" "contents r @ acc = contents r1 @ acc1"
    using push_room [OF "2.prems"(1), of x] push_full [OF "2.prems"(1), of x] p acc
    by (cases "length (contents r) < capacity r"; simp)+
  have "\<forall>m. Inr m \<in> set ops \<longrightarrow> m \<le> limit" using "2.prems"(2) by simp
  from "2.IH" [OF p [symmetric] refl i(1) this run] i show ?case by simp
next
  case (3 r m ops)
  obtain xs r1 where p: "pop r m = (xs, r1)" by (cases "pop r m")
  obtain del1 where run: "run r1 ops = (acc, del1, r')" and del: "del = xs @ del1"
    using "3.prems"(3) p by (auto split: prod.splits)
  have "m \<le> limit" using "3.prems"(2) by simp
  then have i: "inv r1" "capacity r1 = capacity r" "contents r = xs @ contents r1"
    using pop_law [OF "3.prems"(1), of m] p by simp_all
  have "\<forall>m. Inr m \<in> set ops \<longrightarrow> m \<le> limit" using "3.prems"(2) by simp
  from "3.IH" [OF p [symmetric] refl i(1) this run] i del show ?case by simp
qed (auto simp: bounded)

text \<open>Draining: pop until nothing comes back.\<close>

fun drain :: "nat \<Rightarrow> 'r \<Rightarrow> nat \<Rightarrow> 'a list \<times> 'r" where
  "drain 0 r m = ([], r)"
| "drain (Suc fuel) r m =
     (let (xs, r1) = pop r m in
      if xs = [] then ([], r1) else (let (ys, r2) = drain fuel r1 m in (xs @ ys, r2)))"

lemma drain_all:
  assumes "inv r" "0 < m" "m \<le> limit" "length (contents r) \<le> fuel"
  shows "fst (drain fuel r m) = contents r \<and> contents (snd (drain fuel r m)) = [] \<and>
    inv (snd (drain fuel r m))"
  using assms
proof (induction fuel arbitrary: r)
  case (Suc fuel)
  obtain xs r1 where p: "pop r m = (xs, r1)" by (cases "pop r m")
  have i: "inv r1" "contents r = xs @ contents r1" using pop_law [OF Suc.prems(1,3)] p by simp_all
  show ?case
  proof (cases "xs = []")
    case True
    then have "contents r = []" using pop_progress [OF Suc.prems(1,3,2)] p by auto
    with True i p show ?thesis by simp
  next
    case False
    then have "length (contents r1) \<le> fuel" using i(2) Suc.prems(4) by (cases xs) auto
    from Suc.IH [OF i(1) Suc.prems(2,3) this] False p i(2) show ?thesis
      by (auto split: prod.splits)
  qed
qed simp

end

end
