(* ===== verification/Ring.thy ===== *)
theory Ring
  imports Fifo
begin

text \<open>
  \<^verbatim>\<open>src/core/ring.c\<close>: the single-producer single-consumer ring between a sweep worker and the
  collector.  The indices are 32-bit words that run freely and wrap; \<open>mask\<close> is one less than
  a power of two.  A slot holds one item (the code copies \<open>esz\<close> bytes).

  The first part treats \<open>qn_ring_push\<close> and \<open>qn_ring_pop_batch\<close> as whole operations and
  interprets the channel contract of \<open>Fifo\<close> on them.  The second part splits them into their
  memory accesses and lets producer and consumer interleave in every order.
\<close>

record 'a qn_ring =
  r_tail :: u32
  r_tail_cache :: u32
  r_head :: u32
  r_head_cache :: u32
  r_buf :: "nat \<Rightarrow> 'a"
  r_mask :: u32
  r_dropped :: u64

definition smear :: "nat \<Rightarrow> u32 \<Rightarrow> u32" where "smear n v = v OR drop_bit n v"

definition pow2_ceil :: "u32 \<Rightarrow> u32 option" where
  "pow2_ceil v =
     (if v = 0 \<or> v > push_bit 31 1 then None
      else if v < 2 then Some 2
      else Some (smear 16 (smear 8 (smear 4 (smear 2 (smear 1 (v - 1))))) + 1))"

text \<open>The arena request of \<open>qn_ring_init\<close> is the argument \<open>alloc\<close>, which takes the number of
  bytes and answers the initial buffer; \<open>None\<close> when the size overflows or the arena is full.\<close>

definition qn_ring_init :: "(nat \<Rightarrow> (nat \<Rightarrow> 'a) option) \<Rightarrow> u32 \<Rightarrow> u32 \<Rightarrow> 'a qn_ring option" where
  "qn_ring_init alloc cap esz =
     (if esz = 0 then None
      else case pow2_ceil cap of
        None \<Rightarrow> None
      | Some cap \<Rightarrow>
          if UINT64_MAX < unat cap * unat esz then None
          else map_option (\<lambda>buf. \<lparr>r_tail = 0, r_tail_cache = 0, r_head = 0, r_head_cache = 0,
                 r_buf = buf, r_mask = cap - 1, r_dropped = 0\<rparr>) (alloc (unat cap * unat esz)))"

definition qn_ring_reset :: "'a qn_ring \<Rightarrow> 'a qn_ring" where
  "qn_ring_reset r = r\<lparr>r_tail_cache := 0, r_head_cache := 0, r_tail := 0, r_head := 0, r_dropped := 0\<rparr>"

definition slot_ix :: "'a qn_ring \<Rightarrow> u32 \<Rightarrow> nat" where
  "slot_ix r i = unat (i AND r_mask r)"

definition push_write :: "'a qn_ring \<Rightarrow> u32 \<Rightarrow> 'a \<Rightarrow> 'a qn_ring" where
  "push_write r tail item = r\<lparr>r_buf := (r_buf r)(slot_ix r tail := item)\<rparr>"

definition qn_ring_push :: "'a qn_ring \<Rightarrow> 'a \<Rightarrow> bool \<times> 'a qn_ring" where
  "qn_ring_push r item =
     (let tail = r_tail r;
          store = (\<lambda>r. (True, (push_write r tail item)\<lparr>r_tail := tail + 1\<rparr>))
      in if tail - r_tail_cache r > r_mask r
         then (let r1 = r\<lparr>r_tail_cache := r_head r\<rparr>
               in if tail - r_tail_cache r1 > r_mask r1
                  then (False, r1\<lparr>r_dropped := r_dropped r1 + 1\<rparr>)
                  else store r1)
         else store r)"

definition qn_ring_pop_batch :: "'a qn_ring \<Rightarrow> u32 \<Rightarrow> 'a list \<times> 'a qn_ring" where
  "qn_ring_pop_batch r max_n =
     (let head = r_head r;
          r1 = (if head = r_head_cache r then r\<lparr>r_head_cache := r_tail r\<rparr> else r)
      in if head = r_head_cache r1 then ([], r1)
         else (let n = r_head_cache r1 - head;
                   n = (if n > max_n then max_n else n);
                   xs = map (\<lambda>i. r_buf r1 (slot_ix r1 (head + word_of_nat i))) [0..<unat n]
               in (xs, r1\<lparr>r_head := head + n\<rparr>)))"

definition qn_ring_len :: "'a qn_ring \<Rightarrow> u32" where
  "qn_ring_len r = r_tail r - r_head r"

section \<open>Rounding the capacity\<close>

lemma bit_smear:
  assumes "\<And>i. bit w i \<longleftrightarrow> (\<exists>j<n. bit v (i + j))"
  shows "bit (smear n w) i \<longleftrightarrow> (\<exists>j<2 * n. bit v (i + j))"
proof
  assume "bit (smear n w) i"
  then have "bit w i \<or> bit w (i + n)" by (auto simp: smear_def bit_simps add.commute)
  then show "\<exists>j<2 * n. bit v (i + j)"
    using assms [of i] assms [of "i + n"] by (metis add.assoc mult_2 nat_add_left_cancel_less trans_less_add1)
next
  assume "\<exists>j<2 * n. bit v (i + j)"
  then obtain j where j: "j < 2 * n" "bit v (i + j)" by blast
  have "bit w i \<or> bit w (i + n)"
  proof (cases "j < n")
    case False
    then have "j - n < n" "i + n + (j - n) = i + j" using j(1) by auto
    then show ?thesis using assms [of "i + n"] j(2) by metis
  qed (use assms j in blast)
  then show "bit (smear n w) i" by (auto simp: smear_def bit_simps add.commute)
qed

lemma bit_smear_all:
  "bit (smear 16 (smear 8 (smear 4 (smear 2 (smear 1 v))))) i \<longleftrightarrow> (\<exists>j\<ge>i. bit v j)" for v :: u32
proof -
  have 0: "bit v i \<longleftrightarrow> (\<exists>j<1. bit v (i + j))" for i by simp
  note s = bit_smear [OF 0] 
  note s = bit_smear [OF s, simplified]
  note s = bit_smear [OF s, simplified]
  note s = bit_smear [OF s, simplified]
  note s = bit_smear [OF s, simplified]
  have "bit (smear 16 (smear 8 (smear 4 (smear 2 (smear 1 v))))) i \<longleftrightarrow> (\<exists>j<32. bit v (i + j))"
    using s by (simp add: numeral_eq_Suc)
  also have "\<dots> \<longleftrightarrow> (\<exists>j\<ge>i. bit v j)"
  proof
    assume "\<exists>j\<ge>i. bit v j"
    then obtain j where j: "i \<le> j" "bit v j" by blast
    then have "j < 32" using bit_imp_le_length [of v j] by simp
    then show "\<exists>j<32. bit v (i + j)" using j by (intro exI [of _ "j - i"]) auto
  qed (auto intro: le_add1)
  finally show ?thesis .
qed

lemma pow2_ceil_spec:
  assumes "pow2_ceil v = Some c"
  shows "\<exists>k. 1 \<le> k \<and> k \<le> 31 \<and> c = 2 ^ k \<and> unat v \<le> 2 ^ k \<and> (k = 1 \<or> 2 ^ (k - 1) < unat v)"
proof (cases "v < 2")
  case True
  then have "unat v \<le> 1" by (simp add: word_less_nat_alt)
  moreover have "c = 2 ^ 1" using assms True by (auto simp: pow2_ceil_def split: if_splits)
  ultimately show ?thesis by (intro exI [of _ 1]) auto
next
  case False
  let ?u = "v - 1"
  have v: "2 \<le> unat v" "unat v \<le> 2 ^ 31"
    using False assms by (auto simp: pow2_ceil_def word_less_nat_alt not_less unsigned_push_bit_eq split: if_splits)
  have u: "unat ?u = unat v - 1" using v by (subst unat_sub) (auto simp: word_le_nat_alt)
  define k where "k = (LEAST k. unat ?u < 2 ^ k)"
  have "unat ?u < 2 ^ 31" using u v by simp
  then have k31: "k \<le> 31" and lt: "unat ?u < 2 ^ k"
    unfolding k_def by (rule Least_le, rule LeastI)
  have k1: "1 \<le> k" using lt u v by (cases k) auto
  then have ge: "2 ^ (k - 1) \<le> unat ?u"
    using not_less_Least [of "k - 1" "\<lambda>k. unat ?u < 2 ^ k"] by (simp add: k_def [symmetric] not_less)
  have top: "bit ?u (k - 1)"
  proof -
    have "unat ?u div 2 ^ (k - 1) = 1"
    proof (rule div_nat_eqI)
      show "2 ^ (k - 1) * 1 \<le> unat ?u" using ge by simp
      show "unat ?u < 2 ^ (k - 1) * Suc 1" using lt k1 by (cases k) auto
    qed
    then have "bit (unat ?u) (k - 1)" by (simp add: bit_iff_odd)
    then show ?thesis by (simp add: bit_unsigned_iff)
  qed
  have hi: "\<not> bit ?u j" if "k \<le> j" for j
  proof -
    have "unat ?u < 2 ^ j" using lt that by (meson le_less_trans less_le_trans power_increasing one_le_numeral le_refl order.strict_trans2)
    then have "unat ?u div 2 ^ j = 0" by simp
    then have "\<not> bit (unat ?u) j" by (simp add: bit_iff_odd)
    then show ?thesis by (metis bit_unsigned_iff bit_imp_le_length possible_bit_def possible_bit_nat)
  qed
  have "smear 16 (smear 8 (smear 4 (smear 2 (smear 1 ?u)))) = mask k"
  proof (rule bit_word_eqI)
    fix i
    assume "i < LENGTH(32)"
    have "(\<exists>j\<ge>i. bit ?u j) \<longleftrightarrow> i < k"
    proof
      assume "\<exists>j\<ge>i. bit ?u j"
      then obtain j where "i \<le> j" "bit ?u j" by blast
      then show "i < k" using hi [of j] by (meson not_less le_less_trans)
    next
      assume "i < k"
      then show "\<exists>j\<ge>i. bit ?u j" using top by (intro exI [of _ "k - 1"]) auto
    qed
    then show "bit (smear 16 (smear 8 (smear 4 (smear 2 (smear 1 ?u))))) i \<longleftrightarrow> bit (mask k :: u32) i"
      unfolding bit_smear_all using k31 by (auto simp: bit_simps)
  qed
  then have "c = 2 ^ k" using assms False by (auto simp: pow2_ceil_def mask_eq_exp_minus_1 split: if_splits)
  moreover have "unat v \<le> 2 ^ k" "k = 1 \<or> 2 ^ (k - 1) < unat v" using lt ge u v by auto
  ultimately show ?thesis using k1 k31 by blast
qed

section \<open>The invariant\<close>

definition ring_cap :: "'a qn_ring \<Rightarrow> nat" where "ring_cap r = unat (r_mask r) + 1"

definition ring_ok :: "'a qn_ring \<Rightarrow> bool" where
  "ring_ok r \<longleftrightarrow>
     (\<exists>k. 1 \<le> k \<and> k \<le> 31 \<and> r_mask r = mask k) \<and>
     unat (r_tail r - r_tail_cache r) \<le> ring_cap r \<and>
     unat (r_tail r - r_head r) \<le> unat (r_tail r - r_tail_cache r) \<and>
     unat (r_head_cache r - r_head r) \<le> unat (r_tail r - r_head r)"

definition contents :: "'a qn_ring \<Rightarrow> 'a list" where
  "contents r = map (\<lambda>i. r_buf r (slot_ix r (r_head r + word_of_nat i))) [0..<unat (r_tail r - r_head r)]"

lemma unat_mask32: "k \<le> 31 \<Longrightarrow> unat (mask k :: u32) = 2 ^ k - 1"
proof -
  assume "k \<le> 31"
  then have "(2::nat) ^ k \<le> 2 ^ 31" by (intro power_increasing) auto
  then have "unat (word_of_nat (mask k) :: u32) = mask k"
    by (intro unat_word_of_nat) (simp add: mask_eq_exp_minus_1)
  then have "unat (mask k :: u32) = mask k" by (simp only: of_nat_mask_eq)
  then show ?thesis by (simp only: mask_eq_exp_minus_1 [where 'a = nat])
qed

lemma ring_cap_pow2: "r_mask r = mask k \<Longrightarrow> k \<le> 31 \<Longrightarrow> ring_cap r = 2 ^ k"
  by (simp add: ring_cap_def unat_mask32)

lemma ring_cap_le: "ring_ok r \<Longrightarrow> ring_cap r \<le> 2 ^ 31"
  using ring_cap_pow2 by (metis ring_ok_def one_le_numeral power_increasing)

text \<open>Two positions less than a revolution apart use different slots.\<close>

lemma slot_ix_nat: "r_mask r = mask k \<Longrightarrow> k \<le> 31 \<Longrightarrow> slot_ix r x = unat x mod 2 ^ k"
proof -
  assume "r_mask r = mask k"
  then have "slot_ix r x = unat (take_bit k x)" by (simp only: slot_ix_def take_bit_eq_mask)
  also have "\<dots> = take_bit k (unat x)" by (rule unsigned_take_bit_eq)
  finally show ?thesis by (simp only: take_bit_eq_mod)
qed

lemma slot_ix_apart:
  assumes ok: "ring_ok r" and d: "0 < unat d" "unat d < ring_cap r"
  shows "slot_ix r (x + d) \<noteq> slot_ix r x"
proof -
  obtain k where k: "r_mask r = mask k" "k \<le> 31" using ok by (auto simp: ring_ok_def)
  have "(2::nat) ^ k dvd 2 ^ 32" using k by (intro le_imp_power_dvd) simp
  then have "unat (x + d) mod 2 ^ k = (unat x + unat d) mod 2 ^ k"
    by (simp only: unat_word_ariths) (simp add: mod_mod_cancel)
  moreover have "unat d < 2 ^ k" using d k by (simp add: ring_cap_pow2)
  ultimately have "unat (x + d) mod 2 ^ k \<noteq> unat x mod 2 ^ k"
    using d(1) mod_eq_dvd_iff_nat [of "unat x" "unat x + unat d" "2 ^ k"] nat_dvd_not_less by auto
  then show ?thesis using k by (simp add: slot_ix_nat)
qed

section \<open>Whole operations\<close>

lemma unat_diff_incr:
  "unat (t - h) < 2 ^ 31 \<Longrightarrow> unat (t + 1 - h) = unat (t - h) + 1" for t h :: u32
proof -
  assume a: "unat (t - h) < 2 ^ 31"
  have "t + 1 - h = (t - h) + 1" by simp
  also have "unat \<dots> = unat (t - h) + 1" using a by (subst unat_add_u32) auto
  finally show ?thesis .
qed

lemma unat_diff_decr: "unat n \<le> unat (t - h) \<Longrightarrow> unat (t - (h + n)) = unat (t - h) - unat n" for t h n :: u32
proof -
  assume "unat n \<le> unat (t - h)"
  then have "unat (t - h - n) = unat (t - h) - unat n" by (simp add: unat_sub word_le_nat_alt)
  then show ?thesis by (simp only: diff_diff_eq)
qed

text \<open>The item written at \<open>tail\<close> does not touch any slot that holds an item.\<close>

lemma contents_push_write:
  assumes ok: "ring_ok r" and room: "unat (r_tail r - r_head r) < ring_cap r"
  shows "contents (push_write r (r_tail r) x) = contents r"
proof -
  have "slot_ix r (r_head r + word_of_nat i) \<noteq> slot_ix r (r_tail r)" if i: "i < unat (r_tail r - r_head r)" for i
  proof -
    let ?d = "r_tail r - r_head r - word_of_nat i"
    have i32: "unat (word_of_nat i :: u32) = i"
      using order_less_trans [OF i unat_lt_size(3)] by (intro unat_word_of_nat) simp
    have "unat ?d = unat (r_tail r - r_head r) - i"
      using i i32 by (subst unat_sub) (auto simp: word_le_nat_alt)
    then have "slot_ix r (r_head r + word_of_nat i + ?d) \<noteq> slot_ix r (r_head r + word_of_nat i)"
      using i room by (intro slot_ix_apart [OF ok]) auto
    then have "slot_ix r (r_tail r) \<noteq> slot_ix r (r_head r + word_of_nat i)" by simp
    then show ?thesis by (rule not_sym)
  qed
  then show ?thesis
    by (auto simp: contents_def push_write_def slot_ix_def [of "_\<lparr>r_buf := _\<rparr>"] slot_ix_def)
qed

lemma contents_publish:
  assumes ok: "ring_ok r" and room: "unat (r_tail r - r_head r) < ring_cap r"
    and w: "r_buf r (slot_ix r (r_tail r)) = x"
  shows "contents (r\<lparr>r_tail := r_tail r + 1\<rparr>) = contents r @ [x]"
proof -
  have "unat (r_tail r - r_head r) < 2 ^ 31" using room ring_cap_le [OF ok] by linarith
  then show ?thesis
    using w by (simp add: contents_def unat_diff_incr slot_ix_def)
qed

lemma contents_consume:
  assumes "unat n \<le> unat (r_tail r - r_head r)"
  shows "contents r = map (\<lambda>i. r_buf r (slot_ix r (r_head r + word_of_nat i))) [0..<unat n] @
    contents (r\<lparr>r_head := r_head r + n\<rparr>)"
proof -
  have "[0..<unat (r_tail r - r_head r)] = [0..<unat n] @ map (\<lambda>i. unat n + i) [0..<unat (r_tail r - r_head r) - unat n]"
    using assms upt_add_eq_append [of 0 "unat n" "unat (r_tail r - r_head r) - unat n"]
      map_add_upt [of "unat n" "unat (r_tail r - r_head r) - unat n"] by (simp add: add.commute)
  then show ?thesis
    using unat_diff_decr [OF assms] by (simp add: contents_def slot_ix_def comp_def add.assoc)
qed

lemma push_room_case:
  assumes ok: "ring_ok r"
  shows "r_tail r - r_head r > r_mask r \<longleftrightarrow> \<not> length (contents r) < ring_cap r"
    "r_tail r - r_tail_cache r \<le> r_mask r \<Longrightarrow> length (contents r) < ring_cap r"
  using ok by (auto simp: contents_def ring_cap_def ring_ok_def word_less_nat_alt word_le_nat_alt)

lemma ring_ok_cache_head: "ring_ok r \<Longrightarrow> ring_ok (r\<lparr>r_tail_cache := r_head r\<rparr>)"
  by (auto simp: ring_ok_def ring_cap_def)

lemma ring_ok_cache_tail: "ring_ok r \<Longrightarrow> ring_ok (r\<lparr>r_head_cache := r_tail r\<rparr>)"
  by (simp add: ring_ok_def ring_cap_def)

lemma ring_ok_write: "ring_ok r \<Longrightarrow> ring_ok (push_write r i x)"
  by (simp add: ring_ok_def ring_cap_def push_write_def)

lemma ring_ok_publish:
  assumes ok: "ring_ok r" and c: "r_tail r - r_tail_cache r \<le> r_mask r"
  shows "ring_ok (r\<lparr>r_tail := r_tail r + 1\<rparr>)"
proof -
  have l: "unat (r_tail r - r_tail_cache r) < ring_cap r" using c by (simp add: ring_cap_def word_le_nat_alt)
  then have "unat (r_tail r - r_tail_cache r) < 2 ^ 31" using ring_cap_le [OF ok] by linarith
  moreover have "unat (r_tail r - r_head r) < 2 ^ 31" using calculation ok by (simp add: ring_ok_def)
  ultimately show ?thesis
    using ok l by (simp add: ring_ok_def unat_diff_incr ring_cap_def)
qed

lemma ring_ok_consume:
  assumes ok: "ring_ok r" and n: "unat n \<le> unat (r_head_cache r - r_head r)"
  shows "ring_ok (r\<lparr>r_head := r_head r + n\<rparr>)"
proof -
  have "unat n \<le> unat (r_tail r - r_head r)" using ok n by (simp add: ring_ok_def)
  then show ?thesis using ok n unat_diff_decr by (auto simp: ring_ok_def ring_cap_def)
qed

lemma push_store:
  assumes ok: "ring_ok r" and c: "r_tail r - r_tail_cache r \<le> r_mask r"
    and r': "r' = (push_write r (r_tail r) x)\<lparr>r_tail := r_tail r + 1\<rparr>"
  shows "ring_ok r'" "contents r' = contents r @ [x]" "ring_cap r' = ring_cap r"
proof -
  let ?w = "push_write r (r_tail r) x"
  have w: "ring_ok ?w" using ok by (rule ring_ok_write)
  have f: "r_tail ?w = r_tail r" "r_head ?w = r_head r" "r_mask ?w = r_mask r" "r_tail_cache ?w = r_tail_cache r"
    "r_buf ?w (slot_ix ?w (r_tail r)) = x" "ring_cap ?w = ring_cap r"
    by (simp_all add: push_write_def slot_ix_def ring_cap_def)
  have room: "unat (r_tail r - r_head r) < ring_cap r"
    using push_room_case(2) [OF ok c] by (simp add: contents_def)
  show "ring_ok r'" using ring_ok_publish [OF w] c f by (simp add: r')
  show "contents r' = contents r @ [x]"
    using contents_publish [OF w, of x] contents_push_write [OF ok room, of x] room f by (simp add: r')
  show "ring_cap r' = ring_cap r" by (simp add: r' ring_cap_def push_write_def)
qed

lemma contents_frame:
  "contents (r\<lparr>r_tail_cache := c\<rparr>) = contents r" "contents (r\<lparr>r_head_cache := c\<rparr>) = contents r"
  "contents (r\<lparr>r_dropped := d\<rparr>) = contents r" "ring_cap (r\<lparr>r_tail_cache := c\<rparr>) = ring_cap r"
  "ring_cap (r\<lparr>r_head_cache := c\<rparr>) = ring_cap r" "ring_cap (r\<lparr>r_dropped := d\<rparr>) = ring_cap r"
  "ring_cap (r\<lparr>r_head := c\<rparr>) = ring_cap r"
  "ring_ok (r\<lparr>r_dropped := d\<rparr>) = ring_ok r"
  by (simp_all add: contents_def slot_ix_def ring_cap_def ring_ok_def)

lemma qn_ring_push_spec:
  assumes ok: "ring_ok r"
  shows "ring_ok (snd (qn_ring_push r x)) \<and> ring_cap (snd (qn_ring_push r x)) = ring_cap r \<and>
    fst (qn_ring_push r x) = (length (contents r) < ring_cap r) \<and>
    contents (snd (qn_ring_push r x)) = (if length (contents r) < ring_cap r then contents r @ [x] else contents r)"
proof (cases "r_tail r - r_tail_cache r > r_mask r")
  case False
  then have eq: "qn_ring_push r x = (True, (push_write r (r_tail r) x)\<lparr>r_tail := r_tail r + 1\<rparr>)"
    by (simp add: qn_ring_push_def Let_def)
  from False have "r_tail r - r_tail_cache r \<le> r_mask r" by simp
  from push_store [OF ok this refl, of x] push_room_case(2) [OF ok this] show ?thesis by (simp add: eq)
next
  case True
  let ?r = "r\<lparr>r_tail_cache := r_head r\<rparr>"
  have ok1: "ring_ok ?r" using ok by (rule ring_ok_cache_head)
  show ?thesis
  proof (cases "r_tail r - r_head r > r_mask r")
    case full: True
    then show ?thesis
      using True push_room_case(1) [OF ok] ok1 by (simp add: qn_ring_push_def Let_def contents_frame)
  next
    case False
    with True have eq: "qn_ring_push r x = (True, (push_write ?r (r_tail ?r) x)\<lparr>r_tail := r_tail ?r + 1\<rparr>)"
      by (simp add: qn_ring_push_def Let_def)
    from False have "r_tail ?r - r_tail_cache ?r \<le> r_mask ?r" by simp
    from push_store [OF ok1 this refl, of x] push_room_case(1) [OF ok] False show ?thesis
      unfolding eq by (simp add: contents_frame)
  qed
qed

lemma qn_ring_pop_spec:
  assumes ok: "ring_ok r"
  shows "ring_ok (snd (qn_ring_pop_batch r m)) \<and> ring_cap (snd (qn_ring_pop_batch r m)) = ring_cap r \<and>
    contents r = fst (qn_ring_pop_batch r m) @ contents (snd (qn_ring_pop_batch r m)) \<and>
    length (fst (qn_ring_pop_batch r m)) \<le> unat m \<and>
    (0 < unat m \<longrightarrow> contents r \<noteq> [] \<longrightarrow> fst (qn_ring_pop_batch r m) \<noteq> [])"
proof -
  define r1 where "r1 = (if r_head r = r_head_cache r then r\<lparr>r_head_cache := r_tail r\<rparr> else r)"
  have r1: "ring_ok r1" "contents r1 = contents r" "r_head r1 = r_head r" "ring_cap r1 = ring_cap r"
    using ok ring_ok_cache_tail [OF ok] by (auto simp: r1_def contents_frame)
  show ?thesis
  proof (cases "r_head r = r_head_cache r1")
    case True
    then have "r_tail r = r_head r" by (auto simp: r1_def split: if_splits)
    then have "contents r = []" by (simp add: contents_def)
    moreover have "qn_ring_pop_batch r m = ([], r1)"
      using True unfolding qn_ring_pop_batch_def Let_def r1_def [symmetric] by simp
    ultimately show ?thesis using r1 by simp
  next
    case False
    define n where "n = (if r_head_cache r1 - r_head r > m then m else r_head_cache r1 - r_head r)"
    have n: "unat n \<le> unat (r_head_cache r1 - r_head r1)" "unat n \<le> unat m"
      using r1(3) by (auto simp: n_def word_less_nat_alt)
    have pos: "0 < unat n" if "0 < unat m"
      using that False by (auto simp: n_def unat_gt_0)
    have nt: "unat n \<le> unat (r_tail r1 - r_head r1)" using n(1) r1(1) by (simp add: ring_ok_def)
    have eq: "qn_ring_pop_batch r m = (map (\<lambda>i. r_buf r1 (slot_ix r1 (r_head r1 + word_of_nat i))) [0..<unat n],
        r1\<lparr>r_head := r_head r1 + n\<rparr>)"
      using False r1(3) unfolding qn_ring_pop_batch_def Let_def r1_def [symmetric] n_def by simp
    have "contents r = fst (qn_ring_pop_batch r m) @ contents (snd (qn_ring_pop_batch r m))"
      using contents_consume [OF nt] r1(2) by (simp add: eq)
    moreover have "ring_ok (snd (qn_ring_pop_batch r m))" using ring_ok_consume [OF r1(1) n(1)] by (simp add: eq)
    moreover have "ring_cap (snd (qn_ring_pop_batch r m)) = ring_cap r" using r1(4) by (simp add: eq contents_frame)
    ultimately show ?thesis using n(2) pos by (auto simp: eq)
  qed
qed

text \<open>The ring is a bounded channel.\<close>

interpretation rq: bounded_fifo ring_ok contents ring_cap qn_ring_push
  "\<lambda>r m. qn_ring_pop_batch r (word_of_nat m)" UINT32_MAX
proof unfold_locales
  fix r :: "'a qn_ring" and x :: 'a and m :: nat
  assume ok: "ring_ok r"
  show "length (contents r) \<le> ring_cap r" using ok by (simp add: contents_def ring_ok_def)
  show "length (contents r) < ring_cap r \<Longrightarrow>
      fst (qn_ring_push r x) \<and> ring_ok (snd (qn_ring_push r x)) \<and>
      contents (snd (qn_ring_push r x)) = contents r @ [x] \<and> ring_cap (snd (qn_ring_push r x)) = ring_cap r"
    and "\<not> length (contents r) < ring_cap r \<Longrightarrow>
      \<not> fst (qn_ring_push r x) \<and> ring_ok (snd (qn_ring_push r x)) \<and>
      contents (snd (qn_ring_push r x)) = contents r \<and> ring_cap (snd (qn_ring_push r x)) = ring_cap r"
    using qn_ring_push_spec [OF ok, of x] by simp_all
  assume m: "m \<le> UINT32_MAX"
  then have w: "unat (word_of_nat m :: u32) = m" by (intro unat_word_of_nat) simp
  show "ring_ok (snd (qn_ring_pop_batch r (word_of_nat m))) \<and>
      contents r = fst (qn_ring_pop_batch r (word_of_nat m)) @ contents (snd (qn_ring_pop_batch r (word_of_nat m))) \<and>
      length (fst (qn_ring_pop_batch r (word_of_nat m))) \<le> m \<and>
      ring_cap (snd (qn_ring_pop_batch r (word_of_nat m))) = ring_cap r"
    and "0 < m \<Longrightarrow> contents r \<noteq> [] \<Longrightarrow> fst (qn_ring_pop_batch r (word_of_nat m)) \<noteq> []"
    using qn_ring_pop_spec [OF ok, of "word_of_nat m", unfolded w] by blast+
qed

lemma ring_ok_init:
  assumes "qn_ring_init alloc cap esz = Some r"
  shows "ring_ok r" "contents r = []" "unat cap \<le> ring_cap r"
proof -
  obtain c buf where c: "pow2_ceil cap = Some c"
    and r: "r = \<lparr>r_tail = 0, r_tail_cache = 0, r_head = 0, r_head_cache = 0, r_buf = buf, r_mask = c - 1, r_dropped = 0\<rparr>"
    using assms by (auto simp: qn_ring_init_def split: if_splits option.splits)
  obtain k where k: "1 \<le> k" "k \<le> 31" "c = 2 ^ k" "unat cap \<le> 2 ^ k" using pow2_ceil_spec [OF c] by blast
  then have m: "r_mask r = mask k" by (simp add: r mask_eq_exp_minus_1)
  show "ring_ok r" using k m by (auto simp: ring_ok_def r)
  show "contents r = []" by (simp add: contents_def r)
  show "unat cap \<le> ring_cap r" using ring_cap_pow2 [OF m k(2)] k(4) by simp
qed

lemma ring_ok_reset: "ring_ok r \<Longrightarrow> ring_ok (qn_ring_reset r) \<and> contents (qn_ring_reset r) = []"
  by (auto simp: ring_ok_def qn_ring_reset_def contents_def)

section \<open>Interleaved execution\<close>

text \<open>
  One step is one access to the shared ring.  \<open>P_Reload\<close>, \<open>P_Write\<close> and \<open>P_Publish\<close> are the
  points inside \<open>qn_ring_push\<close> between its accesses, \<open>C_Reload\<close> and \<open>C_Read\<close> those inside
  \<open>qn_ring_pop_batch\<close>; a consumer copies one item per step.  The release store and acquire load
  on each index order the payload with the index, so interleavings of these steps are the
  executions of the code.  \<open>c_sent\<close> and \<open>c_recv\<close> record what was accepted and delivered.
\<close>

datatype 'a prod_pc = P_Idle | P_Reload 'a | P_Write 'a | P_Publish 'a
datatype 'a cons_pc = C_Idle | C_Reload u32 | C_Read u32 "'a list"

record 'a spsc =
  c_ring :: "'a qn_ring"
  c_prod :: "'a prod_pc"
  c_cons :: "'a cons_pc"
  c_sent :: "'a list"
  c_recv :: "'a list"

inductive spsc_step :: "'a spsc \<Rightarrow> 'a spsc \<Rightarrow> bool" where
  push_begin: "c_prod s = P_Idle \<Longrightarrow> r = c_ring s \<Longrightarrow>
    s' = s\<lparr>c_prod := (if r_tail r - r_tail_cache r > r_mask r then P_Reload x else P_Write x)\<rparr> \<Longrightarrow> spsc_step s s'"
| push_reload: "c_prod s = P_Reload x \<Longrightarrow> r = (c_ring s)\<lparr>r_tail_cache := r_head (c_ring s)\<rparr> \<Longrightarrow>
    s' = (if r_tail r - r_tail_cache r > r_mask r
          then s\<lparr>c_ring := r\<lparr>r_dropped := r_dropped r + 1\<rparr>, c_prod := P_Idle\<rparr>
          else s\<lparr>c_ring := r, c_prod := P_Write x\<rparr>) \<Longrightarrow> spsc_step s s'"
| push_store: "c_prod s = P_Write x \<Longrightarrow> r = c_ring s \<Longrightarrow>
    s' = s\<lparr>c_ring := push_write r (r_tail r) x, c_prod := P_Publish x\<rparr> \<Longrightarrow> spsc_step s s'"
| push_publish: "c_prod s = P_Publish x \<Longrightarrow> r = c_ring s \<Longrightarrow>
    s' = s\<lparr>c_ring := r\<lparr>r_tail := r_tail r + 1\<rparr>, c_prod := P_Idle, c_sent := c_sent s @ [x]\<rparr> \<Longrightarrow> spsc_step s s'"
| pop_begin: "c_cons s = C_Idle \<Longrightarrow> r = c_ring s \<Longrightarrow>
    s' = s\<lparr>c_cons := (if r_head r = r_head_cache r then C_Reload m
                       else C_Read (if r_head_cache r - r_head r > m then m else r_head_cache r - r_head r) [])\<rparr> \<Longrightarrow>
    spsc_step s s'"
| pop_reload: "c_cons s = C_Reload m \<Longrightarrow> r = (c_ring s)\<lparr>r_head_cache := r_tail (c_ring s)\<rparr> \<Longrightarrow>
    s' = s\<lparr>c_ring := r,
           c_cons := (if r_head r = r_head_cache r then C_Idle
                      else C_Read (if r_head_cache r - r_head r > m then m else r_head_cache r - r_head r) [])\<rparr> \<Longrightarrow>
    spsc_step s s'"
| pop_read: "c_cons s = C_Read n acc \<Longrightarrow> length acc < unat n \<Longrightarrow> r = c_ring s \<Longrightarrow>
    s' = s\<lparr>c_cons := C_Read n (acc @ [r_buf r (slot_ix r (r_head r + word_of_nat (length acc)))])\<rparr> \<Longrightarrow>
    spsc_step s s'"
| pop_publish: "c_cons s = C_Read n acc \<Longrightarrow> length acc = unat n \<Longrightarrow> r = c_ring s \<Longrightarrow>
    s' = s\<lparr>c_ring := r\<lparr>r_head := r_head r + n\<rparr>, c_cons := C_Idle, c_recv := c_recv s @ acc\<rparr> \<Longrightarrow>
    spsc_step s s'"

inductive_cases spsc_stepE: "spsc_step s s'"

definition prod_ok :: "'a qn_ring \<Rightarrow> 'a prod_pc \<Rightarrow> bool" where
  "prod_ok r p = (case p of
      P_Write x \<Rightarrow> r_tail r - r_tail_cache r \<le> r_mask r
    | P_Publish x \<Rightarrow> r_tail r - r_tail_cache r \<le> r_mask r \<and> r_buf r (slot_ix r (r_tail r)) = x
    | _ \<Rightarrow> True)"

definition cons_ok :: "'a qn_ring \<Rightarrow> 'a cons_pc \<Rightarrow> bool" where
  "cons_ok r c = (case c of
      C_Read n acc \<Rightarrow> unat n \<le> unat (r_head_cache r - r_head r) \<and> length acc \<le> unat n \<and>
        acc = take (length acc) (contents r)
    | _ \<Rightarrow> True)"

definition spsc_inv :: "'a spsc \<Rightarrow> bool" where
  "spsc_inv s \<longleftrightarrow> ring_ok (c_ring s) \<and> c_sent s = c_recv s @ contents (c_ring s) \<and>
     prod_ok (c_ring s) (c_prod s) \<and> cons_ok (c_ring s) (c_cons s)"

lemma cons_ok_same:
  "contents r' = contents r \<Longrightarrow> r_head_cache r' = r_head_cache r \<Longrightarrow> r_head r' = r_head r \<Longrightarrow>
   cons_ok r' c = cons_ok r c"
  by (simp add: cons_ok_def split: cons_pc.split)

lemma prod_ok_same:
  "r_tail r' = r_tail r \<Longrightarrow> r_tail_cache r' = r_tail_cache r \<Longrightarrow> r_mask r' = r_mask r \<Longrightarrow> r_buf r' = r_buf r \<Longrightarrow>
   prod_ok r' p = prod_ok r p"
  by (simp add: prod_ok_def slot_ix_def split: prod_pc.split)

lemma contents_length: "length (contents r) = unat (r_tail r - r_head r)"
  by (simp add: contents_def)

lemma spsc_push_step:
  assumes inv: "spsc_inv s" and r: "r = c_ring s" and p: "c_prod s = P_Publish x"
  shows "spsc_inv (s\<lparr>c_ring := r\<lparr>r_tail := r_tail r + 1\<rparr>, c_prod := P_Idle, c_sent := c_sent s @ [x]\<rparr>)"
proof -
  have ok: "ring_ok r" and c: "r_tail r - r_tail_cache r \<le> r_mask r" and b: "r_buf r (slot_ix r (r_tail r)) = x"
    using inv r p by (auto simp: spsc_inv_def prod_ok_def)
  have room: "unat (r_tail r - r_head r) < ring_cap r"
    using push_room_case(2) [OF ok c] by (simp add: contents_length)
  have "cons_ok (r\<lparr>r_tail := r_tail r + 1\<rparr>) (c_cons s)"
    using inv contents_publish [OF ok room b] r
    by (auto simp: spsc_inv_def cons_ok_def split: cons_pc.splits) (metis length_take min.absorb2 nat_le_linear take_all_iff)
  then show ?thesis
    using inv ring_ok_publish [OF ok c] contents_publish [OF ok room b] r by (simp add: spsc_inv_def prod_ok_def)
qed

lemma spsc_pop_step:
  assumes inv: "spsc_inv s" and r: "r = c_ring s" and c: "c_cons s = C_Read n acc" "length acc = unat n"
  shows "spsc_inv (s\<lparr>c_ring := r\<lparr>r_head := r_head r + n\<rparr>, c_cons := C_Idle, c_recv := c_recv s @ acc\<rparr>)"
proof -
  have ok: "ring_ok r" and n: "unat n \<le> unat (r_head_cache r - r_head r)" and a: "acc = take (unat n) (contents r)"
    using inv r c by (auto simp: spsc_inv_def cons_ok_def)
  have nt: "unat n \<le> unat (r_tail r - r_head r)" using n ok by (simp add: ring_ok_def)
  have "contents r = acc @ contents (r\<lparr>r_head := r_head r + n\<rparr>)"
    using contents_consume [OF nt] a by (metis append_eq_conv_conj length_map length_upt minus_nat.diff_0)
  then show ?thesis
    using inv ring_ok_consume [OF ok n] prod_ok_same [of "r\<lparr>r_head := r_head r + n\<rparr>" r] r
    by (simp add: spsc_inv_def cons_ok_def)
qed

lemma spsc_inv_step: "spsc_step s s' \<Longrightarrow> spsc_inv s \<Longrightarrow> spsc_inv s'"
proof (induction rule: spsc_step.induct)
  case (push_begin s r s' x)
  then show ?case by (auto simp: spsc_inv_def prod_ok_def not_less)
next
  case (push_reload s x r s')
  have ok: "ring_ok r" and k1: "contents r = contents (c_ring s)"
    using push_reload.hyps(2) push_reload.prems by (simp_all add: contents_frame spsc_inv_def ring_ok_cache_head)
  have co: "cons_ok (c_ring s) (c_cons s)" using push_reload.prems by (simp add: spsc_inv_def)
  have k: "contents r = contents (c_ring s)" "cons_ok r (c_cons s)" "cons_ok (r\<lparr>r_dropped := d\<rparr>) (c_cons s)" for d
    by (rule k1, rule cons_ok_same [THEN iffD2, OF _ _ _ co], use push_reload.hyps(2) k1 in simp_all,
        rule cons_ok_same [THEN iffD2, OF _ _ _ co]) (simp_all add: contents_frame)
  show ?case
  proof (cases "r_tail r - r_tail_cache r > r_mask r")
    case True
    then have "s' = s\<lparr>c_ring := r\<lparr>r_dropped := r_dropped r + 1\<rparr>, c_prod := P_Idle\<rparr>"
      using push_reload.hyps(3) by simp
    then show ?thesis
      using push_reload.prems ok k by (simp add: spsc_inv_def prod_ok_def contents_frame)
  next
    case False
    then have "s' = s\<lparr>c_ring := r, c_prod := P_Write x\<rparr>" "r_tail r - r_tail_cache r \<le> r_mask r"
      using push_reload.hyps(3) by simp_all
    then show ?thesis
      using push_reload.prems ok k by (simp add: spsc_inv_def prod_ok_def)
  qed
next
  case (push_store s x r s')
  have ok: "ring_ok r" and c: "r_tail r - r_tail_cache r \<le> r_mask r"
    using push_store by (auto simp: spsc_inv_def prod_ok_def)
  have room: "unat (r_tail r - r_head r) < ring_cap r"
    using push_room_case(2) [OF ok c] by (simp add: contents_length)
  have w: "contents (push_write r (r_tail r) x) = contents r" by (rule contents_push_write [OF ok room])
  have "cons_ok (push_write r (r_tail r) x) (c_cons s)"
    using push_store w by (subst cons_ok_same [of _ r]) (auto simp: spsc_inv_def push_write_def)
  moreover have "prod_ok (push_write r (r_tail r) x) (P_Publish x)"
    using c by (simp add: prod_ok_def push_write_def slot_ix_def)
  ultimately show ?case using push_store w ring_ok_write [OF ok] by (simp add: spsc_inv_def)
next
  case (push_publish s x r s')
  show ?case
    unfolding push_publish.hyps(3) by (rule spsc_push_step [OF push_publish.prems push_publish.hyps(2,1)])
next
  case (pop_begin s r s' m)
  then show ?case by (auto simp: spsc_inv_def cons_ok_def word_less_nat_alt)
next
  case (pop_reload s m r s')
  have ok: "ring_ok r" using pop_reload by (simp add: spsc_inv_def ring_ok_cache_tail)
  have "prod_ok r (c_prod s)" using pop_reload by (subst prod_ok_same [of _ "c_ring s"]) (auto simp: spsc_inv_def)
  with pop_reload ok show ?case by (auto simp: spsc_inv_def cons_ok_def contents_frame word_less_nat_alt)
next
  case (pop_read s n acc r s')
  let ?i = "length acc"
  have "?i < length (contents r)"
    using pop_read by (auto simp: spsc_inv_def cons_ok_def contents_length ring_ok_def)
  then have "acc @ [r_buf r (slot_ix r (r_head r + word_of_nat ?i))] = take (Suc ?i) (contents r)"
    using pop_read by (auto simp: spsc_inv_def cons_ok_def take_Suc_conv_app_nth contents_length)
      (simp add: contents_def)
  then show ?case using pop_read \<open>?i < length (contents r)\<close> by (auto simp: spsc_inv_def cons_ok_def min_def)
next
  case (pop_publish s n acc r s')
  show ?case
    unfolding pop_publish.hyps(4) by (rule spsc_pop_step [OF pop_publish.prems pop_publish.hyps(3,1,2)])
qed

definition spsc_start :: "'a qn_ring \<Rightarrow> 'a spsc" where
  "spsc_start r = \<lparr>c_ring = r, c_prod = P_Idle, c_cons = C_Idle, c_sent = [], c_recv = []\<rparr>"

lemma spsc_inv_reach:
  assumes "ring_ok r" "contents r = []" "spsc_step\<^sup>*\<^sup>* (spsc_start r) s"
  shows "spsc_inv s"
  using assms(3)
proof (induction rule: rtranclp_induct)
  case base
  then show ?case using assms(1,2) by (simp add: spsc_inv_def spsc_start_def prod_ok_def cons_ok_def)
next
  case (step s s')
  then show ?case using spsc_inv_step by blast
qed

section \<open>Properties\<close>

text \<open>Property C11. However producer and consumer interleave on a fresh ring, and however often the
  32-bit indices wrap, the items delivered so far followed by the items in the ring are
  exactly the accepted items in order, the ring never holds more than its capacity, and the
  items a consumer has copied but not yet released are the next ones to deliver.\<close>

theorem spsc_fifo:
  assumes "qn_ring_init alloc cap esz = Some r" "spsc_step\<^sup>*\<^sup>* (spsc_start r) s"
  shows "c_sent s = c_recv s @ contents (c_ring s) \<and> length (contents (c_ring s)) \<le> ring_cap (c_ring s) \<and>
    (\<forall>n acc. c_cons s = C_Read n acc \<longrightarrow> acc = take (length acc) (contents (c_ring s)))"
proof -
  have "spsc_inv s" using spsc_inv_reach [OF ring_ok_init(1,2) [OF assms(1)] assms(2)] .
  then show ?thesis
    using rq.bounded [of "c_ring s"] by (auto simp: spsc_inv_def cons_ok_def)
qed

definition tiny_ring :: "nat qn_ring" where
  "tiny_ring = \<lparr>r_tail = 0, r_tail_cache = 0, r_head = 0, r_head_cache = 0, r_buf = (\<lambda>_. 0), r_mask = 3, r_dropped = 0\<rparr>"

lemma tiny_ring_init: "qn_ring_init (\<lambda>_. Some (\<lambda>_. 0)) 3 8 = Some tiny_ring"
  by (simp add: qn_ring_init_def pow2_ceil_def smear_def tiny_ring_def)

theorem spsc_fifo_witness:
  "\<exists>s. spsc_step\<^sup>*\<^sup>* (spsc_start tiny_ring) s \<and> c_sent s = [7] \<and> c_sent s = c_recv s @ contents (c_ring s)"
proof -
  define s1 where "s1 = (spsc_start tiny_ring)\<lparr>c_prod := P_Write 7\<rparr>"
  define s2 where "s2 = s1\<lparr>c_ring := push_write tiny_ring 0 7, c_prod := P_Publish 7\<rparr>"
  define s3 where "s3 = s2\<lparr>c_ring := (c_ring s2)\<lparr>r_tail := 1\<rparr>, c_prod := P_Idle, c_sent := [7]\<rparr>"
  note d = s1_def s2_def s3_def spsc_start_def tiny_ring_def push_write_def
  have "spsc_step (spsc_start tiny_ring) s1" by (rule push_begin [OF _ refl, of _ _ 7]) (simp_all add: d)
  moreover have "spsc_step s1 s2" by (rule push_store [OF _ refl, of _ 7]) (simp_all add: d)
  moreover have "spsc_step s2 s3" by (rule push_publish [OF _ refl, of _ 7]) (simp_all add: d)
  ultimately have r: "spsc_step\<^sup>*\<^sup>* (spsc_start tiny_ring) s3" by (intro rtranclp.rtrancl_into_rtrancl [OF rtranclp.rtrancl_into_rtrancl [OF r_into_rtranclp]])
  from spsc_fifo [OF tiny_ring_init this] r show ?thesis by (intro exI [of _ s3]) (simp add: s3_def)
qed

text \<open>Draining a ring with batches of any positive size hands over everything it holds, in
  order, and leaves it empty, after at most as many batches as it holds items.\<close>

lemma ring_drain_all:
  assumes "ring_ok r" "0 < m" "m \<le> UINT32_MAX" "length (contents r) \<le> fuel"
  shows "fst (rq.drain fuel r m) = contents r \<and> contents (snd (rq.drain fuel r m)) = []"
  using rq.drain_all [OF assms] by blast

end
