(* ===== verification/Qn_Types.thy ===== *)
theory Qn_Types
  imports Qn_Prelude
begin

text \<open>
  The data types that \<^verbatim>\<open>include/qanat/qanat.h\<close>, \<^verbatim>\<open>scan_plan.h\<close> and \<^verbatim>\<open>tunnel.h\<close> share between
  the components: addresses, probe results, the evidence ladder, ranking policies and tunnel
  states, with the small total functions on them.  An address is a tagged union; IPv4 is in
  host order and IPv6 the 16 bytes in network order, as in the code.
\<close>

definition qn_clamp :: "'a::linorder \<Rightarrow> 'a \<Rightarrow> 'a \<Rightarrow> 'a" where
  "qn_clamp v lo hi = (let m = (if v > lo then v else lo) in if m < hi then m else hi)"

lemma clamp_bounds: "lo \<le> hi \<Longrightarrow> lo \<le> qn_clamp v lo hi \<and> qn_clamp v lo hi \<le> hi"
  by (auto simp: qn_clamp_def Let_def)

lemma clamp_id: "lo \<le> v \<Longrightarrow> v \<le> hi \<Longrightarrow> qn_clamp v lo hi = v"
  by (auto simp: qn_clamp_def Let_def)

datatype qn_addr = V4 u32 | V6 bytes

definition addr_ok :: "qn_addr \<Rightarrow> bool" where
  "addr_ok a = (case a of V4 _ \<Rightarrow> True | V6 b \<Rightarrow> length b = 16)"

datatype qn_result = QN_R_PENDING | QN_R_OPEN | QN_R_REFUSED | QN_R_TIMEOUT | QN_R_UNREACH
  | QN_R_RESET | QN_R_ERROR | QN_R_CANCELLED

datatype qn_tls_outcome = QN_TLS_NONE | QN_TLS_SERVERHELLO | QN_TLS_ALERT | QN_TLS_RESET | QN_TLS_SILENCE | QN_TLS_GARBAGE

datatype qn_failure_origin = QN_FAIL_NONE | QN_FAIL_LOCAL | QN_FAIL_PEER | QN_FAIL_PATH
  | QN_FAIL_PROTOCOL | QN_FAIL_UNSUPPORTED | QN_FAIL_CANCELLED

datatype qn_highest_rung = QN_RUNG_NONE | QN_RUNG_TCP | QN_RUNG_TLS | QN_RUNG_HTTP | QN_RUNG_EDGE
  | QN_RUNG_FLOWING | QN_RUNG_STABLE | QN_RUNG_COUNT

datatype qn_terminal_outcome = QN_TERM_NONE | QN_TERM_SUCCESS | QN_TERM_DEAD | QN_TERM_LOCAL_ERROR
  | QN_TERM_INCONCLUSIVE | QN_TERM_PEER_REJECTED | QN_TERM_UNSUPPORTED | QN_TERM_PROTOCOL_INVALID
  | QN_TERM_RESET | QN_TERM_TIMEOUT | QN_TERM_CANCELLED | QN_TERM_INTERFERENCE | QN_TERM_COUNT

datatype qn_selection = QN_SELECTION_UNIFORM | QN_SELECTION_STRATIFIED | QN_SELECTION_ADAPTIVE | QN_SELECTION_HYBRID

datatype qn_rank_policy = QN_RANK_BALANCED | QN_RANK_LATENCY | QN_RANK_STABILITY | QN_RANK_THROUGHPUT

datatype qn_tunnel_state = QN_TUNNEL_UNTESTED | QN_TUNNEL_QUEUED | QN_TUNNEL_PASSED
  | QN_TUNNEL_BINARY_MISSING | QN_TUNNEL_CONFIG_INVALID | QN_TUNNEL_START_FAILED
  | QN_TUNNEL_SOCKS_FAILED | QN_TUNNEL_PROBE_FAILED | QN_TUNNEL_NO_MARKER | QN_TUNNEL_CANCELLED

definition qn_tunnel_state_failed :: "qn_tunnel_state \<Rightarrow> bool" where
  "qn_tunnel_state_failed state \<longleftrightarrow> state = QN_TUNNEL_CONFIG_INVALID \<or> state = QN_TUNNEL_START_FAILED \<or>
     state = QN_TUNNEL_SOCKS_FAILED \<or> state = QN_TUNNEL_PROBE_FAILED \<or> state = QN_TUNNEL_NO_MARKER"

end
