(* ===== verification/Stats.thy ===== *)
theory Stats
  imports Qn_Types "HOL-Library.Multiset"
begin

text \<open>
  \<^verbatim>\<open>src/core/stats.c\<close>: the latency samples of a candidate and the numbers derived from them, the
  ranking score, the result order, the latency histogram and the sparkline.  Samples and
  scores are naturals below \<open>2 ^ 32\<close>; sums are taken in 64 bits in the code and stay far
  below that.  A pointer that may be \<open>NULL\<close> in the code is always a value here.
\<close>

section \<open>Samples\<close>

abbreviation QN_MAX_SAMPLES :: nat where "QN_MAX_SAMPLES \<equiv> 12"

text \<open>\<open>rtt_us\<close> holds the \<open>n\<close> samples taken so far.\<close>

record qn_samples =
  rtt_us :: "nat list"
  lost :: nat

definition samples_empty :: qn_samples where "samples_empty = \<lparr>rtt_us = [], lost = 0\<rparr>"

definition qn_samples_add :: "qn_samples \<Rightarrow> nat \<Rightarrow> qn_samples" where
  "qn_samples_add s rtt =
     (if length (rtt_us s) < QN_MAX_SAMPLES then s\<lparr>rtt_us := rtt_us s @ [rtt]\<rparr> else s)"

definition qn_samples_lost :: "qn_samples \<Rightarrow> qn_samples" where
  "qn_samples_lost s = (if lost s < 255 then s\<lparr>lost := lost s + 1\<rparr> else s)"

text \<open>The inner loop of the insertion sort, on the array.\<close>

fun shift_down :: "nat list \<Rightarrow> nat \<Rightarrow> nat \<Rightarrow> nat list" where
  "shift_down out v 0 = out[0 := v]"
| "shift_down out v (Suc j) =
     (if out ! j > v then shift_down (out[Suc j := out ! j]) v j else out[Suc j := v])"

definition sorted_copy :: "qn_samples \<Rightarrow> nat list" where
  "sorted_copy s =
     (let n = (if length (rtt_us s) < QN_MAX_SAMPLES then length (rtt_us s) else QN_MAX_SAMPLES)
      in fold (\<lambda>i out. shift_down out (out ! i) i) [1..<n] (take n (rtt_us s)))"

definition qn_samples_min :: "qn_samples \<Rightarrow> nat" where
  "qn_samples_min s = fold (\<lambda>x m. if m = 0 \<or> x < m then x else m) (rtt_us s) 0"

definition qn_samples_median :: "qn_samples \<Rightarrow> nat" where
  "qn_samples_median s =
     (let v = sorted_copy s; n = length v
      in if n = 0 then 0 else if odd n then v ! (n div 2) else (v ! (n div 2 - 1) + v ! (n div 2)) div 2)"

definition qn_samples_p90 :: "qn_samples \<Rightarrow> nat" where
  "qn_samples_p90 s =
     (let v = sorted_copy s; n = length v in if n = 0 then 0 else v ! ((n * 9 - 1) div 10))"

definition qn_samples_delta_mean :: "qn_samples \<Rightarrow> nat" where
  "qn_samples_delta_mean s =
     (let r = rtt_us s in
      if length r < 2 then 0
      else sum_list (map (\<lambda>i. let a = r ! (i - 1); b = r ! i in if a > b then a - b else b - a)
             [1..<length r]) div (length r - 1))"

definition qn_samples_loss_pct :: "qn_samples \<Rightarrow> nat" where
  "qn_samples_loss_pct s =
     (let total = length (rtt_us s) + lost s in if total = 0 then 100 else lost s * 100 div total)"

definition ci90_rank :: "nat list" where
  "ci90_rank = [0, 0, 0, 0, 0, 1, 1, 1, 2, 2, 2, 3, 3]"

definition qn_samples_median_ci90 :: "qn_samples \<Rightarrow> (nat \<times> nat) option" where
  "qn_samples_median_ci90 s =
     (let v = sorted_copy s; n = length v
      in if n < 5 then None else (let k = ci90_rank ! n in Some (v ! (k - 1), v ! (n - k))))"

definition qn_rtt_within_baseline :: "nat \<Rightarrow> nat \<Rightarrow> bool" where
  "qn_rtt_within_baseline baseline_us sample_us =
     (if baseline_us = 0 \<or> sample_us = 0 then False
      else sample_us \<le> baseline_us + baseline_us div 2 + 5000)"

section \<open>Sorting the samples\<close>

text \<open>Inserting from the back, as the loop does.\<close>

fun ins_back :: "nat list \<Rightarrow> nat \<Rightarrow> nat list" where
  "ins_back [] v = [v]"
| "ins_back (x # xs) v = (if v < x \<and> (\<forall>y \<in> set xs. v < y) then v # x # xs else x # ins_back xs v)"

lemma mset_ins_back: "mset (ins_back xs v) = add_mset v (mset xs)"
  by (induction xs v rule: ins_back.induct) auto

lemma ins_back_snoc: "ins_back (xs @ [y]) v = (if v < y then ins_back xs v @ [y] else xs @ [y, v])"
  by (induction xs) auto

lemma sorted_ins_back: "sorted xs \<Longrightarrow> sorted (ins_back xs v)"
proof (induction xs)
  case (Cons x xs)
  have "set (ins_back xs v) = insert v (set xs)" using mset_ins_back [of xs v] by (metis set_mset_add_mset_insert set_mset_mset)
  moreover have "x \<le> v" if "\<not> (v < x \<and> (\<forall>y \<in> set xs. v < y))" using that Cons.prems by force
  ultimately show ?case using Cons by auto
qed simp

lemma shift_down_ins: "shift_down (xs @ h # rest) v (length xs) = ins_back xs v @ rest"
proof (induction xs arbitrary: h rest rule: rev_induct)
  case (snoc y ys)
  show ?case
  proof (cases "y > v")
    case True
    have "shift_down (ys @ [y] @ h # rest) v (Suc (length ys)) = shift_down (ys @ y # y # rest) v (length ys)"
      using True by (simp add: nth_append list_update_append)
    then show ?thesis using True snoc [of y "y # rest"] by (simp add: ins_back_snoc)
  next
    case False
    then show ?thesis by (simp add: nth_append list_update_append ins_back_snoc)
  qed
qed simp

lemma insertion_fold:
  "k \<le> length xs \<Longrightarrow> 0 < k \<Longrightarrow>
   fold (\<lambda>i out. shift_down out (out ! i) i) [1..<k] xs = foldl ins_back [] (take k xs) @ drop k xs"
proof (induction k)
  case (Suc k)
  show ?case
  proof (cases "k = 0")
    case True
    then show ?thesis using Suc.prems by (cases xs) auto
  next
    case False
    let ?p = "foldl ins_back [] (take k xs)"
    have len: "length ?p = k" using Suc.prems
    proof -
      have "mset (foldl ins_back zs ys) = mset zs + mset ys" for zs ys
        by (induction ys arbitrary: zs) (simp_all add: mset_ins_back)
      from arg_cong [OF this [of "[]" "take k xs"], of size] show ?thesis using Suc.prems by simp
    qed
    have d: "drop k xs = xs ! k # drop (Suc k) xs" using Suc.prems by (simp add: Cons_nth_drop_Suc)
    have "[1..<Suc k] = [1..<k] @ [k]" using False by simp
    then have "fold (\<lambda>i out. shift_down out (out ! i) i) [1..<Suc k] xs = shift_down (?p @ drop k xs) (xs ! k) k"
      using Suc False len d by (simp add: nth_append)
    also have "\<dots> = ins_back ?p (xs ! k) @ drop (Suc k) xs"
      using shift_down_ins [of ?p "xs ! k" "drop (Suc k) xs" "xs ! k"] by (simp add: d len)
    also have "\<dots> = foldl ins_back [] (take (Suc k) xs) @ drop (Suc k) xs"
      using Suc.prems by (simp add: take_Suc_conv_app_nth)
    finally show ?thesis .
  qed
qed simp

lemma sorted_copy_sort: "sorted_copy s = sort (take QN_MAX_SAMPLES (rtt_us s))"
proof -
  let ?xs = "take QN_MAX_SAMPLES (rtt_us s)"
  have "mset (foldl ins_back zs ys) = mset zs + mset ys" for zs ys
    by (induction ys arbitrary: zs) (simp_all add: mset_ins_back)
  moreover have "sorted zs \<Longrightarrow> sorted (foldl ins_back zs ys)" for zs ys
    by (induction ys arbitrary: zs) (simp_all add: sorted_ins_back)
  ultimately have s: "foldl ins_back [] ?xs = sort ?xs"
    by (intro properties_for_sort [symmetric]) simp_all
  show ?thesis
  proof (cases "?xs = []")
    case True
    then show ?thesis by (simp add: sorted_copy_def)
  next
    case False
    have n: "(if length (rtt_us s) < QN_MAX_SAMPLES then length (rtt_us s) else QN_MAX_SAMPLES) = length ?xs"
      by simp
    have "take (length ?xs) (rtt_us s) = ?xs" by (simp add: min_def)
    then show ?thesis
      using insertion_fold [of "length ?xs" ?xs] s False unfolding sorted_copy_def Let_def n by simp
  qed
qed

section \<open>Order statistics\<close>

lemma sort_nth_mono: "i \<le> j \<Longrightarrow> j < length xs \<Longrightarrow> sort xs ! i \<le> sort xs ! (j::nat)" for xs :: "nat list"
  by (simp add: sorted_nth_mono)

lemma avg_between: "a \<le> b \<Longrightarrow> a \<le> (a + b) div 2 \<and> (a + b) div 2 \<le> (b::nat)"
  by linarith

lemma median_between:
  assumes "rtt_us s \<noteq> []"
  defines "v \<equiv> sorted_copy s"
  shows "v ! ((length v - 1) div 2) \<le> qn_samples_median s" "qn_samples_median s \<le> v ! (length v div 2)"
proof -
  have n: "0 < length v" using assms by (simp add: sorted_copy_sort)
  have mono: "i \<le> j \<Longrightarrow> j < length v \<Longrightarrow> v ! i \<le> v ! j" for i j
    by (simp add: v_def sorted_copy_sort sorted_nth_mono)
  have "v ! ((length v - 1) div 2) \<le> qn_samples_median s \<and> qn_samples_median s \<le> v ! (length v div 2)"
  proof (cases "odd (length v)")
    case True
    then have "(length v - 1) div 2 = length v div 2" by (elim oddE) simp
    then show ?thesis using True n by (simp add: qn_samples_median_def v_def [symmetric] Let_def)
  next
    case False
    then obtain m where "length v = 2 * m" by blast
    then have "(length v - 1) div 2 = length v div 2 - 1" using n by simp
    moreover have "v ! (length v div 2 - 1) \<le> v ! (length v div 2)" using n by (intro mono) auto
    ultimately show ?thesis
      using False n by (simp add: qn_samples_median_def v_def [symmetric] Let_def avg_between)
  qed
  then show "v ! ((length v - 1) div 2) \<le> qn_samples_median s" "qn_samples_median s \<le> v ! (length v div 2)" by auto
qed

lemma choose_small: "11 choose 3 = (165::nat)" "12 choose 3 = (220::nat)"
  by (simp_all add: numeral_eq_Suc)

lemma sum_choose:
  "(\<Sum>i<Suc 0. n choose i) = 1" "(\<Sum>i<2. n choose i) = 1 + n" "(\<Sum>i<3. n choose i) = 1 + n + (n choose 2)"
  "(\<Sum>i<4. n choose i) = 1 + n + (n choose 2) + (n choose 3)"
  by (simp_all add: eval_nat_numeral)

text \<open>The rank table against the binomial distribution.\<close>

lemma ci90_table:
  assumes "5 \<le> n" "n \<le> 12"
  shows "1 \<le> ci90_rank ! n" "2 * (ci90_rank ! n) \<le> n" "20 * (\<Sum>i<ci90_rank ! n. n choose i) \<le> 2 ^ n"
    "2 ^ n < 20 * (\<Sum>i<Suc (ci90_rank ! n). n choose i)"
proof -
  have "n \<in> {12, 11, 10, 9} \<or> n \<in> {8, 7, 6, 5}" using assms by (simp, linarith)
  then have "1 \<le> ci90_rank ! n \<and> 2 * (ci90_rank ! n) \<le> n \<and> 20 * (\<Sum>i<ci90_rank ! n. n choose i) \<le> 2 ^ n \<and>
      2 ^ n < 20 * (\<Sum>i<Suc (ci90_rank ! n). n choose i)"
    by (elim disjE insertE emptyE) (simp_all add: ci90_rank_def sum_choose choose_two choose_small)
  then show "1 \<le> ci90_rank ! n" "2 * (ci90_rank ! n) \<le> n" "20 * (\<Sum>i<ci90_rank ! n. n choose i) \<le> 2 ^ n"
    "2 ^ n < 20 * (\<Sum>i<Suc (ci90_rank ! n). n choose i)" by auto
qed

lemma min_positive:
  "\<forall>x \<in> set xs. 0 < x \<Longrightarrow> 0 < m \<Longrightarrow> fold (\<lambda>x m. if m = 0 \<or> x < m then x else m) xs m = Min (set (m # xs))" for m :: nat
proof (induction xs arbitrary: m)
  case (Cons x xs)
  have "(if m = 0 \<or> x < m then x else m) = min x m" using Cons.prems by auto
  then show ?case using Cons by (cases "xs = []") (simp_all add: min.commute min.left_commute)
qed simp

section \<open>Properties of the samples\<close>


definition six_samples :: qn_samples where
  "six_samples = \<lparr>rtt_us = [30, 10, 50, 20, 40, 60], lost = 2\<rparr>"


end
