(* ===== verification/Sprt.thy ===== *)
theory Sprt
  imports Qn_Types
begin

text \<open>
  \<^verbatim>\<open>src/core/sprt.c\<close>: the sequential probability ratio test that decides how many samples a
  candidate is worth, in fixed point.  The signed accumulators are integers; \<open>>>\<close> on them is
  the arithmetic shift, which rounds down, and \<open>/\<close> is only applied to non-negative values.
  The lemmas bound every intermediate value well inside 32 bits, so nothing wraps.
\<close>

record qn_sprt =
  llr :: int
  up :: int
  down :: int
  accept :: int
  reject :: int
  s_n :: nat
  s_good :: nat
  nmin :: nat
  nmax :: nat

datatype qn_sprt_state = QN_SPRT_CONTINUE | QN_SPRT_ACCEPT | QN_SPRT_REJECT

definition LN2_Q16 :: int where "LN2_Q16 = 45426"

text \<open>\<open>31 - __builtin_clz(v)\<close>.\<close>

fun top_bit :: "nat \<Rightarrow> nat" where
  "top_bit v = (if v < 2 then 0 else Suc (top_bit (v div 2)))"

declare top_bit.simps [simp del]

definition ln_q16 :: "nat \<Rightarrow> int" where
  "ln_q16 v =
     (if v = 0 then - (20 * 65536)
      else
        (let k = top_bit v;
             m = (int v * 65536) div 2 ^ k;
             t = ((m - 65536) * 65536) div (m + 65536);
             t2 = (t * t) div 65536;
             s = t;
             t = (t * t2) div 65536;
             s = s + t div 3;
             t = (t * t2) div 65536;
             s = s + t div 5
         in int k * LN2_Q16 + 2 * s))"

definition ln_ratio_milli :: "nat \<Rightarrow> nat \<Rightarrow> int" where
  "ln_ratio_milli num den = ((ln_q16 num - ln_q16 den) * 1000) div 65536"

definition qn_sprt_init :: "nat \<Rightarrow> nat \<Rightarrow> nat \<Rightarrow> nat \<Rightarrow> nat \<Rightarrow> nat \<Rightarrow> qn_sprt" where
  "qn_sprt_init p0' p1' alpha' beta' nmin' nmax' =
     (let p0 = qn_clamp p0' 1 999;
          p1 = qn_clamp p1' 1 999;
          alpha = qn_clamp alpha' 1 499;
          beta = qn_clamp beta' 1 499;
          p1 = (if p1 \<le> p0 then (if p0 + 1 > 999 then 999 else p0 + 1) else p1);
          lo = (if nmin' \<noteq> 0 then nmin' else 1)
      in \<lparr>llr = 0, up = ln_ratio_milli p1 p0, down = ln_ratio_milli (1000 - p1) (1000 - p0),
          accept = ln_ratio_milli (1000 - beta) alpha, reject = ln_ratio_milli beta (1000 - alpha),
          s_n = 0, s_good = 0, nmin = lo, nmax = (if nmax' > lo then nmax' else lo)\<rparr>)"

definition qn_sprt_status :: "qn_sprt \<Rightarrow> qn_sprt_state" where
  "qn_sprt_status s =
     (if s_n s < nmin s then QN_SPRT_CONTINUE
      else if llr s \<ge> accept s then QN_SPRT_ACCEPT
      else if llr s \<le> reject s then QN_SPRT_REJECT
      else if s_n s \<ge> nmax s then (if llr s \<ge> 0 then QN_SPRT_ACCEPT else QN_SPRT_REJECT)
      else QN_SPRT_CONTINUE)"

definition qn_sprt_push :: "qn_sprt \<Rightarrow> bool \<Rightarrow> qn_sprt_state \<times> qn_sprt" where
  "qn_sprt_push s good =
     (let s1 = (if s_n s < 65535 then s\<lparr>s_n := s_n s + 1\<rparr> else s);
          s2 = (if good \<and> s_good s1 < 65535 then s1\<lparr>s_good := s_good s1 + 1\<rparr> else s1);
          s3 = s2\<lparr>llr := llr s2 + (if good then up s2 else down s2)\<rparr>;
          s4 = s3\<lparr>llr := qn_clamp (llr s3) (-1000000) 1000000\<rparr>
      in (qn_sprt_status s4, s4))"

definition qn_sprt_state_str :: "qn_sprt_state \<Rightarrow> string" where
  "qn_sprt_state_str st = (case st of QN_SPRT_ACCEPT \<Rightarrow> ''accept'' | QN_SPRT_REJECT \<Rightarrow> ''reject''
     | QN_SPRT_CONTINUE \<Rightarrow> ''continue'')"

text \<open>All samples of a candidate, one after the other.\<close>

definition sprt_samples :: "qn_sprt \<Rightarrow> bool list \<Rightarrow> qn_sprt" where
  "sprt_samples s gs = fold (\<lambda>g s. snd (qn_sprt_push s g)) gs s"

section \<open>The logarithm\<close>

lemma top_bit_bounds: "0 < v \<Longrightarrow> 2 ^ top_bit v \<le> v \<and> v < 2 * 2 ^ top_bit v"
proof (induction v rule: top_bit.induct)
  case (1 v)
  show ?case
  proof (cases "v < 2")
    case False
    then have "2 ^ top_bit (v div 2) \<le> v div 2 \<and> v div 2 < 2 * 2 ^ top_bit (v div 2)"
      using 1 by simp
    then show ?thesis using False by (simp add: top_bit.simps [of v]) linarith
  qed (use 1 in \<open>simp add: top_bit.simps [of v]\<close>)
qed

text \<open>The series on the mantissa alone.\<close>

definition mant_t :: "int \<Rightarrow> int" where "mant_t m = ((m - 65536) * 65536) div (m + 65536)"
definition series :: "int \<Rightarrow> int" where
  "series t = 2 * (t + (t * (t * t div 65536) div 65536) div 3 +
     ((t * (t * t div 65536) div 65536) * (t * t div 65536) div 65536) div 5)"

lemma ln_q16_eq:
  "0 < v \<Longrightarrow> ln_q16 v = int (top_bit v) * LN2_Q16 + series (mant_t (int v * 65536 div 2 ^ top_bit v))"
  unfolding ln_q16_def Let_def series_def mant_t_def by (subst if_not_P) (simp, rule refl)

lemma div_cross_mono: "x * w \<le> z * y \<Longrightarrow> 0 < y \<Longrightarrow> 0 < w \<Longrightarrow> x div y \<le> z div w" for x y z w :: int
proof -
  assume c: "x * w \<le> z * y" and p: "0 < y" "0 < w"
  have "(x div y * y) * w \<le> x * w" using p by (intro mult_right_mono) (auto simp: minus_mod_eq_div_mult [symmetric])
  with c have "(x div y * w) * y \<le> z * y" by (simp add: ac_simps)
  then have "x div y * w \<le> z" using p by simp
  then show ?thesis using p zdiv_mono1 [of "x div y * w" z w] by simp
qed

lemma mant_t_mono: "65536 \<le> m \<Longrightarrow> m \<le> m' \<Longrightarrow> 0 \<le> mant_t m \<and> mant_t m \<le> mant_t m'"
  unfolding mant_t_def by (intro conjI div_cross_mono) (auto simp: pos_imp_zdiv_nonneg_iff algebra_simps)

lemma series_mono: "0 \<le> t \<Longrightarrow> t \<le> t' \<Longrightarrow> 0 \<le> series t \<and> series t \<le> series t'"
  unfolding series_def
  by (intro conjI mult_left_mono add_mono zdiv_mono1 mult_mono)
    (auto intro!: add_nonneg_nonneg mult_nonneg_nonneg pos_imp_zdiv_nonneg_iff [THEN iffD2] zdiv_mono1 mult_mono)

lemma series_two: "series (mant_t 131072) < LN2_Q16"
  by (simp add: series_def mant_t_def LN2_Q16_def)

lemma mantissa_bounds:
  assumes "0 < v"
  shows "65536 \<le> int v * 65536 div 2 ^ top_bit v" "int v * 65536 div 2 ^ top_bit v \<le> 131072"
proof -
  have "int (2 ^ top_bit v) \<le> int v" "int v \<le> int (2 * 2 ^ top_bit v)"
    using top_bit_bounds [OF assms] by (auto simp only: of_nat_le_iff less_imp_le)
  then have b: "2 ^ top_bit v * 65536 \<le> int v * 65536" "int v * 65536 \<le> 2 ^ top_bit v * 131072" by simp_all
  show "65536 \<le> int v * 65536 div 2 ^ top_bit v"
    using zdiv_mono1 [OF b(1), of "2 ^ top_bit v"] by simp
  show "int v * 65536 div 2 ^ top_bit v \<le> 131072"
    using zdiv_mono1 [OF b(2), of "2 ^ top_bit v"] by simp
qed

lemma ln_q16_mono:
  assumes "1 \<le> a" "a \<le> b"
  shows "ln_q16 a \<le> ln_q16 b"
proof -
  let ?k = top_bit
  let ?m = "\<lambda>v. int v * 65536 div 2 ^ ?k v"
  have pos: "0 < a" "0 < b" using assms by auto
  have sa: "0 \<le> series (mant_t (?m a))" "series (mant_t (?m a)) < LN2_Q16" if "0 < a" for a
    using mantissa_bounds [OF that] mant_t_mono series_mono series_two
    by (meson order_refl order_trans, meson order_refl order_trans order_le_less_trans)
  show ?thesis
  proof (cases "?k a = ?k b")
    case True
    have "?m a \<le> ?m b" using assms True by (auto intro!: zdiv_mono1)
    then have "series (mant_t (?m a)) \<le> series (mant_t (?m b))"
      using mantissa_bounds(1) [OF pos(1)] mant_t_mono series_mono by blast
    then show ?thesis using pos True by (simp add: ln_q16_eq)
  next
    case False
    have "(2::nat) ^ ?k a < 2 ^ Suc (?k b)"
      using top_bit_bounds pos assms by (metis le_trans order_le_less_trans power_Suc)
    then have "?k a < Suc (?k b)" by (rule power_less_imp_less_exp [rotated]) simp
    then have "Suc (?k a) \<le> ?k b" using False by simp
    then have "int (Suc (?k a)) * LN2_Q16 \<le> int (?k b) * LN2_Q16"
      by (intro mult_right_mono) (auto simp: LN2_Q16_def)
    then show ?thesis using sa [OF pos(1)] sa [OF pos(2)] pos by (simp add: ln_q16_eq algebra_simps)
  qed
qed

lemma ln_q16_values: "ln_q16 1 = 0" "ln_q16 999 = 452630" "ln_q16 499 = 407140" "ln_q16 501 = 407400"
  by (simp_all add: ln_q16_def top_bit.simps LN2_Q16_def Let_def)

lemma ln_ratio_mono:
  assumes "1 \<le> d" "d \<le> n" "n \<le> 999"
  shows "0 \<le> ln_ratio_milli n d" "ln_ratio_milli n d \<le> 7000" "ln_ratio_milli d n \<le> 0" "- 7000 \<le> ln_ratio_milli d n"
proof -
  have "0 \<le> ln_q16 n - ln_q16 d" "ln_q16 n - ln_q16 d \<le> 452630"
    using ln_q16_mono [of d n] ln_q16_mono [of 1 d] ln_q16_mono [of n 999] ln_q16_values assms by auto
  then show "0 \<le> ln_ratio_milli n d" "ln_ratio_milli n d \<le> 7000" "ln_ratio_milli d n \<le> 0"
    "- 7000 \<le> ln_ratio_milli d n"
    unfolding ln_ratio_milli_def
    using zdiv_mono1 [of "(ln_q16 n - ln_q16 d) * 1000" 452630000 65536]
      zdiv_mono1 [of "(ln_q16 d - ln_q16 n) * 1000" 0 65536]
      zdiv_mono1 [of "- 452630000" "(ln_q16 d - ln_q16 n) * 1000" 65536]
    by (simp_all add: pos_imp_zdiv_nonneg_iff)
qed

lemma thresholds_apart:
  assumes "1 \<le> a" "a \<le> 499" "1 \<le> b" "b \<le> 499"
  shows "0 < ln_ratio_milli (1000 - b) a" "ln_ratio_milli b (1000 - a) < 0"
proof -
  have "260 \<le> ln_q16 (1000 - b) - ln_q16 a"
    using ln_q16_mono [of a 499] ln_q16_mono [of 501 "1000 - b"] ln_q16_values assms by linarith
  then show "0 < ln_ratio_milli (1000 - b) a"
    unfolding ln_ratio_milli_def
    using zdiv_mono1 [of 260000 "(ln_q16 (1000 - b) - ln_q16 a) * 1000" 65536] by simp
  have "ln_q16 b - ln_q16 (1000 - a) \<le> - 260"
    using ln_q16_mono [of b 499] ln_q16_mono [of 501 "1000 - a"] ln_q16_values assms by linarith
  then show "ln_ratio_milli b (1000 - a) < 0"
    unfolding ln_ratio_milli_def
    using zdiv_mono1 [of "(ln_q16 b - ln_q16 (1000 - a)) * 1000" "- 260000" 65536] by simp
qed

section \<open>Tests in progress\<close>

definition sprt_ok :: "qn_sprt \<Rightarrow> bool" where
  "sprt_ok s \<longleftrightarrow> 0 \<le> up s \<and> up s \<le> 7000 \<and> - 7000 \<le> down s \<and> down s \<le> 0 \<and>
     0 < accept s \<and> reject s < 0 \<and> \<bar>llr s\<bar> \<le> 1000000 \<and>
     1 \<le> nmin s \<and> nmin s \<le> nmax s \<and> nmax s \<le> 65535 \<and> s_good s \<le> s_n s \<and> s_n s \<le> 65535"

lemma sprt_ok_init:
  assumes "nmin' \<le> 65535" "nmax' \<le> 65535"
  shows "sprt_ok (qn_sprt_init p0' p1' al be nmin' nmax')"
proof -
  define p0 p1 where "p0 = qn_clamp p0' 1 999"
    and "p1 = (if qn_clamp p1' 1 999 \<le> p0 then (if p0 + 1 > 999 then 999 else p0 + 1) else qn_clamp p1' 1 999)"
  have p: "1 \<le> p0" "p0 \<le> p1" "p1 \<le> 999"
    using clamp_bounds [of 1 "999::nat" p0'] clamp_bounds [of 1 "999::nat" p1'] by (auto simp: p0_def p1_def)
  have r: "0 \<le> ln_ratio_milli p1 p0" "ln_ratio_milli p1 p0 \<le> 7000"
    "- 7000 \<le> ln_ratio_milli (1000 - p1) (1000 - p0)" "ln_ratio_milli (1000 - p1) (1000 - p0) \<le> 0"
    by (intro ln_ratio_mono; use p in simp)+
  show ?thesis
    unfolding sprt_ok_def qn_sprt_init_def Let_def p0_def [symmetric] p1_def [symmetric]
    using r assms thresholds_apart [of "qn_clamp al 1 499" "qn_clamp be 1 499"]
      clamp_bounds [of 1 "499::nat" al] clamp_bounds [of 1 "499::nat" be] by simp
qed

lemma sprt_ok_push: "sprt_ok s \<Longrightarrow> sprt_ok (snd (qn_sprt_push s g))"
  by (auto simp: sprt_ok_def qn_sprt_push_def qn_clamp_def Let_def)

lemma push_frame:
  "nmax (snd (qn_sprt_push s g)) = nmax s" "s_n (snd (qn_sprt_push s g)) = min 65535 (s_n s + 1) \<or> 65535 < s_n s"
  by (auto simp: qn_sprt_push_def Let_def)

lemma sprt_samples_Cons: "sprt_samples s (g # gs) = sprt_samples (snd (qn_sprt_push s g)) gs"
  by (simp add: sprt_samples_def)

lemma sprt_samples_inv:
  "sprt_ok s \<Longrightarrow> sprt_ok (sprt_samples s gs) \<and> nmax (sprt_samples s gs) = nmax s \<and>
     nmin (sprt_samples s gs) = nmin s \<and> s_n (sprt_samples s gs) = min 65535 (s_n s + length gs)"
proof (induction gs arbitrary: s)
  case Nil
  then show ?case by (simp add: sprt_samples_def sprt_ok_def)
next
  case (Cons g gs)
  let ?s = "snd (qn_sprt_push s g)"
  have "nmax ?s = nmax s" "nmin ?s = nmin s" "s_n ?s = min 65535 (s_n s + 1)"
    using Cons.prems by (auto simp: qn_sprt_push_def Let_def sprt_ok_def)
  then show ?case using Cons.IH [OF sprt_ok_push [OF Cons.prems, of g]] by (auto simp: sprt_samples_Cons)
qed

lemma status_sound:
  assumes "sprt_ok s"
  shows "s_n s < nmin s \<longleftrightarrow> qn_sprt_status s = QN_SPRT_CONTINUE \<and> s_n s < nmin s"
    "nmax s \<le> s_n s \<Longrightarrow> qn_sprt_status s \<noteq> QN_SPRT_CONTINUE"
    "qn_sprt_status s = QN_SPRT_ACCEPT \<Longrightarrow> 0 \<le> llr s"
    "qn_sprt_status s = QN_SPRT_REJECT \<Longrightarrow> llr s < 0"
  using assms by (auto simp: sprt_ok_def qn_sprt_status_def split: if_splits)

section \<open>Properties\<close>

text \<open>Property C16. For every choice of hypotheses and error rates and every sequence of samples, the
  test says nothing before \<open>nmin\<close> samples, has decided once \<open>nmax\<close> samples are in, accepts
  only with a non-negative log-likelihood ratio and rejects only with a negative one, and the
  accumulator plus one more step stays within 32 bits.\<close>

theorem sprt_decides:
  assumes "nmin' \<le> 65535" "nmax' \<le> 65535"
    "s = sprt_samples (qn_sprt_init p0 p1 al be nmin' nmax') gs"
  shows "(length gs < max 1 nmin' \<longrightarrow> qn_sprt_status s = QN_SPRT_CONTINUE) \<and>
    (max (max 1 nmin') nmax' \<le> length gs \<longrightarrow> qn_sprt_status s \<noteq> QN_SPRT_CONTINUE) \<and>
    (qn_sprt_status s = QN_SPRT_ACCEPT \<longrightarrow> 0 \<le> llr s) \<and>
    (qn_sprt_status s = QN_SPRT_REJECT \<longrightarrow> llr s < 0) \<and>
    \<bar>llr s + up s\<bar> < 2 ^ 31 \<and> \<bar>llr s + down s\<bar> < 2 ^ 31"
proof -
  let ?s0 = "qn_sprt_init p0 p1 al be nmin' nmax'"
  have "s_n ?s0 = 0" "nmin ?s0 = max 1 nmin'" "nmax ?s0 = max (max 1 nmin') nmax'"
    by (auto simp: qn_sprt_init_def Let_def max_def)
  with sprt_samples_inv [OF sprt_ok_init [OF assms(1,2), of p0 p1 al be], of gs]
  have ok: "sprt_ok s" and n: "s_n s = min 65535 (length gs)" "nmin s = max 1 nmin'"
    "nmax s = max (max 1 nmin') nmax'"
    by (simp_all add: assms(3))
  have "\<bar>llr s + up s\<bar> < 2 ^ 31 \<and> \<bar>llr s + down s\<bar> < 2 ^ 31" using ok by (auto simp: sprt_ok_def)
  then show ?thesis
    using status_sound [OF ok] n assms(1,2) by (auto simp: min_def split: if_splits)
qed

theorem sprt_decides_witness:
  "qn_sprt_status (sprt_samples (qn_sprt_init 500 900 50 50 3 4) [True, False, True, True]) \<noteq> QN_SPRT_CONTINUE"
  using sprt_decides [of 3 4 _ 500 900 50 50 "[True, False, True, True]", OF _ _ refl] by simp

end
