(* ===== verification/Histogram.thy ===== *)
theory Histogram
  imports Qn_Types Sprt
begin

text \<open>
  The display half of \<^verbatim>\<open>src/core/stats.c\<close>: the log-spaced latency histogram and the sparkline
  ring.  Counters are 32-bit words.
\<close>

abbreviation QN_HIST_BINS :: nat where "QN_HIST_BINS \<equiv> 24"
abbreviation QN_SPARK_LEN :: nat where "QN_SPARK_LEN \<equiv> 64"

record qn_hist =
  h_bin :: "u32 list"
  h_total :: u32
  h_max_bin :: u32

definition qn_hist_reset :: qn_hist where
  "qn_hist_reset = \<lparr>h_bin = replicate QN_HIST_BINS 0, h_total = 0, h_max_bin = 0\<rparr>"

definition hist_bin :: "nat \<Rightarrow> nat" where
  "hist_bin rtt =
     (let ms = rtt div 1000 in
      if ms < 2 then ms
      else (let b = top_bit ms * 2;
                b = (if ms \<ge> 3 * 2 ^ (b div 2 - 1) then b + 1 else b)
            in if b \<ge> QN_HIST_BINS then QN_HIST_BINS - 1 else b))"

definition qn_hist_add :: "qn_hist \<Rightarrow> nat \<Rightarrow> qn_hist" where
  "qn_hist_add h rtt =
     (let b = hist_bin rtt;
          h1 = h\<lparr>h_bin := (h_bin h)[b := h_bin h ! b + 1], h_total := h_total h + 1\<rparr>
      in if h_bin h1 ! b > h_max_bin h1 then h1\<lparr>h_max_bin := h_bin h1 ! b\<rparr> else h1)"

definition bin_edge_ms :: "nat \<Rightarrow> nat" where
  "bin_edge_ms bin = (if bin < 2 then bin else if odd bin then 3 * 2 ^ (bin div 2 - 1) else 2 ^ (bin div 2))"

definition qn_hist_bin_range :: "nat \<Rightarrow> nat \<times> nat" where
  "qn_hist_bin_range bin =
     (if bin \<ge> QN_HIST_BINS then (0, 0) else (bin_edge_ms bin * 1000, bin_edge_ms (bin + 1) * 1000))"

record qn_spark =
  sp_v :: "nat list"
  sp_head :: nat

definition qn_spark_reset :: qn_spark where
  "qn_spark_reset = \<lparr>sp_v = replicate QN_SPARK_LEN 0, sp_head = 0\<rparr>"

definition qn_spark_push :: "qn_spark \<Rightarrow> nat \<Rightarrow> qn_spark" where
  "qn_spark_push s v = s\<lparr>sp_v := (sp_v s)[sp_head s := v], sp_head := (sp_head s + 1) mod QN_SPARK_LEN\<rparr>"

definition qn_spark_at :: "qn_spark \<Rightarrow> nat \<Rightarrow> nat" where
  "qn_spark_at s i = sp_v s ! ((sp_head s + i) mod QN_SPARK_LEN)"

section \<open>Bins\<close>

lemma hist_bin_range:
  assumes "qn_hist_bin_range (hist_bin rtt) = (lo, hi)"
  shows "hist_bin rtt < QN_HIST_BINS" "lo \<le> rtt" "hist_bin rtt < QN_HIST_BINS - 1 \<Longrightarrow> rtt < hi"
proof -
  define ms where "ms = rtt div 1000"
  have r: "ms * 1000 \<le> rtt" "rtt < (ms + 1) * 1000" by (simp_all add: ms_def)
  show lt: "hist_bin rtt < QN_HIST_BINS" by (auto simp: hist_bin_def Let_def)
  have lohi: "lo = bin_edge_ms (hist_bin rtt) * 1000" "hi = bin_edge_ms (hist_bin rtt + 1) * 1000"
    using assms lt by (auto simp: qn_hist_bin_range_def)
  have "bin_edge_ms (hist_bin rtt) \<le> ms \<and> (hist_bin rtt < QN_HIST_BINS - 1 \<longrightarrow> ms + 1 \<le> bin_edge_ms (hist_bin rtt + 1))"
  proof (cases "ms < 2")
    case True
    then have "hist_bin rtt = ms" by (simp add: hist_bin_def ms_def)
    with True show ?thesis by (auto simp: bin_edge_ms_def)
  next
    case False
    define k where "k = top_bit ms"
    have tb: "2 ^ k \<le> ms" "ms < 2 * 2 ^ k" using top_bit_bounds [of ms] False by (auto simp: k_def)
    have k1: "1 \<le> k" using tb(2) False by (cases k) auto
    then obtain j where j: "k = Suc j" by (cases k) auto
    define b where "b = (if ms \<ge> 3 * 2 ^ (k - 1) then k * 2 + 1 else k * 2)"
    have hb: "hist_bin rtt = (if b \<ge> 24 then 23 else b)"
      using False by (simp add: hist_bin_def ms_def [symmetric] k_def [symmetric] b_def Let_def)
    have e: "bin_edge_ms b \<le> ms" "ms + 1 \<le> bin_edge_ms (b + 1)"
      using tb j by (auto simp: b_def bin_edge_ms_def)
    have "bin_edge_ms 23 \<le> ms" if "24 \<le> b"
    proof -
      have "12 \<le> k" using that by (auto simp: b_def split: if_splits)
      then have "(2::nat) ^ 12 \<le> 2 ^ k" by (intro power_increasing) auto
      then show ?thesis using tb by (simp add: bin_edge_ms_def)
    qed
    then show ?thesis using e by (auto simp: hb)
  qed
  then show "lo \<le> rtt" "hist_bin rtt < QN_HIST_BINS - 1 \<Longrightarrow> rtt < hi"
    unfolding lohi using r by (auto intro: order_trans [OF mult_le_mono1] order_less_le_trans [OF _ mult_le_mono1])
qed

lemma bin_edge_step: "bin_edge_ms b \<le> bin_edge_ms (Suc b)"
proof (cases "b < 2")
  case True
  then show ?thesis by (cases "b = 0") (auto simp: bin_edge_ms_def)
next
  case False
  then obtain j where "b = 2 * Suc j \<or> b = Suc (2 * Suc j)"
    by (metis Suc_pred' bot_nat_0.not_eq_extremum even_Suc_div_two evenE oddE dvd_mult_div_cancel less_2_cases_iff
        linorder_not_less mult_0_right mult_eq_0_iff not_less_eq_eq Suc_eq_plus1 One_nat_def)
  then show ?thesis by (auto simp: bin_edge_ms_def)
qed

lemma bin_edge_mono: "b \<le> c \<Longrightarrow> bin_edge_ms b \<le> bin_edge_ms c"
  by (rule lift_Suc_mono_le [of bin_edge_ms]) (auto intro: bin_edge_step)

lemma hist_bin_iff:
  assumes "b < QN_HIST_BINS - 1" "qn_hist_bin_range b = (lo, hi)"
  shows "hist_bin x = b \<longleftrightarrow> lo \<le> x \<and> x < hi"
proof
  assume "hist_bin x = b"
  then show "lo \<le> x \<and> x < hi" using hist_bin_range [of x lo hi] assms by auto
next
  assume x: "lo \<le> x \<and> x < hi"
  define c where "c = hist_bin x"
  have e: "lo = bin_edge_ms b * 1000" "hi = bin_edge_ms (b + 1) * 1000"
    using assms by (auto simp: qn_hist_bin_range_def)
  obtain l h where lh: "qn_hist_bin_range c = (l, h)" by (cases "qn_hist_bin_range c")
  note r = hist_bin_range [of x l h, folded c_def, OF lh]
  have e': "l = bin_edge_ms c * 1000" "h = bin_edge_ms (c + 1) * 1000"
    using lh r(1) by (auto simp: qn_hist_bin_range_def)
  show "hist_bin x = b"
  proof (rule ccontr)
    assume "hist_bin x \<noteq> b"
    then consider "c < b" | "b < c" unfolding c_def by linarith
    then show False
    proof cases
      case 1
      then have "bin_edge_ms (c + 1) \<le> bin_edge_ms b" by (intro bin_edge_mono) simp
      then show False using r(3) 1 assms(1) x e e' by simp
    next
      case 2
      then have "bin_edge_ms (b + 1) \<le> bin_edge_ms c" by (intro bin_edge_mono) simp
      then show False using r(2) x e e' by simp
    qed
  qed
qed

section \<open>Counting\<close>

abbreviation hist_of :: "nat list \<Rightarrow> qn_hist" where
  "hist_of xs \<equiv> fold (\<lambda>x h. qn_hist_add h x) xs qn_hist_reset"

abbreviation in_bin :: "nat list \<Rightarrow> nat \<Rightarrow> nat" where
  "in_bin xs b \<equiv> length (filter (\<lambda>x. hist_bin x = b) xs)"

lemma hist_bin_less: "hist_bin x < QN_HIST_BINS"
  by (auto simp: hist_bin_def Let_def)

lemma hist_counts:
  "length xs < 2 ^ 32 \<Longrightarrow>
   length (h_bin (hist_of xs)) = QN_HIST_BINS \<and> unat (h_total (hist_of xs)) = length xs \<and>
   (\<forall>b<QN_HIST_BINS. unat (h_bin (hist_of xs) ! b) = in_bin xs b) \<and>
   (\<forall>b<QN_HIST_BINS. in_bin xs b \<le> unat (h_max_bin (hist_of xs)))"
proof (induction xs rule: rev_induct)
  case Nil
  then show ?case by (simp add: qn_hist_reset_def)
next
  case (snoc x xs)
  let ?h = "hist_of xs" let ?b = "hist_bin x"
  have IH: "length (h_bin ?h) = 24" "unat (h_total ?h) = length xs"
    "\<And>b. b < 24 \<Longrightarrow> unat (h_bin ?h ! b) = in_bin xs b" "\<And>b. b < 24 \<Longrightarrow> in_bin xs b \<le> unat (h_max_bin ?h)"
    using snoc by auto
  have b: "?b < 24" by (rule hist_bin_less)
  have le: "in_bin xs ?b \<le> length xs" by simp
  have n: "unat (h_bin ?h ! ?b + 1) = in_bin xs ?b + 1"
  proof -
    have "length xs + 1 < 2 ^ 32" using snoc.prems by simp
    then have "in_bin xs ?b + 1 < 2 ^ 32" using add_le_mono1 [OF le, of 1] by (rule order_le_less_trans [rotated])
    then show ?thesis using IH(3) [OF b] by (subst unat_add_u32) simp_all
  qed
  have t: "unat (h_total ?h + 1) = length xs + 1" using IH(2) snoc.prems by (subst unat_add_u32) auto
  have eq: "h_bin (hist_of (xs @ [x])) = (h_bin ?h)[?b := h_bin ?h ! ?b + 1]"
    "h_total (hist_of (xs @ [x])) = h_total ?h + 1"
    "h_max_bin (hist_of (xs @ [x])) = max (h_max_bin ?h) (h_bin ?h ! ?b + 1)"
    using b IH(1) by (auto simp: qn_hist_add_def Let_def max_def)
  have m: "unat (h_max_bin (hist_of (xs @ [x]))) = max (unat (h_max_bin ?h)) (in_bin xs ?b + 1)"
    unfolding eq using n by (auto simp: max_def word_le_nat_alt)
  show ?case
    unfolding eq(1,2) m using IH n t b by (auto simp: nth_list_update le_max_iff_disj)
qed

text \<open>Below 4 s every histogram bin counts exactly the samples inside the range that
  \<open>qn_hist_bin_range\<close> reports for it, and the total counts all samples.\<close>

lemma hist_bins_exact:
  assumes "length xs < 2 ^ 32" "b < QN_HIST_BINS - 1" "qn_hist_bin_range b = (lo, hi)"
  shows "unat (h_bin (fold (\<lambda>x h. qn_hist_add h x) xs qn_hist_reset) ! b) =
      length (filter (\<lambda>x. lo \<le> x \<and> x < hi) xs) \<and>
    unat (h_total (fold (\<lambda>x h. qn_hist_add h x) xs qn_hist_reset)) = length xs"
  using hist_counts [OF assms(1)] assms(2) hist_bin_iff [OF assms(2,3)] by simp

lemma mod64_back: "h < 64 \<Longrightarrow> ((h + 1) mod 64 + 63) mod 64 = (h::nat)"
  by (cases "h = 63") simp_all

lemma mod64_ahead: "h < 64 \<Longrightarrow> 0 < i \<Longrightarrow> i < 64 \<Longrightarrow> (h + i) mod 64 \<noteq> (h::nat)"
  by (cases "h + i < 64") (auto simp: mod_if [of "h + i"])

text \<open>The sparkline shows the last 64 values pushed, oldest first, and zeros before the
  first value.\<close>

lemma spark_window:
  assumes "i < QN_SPARK_LEN"
  shows "qn_spark_at (fold (\<lambda>v s. qn_spark_push s v) xs qn_spark_reset) i =
    (replicate QN_SPARK_LEN 0 @ xs) ! (length xs + i)"
proof -
  let ?s = "\<lambda>xs. fold (\<lambda>v s. qn_spark_push s v) xs qn_spark_reset"
  have "sp_head (?s xs) = length xs mod 64 \<and> length (sp_v (?s xs)) = 64 \<and>
      (\<forall>i<64. qn_spark_at (?s xs) i = (replicate 64 0 @ xs) ! (length xs + i))"
  proof (induction xs rule: rev_induct)
    case Nil
    then show ?case by (simp add: qn_spark_reset_def qn_spark_at_def)
  next
    case (snoc v xs)
    let ?h = "length xs mod 64"
    have h: "sp_head (?s xs) = ?h" "length (sp_v (?s xs)) = 64" using snoc by auto
    have "qn_spark_at (?s (xs @ [v])) i = (replicate 64 0 @ (xs @ [v])) ! (length (xs @ [v]) + i)" if i: "i < 64" for i
    proof (cases "i = 63")
      case True
      have "((?h + 1) mod 64 + 63) mod 64 = ?h" by (rule mod64_back) simp
      then show ?thesis using True h by (simp add: qn_spark_push_def qn_spark_at_def nth_append)
    next
      case False
      then have j: "i + 1 < 64" using i by simp
      have "((?h + 1) mod 64 + i) mod 64 = (?h + (i + 1)) mod 64" by (simp only: mod_add_left_eq) (simp add: ac_simps)
      moreover have "(?h + (i + 1)) mod 64 \<noteq> ?h" using j by (intro mod64_ahead) simp_all
      ultimately have "qn_spark_at (?s (xs @ [v])) i = qn_spark_at (?s xs) (i + 1)"
        using h by (simp add: qn_spark_push_def qn_spark_at_def)
      also have "\<dots> = (replicate 64 0 @ xs) ! (length xs + (i + 1))" using snoc j by blast
      also have "\<dots> = ((replicate 64 0 @ xs) @ [v]) ! (length xs + (i + 1))"
        by (subst nth_append [of "replicate 64 0 @ xs"]) (use j in simp)
      finally show ?thesis by simp
    qed
    then show ?case using h by (auto simp: qn_spark_push_def mod_Suc_eq)
  qed
  then show ?thesis using assms by blast
qed

end
