(* ===== verification/Cycle_Walk.thy ===== *)
theory Cycle_Walk
  imports Qn_Prelude
begin

text \<open>
  Cycle walking, as a contract: a permutation \<open>enc\<close> of a finite set \<open>D\<close>, iterated from a
  point of a subset \<open>S\<close> until it falls back into \<open>S\<close>.  The locale proves once that the walk
  always ends and that the map from a point to the end of its walk is a bijection of \<open>S\<close>.
  The theory \<open>Perm\<close> interprets it on the Feistel network of \<^verbatim>\<open>src/core/perm.c\<close>.
\<close>

locale cycle_walk =
  fixes enc :: "'a \<Rightarrow> 'a" and D :: "'a set" and S :: "'a set"
  assumes finite_D: "finite D"
    and enc_into: "x \<in> D \<Longrightarrow> enc x \<in> D"
    and enc_inj: "inj_on enc D"
    and S_sub: "S \<subseteq> D"
begin

definition first_return :: "'a \<Rightarrow> nat \<Rightarrow> bool" where
  "first_return x n \<longleftrightarrow> 0 < n \<and> (enc ^^ n) x \<in> S \<and> (\<forall>m. 0 < m \<and> m < n \<longrightarrow> (enc ^^ m) x \<notin> S)"

lemma pow_into: "x \<in> D \<Longrightarrow> (enc ^^ n) x \<in> D"
  by (induction n) (auto intro: enc_into)

lemma pow_inj: "x \<in> D \<Longrightarrow> y \<in> D \<Longrightarrow> (enc ^^ n) x = (enc ^^ n) y \<Longrightarrow> x = y"
proof (induction n)
  case 0
  then show ?case by simp
next
  case (Suc n)
  then have "(enc ^^ n) x = (enc ^^ n) y"
    using enc_inj by (auto dest!: inj_onD intro: pow_into)
  with Suc show ?case by blast
qed

lemma orbit_returns:
  assumes "x \<in> D"
  shows "\<exists>n>0. (enc ^^ n) x = x"
proof -
  have "\<not> inj (\<lambda>n. (enc ^^ n) x)"
  proof
    assume "inj (\<lambda>n. (enc ^^ n) x)"
    moreover have "range (\<lambda>n. (enc ^^ n) x) \<subseteq> D"
      using pow_into [OF assms] by blast
    ultimately have "finite (UNIV :: nat set)"
      using finite_D by (meson finite_imageD finite_subset)
    then show False by simp
  qed
  then obtain i j where ij: "i < j" "(enc ^^ i) x = (enc ^^ j) x"
    unfolding inj_on_def by (metis linorder_neqE_nat)
  have "(enc ^^ j) x = (enc ^^ i) ((enc ^^ (j - i)) x)"
    using ij(1) by (metis comp_apply funpow_add le_add_diff_inverse less_imp_le)
  with ij have "x = (enc ^^ (j - i)) x"
    using pow_inj [OF assms pow_into [OF assms]] by metis
  with ij(1) show ?thesis by (metis zero_less_diff)
qed

lemma first_return_ex:
  assumes "x \<in> S"
  shows "\<exists>n. first_return x n"
proof -
  from assms S_sub have "x \<in> D" by blast
  then obtain k where k: "0 < k \<and> (enc ^^ k) x \<in> S"
    using orbit_returns assms by metis
  define n where "n = (LEAST n. 0 < n \<and> (enc ^^ n) x \<in> S)"
  have "0 < n \<and> (enc ^^ n) x \<in> S"
    unfolding n_def by (rule LeastI [of "\<lambda>n. 0 < n \<and> (enc ^^ n) x \<in> S", OF k])
  moreover have "\<not> (0 < m \<and> (enc ^^ m) x \<in> S)" if "m < n" for m
    using that unfolding n_def by (rule not_less_Least)
  ultimately show ?thesis
    unfolding first_return_def by blast
qed

lemma first_return_unique: "first_return x n \<Longrightarrow> first_return x m \<Longrightarrow> n = m"
  unfolding first_return_def by (metis linorder_neqE_nat)

lemma first_return_inj_le:
  assumes "x \<in> S" "y \<in> S" "first_return x n" "first_return y m"
    and eq: "(enc ^^ n) x = (enc ^^ m) y" and le: "n \<le> m"
  shows "x = y"
proof -
  have "(enc ^^ m) y = (enc ^^ n) ((enc ^^ (m - n)) y)"
    using le by (metis comp_apply funpow_add le_add_diff_inverse)
  with eq have x: "x = (enc ^^ (m - n)) y"
    using pow_inj pow_into assms(1,2) S_sub by (metis subsetD)
  show ?thesis
  proof (cases "n = m")
    case True
    with x show ?thesis by simp
  next
    case False
    with le assms(3) have "0 < m - n" "m - n < m"
      unfolding first_return_def by auto
    with assms(1,4) x show ?thesis
      unfolding first_return_def by metis
  qed
qed

lemma first_return_inj:
  assumes "x \<in> S" "y \<in> S" "first_return x n" "first_return y m"
    and "(enc ^^ n) x = (enc ^^ m) y"
  shows "x = y"
  using first_return_inj_le [OF assms] first_return_inj_le [of y x m n] assms
  by (metis nat_le_linear)

text \<open>Any implementation that returns the first point back in \<open>S\<close> permutes \<open>S\<close>.\<close>

lemma walk_bij:
  assumes walk: "\<And>x n. x \<in> S \<Longrightarrow> first_return x n \<Longrightarrow> w x = (enc ^^ n) x"
  shows "bij_betw w S S"
proof (rule inj_on_into_finite_bij)
  show "finite S" using finite_D S_sub by (rule finite_subset [rotated])
  show "inj_on w S"
    by (rule inj_onI) (metis first_return_ex first_return_inj walk)
  show "w ` S \<subseteq> S"
    using first_return_ex walk unfolding first_return_def by fastforce
qed

end

end
