(* ===== verification/Perm.thy ===== *)
theory Perm
  imports Cycle_Walk
begin

unbundle bit_operations_syntax

text \<open>
  \<^verbatim>\<open>src/core/perm.c\<close>: the xoshiro-style generator \<open>qn_rng\<close> and the keyed permutation of an
  index range, \<open>qn_perm\<close>, a four-round Feistel network that is walked along its cycles until
  it lands inside the requested domain.  The scanner orders ports, address blocks and
  exploration draws with it, so a repeated or skipped index would be a repeated or skipped
  probe.  The walk is a C loop without a bound; it is modelled by a partial function whose
  value \<open>None\<close> would be a loop that never returns.
\<close>

section \<open>Mixing and the generator\<close>

definition rotl :: "u64 \<Rightarrow> nat \<Rightarrow> u64" where
  "rotl x k = push_bit k x OR drop_bit (64 - k) x"

definition mix64 :: "u64 \<Rightarrow> u64" where
  "mix64 z0 =
     (let z1 = z0 + 0x9E3779B97F4A7C15;
          z2 = (z1 XOR drop_bit 30 z1) * 0xBF58476D1CE4E5B9;
          z3 = (z2 XOR drop_bit 27 z2) * 0x94D049BB133111EB
      in z3 XOR drop_bit 31 z3)"

record qn_rng =
  rng_s0 :: u64
  rng_s1 :: u64
  rng_s2 :: u64
  rng_s3 :: u64

definition qn_rng_seed :: "u64 \<Rightarrow> qn_rng" where
  "qn_rng_seed seed =
     (let g = 0x9E3779B97F4A7C15;
          a0 = seed + g; a1 = a0 + g; a2 = a1 + g; a3 = a2 + g;
          r = \<lparr>rng_s0 = mix64 a0, rng_s1 = mix64 a1, rng_s2 = mix64 a2, rng_s3 = mix64 a3\<rparr>
      in if (rng_s0 r OR rng_s1 r OR rng_s2 r OR rng_s3 r) = 0
         then r\<lparr>rng_s0 := 0x2545F4914F6CDD1D\<rparr> else r)"

definition qn_rng_next :: "qn_rng \<Rightarrow> u64 \<times> qn_rng" where
  "qn_rng_next r =
     (let res = rotl (rng_s0 r + rng_s3 r) 23 + rng_s0 r;
          t = push_bit 17 (rng_s1 r);
          s2 = rng_s2 r XOR rng_s0 r;
          s3 = rng_s3 r XOR rng_s1 r;
          s1 = rng_s1 r XOR s2;
          s0 = rng_s0 r XOR s3;
          s2' = s2 XOR t;
          s3' = rotl s3 45
      in (res, \<lparr>rng_s0 = s0, rng_s1 = s1, rng_s2 = s2', rng_s3 = s3'\<rparr>))"

text \<open>
  \<open>qn_rng_below\<close> is Lemire's multiply-shift with rejection.  One draw multiplies the low 32
  bits of the generator by the bound; the loop redraws while the low half of the product is
  under the threshold \<open>(2\<^sup>3\<^sup>2 - bound) mod bound\<close>.
\<close>

definition lemire_product :: "u32 \<Rightarrow> u32 \<Rightarrow> u64" where
  "lemire_product v bound = ucast v * ucast bound"

definition lemire_threshold :: "u32 \<Rightarrow> u32" where
  "lemire_threshold bound = (0 - bound) mod bound"

definition lemire_draw :: "qn_rng \<Rightarrow> u32 \<Rightarrow> u64 \<times> qn_rng" where
  "lemire_draw r bound =
     (let (v, r') = qn_rng_next r in (lemire_product (ucast v) bound, r'))"

partial_function (option) lemire_loop ::
  "qn_rng \<Rightarrow> u32 \<Rightarrow> u32 \<Rightarrow> u64 \<Rightarrow> (u32 \<times> qn_rng) option" where
  "lemire_loop r bound t m =
     (if (ucast m :: u32) < t
      then (case lemire_draw r bound of (m', r') \<Rightarrow> lemire_loop r' bound t m')
      else Some (ucast (drop_bit 32 m), r))"

definition qn_rng_below :: "qn_rng \<Rightarrow> u32 \<Rightarrow> (u32 \<times> qn_rng) option" where
  "qn_rng_below r bound =
     (if bound < 2 then Some (0, r)
      else (case lemire_draw r bound of (m, r') \<Rightarrow>
        (if (ucast m :: u32) < bound
         then lemire_loop r' bound (lemire_threshold bound) m
         else Some (ucast (drop_bit 32 m), r'))))"

text \<open>\<open>memcpy\<close> of a 64-bit value on the little-endian targets.\<close>

definition le_bytes :: "u64 \<Rightarrow> bytes" where
  "le_bytes v = map (\<lambda>i. ucast (drop_bit (8 * i) v)) [0..<8]"

fun qn_rng_bytes :: "qn_rng \<Rightarrow> nat \<Rightarrow> bytes \<times> qn_rng" where
  "qn_rng_bytes r n =
     (if 8 \<le> n then
        (let (v, r1) = qn_rng_next r; (bs, r2) = qn_rng_bytes r1 (n - 8) in (le_bytes v @ bs, r2))
      else if 0 < n then (let (v, r1) = qn_rng_next r in (take n (le_bytes v), r1))
      else ([], r))"

declare qn_rng_bytes.simps [simp del]

text \<open>The operating system's entropy, clock and process id are arguments.\<close>

definition qn_rng_entropy :: "u64 option \<Rightarrow> u64 \<Rightarrow> u64 \<Rightarrow> u64" where
  "qn_rng_entropy os_entropy now_ns pid =
     (case os_entropy of
        Some v \<Rightarrow> if v \<noteq> 0 then v
                  else (let w = mix64 (now_ns XOR push_bit 32 pid)
                        in if w \<noteq> 0 then w else 0xA0761D6478BD642F)
      | None \<Rightarrow> (let w = mix64 (now_ns XOR push_bit 32 pid)
                 in if w \<noteq> 0 then w else 0xA0761D6478BD642F))"

definition qn_seed_derive :: "u64 \<Rightarrow> u64 \<Rightarrow> u64" where
  "qn_seed_derive master domain = mix64 (master XOR mix64 (domain + 0xD1B54A32D192ED03))"

section \<open>The permutation\<close>

record qn_perm =
  p_domain :: u64
  p_mask :: u64
  p_half :: nat
  p_hmask :: u32
  p_key :: "u64 list"

text \<open>The loop that rounds the width up to an even number of bits.\<close>

function perm_bits :: "nat \<Rightarrow> u64 \<Rightarrow> nat" where
  "perm_bits bits domain =
     (if bits < 64 \<and> push_bit bits 1 < domain then perm_bits (bits + 2) domain else bits)"
  by pat_completeness auto
termination
  by (relation "measure (\<lambda>(bits, domain). 64 - bits)") auto

declare perm_bits.simps [simp del]

fun perm_keys :: "nat \<Rightarrow> u64 \<Rightarrow> u64 list" where
  "perm_keys 0 seed = []"
| "perm_keys (Suc n) seed =
     (let seed' = mix64 (seed + 0xA24BAED4963EE407) in seed' # perm_keys n seed')"

definition qn_perm_init :: "u64 \<Rightarrow> u64 \<Rightarrow> qn_perm" where
  "qn_perm_init domain seed =
     (if domain < 2
      then \<lparr>p_domain = domain, p_mask = 0, p_half = 0, p_hmask = 0, p_key = [0, 0, 0, 0]\<rparr>
      else
        (let bits = perm_bits 2 domain; half = bits div 2 in
          \<lparr>p_domain = domain,
           p_mask = (if 64 \<le> bits then NOT 0 else push_bit bits 1 - 1),
           p_half = half,
           p_hmask = (if 32 \<le> half then 0xFFFFFFFF else push_bit half 1 - 1),
           p_key = perm_keys 4 seed\<rparr>))"

fun feistel_rounds :: "u32 \<Rightarrow> u64 list \<Rightarrow> u32 \<times> u32 \<Rightarrow> u32 \<times> u32" where
  "feistel_rounds hmask [] (l, r) = (l, r)"
| "feistel_rounds hmask (k # ks) (l, r) =
     feistel_rounds hmask ks (r, l XOR ucast (mix64 (push_bit 24 (ucast r) XOR k) AND ucast hmask))"

definition perm_step :: "qn_perm \<Rightarrow> u64 \<Rightarrow> u64" where
  "perm_step p x =
     (let l = ucast (drop_bit (p_half p) x AND ucast (p_hmask p));
          r = ucast (x AND ucast (p_hmask p));
          (l', r') = feistel_rounds (p_hmask p) (p_key p) (l, r)
      in (push_bit (p_half p) (ucast l') OR ucast r') AND p_mask p)"

partial_function (option) perm_walk :: "qn_perm \<Rightarrow> u64 \<Rightarrow> u64 option" where
  "perm_walk p x =
     (let y = perm_step p x in if y < p_domain p then Some y else perm_walk p y)"

definition qn_perm_apply :: "qn_perm \<Rightarrow> u64 \<Rightarrow> u64 option" where
  "qn_perm_apply p i =
     (if p_domain p < 2 then Some 0
      else perm_walk p (if p_domain p \<le> i then i mod p_domain p else i))"

section \<open>The generator never reaches its absorbing state\<close>

definition rng_live :: "qn_rng \<Rightarrow> bool" where
  "rng_live r \<longleftrightarrow> \<not> (rng_s0 r = 0 \<and> rng_s1 r = 0 \<and> rng_s2 r = 0 \<and> rng_s3 r = 0)"

lemma rotl_eq_0: "0 < k \<Longrightarrow> k < 64 \<Longrightarrow> rotl x k = 0 \<longleftrightarrow> x = 0"
proof
  assume k: "0 < k" "k < 64" and z: "rotl x k = 0"
  show "x = 0"
  proof (rule bit_word_eqI)
    fix n assume n: "n < LENGTH(64)"
    show "bit x n = bit 0 n"
    proof (cases "n + k < 64")
      case True
      from z have "\<not> bit (rotl x k) (n + k)" by simp
      with True k show ?thesis by (simp add: rotl_def bit_or_iff bit_push_bit_iff)
    next
      case False
      from z have "\<not> bit (rotl x k) (n + k - 64)" by simp
      with False n k show ?thesis
        by (simp add: rotl_def bit_or_iff bit_push_bit_iff bit_drop_bit_eq)
    qed
  qed
qed (simp add: rotl_def)

lemma push_bit_fixed: "x = push_bit 17 x \<Longrightarrow> x = 0" for x :: u64
proof -
  assume eq: "x = push_bit 17 x"
  have "\<not> bit x n" for n
  proof (induction n rule: less_induct)
    case (less n)
    have "bit x n \<longleftrightarrow> bit (push_bit 17 x) n" using eq by simp
    with less show ?case by (auto simp: bit_push_bit_iff)
  qed
  then show ?thesis by (intro bit_word_eqI) simp
qed

lemma xor_eq_0: "a XOR b = 0 \<longleftrightarrow> a = b" for a b :: "'a::len word"
  by (metis xor.left_neutral xor.right_neutral xor_self_eq bit.xor_left_self)

lemma rng_next_live: "rng_live r \<Longrightarrow> rng_live (snd (qn_rng_next r))"
proof (rule ccontr)
  assume live: "rng_live r" and dead: "\<not> rng_live (snd (qn_rng_next r))"
  from dead have s3: "rng_s3 r = rng_s1 r" and s0: "rng_s0 r XOR (rng_s3 r XOR rng_s1 r) = 0"
    and s1: "rng_s1 r = rng_s2 r XOR rng_s0 r"
    and s2: "rng_s2 r XOR rng_s0 r = push_bit 17 (rng_s1 r)"
    by (auto simp: rng_live_def qn_rng_next_def Let_def rotl_eq_0 xor_eq_0)
  from s1 s2 have "rng_s1 r = push_bit 17 (rng_s1 r)" by simp
  then have z1: "rng_s1 r = 0" by (rule push_bit_fixed)
  with s3 s0 s1 have "rng_s0 r = 0" "rng_s2 r = 0" "rng_s3 r = 0" by auto
  with z1 live show False by (simp add: rng_live_def)
qed

lemma rng_seed_live: "rng_live (qn_rng_seed seed)"
  by (auto simp: rng_live_def qn_rng_seed_def Let_def)

section \<open>The Feistel network permutes its block\<close>

lemma feistel_rounds_inj: "feistel_rounds hm ks x = feistel_rounds hm ks y \<Longrightarrow> x = y"
proof (induction hm ks x arbitrary: y rule: feistel_rounds.induct)
  case (1 hm l r)
  then show ?case by (cases y) auto
next
  case (2 hm k ks l r)
  obtain l' r' where y: "y = (l', r')" by (cases y)
  from 2 y have "r = r'"
    and "l XOR ucast (mix64 (push_bit 24 (ucast r) XOR k) AND ucast hm) =
         l' XOR ucast (mix64 (push_bit 24 (ucast r') XOR k) AND ucast hm)"
    by fastforce+
  then show ?case using y by (metis bit.xor_left_self xor.commute)
qed

definition low_bits :: "nat \<Rightarrow> 'a::len word \<Rightarrow> bool" where
  "low_bits h x \<longleftrightarrow> take_bit h x = x"

lemma low_bits_iff: "low_bits h x \<longleftrightarrow> (\<forall>n. bit x n \<longrightarrow> n < h)"
  unfolding low_bits_def
  by (metis bit_take_bit_iff bit_eq_iff)

lemma low_bits_xor_masked:
  "low_bits h l \<Longrightarrow> low_bits h (l XOR ucast (z AND ucast (mask h :: u32)))" for l :: u32 and z :: u64
  by (auto simp: low_bits_iff bit_simps)

lemma feistel_rounds_low:
  "low_bits h (fst lr) \<Longrightarrow> low_bits h (snd lr) \<Longrightarrow>
   low_bits h (fst (feistel_rounds (mask h) ks lr)) \<and> low_bits h (snd (feistel_rounds (mask h) ks lr))"
proof (induction ks arbitrary: lr)
  case Nil
  then show ?case by (cases lr) simp
next
  case (Cons k ks)
  obtain l r where lr: "lr = (l, r)" by (cases lr)
  define l' where "l' = l XOR ucast (mix64 (push_bit 24 (ucast r) XOR k) AND ucast (mask h :: u32))"
  have "low_bits h l'"
    using Cons.prems lr unfolding l'_def by (intro low_bits_xor_masked) simp
  moreover have "feistel_rounds (mask h) (k # ks) lr = feistel_rounds (mask h) ks (r, l')"
    unfolding lr l'_def by (rule feistel_rounds.simps(2))
  ultimately show ?case
    using Cons.IH [of "(r, l')"] Cons.prems lr by simp
qed

text \<open>What \<open>qn_perm_init\<close> sets up for a domain of two or more.\<close>

definition perm_wf :: "qn_perm \<Rightarrow> bool" where
  "perm_wf p \<longleftrightarrow> 1 \<le> p_half p \<and> p_half p \<le> 32 \<and> p_hmask p = mask (p_half p) \<and>
     p_mask p = mask (2 * p_half p) \<and> 2 \<le> p_domain p \<and>
     (\<forall>x. x < p_domain p \<longrightarrow> low_bits (2 * p_half p) x)"

lemma perm_bits_props:
  "even bits \<Longrightarrow> bits \<le> 64 \<Longrightarrow>
   (let b = perm_bits bits d in even b \<and> bits \<le> b \<and> b \<le> 64 \<and> (b < 64 \<longrightarrow> d \<le> push_bit b 1))"
proof (induction bits d rule: perm_bits.induct)
  case (1 bits d)
  show ?case
  proof (cases "bits < 64 \<and> push_bit bits 1 < d")
    case True
    with 1(2) have "bits + 2 \<le> 64" by (elim evenE) auto
    with 1 True show ?thesis
      by (simp add: perm_bits.simps [of bits d] Let_def)
  next
    case False
    with 1 show ?thesis by (auto simp: perm_bits.simps [of bits d] Let_def)
  qed
qed

lemma unat_power_lower64: "b < 64 \<Longrightarrow> unat (2 ^ b :: u64) = 2 ^ b"
proof -
  assume "b < 64"
  have "unat (2 ^ b :: u64) = unat (of_nat (2 ^ b) :: u64)" by simp
  also have "\<dots> = 2 ^ b mod 2 ^ 64" by (simp only: unat_of_nat len_num0) simp
  also have "\<dots> = 2 ^ b" using \<open>b < 64\<close> by (intro mod_less power_strict_increasing) simp_all
  finally show ?thesis .
qed

lemma less_pow_low_bits: "b < 64 \<Longrightarrow> x < (push_bit b 1 :: u64) \<Longrightarrow> low_bits b x"
proof -
  assume b: "b < 64" and lt: "x < push_bit b 1"
  have "unat (push_bit b 1 :: u64) = 2 ^ b"
    using b by (simp add: unat_power_lower64)
  with lt have "unat x < 2 ^ b" by (simp add: word_less_nat_alt)
  then have "take_bit b (unat x) = unat x" by (simp add: take_bit_nat_eq_self)
  then show ?thesis
    unfolding low_bits_def by (simp add: unat_eq_iff unsigned_take_bit_eq)
qed

lemma qn_perm_init_wf: "2 \<le> d \<Longrightarrow> perm_wf (qn_perm_init d seed)"
proof -
  assume d: "2 \<le> d"
  define b where "b = perm_bits 2 d"
  have b: "even b" "2 \<le> b" "b \<le> 64" "b < 64 \<longrightarrow> d \<le> push_bit b 1"
    using perm_bits_props [of 2 d] by (auto simp: b_def Let_def)
  have low: "low_bits b x" if "x < d" for x
  proof (cases "b < 64")
    case True
    with b that show ?thesis by (intro less_pow_low_bits) auto
  next
    case False
    with b have "b = 64" by simp
    then show ?thesis by (auto simp: low_bits_iff dest: bit_imp_le_length)
  qed
  have "p_mask (qn_perm_init d seed) = mask b"
    using d b by (auto simp: qn_perm_init_def Let_def b_def [symmetric] mask_eq_decr_exp
        push_bit_of_1 not_le minus_1_eq_mask)
  moreover have "p_hmask (qn_perm_init d seed) = mask (b div 2)"
    using d b by (auto simp: qn_perm_init_def Let_def b_def [symmetric] mask_eq_decr_exp
        push_bit_of_1 not_le)
  ultimately show ?thesis
    using d b low by (auto simp: perm_wf_def qn_perm_init_def Let_def b_def [symmetric])
qed

text \<open>Splitting a block into halves and joining them.\<close>

definition perm_split :: "nat \<Rightarrow> u64 \<Rightarrow> u32 \<times> u32" where
  "perm_split h x = (ucast (drop_bit h x AND ucast (mask h :: u32)), ucast (x AND ucast (mask h :: u32)))"

definition perm_join :: "nat \<Rightarrow> u32 \<times> u32 \<Rightarrow> u64" where
  "perm_join h lr = (push_bit h (ucast (fst lr)) OR ucast (snd lr)) AND mask (2 * h)"

lemma perm_step_eq:
  "perm_wf p \<Longrightarrow> perm_step p x =
     perm_join (p_half p) (feistel_rounds (mask (p_half p)) (p_key p) (perm_split (p_half p) x))"
  by (simp add: perm_wf_def perm_step_def perm_join_def perm_split_def Let_def split: prod.split)

lemma perm_split_low: "low_bits h (fst (perm_split h x)) \<and> low_bits h (snd (perm_split h x))"
  by (auto simp: perm_split_def low_bits_iff bit_simps)

lemma perm_split_inj:
  assumes h: "h \<le> 32" and x: "low_bits (2 * h) x" and y: "low_bits (2 * h) y"
    and eq: "perm_split h x = perm_split h y"
  shows "x = y"
proof (rule bit_word_eqI)
  fix n assume "n < LENGTH(64)"
  show "bit x n = bit y n"
  proof (cases "n < h")
    case True
    from eq have "bit (snd (perm_split h x)) n = bit (snd (perm_split h y)) n" by simp
    with True h show ?thesis by (simp add: perm_split_def bit_simps)
  next
    case False
    from eq have "bit (fst (perm_split h x)) (n - h) = bit (fst (perm_split h y)) (n - h)" by simp
    with False h x y show ?thesis
      by (cases "n < 2 * h") (auto simp: perm_split_def bit_simps low_bits_iff)
  qed
qed

lemma perm_join_low: "low_bits (2 * h) (perm_join h lr)"
  by (auto simp: perm_join_def low_bits_iff bit_simps)

lemma perm_split_join:
  assumes h: "h \<le> 32" and "low_bits h (fst lr)" "low_bits h (snd lr)"
  shows "perm_split h (perm_join h lr) = lr"
proof -
  have "fst (perm_split h (perm_join h lr)) = fst lr"
    using assms by (intro bit_word_eqI)
      (auto simp: perm_split_def perm_join_def bit_simps low_bits_iff)
  moreover have "snd (perm_split h (perm_join h lr)) = snd lr"
    using assms by (intro bit_word_eqI)
      (auto simp: perm_split_def perm_join_def bit_simps low_bits_iff)
  ultimately show ?thesis by (simp add: prod_eq_iff)
qed

lemma perm_step_inj:
  assumes wf: "perm_wf p" and "low_bits (2 * p_half p) x" "low_bits (2 * p_half p) y"
    and eq: "perm_step p x = perm_step p y"
  shows "x = y"
proof -
  let ?h = "p_half p" and ?f = "feistel_rounds (mask (p_half p)) (p_key p)"
  have h: "?h \<le> 32" using wf by (simp add: perm_wf_def)
  have low: "low_bits ?h (fst (?f (perm_split ?h z))) \<and> low_bits ?h (snd (?f (perm_split ?h z)))" for z
    using perm_split_low by (intro feistel_rounds_low) blast+
  from eq have "perm_split ?h (perm_join ?h (?f (perm_split ?h x))) =
      perm_split ?h (perm_join ?h (?f (perm_split ?h y)))"
    by (simp add: perm_step_eq [OF wf])
  then have "?f (perm_split ?h x) = ?f (perm_split ?h y)"
    using low h by (simp add: perm_split_join)
  then have "perm_split ?h x = perm_split ?h y" by (rule feistel_rounds_inj)
  with h assms(2,3) show ?thesis by (rule perm_split_inj)
qed

lemma perm_cycle_walk:
  assumes wf: "perm_wf p"
  shows "cycle_walk (perm_step p) {x. low_bits (2 * p_half p) x} {x. x < p_domain p}"
proof
  show "perm_step p x \<in> {x. low_bits (2 * p_half p) x}" for x
    using perm_join_low by (simp add: perm_step_eq [OF wf])
  show "inj_on (perm_step p) {x. low_bits (2 * p_half p) x}"
    by (rule inj_onI) (auto intro: perm_step_inj [OF wf])
  show "{x. x < p_domain p} \<subseteq> {x. low_bits (2 * p_half p) x}"
    using wf by (auto simp: perm_wf_def)
qed simp

text \<open>The loop of \<open>qn_perm_apply\<close> returns exactly the first iterate inside the domain.\<close>

lemma perm_walk_iterate:
  "(perm_step p ^^ Suc n) x < p_domain p \<Longrightarrow>
   (\<And>m. 0 < m \<Longrightarrow> m \<le> n \<Longrightarrow> \<not> (perm_step p ^^ m) x < p_domain p) \<Longrightarrow>
   perm_walk p x = Some ((perm_step p ^^ Suc n) x)"
proof (induction n arbitrary: x)
  case 0
  then show ?case by (subst perm_walk.simps) (simp add: Let_def)
next
  case (Suc n)
  have "\<not> perm_step p x < p_domain p" using Suc.prems(2) [of 1] by simp
  moreover have "perm_walk p (perm_step p x) = Some ((perm_step p ^^ Suc n) (perm_step p x))"
  proof (rule Suc.IH)
    show "(perm_step p ^^ Suc n) (perm_step p x) < p_domain p"
      using Suc.prems(1) by (simp add: funpow_swap1)
    show "\<not> (perm_step p ^^ m) (perm_step p x) < p_domain p" if "0 < m" "m \<le> n" for m
      using Suc.prems(2) [of "Suc m"] that by (simp add: funpow_swap1)
  qed
  ultimately show ?case
    by (subst perm_walk.simps) (simp add: Let_def funpow_swap1)
qed

interpretation pw: cycle_walk "perm_step (qn_perm_init d seed)"
    "{x. low_bits (2 * p_half (qn_perm_init d seed)) x}" "{x. x < d}" for d seed
proof (cases "2 \<le> d")
  case True
  then have "p_domain (qn_perm_init d seed) = d"
    by (simp add: qn_perm_init_def Let_def word_nat)
  with perm_cycle_walk [OF qn_perm_init_wf [OF True]]
  show "cycle_walk (perm_step (qn_perm_init d seed))
      {x. low_bits (2 * p_half (qn_perm_init d seed)) x} {x. x < d}"
    by metis
next
  case False
  then have d: "d < 2" by simp
  then have "{x. x < d} \<subseteq> {0}"
    using False by (auto simp: word_nat unat_eq_iff)
  then show "cycle_walk (perm_step (qn_perm_init d seed))
      {x. low_bits (2 * p_half (qn_perm_init d seed)) x} {x. x < d}"
    using d by unfold_locales (auto simp: qn_perm_init_def low_bits_def perm_step_def Let_def
        split: prod.split)
qed

lemma p_domain_init [simp]: "p_domain (qn_perm_init d seed) = d"
  by (simp add: qn_perm_init_def Let_def)

lemma perm_apply_first_return:
  assumes "x < d" and fr: "pw.first_return d seed x n"
  shows "qn_perm_apply (qn_perm_init d seed) x = Some ((perm_step (qn_perm_init d seed) ^^ n) x)"
proof (cases "d < 2")
  case True
  have "(perm_step (qn_perm_init d seed) ^^ n) x < d"
    using fr by (simp add: pw.first_return_def)
  then show ?thesis
    using True by (simp add: qn_perm_apply_def word_nat unat_eq_iff)
next
  case False
  obtain m where n: "n = Suc m"
    using fr by (cases n) (auto simp: pw.first_return_def)
  have "perm_walk (qn_perm_init d seed) x = Some ((perm_step (qn_perm_init d seed) ^^ Suc m) x)"
    by (rule perm_walk_iterate) (use fr n in \<open>auto simp: pw.first_return_def\<close>)
  with False assms n show ?thesis by (auto simp: qn_perm_apply_def not_le)
qed

lemma perm_apply_in_domain:
  assumes "x < d"
  shows "\<exists>y. qn_perm_apply (qn_perm_init d seed) x = Some y \<and> y < d"
proof -
  obtain n where n: "pw.first_return d seed x n"
    using pw.first_return_ex [of x d seed] assms by auto
  with perm_apply_first_return [OF assms n] show ?thesis
    by (auto simp: pw.first_return_def)
qed

lemma perm_apply_reduce:
  "2 \<le> d \<Longrightarrow> qn_perm_apply (qn_perm_init d seed) i = qn_perm_apply (qn_perm_init d seed) (i mod d)"
proof -
  assume "2 \<le> d"
  then have "i mod d < d" by (auto simp: word_nat)
  moreover have "i mod d = i" if "i < d" using that by (simp add: unat_eq_iff word_nat)
  ultimately show ?thesis by (auto simp: qn_perm_apply_def not_le)
qed

lemma perm_bij:
  "bij_betw (\<lambda>i. the (qn_perm_apply (qn_perm_init d seed) i)) {i. i < d} {i. i < d}"
proof (rule pw.walk_bij)
  fix x n
  assume "x \<in> {x. x < d}" and "pw.first_return d seed x n"
  then show "the (qn_perm_apply (qn_perm_init d seed) x) = (perm_step (qn_perm_init d seed) ^^ n) x"
    using perm_apply_first_return by simp
qed

text \<open>The same permutation on naturals, for clients that count.\<close>

definition perm_nat :: "qn_perm \<Rightarrow> nat \<Rightarrow> nat" where
  "perm_nat p i = unat (the (qn_perm_apply p (word_of_nat i)))"

lemma perm_nat_bij: "bij_betw (perm_nat (qn_perm_init d seed)) {..<unat d} {..<unat d}"
proof -
  have k: "unat (word_of_nat n :: u64) = n" if "n < unat d" for n
    using order_less_trans [OF that unat_lt_size(4)] by (intro unat_word_of_nat) simp
  have a: "bij_betw (word_of_nat :: nat \<Rightarrow> u64) {..<unat d} {i. i < d}"
    by (rule bij_betw_byWitness [where f' = unat]) (auto simp: word_less_nat_alt k)
  have b: "bij_betw unat {i. i < d} {..<unat d}"
    by (rule bij_betw_byWitness [where f' = word_of_nat]) (auto simp: word_less_nat_alt k)
  have "perm_nat (qn_perm_init d seed) =
      unat \<circ> (\<lambda>i. the (qn_perm_apply (qn_perm_init d seed) i)) \<circ> word_of_nat"
    by (auto simp: perm_nat_def)
  then show ?thesis using bij_betw_trans [OF a bij_betw_trans [OF perm_bij b]] by (simp add: comp_assoc)
qed

section \<open>Theorems\<close>

text \<open>
  Property C17.  The keyed permutation of \<^verbatim>\<open>qn_perm_init\<close> and \<^verbatim>\<open>qn_perm_apply\<close> is a bijection of the
  indices below the domain, for every domain and every seed: a sweep ordered by it visits
  every index exactly once.
\<close>

theorem perm_apply_bij:
  "bij_betw (\<lambda>i. the (qn_perm_apply (qn_perm_init d seed) i)) {i. i < d} {i. i < d}"
  by (rule perm_bij)

text \<open>
  The cycle walk of \<^verbatim>\<open>qn_perm_apply\<close>, an unbounded C loop, returns for every
  index, in range or not, and what it returns is inside a non-empty domain.
\<close>

lemma perm_apply_returns:
  "\<exists>y. qn_perm_apply (qn_perm_init d seed) i = Some y \<and> (y < d \<or> d = 0)"
proof (cases "2 \<le> d")
  case True
  then have "i mod d < d" by (auto simp: word_nat)
  with perm_apply_in_domain [of "i mod d" d seed] perm_apply_reduce [OF True, of seed i]
  show ?thesis by auto
next
  case False
  then have "d < 2" and "0 < d \<or> d = 0" by (auto simp: word_neq_0_conv)
  then show ?thesis by (auto simp: qn_perm_apply_def)
qed

text \<open>
  However a generator was seeded and however often it was drawn from, its
  state is never the all-zero state, from which it would only produce zeros.
\<close>

lemma rng_never_absorbed: "rng_live (((\<lambda>r. snd (qn_rng_next r)) ^^ n) (qn_rng_seed seed))"
  by (induction n) (simp_all add: rng_seed_live rng_next_live)

lemma rng_bytes_length: "length (fst (qn_rng_bytes r n)) = n"
proof (induction r n rule: qn_rng_bytes.induct)
  case (1 r n)
  have le: "length (le_bytes v) = 8" for v by (simp add: le_bytes_def)
  show ?case
    using 1 by (subst qn_rng_bytes.simps)
      (auto simp: le Let_def split: prod.splits dest: sym)
qed

lemma rng_entropy_nonzero: "qn_rng_entropy os now pid \<noteq> 0"
  by (auto simp: qn_rng_entropy_def Let_def split: option.splits)

section \<open>Lemire's draw is unbiased\<close>

lemma card_multiples_window:
  assumes b: "0 < b"
  shows "card {x. A \<le> x * b \<and> x * b < A + b * q} = (q::nat)"
proof -
  define c where "c = (A + (b - 1)) div b"
  have lo: "A \<le> x * b \<longleftrightarrow> c \<le> x" for x
  proof -
    have "c \<le> x \<longleftrightarrow> (A + (b - 1)) div b < Suc x" by (simp add: c_def less_Suc_eq_le)
    also have "\<dots> \<longleftrightarrow> A + (b - 1) < Suc x * b" using b by (simp add: div_less_iff_less_mult)
    also have "\<dots> \<longleftrightarrow> A \<le> x * b" using b by auto
    finally show ?thesis by blast
  qed
  have hi: "x * b < A + b * q \<longleftrightarrow> x < c + q" for x
  proof (cases "q \<le> x")
    case True
    then obtain k where "x = k + q" by (metis add.commute le_Suc_ex)
    then show ?thesis using lo [of k] by (auto simp: algebra_simps not_le [symmetric])
  next
    case False
    then have "x * b < b * q" using b by (simp add: mult.commute)
    then have "x * b < A + b * q" by (rule trans_less_add2)
    with False show ?thesis by simp
  qed
  have "{x. A \<le> x * b \<and> x * b < A + b * q} = {c..<c + q}" using lo hi by auto
  then show ?thesis by simp
qed

lemma div_mod_window:
  assumes "0 < (N::nat)"
  shows "t \<le> m mod N \<and> m div N = k \<longleftrightarrow> k * N + t \<le> m \<and> m < (k + 1) * N"
proof
  assume "t \<le> m mod N \<and> m div N = k"
  then show "k * N + t \<le> m \<and> m < (k + 1) * N"
    using div_mult_mod_eq [of m N] mod_less_divisor [OF assms, of m] by auto
next
  assume *: "k * N + t \<le> m \<and> m < (k + 1) * N"
  then have "m div N = k" by (intro div_nat_eqI) (auto simp: algebra_simps)
  with * show "t \<le> m mod N \<and> m div N = k"
    using div_mult_mod_eq [of m N] by auto
qed

lemma lemire_value_unat:
  "unat (ucast (drop_bit 32 (lemire_product v b)) :: u32) = (unat v * unat b) div 2 ^ 32"
  "unat (ucast (lemire_product v b) :: u32) = (unat v * unat b) mod 2 ^ 32" for v b :: u32
proof -
  have "unat v < 2 ^ 32" "unat b < 2 ^ 32" by simp_all
  then have "unat v \<le> 2 ^ 32 - 1" "unat b \<le> 2 ^ 32 - 1" by linarith+
  then have "unat v * unat b \<le> (2 ^ 32 - 1) * (2 ^ 32 - 1)"
    by (rule mult_le_mono)
  then have m: "unat (lemire_product v b) = unat v * unat b"
    unfolding lemire_product_def by (subst unat_mult_u64) simp_all
  have "unat v * unat b div 2 ^ 32 < 2 ^ 32"
    using \<open>unat v * unat b \<le> _\<close> by (simp add: div_less_iff_less_mult)
  then show "unat (ucast (drop_bit 32 (lemire_product v b)) :: u32) = (unat v * unat b) div 2 ^ 32"
    by (simp add: unat_ucast_down drop_bit_eq_div unat_div m)
  show "unat (ucast (lemire_product v b) :: u32) = (unat v * unat b) mod 2 ^ 32"
    by (simp add: unat_ucast_down m)
qed

lemma lemire_threshold_unat: "0 < b \<Longrightarrow> unat (lemire_threshold b) = 2 ^ 32 mod unat b" for b :: u32
proof -
  assume b: "0 < b"
  then have ub: "0 < unat b" by (simp add: word_nat)
  have "unat (0 - b) = 2 ^ 32 - unat b"
    using ub by (simp only: unat_sub_if' unat_0) auto
  then have "unat ((0 - b) mod b) = (2 ^ 32 - unat b) mod unat b" by (simp only: unat_mod)
  then have "unat (lemire_threshold b) = (2 ^ 32 - unat b) mod unat b"
    by (simp only: lemire_threshold_def)
  also have "\<dots> = 2 ^ 32 mod unat b"
    using less_imp_le [OF unat_lt_size(3) [of b]] by (simp add: le_mod_geq [of "unat b"])
  finally show ?thesis .
qed

text \<open>
  One draw of \<^verbatim>\<open>qn_rng_below\<close> is unbiased: of the \<open>2\<^sup>3\<^sup>2\<close> values of the low
  word, exactly \<open>2\<^sup>3\<^sup>2 div bound\<close> are accepted and mapped to each result below the bound, the
  same number for every result.
\<close>

lemma lemire_unbiased:
  fixes bound k :: u32
  assumes "k < bound"
  shows "card {v. \<not> (ucast (lemire_product v bound) :: u32) < lemire_threshold bound \<and>
            (ucast (drop_bit 32 (lemire_product v bound)) :: u32) = k}
         = 2 ^ 32 div unat bound" (is "card ?V = _")
proof -
  let ?b = "unat bound" and ?k = "unat k" and ?t = "2 ^ 32 mod unat bound"
  have b: "0 < ?b" and kb: "?k < ?b" using assms by (auto simp: word_nat)
  then have bw: "0 < bound" by (simp add: word_nat)
  let ?X = "{x. ?k * 2 ^ 32 + ?t \<le> x * ?b \<and> x * ?b < (?k * 2 ^ 32 + ?t) + ?b * (2 ^ 32 div ?b)}"
  have win: "(?k * 2 ^ 32 + ?t) + ?b * (2 ^ 32 div ?b) = (?k + 1) * 2 ^ 32"
    using mult_div_mod_eq [of ?b "2 ^ 32"] by (simp add: algebra_simps)
  have iff: "v \<in> ?V \<longleftrightarrow> unat v \<in> ?X" for v
  proof -
    have "v \<in> ?V \<longleftrightarrow> ?t \<le> (unat v * ?b) mod 2 ^ 32 \<and> (unat v * ?b) div 2 ^ 32 = ?k"
      by (auto simp: word_less_nat_alt not_less lemire_threshold_unat [OF bw] unat_eq_iff
          lemire_value_unat)
    also have "\<dots> \<longleftrightarrow> unat v \<in> ?X"
      unfolding win mem_Collect_eq by (rule div_mod_window) simp
    finally show ?thesis .
  qed
  have "?X \<subseteq> unat ` ?V"
  proof
    fix x assume x: "x \<in> ?X"
    then have "x * ?b < (?k + 1) * 2 ^ 32" unfolding win by simp
    also have "\<dots> \<le> ?b * 2 ^ 32" using kb by (intro mult_right_mono) auto
    finally have "x < 2 ^ 32" using b by (simp add: mult.commute [of ?b])
    then have "unat (of_nat x :: u32) = x" by (simp add: unat_of_nat)
    with x iff [of "of_nat x"] show "x \<in> unat ` ?V" by (metis (no_types, lifting) image_eqI)
  qed
  moreover have "unat ` ?V \<subseteq> ?X" using iff by blast
  ultimately have "unat ` ?V = ?X" by (rule subset_antisym [rotated])
  have "card ?V = card (unat ` ?V)"
    by (rule card_image [symmetric]) (simp add: inj_on_def unat_eq_iff)
  also have "\<dots> = card ?X" by (simp only: \<open>unat ` ?V = ?X\<close>)
  also have "\<dots> = 2 ^ 32 div ?b" by (rule card_multiples_window [OF b])
  finally show ?thesis .
qed

end
