(* ===== verification/Bandit_Math.thy ===== *)
theory Bandit_Math
  imports Perm
begin

text \<open>
  The arithmetic of \<^verbatim>\<open>src/core/bandit.c\<close>, without its state: the coprime affine map that permutes
  a block (\<open>block_perm\<close>), the integer square root and the fixed-point Thompson score, and the
  128-bit-free \<open>mul_div_floor\<close>.  \<open>mix64\<close> is the function of \<open>Perm\<close>; the file has its own copy.
  Counts are naturals bounded by the guards; the guards of \<open>mul_div_floor\<close> against 64-bit
  overflow are kept and shown never to fire.
\<close>

fun gcd32 :: "nat \<Rightarrow> nat \<Rightarrow> nat" where
  "gcd32 a b = (if b = 0 then a else gcd32 b (a mod b))"

declare gcd32.simps [simp del]

text \<open>The search for a multiplier; the caller starts it below \<open>span\<close> and it stays there.\<close>

function coprime_from :: "nat \<Rightarrow> nat \<Rightarrow> nat" where
  "coprime_from span a =
     (if gcd32 a span = 1 \<or> span \<le> a then a
      else coprime_from span (if a + 1 = span then 1 else a + 1))"
  by pat_completeness auto

lemma gcd32_eq: "gcd32 a b = gcd a b"
  by (induction a b rule: gcd32.induct) (subst gcd32.simps, simp add: gcd_non_0_nat)

termination coprime_from
proof (relation "measure (\<lambda>(span, a). if a = 1 then 0 else span - a + 1)", goal_cases)
  case (2 span a)
  then have "gcd a span \<noteq> 1" "a < span" by (simp_all add: gcd32_eq)
  then have "a \<noteq> 1" by auto
  then show ?case using \<open>a < span\<close> by auto
qed simp

declare coprime_from.simps [simp del]

definition block_perm :: "nat \<Rightarrow> nat \<Rightarrow> u64 \<Rightarrow> nat" where
  "block_perm c span key =
     (if span < 2 then 0
      else (let a = unat (mix64 (key XOR 0xA24BAED4963EE407)) mod span;
                a = (if a = 0 then 1 else a);
                a = coprime_from span a;
                b = unat (mix64 (key XOR 0x9FB21C651E98DF25)) mod span
            in (a * c + b) mod span))"

text \<open>\<open>bit\<close> is \<open>4 ^ k\<close>; the first loop finds the largest one not above \<open>v\<close>.\<close>

fun isqrt_bit :: "nat \<Rightarrow> nat \<Rightarrow> nat" where
  "isqrt_bit v b = (if b > v then isqrt_bit v (b div 4) else b)"

fun isqrt_loop :: "nat \<Rightarrow> nat \<Rightarrow> nat \<Rightarrow> nat" where
  "isqrt_loop v r b =
     (if b = 0 then r
      else if v \<ge> r + b then isqrt_loop (v - (r + b)) (r div 2 + b) (b div 4)
      else isqrt_loop v (r div 2) (b div 4))"

declare isqrt_bit.simps [simp del] isqrt_loop.simps [simp del]

definition isqrt32 :: "nat \<Rightarrow> nat" where
  "isqrt32 v = isqrt_loop v 0 (isqrt_bit v (2 ^ 30))"

text \<open>The twelve uniform draws whose sum stands for a normal variate.\<close>

fun irwin_hall :: "nat \<Rightarrow> u64 \<Rightarrow> int \<Rightarrow> int \<times> u64" where
  "irwin_hall 0 rng z = (z, rng)"
| "irwin_hall (Suc k) rng z = (let rng' = mix64 rng in irwin_hall k rng' (z + uint (rng' AND 0xFFFF)))"

definition thompson_score :: "nat \<Rightarrow> nat \<Rightarrow> u64 \<Rightarrow> int \<times> u64" where
  "thompson_score a b rng =
     (let n = a + b;
          mu = a * 65536 div n;
          var = mu * (65536 - mu) div 65536;
          var = var div (n + 1);
          sigma = isqrt32 (var * 65536);
          (z, rng') = irwin_hall 12 rng 0;
          z = z - 12 * 32768
      in (int mu + (int sigma * z) div 65536, rng'))"

definition md_double :: "nat \<Rightarrow> nat \<times> nat \<Rightarrow> (nat \<times> nat) option" where
  "md_double d qr = (case qr of (q, r) \<Rightarrow>
     if q > UINT64_MAX div 2 then None
     else Some (if r \<ge> d - r then (q * 2 + 1, r - (d - r)) else (q * 2, r * 2)))"

definition md_add :: "nat \<Rightarrow> nat \<Rightarrow> nat \<times> nat \<Rightarrow> (nat \<times> nat) option" where
  "md_add a d qr = (case qr of (q, r) \<Rightarrow>
     if r \<ge> d - a then (if q = UINT64_MAX then None else Some (q + 1, r - (d - a)))
     else Some (q, r + a))"

fun md_loop :: "nat \<Rightarrow> nat \<Rightarrow> nat \<Rightarrow> nat \<Rightarrow> nat \<times> nat \<Rightarrow> (nat \<times> nat) option" where
  "md_loop a b d 0 qr = Some qr"
| "md_loop a b d (Suc k) qr =
     Option.bind (md_double d qr)
       (\<lambda>qr. Option.bind (if odd (b div 2 ^ k) then md_add a d qr else Some qr) (md_loop a b d k))"

definition mul_div_floor :: "nat \<Rightarrow> nat \<Rightarrow> nat \<Rightarrow> nat option" where
  "mul_div_floor a b d =
     (if d = 0 \<or> a > d \<or> b > d then None else map_option fst (md_loop a b d 64 (0, 0)))"

section \<open>Blocks are permuted\<close>

lemma coprime_from_spec:
  "0 < a \<Longrightarrow> a < span \<Longrightarrow> coprime (coprime_from span a) span \<and> 0 < coprime_from span a \<and> coprime_from span a < span"
proof (induction span a rule: coprime_from.induct)
  case (1 span a)
  show ?case
  proof (cases "gcd a span = 1")
    case True
    then show ?thesis using 1 by (subst (1 2 3) coprime_from.simps) (simp add: gcd32_eq coprime_iff_gcd_eq_1)
  next
    case False
    then have "a \<noteq> 1" by auto
    have n: "\<not> (gcd32 a span = 1 \<or> span \<le> a)" using False "1.prems" by (simp add: gcd32_eq)
    have eq: "coprime_from span a = coprime_from span (if a + 1 = span then 1 else a + 1)"
      using n by (subst coprime_from.simps) simp
    show ?thesis unfolding eq using "1.IH" [OF n] "1.prems" \<open>a \<noteq> 1\<close> by auto
  qed
qed

lemma affine_inj_le:
  assumes "coprime a span" "c \<le> c'" "c' < span" "(a * c + b) mod span = (a * c' + b) mod (span::nat)"
  shows "c = c'"
proof -
  have "span dvd (a * c' + b) - (a * c + b)"
    using assms mod_eq_dvd_iff_nat [of "a * c + b" "a * c' + b" span] by simp
  then have "span dvd a * (c' - c)" by (simp add: diff_mult_distrib2)
  then have "span dvd c' - c" using assms(1) by (simp add: coprime_commute coprime_dvd_mult_right_iff)
  then show ?thesis using assms(2,3) by (auto dest: dvd_imp_le)
qed

lemma affine_inj:
  assumes "coprime a span" "c < span" "c' < span" "(a * c + b) mod span = (a * c' + b) mod (span::nat)"
  shows "c = c'"
  using affine_inj_le [of a span c c' b] affine_inj_le [of a span c' c b] assms by (cases "c \<le> c'") auto

lemma block_perm_bij: "bij_betw (\<lambda>c. block_perm c span key) {..<span} {..<span}"
proof (cases "span < 2")
  case True
  then show ?thesis by (cases "span = 0") (auto simp: block_perm_def bij_betw_def inj_on_def)
next
  case False
  define a where "a = coprime_from span (if unat (mix64 (key XOR 0xA24BAED4963EE407)) mod span = 0 then 1
    else unat (mix64 (key XOR 0xA24BAED4963EE407)) mod span)"
  define b where "b = unat (mix64 (key XOR 0x9FB21C651E98DF25)) mod span"
  have eq: "block_perm c span key = (a * c + b) mod span" for c
    using False by (simp add: block_perm_def a_def b_def Let_def)
  have "coprime a span"
    unfolding a_def by (intro coprime_from_spec [THEN conjunct1]) (use False in auto)
  then have "inj_on (\<lambda>c. block_perm c span key) {..<span}"
    by (auto simp: inj_on_def eq intro: affine_inj)
  moreover have "(\<lambda>c. block_perm c span key) ` {..<span} \<subseteq> {..<span}" using False by (auto simp: eq)
  ultimately show ?thesis by (intro inj_on_into_finite_bij) auto
qed

section \<open>The integer square root\<close>

lemma isqrt_bit_pow:
  "v < 4 ^ Suc k \<Longrightarrow> (\<exists>j. isqrt_bit v (4 ^ k) = 4 ^ j \<and> v < 4 ^ Suc j) \<or> isqrt_bit v (4 ^ k) = 0 \<and> v = 0"
proof (induction k)
  case 0
  show ?case
  proof (cases "v = 0")
    case True
    have "isqrt_bit 0 0 = 0" by (subst isqrt_bit.simps) simp
    then have "isqrt_bit 0 1 = 0" by (subst isqrt_bit.simps) simp
    then show ?thesis using True by simp
  next
    case False
    then have "isqrt_bit v (4 ^ 0) = 4 ^ 0" by (subst isqrt_bit.simps) simp
    then show ?thesis using 0 by blast
  qed
next
  case (Suc k)
  show ?case
  proof (cases "4 ^ Suc k > v")
    case True
    then have "isqrt_bit v (4 ^ Suc k) = isqrt_bit v (4 ^ k)" by (subst isqrt_bit.simps) simp
    then show ?thesis using Suc.IH True by simp
  next
    case False
    then have "isqrt_bit v (4 ^ Suc k) = 4 ^ Suc k" by (subst isqrt_bit.simps) simp
    then show ?thesis using Suc.prems by blast
  qed
qed

text \<open>Invariant: \<open>r = S * 4 ^ (k+1)\<close> and \<open>v = N - S\<^sup>2 * 4 ^ (k+1)\<close> for the root \<open>S\<close> found so far.\<close>

lemma isqrt_loop_root:
  assumes "v + S ^ 2 * 4 ^ k = N" "N < (S + 1) ^ 2 * 4 ^ k"
  shows "(isqrt_loop v (S * 4 ^ k) (4 ^ k div 4)) ^ 2 \<le> N \<and> N < (isqrt_loop v (S * 4 ^ k) (4 ^ k div 4) + 1) ^ 2"
  using assms
proof (induction k arbitrary: v S)
  case 0
  then show ?case by (subst (1 2) isqrt_loop.simps) auto
next
  case (Suc k)
  have b: "(4::nat) ^ Suc k div 4 = 4 ^ k" by simp
  have h: "S * 4 ^ Suc k div 2 = 2 * S * 4 ^ k" by simp
  show ?case
  proof (cases "v \<ge> S * 4 ^ Suc k + 4 ^ k")
    case True
    let ?v = "v - (S * 4 ^ Suc k + 4 ^ k)"
    have eq: "isqrt_loop v (S * 4 ^ Suc k) (4 ^ Suc k div 4) = isqrt_loop ?v ((2 * S + 1) * 4 ^ k) (4 ^ k div 4)"
      unfolding b using True h by (subst isqrt_loop.simps) (simp add: algebra_simps)
    have "?v + (2 * S + 1) ^ 2 * 4 ^ k = N"
      using Suc.prems(1) True by (simp add: power2_eq_square algebra_simps)
    moreover have "N < (2 * S + 1 + 1) ^ 2 * 4 ^ k"
      using Suc.prems(2) by (simp add: power2_eq_square algebra_simps)
    ultimately show ?thesis unfolding eq by (rule Suc.IH)
  next
    case False
    have eq: "isqrt_loop v (S * 4 ^ Suc k) (4 ^ Suc k div 4) = isqrt_loop v ((2 * S) * 4 ^ k) (4 ^ k div 4)"
      unfolding b using False h by (subst isqrt_loop.simps) (simp add: mult.assoc)
    have "v + (2 * S) ^ 2 * 4 ^ k = N" using Suc.prems(1) by (simp add: power2_eq_square algebra_simps)
    moreover have "N < (2 * S + 1) ^ 2 * 4 ^ k"
      using Suc.prems(1) False by (simp add: power2_eq_square algebra_simps)
    ultimately show ?thesis unfolding eq by (rule Suc.IH)
  qed
qed

lemma isqrt32_correct:
  assumes "v < 2 ^ 32"
  shows "(isqrt32 v) ^ 2 \<le> v \<and> v < (isqrt32 v + 1) ^ 2"
proof -
  have p: "(2::nat) ^ 30 = 4 ^ 15" by simp
  have "v < 4 ^ Suc 15" using assms by simp
  from isqrt_bit_pow [OF this] consider j where "isqrt_bit v (4 ^ 15) = 4 ^ j" "v < 4 ^ Suc j"
    | "isqrt_bit v (4 ^ 15) = 0" "v = 0" by (elim disjE exE conjE)
  then show ?thesis
  proof cases
    case 1
    then show ?thesis using isqrt_loop_root [of v 0 "Suc j" v] by (simp add: isqrt32_def p)
  next
    case 2
    have "isqrt_loop 0 0 0 = 0" by (subst isqrt_loop.simps) simp
    then show ?thesis using 2 by (simp add: isqrt32_def p)
  qed
qed

section \<open>Multiply, then divide\<close>

lemma md_double_ok:
  assumes "r < d" "2 * (q * d + r) div d \<le> UINT64_MAX"
  shows "md_double d (q, r) = Some (2 * (q * d + r) div d, 2 * (q * d + r) mod d)"
proof -
  have e: "2 * (q * d + r) = (2 * q) * d + 2 * r" by (simp add: algebra_simps)
  have dm: "2 * (q * d + r) div d = 2 * q + 2 * r div d" "2 * (q * d + r) mod d = 2 * r mod d"
    unfolding e using assms(1) by (simp_all add: add.commute [of "2 * q * d"])
  then have q: "\<not> q > UINT64_MAX div 2" using assms(2) by linarith
  show ?thesis
  proof (cases "r \<ge> d - r")
    case True
    have "2 * r = 1 * d + (r - (d - r))" using True assms(1) by simp
    moreover have "r - (d - r) < d" using assms(1) by simp
    ultimately have "2 * r div d = 1" "2 * r mod d = r - (d - r)"
      by (metis div_mult_self3 add.commute div_less less_nat_zero_code mult_1 plus_nat.add_0 div_mult_self1_is_m,
          metis mod_mult_self3 mod_less)
    then show ?thesis using True q dm by (simp add: md_double_def)
  next
    case False
    then have "2 * r < d" by simp
    then show ?thesis using False q dm by (simp add: md_double_def)
  qed
qed

lemma md_add_ok:
  assumes "r < d" "a \<le> d" "(q * d + r + a) div d \<le> UINT64_MAX"
  shows "md_add a d (q, r) = Some ((q * d + r + a) div d, (q * d + r + a) mod d)"
proof -
  have e: "q * d + r + a = (r + a) + q * d" by simp
  have dm: "(q * d + r + a) div d = q + (r + a) div d" "(q * d + r + a) mod d = (r + a) mod d"
    unfolding e using assms(1) by simp_all
  show ?thesis
  proof (cases "r \<ge> d - a")
    case True
    have "r + a = (r - (d - a)) + 1 * d" using True assms(2) by simp
    moreover have "r - (d - a) < d" using assms(1) by simp
    ultimately have "(r + a) div d = 1" "(r + a) mod d = r - (d - a)"
      by (metis div_mult_self1 div_less add.right_neutral add.commute less_nat_zero_code plus_nat.add_0,
          metis mod_mult_self1 mod_less)
    then show ?thesis using True dm assms(3) by (simp add: md_add_def)
  next
    case False
    then have "r + a < d" by simp
    then show ?thesis using False dm by (simp add: md_add_def)
  qed
qed

lemma md_loop_ok:
  assumes "0 < d" "a \<le> d" "a * b div d \<le> UINT64_MAX"
  shows "md_loop a b d k (a * (b div 2 ^ k) div d, a * (b div 2 ^ k) mod d) = Some (a * b div d, a * b mod d)"
proof (induction k)
  case (Suc k)
  let ?P = "a * (b div 2 ^ Suc k)" let ?c = "b div 2 ^ k"
  have h: "b div 2 ^ Suc k = ?c div 2" by (simp only: power_Suc2 div_mult2_eq)
  have c: "?c = 2 * (b div 2 ^ Suc k) + (if odd ?c then 1 else 0)"
    unfolding h by (cases "odd ?c") simp_all
  have le: "x div d \<le> UINT64_MAX" if "x \<le> a * b" for x using that assms(3) by (meson div_le_mono le_trans)
  have c_le: "a * ?c \<le> a * b" by (simp add: mult_le_mono2)
  have P2: "2 * ?P \<le> a * b"
  proof -
    have "2 * (b div 2 ^ Suc k) \<le> ?c" using c by linarith
    then have "a * (2 * (b div 2 ^ Suc k)) \<le> a * ?c" by (rule mult_le_mono2)
    then have "a * (2 * (b div 2 ^ Suc k)) \<le> a * b" using c_le by (rule le_trans)
    then show ?thesis by (simp only: mult.left_commute)
  qed
  have qr: "?P div d * d + ?P mod d = ?P" by simp
  have dbl: "md_double d (?P div d, ?P mod d) = Some (2 * ?P div d, 2 * ?P mod d)"
    using md_double_ok [of "?P mod d" d "?P div d"] assms(1) le [OF P2] by (simp add: qr)
  show ?case
  proof (cases "odd ?c")
    case True
    have "2 * ?P + a = a * ?c" using c True by (simp add: algebra_simps)
    then have "md_add a d (2 * ?P div d, 2 * ?P mod d) = Some (a * ?c div d, a * ?c mod d)"
      using md_add_ok [of "2 * ?P mod d" d a "2 * ?P div d"] assms(1,2) le [OF c_le] by simp
    then show ?thesis using dbl True Suc by simp
  next
    case False
    have P: "2 * ?P = a * ?c" using c False by (simp add: algebra_simps)
    show ?thesis using dbl [unfolded P] False Suc by (simp del: power_Suc)
  qed
qed simp

lemma mul_div_floor_eq:
  assumes "0 < d" "a \<le> d" "b \<le> d" "d < 2 ^ 64"
  shows "mul_div_floor a b d = Some (a * b div d)"
proof -
  have "a * b div d \<le> a * d div d" using assms(3) by (intro div_le_mono mult_le_mono2)
  then have m: "a * b div d \<le> UINT64_MAX" using assms(1,2,4) by simp
  have "b div 2 ^ 64 = 0" using assms(3,4) by simp
  then show ?thesis using md_loop_ok [OF assms(1,2) m, of 64] assms by (simp add: mul_div_floor_def)
qed

end
