(* ===== verification/Bandit.thy ===== *)
theory Bandit
  imports Bandit_Math
begin

text \<open>
  \<^verbatim>\<open>src/core/bandit.c\<close>: the address scheduler.  The index space is cut into blocks; a block has
  success and failure counters and the number of offsets drawn from it.  \<open>qn_bandit_next\<close> turns
  a step number into an index: by the exact exploration quotas if they were set, else by a
  first round over all blocks, else by Thompson sampling, else by a linear search.  Each call
  is one atomic step here; the counters the code updates concurrently are only ever changed
  by one fetch-and-add per call and block.
\<close>

abbreviation QN_BANDIT_MAX_BLOCKS :: nat where "QN_BANDIT_MAX_BLOCKS \<equiv> 65536"

record qn_bandit =
  b_alpha :: "nat list"
  b_beta :: "nat list"
  b_drawn :: "nat list"
  b_n :: nat
  b_span :: nat
  b_total :: nat
  b_seed :: u64
  b_block_order :: qn_perm
  b_explore_order :: qn_perm
  b_explore :: nat
  b_probe :: nat
  b_explore_total :: nat
  b_exact :: bool
  b_issued :: nat

definition bandit_shape :: "nat \<Rightarrow> nat \<Rightarrow> (nat \<times> nat) option" where
  "bandit_shape total0 requested_span =
     (if total0 = 0 \<or> requested_span = 0 then None
      else (let need_span = total0 div QN_BANDIT_MAX_BLOCKS + (if total0 mod QN_BANDIT_MAX_BLOCKS \<noteq> 0 then 1 else 0)
            in if need_span > UINT32_MAX then None
               else (let span = (if requested_span > need_span then requested_span else need_span);
                         count = total0 div span + (if total0 mod span \<noteq> 0 then 1 else 0)
                     in if count = 0 \<or> count > QN_BANDIT_MAX_BLOCKS then None else Some (span, count))))"

definition qn_bandit_block_count :: "nat \<Rightarrow> nat \<Rightarrow> nat" where
  "qn_bandit_block_count total0 span = (case bandit_shape total0 span of Some (_, blocks) \<Rightarrow> blocks | None \<Rightarrow> 0)"

text \<open>\<open>alloc\<close> says whether the arena has room for that many blocks.\<close>

definition qn_bandit_init :: "(nat \<Rightarrow> bool) \<Rightarrow> nat \<Rightarrow> nat \<Rightarrow> nat \<Rightarrow> u64 \<Rightarrow> qn_bandit option" where
  "qn_bandit_init alloc total0 span explore seed =
     (case bandit_shape total0 span of
        None \<Rightarrow> None
      | Some (actual_span, blocks) \<Rightarrow>
          if \<not> alloc blocks then None
          else Some \<lparr>b_alpha = replicate blocks 1, b_beta = replicate blocks 1, b_drawn = replicate blocks 0,
                 b_n = blocks, b_span = actual_span, b_total = total0, b_seed = seed,
                 b_block_order = qn_perm_init (word_of_nat blocks) (mix64 (seed XOR 0xA5A5)),
                 b_explore_order = \<lparr>p_domain = 0, p_mask = 0, p_half = 0, p_hmask = 0, p_key = replicate 4 0\<rparr>,
                 b_explore = (if explore \<noteq> 0 then explore else 2), b_probe = 48,
                 b_explore_total = 0, b_exact = False, b_issued = 0\<rparr>)"

definition block_span :: "qn_bandit \<Rightarrow> nat \<Rightarrow> nat" where
  "block_span t blk =
     (let left = b_total t - blk * b_span t in if left < b_span t then left else b_span t)"

definition block_capacity_prefix :: "qn_bandit \<Rightarrow> nat \<Rightarrow> nat" where
  "block_capacity_prefix t blocks =
     (if blocks = 0 then 0
      else (let capacity = blocks * b_span t in if capacity < b_total t then capacity else b_total t))"

definition explore_quota_prefix :: "qn_bandit \<Rightarrow> nat \<Rightarrow> nat option" where
  "explore_quota_prefix t blocks =
     (let capacity = block_capacity_prefix t blocks in
      if blocks = 0 then Some 0
      else if blocks \<ge> b_n t then Some (b_explore_total t)
      else if b_explore_total t \<ge> b_n t
      then (let remainder_budget = b_explore_total t - b_n t;
                remainder_total = b_total t - b_n t;
                remainder_capacity = capacity - blocks
            in if remainder_total = 0 then Some blocks
               else map_option (\<lambda>q. blocks + q) (mul_div_floor remainder_budget remainder_capacity remainder_total))
      else mul_div_floor (b_explore_total t) capacity (b_total t))"

text \<open>The loop of \<open>qn_bandit_set_explore_total\<close> over the blocks still to do.\<close>

fun set_quotas :: "qn_bandit \<Rightarrow> nat list \<Rightarrow> nat \<Rightarrow> (nat \<times> qn_bandit) option" where
  "set_quotas t [] previous = Some (previous, t)"
| "set_quotas t (block # blocks) previous =
     (case explore_quota_prefix t (block + 1) of
        None \<Rightarrow> None
      | Some cumulative \<Rightarrow>
          if cumulative < previous \<or> cumulative - previous > block_span t block then None
          else set_quotas (t\<lparr>b_drawn := (b_drawn t)[block := cumulative - previous]\<rparr>) blocks cumulative)"

definition qn_bandit_set_explore_total :: "qn_bandit \<Rightarrow> nat \<Rightarrow> qn_bandit option" where
  "qn_bandit_set_explore_total t0 explore_total =
     (if explore_total > b_total t0 \<or> b_issued t0 \<noteq> 0 then None
      else (let t = t0\<lparr>b_explore_total := explore_total, b_exact := True,
                       b_explore_order := qn_perm_init (word_of_nat explore_total)
                         (mix64 (b_seed t0 XOR 0x5354524154494659))\<rparr>
            in case set_quotas t [0..<b_n t] 0 of
                 None \<Rightarrow> None
               | Some (previous, t') \<Rightarrow> if previous = explore_total then Some t' else None))"

definition block_key :: "qn_bandit \<Rightarrow> nat \<Rightarrow> u64" where
  "block_key t blk = mix64 (b_seed t XOR word_of_nat blk)"

function quota_search :: "qn_bandit \<Rightarrow> nat \<Rightarrow> nat \<Rightarrow> nat \<Rightarrow> nat option" where
  "quota_search t mapped lo hi =
     (if lo < hi
      then (let mid = lo + (hi - lo) div 2 in
            case explore_quota_prefix t (mid + 1) of
              None \<Rightarrow> None
            | Some cumulative \<Rightarrow>
                if mapped < cumulative then quota_search t mapped lo mid
                else quota_search t mapped (mid + 1) hi)
      else Some lo)"
  by pat_completeness auto
termination by (relation "measure (\<lambda>(t, m, lo, hi). hi - lo)") auto

declare quota_search.simps [simp del]

definition exact_explore_next :: "qn_bandit \<Rightarrow> nat \<Rightarrow> nat option" where
  "exact_explore_next t step =
     (let mapped = perm_nat (b_explore_order t) step in
      case quota_search t mapped 0 (b_n t) of
        None \<Rightarrow> None
      | Some lo \<Rightarrow>
          if lo \<ge> b_n t then None
          else (case explore_quota_prefix t lo of
                  None \<Rightarrow> None
                | Some previous \<Rightarrow>
                    (let loc = mapped - previous; span = block_span t lo in
                     if loc \<ge> span then None
                     else Some (lo * b_span t + block_perm loc span (block_key t lo)))))"

definition take_offset :: "qn_bandit \<Rightarrow> nat \<Rightarrow> nat option \<times> qn_bandit" where
  "take_offset t blk =
     (let span = block_span t blk;
          c = b_drawn t ! blk;
          t1 = t\<lparr>b_drawn := (b_drawn t)[blk := c + 1]\<rparr>
      in if c \<ge> span then (None, t1\<lparr>b_drawn := (b_drawn t1)[blk := b_drawn t1 ! blk - 1]\<rparr>)
         else (Some (blk * b_span t + block_perm c span (block_key t blk)), t1))"

text \<open>The sampling loop; the score \<open>-0x7FFFFFFF\<close> stands for \<open>no block yet\<close>.\<close>

fun probe_blocks :: "qn_bandit \<Rightarrow> nat \<Rightarrow> u64 \<Rightarrow> nat \<Rightarrow> int \<Rightarrow> nat \<times> int \<times> u64" where
  "probe_blocks t 0 rng best bestv = (best, bestv, rng)"
| "probe_blocks t (Suc k) rng best bestv =
     (let rng = mix64 rng; blk = unat rng mod b_n t in
      if b_drawn t ! blk \<ge> block_span t blk then probe_blocks t k rng best bestv
      else (let (v, rng) = thompson_score (b_alpha t ! blk) (b_beta t ! blk) rng in
            if v > bestv then probe_blocks t k rng blk v else probe_blocks t k rng best bestv))"

definition issue :: "qn_bandit \<Rightarrow> qn_bandit" where
  "issue t = t\<lparr>b_issued := b_issued t + 1\<rparr>"

fun linear_take :: "qn_bandit \<Rightarrow> nat list \<Rightarrow> nat option \<times> qn_bandit" where
  "linear_take t [] = (None, t)"
| "linear_take t (blk # blks) =
     (case take_offset t blk of (Some i, t1) \<Rightarrow> (Some i, issue t1) | (None, t1) \<Rightarrow> linear_take t1 blks)"

fun sample_take :: "qn_bandit \<Rightarrow> nat \<Rightarrow> u64 \<Rightarrow> nat option \<times> qn_bandit" where
  "sample_take t 0 rng = linear_take t [0..<b_n t]"
| "sample_take t (Suc k) rng =
     (let (best, bestv, rng) = probe_blocks t (b_probe t) rng 0 (- 0x7FFFFFFF) in
      if bestv > - 0x7FFFFFFF
      then (case take_offset t best of (Some i, t1) \<Rightarrow> (Some i, issue t1) | (None, t1) \<Rightarrow> sample_take t1 k rng)
      else sample_take t k rng)"

definition qn_bandit_next :: "qn_bandit \<Rightarrow> nat \<Rightarrow> nat option \<times> qn_bandit" where
  "qn_bandit_next t step =
     (let explore_total = b_n t * b_explore t;
          rng = mix64 (b_seed t XOR (word_of_nat step * 0x2545F4914F6CDD1D)) in
      if b_issued t \<ge> b_total t then (None, t)
      else if b_exact t \<and> step < b_explore_total t
      then (case exact_explore_next t step of None \<Rightarrow> (None, t) | Some i \<Rightarrow> (Some i, issue t))
      else if \<not> b_exact t \<and> step < explore_total
      then (case take_offset t (perm_nat (b_block_order t) (step mod b_n t)) of
              (Some i, t1) \<Rightarrow> (Some i, issue t1)
            | (None, t1) \<Rightarrow> sample_take t1 4 rng)
      else sample_take t 4 rng)"

definition qn_bandit_report :: "qn_bandit \<Rightarrow> nat \<Rightarrow> bool \<Rightarrow> qn_bandit" where
  "qn_bandit_report t index good =
     (if index \<ge> b_total t then t
      else (let blk = index div b_span t in
            if blk \<ge> b_n t then t
            else if good then t\<lparr>b_alpha := (b_alpha t)[blk := (b_alpha t ! blk + 1) mod 2 ^ 32]\<rparr>
            else t\<lparr>b_beta := (b_beta t)[blk := (b_beta t ! blk + 1) mod 2 ^ 32]\<rparr>))"

definition qn_bandit_live_blocks :: "qn_bandit \<Rightarrow> nat" where
  "qn_bandit_live_blocks t = length (filter (\<lambda>i. b_alpha t ! i > 1) [0..<b_n t])"

section \<open>Slots\<close>

definition bandit_ok :: "qn_bandit \<Rightarrow> bool" where
  "bandit_ok t \<longleftrightarrow> 0 < b_span t \<and> 0 < b_n t \<and> b_n t \<le> QN_BANDIT_MAX_BLOCKS \<and> b_total t < 2 ^ 64 \<and>
     (b_n t - 1) * b_span t < b_total t \<and> b_total t \<le> b_n t * b_span t \<and>
     (\<exists>s. b_block_order t = qn_perm_init (word_of_nat (b_n t)) s)"

text \<open>A slot is a block and the number of an offset in it.\<close>

definition slots :: "qn_bandit \<Rightarrow> (nat \<times> nat) set" where
  "slots t = (SIGMA b:{..<b_n t}. {..<block_span t b})"

definition slot_index :: "qn_bandit \<Rightarrow> nat \<times> nat \<Rightarrow> nat" where
  "slot_index t s = fst s * b_span t + block_perm (snd s) (block_span t (fst s)) (block_key t (fst s))"

lemma block_span_bounds:
  assumes "bandit_ok t" "b < b_n t"
  shows "0 < block_span t b" "block_span t b \<le> b_span t" "b * b_span t + block_span t b \<le> b_total t"
proof -
  have "b * b_span t \<le> (b_n t - 1) * b_span t" using assms(2) by (intro mult_le_mono1) simp
  also have "(b_n t - 1) * b_span t < b_total t" using assms(1) by (simp add: bandit_ok_def)
  finally have "b * b_span t < b_total t" .
  then show "0 < block_span t b" "block_span t b \<le> b_span t" "b * b_span t + block_span t b \<le> b_total t"
    using assms(1) by (auto simp: block_span_def bandit_ok_def Let_def)
qed

lemma block_span_cover:
  assumes ok: "bandit_ok t" and i: "i < b_total t"
  shows "i div b_span t < b_n t" "i mod b_span t < block_span t (i div b_span t)"
proof -
  have s: "0 < b_span t" using ok by (simp add: bandit_ok_def)
  have "i < b_n t * b_span t" using ok i by (simp add: bandit_ok_def)
  then show "i div b_span t < b_n t" by (simp add: less_mult_imp_div_less)
  have "i div b_span t * b_span t + i mod b_span t = i" by simp
  then have "i mod b_span t < b_total t - i div b_span t * b_span t" using i by linarith
  then show "i mod b_span t < block_span t (i div b_span t)" using s by (simp add: block_span_def Let_def)
qed

lemma block_perm_less: "c < span \<Longrightarrow> block_perm c span key < span"
  using block_perm_bij [of span key] by (auto simp: bij_betw_def)

lemma slot_index_parts:
  assumes "bandit_ok t" "s \<in> slots t"
  shows "slot_index t s div b_span t = fst s"
    "slot_index t s mod b_span t = block_perm (snd s) (block_span t (fst s)) (block_key t (fst s))"
    "slot_index t s < b_total t"
proof -
  obtain b c where s: "s = (b, c)" "b < b_n t" "c < block_span t b" using assms(2) by (auto simp: slots_def)
  note bs = block_span_bounds [OF assms(1) s(2)]
  have p: "block_perm c (block_span t b) (block_key t b) < block_span t b" using s(3) by (rule block_perm_less)
  then show "slot_index t s div b_span t = fst s"
    "slot_index t s mod b_span t = block_perm (snd s) (block_span t (fst s)) (block_key t (fst s))"
    "slot_index t s < b_total t"
    using bs by (simp_all add: slot_index_def s(1))
qed

lemma slot_index_bij:
  assumes ok: "bandit_ok t"
  shows "bij_betw (slot_index t) (slots t) {..<b_total t}"
  unfolding bij_betw_def
proof
  show "inj_on (slot_index t) (slots t)"
  proof (rule inj_onI)
    fix s s'
    assume s: "s \<in> slots t" "s' \<in> slots t" "slot_index t s = slot_index t s'"
    then have f: "fst s = fst s'" using slot_index_parts(1) [OF ok] by metis
    have "block_perm (snd s) (block_span t (fst s)) (block_key t (fst s)) =
        block_perm (snd s') (block_span t (fst s)) (block_key t (fst s))"
      using s f slot_index_parts(2) [OF ok] by metis
    then have "snd s = snd s'"
      using s f block_perm_bij [of "block_span t (fst s)" "block_key t (fst s)"]
      by (auto simp: bij_betw_def inj_on_def slots_def)
    with f show "s = s'" by (simp add: prod_eq_iff)
  qed
  show "slot_index t ` slots t = {..<b_total t}"
  proof (intro equalityI subsetI)
    fix i
    assume "i \<in> {..<b_total t}"
    then have i: "i < b_total t" by simp
    let ?b = "i div b_span t"
    note c = block_span_cover [OF ok i]
    obtain o' where o': "o' < block_span t ?b" "block_perm o' (block_span t ?b) (block_key t ?b) = i mod b_span t"
      using block_perm_bij [of "block_span t ?b" "block_key t ?b"] c(2) by (auto simp: bij_betw_def image_iff dest!: equalityD2)
    then have "i = slot_index t (?b, o')" by (simp add: slot_index_def)
    moreover have "(?b, o') \<in> slots t" using c(1) o' by (simp add: slots_def)
    ultimately show "i \<in> slot_index t ` slots t" by blast
  qed (use slot_index_parts(3) [OF ok] in auto)
qed

lemma finite_slots: "finite (slots t)" by (simp add: slots_def)

lemma sum_block_span: "bandit_ok t \<Longrightarrow> (\<Sum>b<b_n t. block_span t b) = b_total t"
  using bij_betw_same_card [OF slot_index_bij, of t] by (simp add: slots_def)

section \<open>Drawing\<close>

text \<open>\<open>took t r t'\<close>: the call handed out the next offset of some block that had one left.\<close>

definition took :: "qn_bandit \<Rightarrow> nat option \<Rightarrow> qn_bandit \<Rightarrow> bool" where
  "took t r t' \<longleftrightarrow> (\<exists>b<b_n t. b_drawn t ! b < block_span t b \<and> r = Some (slot_index t (b, b_drawn t ! b)) \<and>
     t' = t\<lparr>b_drawn := (b_drawn t)[b := b_drawn t ! b + 1], b_issued := b_issued t + 1\<rparr>)"

lemma take_offset_eq:
  assumes "length (b_drawn t) = b_n t" "b < b_n t"
  shows "take_offset t b = (if b_drawn t ! b < block_span t b
    then (Some (slot_index t (b, b_drawn t ! b)), t\<lparr>b_drawn := (b_drawn t)[b := b_drawn t ! b + 1]\<rparr>) else (None, t))"
  using assms by (auto simp: take_offset_def Let_def slot_index_def)

lemma linear_take_took:
  assumes "length (b_drawn t) = b_n t" "set bs \<subseteq> {..<b_n t}"
  shows "took t (fst (linear_take t bs)) (snd (linear_take t bs)) \<or>
    linear_take t bs = (None, t) \<and> (\<forall>b \<in> set bs. \<not> b_drawn t ! b < block_span t b)"
  using assms(2)
proof (induction bs)
  case (Cons b bs)
  then have b: "b < b_n t" by simp
  show ?case
  proof (cases "b_drawn t ! b < block_span t b")
    case True
    then have "took t (fst (linear_take t (b # bs))) (snd (linear_take t (b # bs)))"
      using b by (auto simp: take_offset_eq [OF assms(1) b] took_def issue_def intro!: exI [of _ b])
    then show ?thesis ..
  next
    case False
    then show ?thesis using Cons by (simp add: take_offset_eq [OF assms(1) b])
  qed
qed simp

lemma probe_blocks_range:
  "0 < b_n t \<Longrightarrow> best < b_n t \<Longrightarrow> fst (probe_blocks t k rng best bestv) < b_n t"
  by (induction k arbitrary: rng best bestv) (auto simp: Let_def split: prod.split)

lemma sample_take_took:
  assumes "length (b_drawn t) = b_n t" "0 < b_n t"
  shows "took t (fst (sample_take t k rng)) (snd (sample_take t k rng)) \<or>
    sample_take t k rng = (None, t) \<and> (\<forall>b<b_n t. \<not> b_drawn t ! b < block_span t b)"
proof (induction k arbitrary: rng)
  case 0
  then show ?case using linear_take_took [OF assms(1), of "[0..<b_n t]"] by (auto simp: atLeast0LessThan)
next
  case (Suc k)
  obtain best bestv rng' where p: "probe_blocks t (b_probe t) rng 0 (- 0x7FFFFFFF) = (best, bestv, rng')"
    by (metis prod_cases3)
  have b: "best < b_n t" using probe_blocks_range [of t 0 "b_probe t" rng "- 0x7FFFFFFF"] assms(2) p by simp
  show ?case
  proof (cases "bestv > - 0x7FFFFFFF \<and> b_drawn t ! best < block_span t best")
    case True
    then have "took t (fst (sample_take t (Suc k) rng)) (snd (sample_take t (Suc k) rng))"
      using b p by (auto simp: take_offset_eq [OF assms(1) b] took_def issue_def intro!: exI [of _ best])
    then show ?thesis ..
  next
    case False
    then have "sample_take t (Suc k) rng = sample_take t k rng'"
      using p by (auto simp: take_offset_eq [OF assms(1) b])
    then show ?thesis using Suc by simp
  qed
qed

section \<open>Exploration quotas\<close>

lemma capacity_prefix_eq: "block_capacity_prefix t k = min (k * b_span t) (b_total t)"
  by (auto simp: block_capacity_prefix_def Let_def)

lemma capacity_prefix:
  assumes ok: "bandit_ok t"
  shows "block_capacity_prefix t (b_n t) = b_total t"
    "b < b_n t \<Longrightarrow> block_capacity_prefix t (Suc b) = block_capacity_prefix t b + block_span t b"
    "k \<le> b_n t \<Longrightarrow> k \<le> block_capacity_prefix t k"
proof -
  show "block_capacity_prefix t (b_n t) = b_total t" using ok by (simp add: capacity_prefix_eq bandit_ok_def)
  have step: "block_capacity_prefix t (Suc b) = block_capacity_prefix t b + block_span t b" if "b < b_n t" for b
  proof -
    have "b * b_span t \<le> b_total t" using block_span_bounds(3) [OF ok that] by linarith
    then show ?thesis by (auto simp: capacity_prefix_eq block_span_def Let_def min_def)
  qed
  then show "b < b_n t \<Longrightarrow> block_capacity_prefix t (Suc b) = block_capacity_prefix t b + block_span t b" .
  show "k \<le> b_n t \<Longrightarrow> k \<le> block_capacity_prefix t k"
  proof (induction k)
    case (Suc k)
    then show ?case using step [of k] block_span_bounds(1) [OF ok, of k] by simp
  qed simp
qed

lemma n_le_total: "bandit_ok t \<Longrightarrow> b_n t \<le> b_total t"
  using capacity_prefix(1) [of t] capacity_prefix(3) [of t "b_n t"] by simp

lemma floor_step:
  assumes "0 < d" "a \<le> (d::nat)"
  shows "a * x div d \<le> a * (x + y) div d" "a * (x + y) div d \<le> a * x div d + y"
proof -
  show "a * x div d \<le> a * (x + y) div d" by (simp add: div_le_mono)
  have "a * (x + y) div d \<le> (a * x + y * d) div d"
    using assms(2) by (intro div_le_mono) (simp add: add_mult_distrib2 mult.commute mult_le_mono)
  then show "a * (x + y) div d \<le> a * x div d + y" using assms(1) by simp
qed

definition quota :: "qn_bandit \<Rightarrow> nat \<Rightarrow> nat" where
  "quota t k =
     (if b_explore_total t \<ge> b_n t
      then (if b_total t = b_n t then k
            else k + (b_explore_total t - b_n t) * (block_capacity_prefix t k - k) div (b_total t - b_n t))
      else b_explore_total t * block_capacity_prefix t k div b_total t)"

lemma quota_prefix:
  assumes ok: "bandit_ok t" and e: "b_explore_total t \<le> b_total t" and k: "k \<le> b_n t"
  shows "explore_quota_prefix t k = Some (quota t k)"
proof -
  let ?E = "b_explore_total t" let ?T = "b_total t" let ?n = "b_n t" let ?c = "block_capacity_prefix t k"
  have nT: "?n \<le> ?T" using ok by (rule n_le_total)
  have T: "0 < ?T" "?T < 2 ^ 64" using ok by (auto simp: bandit_ok_def)
  have c: "?c \<le> ?T" by (simp add: capacity_prefix_eq)
  have kc: "k \<le> ?c" by (rule capacity_prefix(3) [OF ok k])
  consider "k = 0" | "k = ?n" "0 < k" | "0 < k" "k < ?n" using k by linarith
  then show ?thesis
  proof cases
    case 1
    then show ?thesis by (simp add: explore_quota_prefix_def quota_def capacity_prefix_eq)
  next
    case 2
    then show ?thesis
      using capacity_prefix(1) [OF ok] T nT e by (simp add: explore_quota_prefix_def quota_def Let_def)
  next
    case 3
    have cT: "?c - k \<le> ?T - ?n"
    proof -
      have "?n - k \<le> ?T - ?c"
      proof -
        have "j \<le> ?n \<Longrightarrow> ?c + (j - k) \<le> block_capacity_prefix t j" if "k \<le> j" for j
          using that
        proof (induction j)
          case (Suc j)
          then show ?case
            using capacity_prefix(2) [OF ok, of j] block_span_bounds(1) [OF ok, of j]
            by (cases "k = Suc j") (auto simp: Suc_diff_le)
        qed simp
        from this [of ?n] show ?thesis using k capacity_prefix(1) [OF ok] by simp
      qed
      then show ?thesis using kc c nT 3 by linarith
    qed
    show ?thesis
    proof (cases "?E \<ge> ?n")
      case True
      have "mul_div_floor (?E - ?n) (?c - k) (?T - ?n) = Some ((?E - ?n) * (?c - k) div (?T - ?n))" if "?T \<noteq> ?n"
        using that nT e cT T by (intro mul_div_floor_eq) auto
      then show ?thesis using True 3 nT by (auto simp: explore_quota_prefix_def quota_def Let_def)
    next
      case False
      have "mul_div_floor ?E ?c ?T = Some (?E * ?c div ?T)" using e c T by (intro mul_div_floor_eq) auto
      then show ?thesis using False 3 by (simp add: explore_quota_prefix_def quota_def Let_def)
    qed
  qed
qed

lemma quota_step:
  assumes ok: "bandit_ok t" and e: "b_explore_total t \<le> b_total t" and b: "b < b_n t"
  shows "quota t b \<le> quota t (Suc b)" "quota t (Suc b) - quota t b \<le> block_span t b"
proof -
  let ?E = "b_explore_total t" let ?T = "b_total t" let ?n = "b_n t" let ?c = "block_capacity_prefix t"
  note bs = block_span_bounds(1) [OF ok b]
  have cs: "?c (Suc b) = ?c b + block_span t b" by (rule capacity_prefix(2) [OF ok b])
  have kc: "b \<le> ?c b" using b by (intro capacity_prefix(3) [OF ok]) simp
  have nT: "?n \<le> ?T" using ok by (rule n_le_total)
  have "quota t b \<le> quota t (Suc b) \<and> quota t (Suc b) \<le> quota t b + block_span t b"
  proof (cases "?E \<ge> ?n")
    case True
    show ?thesis
    proof (cases "?T = ?n")
      case True
      then show ?thesis using \<open>?E \<ge> ?n\<close> bs by (simp add: quota_def)
    next
      case False
      have x: "?c (Suc b) - Suc b = (?c b - b) + (block_span t b - 1)" using cs kc bs by simp
      define A B where "A = (?E - ?n) * (?c b - b) div (?T - ?n)"
        and "B = (?E - ?n) * (?c b - b + (block_span t b - 1)) div (?T - ?n)"
      have "0 < ?T - ?n" "?E - ?n \<le> ?T - ?n" using False nT e by auto
      then have "A \<le> B" "B \<le> A + (block_span t b - 1)" unfolding A_def B_def by (rule floor_step)+
      moreover have "quota t b = b + A" "quota t (Suc b) = Suc b + B"
        using True False by (simp_all only: quota_def x A_def B_def if_True if_False)
      ultimately show ?thesis using bs by linarith
    qed
  next
    case False
    have "0 < ?T" using ok by (auto simp: bandit_ok_def)
    then show ?thesis
      unfolding quota_def cs using floor_step [of ?T ?E "?c b" "block_span t b"] False e by simp
  qed
  then show "quota t b \<le> quota t (Suc b)" "quota t (Suc b) - quota t b \<le> block_span t b" by auto
qed

lemma quota_ends:
  assumes "bandit_ok t" "b_explore_total t \<le> b_total t"
  shows "quota t 0 = 0" "quota t (b_n t) = b_explore_total t"
proof -
  have "b_n t \<le> b_total t" using assms(1) by (rule n_le_total)
  moreover have "0 < b_total t" using assms(1) by (auto simp: bandit_ok_def)
  ultimately show "quota t 0 = 0" "quota t (b_n t) = b_explore_total t"
    using assms capacity_prefix(1) [OF assms(1)] by (auto simp: quota_def capacity_prefix_eq)
qed

lemma quota_mono:
  assumes "bandit_ok t" "b_explore_total t \<le> b_total t" "i \<le> j" "j \<le> b_n t"
  shows "quota t i \<le> quota t j"
  using assms(3,4)
proof (induction j)
  case (Suc j)
  then show ?case using quota_step(1) [OF assms(1,2), of j] by (cases "i = Suc j") auto
qed simp

section \<open>Setting the quotas\<close>

lemma bandit_ok_frame:
  "bandit_ok (t\<lparr>b_drawn := D\<rparr>) = bandit_ok t" "bandit_ok (t\<lparr>b_issued := i\<rparr>) = bandit_ok t"
  "bandit_ok (t\<lparr>b_alpha := A\<rparr>) = bandit_ok t" "bandit_ok (t\<lparr>b_beta := B\<rparr>) = bandit_ok t"
  "bandit_ok (t\<lparr>b_explore_total := e, b_exact := x, b_explore_order := p\<rparr>) = bandit_ok t"
  by (simp_all add: bandit_ok_def)

lemma frame_reads:
  "block_span (t\<lparr>b_drawn := D\<rparr>) = block_span t" "block_span (t\<lparr>b_issued := i\<rparr>) = block_span t"
  "explore_quota_prefix (t\<lparr>b_drawn := D\<rparr>) = explore_quota_prefix t"
  "quota (t\<lparr>b_drawn := D\<rparr>) = quota t"
  by (auto simp: fun_eq_iff block_span_def explore_quota_prefix_def quota_def block_capacity_prefix_def Let_def)

lemma set_quotas_spec:
  assumes ok: "bandit_ok t" and e: "b_explore_total t \<le> b_total t" and l: "length (b_drawn t) = b_n t"
    and k: "k \<le> b_n t"
  shows "set_quotas t [k..<b_n t] (quota t k) = Some (b_explore_total t,
    t\<lparr>b_drawn := map (\<lambda>b. if b < k then b_drawn t ! b else quota t (Suc b) - quota t b) [0..<b_n t]\<rparr>)"
  using k l ok e
proof (induction "b_n t - k" arbitrary: k t)
  case 0
  then have "k = b_n t" by simp
  moreover have "map (\<lambda>b. if b < b_n t then b_drawn t ! b else quota t (Suc b) - quota t b) [0..<b_n t] = b_drawn t"
    using 0 by (intro nth_equalityI) auto
  ultimately show ?case using quota_ends(2) [OF 0(4,5)] by simp
next
  case (Suc m)
  let ?q = "quota t (Suc k) - quota t k"
  let ?t = "t\<lparr>b_drawn := (b_drawn t)[k := ?q]\<rparr>"
  have k: "k < b_n t" using Suc.hyps(2) by simp
  have "set_quotas t [k..<b_n t] (quota t k) = set_quotas ?t [Suc k..<b_n t] (quota t (Suc k))"
    using k quota_step [OF Suc.prems(3,4) k] quota_prefix [OF Suc.prems(3,4), of "Suc k"]
    by (simp add: upt_conv_Cons)
  also have "\<dots> = Some (b_explore_total t,
      ?t\<lparr>b_drawn := map (\<lambda>b. if b < Suc k then b_drawn ?t ! b else quota t (Suc b) - quota t b) [0..<b_n t]\<rparr>)"
    using Suc.hyps(1) [of ?t "Suc k"] Suc.hyps(2) Suc.prems k by (simp add: bandit_ok_frame frame_reads)
  also have "map (\<lambda>b. if b < Suc k then b_drawn ?t ! b else quota t (Suc b) - quota t b) [0..<b_n t] =
      map (\<lambda>b. if b < k then b_drawn t ! b else quota t (Suc b) - quota t b) [0..<b_n t]"
    using k Suc.prems(2) by (auto simp: nth_list_update less_Suc_eq)
  finally show ?case by simp
qed

text \<open>The state after a successful call, in closed form.\<close>

lemma set_explore_total_eq:
  assumes ok: "bandit_ok t0" and l: "length (b_drawn t0) = b_n t0" and e: "E \<le> b_total t0" and i: "b_issued t0 = 0"
    and t: "t = t0\<lparr>b_explore_total := E, b_exact := True, b_explore_order := qn_perm_init (word_of_nat E)
                   (mix64 (b_seed t0 XOR 0x5354524154494659))\<rparr>"
  shows "qn_bandit_set_explore_total t0 E =
    Some (t\<lparr>b_drawn := map (\<lambda>b. quota t (Suc b) - quota t b) [0..<b_n t]\<rparr>)"
proof -
  have okt: "bandit_ok t" using ok by (simp add: t bandit_ok_frame)
  have ft: "b_explore_total t = E" "b_total t = b_total t0" "b_n t = b_n t0" "b_drawn t = b_drawn t0" by (simp_all add: t)
  have "set_quotas t [0..<b_n t] 0 = Some (E, t\<lparr>b_drawn := map (\<lambda>b. quota t (Suc b) - quota t b) [0..<b_n t]\<rparr>)"
    using set_quotas_spec [OF okt, of 0] quota_ends(1) [OF okt] e l by (simp add: ft)
  then show ?thesis
    using e i by (simp add: qn_bandit_set_explore_total_def Let_def t [symmetric] split: option.split)
qed

end
