(* ===== verification/Bandit_Schedule.thy ===== *)
theory Bandit_Schedule
  imports Bandit
begin

text \<open>
  What the scheduler of \<^verbatim>\<open>src/core/bandit.c\<close> promises its callers.  The state is abstracted to the set
  of slots in use; the invariant counts them, so a call with a fresh step number cannot fail
  and cannot repeat an index, for either exploration mode.
\<close>

section \<open>The exact exploration\<close>

text \<open>\<open>quota_block t m b\<close>: the \<open>m\<close>-th explored slot is one of block \<open>b\<close>.\<close>

definition quota_block :: "qn_bandit \<Rightarrow> nat \<Rightarrow> nat \<Rightarrow> bool" where
  "quota_block t m b \<longleftrightarrow> b < b_n t \<and> quota t b \<le> m \<and> m < quota t (Suc b)"

lemma quota_search_spec:
  assumes ok: "bandit_ok t" and e: "b_explore_total t \<le> b_total t"
    and "lo \<le> hi" "hi \<le> b_n t" "quota t lo \<le> m" "hi < b_n t \<Longrightarrow> m < quota t (Suc hi)"
  shows "\<exists>b. quota_search t m lo hi = Some b \<and> b \<le> hi \<and> quota t b \<le> m \<and> (b < b_n t \<longrightarrow> m < quota t (Suc b))"
  using assms(3-6)
proof (induction "hi - lo" arbitrary: lo hi rule: less_induct)
  case less
  show ?case
  proof (cases "lo < hi")
    case True
    let ?mid = "lo + (hi - lo) div 2"
    have mid: "lo \<le> ?mid" "?mid < hi" using True by auto
    have q: "explore_quota_prefix t (?mid + 1) = Some (quota t (Suc ?mid))"
      using quota_prefix [OF ok e, of "Suc ?mid"] mid(2) less.prems(2) by simp
    show ?thesis
    proof (cases "m < quota t (Suc ?mid)")
      case lt: True
      have "quota_search t m lo hi = quota_search t m lo ?mid"
        using True q lt by (subst quota_search.simps) (simp add: Let_def)
      then show ?thesis using less.hyps [of ?mid lo] less.prems mid lt by fastforce
    next
      case ge: False
      have "quota_search t m lo hi = quota_search t m (?mid + 1) hi"
        using True q ge by (subst quota_search.simps) (simp add: Let_def)
      then show ?thesis using less.hyps [of hi "?mid + 1"] less.prems mid ge by fastforce
    qed
  next
    case False
    then show ?thesis using less.prems by (subst quota_search.simps) auto
  qed
qed

lemma exact_next_eq:
  assumes ok: "bandit_ok t" and e: "b_explore_total t \<le> b_total t"
    and m: "perm_nat (b_explore_order t) step < b_explore_total t" (is "?m < _")
  shows "\<exists>b. quota_block t ?m b \<and> ?m - quota t b < block_span t b \<and>
    exact_explore_next t step = Some (slot_index t (b, ?m - quota t b))"
proof -
  obtain b where b: "quota_search t ?m 0 (b_n t) = Some b" "b \<le> b_n t" "quota t b \<le> ?m"
      "b < b_n t \<longrightarrow> ?m < quota t (Suc b)"
    using quota_search_spec [OF ok e, of 0 "b_n t" ?m] quota_ends(1) [OF ok e] by auto
  have bn: "b < b_n t" using b(2,3) m quota_ends(2) [OF ok e] by (metis leD le_neq_implies_less)
  have l: "?m - quota t b < block_span t b" using quota_step [OF ok e bn] b(3,4) bn by linarith
  have "exact_explore_next t step = Some (slot_index t (b, ?m - quota t b))"
    using b(1) bn l quota_prefix [OF ok e, of b]
    by (simp add: exact_explore_next_def slot_index_def Let_def)
  then show ?thesis using b bn l by (auto simp: quota_block_def)
qed

section \<open>Every index once\<close>

text \<open>The steps below \<open>explored t\<close> are explored; \<open>preset t b\<close> offsets of block \<open>b\<close> are theirs.\<close>

definition explored :: "qn_bandit \<Rightarrow> nat" where
  "explored t = (if b_exact t then b_explore_total t else 0)"

definition preset :: "qn_bandit \<Rightarrow> nat \<Rightarrow> nat" where
  "preset t b = (if b_exact t then quota t (Suc b) - quota t b else 0)"

definition drawn_slots :: "qn_bandit \<Rightarrow> (nat \<times> nat) set" where
  "drawn_slots t = {(b, c). b < b_n t \<and> preset t b \<le> c \<and> c < b_drawn t ! b}"

definition explored_slots :: "qn_bandit \<Rightarrow> nat set \<Rightarrow> (nat \<times> nat) set" where
  "explored_slots t S = {(b, c). b < b_n t \<and> c < preset t b \<and>
     (\<exists>s \<in> S. s < explored t \<and> perm_nat (b_explore_order t) s = quota t b + c)}"

text \<open>The invariant after the steps of \<open>S\<close>, in whatever order.\<close>

definition bandit_inv :: "qn_bandit \<Rightarrow> nat set \<Rightarrow> bool" where
  "bandit_inv t S \<longleftrightarrow> bandit_ok t \<and> length (b_drawn t) = b_n t \<and> explored t \<le> b_total t \<and>
     (b_exact t \<longrightarrow> (\<exists>s. b_explore_order t = qn_perm_init (word_of_nat (b_explore_total t)) s)) \<and>
     (\<forall>b<b_n t. preset t b \<le> b_drawn t ! b \<and> b_drawn t ! b \<le> block_span t b) \<and>
     (\<Sum>b<b_n t. b_drawn t ! b) = explored t + card {s \<in> S. explored t \<le> s} \<and>
     S \<subseteq> {..<b_total t} \<and> b_issued t = card S"

definition used :: "qn_bandit \<Rightarrow> nat set \<Rightarrow> nat set" where
  "used t S = slot_index t ` (drawn_slots t \<union> explored_slots t S)"

lemma explore_order_bij:
  assumes "bandit_inv t S" "b_exact t"
  shows "bij_betw (perm_nat (b_explore_order t)) {..<explored t} {..<explored t}"
proof -
  obtain s where s: "b_explore_order t = qn_perm_init (word_of_nat (b_explore_total t)) s"
    using assms by (auto simp: bandit_inv_def)
  have "b_explore_total t < 2 ^ 64" using assms by (auto simp: bandit_inv_def bandit_ok_def explored_def)
  then have "unat (word_of_nat (b_explore_total t) :: u64) = b_explore_total t" by (intro unat_word_of_nat) simp
  then show ?thesis using perm_nat_bij [of "word_of_nat (b_explore_total t)" s] assms(2) by (simp add: s explored_def)
qed

lemma took_frame:
  assumes t': "t' = t\<lparr>b_drawn := D, b_issued := i\<rparr>"
  shows "explored t' = explored t" "preset t' = preset t" "bandit_ok t' = bandit_ok t" "block_span t' = block_span t"
    "slot_index t' = slot_index t" "explored_slots t' S = explored_slots t S" "quota t' = quota t" "block_key t' = block_key t"
proof -
  show bs: "block_span t' = block_span t" and q: "quota t' = quota t" and ex: "explored t' = explored t"
    and ky: "block_key t' = block_key t" and "bandit_ok t' = bandit_ok t"
    by (auto simp: t' fun_eq_iff block_span_def quota_def block_capacity_prefix_def explored_def block_key_def bandit_ok_def Let_def)
  have f: "b_exact t' = b_exact t" "b_n t' = b_n t" "b_span t' = b_span t" "b_explore_order t' = b_explore_order t"
    by (simp_all add: t')
  show ps: "preset t' = preset t" by (simp add: fun_eq_iff preset_def q f)
  show "slot_index t' = slot_index t" by (simp add: fun_eq_iff slot_index_def bs ky f)
  show "explored_slots t' S = explored_slots t S" by (simp add: explored_slots_def ps q f ex)
qed

lemma used_slots_sub:
  assumes "bandit_inv t S"
  shows "drawn_slots t \<union> explored_slots t S \<subseteq> slots t"
  using assms by (fastforce simp: bandit_inv_def drawn_slots_def explored_slots_def slots_def)

lemma full_count:
  assumes inv: "bandit_inv t S" and s: "s \<notin> S" "s < b_total t" "explored t \<le> s"
  shows "\<exists>b<b_n t. b_drawn t ! b < block_span t b"
proof (rule ccontr)
  assume "\<not> (\<exists>b<b_n t. b_drawn t ! b < block_span t b)"
  then have "b_drawn t ! b = block_span t b" if "b < b_n t" for b
    using inv that by (force simp: bandit_inv_def)
  then have "(\<Sum>b<b_n t. b_drawn t ! b) = b_total t"
    using sum_block_span [of t] inv by (simp add: bandit_inv_def)
  then have "b_total t = explored t + card {s \<in> S. explored t \<le> s}" using inv by (simp add: bandit_inv_def)
  moreover have "card (insert s {s \<in> S. explored t \<le> s}) \<le> card {explored t..<b_total t}"
    using inv s by (intro card_mono) (auto simp: bandit_inv_def)
  moreover have "finite {s \<in> S. explored t \<le> s}"
    using inv by (auto simp: bandit_inv_def intro: finite_subset [of _ "{..<b_total t}"])
  ultimately show False using s by simp
qed

lemma took_inv:
  assumes inv: "bandit_inv t S" and s: "s \<notin> S" "s < b_total t" "explored t \<le> s" and tk: "took t r t'"
  shows "\<exists>i. r = Some i \<and> i < b_total t \<and> i \<notin> used t S \<and> bandit_inv t' (insert s S) \<and>
    used t' (insert s S) = insert i (used t S) \<and> b_total t' = b_total t"
proof -
  obtain b where b: "b < b_n t" "b_drawn t ! b < block_span t b" "r = Some (slot_index t (b, b_drawn t ! b))"
    and t': "t' = t\<lparr>b_drawn := (b_drawn t)[b := b_drawn t ! b + 1], b_issued := b_issued t + 1\<rparr>"
    using tk by (auto simp: took_def)
  note fr = took_frame [OF t']
  let ?x = "(b, b_drawn t ! b)"
  have ok: "bandit_ok t" and l: "length (b_drawn t) = b_n t" using inv by (auto simp: bandit_inv_def)
  have x: "?x \<in> slots t" using b by (simp add: slots_def)
  have xn: "?x \<notin> drawn_slots t \<union> explored_slots t S" using inv b(1)
    by (auto simp: drawn_slots_def explored_slots_def bandit_inv_def)
  have fresh: "slot_index t ?x \<notin> used t S"
    unfolding used_def
    using inj_on_image_mem_iff [OF bij_betw_imp_inj_on [OF slot_index_bij [OF ok]] x used_slots_sub [OF inv]] xn by blast
  have d: "b_drawn t' ! c = (if c = b then b_drawn t ! b + 1 else b_drawn t ! c)" "b_n t' = b_n t" for c
    using b(1) l by (simp_all add: t' nth_list_update)
  have "preset t b \<le> b_drawn t ! b" using inv b(1) by (simp add: bandit_inv_def)
  then have "drawn_slots t' = insert ?x (drawn_slots t)"
    using b(1) by (auto simp: drawn_slots_def fr d split: if_splits)
  moreover have "explored_slots t (insert s S) = explored_slots t S" using s by (auto simp: explored_slots_def)
  ultimately have u: "used t' (insert s S) = insert (slot_index t ?x) (used t S)" by (simp add: used_def fr)
  have fin: "finite S" using inv by (auto simp: bandit_inv_def intro: finite_subset)
  have "(\<Sum>b<b_n t'. b_drawn t' ! b) = (\<Sum>b<b_n t. b_drawn t ! b) + 1"
  proof -
    have "(\<Sum>c<b_n t'. b_drawn t' ! c) = (\<Sum>c<b_n t. b_drawn t ! c + (if c = b then 1 else 0))"
      by (rule sum.cong) (simp_all add: d)
    then show ?thesis using b(1) by (simp add: sum.distrib)
  qed
  moreover have "{s' \<in> insert s S. explored t \<le> s'} = insert s {s' \<in> S. explored t \<le> s'}" using s by auto
  ultimately have "(\<Sum>b<b_n t'. b_drawn t' ! b) = explored t + card {s' \<in> insert s S. explored t \<le> s'}"
    using inv s fin by (simp add: bandit_inv_def)
  moreover have "\<forall>c<b_n t. preset t c \<le> b_drawn t' ! c \<and> b_drawn t' ! c \<le> block_span t c"
    using inv b by (auto simp: bandit_inv_def d)
  moreover have "b_total t' = b_total t" "b_exact t' = b_exact t" "b_explore_order t' = b_explore_order t"
    "b_explore_total t' = b_explore_total t" "b_issued t' = b_issued t + 1" "length (b_drawn t') = length (b_drawn t)"
    by (simp_all add: t')
  ultimately have inv': "bandit_inv t' (insert s S)"
    using inv s fin by (simp add: bandit_inv_def fr d(2))
  have "b_total t' = b_total t" by (simp add: t')
  then show ?thesis using slot_index_parts(3) [OF ok x] fresh u inv' b(3) by blast
qed

lemma exact_inv:
  assumes inv: "bandit_inv t S" and s: "s \<notin> S" "s < explored t" and x: "b_exact t"
  shows "\<exists>i. exact_explore_next t s = Some i \<and> i < b_total t \<and> i \<notin> used t S \<and> bandit_inv (issue t) (insert s S) \<and>
    used (issue t) (insert s S) = insert i (used t S)"
proof -
  let ?p = "perm_nat (b_explore_order t)"
  have ok: "bandit_ok t" and e: "b_explore_total t \<le> b_total t" using inv x by (auto simp: bandit_inv_def explored_def)
  have pb: "bij_betw ?p {..<explored t} {..<explored t}" by (rule explore_order_bij [OF inv x])
  then have pinj: "?p s' \<noteq> ?p s" if "s' \<in> S" "s' < explored t" for s'
    using that s by (auto simp: bij_betw_def inj_on_def)
  have "?p s < explored t" using pb s(2) by (auto simp: bij_betw_def)
  then have "?p s < b_explore_total t" using x by (simp add: explored_def)
  from exact_next_eq [OF ok e this] obtain b where b: "quota_block t (?p s) b" "?p s - quota t b < block_span t b"
    "exact_explore_next t s = Some (slot_index t (b, ?p s - quota t b))" by blast
  let ?x = "(b, ?p s - quota t b)"
  have bn: "b < b_n t" and c: "?p s = quota t b + snd ?x" "snd ?x < preset t b"
    using b(1) x by (auto simp: quota_block_def preset_def)
  have xs: "?x \<in> slots t" using b(2) bn by (simp add: slots_def)
  have xn: "?x \<notin> drawn_slots t \<union> explored_slots t S"
    using c pinj by (auto simp: drawn_slots_def explored_slots_def)
  have fresh: "slot_index t ?x \<notin> used t S"
    unfolding used_def
    using inj_on_image_mem_iff [OF bij_betw_imp_inj_on [OF slot_index_bij [OF ok]] xs used_slots_sub [OF inv]] xn by blast
  have fr: "issue t = t\<lparr>b_drawn := b_drawn t, b_issued := b_issued t + 1\<rparr>" by (simp add: issue_def)
  note fr' = took_frame [OF fr]
  have one: "b' = b \<and> c' = snd ?x" if "b' < b_n t" "c' < preset t b'" "?p s = quota t b' + c'" for b' c'
  proof -
    have "quota t b' \<le> ?p s" "?p s < quota t (Suc b')" using that x by (auto simp: preset_def)
    moreover have "quota t b \<le> ?p s" "?p s < quota t (Suc b)" using b(1) by (auto simp: quota_block_def)
    ultimately have "\<not> Suc b' \<le> b" "\<not> Suc b \<le> b'"
      using quota_mono [OF ok e, of "Suc b'" b] quota_mono [OF ok e, of "Suc b" b'] bn that(1) by auto
    then have "b' = b" by simp
    then show ?thesis using that(3) by simp
  qed
  have "explored_slots t (insert s S) = insert ?x (explored_slots t S)"
  proof (intro equalityI subsetI)
    fix y
    assume "y \<in> explored_slots t (insert s S)"
    then show "y \<in> insert ?x (explored_slots t S)" using one by (cases y) (auto simp: explored_slots_def)
  next
    fix y
    assume "y \<in> insert ?x (explored_slots t S)"
    moreover have "?x \<in> explored_slots t (insert s S)" using c bn s(2) by (simp add: explored_slots_def)
    ultimately show "y \<in> explored_slots t (insert s S)" by (auto simp: explored_slots_def)
  qed
  moreover have "drawn_slots (issue t) = drawn_slots t" by (auto simp: drawn_slots_def fr') (auto simp: issue_def)
  ultimately have u: "used (issue t) (insert s S) = insert (slot_index t ?x) (used t S)" by (simp add: used_def fr')
  have "finite S" using inv by (auto simp: bandit_inv_def intro: finite_subset)
  moreover have "{s' \<in> insert s S. explored t \<le> s'} = {s' \<in> S. explored t \<le> s'}" using s by auto
  moreover have "s < b_total t" using s(2) inv by (simp add: bandit_inv_def)
  ultimately have "bandit_inv (issue t) (insert s S)"
    using inv s(1) unfolding bandit_inv_def fr' by (simp add: issue_def)
  then show ?thesis using slot_index_parts(3) [OF ok xs] fresh u b(3) by blast
qed

lemma next_inv:
  assumes inv: "bandit_inv t S" and s: "s \<notin> S" "s < b_total t"
  shows "\<exists>i. fst (qn_bandit_next t s) = Some i \<and> i < b_total t \<and> i \<notin> used t S \<and>
    bandit_inv (snd (qn_bandit_next t s)) (insert s S) \<and> used (snd (qn_bandit_next t s)) (insert s S) = insert i (used t S) \<and>
    b_total (snd (qn_bandit_next t s)) = b_total t"
proof -
  have "card (insert s S) \<le> card {..<b_total t}" using inv s by (intro card_mono) (auto simp: bandit_inv_def)
  moreover have "finite S" using inv by (auto simp: bandit_inv_def intro: finite_subset)
  ultimately have room: "b_issued t < b_total t" using inv s by (simp add: bandit_inv_def)
  have l: "length (b_drawn t) = b_n t" and n: "0 < b_n t" and ok: "bandit_ok t"
    using inv by (auto simp: bandit_inv_def bandit_ok_def)
  show ?thesis
  proof (cases "b_exact t \<and> s < b_explore_total t")
    case True
    then have "s < explored t" "b_exact t" by (auto simp: explored_def)
    from exact_inv [OF inv s(1) this] obtain i where "exact_explore_next t s = Some i" "i < b_total t" "i \<notin> used t S"
      "bandit_inv (issue t) (insert s S)" "used (issue t) (insert s S) = insert i (used t S)" by blast
    then show ?thesis using True room by (simp add: qn_bandit_next_def issue_def)
  next
    case False
    then have sx: "explored t \<le> s" by (auto simp: explored_def)
    have st: "took t (fst (sample_take t 4 rng)) (snd (sample_take t 4 rng))" for rng
      using sample_take_took [OF l n, of 4 rng] full_count [OF inv s sx] by blast
    let ?b = "perm_nat (b_block_order t) (s mod b_n t)"
    have b: "?b < b_n t"
    proof -
      obtain sd where "b_block_order t = qn_perm_init (word_of_nat (b_n t)) sd" using ok by (auto simp: bandit_ok_def)
      moreover have "unat (word_of_nat (b_n t) :: u64) = b_n t" using ok by (intro unat_word_of_nat) (simp add: bandit_ok_def)
      ultimately show ?thesis using perm_nat_bij [of "word_of_nat (b_n t)" sd] n by (auto simp: bij_betw_def)
    qed
    have "took t (fst (qn_bandit_next t s)) (snd (qn_bandit_next t s))"
    proof (cases "\<not> b_exact t \<and> s < b_n t * b_explore t \<and> b_drawn t ! ?b < block_span t ?b")
      case True
      then show ?thesis using False room b
        by (auto simp: qn_bandit_next_def take_offset_eq [OF l b] took_def issue_def Let_def intro!: exI [of _ ?b])
    next
      case notx: False
      then show ?thesis using False room st
        by (auto simp: qn_bandit_next_def take_offset_eq [OF l b] Let_def)
    qed
    from took_inv [OF inv s sx this] show ?thesis by blast
  qed
qed

lemma report_inv:
  "bandit_inv t S \<Longrightarrow> bandit_inv (qn_bandit_report t i g) S"
  "used (qn_bandit_report t i g) S = used t S" "b_total (qn_bandit_report t i g) = b_total t"
proof -
  obtain A B where r: "qn_bandit_report t i g = t\<lparr>b_alpha := A, b_beta := B\<rparr>"
  proof
    show "qn_bandit_report t i g = t\<lparr>b_alpha := b_alpha (qn_bandit_report t i g), b_beta := b_beta (qn_bandit_report t i g)\<rparr>"
      by (simp add: qn_bandit_report_def Let_def)
  qed
  let ?t = "t\<lparr>b_alpha := A, b_beta := B\<rparr>"
  have "block_span ?t = block_span t" "quota ?t = quota t" "explored ?t = explored t" "bandit_ok ?t = bandit_ok t"
    "block_key ?t = block_key t"
    by (auto simp: fun_eq_iff block_span_def quota_def block_capacity_prefix_def explored_def block_key_def bandit_ok_def Let_def)
  moreover have "preset ?t = preset t" using calculation by (simp add: fun_eq_iff preset_def)
  ultimately show "bandit_inv t S \<Longrightarrow> bandit_inv (qn_bandit_report t i g) S"
    "used (qn_bandit_report t i g) S = used t S" "b_total (qn_bandit_report t i g) = b_total t"
    unfolding r by (simp_all add: bandit_inv_def used_def drawn_slots_def explored_slots_def slot_index_def)
qed

lemma shape_bounds:
  assumes "bandit_shape total0 req = Some (span, n)"
  shows "0 < span" "0 < n" "n \<le> QN_BANDIT_MAX_BLOCKS" "(n - 1) * span < total0" "total0 \<le> n * span"
proof -
  have T: "0 < total0" "0 < req" using assms by (auto simp: bandit_shape_def split: if_splits)
  have n: "n = total0 div span + (if total0 mod span \<noteq> 0 then 1 else 0)" "0 < n" "n \<le> QN_BANDIT_MAX_BLOCKS"
    and sp: "req \<le> span"
    using assms T by (auto simp: bandit_shape_def Let_def split: if_splits)
  show "0 < span" using T(2) sp by simp
  show "0 < n" "n \<le> QN_BANDIT_MAX_BLOCKS" using n by auto
  have e: "total0 = total0 div span * span + total0 mod span" by simp
  have m: "total0 mod span < span" using \<open>0 < span\<close> by simp
  show "total0 \<le> n * span"
  proof (cases "total0 mod span = 0")
    case True
    then show ?thesis using e n(1) by simp
  next
    case False
    then have "n * span = total0 div span * span + span" using n(1) by simp
    then show ?thesis using e m by linarith
  qed
  show "(n - 1) * span < total0"
  proof (cases "total0 mod span = 0")
    case True
    then have "n * span = total0" using e n(1) by simp
    then show ?thesis using \<open>0 < span\<close> n(2) by (metis diff_less less_numeral_extra(1) mult_less_cancel2)
  next
    case False
    then have "(n - 1) * span = total0 div span * span" using n(1) by simp
    then show ?thesis using e False by linarith
  qed
qed

lemma init_inv:
  assumes "qn_bandit_init alloc total0 span explore seed = Some t" "total0 < 2 ^ 64"
  shows "bandit_inv t {}" "b_total t = total0" "used t {} = {}"
    "b_issued t = 0" "\<not> b_exact t"
proof -
  obtain sp n where s: "bandit_shape total0 span = Some (sp, n)"
    using assms(1) by (auto simp: qn_bandit_init_def split: option.splits)
  have t: "b_n t = n" "b_span t = sp" "b_total t = total0" "b_drawn t = replicate n 0" "\<not> b_exact t" "b_issued t = 0"
    "b_block_order t = qn_perm_init (word_of_nat n) (mix64 (seed XOR 0xA5A5))"
    using assms(1) s by (auto simp: qn_bandit_init_def split: if_splits)
  note sb = shape_bounds [OF s]
  have ok: "bandit_ok t" using sb assms(2) by (auto simp: bandit_ok_def t)
  then show "bandit_inv t {}" by (simp add: bandit_inv_def t explored_def preset_def)
  show "b_total t = total0" "b_issued t = 0" "\<not> b_exact t" by (rule t)+
  show "used t {} = {}" by (auto simp: used_def drawn_slots_def explored_slots_def t)
qed

lemma set_explore_total_inv:
  assumes inv: "bandit_inv t0 {}" and set: "qn_bandit_set_explore_total t0 E = Some t"
  shows "bandit_inv t {}" "b_total t = b_total t0" "used t {} = {}"
proof -
  have ok0: "bandit_ok t0" and l: "length (b_drawn t0) = b_n t0" and i: "b_issued t0 = 0"
    using inv by (auto simp: bandit_inv_def)
  have e: "E \<le> b_total t0" using set by (auto simp: qn_bandit_set_explore_total_def split: if_splits)
  define u where "u = t0\<lparr>b_explore_total := E, b_exact := True, b_explore_order := qn_perm_init (word_of_nat E)
                   (mix64 (b_seed t0 XOR 0x5354524154494659))\<rparr>"
  have t: "t = u\<lparr>b_drawn := map (\<lambda>b. quota u (Suc b) - quota u b) [0..<b_n u]\<rparr>"
    using set_explore_total_eq [OF ok0 l e i u_def] set by simp
  have oku: "bandit_ok u" using ok0 by (simp add: u_def bandit_ok_frame)
  have q: "quota t = quota u" "block_span t = block_span u" by (simp_all add: t frame_reads)
  have ft: "b_n t = b_n u" "b_total t = b_total u" "b_explore_total t = E" "b_exact t" "b_issued t = 0"
    "b_explore_order t = qn_perm_init (word_of_nat E) (mix64 (b_seed t0 XOR 0x5354524154494659))"
    "b_total u = b_total t0" "b_explore_total u = E" "length (b_drawn t) = b_n u"
    by (simp_all add: t) (simp_all add: u_def i)
  have eu: "b_explore_total u \<le> b_total u" using e by (simp add: ft)
  have d: "b_drawn t ! b = quota u (Suc b) - quota u b" if "b < b_n u" for b using that by (simp add: t)
  have okt: "bandit_ok t" using oku by (simp add: t bandit_ok_frame)
  have "(\<Sum>b<k. b_drawn t ! b) = quota u k" if "k \<le> b_n u" for k
    using that
  proof (induction k)
    case (Suc k)
    then show ?case using d [of k] quota_step(1) [OF oku eu, of k] by simp
  qed (use quota_ends(1) [OF oku eu] in simp)
  then have "(\<Sum>b<b_n u. b_drawn t ! b) = E" using quota_ends(2) [OF oku eu] ft(8) by simp
  then show "bandit_inv t {}"
    using okt ft e d quota_step(2) [OF oku eu] by (auto simp: bandit_inv_def explored_def preset_def q)
  show "b_total t = b_total t0" by (simp add: ft)
  show "used t {} = {}" by (auto simp: used_def drawn_slots_def explored_slots_def ft preset_def q d)
qed

lemma quota_ge_step:
  assumes ok: "bandit_ok t" and e: "b_explore_total t \<le> b_total t" and b: "b < b_n t" and n: "b_n t \<le> b_explore_total t"
  shows "quota t b < quota t (Suc b)"
proof (cases "b_total t = b_n t")
  case False
  have "block_capacity_prefix t b - b \<le> block_capacity_prefix t (Suc b) - Suc b"
    using capacity_prefix(2) [OF ok b] block_span_bounds(1) [OF ok b] by simp
  then have "(b_explore_total t - b_n t) * (block_capacity_prefix t b - b) div (b_total t - b_n t)
      \<le> (b_explore_total t - b_n t) * (block_capacity_prefix t (Suc b) - Suc b) div (b_total t - b_n t)"
    by (intro div_le_mono mult_le_mono2)
  then show ?thesis using False n by (simp add: quota_def)
qed (simp add: quota_def n)

text \<open>A caller asks for indices by step number and reports outcomes in between.\<close>

datatype bandit_op = Next nat | Report nat bool

fun bandit_run :: "qn_bandit \<Rightarrow> bandit_op list \<Rightarrow> nat option list" where
  "bandit_run t [] = []"
| "bandit_run t (Next s # ops) = (case qn_bandit_next t s of (r, t') \<Rightarrow> r # bandit_run t' ops)"
| "bandit_run t (Report i g # ops) = bandit_run (qn_bandit_report t i g) ops"

fun bandit_steps :: "bandit_op list \<Rightarrow> nat list" where
  "bandit_steps [] = []"
| "bandit_steps (Next s # ops) = s # bandit_steps ops"
| "bandit_steps (Report i g # ops) = bandit_steps ops"

lemma run_inv:
  assumes "bandit_inv t S" "distinct (bandit_steps ops)" "set (bandit_steps ops) \<subseteq> {..<b_total t}"
    "S \<inter> set (bandit_steps ops) = {}"
  shows "\<exists>is. bandit_run t ops = map Some is \<and> distinct is \<and> set is \<subseteq> {..<b_total t} \<and> set is \<inter> used t S = {} \<and>
    length is = length (bandit_steps ops)"
  using assms
proof (induction t ops arbitrary: S rule: bandit_run.induct)
  case (2 t s ops)
  obtain r t' where n: "qn_bandit_next t s = (r, t')" by force
  from next_inv [of t S s] 2(2-) n obtain i where i: "r = Some i" "i < b_total t" "i \<notin> used t S"
    "bandit_inv t' (insert s S)" "used t' (insert s S) = insert i (used t S)" "b_total t' = b_total t" by auto
  from 2(1) [OF n [symmetric] i(4)] 2(3-) obtain js where "bandit_run t' ops = map Some js" "distinct js"
    "set js \<subseteq> {..<b_total t}" "set js \<inter> insert i (used t S) = {}" "length js = length (bandit_steps ops)"
    by (auto simp: i(5,6))
  then show ?case using i n by (intro exI [of _ "i # js"]) auto
next
  case (3 t i g ops)
  then show ?case using report_inv by simp
qed simp

section \<open>Theorems\<close>

text \<open>
  Property C2.  After \<^verbatim>\<open>qn_bandit_init\<close>, with or without exact exploration quotas, every call of
  \<^verbatim>\<open>qn_bandit_next\<close> with a step number below the total that was not used before returns an index below
  the total that no earlier call returned, in whatever order the steps come and whatever
  outcomes are reported in between.  A caller that goes through all steps gets every index
  exactly once.
\<close>

theorem bandit_every_index_once:
  assumes "qn_bandit_init alloc total0 span explore seed = Some t0" "total0 < 2 ^ 64"
    and "t = t0 \<or> qn_bandit_set_explore_total t0 E = Some t"
    and "distinct (bandit_steps ops)" "set (bandit_steps ops) \<subseteq> {..<total0}"
  shows "\<exists>is. bandit_run t ops = map Some is \<and> distinct is \<and> set is \<subseteq> {..<total0} \<and>
    (length (bandit_steps ops) = total0 \<longrightarrow> set is = {..<total0})"
proof -
  note init = init_inv [OF assms(1,2)]
  have inv: "bandit_inv t {}" and T: "b_total t = total0"
    using assms(3) init set_explore_total_inv [OF init(1), of E t] by auto
  from run_inv [OF inv assms(4)] assms(5) obtain js where js: "bandit_run t ops = map Some js" "distinct js"
    "set js \<subseteq> {..<total0}" "length js = length (bandit_steps ops)" by (auto simp: T)
  have "set js = {..<total0}" if "length (bandit_steps ops) = total0"
    using js that by (intro card_subset_eq) (auto simp: distinct_card)
  then show ?thesis using js by blast
qed

theorem bandit_every_index_once_witness:
  "\<exists>t is. qn_bandit_init (\<lambda>_. True) 10 4 2 7 = Some t \<and>
     bandit_run t [Next 3, Report 5 True, Next 0, Next 9] = map Some is \<and> distinct is \<and> set is \<subseteq> {..<10}"
proof -
  obtain t where t: "qn_bandit_init (\<lambda>_. True) 10 4 2 7 = Some t"
    by (simp add: qn_bandit_init_def bandit_shape_def Let_def)
  show ?thesis
    using bandit_every_index_once [OF t, of t 0 "[Next 3, Report 5 True, Next 0, Next 9]"] t by auto
qed

text \<open>
  On a fresh scheduler \<^verbatim>\<open>qn_bandit_set_explore_total\<close> succeeds exactly if the budget does
  not exceed the total; none of its internal failure branches is ever taken.  On success the
  blocks are preset to quotas that fit each block and add up to the budget, and with a budget
  of at least one per block every block gets at least one.
\<close>

lemma bandit_set_explore_total_iff:
  assumes "qn_bandit_init alloc total0 span explore seed = Some t0" "total0 < 2 ^ 64"
  shows "(qn_bandit_set_explore_total t0 E \<noteq> None) = (E \<le> total0) \<and>
    (\<forall>t. qn_bandit_set_explore_total t0 E = Some t \<longrightarrow>
       (\<Sum>b<b_n t. b_drawn t ! b) = E \<and> (\<forall>b<b_n t. b_drawn t ! b \<le> block_span t b) \<and>
       (b_n t \<le> E \<longrightarrow> (\<forall>b<b_n t. 0 < b_drawn t ! b)))"
proof (intro conjI allI impI)
  note init = init_inv [OF assms]
  have ok: "bandit_ok t0" and l: "length (b_drawn t0) = b_n t0" using init(1) by (auto simp: bandit_inv_def)
  show "(qn_bandit_set_explore_total t0 E \<noteq> None) = (E \<le> total0)"
    using set_explore_total_eq [OF ok l _ init(4) refl, of E] init(2)
    by (cases "E \<le> total0") (auto simp: qn_bandit_set_explore_total_def)
  fix t
  assume s: "qn_bandit_set_explore_total t0 E = Some t"
  note inv = set_explore_total_inv [OF init(1) s]
  have e: "E \<le> b_total t0" using s by (auto simp: qn_bandit_set_explore_total_def split: if_splits)
  obtain D where t: "t = t0\<lparr>b_explore_total := E, b_exact := True, b_explore_order := qn_perm_init (word_of_nat E)
                   (mix64 (b_seed t0 XOR 0x5354524154494659)), b_drawn := D\<rparr>"
    using set_explore_total_eq [OF ok l e init(4) refl] s by auto
  have x: "b_exact t" "b_explore_total t = E" by (simp_all add: t)
  show "(\<Sum>b<b_n t. b_drawn t ! b) = E" using inv(1) x by (simp add: bandit_inv_def explored_def)
  show "b_drawn t ! b \<le> block_span t b" if "b < b_n t" for b using inv(1) that by (simp add: bandit_inv_def)
  show "0 < b_drawn t ! b" if "b_n t \<le> E" "b < b_n t" for b
  proof -
    have okt: "bandit_ok t" and et: "b_explore_total t \<le> b_total t" using inv(1) x by (auto simp: bandit_inv_def explored_def)
    have "preset t b \<le> b_drawn t ! b" using inv(1) that(2) by (simp add: bandit_inv_def)
    moreover have "quota t b < quota t (Suc b)" using quota_ge_step [OF okt et that(2)] that(1) x by simp
    ultimately show ?thesis using x by (simp add: preset_def)
  qed
qed

end
