(* ===== verification/Bytes.thy ===== *)
theory Bytes
  imports Qn_Types "HOL-Library.Product_Lexorder"
begin

text \<open>
  Byte strings and addresses as numbers: \<open>memcmp\<close>, the address order of
  \<^verbatim>\<open>src/core/stats.c\<close>, the value of a big-endian byte string, and how masks of leading bits act
  on that value.  The address ranges and the ranking both rest on these facts.
\<close>

text \<open>\<open>memcmp\<close> and the address order; \<open>AF_INET\<close> is smaller than \<open>AF_INET6\<close>.\<close>

fun memcmp :: "bytes \<Rightarrow> bytes \<Rightarrow> int" where
  "memcmp (x # xs) (y # ys) = (if x < y then -1 else if y < x then 1 else memcmp xs ys)"
| "memcmp _ _ = 0"

definition address_order :: "qn_addr \<Rightarrow> qn_addr \<Rightarrow> int" where
  "address_order a b = (case (a, b) of
      (V4 x, V4 y) \<Rightarrow> (if x < y then -1 else if x > y then 1 else 0)
    | (V6 x, V6 y) \<Rightarrow> memcmp x y
    | (V4 _, V6 _) \<Rightarrow> -1
    | (V6 _, V4 _) \<Rightarrow> 1)"

section \<open>Big-endian values\<close>

fun be_value :: "bytes \<Rightarrow> nat" where
  "be_value [] = 0"
| "be_value (x # xs) = unat x * 256 ^ length xs + be_value xs"

lemma be_value_less: "be_value xs < 256 ^ length xs"
proof (induction xs)
  case (Cons x xs)
  have "unat x + 1 \<le> 256" using unat_lt_size(1) [of x] by linarith
  then have le: "(unat x + 1) * 256 ^ length xs \<le> 256 * 256 ^ length xs" by (rule mult_le_mono1)
  have "be_value (x # xs) < (unat x + 1) * 256 ^ length xs" using Cons by simp
  also note le
  finally show ?case by simp
qed simp

lemma be_value_digits:
  assumes "length xs = length ys"
  shows "be_value (x # xs) < be_value (y # ys) \<longleftrightarrow> unat x < unat y \<or> x = y \<and> be_value xs < be_value ys"
    "be_value (x # xs) = be_value (y # ys) \<longleftrightarrow> x = y \<and> be_value xs = be_value ys"
proof -
  let ?B = "256 ^ length xs"
  have b: "be_value xs < ?B" "be_value ys < ?B" using be_value_less [of xs] be_value_less [of ys] assms by simp_all
  have lt: "unat u * ?B + be_value us < unat w * ?B + be_value ws"
    if "unat u < unat w" "be_value us < ?B" for u w us ws
  proof -
    have "unat u + 1 \<le> unat w" using that(1) by simp
    then have "(unat u + 1) * ?B \<le> unat w * ?B" by (rule mult_le_mono1)
    then show ?thesis using that(2) by simp
  qed
  show "be_value (x # xs) < be_value (y # ys) \<longleftrightarrow> unat x < unat y \<or> x = y \<and> be_value xs < be_value ys"
    using lt [of x y xs ys] lt [of y x ys xs] b assms
    by (cases "unat x" "unat y" rule: linorder_cases) (auto simp: unat_eq_iff)
  show "be_value (x # xs) = be_value (y # ys) \<longleftrightarrow> x = y \<and> be_value xs = be_value ys"
    using lt [of x y xs ys] lt [of y x ys xs] b assms
    by (cases "unat x" "unat y" rule: linorder_cases) (auto simp: unat_eq_iff)
qed

lemma memcmp_value:
  "length xs = length ys \<Longrightarrow> memcmp xs ys \<le> 0 \<longleftrightarrow> be_value xs \<le> be_value ys"
proof (induction xs ys rule: memcmp.induct)
  case (1 x xs y ys)
  then show ?case
    using be_value_digits [of ys xs y x] be_value_digits [of xs ys x y]
    by (auto simp: not_less [symmetric] word_less_nat_alt unat_eq_iff simp del: be_value.simps)
qed auto

definition addr_key :: "qn_addr \<Rightarrow> nat \<times> nat" where
  "addr_key a = (case a of V4 x \<Rightarrow> (0, unat x) | V6 b \<Rightarrow> (1, be_value b))"

lemma address_order_key:
  "addr_ok a \<Longrightarrow> addr_ok b \<Longrightarrow> address_order a b \<le> 0 \<longleftrightarrow> addr_key a \<le> addr_key b"
  by (cases a; cases b) (auto simp: address_order_def addr_key_def addr_ok_def memcmp_value word_less_nat_alt)

lemma be_value_inj: "length xs = length ys \<Longrightarrow> be_value xs = be_value ys \<longleftrightarrow> xs = ys"
proof (induction xs ys rule: list_induct2')
  case (4 x xs y ys)
  then show ?case using be_value_digits(2) [of xs ys x y] by simp
qed auto

lemma be_value_snoc: "be_value (xs @ [x]) = be_value xs * 256 + unat x"
  by (induction xs) (simp_all add: algebra_simps)

section \<open>Leading bits\<close>

text \<open>\<open>masked k xs\<close> keeps the first \<open>k\<close> bits of a byte string.\<close>

fun masked :: "nat \<Rightarrow> bytes \<Rightarrow> bytes" where
  "masked k [] = []"
| "masked k (x # xs) = (if 8 \<le> k then x else x AND push_bit (8 - k) 0xFF) # masked (k - 8) xs"

lemma length_masked [simp]: "length (masked k xs) = length xs"
  by (induction xs arbitrary: k) simp_all

lemma masked_nth:
  "i < length xs \<Longrightarrow> masked k xs ! i = (if 8 \<le> k - 8 * i then xs ! i else xs ! i AND push_bit (8 - (k - 8 * i)) 0xFF)"
proof (induction xs arbitrary: k i)
  case (Cons x xs)
  then show ?case by (cases i) (auto simp: algebra_simps)
qed simp

lemma and_high_mask: "unat (x AND push_bit k (- 1)) = unat x div 2 ^ k * 2 ^ k" if "k < LENGTH('a)" for x :: "'a::len word"
proof -
  have "x AND push_bit k (- 1) = push_bit k (drop_bit k x)"
    by (rule bit_word_eqI) (auto simp: bit_simps)
  moreover have "unat (push_bit k (drop_bit k x)) = unat x div 2 ^ k * 2 ^ k"
  proof -
    have "unat x div 2 ^ k * 2 ^ k \<le> unat x" by simp
    then have "unat x div 2 ^ k * 2 ^ k < 2 ^ LENGTH('a)" by (rule le_less_trans) simp
    then show ?thesis
      by (simp only: unsigned_push_bit_eq unsigned_drop_bit_eq)
        (simp add: push_bit_eq_mult drop_bit_eq_div take_bit_nat_eq_self)
  qed
  ultimately show ?thesis by simp
qed

lemma byte_mask: "unat (x AND push_bit k 0xFF) = unat x div 2 ^ k * 2 ^ k" if "k \<le> 8" for x :: u8
proof (cases "k = 8")
  case True
  have "push_bit 8 (0xFF :: u8) = 0" by (rule bit_word_eqI) (simp only: bit_push_bit_iff, simp)
  then have "x AND push_bit k 0xFF = 0" using True by (simp only: and_zero_eq)
  then show ?thesis using True unat_lt_size(1) [of x] by simp
next
  case False
  have "(0xFF :: u8) = - 1" by simp
  moreover have "unat (x AND push_bit k (- 1)) = unat x div 2 ^ k * 2 ^ k"
    by (rule and_high_mask) (use that False in simp)
  ultimately show ?thesis by (simp only:)
qed

lemma be_value_masked: "be_value (masked k xs) = be_value xs div 2 ^ (8 * length xs - k) * 2 ^ (8 * length xs - k)"
proof (induction xs arbitrary: k)
  case (Cons x xs)
  let ?m = "length xs" let ?v = "be_value xs"
  have B: "(256::nat) ^ ?m = 2 ^ (8 * ?m)" by (simp add: power_mult)
  have v: "?v < 2 ^ (8 * ?m)" using be_value_less [of xs] B by simp
  show ?case
  proof (cases "8 \<le> k")
    case True
    let ?e = "8 * ?m - (k - 8)"
    have "(2::nat) ^ ?e dvd 2 ^ (8 * ?m)" by (simp add: le_imp_power_dvd)
    then obtain c where c: "(2::nat) ^ (8 * ?m) = 2 ^ ?e * c" by blast
    have e: "8 * length (x # xs) - k = ?e" using True by simp
    have "be_value (x # xs) = ?v + unat x * c * 2 ^ ?e" using B c by (simp only: be_value.simps ac_simps)
    then have "be_value (x # xs) div 2 ^ ?e = unat x * c + ?v div 2 ^ ?e" by (simp only: div_mult_self1) simp
    then have "be_value (x # xs) div 2 ^ ?e * 2 ^ ?e = unat x * 2 ^ (8 * ?m) + ?v div 2 ^ ?e * 2 ^ ?e"
      using c by (simp add: algebra_simps)
    then show ?thesis using True Cons [of "k - 8"] B e by simp
  next
    case False
    have e: "8 * length (x # xs) - k = (8 - k) + 8 * ?m" using False by simp
    have "be_value (x # xs) div 2 ^ ((8 - k) + 8 * ?m) = unat x div 2 ^ (8 - k)"
      using v B by (simp add: power_add mult.commute [of "2 ^ (8 - k)"] div_mult2_eq)
    moreover have "be_value (masked (k - 8) xs) = 0" using Cons [of "k - 8"] False v by simp
    ultimately show ?thesis
      unfolding e using False byte_mask [of "8 - k" x] B by (simp only: power_add masked.simps be_value.simps if_False length_masked)
  qed
qed simp

text \<open>A bit-by-bit comparison of the first \<open>k\<close> bits.\<close>

lemma byte_agree:
  "(\<forall>j<k. x AND drop_bit j 0x80 = y AND drop_bit j 0x80) \<longleftrightarrow> x AND push_bit (8 - k) 0xFF = y AND push_bit (8 - k) 0xFF"
  if "k \<le> 8" for x y :: u8
proof -
  have f: "(0xFF :: u8) = - 1" by simp
  have d: "drop_bit j (0x80 :: u8) = push_bit (7 - j) 1" if "j < 8" for j
  proof -
    have "j \<in> {0, 1, 2, 3, 4, 5, 6, 7}" using that by auto
    then show ?thesis by auto
  qed
  have a: "x AND drop_bit j 0x80 = y AND drop_bit j 0x80 \<longleftrightarrow> (bit x (7 - j) \<longleftrightarrow> bit y (7 - j))" if "j < 8" for j
    using that by (subst bit_eq_iff) (auto simp: bit_simps d dest!: spec [of _ "7 - j"])
  have b: "x AND push_bit (8 - k) 0xFF = y AND push_bit (8 - k) 0xFF \<longleftrightarrow> (\<forall>n<8. 8 - k \<le> n \<longrightarrow> (bit x n \<longleftrightarrow> bit y n))"
    unfolding f by (subst bit_eq_iff) (auto simp: bit_simps)
  have "(\<forall>j<k. bit x (7 - j) \<longleftrightarrow> bit y (7 - j)) \<longleftrightarrow> (\<forall>n<8. 8 - k \<le> n \<longrightarrow> (bit x n \<longleftrightarrow> bit y n))"
  proof safe
    fix n
    assume "\<forall>j<k. bit x (7 - j) \<longleftrightarrow> bit y (7 - j)" "n < 8" "8 - k \<le> n"
    moreover from this have "7 - n < k" "7 - (7 - n) = n" using that by auto
    ultimately show "bit x n \<Longrightarrow> bit y n" "bit y n \<Longrightarrow> bit x n" by metis+
  qed (use that in auto)
  then show ?thesis using a b that by auto
qed

lemma bits_agree:
  assumes "length xs = length ys" "k \<le> 8 * length xs"
  shows "(\<forall>b<k. xs ! (b div 8) AND drop_bit (b mod 8) 0x80 = ys ! (b div 8) AND drop_bit (b mod 8) 0x80) \<longleftrightarrow>
    masked k xs = masked k ys"
  using assms
proof (induction xs ys arbitrary: k rule: list_induct2)
  case (Cons x xs y ys)
  have ff: "x AND 0xFF = x" for x :: u8
  proof -
    have "(0xFF :: u8) = - 1" by simp
    then show ?thesis by (simp only: and.right_neutral)
  qed
  have lo: "(\<forall>b<k. P b) \<longleftrightarrow> (\<forall>b<min k 8. P b) \<and> (\<forall>b<k - 8. P (b + 8))" for P
  proof safe
    fix b
    assume "\<forall>b<min k 8. P b" "\<forall>b<k - 8. P (b + 8)" "b < k"
    then show "P b" by (cases "b < 8") (auto dest: spec [of _ "b - 8"])
  qed auto
  have "(\<forall>b<min k 8. (x # xs) ! (b div 8) AND drop_bit (b mod 8) 0x80 = (y # ys) ! (b div 8) AND drop_bit (b mod 8) 0x80)
      \<longleftrightarrow> (\<forall>b<min k 8. x AND drop_bit b 0x80 = y AND drop_bit b 0x80)" by simp
  also have "\<dots> \<longleftrightarrow> x AND push_bit (8 - min k 8) 0xFF = y AND push_bit (8 - min k 8) 0xFF"
    by (rule byte_agree) simp
  also have "\<dots> \<longleftrightarrow> (if 8 \<le> k then x else x AND push_bit (8 - k) 0xFF) = (if 8 \<le> k then y else y AND push_bit (8 - k) 0xFF)"
    using ff by (simp add: min_def)
  finally show ?case
    using Cons by (subst lo) (simp add: div_add_self2)
qed simp

end
