(* ===== verification/Cidr.thy ===== *)
theory Cidr
  imports Bytes
begin

text \<open>
  Address ranges, \<^verbatim>\<open>src/core/cidr.c\<close>: prefixes, the set of target prefixes, its normalization
  (sort, drop contained prefixes, merge siblings) and the map from an index to an address.
  A prefix has the family of its network address; the C type stores the family a second time
  and \<open>qn_cidr_set_add\<close> refuses a prefix where the two differ.  The array \<open>v\<close> with its length
  \<open>n\<close> is a list; the prefix sums are absent while the array for them is not allocated.
\<close>

abbreviation QN_V6_SPAN_CAP :: nat where "QN_V6_SPAN_CAP \<equiv> 1048576"

record qn_prefix =
  px_net :: qn_addr
  px_bits :: nat
  px_count :: nat

record qn_cidr_set =
  cs_v :: "qn_prefix list"
  cs_cap :: nat
  cs_cumsum :: "nat list option"
  cs_total :: nat
  cs_skip_edges :: bool

definition qn_prefix_hosts :: "qn_prefix \<Rightarrow> nat" where
  "qn_prefix_hosts p = (case px_net p of
      V4 _ \<Rightarrow> if px_bits p > 32 then 0 else if px_bits p \<ge> 32 then 1 else 2 ^ (32 - px_bits p)
    | V6 _ \<Rightarrow> if px_bits p > 128 then 0 else if px_bits p = 128 then 1
              else if 128 - px_bits p \<ge> 20 then QN_V6_SPAN_CAP else 2 ^ (128 - px_bits p))"

definition prefix_has_edges :: "qn_prefix \<Rightarrow> bool" where
  "prefix_has_edges p = (case px_net p of V4 _ \<Rightarrow> px_bits p < 31 | V6 _ \<Rightarrow> False)"

definition qn_prefix_usable :: "qn_prefix \<Rightarrow> bool \<Rightarrow> nat" where
  "qn_prefix_usable p skip_edges =
     (let n = qn_prefix_hosts p in if n \<noteq> 0 \<and> skip_edges \<and> prefix_has_edges p then n - 2 else n)"

definition mask_v6 :: "bytes \<Rightarrow> nat \<Rightarrow> bytes" where
  "mask_v6 b bits = map (\<lambda>i. let lo = i * 8 in
      if lo + 8 \<le> bits then b ! i
      else if lo \<ge> bits then 0
      else b ! i AND push_bit (8 - (bits - lo)) 0xFF) [0..<16]"

definition mask_v4 :: "nat \<Rightarrow> u32" where
  "mask_v4 bits = (if bits \<noteq> 0 then push_bit (32 - bits) 0xFFFFFFFF else 0)"

text \<open>The end of \<open>qn_cidr_parse\<close>: the prefix of an address and a length that fits its family.\<close>

definition prefix_of :: "qn_addr \<Rightarrow> nat \<Rightarrow> qn_prefix" where
  "prefix_of a bits =
     (let net = (case a of V4 x \<Rightarrow> V4 (if bits \<noteq> 0 then x AND mask_v4 bits else 0) | V6 b \<Rightarrow> V6 (mask_v6 b bits));
          p = \<lparr>px_net = net, px_bits = bits, px_count = 0\<rparr>
      in p\<lparr>px_count := qn_prefix_hosts p\<rparr>)"

text \<open>\<open>alloc\<close> says whether the arena has room for that many prefixes.\<close>

definition qn_cidr_set_init :: "(nat \<Rightarrow> bool) \<Rightarrow> nat \<Rightarrow> qn_cidr_set option" where
  "qn_cidr_set_init alloc cap =
     (if cap = 0 \<or> \<not> alloc cap then None
      else Some \<lparr>cs_v = [], cs_cap = cap, cs_cumsum = None, cs_total = 0, cs_skip_edges = False\<rparr>)"

definition qn_cidr_set_skip_edges :: "qn_cidr_set \<Rightarrow> bool \<Rightarrow> qn_cidr_set" where
  "qn_cidr_set_skip_edges s skip = s\<lparr>cs_skip_edges := skip\<rparr>"

definition qn_cidr_set_add :: "qn_cidr_set \<Rightarrow> qn_prefix \<Rightarrow> qn_cidr_set option" where
  "qn_cidr_set_add s p =
     (if length (cs_v s) \<ge> cs_cap s \<or> px_count p = 0 \<or> px_count p \<noteq> qn_prefix_hosts p then None
      else if (case px_net p of V4 x \<Rightarrow> x AND mask_v4 (px_bits p) \<noteq> x | V6 b \<Rightarrow> mask_v6 b (px_bits p) \<noteq> b) then None
      else Some (s\<lparr>cs_v := cs_v s @ [p]\<rparr>))"

definition prefix_cmp :: "qn_prefix \<Rightarrow> qn_prefix \<Rightarrow> int" where
  "prefix_cmp a b =
     (let by_bits = (if px_bits a > px_bits b then 1 else 0) - (if px_bits a < px_bits b then 1 else 0) in
      case (px_net a, px_net b) of
        (V4 x, V4 y) \<Rightarrow> if x \<noteq> y then (if x < y then -1 else 1) else by_bits
      | (V6 x, V6 y) \<Rightarrow> (let c = memcmp x y in if c \<noteq> 0 then c else by_bits)
      | (V4 _, V6 _) \<Rightarrow> -1
      | (V6 _, V4 _) \<Rightarrow> 1)"

definition prefix_contains :: "qn_prefix \<Rightarrow> qn_prefix \<Rightarrow> bool" where
  "prefix_contains outer inner =
     (case (px_net outer, px_net inner) of
        (V4 x, V4 y) \<Rightarrow> px_bits outer \<le> px_bits inner \<and> y AND mask_v4 (px_bits outer) = x
      | (V6 x, V6 y) \<Rightarrow> px_bits outer \<le> px_bits inner \<and>
          list_all (\<lambda>b. x ! (b div 8) AND drop_bit (b mod 8) 0x80 = y ! (b div 8) AND drop_bit (b mod 8) 0x80)
            [0..<px_bits outer]
      | _ \<Rightarrow> False)"

definition merge_siblings :: "qn_prefix \<Rightarrow> qn_prefix \<Rightarrow> qn_prefix option" where
  "merge_siblings a b =
     (let sealed = (\<lambda>p. p\<lparr>px_count := qn_prefix_hosts p\<rparr>) in
      case (px_net a, px_net b) of
        (V4 x, V4 y) \<Rightarrow>
          (if px_bits a = 0 \<or> px_bits a \<noteq> px_bits b then None
           else (let block = 2 ^ (32 - px_bits a) in
                 if unat x + block \<noteq> unat y \<or> unat x mod (block * 2) \<noteq> 0 then None
                 else Some (sealed (a\<lparr>px_bits := px_bits a - 1\<rparr>))))
      | (V6 x, V6 y) \<Rightarrow>
          (if px_bits a = 0 \<or> px_bits a \<noteq> px_bits b then None
           else if 128 - px_bits a \<ge> 20 then None
           else (let pa = mask_v6 x (px_bits a - 1); pb = mask_v6 y (px_bits b - 1) in
                 if memcmp x y = 0 \<or> memcmp pa pb \<noteq> 0 then None
                 else Some (sealed (a\<lparr>px_net := V6 pa, px_bits := px_bits a - 1\<rparr>))))
      | _ \<Rightarrow> None)"

text \<open>\<open>qsort\<close> on a comparison function; entries that compare equal are equal here.\<close>

fun insort_cmp :: "('a \<Rightarrow> 'a \<Rightarrow> int) \<Rightarrow> 'a \<Rightarrow> 'a list \<Rightarrow> 'a list" where
  "insort_cmp cmp x [] = [x]"
| "insort_cmp cmp x (y # ys) = (if cmp x y \<le> 0 then x # y # ys else y # insort_cmp cmp x ys)"

definition qsort :: "('a \<Rightarrow> 'a \<Rightarrow> int) \<Rightarrow> 'a list \<Rightarrow> 'a list" where
  "qsort cmp xs = foldr (insort_cmp cmp) xs []"

text \<open>
  The output part of the array is a stack, its top first.  \<open>merge_back\<close> is the inner loop of
  \<open>normalize_prefixes\<close> and \<open>normalize_step\<close> one round of the outer.
\<close>

definition top_contains :: "qn_prefix list \<Rightarrow> qn_prefix \<Rightarrow> bool" where
  "top_contains out cur = (case out of [] \<Rightarrow> False | prev # _ \<Rightarrow> prefix_contains prev cur)"

fun merge_back :: "bool \<Rightarrow> qn_prefix list \<Rightarrow> qn_prefix \<Rightarrow> qn_prefix list \<times> qn_prefix" where
  "merge_back skip [] cur = ([], cur)"
| "merge_back skip (prev # out) cur =
     (if skip then (prev # out, cur)
      else (case merge_siblings prev cur of
              None \<Rightarrow> (prev # out, cur)
            | Some merged \<Rightarrow> if top_contains out merged then (out, merged) else merge_back skip out merged))"

definition normalize_step :: "bool \<Rightarrow> qn_prefix \<Rightarrow> qn_prefix list \<Rightarrow> qn_prefix list" where
  "normalize_step skip cur out =
     (if top_contains out cur then out
      else (let (out', cur') = merge_back skip out cur in if top_contains out' cur' then out' else cur' # out'))"

definition normalize_prefixes :: "qn_cidr_set \<Rightarrow> qn_cidr_set" where
  "normalize_prefixes s =
     (let v = (if length (cs_v s) > 1 then qsort prefix_cmp (cs_v s) else cs_v s)
      in s\<lparr>cs_v := rev (fold (normalize_step (cs_skip_edges s)) v [])\<rparr>)"

text \<open>The loop of \<open>qn_cidr_set_seal\<close>: the prefix sums, and the total unless it overflows.\<close>

fun seal_sums :: "bool \<Rightarrow> qn_prefix list \<Rightarrow> nat \<Rightarrow> nat list \<times> nat option" where
  "seal_sums skip [] acc = ([], Some acc)"
| "seal_sums skip (p # ps) acc =
     (let add = qn_prefix_usable p skip in
      if UINT64_MAX - acc < add then ([], None)
      else (case seal_sums skip ps (acc + add) of (sums, t) \<Rightarrow> ((acc + add) # sums, t)))"

definition qn_cidr_set_seal :: "(nat \<Rightarrow> bool) \<Rightarrow> qn_cidr_set \<Rightarrow> qn_cidr_set" where
  "qn_cidr_set_seal alloc s0 =
     (let s = normalize_prefixes s0; n = length (cs_v s) in
      if \<not> alloc (if n \<noteq> 0 then n else 1) then s\<lparr>cs_cumsum := None, cs_total := 0\<rparr>
      else (case seal_sums (cs_skip_edges s) (cs_v s) 0 of (sums, t) \<Rightarrow>
              s\<lparr>cs_cumsum := Some sums, cs_total := (case t of None \<Rightarrow> 0 | Some acc \<Rightarrow> acc)\<rparr>))"

function sum_search :: "nat list \<Rightarrow> nat \<Rightarrow> nat \<Rightarrow> nat \<Rightarrow> nat" where
  "sum_search sums idx lo hi =
     (if lo < hi
      then (let mid = lo + (hi - lo) div 2 in
            if sums ! mid > idx then sum_search sums idx lo mid else sum_search sums idx (mid + 1) hi)
      else lo)"
  by pat_completeness auto
termination by (relation "measure (\<lambda>(sums, idx, lo, hi). hi - lo)") auto

declare sum_search.simps [simp del]

text \<open>The carry loop of \<open>qn_cidr_set_nth\<close>, last byte first.\<close>

fun add_carry :: "bytes \<Rightarrow> nat \<Rightarrow> bytes" where
  "add_carry [] idx = []"
| "add_carry (b # bs) idx =
     (if idx = 0 then b # bs
      else (let sum = unat b + idx mod 256 in word_of_nat sum # add_carry bs (idx div 256 + sum div 256)))"

definition prefix_nth :: "bool \<Rightarrow> qn_prefix \<Rightarrow> nat \<Rightarrow> qn_addr" where
  "prefix_nth skip p idx = (case px_net p of
      V4 x \<Rightarrow> V4 (x + word_of_nat idx + (if skip \<and> prefix_has_edges p then 1 else 0))
    | V6 b \<Rightarrow> V6 (rev (add_carry (rev b) idx)))"

definition qn_cidr_set_nth :: "qn_cidr_set \<Rightarrow> nat \<Rightarrow> qn_addr option" where
  "qn_cidr_set_nth s idx = (case cs_cumsum s of
      None \<Rightarrow> None
    | Some sums \<Rightarrow>
        if idx \<ge> cs_total s then None
        else (let lo = sum_search sums idx 0 (length (cs_v s) - 1);
                  base = (if lo \<noteq> 0 then sums ! (lo - 1) else 0)
              in Some (prefix_nth (cs_skip_edges s) (cs_v s ! lo) (idx - base))))"

end
