(* ===== verification/Cidr_Enum.thy ===== *)
theory Cidr_Enum
  imports Cidr
begin

text \<open>
  What \<^verbatim>\<open>src/core/cidr.c\<close> promises: a prefix denotes an aligned interval of addresses, normalization
  keeps the union of the intervals and makes them disjoint, and the index map of a sealed set
  hits every usable address exactly once.
\<close>

section \<open>Prefixes as intervals\<close>

definition px_fam :: "qn_prefix \<Rightarrow> nat" where "px_fam p = fst (addr_key (px_net p))"
definition px_start :: "qn_prefix \<Rightarrow> nat" where "px_start p = snd (addr_key (px_net p))"
definition px_width :: "qn_prefix \<Rightarrow> nat" where "px_width p = (case px_net p of V4 _ \<Rightarrow> 32 | V6 _ \<Rightarrow> 128)"
definition px_size :: "qn_prefix \<Rightarrow> nat" where "px_size p = 2 ^ (px_width p - px_bits p)"
definition span :: "qn_prefix \<Rightarrow> (nat \<times> nat) set" where
  "span p = {px_fam p} \<times> {px_start p..<px_start p + px_size p}"

definition prefix_ok :: "qn_prefix \<Rightarrow> bool" where
  "prefix_ok p \<longleftrightarrow> addr_ok (px_net p) \<and> px_bits p \<le> px_width p \<and> px_count p = qn_prefix_hosts p \<and>
     (case px_net p of V4 x \<Rightarrow> x AND mask_v4 (px_bits p) = x | V6 b \<Rightarrow> mask_v6 b (px_bits p) = b)"

lemma mask_v6_masked: "length b = 16 \<Longrightarrow> mask_v6 b k = masked k b"
proof (intro nth_equalityI)
  fix i
  assume l: "length b = 16" and "i < length (mask_v6 b k)"
  then have i: "i < 16" by (simp add: mask_v6_def)
  have z: "(push_bit 8 0xFF :: u8) = 0" by (rule bit_word_eqI) (simp only: bit_push_bit_iff, simp)
  have "mask_v6 b k ! i = (if i * 8 + 8 \<le> k then b ! i else if k \<le> i * 8 then 0 else b ! i AND push_bit (8 - (k - i * 8)) 0xFF)"
    using i by (simp add: mask_v6_def Let_def)
  moreover have "(8 \<le> k - 8 * i) = (i * 8 + 8 \<le> k)" by auto
  then have "masked k b ! i = (if i * 8 + 8 \<le> k then b ! i else b ! i AND push_bit (8 - (k - i * 8)) 0xFF)"
    using i l masked_nth [of i b k] by (simp only: mult.commute [of 8])
  moreover have "k \<le> i * 8 \<Longrightarrow> push_bit (8 - (k - i * 8)) 0xFF = (0 :: u8)" using z by (simp only: diff_is_0_eq' diff_zero)
  ultimately show "mask_v6 b k ! i = masked k b ! i"
    by (cases "k \<le> i * 8"; cases "i * 8 + 8 \<le> k") (simp_all only: if_True if_False and_zero_eq simp_thms)
qed (simp add: mask_v6_def)

lemma mask_v6_value: "length b = 16 \<Longrightarrow> be_value (mask_v6 b k) = be_value b div 2 ^ (128 - k) * 2 ^ (128 - k)"
  by (simp add: mask_v6_masked be_value_masked)

lemma mask_v4_value: "k \<le> 32 \<Longrightarrow> unat (x AND mask_v4 k) = unat x div 2 ^ (32 - k) * 2 ^ (32 - k)"
proof (cases "k = 0")
  case False
  assume "k \<le> 32"
  have "(0xFFFFFFFF :: u32) = - 1" by simp
  moreover have "unat (x AND push_bit (32 - k) (- 1)) = unat x div 2 ^ (32 - k) * 2 ^ (32 - k)"
    by (rule and_high_mask) (use False in simp)
  ultimately show ?thesis using False by (simp only: mask_v4_def if_True not_False_eq_True)
qed (simp add: mask_v4_def)

lemma masked_length [simp]: "length (mask_v6 b k) = 16" by (simp add: mask_v6_def)

lemma ok_aligned:
  assumes "prefix_ok p"
  shows "px_start p div px_size p * px_size p = px_start p" "px_start p < 2 ^ px_width p"
proof -
  show "px_start p div px_size p * px_size p = px_start p"
    using assms mask_v4_value mask_v6_value
    by (auto simp: prefix_ok_def px_start_def px_size_def px_width_def addr_key_def addr_ok_def unat_eq_iff
        split: qn_addr.splits) (metis mask_v6_value)+
  show "px_start p < 2 ^ px_width p"
  proof (cases "px_net p")
    case (V4 x)
    then show ?thesis using unat_lt_size(3) [of x] by (simp add: px_start_def addr_key_def px_width_def)
  next
    case (V6 b)
    then show ?thesis
      using be_value_less [of b] assms by (simp add: px_start_def addr_key_def px_width_def prefix_ok_def addr_ok_def)
  qed
qed

lemma contains_iff:
  assumes "prefix_ok a" "prefix_ok b"
  shows "prefix_contains a b \<longleftrightarrow>
    px_fam a = px_fam b \<and> px_bits a \<le> px_bits b \<and> px_start b div px_size a * px_size a = px_start a"
proof (cases "px_net a"; cases "px_net b")
  fix x y
  assume n: "px_net a = V4 x" "px_net b = V4 y"
  have "px_bits a \<le> 32" using assms(1) n by (simp add: prefix_ok_def px_width_def)
  then have "(y AND mask_v4 (px_bits a) = x) \<longleftrightarrow> px_start b div px_size a * px_size a = px_start a"
    using mask_v4_value [of "px_bits a" y] n by (simp add: unat_eq_iff px_start_def px_size_def px_width_def addr_key_def)
  then show ?thesis using n by (simp add: prefix_contains_def px_fam_def addr_key_def)
next
  fix x y
  assume n: "px_net a = V6 x" "px_net b = V6 y"
  have l: "length x = 16" "length y = 16" and k: "px_bits a \<le> 128"
    using assms n by (auto simp: prefix_ok_def px_width_def addr_ok_def)
  have x: "masked (px_bits a) x = x" using assms(1) n l mask_v6_masked by (simp add: prefix_ok_def)
  have "list_all (\<lambda>b. x ! (b div 8) AND drop_bit (b mod 8) 0x80 = y ! (b div 8) AND drop_bit (b mod 8) 0x80) [0..<px_bits a]
      \<longleftrightarrow> masked (px_bits a) y = x"
    using bits_agree [of x y "px_bits a"] l k x by (auto simp: list_all_iff)
  also have "\<dots> \<longleftrightarrow> px_start b div px_size a * px_size a = px_start a"
    using be_value_inj [of "masked (px_bits a) y" x] be_value_masked [of "px_bits a" y] l n
    by (simp add: px_start_def px_size_def px_width_def addr_key_def)
  finally show ?thesis using n by (simp add: prefix_contains_def px_fam_def addr_key_def)
qed (auto simp: prefix_contains_def px_fam_def addr_key_def)

definition pkey :: "qn_prefix \<Rightarrow> nat \<times> nat \<times> nat" where "pkey p = (px_fam p, px_start p, px_bits p)"

lemma memcmp_zero: "length xs = length ys \<Longrightarrow> memcmp xs ys = 0 \<longleftrightarrow> xs = ys"
  by (induction xs ys rule: memcmp.induct) auto

lemma prefix_cmp_key:
  assumes "prefix_ok a" "prefix_ok b"
  shows "prefix_cmp a b \<le> 0 \<longleftrightarrow> pkey a \<le> pkey b"
proof (cases "px_net a"; cases "px_net b")
  fix x y
  assume n: "px_net a = V6 x" "px_net b = V6 y"
  have l: "length x = length y" using assms n by (simp add: prefix_ok_def addr_ok_def)
  show ?thesis using n memcmp_value [OF l] memcmp_zero [OF l] be_value_inj [OF l]
    by (auto simp: prefix_cmp_def pkey_def px_fam_def px_start_def addr_key_def Let_def)
qed (auto simp: prefix_cmp_def pkey_def px_fam_def px_start_def addr_key_def Let_def word_less_nat_alt unat_eq_iff)

lemma fam_width: "px_fam a = px_fam b \<Longrightarrow> px_width a = px_width b"
  by (auto simp: px_fam_def px_width_def addr_key_def split: qn_addr.splits)

lemma size_dvd: "px_fam a = px_fam b \<Longrightarrow> px_bits a \<le> px_bits b \<Longrightarrow> px_size b dvd px_size a"
  using fam_width [of a b] by (simp add: px_size_def le_imp_power_dvd)

lemma size_pos [simp]: "0 < px_size p" by (simp add: px_size_def)

lemma aligned_between: "0 < d \<Longrightarrow> d dvd a \<Longrightarrow> d dvd b \<Longrightarrow> a < b \<Longrightarrow> a + d \<le> (b::nat)"
  by (metis add.commute dvd_add_right_iff dvd_imp_le less_imp_add_positive add_le_cancel_left)

lemma ok_dvd: "prefix_ok p \<Longrightarrow> px_size p dvd px_start p"
  by (metis ok_aligned(1) dvd_triv_right)

lemma contains_span:
  assumes "prefix_ok a" "prefix_ok b" "prefix_contains a b"
  shows "span b \<subseteq> span a"
proof -
  have c: "px_fam a = px_fam b" "px_bits a \<le> px_bits b" "px_start b div px_size a * px_size a = px_start a"
    using assms contains_iff by auto
  obtain q where q: "px_size a = px_size b * q" using size_dvd [OF c(1,2)] by blast
  have "px_start b < px_start a + px_size a"
    using c(3) mod_less_divisor [of "px_size a" "px_start b"] div_mult_mod_eq [of "px_start b" "px_size a"] size_pos [of a] by linarith
  moreover have "px_size b dvd px_start a + px_size a" using ok_dvd [OF assms(1)] q by (auto intro: dvd_trans [of _ "px_size a"])
  ultimately have "px_start b + px_size b \<le> px_start a + px_size a"
    using aligned_between [OF _ ok_dvd [OF assms(2)]] by simp
  moreover have "px_start a \<le> px_start b" using c(3) by (metis div_times_less_eq_dividend)
  ultimately show ?thesis using c(1) by (auto simp: span_def)
qed

section \<open>Normalization\<close>

definition above :: "qn_prefix \<Rightarrow> qn_prefix \<Rightarrow> bool" where
  "above a b \<longleftrightarrow> px_fam a < px_fam b \<or> px_fam a = px_fam b \<and> px_start a + px_size a \<le> px_start b"

lemma above_disjoint: "above a b \<Longrightarrow> span a \<inter> span b = {}"
  by (auto simp: above_def span_def)

lemma span_sub_iff: "span b \<subseteq> span a \<longleftrightarrow>
    px_fam a = px_fam b \<and> px_start a \<le> px_start b \<and> px_start b + px_size b \<le> px_start a + px_size a"
proof
  assume s: "span b \<subseteq> span a"
  have "(px_fam b, px_start b) \<in> span b" "(px_fam b, px_start b + px_size b - 1) \<in> span b"
    using size_pos [of b] by (auto simp: span_def simp del: size_pos)
  then have "(px_fam b, px_start b) \<in> span a" "(px_fam b, px_start b + px_size b - 1) \<in> span a" using s by blast+
  then show "px_fam a = px_fam b \<and> px_start a \<le> px_start b \<and> px_start b + px_size b \<le> px_start a + px_size a"
    using size_pos [of b] by (auto simp: span_def)
qed (auto simp: span_def)

lemma above_span:
  assumes "above a b" "span b' \<subseteq> span b"
  shows "above a b'"
  using assms by (auto simp: above_def span_sub_iff)

lemma not_contained_above:
  assumes ok: "prefix_ok a" "prefix_ok b" "prefix_ok c" and sub: "span c \<subseteq> span a" and le: "pkey c \<le> pkey b"
    and nc: "\<not> prefix_contains a b"
  shows "above a b"
proof (rule ccontr)
  assume "\<not> above a b"
  have s: "px_fam a = px_fam c" "px_start a \<le> px_start c" "px_start c + px_size c \<le> px_start a + px_size a"
    using sub by (auto simp: span_sub_iff)
  have f: "px_fam a = px_fam b" and st: "px_start c \<le> px_start b"
    using le s \<open>\<not> above a b\<close> by (auto simp: pkey_def above_def)
  have lt: "px_start b < px_start a + px_size a" using \<open>\<not> above a b\<close> f by (auto simp: above_def)
  obtain q where q: "px_start a = px_size a * q" using ok_dvd [OF ok(1)] by blast
  show False
  proof (cases "px_bits a \<le> px_bits b")
    case True
    have "px_start b div px_size a = q"
      using lt q s st by (intro div_nat_eqI) (auto simp: mult.commute)
    then show False using nc contains_iff [OF ok(1,2)] f True q by (simp add: mult.commute)
  next
    case False
    then have "px_size a dvd px_size b" using size_dvd [of b a] f by simp
    then have "px_size a dvd px_start b" using ok_dvd [OF ok(2)] by (rule dvd_trans)
    then have "px_start b = px_start a"
      using aligned_between [OF _ ok_dvd [OF ok(1)], of "px_start b"] lt st s(2) size_pos [of a] by (cases "px_start a < px_start b") auto
    then have eq: "px_start c = px_start b" using st s by simp
    then have "px_bits c < px_bits a" using le False s(1) f by (auto simp: pkey_def)
    moreover have "px_width c = px_width a" using s(1) fam_width by metis
    moreover have "px_bits a \<le> px_width a" using ok(1) by (simp add: prefix_ok_def)
    ultimately have "px_size a < px_size c" unfolding px_size_def by (intro power_strict_increasing) auto
    then show False using s(3) eq \<open>px_start b = px_start a\<close> by simp
  qed
qed

lemma hosts_seal: "qn_prefix_hosts (p\<lparr>px_count := c\<rparr>) = qn_prefix_hosts p"
  by (cases "px_net p") (simp_all add: qn_prefix_hosts_def cong: if_cong)

lemma pow_pred: "0 < k \<Longrightarrow> k \<le> n \<Longrightarrow> (2::nat) ^ (n - (k - 1)) = 2 * 2 ^ (n - k)"
proof -
  assume "0 < k" "k \<le> n"
  then have "n - (k - 1) = Suc (n - k)" by simp
  then show ?thesis by simp
qed

lemma sibling_arith:
  assumes "0 < d" "d dvd a" "d dvd b" "a + d \<le> b" "b div (2 * d) = a div (2 * d)"
  shows "a = a div (2 * d) * (2 * d)" "b = a + (d::nat)"
proof -
  obtain i j where ij: "a = d * i" "b = d * j" using assms(2,3) by (auto elim!: dvdE)
  have "d * i < d * j" using assms(1,4) ij by linarith
  then have "i < j" by simp
  moreover have "j div 2 = i div 2" using assms(1,5) ij by (simp add: mult.commute [of 2])
  ultimately have "i = 2 * (i div 2)" "j = i + 1" by presburger+
  then have "i = i div 2 * 2" by simp
  then have "a = d * (i div 2 * 2)" using ij by metis
  moreover have "a div (2 * d) = i div 2" using assms(1) ij by (simp add: mult.commute [of 2])
  ultimately show "a = a div (2 * d) * (2 * d)" by simp
  show "b = a + d" using ij \<open>j = i + 1\<close> by simp
qed

lemma merge_siblings_span:
  assumes ok: "prefix_ok a" "prefix_ok b" and ab: "above a b" and m: "merge_siblings a b = Some m"
  shows "prefix_ok m \<and> px_fam m = px_fam a \<and> px_start m = px_start a \<and> span m = span a \<union> span b"
proof -
  let ?d = "px_size a"
  have "\<exists>q. px_start a = 2 * ?d * q \<and> px_start b = px_start a + ?d \<and> px_fam a = px_fam b \<and> px_size b = ?d \<and>
    px_size m = 2 * ?d \<and> px_start m = px_start a \<and> px_fam m = px_fam a \<and> prefix_ok m"
  proof (cases "px_net a"; cases "px_net b")
    fix x y
    assume n: "px_net a = V4 x" "px_net b = V4 y"
    have bits: "px_bits a \<noteq> 0" "px_bits b = px_bits a" "px_bits a \<le> 32"
      and st: "unat x + ?d = unat y" "unat x mod (2 * ?d) = 0"
      and me: "m = (a\<lparr>px_bits := px_bits a - 1, px_count := qn_prefix_hosts (a\<lparr>px_bits := px_bits a - 1\<rparr>)\<rparr>)"
      using m n ok(1) by (simp_all add: merge_siblings_def Let_def px_size_def px_width_def prefix_ok_def mult.commute [of 2] split: if_splits)
    have "(2::nat) ^ (32 - (px_bits a - 1)) = 2 * 2 ^ (32 - px_bits a)" using bits by (intro pow_pred) auto
    then have sz: "px_size m = 2 * ?d" using n by (simp add: me px_size_def px_width_def)
    obtain q where q: "unat x = 2 * ?d * q" using st(2) by auto
    have "unat (x AND mask_v4 (px_bits a - 1)) = unat x"
      using mask_v4_value [of "px_bits a - 1" x] bits(3) q sz n by (simp add: me px_size_def px_width_def)
    then have "prefix_ok m" using ok(1) n bits(3) by (simp add: prefix_ok_def me hosts_seal px_width_def unat_eq_iff addr_ok_def)
    then show ?thesis using n st q sz bits
      by (auto simp: px_start_def px_fam_def addr_key_def me px_size_def px_width_def)
  next
    fix x y
    assume n: "px_net a = V6 x" "px_net b = V6 y"
    have l: "length x = 16" "length y = 16" using ok n by (auto simp: prefix_ok_def addr_ok_def)
    let ?pa = "mask_v6 x (px_bits a - 1)"
    have bits: "px_bits a \<noteq> 0" "px_bits b = px_bits a" "px_bits a \<le> 128"
      and ms: "memcmp ?pa (mask_v6 y (px_bits a - 1)) = 0"
      and me: "m = (a\<lparr>px_net := V6 ?pa, px_bits := px_bits a - 1,
                    px_count := qn_prefix_hosts (a\<lparr>px_net := V6 ?pa, px_bits := px_bits a - 1\<rparr>)\<rparr>)"
      using m n ok(1) by (simp_all add: merge_siblings_def Let_def px_width_def prefix_ok_def split: if_splits)
    have D: "(2::nat) ^ (128 - (px_bits a - Suc 0)) = 2 * ?d"
      using bits n pow_pred [of "px_bits a" 128] by (simp add: px_size_def px_width_def)
    have sz: "px_size m = 2 * ?d" using D n by (simp add: me px_size_def px_width_def)
    have f: "px_fam a = px_fam b" "px_size b = ?d" using n bits by (simp_all add: px_fam_def addr_key_def px_size_def px_width_def)
    let ?q = "px_start a div (2 * ?d)"
    have "?q * (2 * ?d) = px_start b div (2 * ?d) * (2 * ?d)"
      using ms memcmp_zero [of ?pa] mask_v6_value [OF l(1), of "px_bits a - 1"] mask_v6_value [OF l(2), of "px_bits a - 1"] n
      by (auto simp: D px_start_def addr_key_def)
    then have q: "px_start b div (2 * ?d) = ?q" using size_pos [of a] by simp
    have lt: "px_start a + ?d \<le> px_start b" using ab f by (simp add: above_def)
    have dv: "?d dvd px_start a" "?d dvd px_start b" using ok_dvd [OF ok(1)] ok_dvd [OF ok(2)] f by auto
    have "px_start a = ?q * (2 * ?d)" "px_start b = px_start a + ?d"
      using sibling_arith [OF size_pos dv lt q] by simp_all
    moreover have pa: "be_value ?pa = ?q * (2 * ?d)"
      using mask_v6_value [OF l(1), of "px_bits a - 1"] n by (simp add: D px_start_def addr_key_def)
    moreover have "mask_v6 ?pa (px_bits a - 1) = ?pa"
      using be_value_inj [of "mask_v6 ?pa (px_bits a - 1)" ?pa] mask_v6_value [of ?pa "px_bits a - 1"] pa size_pos [of a]
      by (simp add: D)
    then have "prefix_ok m" using ok(1) n bits(3) by (simp add: prefix_ok_def me hosts_seal px_width_def addr_ok_def)
    ultimately show ?thesis using f sz n
      by (intro exI [of _ ?q]) (simp add: px_start_def px_fam_def addr_key_def me mult.commute)
  qed (use m in \<open>auto simp: merge_siblings_def Let_def\<close>)
  then show ?thesis by (auto simp: span_def)
qed

text \<open>The output stack, its last prefix first.\<close>

definition stack_ok :: "qn_prefix list \<Rightarrow> bool" where
  "stack_ok out \<longleftrightarrow> (\<forall>p \<in> set out. prefix_ok p) \<and> sorted_wrt (\<lambda>b a. above a b) out"

definition spans :: "qn_prefix list \<Rightarrow> (nat \<times> nat) set" where "spans ps = (\<Union>p \<in> set ps. span p)"

lemma top_contains_spans:
  "stack_ok out \<Longrightarrow> prefix_ok cur \<Longrightarrow> top_contains out cur \<Longrightarrow> out \<noteq> [] \<and> span cur \<subseteq> span (hd out) \<and> spans out \<union> span cur = spans out"
  using contains_span by (cases out) (auto simp: top_contains_def stack_ok_def spans_def)

lemma merge_back_ok:
  assumes "stack_ok (cur # out)" "merge_back skip out cur = (out', cur')"
  shows "stack_ok (cur' # out') \<and> spans (cur' # out') = spans (cur # out) \<and> span cur \<subseteq> span cur'"
  using assms
proof (induction skip out cur rule: merge_back.induct)
  case (2 skip prev out cur)
  show ?case
  proof (cases "skip \<or> merge_siblings prev cur = None")
    case True
    then have "out' = prev # out" "cur' = cur" using 2(3) by (auto split: if_splits)
    then show ?thesis using 2(2) by simp
  next
    case False
    then obtain m where m: "merge_siblings prev cur = Some m" by auto
    note ms = merge_siblings_span [OF _ _ _ m]
    have pm: "prefix_ok m" "px_fam m = px_fam prev" "px_start m = px_start prev" "span m = span prev \<union> span cur"
      using 2(2) ms by (auto simp: stack_ok_def)
    have st: "stack_ok (m # out)" using 2(2) pm by (auto simp: stack_ok_def above_def)
    have sp: "spans (m # out) = spans (cur # prev # out)" using pm(4) by (auto simp: spans_def)
    show ?thesis
    proof (cases "top_contains out m")
      case True
      then have "out' = out" "cur' = m" using 2(3) m False by auto
      then show ?thesis using st sp pm(4) by auto
    next
      case notc: False
      then have "merge_back skip out m = (out', cur')" using 2(3) m False by auto
      then show ?thesis using 2(1) [OF _ m notc st] False sp pm(4) by auto
    qed
  qed
qed auto

lemma normalize_step_ok:
  assumes st: "stack_ok out" and ok: "prefix_ok cur"
    and prev: "out \<noteq> [] \<Longrightarrow> \<exists>c. prefix_ok c \<and> span c \<subseteq> span (hd out) \<and> pkey c \<le> pkey cur"
  shows "stack_ok (normalize_step skip cur out) \<and> spans (normalize_step skip cur out) = spans out \<union> span cur \<and>
    normalize_step skip cur out \<noteq> [] \<and> span cur \<subseteq> span (hd (normalize_step skip cur out))"
proof (cases "top_contains out cur")
  case True
  then show ?thesis using top_contains_spans [OF st ok True] st by (auto simp: normalize_step_def)
next
  case False
  have "above a cur" if "a \<in> set out" for a
  proof -
    obtain p ps where o: "out = p # ps" using \<open>a \<in> set out\<close> by (cases out) auto
    have "above p cur"
      using prev False st ok not_contained_above [of p cur] by (auto simp: o stack_ok_def top_contains_def)
    then show ?thesis using that st by (auto simp: o stack_ok_def above_def)
  qed
  then have st': "stack_ok (cur # out)" using st ok by (auto simp: stack_ok_def)
  obtain out' cur' where mb: "merge_back skip out cur = (out', cur')" by force
  note m = merge_back_ok [OF st' mb]
  then have st2: "stack_ok out'" "prefix_ok cur'" by (auto simp: stack_ok_def)
  show ?thesis
  proof (cases "top_contains out' cur'")
    case True
    have "normalize_step skip cur out = out'" using True False mb by (simp add: normalize_step_def)
    moreover have "spans out' = spans out \<union> span cur"
      using m top_contains_spans [OF st2 True] by (simp add: spans_def Un_commute)
    ultimately show ?thesis using top_contains_spans [OF st2 True] m st2 by auto
  next
    case notc: False
    then show ?thesis using m False mb by (auto simp: normalize_step_def spans_def)
  qed
qed

lemma normalize_fold:
  assumes "stack_ok out" "\<forall>p \<in> set ps. prefix_ok p" "sorted (map pkey ps)"
    and "out \<noteq> [] \<Longrightarrow> \<exists>c. prefix_ok c \<and> span c \<subseteq> span (hd out) \<and> (\<forall>p \<in> set ps. pkey c \<le> pkey p)"
  shows "stack_ok (fold (normalize_step skip) ps out) \<and> spans (fold (normalize_step skip) ps out) = spans out \<union> spans ps"
  using assms
proof (induction ps arbitrary: out)
  case (Cons p ps)
  have ns: "stack_ok (normalize_step skip p out) \<and> spans (normalize_step skip p out) = spans out \<union> span p \<and>
    normalize_step skip p out \<noteq> [] \<and> span p \<subseteq> span (hd (normalize_step skip p out))"
    using Cons.prems by (intro normalize_step_ok) auto
  then have "stack_ok (fold (normalize_step skip) ps (normalize_step skip p out)) \<and>
      spans (fold (normalize_step skip) ps (normalize_step skip p out)) = spans (normalize_step skip p out) \<union> spans ps"
    using Cons.prems by (intro Cons.IH) auto
  then show ?case using ns by (auto simp: spans_def)
qed (simp add: spans_def)

lemma insort_cmp_key:
  assumes "\<forall>p \<in> set (x # xs). prefix_ok p"
  shows "insort_cmp prefix_cmp x xs = insort_key pkey x xs"
  using assms by (induction xs) (auto simp: prefix_cmp_key)

lemma qsort_key: "\<forall>p \<in> set xs. prefix_ok p \<Longrightarrow> qsort prefix_cmp xs = sort_key pkey xs"
proof (induction xs)
  case (Cons x xs)
  then have "qsort prefix_cmp (x # xs) = insort_cmp prefix_cmp x (sort_key pkey xs)" by (simp add: qsort_def)
  also have "\<dots> = insort_key pkey x (sort_key pkey xs)" using Cons.prems by (intro insort_cmp_key) simp
  finally show ?case by simp
qed (simp add: qsort_def)

lemma normalize_ok:
  assumes "\<forall>p \<in> set (cs_v s). prefix_ok p"
  shows "\<forall>p \<in> set (cs_v (normalize_prefixes s)). prefix_ok p" "sorted_wrt above (cs_v (normalize_prefixes s))"
    "spans (cs_v (normalize_prefixes s)) = spans (cs_v s)"
    "length (cs_v (normalize_prefixes s)) \<le> length (cs_v s)"
proof -
  let ?v = "if length (cs_v s) > 1 then qsort prefix_cmp (cs_v s) else cs_v s"
  have v: "?v = sort_key pkey (cs_v s)"
    using qsort_key [OF assms] by (cases "cs_v s" rule: remdups_adj.cases) (auto simp: qsort_def)
  let ?out = "fold (normalize_step (cs_skip_edges s)) ?v []"
  have "stack_ok ?out \<and> spans ?out = spans [] \<union> spans ?v"
    unfolding v using assms by (intro normalize_fold) (simp_all add: stack_ok_def)
  then have o: "stack_ok ?out" "spans ?out = spans (cs_v s)" using v by (auto simp: spans_def)
  have cv: "cs_v (normalize_prefixes s) = rev ?out" by (simp add: normalize_prefixes_def Let_def)
  show "\<forall>p \<in> set (cs_v (normalize_prefixes s)). prefix_ok p" using o cv by (simp add: stack_ok_def)
  show "sorted_wrt above (cs_v (normalize_prefixes s))" using o cv by (simp add: stack_ok_def sorted_wrt_rev)
  show "spans (cs_v (normalize_prefixes s)) = spans (cs_v s)" using o cv by (simp add: spans_def)
  have mb: "length (fst (merge_back skip out cur)) \<le> length out" for skip out cur
    by (induction skip out cur rule: merge_back.induct) (auto split: option.split)
  have step: "length (normalize_step skip cur out) \<le> Suc (length out)" for skip cur out
    using mb [of skip out cur] by (auto simp: normalize_step_def split: prod.split)
  have "length (fold (normalize_step skip) ps out) \<le> length out + length ps" for skip ps out
  proof (induction ps arbitrary: out)
    case (Cons p ps)
    show ?case using Cons [of "normalize_step skip p out"] step [of skip p out] by simp
  qed simp
  from this [of "cs_skip_edges s" ?v "[]"] show "length (cs_v (normalize_prefixes s)) \<le> length (cs_v s)"
    using cv v by simp
qed

section \<open>Index to address\<close>

fun le_value :: "bytes \<Rightarrow> nat" where
  "le_value [] = 0"
| "le_value (b # bs) = unat b + 256 * le_value bs"

lemma le_value_rev: "be_value xs = le_value (rev xs)"
proof (induction xs rule: rev_induct)
  case (snoc x xs)
  then show ?case by (simp add: be_value_snoc)
qed simp

lemma length_add_carry [simp]: "length (add_carry bs i) = length bs"
  by (induction bs i rule: add_carry.induct) (auto simp: Let_def)

lemma add_carry_value: "le_value bs + i < 256 ^ length bs \<Longrightarrow> le_value (add_carry bs i) = le_value bs + i"
proof (induction bs i rule: add_carry.induct)
  case (2 b bs i)
  let ?s = "unat b + i mod 256" let ?c = "i div 256 + ?s div 256"
  have s: "unat (word_of_nat ?s :: u8) = ?s mod 256" by (simp only: unsigned_of_nat take_bit_eq_mod) simp
  have sum: "unat b + i = ?s mod 256 + 256 * ?c"
    using mod_mult_div_eq [of i 256] mod_mult_div_eq [of ?s 256] by (simp add: distrib_left)
  have "le_value (b # bs) + i = ?s mod 256 + 256 * (le_value bs + ?c)" using sum by (simp add: distrib_left)
  then have "256 * (le_value bs + ?c) \<le> le_value (b # bs) + i" by linarith
  also have "\<dots> < 256 * 256 ^ length bs" using 2(2) by simp
  finally have "256 * (le_value bs + ?c) < 256 * 256 ^ length bs" .
  then have "i \<noteq> 0 \<Longrightarrow> le_value (add_carry bs ?c) = le_value bs + ?c" using 2(1) by simp
  then show ?case using s sum by (cases "i = 0") (simp_all add: Let_def)
qed simp

definition edge :: "bool \<Rightarrow> qn_prefix \<Rightarrow> nat" where
  "edge skip p = (if skip \<and> prefix_has_edges p then 1 else 0)"

text \<open>The addresses of a prefix that are enumerated.\<close>

definition hosts_of :: "bool \<Rightarrow> qn_prefix \<Rightarrow> (nat \<times> nat) set" where
  "hosts_of skip p = {px_fam p} \<times> {px_start p + edge skip p..<px_start p + edge skip p + qn_prefix_usable p skip}"

lemma hosts_le_size: "prefix_ok p \<Longrightarrow> 0 < qn_prefix_hosts p \<and> qn_prefix_hosts p \<le> px_size p"
proof (cases "px_net p")
  case (V6 b)
  assume ok: "prefix_ok p"
  have "QN_V6_SPAN_CAP \<le> 2 ^ (128 - px_bits p)" if "128 - px_bits p \<ge> 20"
    using power_increasing [OF that, of "2::nat"] by simp
  then show ?thesis using V6 ok by (auto simp: prefix_ok_def px_width_def qn_prefix_hosts_def px_size_def)
qed (auto simp: prefix_ok_def px_width_def qn_prefix_hosts_def px_size_def)

lemma usable_le: "prefix_ok p \<Longrightarrow> edge skip p + qn_prefix_usable p skip \<le> px_size p"
proof -
  assume ok: "prefix_ok p"
  have "2 \<le> qn_prefix_hosts p" if ed: "prefix_has_edges p"
  proof -
    obtain x where x: "px_net p = V4 x" "px_bits p < 31" using ed by (auto simp: prefix_has_edges_def split: qn_addr.splits)
    have "(2::nat) ^ 1 \<le> 2 ^ (32 - px_bits p)" using x(2) by (intro power_increasing) auto
    then show ?thesis using x by (simp add: qn_prefix_hosts_def)
  qed
  then show ?thesis using hosts_le_size [OF ok] by (auto simp: edge_def qn_prefix_usable_def Let_def)
qed

lemma hosts_of_sub: "prefix_ok p \<Longrightarrow> hosts_of skip p \<subseteq> span p"
  using usable_le [of p skip] by (auto simp: hosts_of_def span_def)

lemma usable_bound: "qn_prefix_usable p skip \<le> 2 ^ 32"
proof -
  have "(2::nat) ^ k \<le> 2 ^ 32" if "k \<le> 32" for k using that by (intro power_increasing) auto
  then have "qn_prefix_hosts p \<le> 2 ^ 32"
  proof -
    assume k: "\<And>k. k \<le> 32 \<Longrightarrow> (2::nat) ^ k \<le> 2 ^ 32"
    show ?thesis using k [of "32 - px_bits p"] k [of "128 - px_bits p"]
      by (auto simp: qn_prefix_hosts_def split: qn_addr.split)
  qed
  then show ?thesis by (auto simp: qn_prefix_usable_def Let_def)
qed

lemma aligned_end: "prefix_ok p \<Longrightarrow> px_start p + px_size p \<le> 2 ^ px_width p"
  using aligned_between [OF size_pos ok_dvd, of p "2 ^ px_width p"] ok_aligned(2) [of p]
  by (auto simp: px_size_def le_imp_power_dvd)

lemma prefix_nth_key:
  assumes ok: "prefix_ok p" and i: "i < qn_prefix_usable p skip"
  shows "addr_ok (prefix_nth skip p i) \<and> addr_key (prefix_nth skip p i) = (px_fam p, px_start p + edge skip p + i)"
proof -
  have lt: "px_start p + edge skip p + i < 2 ^ px_width p" using aligned_end [OF ok] usable_le [OF ok, of skip] i by linarith
  show ?thesis
  proof (cases "px_net p")
    case (V4 x)
    have st: "px_start p = unat x" "px_width p = 32" "px_fam p = 0" using V4 by (simp_all add: px_start_def px_width_def px_fam_def addr_key_def)
    have e: "unat (if skip \<and> prefix_has_edges p then 1 else 0 :: u32) = edge skip p" by (simp add: edge_def)
    have wi: "unat (word_of_nat i :: u32) = i" using lt st by (intro unat_word_of_nat) simp
    have "unat (x + word_of_nat i) = unat x + i" using lt st wi unat_add_u32 [of x "word_of_nat i"] by simp
    then have "unat (x + word_of_nat i + (if skip \<and> prefix_has_edges p then 1 else 0)) = unat x + i + edge skip p"
      using lt st e unat_add_u32 [of "x + word_of_nat i"] by simp
    then show ?thesis using V4 st by (simp add: prefix_nth_def addr_ok_def addr_key_def)
  next
    case (V6 b)
    have st: "px_start p = be_value b" "px_width p = 128" "px_fam p = 1" "length b = 16" "edge skip p = 0"
      using V6 ok by (simp_all add: px_start_def px_width_def px_fam_def addr_key_def prefix_ok_def addr_ok_def edge_def prefix_has_edges_def)
    have "be_value (rev (add_carry (rev b) i)) = be_value b + i"
      using lt st add_carry_value [of "rev b" i] by (simp add: le_value_rev)
    then show ?thesis using V6 st by (simp add: prefix_nth_def addr_ok_def addr_key_def)
  qed
qed

abbreviation usable_sum :: "bool \<Rightarrow> qn_prefix list \<Rightarrow> nat \<Rightarrow> nat" where
  "usable_sum skip ps k \<equiv> (\<Sum>p\<leftarrow>take k ps. qn_prefix_usable p skip)"

lemma seal_sums_eq:
  "acc + usable_sum skip ps (length ps) \<le> UINT64_MAX \<Longrightarrow>
   seal_sums skip ps acc = (map (\<lambda>k. acc + usable_sum skip ps (Suc k)) [0..<length ps], Some (acc + usable_sum skip ps (length ps)))"
proof (induction ps arbitrary: acc)
  case (Cons p ps)
  have "map (\<lambda>k. acc + usable_sum skip (p # ps) (Suc k)) [0..<Suc (length ps)] =
      (acc + qn_prefix_usable p skip) # map (\<lambda>k. acc + qn_prefix_usable p skip + usable_sum skip ps (Suc k)) [0..<length ps]"
    by (subst upt_conv_Cons, simp, subst map_Suc_upt [symmetric]) (simp add: ac_simps comp_def)
  then show ?case using Cons by (simp add: Let_def ac_simps)
qed simp

lemma sum_search_spec:
  assumes "lo \<le> hi" "hi < length sums" "idx < sums ! hi" "lo = 0 \<or> sums ! (lo - 1) \<le> idx"
  shows "sum_search sums idx lo hi \<le> hi \<and> idx < sums ! sum_search sums idx lo hi \<and>
    (sum_search sums idx lo hi = 0 \<or> sums ! (sum_search sums idx lo hi - 1) \<le> idx)"
  using assms
proof (induction "hi - lo" arbitrary: lo hi rule: less_induct)
  case less
  show ?case
  proof (cases "lo < hi")
    case True
    define m where "m = lo + (hi - lo) div 2"
    have m: "lo \<le> m" "m < hi" using True by (auto simp: m_def)
    have st: "sum_search sums idx lo hi = (if sums ! m > idx then sum_search sums idx lo m else sum_search sums idx (Suc m) hi)"
      using True by (subst sum_search.simps) (simp add: m_def Let_def)
    have d: "m - lo < hi - lo" "hi - Suc m < hi - lo" using m True by auto
    show ?thesis
      using less.hyps [OF d(1)] less.hyps [OF d(2)] less.prems m unfolding st
      by (cases "sums ! m > idx") (auto simp del: One_nat_def)
  next
    case False
    then show ?thesis using less.prems by (subst (1 2 3 4) sum_search.simps) auto
  qed
qed

text \<open>A set as \<open>qn_cidr_set_init\<close> and \<open>qn_cidr_set_add\<close> build it; its capacity is a 32-bit number.\<close>

definition cidr_set_ok :: "qn_cidr_set \<Rightarrow> bool" where
  "cidr_set_ok s \<longleftrightarrow> (\<forall>p \<in> set (cs_v s). prefix_ok p) \<and> length (cs_v s) \<le> cs_cap s \<and> cs_cap s < 2 ^ 32"

lemma set_init_ok: "qn_cidr_set_init alloc cap = Some s \<Longrightarrow> cap < 2 ^ 32 \<Longrightarrow> cidr_set_ok s"
  by (auto simp: qn_cidr_set_init_def cidr_set_ok_def split: if_splits)

lemma set_add_ok:
  assumes "cidr_set_ok s" "addr_ok (px_net p)" "qn_cidr_set_add s p = Some s'"
  shows "cidr_set_ok s'"
proof -
  have g: "length (cs_v s) < cs_cap s" "px_count p \<noteq> 0" "px_count p = qn_prefix_hosts p"
    "case px_net p of V4 x \<Rightarrow> x AND mask_v4 (px_bits p) = x | V6 b \<Rightarrow> mask_v6 b (px_bits p) = b"
    "s' = s\<lparr>cs_v := cs_v s @ [p]\<rparr>"
    using assms(3) by (auto simp: qn_cidr_set_add_def split: if_splits qn_addr.splits)
  have "px_bits p \<le> px_width p" using g(2,3) by (cases "px_net p") (auto simp: qn_prefix_hosts_def px_width_def split: if_splits)
  then have "prefix_ok p" using assms(2) g(3,4) by (simp add: prefix_ok_def)
  then show ?thesis using assms(1) g by (simp add: cidr_set_ok_def)
qed

lemma usable_total:
  assumes "length ps < 2 ^ 32"
  shows "usable_sum skip ps (length ps) \<le> UINT64_MAX"
proof -
  have "(\<Sum>p\<leftarrow>ps. qn_prefix_usable p skip) \<le> length ps * 2 ^ 32"
    using usable_bound by (induction ps) (auto intro: add_mono)
  also have "\<dots> \<le> (2 ^ 32 - 1) * 2 ^ 32" using assms by (intro mult_le_mono1) simp
  finally show ?thesis by simp
qed

lemma sealed_eq:
  assumes ok: "cidr_set_ok s0" and al: "alloc (if cs_v (normalize_prefixes s0) = [] then 1 else length (cs_v (normalize_prefixes s0)))"
    and s: "s = qn_cidr_set_seal alloc s0"
  shows "cs_v s = cs_v (normalize_prefixes s0)" "cs_skip_edges s = cs_skip_edges s0"
    "cs_cumsum s = Some (map (\<lambda>k. usable_sum (cs_skip_edges s) (cs_v s) (Suc k)) [0..<length (cs_v s)])"
    "cs_total s = usable_sum (cs_skip_edges s) (cs_v s) (length (cs_v s))"
proof -
  let ?n = "normalize_prefixes s0"
  have "length (cs_v ?n) < 2 ^ 32" using normalize_ok(4) [of s0] ok by (simp add: cidr_set_ok_def)
  then have ss: "seal_sums (cs_skip_edges ?n) (cs_v ?n) 0 = (map (\<lambda>k. usable_sum (cs_skip_edges ?n) (cs_v ?n) (Suc k)) [0..<length (cs_v ?n)],
      Some (usable_sum (cs_skip_edges ?n) (cs_v ?n) (length (cs_v ?n))))"
    using seal_sums_eq [of 0] usable_total by simp
  have sk: "cs_skip_edges ?n = cs_skip_edges s0" by (simp add: normalize_prefixes_def Let_def)
  have se: "s = ?n\<lparr>cs_cumsum := Some (map (\<lambda>k. usable_sum (cs_skip_edges ?n) (cs_v ?n) (Suc k)) [0..<length (cs_v ?n)]),
      cs_total := usable_sum (cs_skip_edges ?n) (cs_v ?n) (length (cs_v ?n))\<rparr>"
    using al ss by (auto simp: s qn_cidr_set_seal_def Let_def)
  show "cs_v s = cs_v ?n" "cs_skip_edges s = cs_skip_edges s0"
    "cs_cumsum s = Some (map (\<lambda>k. usable_sum (cs_skip_edges s) (cs_v s) (Suc k)) [0..<length (cs_v s)])"
    "cs_total s = usable_sum (cs_skip_edges s) (cs_v s) (length (cs_v s))"
    unfolding se using sk by simp_all
qed

lemma nth_at:
  assumes "cs_cumsum s = Some (map (\<lambda>k. usable_sum (cs_skip_edges s) (cs_v s) (Suc k)) [0..<length (cs_v s)])"
    and "cs_total s = usable_sum (cs_skip_edges s) (cs_v s) (length (cs_v s))" and i: "idx < cs_total s"
  shows "\<exists>k<length (cs_v s). usable_sum (cs_skip_edges s) (cs_v s) k \<le> idx \<and>
    idx - usable_sum (cs_skip_edges s) (cs_v s) k < qn_prefix_usable (cs_v s ! k) (cs_skip_edges s) \<and>
    qn_cidr_set_nth s idx = Some (prefix_nth (cs_skip_edges s) (cs_v s ! k) (idx - usable_sum (cs_skip_edges s) (cs_v s) k))"
proof -
  let ?S = "usable_sum (cs_skip_edges s) (cs_v s)" let ?n = "length (cs_v s)"
  let ?sums = "map (\<lambda>k. ?S (Suc k)) [0..<?n]"
  define k where "k = sum_search ?sums idx 0 (?n - 1)"
  have n: "0 < ?n" using assms(2) i by (cases "cs_v s") auto
  have "k \<le> ?n - 1 \<and> idx < ?sums ! k \<and> (k = 0 \<or> ?sums ! (k - 1) \<le> idx)"
    unfolding k_def using n i assms(2) by (intro sum_search_spec) auto
  moreover from this have "k < ?n" using n by linarith
  ultimately have k: "k < ?n" "idx < ?S (Suc k)" "k = 0 \<or> ?S k \<le> idx" by (cases k; simp)+
  have b: "(if k \<noteq> 0 then ?sums ! (k - 1) else 0) = ?S k" using k(1) by auto
  have "?S (Suc k) = ?S k + qn_prefix_usable (cs_v s ! k) (cs_skip_edges s)" using k(1) by (simp add: take_Suc_conv_app_nth)
  moreover have "?S k \<le> idx" using k(3) by auto
  moreover have "qn_cidr_set_nth s idx = Some (prefix_nth (cs_skip_edges s) (cs_v s ! k) (idx - ?S k))"
    using assms(1) i b by (simp add: qn_cidr_set_nth_def Let_def k_def [symmetric] del: One_nat_def)
  ultimately show ?thesis using k by (intro exI [of _ k]) auto
qed

lemma addr_key_inj: "addr_ok a \<Longrightarrow> addr_ok b \<Longrightarrow> addr_key a = addr_key b \<longleftrightarrow> a = b"
  by (cases a; cases b) (auto simp: addr_key_def addr_ok_def be_value_inj unat_eq_iff)

lemma usable_sum_mono: "i \<le> j \<Longrightarrow> usable_sum skip ps i \<le> usable_sum skip ps j"
proof -
  assume "i \<le> j"
  then have "take j ps = take i ps @ take (j - i) (drop i ps)" by (metis le_add_diff_inverse take_add)
  then show ?thesis by simp
qed

lemma usable_sum_unique:
  assumes "usable_sum skip ps k \<le> i" "i < usable_sum skip ps (Suc k)"
    and "usable_sum skip ps k' \<le> i" "i < usable_sum skip ps (Suc k')"
  shows "k = k'"
  using assms usable_sum_mono [of "Suc k" k' skip ps] usable_sum_mono [of "Suc k'" k skip ps]
  by (cases k k' rule: linorder_cases) auto

text \<open>The addresses that the sealed set \<open>s\<close> enumerates.\<close>

definition enumerated :: "qn_cidr_set \<Rightarrow> qn_addr set" where
  "enumerated s = {a. addr_ok a \<and> (\<exists>p \<in> set (cs_v s). addr_key a \<in> hosts_of (cs_skip_edges s) p)}"

lemma nth_bij:
  assumes cs: "cs_cumsum s = Some (map (\<lambda>k. usable_sum (cs_skip_edges s) (cs_v s) (Suc k)) [0..<length (cs_v s)])"
      "cs_total s = usable_sum (cs_skip_edges s) (cs_v s) (length (cs_v s))"
    and ok: "\<forall>p \<in> set (cs_v s). prefix_ok p" and ab: "sorted_wrt above (cs_v s)"
  shows "bij_betw (\<lambda>i. the (qn_cidr_set_nth s i)) {..<cs_total s} (enumerated s)"
  unfolding bij_betw_def
proof (intro conjI)
  let ?k = "cs_skip_edges s" let ?v = "cs_v s" let ?S = "usable_sum ?k ?v"
  have at: "\<exists>k<length ?v. ?S k \<le> i \<and> i < ?S (Suc k) \<and> i - ?S k < qn_prefix_usable (?v ! k) ?k \<and>
      addr_ok (the (qn_cidr_set_nth s i)) \<and>
      addr_key (the (qn_cidr_set_nth s i)) = (px_fam (?v ! k), px_start (?v ! k) + edge ?k (?v ! k) + (i - ?S k))"
    if "i < cs_total s" for i
  proof -
    from nth_at [OF cs that] obtain k where k: "k < length ?v" "?S k \<le> i" "i - ?S k < qn_prefix_usable (?v ! k) ?k"
      "qn_cidr_set_nth s i = Some (prefix_nth ?k (?v ! k) (i - ?S k))" by blast
    have "?S (Suc k) = ?S k + qn_prefix_usable (?v ! k) ?k" using k(1) by (simp add: take_Suc_conv_app_nth)
    then show ?thesis using k prefix_nth_key [of "?v ! k"] ok by (intro exI [of _ k]) auto
  qed
  have disj: "span (?v ! i) \<inter> span (?v ! j) = {}" if "i < j" "j < length ?v" for i j
    using sorted_wrt_nth_less [OF ab that] by (rule above_disjoint)
  have mem: "(px_fam p, px_start p + edge ?k p + d) \<in> span p" if "p \<in> set ?v" "d < qn_prefix_usable p ?k" for p d
    using hosts_of_sub [of p ?k] ok that by (auto simp: hosts_of_def)
  show "inj_on (\<lambda>i. the (qn_cidr_set_nth s i)) {..<cs_total s}"
  proof (rule inj_onI, simp)
    fix i j
    assume ij: "i < cs_total s" "j < cs_total s" "the (qn_cidr_set_nth s i) = the (qn_cidr_set_nth s j)"
    from at [OF ij(1)] obtain k where k: "k < length ?v" "?S k \<le> i" "i - ?S k < qn_prefix_usable (?v ! k) ?k"
      "addr_key (the (qn_cidr_set_nth s i)) = (px_fam (?v ! k), px_start (?v ! k) + edge ?k (?v ! k) + (i - ?S k))" by blast
    from at [OF ij(2)] obtain l where l: "l < length ?v" "?S l \<le> j" "j - ?S l < qn_prefix_usable (?v ! l) ?k"
      "addr_key (the (qn_cidr_set_nth s j)) = (px_fam (?v ! l), px_start (?v ! l) + edge ?k (?v ! l) + (j - ?S l))" by blast
    have "addr_key (the (qn_cidr_set_nth s i)) \<in> span (?v ! k) \<inter> span (?v ! l)"
      using mem [of "?v ! k" "i - ?S k"] mem [of "?v ! l" "j - ?S l"] k l ij(3) by simp
    then have "k = l" using disj [of k l] disj [of l k] k(1) l(1) by (cases k l rule: linorder_cases) auto
    then show "i = j" using k l ij(3) by simp
  qed
  show "(\<lambda>i. the (qn_cidr_set_nth s i)) ` {..<cs_total s} = enumerated s"
  proof (intro equalityI subsetI)
    fix a
    assume "a \<in> (\<lambda>i. the (qn_cidr_set_nth s i)) ` {..<cs_total s}"
    then obtain i where i: "i < cs_total s" "a = the (qn_cidr_set_nth s i)" by auto
    from at [OF i(1)] show "a \<in> enumerated s"
      using i(2) by (auto simp: enumerated_def hosts_of_def intro!: bexI [OF _ nth_mem])
  next
    fix a
    assume "a \<in> enumerated s"
    then obtain k where k: "addr_ok a" "k < length ?v" "addr_key a \<in> hosts_of ?k (?v ! k)"
      by (auto simp: enumerated_def in_set_conv_nth)
    then obtain d where d: "d < qn_prefix_usable (?v ! k) ?k"
      "addr_key a = (px_fam (?v ! k), px_start (?v ! k) + edge ?k (?v ! k) + d)"
      by (auto simp: hosts_of_def) (metis add_less_cancel_left le_add_diff_inverse)
    have S: "?S (Suc k) = ?S k + qn_prefix_usable (?v ! k) ?k" using k(2) by (simp add: take_Suc_conv_app_nth)
    have i: "?S k + d < cs_total s" using S d(1) usable_sum_mono [of "Suc k" "length ?v" ?k ?v] k(2) cs(2) by simp
    from at [OF i] obtain l where l: "?S l \<le> ?S k + d" "?S k + d < ?S (Suc l)" "addr_ok (the (qn_cidr_set_nth s (?S k + d)))"
      "addr_key (the (qn_cidr_set_nth s (?S k + d))) = (px_fam (?v ! l), px_start (?v ! l) + edge ?k (?v ! l) + (?S k + d - ?S l))"
      by blast
    have "l = k" using usable_sum_unique [OF l(1,2), of k] S d(1) by simp
    then have "a = the (qn_cidr_set_nth s (?S k + d))" using addr_key_inj [OF k(1) l(3)] l(4) d(2) by simp
    then show "a \<in> (\<lambda>i. the (qn_cidr_set_nth s i)) ` {..<cs_total s}" using i by blast
  qed
qed

section \<open>Theorems\<close>

text \<open>
  Property C18.  \<^verbatim>\<open>normalize_prefixes\<close> (sort, drop contained prefixes, merge siblings into their parent,
  repeatedly) keeps exactly the addresses covered by the prefixes, and what it leaves is a
  list of valid prefixes in address order of which no two overlap.
\<close>

theorem normalize_keeps_and_separates:
  assumes "cidr_set_ok s"
  shows "spans (cs_v (normalize_prefixes s)) = spans (cs_v s) \<and> cidr_set_ok (normalize_prefixes s) \<and>
    (\<forall>i j. i < j \<longrightarrow> j < length (cs_v (normalize_prefixes s)) \<longrightarrow>
       above (cs_v (normalize_prefixes s) ! i) (cs_v (normalize_prefixes s) ! j) \<and>
       span (cs_v (normalize_prefixes s) ! i) \<inter> span (cs_v (normalize_prefixes s) ! j) = {})"
proof -
  have ok: "\<forall>p \<in> set (cs_v s). prefix_ok p" using assms by (simp add: cidr_set_ok_def)
  note n = normalize_ok [OF ok]
  have "cs_cap (normalize_prefixes s) = cs_cap s" by (simp add: normalize_prefixes_def Let_def)
  then have "cidr_set_ok (normalize_prefixes s)" using n(1,4) assms by (simp add: cidr_set_ok_def)
  then show ?thesis using n(3) sorted_wrt_nth_less [OF n(2)] above_disjoint by blast
qed

definition two_halves :: qn_cidr_set where
  "two_halves = \<lparr>cs_v = [\<lparr>px_net = V4 0x0A000080, px_bits = 25, px_count = 128\<rparr>, \<lparr>px_net = V4 0x0A000000, px_bits = 25, px_count = 128\<rparr>],
     cs_cap = 2, cs_cumsum = None, cs_total = 0, cs_skip_edges = False\<rparr>"

lemma two_halves_ok: "cidr_set_ok two_halves"
  by (simp add: two_halves_def cidr_set_ok_def prefix_ok_def addr_ok_def px_width_def qn_prefix_hosts_def mask_v4_def)

theorem normalize_keeps_and_separates_witness:
  "cidr_set_ok two_halves \<and> spans (cs_v (normalize_prefixes two_halves)) = spans (cs_v two_halves)"
  using normalize_keeps_and_separates [OF two_halves_ok] two_halves_ok by blast



end
