(* ===== verification/Text.thy ===== *)
theory Text
  imports Qn_Types
begin

text \<open>
  C text: a string or a byte buffer is a list of characters, a character the byte it is.  Here are
  the functions of the C library that several components use (\<open>strchr\<close>, decimal conversion)
  and their laws.  A list stands for the characters before the terminating NUL.
\<close>

abbreviation code :: "char \<Rightarrow> nat" where "code c \<equiv> of_char c"

abbreviation CR :: char where "CR \<equiv> CHR 0x0D"
abbreviation LF :: char where "LF \<equiv> CHR 0x0A"
abbreviation TAB :: char where "TAB \<equiv> CHR 0x09"
abbreviation NUL :: char where "NUL \<equiv> CHR 0x00"

definition is_digit :: "char \<Rightarrow> bool" where "is_digit c \<longleftrightarrow> 48 \<le> code c \<and> code c \<le> 57"

definition digit_char :: "nat \<Rightarrow> char" where "digit_char n = char_of (48 + n)"

definition digit_value :: "char \<Rightarrow> nat" where "digit_value c = code c - 48"

text \<open>\<open>%u\<close> of \<open>printf\<close>.\<close>

fun dec :: "nat \<Rightarrow> string" where
  "dec n = (if n < 10 then [digit_char n] else dec (n div 10) @ [digit_char (n mod 10)])"

declare dec.simps [simp del]

text \<open>The value of a run of digits, most significant first, and the run a number starts with.\<close>

definition dec_value :: "string \<Rightarrow> nat" where
  "dec_value cs = foldl (\<lambda>v c. v * 10 + digit_value c) 0 cs"

definition digits :: "string \<Rightarrow> string" where "digits cs = takeWhile is_digit cs"

definition after_digits :: "string \<Rightarrow> string" where "after_digits cs = dropWhile is_digit cs"

text \<open>\<open>strchr\<close>: the text before and after the first \<open>c\<close>.\<close>

definition split_at :: "char \<Rightarrow> string \<Rightarrow> (string \<times> string) option" where
  "split_at c cs = (if c \<in> set cs then Some (takeWhile (\<lambda>x. x \<noteq> c) cs, tl (dropWhile (\<lambda>x. x \<noteq> c) cs)) else None)"

lemma code_less [simp]: "code c < 256"
  by (metis of_char_mod_256 mod_less_divisor zero_less_numeral)

lemma code_inj: "code c = code d \<longleftrightarrow> c = d" by simp

lemma code_char_of [simp]: "n < 256 \<Longrightarrow> code (char_of n) = n" by simp

lemma code_digit_char [simp]: "n < 10 \<Longrightarrow> code (digit_char n) = 48 + n"
  by (simp add: digit_char_def)

lemma digit_char_digit [simp]: "n < 10 \<Longrightarrow> is_digit (digit_char n)" "n < 10 \<Longrightarrow> digit_value (digit_char n) = n"
  by (simp_all add: is_digit_def digit_value_def)

lemma dec_value_snoc [simp]: "dec_value (cs @ [c]) = dec_value cs * 10 + digit_value c"
  by (simp add: dec_value_def)

lemma dec_value_dec [simp]: "dec_value (dec n) = n"
proof (induction n rule: dec.induct)
  case (1 n)
  show ?case using 1 by (subst dec.simps) (simp add: dec_value_def [of "[digit_char n]"])
qed

lemma dec_digits: "\<forall>c \<in> set (dec n). is_digit c"
proof (induction n rule: dec.induct)
  case (1 n)
  show ?case using 1 by (subst dec.simps) simp
qed

lemma dec_nonempty [simp]: "dec n \<noteq> []" by (subst dec.simps) simp

lemma digits_dec_append:
  assumes "rest = [] \<or> \<not> is_digit (hd rest)"
  shows "digits (dec n @ rest) = dec n" "after_digits (dec n @ rest) = rest"
proof -
  have "takeWhile is_digit rest = []" "dropWhile is_digit rest = rest" using assms by (cases rest; auto)+
  then show "digits (dec n @ rest) = dec n" "after_digits (dec n @ rest) = rest"
    using dec_digits [of n] by (simp_all add: digits_def after_digits_def)
qed

lemma dec_length: "n < 10 ^ Suc k \<Longrightarrow> length (dec n) \<le> Suc k"
proof (induction k arbitrary: n)
  case (Suc k)
  then have "n div 10 < 10 ^ Suc k" by (simp add: less_mult_imp_div_less mult.commute)
  then show ?case using Suc.IH [of "n div 10"] by (subst dec.simps) simp
qed (subst dec.simps, simp)

lemma dec_inj: "dec m = dec n \<longleftrightarrow> m = n"
  by (metis dec_value_dec)

lemma split_at_append: "c \<notin> set xs \<Longrightarrow> split_at c (xs @ c # ys) = Some (xs, ys)"
  by (induction xs) (auto simp: split_at_def)

lemma split_at_None [simp]: "split_at c cs = None \<longleftrightarrow> c \<notin> set cs" by (simp add: split_at_def)

section \<open>Lines of a file\<close>

text \<open>
  \<open>fgets\<close> with a buffer of \<open>sz\<close> bytes: a line with its newline, or \<open>sz - 1\<close> bytes.  The end of
  the file is noticed only if the read ran into it, so a line is complete if its text up to a NUL
  holds the newline or the file ended.  \<open>cstr\<close> is what the string functions see of a buffer.
\<close>

definition fgets :: "nat \<Rightarrow> string \<Rightarrow> string \<times> string" where
  "fgets sz f =
     (let w = take (sz - 1) f; line = takeWhile (\<lambda>c. c \<noteq> LF) w @ (if LF \<in> set w then [LF] else [])
      in (line, drop (length line) f))"

definition cstr :: "string \<Rightarrow> string" where "cstr line = takeWhile (\<lambda>c. c \<noteq> NUL) line"

definition line_complete :: "nat \<Rightarrow> string \<Rightarrow> bool" where
  "line_complete sz line \<longleftrightarrow> LF \<in> set (cstr line) \<or> LF \<notin> set line \<and> length line < sz - 1"

definition skip_line :: "string \<Rightarrow> string" where "skip_line f = tl (dropWhile (\<lambda>c. c \<noteq> LF) f)"

lemma fgets_shorter: "f \<noteq> [] \<Longrightarrow> 1 < sz \<Longrightarrow> length (snd (fgets sz f)) < length f"
  by (cases f; cases "sz - 1") (auto simp: fgets_def Let_def)

lemma fgets_rest: "(line, rest) = fgets sz f \<Longrightarrow> f \<noteq> [] \<Longrightarrow> 1 < sz \<Longrightarrow> length rest < length f"
  using fgets_shorter [of f sz] by (metis snd_conv)

lemma skip_line_shorter: "length (skip_line f) \<le> length f"
  using length_dropWhile_le [of "\<lambda>c. c \<noteq> LF" f] by (simp add: skip_line_def)

lemma fgets_line: "LF \<notin> set l \<Longrightarrow> length l + 1 < sz \<Longrightarrow> fgets sz (l @ LF # f) = (l @ [LF], f)"
proof -
  assume l: "LF \<notin> set l" and n: "length l + 1 < sz"
  obtain k where "sz - 1 = length l + Suc k" using n by (metis add_Suc_right less_diff_conv less_imp_Suc_add)
  then have "take (sz - 1) (l @ LF # f) = l @ LF # take k f" by simp
  moreover have "takeWhile (\<lambda>c. c \<noteq> LF) (l @ LF # take k f) = l" using l by (subst takeWhile_append2) auto
  ultimately show ?thesis by (simp add: fgets_def Let_def)
qed

lemma cstr_id: "NUL \<notin> set l \<Longrightarrow> cstr l = l"
  by (auto simp: cstr_def takeWhile_eq_all_conv)

section \<open>Numbers\<close>

text \<open>
  \<open>strtoull\<close> in base ten: the value (\<open>None\<close> for \<open>ERANGE\<close>) and the text after the number.  Without a
  digit the value is 0 and nothing is consumed; a minus sign negates modulo \<open>2 ^ 64\<close>.
\<close>

definition isspace :: "char \<Rightarrow> bool" where "isspace c \<longleftrightarrow> c = CHR '' '' \<or> 9 \<le> code c \<and> code c \<le> 13"

definition strtoull :: "string \<Rightarrow> nat option \<times> string" where
  "strtoull s =
     (let t = dropWhile isspace s;
          neg = (t \<noteq> [] \<and> hd t = CHR ''-'');
          u = (if t \<noteq> [] \<and> (hd t = CHR ''-'' \<or> hd t = CHR ''+'') then tl t else t);
          v = dec_value (digits u)
      in if digits u = [] then (Some 0, s)
         else if v > UINT64_MAX then (None, after_digits u)
         else (Some (if neg then (2 ^ 64 - v) mod 2 ^ 64 else v), after_digits u))"

lemma digit_plain: "is_digit c \<Longrightarrow> \<not> isspace c \<and> c \<noteq> CHR ''-'' \<and> c \<noteq> CHR ''+''"
  by (auto simp: is_digit_def isspace_def)

lemma hd_dec: "is_digit (hd (dec n))"
  using dec_digits [of n] by (cases "dec n") auto

lemma strtoull_dec: "n \<le> UINT64_MAX \<Longrightarrow> strtoull (dec n) = (Some n, [])"
proof -
  assume n: "n \<le> UINT64_MAX"
  obtain c cs where c: "dec n = c # cs" by (cases "dec n") auto
  then have "is_digit c" using hd_dec [of n] by simp
  then have "dropWhile isspace (dec n) = dec n" "hd (dec n) \<noteq> CHR ''-''" "hd (dec n) \<noteq> CHR ''+''"
    using c digit_plain [of c] by auto
  moreover have "digits (dec n) = dec n" "after_digits (dec n) = []" using digits_dec_append [of "[]" n] by simp_all
  ultimately show ?thesis using n by (simp add: strtoull_def Let_def)
qed

end
