(* ===== verification/Util.thy ===== *)
theory Util
  imports Text Bytes
begin

text \<open>
  \<^verbatim>\<open>src/core/util.c\<close>: checked size arithmetic, address parsing and printing, the validity of host
  names and request fields, and the searches in received bytes.  \<open>inet_pton\<close>, \<open>inet_ntop\<close>
  and \<open>getaddrinfo\<close> are parameters; a parsed IPv4 address is given in host order.
\<close>

definition qn_size_mul :: "nat \<Rightarrow> nat \<Rightarrow> nat option" where
  "qn_size_mul count width = (if width \<noteq> 0 \<and> count > UINT64_MAX div width then None else Some (count * width))"

text \<open>What is written to a destination of \<open>dstsz\<close> bytes, and the length of the source.\<close>

definition qn_strlcpy :: "string \<Rightarrow> nat \<Rightarrow> string option \<times> nat" where
  "qn_strlcpy src dstsz =
     (let srclen = length src in
      if dstsz = 0 then (None, srclen)
      else (let n = (if srclen < dstsz - 1 then srclen else dstsz - 1) in (Some (take n src), srclen)))"

definition qn_addr_parse :: "(string \<Rightarrow> u32 option) \<Rightarrow> (string \<Rightarrow> bytes option) \<Rightarrow> string \<Rightarrow> qn_addr option" where
  "qn_addr_parse pton4 pton6 s =
     (if s = [] then None
      else (case pton4 s of
              Some a \<Rightarrow> Some (V4 a)
            | None \<Rightarrow> (case pton6 s of Some b \<Rightarrow> Some (V6 b) | None \<Rightarrow> None)))"

definition octet_str :: "nat \<Rightarrow> string" where
  "octet_str v =
     (if v \<ge> 100 then (let w = v mod 100 in [digit_char (v div 100), digit_char (w div 10), digit_char (w mod 10)])
      else if v \<ge> 10 then [digit_char (v div 10), digit_char (v mod 10)]
      else [digit_char v])"

definition qn_ipv4_str :: "u32 \<Rightarrow> string" where
  "qn_ipv4_str h = concat (map (\<lambda>i. octet_str (unat (drop_bit (i * 8) h AND 0xFF)) @ (if i \<noteq> 0 then ''.'' else [])) [3, 2, 1, 0])"

definition qn_addr_str :: "(bytes \<Rightarrow> nat \<Rightarrow> string option) \<Rightarrow> qn_addr \<Rightarrow> nat \<Rightarrow> string" where
  "qn_addr_str ntop6 a buflen =
     (if buflen = 0 then []
      else (case a of
              V4 h \<Rightarrow> (let tmp = qn_ipv4_str h in if length tmp + 1 > buflen then [] else tmp)
            | V6 b \<Rightarrow> (case ntop6 b buflen of None \<Rightarrow> [] | Some s \<Rightarrow> s)))"

definition qn_addr_eq :: "qn_addr \<Rightarrow> qn_addr \<Rightarrow> bool" where
  "qn_addr_eq a b = (case (a, b) of (V4 x, V4 y) \<Rightarrow> x = y | (V6 x, V6 y) \<Rightarrow> memcmp x y = 0 | _ \<Rightarrow> False)"

text \<open>One entry of the resolver's answer.\<close>

datatype addrinfo = AI_INET u32 | AI_INET6 bytes | AI_OTHER

definition qn_resolve ::
  "(string \<Rightarrow> u32 option) \<Rightarrow> (string \<Rightarrow> bytes option) \<Rightarrow> (string \<Rightarrow> addrinfo list option) \<Rightarrow> string \<Rightarrow> bool \<Rightarrow> qn_addr option" where
  "qn_resolve pton4 pton6 getaddrinfo host want6 =
     (case qn_addr_parse pton4 pton6 host of
        Some a \<Rightarrow> Some a
      | None \<Rightarrow>
          (case getaddrinfo host of
             None \<Rightarrow> None
           | Some [] \<Rightarrow> None
           | Some (first # more) \<Rightarrow>
               (case List.find (\<lambda>it. case it of AI_INET _ \<Rightarrow> \<not> want6 | AI_INET6 _ \<Rightarrow> want6 | AI_OTHER \<Rightarrow> False) (first # more) of
                  Some (AI_INET x) \<Rightarrow> Some (V4 x)
                | Some (AI_INET6 b) \<Rightarrow> Some (V6 b)
                | _ \<Rightarrow> (case first of AI_INET x \<Rightarrow> Some (V4 x) | AI_INET6 b \<Rightarrow> Some (V6 b) | AI_OTHER \<Rightarrow> None))))"

definition ldh :: "char \<Rightarrow> bool" where
  "ldh c \<longleftrightarrow> code CHR ''a'' \<le> code c \<and> code c \<le> code CHR ''z'' \<or> code CHR ''A'' \<le> code c \<and> code c \<le> code CHR ''Z'' \<or>
     is_digit c \<or> c = CHR ''-''"

text \<open>The loop of \<open>qn_valid_hostname\<close>; \<open>prev\<close> is the character before.\<close>

fun host_loop :: "string \<Rightarrow> nat \<Rightarrow> bool \<Rightarrow> char \<Rightarrow> (nat \<times> bool) option" where
  "host_loop [] label numeric prev = Some (label, numeric)"
| "host_loop (c # cs) label numeric prev =
     (if c = CHR ''.''
      then (if label = 0 \<or> label > 63 \<or> prev = CHR ''-'' then None else host_loop cs 0 numeric c)
      else if \<not> ldh c then None
      else if label = 0 \<and> c = CHR ''-'' then None
      else host_loop cs (label + 1) (numeric \<and> is_digit c) c)"

definition qn_valid_hostname :: "string \<Rightarrow> bool" where
  "qn_valid_hostname name =
     (if name = [] \<or> length name > 253 \<or> last name = CHR ''.'' then False
      else (case host_loop name 0 True NUL of
              None \<Rightarrow> False
            | Some (label, numeric) \<Rightarrow> label \<noteq> 0 \<and> label \<le> 63 \<and> last name \<noteq> CHR ''-'' \<and> \<not> numeric))"

fun valid_field_from :: "string \<Rightarrow> nat \<Rightarrow> nat \<Rightarrow> bool" where
  "valid_field_from [] i mx = (i \<noteq> 0)"
| "valid_field_from (c # cs) i mx =
     (if i \<ge> mx \<or> code c \<le> 0x20 \<or> code c = 0x7F then False else valid_field_from cs (i + 1) mx)"

definition qn_valid_field :: "string \<Rightarrow> nat \<Rightarrow> bool" where
  "qn_valid_field s mx = valid_field_from s 0 mx"

text \<open>\<open>t\<close> is the answer of \<open>time\<close>, \<open>None\<close> on failure.\<close>

definition qn_wall_now :: "int option \<Rightarrow> nat option" where
  "qn_wall_now t = (case t of
      None \<Rightarrow> None
    | Some v \<Rightarrow> if v \<le> 0 then None
               else if nat v < 1577836800 \<or> nat v > 4102444800 then None else Some (nat v))"

section \<open>Searches\<close>

definition crlf2_at :: "string \<Rightarrow> nat \<Rightarrow> bool" where
  "crlf2_at buf p \<longleftrightarrow> p + 4 \<le> length buf \<and> buf ! p = CR \<and> buf ! (p + 1) = LF \<and> buf ! (p + 2) = CR \<and> buf ! (p + 3) = LF"

text \<open>
  The vector loop: one round per 16 bytes, in which the lanes that hold a CR are tried in order.
  Then the scalar loop over the rest.
\<close>

function neon_headers :: "string \<Rightarrow> nat \<Rightarrow> nat option \<times> nat" where
  "neon_headers buf i =
     (if i + 16 \<le> length buf
      then (case List.find (crlf2_at buf) (filter (\<lambda>p. buf ! p = CR) [i..<i + 16]) of
              Some p \<Rightarrow> (Some p, i)
            | None \<Rightarrow> neon_headers buf (i + 16))
      else (None, i))"
  by pat_completeness auto
termination by (relation "measure (\<lambda>(buf, i). length buf - i)") auto

declare neon_headers.simps [simp del]

function scalar_headers :: "string \<Rightarrow> nat \<Rightarrow> nat option" where
  "scalar_headers buf i =
     (if i + 4 \<le> length buf then (if crlf2_at buf i then Some i else scalar_headers buf (i + 1)) else None)"
  by pat_completeness auto
termination by (relation "measure (\<lambda>(buf, i). length buf - i)") auto

declare scalar_headers.simps [simp del]

definition qn_find_headers_end :: "string \<Rightarrow> nat option" where
  "qn_find_headers_end buf =
     (if length buf < 4 then None
      else (case neon_headers buf 0 of
              (Some p, _) \<Rightarrow> Some (p + 4)
            | (None, i) \<Rightarrow> map_option (\<lambda>p. p + 4) (scalar_headers buf i)))"

definition lc :: "char \<Rightarrow> char" where
  "lc c = (if code CHR ''A'' \<le> code c \<and> code c \<le> code CHR ''Z'' then char_of (code c + 32) else c)"

fun match_ci :: "string \<Rightarrow> string \<Rightarrow> bool" where
  "match_ci hay [] = True"
| "match_ci (h # hay) (n # needle) = (lc h = lc n \<and> match_ci hay needle)"
| "match_ci [] (n # needle) = False"

fun find_ci_from :: "string \<Rightarrow> string \<Rightarrow> nat \<Rightarrow> nat option" where
  "find_ci_from [] needle i = None"
| "find_ci_from (h # hay) needle i =
     (if length needle > length (h # hay) then None
      else if lc h \<noteq> lc (hd needle) then find_ci_from hay needle (i + 1)
      else if match_ci hay (tl needle) then Some i
      else find_ci_from hay needle (i + 1))"

definition qn_find_ci :: "string \<Rightarrow> string \<Rightarrow> nat option" where
  "qn_find_ci hay needle =
     (if needle = [] \<or> length needle > length hay then None else find_ci_from hay needle 0)"

section \<open>Formatting\<close>

definition qn_fmt_dur :: "nat \<Rightarrow> string" where
  "qn_fmt_dur us =
     (if us = 0 then ''-''
      else if us < 1000 then dec us @ ''us''
      else if us < 1000000 then dec (us div 1000) @ ''.'' @ dec (us mod 1000 div 100) @ ''ms''
      else dec (us div 1000000) @ ''.'' @ dec (us mod 1000000 div 100000) @ ''s'')"

function fmt_scale :: "nat \<Rightarrow> nat \<Rightarrow> nat \<times> nat" where
  "fmt_scale v i = (if v \<ge> 10000 \<and> i + 1 < 5 then fmt_scale (v div 1000) (i + 1) else (v, i))"
  by pat_completeness auto
termination by (relation "measure (\<lambda>(v, i). 5 - i)") auto

declare fmt_scale.simps [simp del]

definition qn_fmt_count :: "nat \<Rightarrow> string" where
  "qn_fmt_count n = (case fmt_scale n 0 of (v, i) \<Rightarrow> if i = 0 then dec v else dec v @ [''?KMGT'' ! i])"

fun qn_result_str :: "qn_result \<Rightarrow> string" where
  "qn_result_str QN_R_PENDING = ''pending''"
| "qn_result_str QN_R_OPEN = ''open''"
| "qn_result_str QN_R_REFUSED = ''closed''"
| "qn_result_str QN_R_TIMEOUT = ''filtered''"
| "qn_result_str QN_R_UNREACH = ''unreachable''"
| "qn_result_str QN_R_RESET = ''reset''"
| "qn_result_str QN_R_CANCELLED = ''cancelled''"
| "qn_result_str QN_R_ERROR = ''error''"

fun qn_failure_origin_str :: "qn_failure_origin \<Rightarrow> string" where
  "qn_failure_origin_str QN_FAIL_NONE = ''none''"
| "qn_failure_origin_str QN_FAIL_LOCAL = ''local''"
| "qn_failure_origin_str QN_FAIL_PEER = ''peer''"
| "qn_failure_origin_str QN_FAIL_PATH = ''path''"
| "qn_failure_origin_str QN_FAIL_PROTOCOL = ''protocol''"
| "qn_failure_origin_str QN_FAIL_UNSUPPORTED = ''unsupported''"
| "qn_failure_origin_str QN_FAIL_CANCELLED = ''cancelled''"

section \<open>Laws\<close>

lemma size_mul_exact: "qn_size_mul a b = (if a * b \<le> UINT64_MAX then Some (a * b) else None)"
proof (cases "b = 0")
  case False
  then have "a * b \<le> UINT64_MAX \<longleftrightarrow> a \<le> UINT64_MAX div b" by (simp add: less_eq_div_iff_mult_less_eq)
  then show ?thesis using False by (auto simp: qn_size_mul_def)
qed (simp add: qn_size_mul_def)

lemma memcmp_eq_0: "length xs = length ys \<Longrightarrow> memcmp xs ys = 0 \<longleftrightarrow> xs = ys"
  by (induction xs ys rule: memcmp.induct) auto

lemma addr_eq_iff [simp]: "addr_ok a \<Longrightarrow> addr_ok b \<Longrightarrow> qn_addr_eq a b \<longleftrightarrow> a = b"
  by (cases a; cases b) (auto simp: qn_addr_eq_def addr_ok_def memcmp_eq_0)

lemma valid_field_eq:
  "valid_field_from s i mx \<longleftrightarrow> i + length s \<noteq> 0 \<and> (\<forall>c \<in> set s. 0x20 < code c \<and> code c \<noteq> 0x7F) \<and> (s = [] \<or> i + length s \<le> mx)"
  by (induction s i mx rule: valid_field_from.induct) auto

lemma octet_str_dec: "v < 256 \<Longrightarrow> octet_str v = dec v"
proof -
  assume v: "v < 256"
  have e: "v div 10 < 10 \<or> \<not> v div 10 < 10 \<and> v div 10 div 10 < 10" using v by auto
  have "v mod 100 = 10 * (v div 10 mod 10) + v mod 10" using mod_mult2_eq [of v 10 10] by simp
  then have m: "v mod 100 div 10 = v div 10 mod 10" "v mod 100 mod 10 = v mod 10" "v div 100 = v div 10 div 10"
    by (simp_all add: div_mult2_eq [symmetric])
  show ?thesis using v e
    unfolding octet_str_def dec.simps [of v] dec.simps [of "v div 10"] dec.simps [of "v div 10 div 10"]
    by (auto simp: Let_def m)
qed

lemma scalar_headers_spec:
  "scalar_headers buf i = (if \<exists>p\<ge>i. crlf2_at buf p then Some (LEAST p. i \<le> p \<and> crlf2_at buf p) else None)"
proof (induction buf i rule: scalar_headers.induct)
  case (1 buf i)
  show ?case
  proof (cases "i + 4 \<le> length buf \<and> crlf2_at buf i")
    case True
    then have "(LEAST p. i \<le> p \<and> crlf2_at buf p) = i" by (intro Least_equality) auto
    then show ?thesis using True by (subst scalar_headers.simps) auto
  next
    case False
    then have n: "\<not> crlf2_at buf i" by (auto simp: crlf2_at_def)
    then have e: "(i \<le> p \<and> crlf2_at buf p) = (i + 1 \<le> p \<and> crlf2_at buf p)" for p
      by (cases "p = i") auto
    show ?thesis
    proof (cases "i + 4 \<le> length buf")
      case True
      show ?thesis using 1 [OF True n] True n by (subst scalar_headers.simps) (simp only: e if_True if_False)
    next
      case False
      then have "\<not> (\<exists>p\<ge>i. crlf2_at buf p)" by (auto simp: crlf2_at_def)
      then show ?thesis using False by (subst scalar_headers.simps) simp
    qed
  qed
qed

lemma neon_headers_spec:
  "case neon_headers buf i of
     (Some p, _) \<Rightarrow> i \<le> p \<and> crlf2_at buf p \<and> (\<forall>q. i \<le> q \<and> q < p \<longrightarrow> \<not> crlf2_at buf q)
   | (None, j) \<Rightarrow> i \<le> j \<and> (\<forall>q. i \<le> q \<and> q < j \<longrightarrow> \<not> crlf2_at buf q)"
proof (induction buf i rule: neon_headers.induct)
  case (1 buf i)
  let ?c = "List.find (crlf2_at buf) (filter (\<lambda>p. buf ! p = CR) [i..<i + 16])"
  have cr: "crlf2_at buf q \<Longrightarrow> buf ! q = CR" for q by (simp add: crlf2_at_def)
  show ?case
  proof (cases "i + 16 \<le> length buf")
    case True
    show ?thesis
    proof (cases ?c)
      case None
      then have "\<forall>q. i \<le> q \<and> q < i + 16 \<longrightarrow> \<not> crlf2_at buf q" using cr by (auto simp: find_None_iff)
      then have b: "i + 16 \<le> q" if "i \<le> q" "crlf2_at buf q" for q using that by (meson not_le)
      obtain r j where r: "neon_headers buf (i + 16) = (r, j)" by force
      then have "neon_headers buf i = (r, j)" using True None by (subst neon_headers.simps) simp
      then show ?thesis using 1 [OF True None] r b by (cases r) (auto simp: not_less [symmetric])
    next
      case (Some p)
      let ?l = "filter (\<lambda>p. buf ! p = CR) [i..<i + 16]"
      obtain k where k: "k < length ?l" "crlf2_at buf p" "p = ?l ! k" "\<forall>j<k. \<not> crlf2_at buf (?l ! j)"
        using Some by (auto simp: find_Some_iff)
      have "p \<in> set ?l" unfolding k(3) by (rule nth_mem [OF k(1)])
      then have "i \<le> p" by simp
      moreover have "\<not> crlf2_at buf q" if "i \<le> q" "q < p" for q
      proof
        assume q: "crlf2_at buf q"
        have "q \<in> set ?l" using that cr [OF q] \<open>p \<in> set ?l\<close> by simp
        then obtain j where j: "j < length ?l" "q = ?l ! j" by (metis in_set_conv_nth)
        have "sorted_wrt (<) ?l" by (intro sorted_wrt_filter) simp
        then have "\<not> k < j" using that(2) j k(3) sorted_wrt_nth_less [of "(<)" ?l k j] by auto
        then have "j < k" using that(2) j k(3) by (cases "j = k") auto
        then show False using k(4) j q by blast
      qed
      ultimately show ?thesis using True Some k(2) by (subst neon_headers.simps) simp
    qed
  qed (subst neon_headers.simps, auto)
qed

lemma match_ci_iff: "match_ci hay needle \<longleftrightarrow> length needle \<le> length hay \<and> (\<forall>j<length needle. lc (hay ! j) = lc (needle ! j))"
proof (induction hay needle rule: match_ci.induct)
  case (2 h hay n needle)
  then show ?case by (auto simp: All_less_Suc2)
qed auto

definition ci_at :: "string \<Rightarrow> string \<Rightarrow> nat \<Rightarrow> bool" where
  "ci_at hay needle i \<longleftrightarrow> i + length needle \<le> length hay \<and> (\<forall>j<length needle. lc (hay ! (i + j)) = lc (needle ! j))"

lemma ci_at_Suc: "ci_at (h # hay) needle (Suc i) = ci_at hay needle i" by (simp add: ci_at_def)

lemma ci_at_zero: "needle \<noteq> [] \<Longrightarrow> ci_at (h # hay) needle 0 \<longleftrightarrow> lc h = lc (hd needle) \<and> match_ci hay (tl needle)"
  by (cases needle) (auto simp: ci_at_def match_ci_iff All_less_Suc2)

lemma find_ci_from_spec:
  "needle \<noteq> [] \<Longrightarrow> (case find_ci_from hay needle i of
     None \<Rightarrow> (\<forall>k. \<not> ci_at hay needle k)
   | Some r \<Rightarrow> i \<le> r \<and> ci_at hay needle (r - i) \<and> (\<forall>k<r - i. \<not> ci_at hay needle k))"
proof (induction hay needle i rule: find_ci_from.induct)
  case (1 needle i)
  then show ?case by (simp add: ci_at_def)
next
  case (2 h hay needle i)
  show ?case
  proof (cases "length needle > length (h # hay) \<or> ci_at (h # hay) needle 0")
    case True
    then show ?thesis using 2(3) ci_at_zero [OF 2(3), of h hay] by (auto simp: ci_at_def [of "h # hay" needle])
  next
    case False
    then have n0: "\<not> ci_at (h # hay) needle 0" and r: "find_ci_from (h # hay) needle i = find_ci_from hay needle (i + 1)"
      using ci_at_zero [OF 2(3), of h hay] by auto
    have ih: "case find_ci_from hay needle (i + 1) of None \<Rightarrow> (\<forall>k. \<not> ci_at hay needle k)
      | Some r \<Rightarrow> i + 1 \<le> r \<and> ci_at hay needle (r - (i + 1)) \<and> (\<forall>k<r - (i + 1). \<not> ci_at hay needle k)"
      using 2 False n0 ci_at_zero [OF 2(3), of h hay] by blast
    have all: "(\<forall>k. P k) \<longleftrightarrow> P 0 \<and> (\<forall>k. P (Suc k))" for P :: "nat \<Rightarrow> bool" by (metis not0_implies_Suc)
    show ?thesis
    proof (cases "find_ci_from hay needle (i + 1)")
      case None
      then show ?thesis using ih n0 r all [of "\<lambda>k. \<not> ci_at (h # hay) needle k"] by (simp add: ci_at_Suc)
    next
      case (Some m)
      then obtain d where d: "m = i + 1 + d" using ih by (auto dest: le_Suc_ex)
      then show ?thesis using Some ih n0 r by (simp add: ci_at_Suc All_less_Suc2)
    qed
  qed
qed

text \<open>Host names as lists of labels.\<close>

fun labels :: "string \<Rightarrow> string list" where
  "labels [] = [[]]"
| "labels (c # cs) = (if c = CHR ''.'' then [] # labels cs else (c # hd (labels cs)) # tl (labels cs))"

definition valid_label :: "string \<Rightarrow> bool" where
  "valid_label l \<longleftrightarrow> l \<noteq> [] \<and> length l \<le> 63 \<and> (\<forall>c \<in> set l. ldh c) \<and> hd l \<noteq> CHR ''-'' \<and> last l \<noteq> CHR ''-''"

definition open_label :: "string \<Rightarrow> bool" where
  "open_label l \<longleftrightarrow> (\<forall>c \<in> set l. ldh c) \<and> (l \<noteq> [] \<longrightarrow> hd l \<noteq> CHR ''-'')"

lemma labels_nonempty [simp]: "labels cs \<noteq> []" by (cases cs) auto

lemma labels_append: "CHR ''.'' \<notin> set cur \<Longrightarrow> labels (cur @ cs) = (cur @ hd (labels cs)) # tl (labels cs)"
  by (induction cur) auto

lemma dot_not_ldh [simp]: "\<not> ldh CHR ''.''" by (simp add: ldh_def is_digit_def)

lemma host_loop_spec:
  assumes "open_label cur" "cur \<noteq> [] \<Longrightarrow> prev = last cur"
  shows "host_loop cs (length cur) num prev =
    (if (\<forall>l \<in> set (butlast (labels (cur @ cs))). valid_label l) \<and> open_label (last (labels (cur @ cs)))
     then Some (length (last (labels (cur @ cs))), num \<and> (\<forall>c \<in> set cs. c = CHR ''.'' \<or> is_digit c)) else None)"
  using assms
proof (induction cs arbitrary: cur num prev)
  case Nil
  have "CHR ''.'' \<notin> set cur" using Nil(1) by (auto simp: open_label_def)
  then have "labels cur = [cur]" using labels_append [of cur "[]"] by simp
  then show ?case using Nil by simp
next
  case (Cons c cs)
  have dot: "CHR ''.'' \<notin> set cur" using Cons.prems(1) by (auto simp: open_label_def)
  show ?case
  proof (cases "c = CHR ''.''")
    case True
    have "host_loop cs 0 num c = (if (\<forall>l \<in> set (butlast (labels cs)). valid_label l) \<and> open_label (last (labels cs))
       then Some (length (last (labels cs)), num \<and> (\<forall>c \<in> set cs. c = CHR ''.'' \<or> is_digit c)) else None)"
      using Cons.IH [of "[]"] by (simp add: open_label_def)
    moreover have "valid_label cur \<longleftrightarrow> \<not> (length cur = 0 \<or> length cur > 63 \<or> prev = CHR ''-'')"
      using Cons.prems by (auto simp: valid_label_def open_label_def)
    ultimately show ?thesis using True dot by (auto simp: labels_append)
  next
    case False
    show ?thesis
    proof (cases "ldh c \<and> \<not> (cur = [] \<and> c = CHR ''-'')")
      case True
      have "host_loop cs (length (cur @ [c])) (num \<and> is_digit c) c =
        (if (\<forall>l \<in> set (butlast (labels ((cur @ [c]) @ cs))). valid_label l) \<and> open_label (last (labels ((cur @ [c]) @ cs)))
         then Some (length (last (labels ((cur @ [c]) @ cs))), (num \<and> is_digit c) \<and> (\<forall>c \<in> set cs. c = CHR ''.'' \<or> is_digit c)) else None)"
        using True Cons.prems(1) by (intro Cons.IH) (auto simp: open_label_def hd_append)
      then show ?thesis using True False by auto
    next
      case bad: False
      let ?l = "cur @ c # hd (labels cs)"
      have "\<not> open_label ?l" "\<not> valid_label ?l"
        using bad by (auto simp: open_label_def valid_label_def hd_append)
      then show ?thesis using bad False dot by (cases "tl (labels cs)") (auto simp: labels_append)
    qed
  qed
qed

lemma last_labels_snoc: "last (labels (cs @ [c])) = (if c = CHR ''.'' then [] else last (labels cs) @ [c])"
proof (induction cs)
  case (Cons d cs)
  obtain l ls where l: "labels cs = l # ls" by (cases "labels cs") auto
  obtain m ms where m: "labels (cs @ [c]) = m # ms" by (cases "labels (cs @ [c])") auto
  have "length (labels (xs @ [c])) = length (labels xs) + (if c = CHR ''.'' then 1 else 0)" for xs
    by (induction xs) auto
  from this [of cs] have "ms = [] \<longleftrightarrow> ls = [] \<and> c \<noteq> CHR ''.''" using l m by (cases ls; cases ms) (auto split: if_splits)
  then show ?case using Cons l m by auto
qed simp

lemma last_labels:
  "name \<noteq> [] \<Longrightarrow> last (labels name) = [] \<longleftrightarrow> last name = CHR ''.''"
  "last (labels name) \<noteq> [] \<Longrightarrow> last (last (labels name)) = last name"
  by (cases name rule: rev_cases; simp add: last_labels_snoc split: if_splits)+

section \<open>Theorems\<close>

lemma find_headers_end_eq:
  "qn_find_headers_end buf = (if \<exists>p. crlf2_at buf p then Some ((LEAST p. crlf2_at buf p) + 4) else None)"
proof (cases "length buf < 4")
  case True
  then show ?thesis by (auto simp: qn_find_headers_end_def crlf2_at_def)
next
  case False
  note sp = neon_headers_spec [where buf = buf and i = 0]
  show ?thesis
  proof (cases "fst (neon_headers buf 0)")
    case None
    then obtain j where j: "neon_headers buf 0 = (None, j)" by (metis prod.collapse)
    then have e: "crlf2_at buf p = (j \<le> p \<and> crlf2_at buf p)" for p using sp by (auto simp: not_le [symmetric])
    have "qn_find_headers_end buf = map_option (\<lambda>p. p + 4) (scalar_headers buf j)"
      using False j by (simp add: qn_find_headers_end_def)
    also have "\<dots> = (if \<exists>p. crlf2_at buf p then Some ((LEAST p. crlf2_at buf p) + 4) else None)"
      unfolding scalar_headers_spec using e by (auto intro: arg_cong [of _ _ Least])
    finally show ?thesis .
  next
    case (Some p)
    then obtain j where j: "neon_headers buf 0 = (Some p, j)" by (metis prod.collapse)
    then have p: "crlf2_at buf p" "\<forall>q<p. \<not> crlf2_at buf q" using sp by auto
    then have "(LEAST p. crlf2_at buf p) = p" by (intro Least_equality) (auto simp: not_less [symmetric])
    then show ?thesis using False j p by (auto simp: qn_find_headers_end_def)
  qed
qed

text \<open>
  \<^verbatim>\<open>qn_find_headers_end\<close> returns the offset just after the first empty line of the
  buffer (CR LF CR LF), and nothing if there is none: the vector loop, which only looks at
  lanes that hold a CR and may straddle its 16-byte blocks, and the scalar tail together agree
  with a plain search from the left.
\<close>

lemma find_headers_end_first:
  "qn_find_headers_end buf = (if \<exists>p. crlf2_at buf p then Some ((LEAST p. crlf2_at buf p) + 4) else None)"
  by (rule find_headers_end_eq)

text \<open>
  \<^verbatim>\<open>qn_find_ci\<close> returns the first offset at which the needle occurs when letters are
  compared without case, and nothing exactly if it occurs nowhere (or is empty).
\<close>

lemma find_ci_first:
  "qn_find_ci hay needle = (if needle \<noteq> [] \<and> (\<exists>i. ci_at hay needle i) then Some (LEAST i. ci_at hay needle i) else None)"
proof (cases "needle = [] \<or> length needle > length hay")
  case True
  then show ?thesis by (auto simp: qn_find_ci_def ci_at_def)
next
  case False
  then have f: "qn_find_ci hay needle = find_ci_from hay needle 0" "needle \<noteq> []" by (auto simp: qn_find_ci_def)
  note sp = find_ci_from_spec [OF f(2), of hay 0]
  show ?thesis
  proof (cases "find_ci_from hay needle 0")
    case None
    then show ?thesis using sp f by auto
  next
    case (Some r)
    then have r: "ci_at hay needle r" "\<forall>k<r. \<not> ci_at hay needle k" using sp by auto
    then have "(LEAST i. ci_at hay needle i) = r" by (intro Least_equality) (auto simp: not_less [symmetric])
    then show ?thesis using Some f r by auto
  qed
qed

text \<open>
  \<^verbatim>\<open>qn_valid_hostname\<close>, a single pass with a label counter, accepts exactly the names of
  at most 253 characters whose dot-separated labels are nonempty, at most 63 characters long,
  consist of letters, digits and hyphens and neither begin nor end with a hyphen, and which
  are not all digits and dots (so an address literal is never taken for a name).
\<close>

lemma valid_hostname_iff:
  "qn_valid_hostname name \<longleftrightarrow>
     length name \<le> 253 \<and> list_all valid_label (labels name) \<and> list_ex (\<lambda>c. c \<noteq> CHR ''.'' \<and> \<not> is_digit c) name"
proof (cases "name = []")
  case True
  then show ?thesis by (simp add: qn_valid_hostname_def valid_label_def)
next
  case False
  let ?L = "labels name"
  have hl: "host_loop name 0 True NUL = (if (\<forall>l \<in> set (butlast ?L). valid_label l) \<and> open_label (last ?L)
      then Some (length (last ?L), \<forall>c \<in> set name. c = CHR ''.'' \<or> is_digit c) else None)"
    using host_loop_spec [of "[]" NUL name True] by (simp add: open_label_def)
  have "set ?L = insert (last ?L) (set (butlast ?L))"
    by (metis append_butlast_last_id labels_nonempty list.simps(15) rotate1.simps(2) set_rotate1)
  then have all: "list_all valid_label ?L \<longleftrightarrow> (\<forall>l \<in> set (butlast ?L). valid_label l) \<and> valid_label (last ?L)"
    by (auto simp: list_all_iff)
  have vl: "valid_label (last ?L) \<longleftrightarrow> open_label (last ?L) \<and> last name \<noteq> CHR ''.'' \<and> length (last ?L) \<le> 63 \<and> last name \<noteq> CHR ''-''"
    using last_labels [of name] False by (auto simp: valid_label_def open_label_def)
  show ?thesis
    unfolding qn_valid_hostname_def hl all vl
    using False last_labels(1) [OF False] by (auto simp: list_ex_iff)
qed

text \<open>The documented behaviour of the C library conversions that the code relies on.\<close>

definition pton4_ok :: "(string \<Rightarrow> u32 option) \<Rightarrow> bool" where
  "pton4_ok pton4 \<longleftrightarrow> (\<forall>a b c d. a < 256 \<longrightarrow> b < 256 \<longrightarrow> c < 256 \<longrightarrow> d < 256 \<longrightarrow>
     pton4 (dec a @ ''.'' @ dec b @ ''.'' @ dec c @ ''.'' @ dec d) = Some (word_of_nat (((a * 256 + b) * 256 + c) * 256 + d)))"

definition ntop6_ok :: "(bytes \<Rightarrow> nat \<Rightarrow> string option) \<Rightarrow> (string \<Rightarrow> u32 option) \<Rightarrow> (string \<Rightarrow> bytes option) \<Rightarrow> bool" where
  "ntop6_ok ntop6 pton4 pton6 \<longleftrightarrow> (\<forall>b. length b = 16 \<longrightarrow>
     (\<exists>s. ntop6 b 46 = Some s \<and> s \<noteq> [] \<and> pton4 s = None \<and> pton6 s = Some b))"

lemma ipv4_str_eq:
  fixes h :: u32
  shows "qn_ipv4_str h = dec (unat h div 256 ^ 3) @ ''.'' @ dec (unat h div 256 ^ 2 mod 256) @ ''.'' @
    dec (unat h div 256 mod 256) @ ''.'' @ dec (unat h mod 256)"
proof -
  have o: "unat (drop_bit k h AND 0xFF) = unat h div 2 ^ k mod 256" for k
  proof -
    have "(0xFF :: u32) = mask 8" by (simp add: mask_eq_exp_minus_1)
    then have "drop_bit k h AND 0xFF = take_bit 8 (drop_bit k h)" by (simp only: take_bit_eq_mask)
    then show ?thesis by (simp only: unsigned_take_bit_eq unsigned_drop_bit_eq) (simp add: take_bit_eq_mod drop_bit_eq_div)
  qed
  have lt: "unat h div 256 ^ 3 < 256" using unat_lt_size(3) [of h] by (simp add: less_mult_imp_div_less)
  have "octet_str (unat (drop_bit k h AND 0xFF)) = dec (unat h div 2 ^ k mod 256)" for k
    unfolding o by (rule octet_str_dec) simp
  then show ?thesis using lt by (simp add: qn_ipv4_str_def)
qed

lemma ipv4_str_length: "length (qn_ipv4_str h) < 46"
proof -
  have d: "length (dec n) \<le> 3" if "n < 256" for n using dec_length [of n 2] that by simp
  have "unat h div 256 ^ 3 < 256" using unat_lt_size(3) [of h] by (simp add: less_mult_imp_div_less)
  then show ?thesis
    unfolding ipv4_str_eq using d [of "unat h div 256 ^ 3"] d [of "unat h div 256 ^ 2 mod 256"] d [of "unat h div 256 mod 256"] d [of "unat h mod 256"]
    by simp
qed

lemma addr_text_back:
  assumes "pton4_ok pton4" "ntop6_ok ntop6 pton4 pton6" "addr_ok a"
  shows "qn_addr_parse pton4 pton6 (qn_addr_str ntop6 a 46) = Some a"
proof (cases a)
  case (V4 h)
  let ?n = "unat h"
  have lt: "?n div 256 ^ 3 < 256" using unat_lt_size(3) [of h] by (simp add: less_mult_imp_div_less)
  have "((?n div 256 ^ 3 * 256 + ?n div 256 ^ 2 mod 256) * 256 + ?n div 256 mod 256) * 256 + ?n mod 256 = ?n"
  proof -
    have e: "?n div 256 ^ 3 = ?n div 256 div 256 div 256" "?n div 256 ^ 2 = ?n div 256 div 256"
      by (simp_all add: div_mult2_eq [symmetric])
    show ?thesis unfolding e using div_mult_mod_eq [of "?n div 256 div 256" 256] div_mult_mod_eq [of "?n div 256" 256] div_mult_mod_eq [of ?n 256]
      by simp
  qed
  moreover have "pton4 (qn_ipv4_str h) = Some (word_of_nat
      (((?n div 256 ^ 3 * 256 + ?n div 256 ^ 2 mod 256) * 256 + ?n div 256 mod 256) * 256 + ?n mod 256))"
    unfolding ipv4_str_eq by (rule assms(1) [unfolded pton4_ok_def, rule_format]) (use lt in simp_all)
  ultimately have p: "pton4 (qn_ipv4_str h) = Some h" by (simp only: of_nat_unat ucast_id)
  have "qn_ipv4_str h \<noteq> []" by (simp add: ipv4_str_eq)
  then show ?thesis using V4 p ipv4_str_length [of h] by (simp add: qn_addr_str_def qn_addr_parse_def Let_def)
next
  case (V6 b)
  then obtain s where "ntop6 b 46 = Some s" "s \<noteq> []" "pton4 s = None" "pton6 s = Some b"
    using assms(2,3) by (auto simp: ntop6_ok_def addr_ok_def)
  then show ?thesis using V6 by (simp add: qn_addr_str_def qn_addr_parse_def)
qed

text \<open>
  An address printed by \<^verbatim>\<open>qn_addr_str\<close> into a buffer of 46 bytes is read back as the same
  address by \<^verbatim>\<open>qn_addr_parse\<close>, given the documented behaviour of the C library: \<open>inet_pton\<close> reads four
  decimal octets as the address they spell and reads back what \<open>inet_ntop\<close> prints, which is
  not an IPv4 literal.
\<close>

lemma addr_text_roundtrip:
  assumes "pton4_ok pton4" "ntop6_ok ntop6 pton4 pton6" "addr_ok a"
  shows "qn_addr_parse pton4 pton6 (qn_addr_str ntop6 a 46) = Some a"
  using assms by (rule addr_text_back)

text \<open>A concrete pair of conversions: dotted decimal, and IPv6 as two letters per byte after a colon.\<close>

definition toy_pton4 :: "string \<Rightarrow> u32 option" where
  "toy_pton4 s = (case split_at CHR ''.'' s of None \<Rightarrow> None | Some (a, r) \<Rightarrow>
     (case split_at CHR ''.'' r of None \<Rightarrow> None | Some (b, r) \<Rightarrow>
     (case split_at CHR ''.'' r of None \<Rightarrow> None | Some (c, d) \<Rightarrow>
       if list_all is_digit (a @ b @ c @ d)
       then Some (word_of_nat (((dec_value a * 256 + dec_value b) * 256 + dec_value c) * 256 + dec_value d)) else None)))"

definition nibbles :: "u8 \<Rightarrow> string" where
  "nibbles x = [char_of (97 + unat x div 16), char_of (97 + unat x mod 16)]"

fun from_nibbles :: "string \<Rightarrow> bytes" where
  "from_nibbles (a # b # cs) = word_of_nat ((code a - 97) * 16 + (code b - 97)) # from_nibbles cs"
| "from_nibbles _ = []"

definition toy_pton6 :: "string \<Rightarrow> bytes option" where
  "toy_pton6 s = (case s of [] \<Rightarrow> None | c # cs \<Rightarrow> if c = CHR '':'' \<and> length cs = 32 then Some (from_nibbles cs) else None)"

definition toy_ntop6 :: "bytes \<Rightarrow> nat \<Rightarrow> string option" where
  "toy_ntop6 b n = Some (CHR '':'' # concat (map nibbles b))"

lemma from_nibbles_concat [simp]: "from_nibbles (concat (map nibbles b)) = b"
proof (induction b)
  case (Cons x b)
  have "unat x div 16 < 16" using unat_lt_size(1) [of x] by (simp add: less_mult_imp_div_less)
  then show ?case using Cons by (simp add: nibbles_def)
qed simp

lemma length_nibbles [simp]: "length (concat (map nibbles b)) = 2 * length b"
  by (induction b) (simp_all add: nibbles_def)

lemma length_from_nibbles: "length (from_nibbles cs) = length cs div 2"
  by (induction cs rule: from_nibbles.induct) simp_all

lemma toy_pton4_ok: "pton4_ok toy_pton4"
proof -
  have d: "CHR ''.'' \<notin> set (dec n)" for n using dec_digits [of n] by (auto simp: is_digit_def)
  have l: "list_all is_digit (dec n)" for n using dec_digits [of n] by (simp add: list_all_iff)
  have s: "split_at CHR ''.'' (dec n @ ''.'' @ r) = Some (dec n, r)" for n r using split_at_append [OF d] by simp
  show ?thesis by (simp only: pton4_ok_def toy_pton4_def s option.case prod.case) (simp add: l)
qed

lemma toy_ntop6_ok: "ntop6_ok toy_ntop6 toy_pton4 toy_pton6"
proof -
  have "toy_pton4 (CHR '':'' # cs) = None" for cs
    by (auto simp: toy_pton4_def split_at_def is_digit_def split: option.splits)
  then show ?thesis by (simp add: ntop6_ok_def toy_ntop6_def toy_pton6_def)
qed

end
