(* ===== verification/Cidr_File.thy ===== *)
theory Cidr_File
  imports Cidr_Enum Util
begin

text \<open>
  The text side of \<^verbatim>\<open>src/core/cidr.c\<close>: \<open>qn_cidr_parse\<close>, the line reader of range files and the
  validated snapshot of a file.  A file is its sequence of bytes; for the snapshot the answers
  of the system calls are a record, in the order the code makes them, and a list of results
  stands for consecutive \<open>read\<close> calls, followed by end of file.
\<close>

section \<open>Prefix text\<close>

text \<open>The second half of \<open>qn_cidr_parse\<close>; without a length the prefix is the address alone.\<close>

definition cidr_finish :: "(string \<Rightarrow> u32 option) \<Rightarrow> (string \<Rightarrow> bytes option) \<Rightarrow> string \<Rightarrow> nat option \<Rightarrow> qn_prefix option" where
  "cidr_finish pton4 pton6 buf bits0 =
     (case qn_addr_parse pton4 pton6 buf of
        None \<Rightarrow> None
      | Some a \<Rightarrow>
          (let v4 = (case a of V4 _ \<Rightarrow> True | V6 _ \<Rightarrow> False);
               bits = (case bits0 of None \<Rightarrow> (if v4 then 32 else 128) | Some b \<Rightarrow> b)
           in if v4 \<and> bits > 32 then None else Some (prefix_of a bits)))"

definition qn_cidr_parse :: "(string \<Rightarrow> u32 option) \<Rightarrow> (string \<Rightarrow> bytes option) \<Rightarrow> string \<Rightarrow> qn_prefix option" where
  "qn_cidr_parse pton4 pton6 s =
     (if snd (qn_strlcpy s 128) \<ge> 128 \<or> s = [] then None
      else (case split_at CHR ''/'' s of
              None \<Rightarrow> cidr_finish pton4 pton6 s None
            | Some (buf, tail) \<Rightarrow>
                (if tail = [] \<or> \<not> is_digit (hd tail) then None
                 else if after_digits tail \<noteq> [] \<or> dec_value (digits tail) > 128 then None
                 else cidr_finish pton4 pton6 buf (Some (dec_value (digits tail))))))"

definition qn_cidr_set_add_str :: "(string \<Rightarrow> u32 option) \<Rightarrow> (string \<Rightarrow> bytes option) \<Rightarrow> qn_cidr_set \<Rightarrow> string \<Rightarrow> qn_cidr_set option" where
  "qn_cidr_set_add_str pton4 pton6 s str =
     (case qn_cidr_parse pton4 pton6 str of None \<Rightarrow> None | Some p \<Rightarrow> qn_cidr_set_add s p)"

section \<open>Range files\<close>

record qn_cidr_report =
  cr_accepted :: nat
  cr_rejected :: nat
  cr_overflow :: nat
  cr_bad_line :: nat
  cr_bad_text :: string

definition report_zero :: qn_cidr_report where
  "report_zero = \<lparr>cr_accepted = 0, cr_rejected = 0, cr_overflow = 0, cr_bad_line = 0, cr_bad_text = []\<rparr>"

definition blank :: "char \<Rightarrow> bool" where "blank c \<longleftrightarrow> c = CHR '' '' \<or> c = TAB"

definition range_line :: "string \<Rightarrow> string option" where
  "range_line line =
     (let p = dropWhile blank line in
      case p of
        [] \<Rightarrow> None
      | c # _ \<Rightarrow>
          if c = CHR ''#'' \<or> c = CHR '';'' \<or> c = LF \<or> c = CR then None
          else (let t = rev (dropWhile (\<lambda>c. c = LF \<or> c = CR \<or> blank c) (rev p)) in if t = [] then None else Some t))"

text \<open>The first offender stays on record.\<close>

definition note_bad :: "nat \<Rightarrow> string \<Rightarrow> qn_cidr_report \<Rightarrow> qn_cidr_report" where
  "note_bad lineno txt rep =
     (if cr_bad_line rep = 0 then rep\<lparr>cr_bad_line := lineno, cr_bad_text := the (fst (qn_strlcpy txt 80))\<rparr> else rep)"

text \<open>\<open>required_af\<close>: \<open>None\<close> for both families, else whether IPv4 is required.\<close>

definition af_refused :: "bool option \<Rightarrow> qn_prefix \<Rightarrow> bool" where
  "af_refused required p = (case required of None \<Rightarrow> False
     | Some v4 \<Rightarrow> (case px_net p of V4 _ \<Rightarrow> \<not> v4 | V6 _ \<Rightarrow> v4))"

definition take_line ::
  "(string \<Rightarrow> qn_prefix option) \<Rightarrow> bool option \<Rightarrow> nat \<Rightarrow> string \<Rightarrow> qn_cidr_set \<times> qn_cidr_report \<Rightarrow> qn_cidr_set \<times> qn_cidr_report" where
  "take_line parse required lineno t sr =
     (let (s, rep) = sr in
      case parse t of
        None \<Rightarrow> (s, note_bad lineno t (rep\<lparr>cr_rejected := cr_rejected rep + 1\<rparr>))
      | Some p \<Rightarrow>
          if af_refused required p then (s, note_bad lineno t (rep\<lparr>cr_rejected := cr_rejected rep + 1\<rparr>))
          else (case qn_cidr_set_add s p of
                  None \<Rightarrow> (s, note_bad lineno t (rep\<lparr>cr_overflow := cr_overflow rep + 1\<rparr>))
                | Some s' \<Rightarrow> (s', rep\<lparr>cr_accepted := cr_accepted rep + 1\<rparr>)))"

function load_loop ::
  "(string \<Rightarrow> qn_prefix option) \<Rightarrow> bool option \<Rightarrow> string \<Rightarrow> nat \<Rightarrow> qn_cidr_set \<times> qn_cidr_report \<Rightarrow> nat \<times> qn_cidr_set \<times> qn_cidr_report" where
  "load_loop parse required f lineno sr =
     (if f = [] then (lineno, sr)
      else (let (line, rest) = fgets 160 f; lineno = lineno + 1; (s, rep) = sr in
            if \<not> line_complete 160 line
            then load_loop parse required (skip_line rest) lineno
                   (s, note_bad lineno ''line-too-long'' (rep\<lparr>cr_rejected := cr_rejected rep + 1\<rparr>))
            else (case range_line (cstr line) of
                    None \<Rightarrow> load_loop parse required rest lineno sr
                  | Some t \<Rightarrow> load_loop parse required rest lineno (take_line parse required lineno t sr))))"
  by pat_completeness auto
termination
proof (relation "measure (\<lambda>(parse, required, f, lineno, sr). length f)", goal_cases)
  case (2 parse required f lineno sr x line rest l p s rep)
  then have "length rest < length f" using fgets_rest [of line rest 160 f] by simp
  then show ?case using skip_line_shorter [of rest] by simp
next
  case (3 parse required f lineno sr x line rest l p s rep)
  then have "length rest < length f" using fgets_rest [of line rest 160 f] by simp
  then show ?case by simp
next
  case (4 parse required f lineno sr x line rest l p s rep t)
  then have "length rest < length f" using fgets_rest [of line rest 160 f] by simp
  then show ?case by simp
qed simp

declare load_loop.simps [simp del]

definition report_good :: "qn_cidr_report \<Rightarrow> bool" where
  "report_good rep \<longleftrightarrow> cr_accepted rep \<noteq> 0 \<and> cr_rejected rep = 0 \<and> cr_overflow rep = 0"

text \<open>\<open>file\<close> is \<open>None\<close> if the file cannot be opened; \<open>failed\<close> says that reading stopped with an error.\<close>

definition qn_cidr_set_load_file_af ::
  "(string \<Rightarrow> qn_prefix option) \<Rightarrow> qn_cidr_set \<Rightarrow> string option \<Rightarrow> bool \<Rightarrow> bool option \<Rightarrow> bool \<times> qn_cidr_set \<times> qn_cidr_report" where
  "qn_cidr_set_load_file_af parse s file failed required =
     (case file of
        None \<Rightarrow> (False, s, report_zero)
      | Some f \<Rightarrow>
          (let (lineno, s', rep) = load_loop parse required f 0 (s, report_zero);
               rep' = (if failed \<and> cr_bad_line rep = 0
                       then rep\<lparr>cr_bad_line := lineno + 1, cr_bad_text := ''read-error'', cr_rejected := cr_rejected rep + 1\<rparr>
                       else rep)
           in (report_good rep', s', rep')))"

definition qn_cidr_set_load_file :: "(string \<Rightarrow> qn_prefix option) \<Rightarrow> qn_cidr_set \<Rightarrow> string option \<Rightarrow> bool \<Rightarrow> bool \<times> qn_cidr_set \<times> qn_cidr_report" where
  "qn_cidr_set_load_file parse s file failed = qn_cidr_set_load_file_af parse s file failed None"

function file_lines :: "string \<Rightarrow> nat \<Rightarrow> nat" where
  "file_lines f n =
     (if f = [] then n
      else (let (line, rest) = fgets 160 f in
            if \<not> line_complete 160 line then file_lines (skip_line rest) n
            else file_lines rest (if range_line (cstr line) \<noteq> None then n + 1 else n)))"
  by pat_completeness auto
termination
proof (relation "measure (\<lambda>(f, n). length f)", goal_cases)
  case (2 f n x line rest)
  then have "length rest < length f" using fgets_rest [of line rest 160 f] by simp
  then show ?case using skip_line_shorter [of rest] by simp
next
  case (3 f n x line rest)
  then have "length rest < length f" using fgets_rest [of line rest 160 f] by simp
  then show ?case by simp
qed simp

declare file_lines.simps [simp del]

definition qn_cidr_file_lines :: "string option \<Rightarrow> nat" where
  "qn_cidr_file_lines file = (case file of None \<Rightarrow> 0 | Some f \<Rightarrow> file_lines f 0)"

section \<open>Snapshots\<close>

datatype qn_snapshot_status = QN_SNAPSHOT_NONE | QN_SNAPSHOT_OK | QN_SNAPSHOT_OPEN_FAILED | QN_SNAPSHOT_NOT_REGULAR
  | QN_SNAPSHOT_TOO_LARGE | QN_SNAPSHOT_SHORT_READ | QN_SNAPSHOT_GREW | QN_SNAPSHOT_METADATA_CHANGED
  | QN_SNAPSHOT_REPLACED | QN_SNAPSHOT_IO_FAILED | QN_SNAPSHOT_OVERFLOW

fun qn_snapshot_status_str :: "qn_snapshot_status \<Rightarrow> string" where
  "qn_snapshot_status_str QN_SNAPSHOT_NONE = ''none''"
| "qn_snapshot_status_str QN_SNAPSHOT_OK = ''ok''"
| "qn_snapshot_status_str QN_SNAPSHOT_OPEN_FAILED = ''open-failed''"
| "qn_snapshot_status_str QN_SNAPSHOT_NOT_REGULAR = ''not-regular''"
| "qn_snapshot_status_str QN_SNAPSHOT_TOO_LARGE = ''file-too-large''"
| "qn_snapshot_status_str QN_SNAPSHOT_SHORT_READ = ''short-read''"
| "qn_snapshot_status_str QN_SNAPSHOT_GREW = ''file-grew''"
| "qn_snapshot_status_str QN_SNAPSHOT_METADATA_CHANGED = ''metadata-changed''"
| "qn_snapshot_status_str QN_SNAPSHOT_REPLACED = ''file-replaced''"
| "qn_snapshot_status_str QN_SNAPSHOT_IO_FAILED = ''read-error''"
| "qn_snapshot_status_str QN_SNAPSHOT_OVERFLOW = ''size-overflow''"

record stat =
  st_dev :: nat
  st_ino :: nat
  st_mode :: nat
  st_uid :: nat
  st_gid :: nat
  st_nlink :: nat
  st_size :: int
  st_mtim :: "int \<times> int"
  st_ctim :: "int \<times> int"

text \<open>An error number, or the result.\<close>

datatype read_result = Got string | Eof | Intr | Failed int

record snap_io =
  io_open :: "int option"
  io_fstat :: "int + stat"
  io_alloc :: "nat \<Rightarrow> bool"
  io_reads :: "read_result list"
  io_extra :: "read_result list"
  io_fstat2 :: "int + stat"
  io_stat :: "int + stat"
  io_close :: "int option"

abbreviation QN_CIDR_FILE_MAX :: int where "QN_CIDR_FILE_MAX \<equiv> 4194304"
abbreviation EINVAL :: int where "EINVAL \<equiv> 22"
abbreviation EFBIG :: int where "EFBIG \<equiv> 27"
abbreviation ENOMEM :: int where "ENOMEM \<equiv> 12"
abbreviation ESTALE :: int where "ESTALE \<equiv> 116"

text \<open>\<open>S_ISREG\<close>.\<close>

definition is_regular :: "nat \<Rightarrow> bool" where "is_regular mode \<longleftrightarrow> mode div 4096 mod 16 = 8"

definition same_snapshot_metadata :: "stat \<Rightarrow> stat \<Rightarrow> bool" where
  "same_snapshot_metadata a b \<longleftrightarrow> st_dev a = st_dev b \<and> st_ino a = st_ino b \<and> st_mode a = st_mode b \<and>
     st_uid a = st_uid b \<and> st_gid a = st_gid b \<and> st_nlink a = st_nlink b \<and> st_size a = st_size b \<and>
     st_mtim a = st_mtim b \<and> st_ctim a = st_ctim b"

fun read_all :: "read_result list \<Rightarrow> nat \<Rightarrow> string \<Rightarrow> (qn_snapshot_status \<times> int) + string" where
  "read_all rs cap buf =
     (if length buf \<ge> cap then Inr buf
      else (case rs of
              [] \<Rightarrow> Inl (QN_SNAPSHOT_SHORT_READ, ESTALE)
            | Got bs # rs' \<Rightarrow> if bs = [] then Inl (QN_SNAPSHOT_SHORT_READ, ESTALE)
                              else read_all rs' cap (buf @ take (cap - length buf) bs)
            | Eof # _ \<Rightarrow> Inl (QN_SNAPSHOT_SHORT_READ, ESTALE)
            | Intr # rs' \<Rightarrow> read_all rs' cap buf
            | Failed e # _ \<Rightarrow> Inl (QN_SNAPSHOT_IO_FAILED, e)))"

declare read_all.simps [simp del]

fun read_extra :: "read_result list \<Rightarrow> (qn_snapshot_status \<times> int) option" where
  "read_extra [] = None"
| "read_extra (Got bs # rs) = (if bs = [] then None else Some (QN_SNAPSHOT_GREW, ESTALE))"
| "read_extra (Eof # rs) = None"
| "read_extra (Intr # rs) = read_extra rs"
| "read_extra (Failed e # rs) = Some (QN_SNAPSHOT_IO_FAILED, e)"

text \<open>From \<open>open\<close> to \<open>close\<close>: the bytes, or the status and error number of the first check that fails.\<close>

definition read_snapshot :: "snap_io \<Rightarrow> (qn_snapshot_status \<times> int) + string" where
  "read_snapshot io =
     (case io_open io of Some e \<Rightarrow> Inl (QN_SNAPSHOT_OPEN_FAILED, e) | None \<Rightarrow>
     (case io_fstat io of Inl e \<Rightarrow> Inl (QN_SNAPSHOT_IO_FAILED, e) | Inr before \<Rightarrow>
      if \<not> is_regular (st_mode before) then Inl (QN_SNAPSHOT_NOT_REGULAR, EINVAL)
      else if st_size before < 0 \<or> st_size before > QN_CIDR_FILE_MAX then Inl (QN_SNAPSHOT_TOO_LARGE, EFBIG)
      else if \<not> io_alloc io (nat (st_size before) + 1) then Inl (QN_SNAPSHOT_IO_FAILED, ENOMEM)
      else
     (case read_all (io_reads io) (nat (st_size before)) [] of Inl f \<Rightarrow> Inl f | Inr buf \<Rightarrow>
     (case read_extra (io_extra io) of Some f \<Rightarrow> Inl f | None \<Rightarrow>
     (case io_fstat2 io of Inl e \<Rightarrow> Inl (QN_SNAPSHOT_IO_FAILED, e) | Inr after \<Rightarrow>
      if \<not> same_snapshot_metadata before after then Inl (QN_SNAPSHOT_METADATA_CHANGED, ESTALE)
      else
     (case io_stat io of Inl e \<Rightarrow> Inl (QN_SNAPSHOT_REPLACED, e) | Inr path_after \<Rightarrow>
      if st_dev before \<noteq> st_dev path_after \<or> st_ino before \<noteq> st_ino path_after then Inl (QN_SNAPSHOT_REPLACED, ESTALE)
      else if \<not> same_snapshot_metadata before path_after then Inl (QN_SNAPSHOT_METADATA_CHANGED, ESTALE)
      else
     (case io_close io of Some e \<Rightarrow> Inl (QN_SNAPSHOT_IO_FAILED, e) | None \<Rightarrow> Inr buf)))))))"

definition snapshot_fail :: "qn_snapshot_status \<Rightarrow> qn_cidr_report" where
  "snapshot_fail status = report_zero\<lparr>cr_bad_line := 1, cr_rejected := 1,
     cr_bad_text := the (fst (qn_strlcpy (qn_snapshot_status_str status) 80))\<rparr>"

text \<open>A line without its newline and one CR before it; \<open>None\<close> if too long or with a NUL.\<close>

datatype snap_line = Line string | Overlong | Has_nul

definition snap_next :: "string \<Rightarrow> snap_line \<times> string" where
  "snap_next buf =
     (let raw = takeWhile (\<lambda>c. c \<noteq> LF) buf;
          txt = (if raw \<noteq> [] \<and> last raw = CR then butlast raw else raw);
          ln = (if NUL \<in> set txt then Has_nul else if length txt \<ge> 160 then Overlong else Line txt)
      in (ln, tl (dropWhile (\<lambda>c. c \<noteq> LF) buf)))"

lemma snap_next_shorter: "buf \<noteq> [] \<Longrightarrow> length (snd (snap_next buf)) < length buf"
  using length_dropWhile_le [of "\<lambda>c. c \<noteq> LF" buf] by (cases buf) (auto simp: snap_next_def Let_def less_Suc_eq_le)

function snap_want :: "string \<Rightarrow> nat" where
  "snap_want buf =
     (if buf = [] then 0
      else (let (ln, rest) = snap_next buf in
            (case ln of Line t \<Rightarrow> (if range_line t \<noteq> None then 1 else 0) | _ \<Rightarrow> 0) + snap_want rest))"
  by pat_completeness auto
termination by (relation "measure length") (auto dest: snap_next_shorter simp: prod_eq_iff)

declare snap_want.simps [simp del]

function snap_loop ::
  "(string \<Rightarrow> qn_prefix option) \<Rightarrow> bool option \<Rightarrow> string \<Rightarrow> nat \<Rightarrow> qn_cidr_set \<times> qn_cidr_report \<Rightarrow> qn_cidr_set \<times> qn_cidr_report" where
  "snap_loop parse required buf lineno sr =
     (if buf = [] then sr
      else (let (ln, rest) = snap_next buf; lineno = lineno + 1; (s, rep) = sr in
            case ln of
              Line txt \<Rightarrow> (case range_line txt of
                  None \<Rightarrow> snap_loop parse required rest lineno sr
                | Some t \<Rightarrow> snap_loop parse required rest lineno (take_line parse required lineno t sr))
            | Has_nul \<Rightarrow> snap_loop parse required rest lineno
                (s, note_bad lineno ''embedded-nul'' (rep\<lparr>cr_rejected := cr_rejected rep + 1\<rparr>))
            | Overlong \<Rightarrow> snap_loop parse required rest lineno
                (s, note_bad lineno ''line-too-long'' (rep\<lparr>cr_rejected := cr_rejected rep + 1\<rparr>))))"
  by pat_completeness auto
termination
  by (relation "measure (\<lambda>(parse, required, buf, lineno, sr). length buf)")
    (auto dest: snap_next_shorter simp: prod_eq_iff)

declare snap_loop.simps [simp del]

text \<open>
  The whole loader.  \<open>alloc\<close> says whether the arena has room for the set; the result has the
  set, if one was set up, and the digest of the bytes, if they were read.
\<close>

definition qn_cidr_set_load_snapshot ::
  "(string \<Rightarrow> 'd) \<Rightarrow> (string \<Rightarrow> qn_prefix option) \<Rightarrow> (nat \<Rightarrow> bool) \<Rightarrow> snap_io \<Rightarrow> bool option \<Rightarrow>
    bool \<times> qn_cidr_set option \<times> qn_cidr_report \<times> qn_snapshot_status \<times> 'd option" where
  "qn_cidr_set_load_snapshot sha256 parse alloc io required =
     (case read_snapshot io of
        Inl (st, e) \<Rightarrow> (False, None, snapshot_fail st, st, None)
      | Inr buf \<Rightarrow>
          (let want = snap_want buf in
           case qn_cidr_set_init alloc (if want \<noteq> 0 then want else 1) of
             None \<Rightarrow> (False, None, report_zero, QN_SNAPSHOT_OK, Some (sha256 buf))
           | Some s0 \<Rightarrow>
               (let (s, rep) = snap_loop parse required buf 0 (s0, report_zero)
                in (report_good rep, Some s, rep, QN_SNAPSHOT_OK, Some (sha256 buf)))))"

section \<open>Laws\<close>

lemma hosts_count: "qn_prefix_hosts \<lparr>px_net = n, px_bits = b, px_count = c\<rparr> = qn_prefix_hosts \<lparr>px_net = n, px_bits = b, px_count = 0\<rparr>"
  by (cases n) (simp_all add: qn_prefix_hosts_def cong: if_cong)

lemma prefix_of_ok:
  assumes "addr_ok a" "case a of V4 _ \<Rightarrow> bits \<le> 32 | V6 _ \<Rightarrow> bits \<le> 128"
  shows "prefix_ok (prefix_of a bits)"
proof (cases a)
  case (V4 x)
  let ?m = "if bits \<noteq> 0 then x AND mask_v4 bits else 0"
  have "?m AND mask_v4 bits = ?m" by (simp add: and.assoc)
  then show ?thesis using V4 assms
    by (simp add: prefix_ok_def prefix_of_def Let_def hosts_count [of _ _ "qn_prefix_hosts _"] px_width_def addr_ok_def)
next
  case (V6 b)
  have l: "length b = 16" using V6 assms by (simp add: addr_ok_def)
  have "mask_v6 (mask_v6 b bits) bits = mask_v6 b bits"
    using be_value_inj [of "mask_v6 (mask_v6 b bits) bits" "mask_v6 b bits"] mask_v6_value [OF l] mask_v6_value [of "mask_v6 b bits"]
    by simp
  then show ?thesis using V6 assms
    by (simp add: prefix_ok_def prefix_of_def Let_def hosts_count [of _ _ "qn_prefix_hosts _"] px_width_def addr_ok_def)
qed

lemma prefix_of_parts: "px_bits (prefix_of a bits) = bits"
  "(case px_net (prefix_of a bits) of V4 _ \<Rightarrow> True | V6 _ \<Rightarrow> False) = (case a of V4 _ \<Rightarrow> True | V6 _ \<Rightarrow> False)"
  by (simp_all add: prefix_of_def Let_def split: qn_addr.split)

text \<open>\<open>inet_pton\<close> writes 16 bytes for an IPv6 address; a parser yields valid prefixes.\<close>

definition pton6_ok :: "(string \<Rightarrow> bytes option) \<Rightarrow> bool" where
  "pton6_ok pton6 \<longleftrightarrow> (\<forall>s b. pton6 s = Some b \<longrightarrow> length b = 16)"

definition parse_ok :: "(string \<Rightarrow> qn_prefix option) \<Rightarrow> bool" where
  "parse_ok parse \<longleftrightarrow> (\<forall>t p. parse t = Some p \<longrightarrow> prefix_ok p)"

lemma cidr_finish_ok:
  assumes p6: "pton6_ok pton6" and p: "cidr_finish pton4 pton6 buf bits0 = Some p"
    and b: "\<And>b. bits0 = Some b \<Longrightarrow> b \<le> 128"
  shows "prefix_ok p"
proof -
  obtain a where a: "qn_addr_parse pton4 pton6 buf = Some a" using p by (auto simp: cidr_finish_def split: option.splits)
  have "addr_ok a" using p6 a by (auto simp: pton6_ok_def qn_addr_parse_def addr_ok_def split: if_splits option.splits)
  then show ?thesis using p a b
    by (cases a; cases bits0) (auto simp: cidr_finish_def Let_def split: if_splits intro!: prefix_of_ok)
qed

lemma cidr_parse_ok:
  assumes p6: "pton6_ok pton6" and p: "qn_cidr_parse pton4 pton6 s = Some p"
  shows "prefix_ok p"
  using p cidr_finish_ok [OF p6] unfolding qn_cidr_parse_def
  by (force split: if_splits option.splits prod.splits)

lemma set_add_room:
  assumes "prefix_ok p" "length (cs_v s) < cs_cap s"
  shows "qn_cidr_set_add s p = Some (s\<lparr>cs_v := cs_v s @ [p]\<rparr>)"
  using assms hosts_le_size [OF assms(1)] by (auto simp: qn_cidr_set_add_def prefix_ok_def split: qn_addr.splits)

text \<open>The items of a file: the text of a data line, or nothing for a line that is refused.\<close>

function snap_items :: "string \<Rightarrow> string option list" where
  "snap_items buf =
     (if buf = [] then []
      else (let (ln, rest) = snap_next buf in
            (case ln of Line t \<Rightarrow> (case range_line t of None \<Rightarrow> [] | Some u \<Rightarrow> [Some u]) | _ \<Rightarrow> [None]) @ snap_items rest))"
  by pat_completeness auto
termination by (relation "measure length") (auto dest: snap_next_shorter simp: prod_eq_iff)

declare snap_items.simps [simp del]

definition take_item :: "(string \<Rightarrow> qn_prefix option) \<Rightarrow> bool option \<Rightarrow> string option \<Rightarrow> qn_prefix option" where
  "take_item parse required it = (case it of None \<Rightarrow> None | Some t \<Rightarrow>
     (case parse t of None \<Rightarrow> None | Some p \<Rightarrow> if af_refused required p then None else Some p))"

definition accepted :: "(string \<Rightarrow> qn_prefix option) \<Rightarrow> bool option \<Rightarrow> string option list \<Rightarrow> qn_prefix list" where
  "accepted parse required its = List.map_filter (take_item parse required) its"

lemma accepted_Nil [simp]: "accepted parse required [] = []" by (simp add: accepted_def)

lemma accepted_append: "accepted parse required (xs @ ys) = accepted parse required xs @ accepted parse required ys"
  by (simp add: accepted_def map_filter_def)

lemma snap_want_items: "snap_want buf = length (filter (\<lambda>i. i \<noteq> None) (snap_items buf))"
proof (induction buf rule: snap_want.induct)
  case (1 buf)
  obtain ln rest where n: "snap_next buf = (ln, rest)" by force
  show ?case
  proof (cases "buf = []")
    case False
    then have "snap_want rest = length (filter (\<lambda>i. i \<noteq> None) (snap_items rest))" using 1 n by simp
    then show ?thesis using False n
      by (subst snap_want.simps, subst snap_items.simps) (auto split: snap_line.split option.split)
  qed (simp add: snap_want.simps snap_items.simps)
qed

definition rep_step :: "nat \<Rightarrow> nat \<Rightarrow> qn_cidr_report \<Rightarrow> qn_cidr_report \<Rightarrow> bool" where
  "rep_step a r rep rep' \<longleftrightarrow> cr_accepted rep' = cr_accepted rep + a \<and> cr_rejected rep' = cr_rejected rep + r \<and>
     cr_overflow rep' = cr_overflow rep"

lemma note_bad_counts [simp]:
  "cr_accepted (note_bad l t rep) = cr_accepted rep" "cr_rejected (note_bad l t rep) = cr_rejected rep"
  "cr_overflow (note_bad l t rep) = cr_overflow rep"
  by (simp_all add: note_bad_def)

lemma take_line_spec:
  assumes ok: "parse_ok parse" and room: "length (cs_v s) < cs_cap s"
  shows "\<exists>rep'. take_line parse required n t (s, rep) = (s\<lparr>cs_v := cs_v s @ accepted parse required [Some t]\<rparr>, rep') \<and>
    rep_step (length (accepted parse required [Some t])) (1 - length (accepted parse required [Some t])) rep rep'"
proof (cases "take_item parse required (Some t)")
  case None
  then have a: "accepted parse required [Some t] = []" by (simp add: accepted_def map_filter_def)
  show ?thesis using None unfolding a
    by (auto simp: take_line_def take_item_def rep_step_def split: option.splits if_splits)
next
  case (Some p)
  then have a: "accepted parse required [Some t] = [p]" by (simp add: accepted_def map_filter_def)
  have p: "parse t = Some p" "\<not> af_refused required p"
    using Some by (auto simp: take_item_def split: option.splits if_splits)
  have "prefix_ok p" using ok p(1) by (simp add: parse_ok_def)
  then show ?thesis using p set_add_room [OF _ room] unfolding a by (simp add: take_line_def rep_step_def)
qed

lemma accepted_le: "length (accepted parse required its) \<le> length (filter (\<lambda>i. i \<noteq> None) its)"
  by (induction its) (auto simp: accepted_def map_filter_def take_item_def split: option.splits)

lemma snap_loop_spec:
  assumes ok: "parse_ok parse"
    and room: "length (cs_v s) + snap_want buf \<le> cs_cap s"
  shows "\<exists>rep'. snap_loop parse required buf n (s, rep) =
      (s\<lparr>cs_v := cs_v s @ accepted parse required (snap_items buf)\<rparr>, rep') \<and>
    rep_step (length (accepted parse required (snap_items buf)))
      (length (snap_items buf) - length (accepted parse required (snap_items buf))) rep rep'"
  using room
proof (induction "length buf" arbitrary: buf n s rep rule: less_induct)
  case less
  obtain ln rest where nx: "snap_next buf = (ln, rest)" by force
  show ?case
  proof (cases "buf = []")
    case True
    then show ?thesis by (subst snap_loop.simps) (simp add: snap_items.simps rep_step_def)
  next
    case False
    have sh: "length rest < length buf" using snap_next_shorter [OF False] nx by simp
    have w: "snap_want buf = (case ln of Line t \<Rightarrow> (if range_line t \<noteq> None then 1 else 0) | _ \<Rightarrow> 0) + snap_want rest"
      using False nx by (subst snap_want.simps) simp
    have it: "snap_items buf = (case ln of Line t \<Rightarrow> (case range_line t of None \<Rightarrow> [] | Some u \<Rightarrow> [Some u]) | _ \<Rightarrow> [None]) @ snap_items rest"
      using False nx by (subst snap_items.simps) simp
    let ?A = "accepted parse required" let ?its = "snap_items rest"
    have lm: "length (?A its) \<le> length its" for its using accepted_le [of parse required its] length_filter_le [of "\<lambda>i. i \<noteq> None" its] by linarith
    have bad: "\<exists>rep'. snap_loop parse required buf n (s, rep) =
      (s\<lparr>cs_v := cs_v s @ ?A (snap_items buf)\<rparr>, rep') \<and>
      rep_step (length (?A (snap_items buf))) (length (snap_items buf) - length (?A (snap_items buf))) rep rep'"
      if b: "snap_loop parse required buf n (s, rep) = snap_loop parse required rest (n + 1)
        (s, note_bad (n + 1) tx (rep\<lparr>cr_rejected := cr_rejected rep + 1\<rparr>))" and l: "snap_items buf = None # ?its" "snap_want buf = snap_want rest" for tx
    proof -
      from less.hyps [OF sh, of s "n + 1" "note_bad (n + 1) tx (rep\<lparr>cr_rejected := cr_rejected rep + 1\<rparr>)"] less.prems l(2)
      obtain rep' where "snap_loop parse required rest (n + 1) (s, note_bad (n + 1) tx (rep\<lparr>cr_rejected := cr_rejected rep + 1\<rparr>)) =
          (s\<lparr>cs_v := cs_v s @ ?A ?its\<rparr>, rep')"
        "rep_step (length (?A ?its)) (length ?its - length (?A ?its)) (note_bad (n + 1) tx (rep\<lparr>cr_rejected := cr_rejected rep + 1\<rparr>)) rep'" by auto
      moreover have "?A (snap_items buf) = ?A ?its" by (simp add: l accepted_def map_filter_def take_item_def)
      ultimately show ?thesis using b l(1) lm [of ?its] by (auto simp: rep_step_def Suc_diff_le)
    qed
    show ?thesis
    proof (cases ln)
      case (Line tx)
      show ?thesis
      proof (cases "range_line tx")
        case None
        have "snap_loop parse required buf n (s, rep) = snap_loop parse required rest (n + 1) (s, rep)"
          using False nx Line None by (subst snap_loop.simps) simp
        then show ?thesis using less.hyps [OF sh, of s "n + 1" rep] less.prems w it Line None by simp
      next
        case (Some t)
        have room1: "length (cs_v s) < cs_cap s" using less.prems w Line Some by simp
        from take_line_spec [where parse = parse and required = required and n = "n + 1" and t = t and rep = rep, OF ok room1] obtain rep1
          where t1: "take_line parse required (n + 1) t (s, rep) = (s\<lparr>cs_v := cs_v s @ ?A [Some t]\<rparr>, rep1)"
            "rep_step (length (?A [Some t])) (1 - length (?A [Some t])) rep rep1" by blast
        have l1: "length (?A [Some t]) \<le> 1" using lm [of "[Some t]"] by simp
        have "snap_loop parse required buf n (s, rep) = snap_loop parse required rest (n + 1) (s\<lparr>cs_v := cs_v s @ ?A [Some t]\<rparr>, rep1)"
          using False nx Line Some t1(1) by (subst snap_loop.simps) simp
        moreover have "length (cs_v (s\<lparr>cs_v := cs_v s @ ?A [Some t]\<rparr>)) + snap_want rest \<le> cs_cap (s\<lparr>cs_v := cs_v s @ ?A [Some t]\<rparr>)"
          using less.prems w Line Some l1 by simp
        note less.hyps [OF sh this, of "n + 1" rep1]
        ultimately show ?thesis using t1(2) it Line Some accepted_append [of parse required "[Some t]" ?its] lm [of ?its] l1
          by (auto simp: rep_step_def)
      qed
    next
      case Overlong
      then show ?thesis using False nx it w by (intro bad [of "''line-too-long''"]) (subst snap_loop.simps, simp_all)
    next
      case Has_nul
      then show ?thesis using False nx it w by (intro bad [of "''embedded-nul''"]) (subst snap_loop.simps, simp_all)
    qed
  qed
qed

lemma read_all_length: "length buf \<le> cap \<Longrightarrow> read_all rs cap buf = Inr r \<Longrightarrow> length r = cap"
proof (induction rs arbitrary: buf)
  case Nil
  then show ?case by (subst (asm) read_all.simps) (auto split: if_splits)
next
  case (Cons x rs)
  show ?case
  proof (cases "length buf \<ge> cap")
    case True
    then show ?thesis using Cons.prems by (subst (asm) read_all.simps) auto
  next
    case False
    then show ?thesis
      using Cons.prems(2) Cons.IH [of buf] Cons.IH [of "buf @ take (cap - length buf) bs" for bs]
      by (subst (asm) read_all.simps) (auto split: read_result.splits if_splits)
  qed
qed

section \<open>Theorems\<close>

text \<open>
  Property C19.  Every prefix that \<^verbatim>\<open>qn_cidr_parse\<close> returns is valid: its length fits the family, the host
  bits of its network address are zero and its count is the number of its hosts.  So
  \<^verbatim>\<open>qn_cidr_set_add\<close> takes it whenever there is room, and the set stays well formed.
\<close>

theorem cidr_parse_valid:
  assumes "pton6_ok pton6" "qn_cidr_parse pton4 pton6 str = Some p" "cidr_set_ok s"
  shows "prefix_ok p \<and>
    qn_cidr_set_add s p = (if length (cs_v s) < cs_cap s then Some (s\<lparr>cs_v := cs_v s @ [p]\<rparr>) else None) \<and>
    (\<forall>s'. qn_cidr_set_add s p = Some s' \<longrightarrow> cidr_set_ok s')"
proof -
  have p: "prefix_ok p" by (rule cidr_parse_ok [OF assms(1,2)])
  then have "addr_ok (px_net p)" by (simp add: prefix_ok_def)
  then show ?thesis using p set_add_room [OF p] set_add_ok [OF assms(3)] by (auto simp: qn_cidr_set_add_def)
qed

lemma toy_pton6_ok: "pton6_ok (\<lambda>s. None)" by (simp add: pton6_ok_def)

theorem cidr_parse_valid_witness:
  "\<exists>p. qn_cidr_parse (\<lambda>s. if s = ''10.0.0.9'' then Some 0x0A000009 else None) (\<lambda>s. None) ''10.0.0.9/24'' = Some p \<and> prefix_ok p"
proof -
  obtain p where p: "qn_cidr_parse (\<lambda>s. if s = ''10.0.0.9'' then Some 0x0A000009 else None) (\<lambda>s. None) ''10.0.0.9/24'' = Some p"
    by (simp add: qn_cidr_parse_def qn_strlcpy_def split_at_def is_digit_def after_digits_def digits_def dec_value_def digit_value_def
        cidr_finish_def qn_addr_parse_def)
  show ?thesis using cidr_parse_valid [OF toy_pton6_ok p two_halves_ok] p by blast
qed


definition small_stat :: stat where
  "small_stat = \<lparr>st_dev = 1, st_ino = 2, st_mode = 33188, st_uid = 0, st_gid = 0, st_nlink = 1, st_size = 1,
     st_mtim = (0, 0), st_ctim = (0, 0)\<rparr>"

definition small_io :: snap_io where
  "small_io = \<lparr>io_open = None, io_fstat = Inr small_stat, io_alloc = (\<lambda>_. True), io_reads = [Intr, Got [LF]], io_extra = [Eof],
     io_fstat2 = Inr small_stat, io_stat = Inr small_stat, io_close = None\<rparr>"


end
