(* ===== verification/Topk.thy ===== *)
theory Topk
  imports Qn_Prelude "HOL-Library.Multiset"
begin

text \<open>
  \<^verbatim>\<open>src/core/topk.c\<close>: the best K items of a stream in fixed memory, a binary heap whose root is
  the worst item kept.  The list \<open>h_slot\<close> holds the live slots \<open>0..<n\<close>; the comparison the C
  code takes as a function pointer is an argument, positive when its first operand is better.

  The locale \<open>topk_order\<close> states what a comparison has to satisfy and proves the heap
  correct for every such comparison; the theory \<open>Cf_Sweep\<close> interprets it on the comparison
  that the Cloudflare sweep uses.
\<close>

record 'a qn_topk =
  h_slot :: "'a list"
  h_cap :: nat
  h_offered :: nat
  h_evicted :: nat

abbreviation h_n :: "'a qn_topk \<Rightarrow> nat" where "h_n h \<equiv> length (h_slot h)"

text \<open>Items are exchanged in chunks of at most 256 bytes.\<close>

function swap_bytes :: "bytes \<Rightarrow> bytes \<Rightarrow> bytes \<times> bytes" where
  "swap_bytes a b =
     (if a = [] then ([], b)
      else (let (ra, rb) = swap_bytes (drop 256 a) (drop 256 b) in (take 256 b @ ra, take 256 a @ rb)))"
  by pat_completeness auto
termination by (relation "measure (\<lambda>(a, b). length a)") auto

definition swap_slots :: "'a list \<Rightarrow> nat \<Rightarrow> nat \<Rightarrow> 'a list" where
  "swap_slots xs i j = xs[i := xs ! j, j := xs ! i]"

definition qn_topk_attach :: "nat \<Rightarrow> nat \<Rightarrow> 'a qn_topk option" where
  "qn_topk_attach cap esz =
     (if cap = 0 \<or> esz = 0 then None else Some \<lparr>h_slot = [], h_cap = cap, h_offered = 0, h_evicted = 0\<rparr>)"

text \<open>\<open>alloc\<close> is whether the arena has that many bytes left.\<close>

definition qn_topk_init :: "(nat \<Rightarrow> bool) \<Rightarrow> nat \<Rightarrow> nat \<Rightarrow> 'a qn_topk option" where
  "qn_topk_init alloc cap esz =
     (if cap = 0 \<or> esz = 0 \<or> UINT64_MAX < cap * esz then None
      else if \<not> alloc (cap * esz) then None
      else Some \<lparr>h_slot = [], h_cap = cap, h_offered = 0, h_evicted = 0\<rparr>)"

fun sift_up :: "('a \<Rightarrow> 'a \<Rightarrow> int) \<Rightarrow> 'a list \<Rightarrow> nat \<Rightarrow> 'a list" where
  "sift_up cmp xs i =
     (if i = 0 then xs
      else (let p = (i - 1) div 2
            in if cmp (xs ! i) (xs ! p) \<ge> 0 then xs else sift_up cmp (swap_slots xs i p) p))"

definition worst_child :: "('a \<Rightarrow> 'a \<Rightarrow> int) \<Rightarrow> 'a list \<Rightarrow> nat \<Rightarrow> nat" where
  "worst_child cmp xs i =
     (let l = 2 * i + 1; r = l + 1; m = i;
          m = (if l < length xs \<and> cmp (xs ! l) (xs ! m) < 0 then l else m);
          m = (if r < length xs \<and> cmp (xs ! r) (xs ! m) < 0 then r else m)
      in m)"

lemma worst_child_cases:
  "worst_child cmp xs i = i \<or> worst_child cmp xs i < length xs \<and>
     (worst_child cmp xs i = 2 * i + 1 \<or> worst_child cmp xs i = 2 * i + 2)"
  by (auto simp: worst_child_def Let_def)

function sift_down :: "('a \<Rightarrow> 'a \<Rightarrow> int) \<Rightarrow> 'a list \<Rightarrow> nat \<Rightarrow> 'a list" where
  "sift_down cmp xs i =
     (let m = worst_child cmp xs i in if m = i then xs else sift_down cmp (swap_slots xs i m) m)"
  by pat_completeness auto
termination
proof (relation "measure (\<lambda>(cmp, xs, i). length xs - i)", goal_cases)
  case (2 cmp xs i m)
  then show ?case using worst_child_cases [of cmp xs i] by (auto simp: swap_slots_def)
qed simp

declare sift_up.simps [simp del] sift_down.simps [simp del]

definition qn_topk_offer :: "('a \<Rightarrow> 'a \<Rightarrow> int) \<Rightarrow> 'a qn_topk \<Rightarrow> 'a \<Rightarrow> bool \<times> 'a qn_topk" where
  "qn_topk_offer cmp h0 item =
     (let h = h0\<lparr>h_offered := h_offered h0 + 1\<rparr> in
      if h_n h < h_cap h then (True, h\<lparr>h_slot := sift_up cmp (h_slot h @ [item]) (h_n h)\<rparr>)
      else if cmp item (h_slot h ! 0) \<le> 0 then (False, h)
      else (True, h\<lparr>h_slot := sift_down cmp ((h_slot h)[0 := item]) 0, h_evicted := h_evicted h + 1\<rparr>))"

text \<open>One turn of \<open>qn_topk_drain\<close> takes the root and moves the last live slot into its place;
  the caller's array is filled from the back.\<close>

definition drain_step :: "('a \<Rightarrow> 'a \<Rightarrow> int) \<Rightarrow> 'a list \<Rightarrow> 'a list" where
  "drain_step cmp xs =
     (let ys = butlast xs in if ys = [] then [] else sift_down cmp (ys[0 := last xs]) 0)"

lemma length_swap [simp]: "length (swap_slots xs i j) = length xs"
  by (simp add: swap_slots_def)

lemma length_sift_up [simp]: "length (sift_up cmp xs i) = length xs"
  by (induction cmp xs i rule: sift_up.induct) (subst sift_up.simps, auto simp: Let_def)

lemma length_sift_down [simp]: "length (sift_down cmp xs i) = length xs"
  by (induction cmp xs i rule: sift_down.induct) (subst sift_down.simps, auto simp: Let_def)

lemma length_drain_step [simp]: "length (drain_step cmp xs) = length xs - 1"
  by (cases xs rule: rev_cases) (auto simp: drain_step_def Let_def)

function drain_slots :: "('a \<Rightarrow> 'a \<Rightarrow> int) \<Rightarrow> 'a list \<Rightarrow> 'a list" where
  "drain_slots cmp xs = (if xs = [] then [] else drain_slots cmp (drain_step cmp xs) @ [xs ! 0])"
  by pat_completeness auto
termination by (relation "measure (\<lambda>(cmp, xs). length xs)") auto

declare drain_slots.simps [simp del]

definition qn_topk_drain :: "('a \<Rightarrow> 'a \<Rightarrow> int) \<Rightarrow> 'a qn_topk \<Rightarrow> 'a list \<times> 'a qn_topk" where
  "qn_topk_drain cmp h = (drain_slots cmp (h_slot h), h\<lparr>h_slot := []\<rparr>)"

definition qn_topk_full :: "'a qn_topk \<Rightarrow> bool" where
  "qn_topk_full h \<longleftrightarrow> h_n h \<ge> h_cap h"

section \<open>Moving items around\<close>

lemma swap_bytes_eq: "length a = length b \<Longrightarrow> swap_bytes a b = (b, a)"
proof (induction a b rule: swap_bytes.induct)
  case (1 a b)
  show ?case
  proof (cases "a = []")
    case False
    have "swap_bytes (drop 256 a) (drop 256 b) = (drop 256 b, drop 256 a)"
      using 1 False by simp
    then show ?thesis using False by (subst swap_bytes.simps) simp
  qed (use 1 in simp)
qed

lemma mset_swap_slots: "i < length xs \<Longrightarrow> j < length xs \<Longrightarrow> mset (swap_slots xs i j) = mset xs"
  unfolding swap_slots_def by (rule mset_swap)

lemma nth_swap: "i < length xs \<Longrightarrow> j < length xs \<Longrightarrow> k < length xs \<Longrightarrow>
    swap_slots xs i j ! k = (if k = i then xs ! j else if k = j then xs ! i else xs ! k)"
  by (simp add: swap_slots_def nth_list_update)

lemma mset_sift_up: "i < length xs \<Longrightarrow> mset (sift_up cmp xs i) = mset xs"
proof (induction cmp xs i rule: sift_up.induct)
  case (1 cmp xs i)
  have "(i - 1) div 2 < length xs" using 1(2) by linarith
  then show ?case using 1 by (subst sift_up.simps) (auto simp: Let_def mset_swap_slots)
qed

lemma mset_sift_down: "i < length xs \<Longrightarrow> mset (sift_down cmp xs i) = mset xs"
proof (induction cmp xs i rule: sift_down.induct)
  case (1 cmp xs i)
  have "worst_child cmp xs i < length xs" using 1(2) worst_child_cases [of cmp xs i] by auto
  then show ?case using 1 by (subst sift_down.simps) (auto simp: Let_def mset_swap_slots)
qed

section \<open>Heaps under any total preorder\<close>

abbreviation parent :: "nat \<Rightarrow> nat" where "parent i \<equiv> (i - 1) div 2"

locale topk_order =
  fixes cmp :: "'a \<Rightarrow> 'a \<Rightarrow> int"
  assumes cmp_flip: "cmp a b < 0 \<longleftrightarrow> 0 < cmp b a"
    and cmp_trans: "cmp a b \<le> 0 \<Longrightarrow> cmp b c \<le> 0 \<Longrightarrow> cmp a c \<le> 0"
begin

text \<open>\<open>le a b\<close>: \<open>a\<close> is not better than \<open>b\<close>.\<close>

definition le :: "'a \<Rightarrow> 'a \<Rightarrow> bool" where "le a b \<longleftrightarrow> cmp a b \<le> 0"

lemma le_total: "le a b \<or> le b a"
  using cmp_flip [of a b] cmp_flip [of b a] by (auto simp: le_def)

lemma le_refl [simp]: "le a a" using le_total by blast

lemma le_trans: "le a b \<Longrightarrow> le b c \<Longrightarrow> le a c"
  unfolding le_def by (rule cmp_trans)

lemma cmp_le: "cmp a b < 0 \<longleftrightarrow> \<not> le b a" "0 \<le> cmp a b \<longleftrightarrow> le b a" "0 < cmp a b \<longleftrightarrow> \<not> le a b"
  using cmp_flip [of a b] cmp_flip [of b a] by (auto simp: le_def)

definition heap :: "'a list \<Rightarrow> bool" where
  "heap xs \<longleftrightarrow> (\<forall>k. 0 < k \<longrightarrow> k < length xs \<longrightarrow> le (xs ! parent k) (xs ! k))"

text \<open>A heap but for the slot \<open>i\<close>, seen from above and from below.\<close>

definition heap_up :: "'a list \<Rightarrow> nat \<Rightarrow> bool" where
  "heap_up xs i \<longleftrightarrow>
     (\<forall>k. 0 < k \<longrightarrow> k < length xs \<longrightarrow> k \<noteq> i \<longrightarrow> le (xs ! parent k) (xs ! k)) \<and>
     (\<forall>k. 0 < k \<longrightarrow> k < length xs \<longrightarrow> parent k = i \<longrightarrow> 0 < i \<longrightarrow> le (xs ! parent i) (xs ! k))"

definition heap_down :: "'a list \<Rightarrow> nat \<Rightarrow> bool" where
  "heap_down xs i \<longleftrightarrow>
     (\<forall>k. 0 < k \<longrightarrow> k < length xs \<longrightarrow> parent k \<noteq> i \<longrightarrow> le (xs ! parent k) (xs ! k)) \<and>
     (\<forall>k. 0 < k \<longrightarrow> k < length xs \<longrightarrow> parent k = i \<longrightarrow> 0 < i \<longrightarrow> le (xs ! parent i) (xs ! k))"

lemma parent_less: "0 < k \<Longrightarrow> parent k < k" by linarith

lemma heap_up_swap:
  assumes up: "heap_up xs i" and i: "0 < i" "i < length xs" and bad: "\<not> le (xs ! parent i) (xs ! i)"
  shows "heap_up (swap_slots xs i (parent i)) (parent i)"
proof -
  let ?p = "parent i" let ?ys = "swap_slots xs i ?p"
  have p: "?p < i" "?p < length xs" using i by linarith+
  have nth: "?ys ! k = (if k = i then xs ! ?p else if k = ?p then xs ! i else xs ! k)" if "k < length xs" for k
    using that i p by (simp add: nth_swap)
  have ip: "le (xs ! i) (xs ! ?p)" using bad le_total by blast
  have edge: "le (xs ! parent k) (xs ! k)" if "0 < k" "k < length xs" "k \<noteq> i" for k
    using up that by (simp add: heap_up_def)
  have "le (?ys ! parent k) (?ys ! k)" if k: "0 < k" "k < length xs" "k \<noteq> ?p" for k
  proof -
    have pk: "parent k < length xs" "parent k < k" using k by linarith+
    consider "k = i" | "k \<noteq> i" "parent k = ?p" | "parent k = i" | "k \<noteq> i" "parent k \<noteq> ?p" "parent k \<noteq> i" by blast
    then show ?thesis
    proof cases
      case 1
      then show ?thesis using ip nth [OF k(2)] nth [OF pk(1)] p by auto
    next
      case 2
      then show ?thesis
        using le_trans [OF ip] edge [OF k(1,2)] nth [OF k(2)] nth [OF pk(1)] k(3) p by auto
    next
      case 3
      then have "le (xs ! ?p) (xs ! k)" using up k i by (simp add: heap_up_def)
      then show ?thesis using 3 nth [OF k(2)] nth [OF pk(1)] k(3) pk(2) by auto
    next
      case 4
      then show ?thesis using edge [OF k(1,2)] nth [OF k(2)] nth [OF pk(1)] k(3) by auto
    qed
  qed
  moreover have "le (?ys ! parent ?p) (?ys ! k)" if k: "0 < k" "k < length xs" "parent k = ?p" "0 < ?p" for k
  proof -
    have pp: "parent ?p < ?p" "parent ?p < length xs" using k p by linarith+
    have up1: "le (xs ! parent ?p) (xs ! ?p)" using edge [of ?p] k(4) p by auto
    have "?ys ! parent ?p = xs ! parent ?p" using nth [OF pp(2)] pp p by auto
    moreover have "k \<noteq> ?p" using k(1,3) parent_less [of k] by auto
    ultimately show ?thesis
      using up1 le_trans [OF up1] edge [OF k(1,2)] k(3) nth [OF k(2)] by auto
  qed
  ultimately show ?thesis by (simp add: heap_up_def)
qed

lemma heap_sift_up: "heap_up xs i \<Longrightarrow> i < length xs \<Longrightarrow> heap (sift_up cmp xs i)"
proof (induction i arbitrary: xs rule: less_induct)
  case (less i)
  show ?case
  proof (cases "i = 0 \<or> le (xs ! parent i) (xs ! i)")
    case True
    then have "heap xs" using less.prems by (auto simp: heap_def heap_up_def)
    then show ?thesis using True by (subst sift_up.simps) (auto simp: Let_def cmp_le)
  next
    case False
    then have "sift_up cmp xs i = sift_up cmp (swap_slots xs i (parent i)) (parent i)"
      by (subst sift_up.simps) (auto simp: Let_def cmp_le)
    moreover have "parent i < i" using False by (auto intro: parent_less)
    ultimately show ?thesis
      using less.IH [of "parent i" "swap_slots xs i (parent i)"] heap_up_swap [OF less.prems(1) _ less.prems(2)]
        False less.prems(2) by auto
  qed
qed

lemma worst_child_le:
  assumes "k < length xs" "0 < k" "parent k = i" "i < length xs"
  shows "le (xs ! worst_child cmp xs i) (xs ! k)" "le (xs ! worst_child cmp xs i) (xs ! i)"
proof -
  let ?l = "2 * i + 1" let ?r = "2 * i + 2"
  have k: "k = ?l \<or> k = ?r" using assms by linarith
  define m1 where "m1 = (if ?l < length xs \<and> cmp (xs ! ?l) (xs ! i) < 0 then ?l else i)"
  define m2 where "m2 = (if ?r < length xs \<and> cmp (xs ! ?r) (xs ! m1) < 0 then ?r else m1)"
  have m1: "le (xs ! m1) (xs ! i)" "?l < length xs \<Longrightarrow> le (xs ! m1) (xs ! ?l)"
    using le_total [of "xs ! ?l" "xs ! i"] by (auto simp: m1_def cmp_le)
  have m2: "le (xs ! m2) (xs ! m1)" "?r < length xs \<Longrightarrow> le (xs ! m2) (xs ! ?r)"
    using le_total [of "xs ! ?r" "xs ! m1"] by (auto simp: m2_def cmp_le)
  have eq: "worst_child cmp xs i = m2" by (simp add: worst_child_def Let_def m1_def m2_def)
  show "le (xs ! worst_child cmp xs i) (xs ! i)" unfolding eq by (rule le_trans [OF m2(1) m1(1)])
  show "le (xs ! worst_child cmp xs i) (xs ! k)"
    unfolding eq using k assms(1) m2(2) le_trans [OF m2(1) m1(2)] by auto
qed

lemma heap_down_swap:
  assumes dn: "heap_down xs i" and i: "i < length xs" and m: "m = worst_child cmp xs i" "m \<noteq> i"
  shows "heap_down (swap_slots xs i m) m"
proof -
  let ?ys = "swap_slots xs i m"
  have mi: "m < length xs" "parent m = i" "0 < m" "i < m"
    using worst_child_cases [of cmp xs i] m by auto
  have nth: "?ys ! k = (if k = i then xs ! m else if k = m then xs ! i else xs ! k)" if "k < length xs" for k
    using that i mi by (simp add: nth_swap)
  have low: "le (xs ! m) (xs ! k)" if "k < length xs" "0 < k" "parent k = i" for k
    using worst_child_le(1) [OF that i] m(1) by simp
  have mle: "le (xs ! m) (xs ! i)" using worst_child_le(2) [OF mi(1,3,2) i] m(1) by simp
  have edge: "le (xs ! parent k) (xs ! k)" if "0 < k" "k < length xs" "parent k \<noteq> i" for k
    using dn that by (simp add: heap_down_def)
  have "le (?ys ! parent k) (?ys ! k)" if k: "0 < k" "k < length xs" "parent k \<noteq> m" for k
  proof -
    have pk: "parent k < length xs" "parent k < k" using k by linarith+
    consider "parent k = i" "k = m" | "parent k = i" "k \<noteq> m" | "k = i" | "parent k \<noteq> i" "k \<noteq> i" by blast
    then show ?thesis
    proof cases
      case 1
      then show ?thesis using mle nth [OF k(2)] nth [OF pk(1)] mi by auto
    next
      case 2
      then show ?thesis using low [OF k(2,1)] nth [OF k(2)] nth [OF pk(1)] pk(2) by auto
    next
      case 3
      then have "le (xs ! parent i) (xs ! m)" using dn mi k by (simp add: heap_down_def)
      then show ?thesis using 3 nth [OF k(2)] nth [OF pk(1)] k(3) pk(2) by auto
    next
      case 4
      then show ?thesis using edge [OF k(1,2)] nth [OF k(2)] nth [OF pk(1)] k(3) mi(2) by auto
    qed
  qed
  moreover have "le (?ys ! parent m) (?ys ! k)" if k: "0 < k" "k < length xs" "parent k = m" for k
  proof -
    have "k \<noteq> m" "k \<noteq> i" using k parent_less [of k] mi by auto
    then have "?ys ! k = xs ! k" "?ys ! parent m = xs ! m" using nth [OF k(2)] nth [OF i] mi by auto
    then show ?thesis using edge [OF k(1,2)] k(3) m(2) by simp
  qed
  ultimately show ?thesis by (simp add: heap_down_def)
qed

lemma heap_sift_down: "heap_down xs i \<Longrightarrow> i < length xs \<Longrightarrow> heap (sift_down cmp xs i)"
proof (induction "length xs - i" arbitrary: xs i rule: less_induct)
  case less
  let ?m = "worst_child cmp xs i"
  show ?case
  proof (cases "?m = i")
    case True
    have "heap xs"
      unfolding heap_def
    proof (intro allI impI)
      fix k
      assume k: "0 < k" "k < length xs"
      show "le (xs ! parent k) (xs ! k)"
      proof (cases "parent k = i")
        case True
        then show ?thesis using worst_child_le(1) [OF k(2,1) True less.prems(2)] \<open>?m = i\<close> by simp
      qed (use less.prems k in \<open>simp add: heap_down_def\<close>)
    qed
    then show ?thesis using True by (subst sift_down.simps) (simp add: Let_def)
  next
    case False
    then have "i < ?m" "?m < length xs" using worst_child_cases [of cmp xs i] by auto
    then have "heap (sift_down cmp (swap_slots xs i ?m) ?m)"
      using less.prems heap_down_swap [OF less.prems refl False] by (intro less.hyps) auto
    then show ?thesis using False by (subst sift_down.simps) (simp add: Let_def)
  qed
qed

lemma heap_root: "heap xs \<Longrightarrow> k < length xs \<Longrightarrow> le (xs ! 0) (xs ! k)"
proof (induction k rule: less_induct)
  case (less k)
  show ?case
  proof (cases "k = 0")
    case False
    then have "le (xs ! 0) (xs ! parent k)" "le (xs ! parent k) (xs ! k)"
      using less by (auto simp: heap_def)
    then show ?thesis by (rule le_trans)
  qed simp
qed

lemma heap_drain_step:
  assumes "heap xs" "xs \<noteq> []"
  shows "heap (drain_step cmp xs)" "add_mset (xs ! 0) (mset (drain_step cmp xs)) = mset xs"
proof -
  obtain ys y where xs: "xs = ys @ [y]" using assms(2) by (cases xs rule: rev_cases) auto
  show "heap (drain_step cmp xs)"
  proof (cases "ys = []")
    case False
    have "heap_down (ys[0 := y]) 0"
      unfolding heap_down_def
    proof (intro conjI allI impI)
      fix k
      assume k: "0 < k" "k < length (ys[0 := y])" "parent k \<noteq> 0"
      then have "le (xs ! parent k) (xs ! k)" using assms(1) by (simp add: heap_def xs)
      then show "le (ys[0 := y] ! parent k) (ys[0 := y] ! k)" using k parent_less [of k] by (simp add: xs nth_append)
    qed simp
    then show ?thesis using False heap_sift_down by (simp add: drain_step_def xs Let_def)
  qed (simp add: drain_step_def xs heap_def)
  show "add_mset (xs ! 0) (mset (drain_step cmp xs)) = mset xs"
    by (cases ys) (simp_all add: drain_step_def xs Let_def mset_sift_down)
qed

lemma drain_slots_sorted:
  "heap xs \<Longrightarrow> mset (drain_slots cmp xs) = mset xs \<and> sorted_wrt (\<lambda>a b. le b a) (drain_slots cmp xs)"
proof (induction "length xs" arbitrary: xs rule: less_induct)
  case less
  show ?case
  proof (cases "xs = []")
    case True
    then show ?thesis by (simp add: drain_slots.simps)
  next
    case False
    note d = heap_drain_step [OF less.prems False]
    have IH: "mset (drain_slots cmp (drain_step cmp xs)) = mset (drain_step cmp xs)"
      "sorted_wrt (\<lambda>a b. le b a) (drain_slots cmp (drain_step cmp xs))"
      using less.hyps [OF _ d(1)] False by auto
    have "le (xs ! 0) b" if "b \<in> set (drain_slots cmp (drain_step cmp xs))" for b
    proof -
      have "b \<in># mset (drain_step cmp xs)" using that IH(1) by (metis set_mset_mset)
      then have "b \<in> set xs" using d(2) by (metis insert_iff set_mset_add_mset_insert set_mset_mset)
      then show ?thesis using heap_root [OF less.prems] by (metis in_set_conv_nth)
    qed
    then show ?thesis
      using IH d(2) False by (subst (1 2) drain_slots.simps) (auto simp: sorted_wrt_append)
  qed
qed

text \<open>What a heap has seen: the items kept and the items turned away.\<close>

definition best_of :: "'a qn_topk \<Rightarrow> 'a multiset \<Rightarrow> bool" where
  "best_of h M \<longleftrightarrow> heap (h_slot h) \<and> 0 < h_cap h \<and> h_n h \<le> h_cap h \<and>
     (\<exists>D. mset (h_slot h) + D = M \<and> (D \<noteq> {#} \<longrightarrow> h_n h = h_cap h) \<and>
          (\<forall>d \<in># D. \<forall>k \<in> set (h_slot h). le d k))"

lemma offer_room:
  assumes b: "best_of h M" and room: "h_n h < h_cap h"
  shows "best_of (snd (qn_topk_offer cmp h x)) (add_mset x M)" "fst (qn_topk_offer cmp h x)"
proof -
  let ?xs = "h_slot h @ [x]"
  have hp: "heap (h_slot h)" using b by (simp add: best_of_def)
  have "heap_up ?xs (h_n h)"
    unfolding heap_up_def
  proof (intro conjI allI impI)
    fix k
    assume k: "0 < k" "k < length ?xs" "k \<noteq> h_n h"
    then have "le (h_slot h ! parent k) (h_slot h ! k)" using hp by (simp add: heap_def)
    moreover have "parent k < h_n h" using k parent_less [of k] by simp
    ultimately show "le (?xs ! parent k) (?xs ! k)" using k by (simp add: nth_append)
  next
    fix k
    assume "0 < k" "k < length ?xs" "parent k = h_n h" "0 < h_n h"
    then show "le (?xs ! parent (h_n h)) (?xs ! k)" using parent_less [of k] by simp
  qed
  then have "heap (sift_up cmp ?xs (h_n h))" by (rule heap_sift_up) simp
  moreover have "M = mset (h_slot h)" using b room by (auto simp: best_of_def)
  ultimately show "best_of (snd (qn_topk_offer cmp h x)) (add_mset x M)"
    using room by (simp add: qn_topk_offer_def Let_def best_of_def mset_sift_up)
  show "fst (qn_topk_offer cmp h x)" using room by (simp add: qn_topk_offer_def Let_def)
qed

lemma offer_full:
  assumes b: "best_of h M" and full: "\<not> h_n h < h_cap h"
  shows "best_of (snd (qn_topk_offer cmp h x)) (add_mset x M)"
    "fst (qn_topk_offer cmp h x) \<longleftrightarrow> (\<exists>k \<in> set (h_slot h). \<not> le x k)"
proof -
  obtain D where D: "mset (h_slot h) + D = M" "\<forall>d \<in># D. \<forall>k \<in> set (h_slot h). le d k"
    and hp: "heap (h_slot h)" and c: "0 < h_cap h" "h_n h = h_cap h"
    using b full by (auto simp: best_of_def)
  obtain r rest where s: "h_slot h = r # rest" using c by (cases "h_slot h") auto
  have root: "le r k" if "k \<in> set (h_slot h)" for k
    using heap_root [OF hp] that s by (metis in_set_conv_nth nth_Cons_0)
  show "best_of (snd (qn_topk_offer cmp h x)) (add_mset x M)"
  proof (cases "le x r")
    case True
    then have "\<forall>d \<in># add_mset x D. \<forall>k \<in> set (h_slot h). le d k" using D(2) root le_trans by auto
    moreover have "snd (qn_topk_offer cmp h x) = h\<lparr>h_offered := h_offered h + 1\<rparr>"
      using True full s by (simp add: qn_topk_offer_def Let_def le_def)
    ultimately show ?thesis
      using D(1) hp c unfolding best_of_def by (auto intro!: exI [of _ "add_mset x D"])
  next
    case False
    let ?xs = "x # rest"
    have dn: "heap_down ?xs 0"
      unfolding heap_down_def
    proof (intro conjI allI impI)
      fix k
      assume k: "0 < k" "k < length ?xs" "parent k \<noteq> 0"
      then have "k < h_n h" using s by simp
      with k(1) hp have "le (h_slot h ! parent k) (h_slot h ! k)" unfolding heap_def by blast
      then show "le (?xs ! parent k) (?xs ! k)" using k s by (cases "parent k"; cases k) auto
    qed simp
    have eq: "h_slot (snd (qn_topk_offer cmp h x)) = sift_down cmp ?xs 0"
      "h_cap (snd (qn_topk_offer cmp h x)) = h_cap h"
      using False full s by (simp_all add: qn_topk_offer_def Let_def le_def)
    have ms: "mset (sift_down cmp ?xs 0) = mset ?xs" by (rule mset_sift_down) simp
    have rx: "le r x" using False le_total by blast
    have "le d k" if "d \<in># add_mset r D" "k \<in> set ?xs" for d k
      using that D(2) root rx le_trans [OF _ rx] s by auto
    then have "\<forall>d \<in># add_mset r D. \<forall>k \<in> set (sift_down cmp ?xs 0). le d k"
      using ms by (metis set_mset_mset)
    moreover have "mset (sift_down cmp ?xs 0) + add_mset r D = add_mset x M" using ms D(1) s by auto
    ultimately have "\<exists>D. mset (sift_down cmp ?xs 0) + D = add_mset x M \<and>
        (D \<noteq> {#} \<longrightarrow> length (sift_down cmp ?xs 0) = h_cap h) \<and>
        (\<forall>d \<in># D. \<forall>k \<in> set (sift_down cmp ?xs 0). le d k)"
      using c s by (intro exI [of _ "add_mset r D"]) auto
    then show ?thesis
      using heap_sift_down [OF dn] c s unfolding best_of_def eq by auto
  qed
  show "fst (qn_topk_offer cmp h x) \<longleftrightarrow> (\<exists>k \<in> set (h_slot h). \<not> le x k)"
    using full s root le_trans by (auto simp: qn_topk_offer_def Let_def le_def [symmetric])
qed

lemma offer_best: "best_of h M \<Longrightarrow> best_of (snd (qn_topk_offer cmp h x)) (add_mset x M)"
  using offer_room(1) offer_full(1) by blast

lemma offers_best:
  "best_of h M \<Longrightarrow> best_of (fold (\<lambda>x h. snd (qn_topk_offer cmp h x)) xs h) (mset xs + M)"
proof (induction xs arbitrary: h M)
  case (Cons x xs)
  then show ?case using Cons.IH [OF offer_best [OF Cons.prems, of x]] by simp
qed simp

lemma offer_cap: "h_cap (snd (qn_topk_offer cmp h x)) = h_cap h"
  by (simp add: qn_topk_offer_def Let_def)

lemma offers_cap: "h_cap (fold (\<lambda>x h. snd (qn_topk_offer cmp h x)) xs h) = h_cap h"
  by (induction xs arbitrary: h) (simp_all add: offer_cap)

text \<open>Offering a stream to an empty heap and draining it: the best \<open>cap\<close> items, best first.\<close>

lemma stream_best:
  assumes "h_slot h = []" "0 < h_cap h" "ys = fst (qn_topk_drain cmp (fold (\<lambda>x h. snd (qn_topk_offer cmp h x)) xs h))"
  shows "sorted_wrt (\<lambda>a b. le b a) ys" "length ys = min (h_cap h) (length xs)"
    "\<exists>D. mset xs = mset ys + D \<and> (\<forall>d \<in># D. \<forall>k \<in> set ys. le d k)"
proof -
  let ?h = "fold (\<lambda>x h. snd (qn_topk_offer cmp h x)) xs h"
  have "best_of h {#}" using assms by (auto simp: best_of_def heap_def)
  then have b: "best_of ?h (mset xs)" using offers_best by fastforce
  then obtain D where D: "mset (h_slot ?h) + D = mset xs" "D \<noteq> {#} \<longrightarrow> h_n ?h = h_cap ?h"
    "\<forall>d \<in># D. \<forall>k \<in> set (h_slot ?h). le d k" and hp: "heap (h_slot ?h)" and n: "h_n ?h \<le> h_cap h"
    by (auto simp: best_of_def offers_cap)
  have ms: "mset ys = mset (h_slot ?h)" and "sorted_wrt (\<lambda>a b. le b a) ys"
    using drain_slots_sorted [OF hp] assms(3) by (simp_all add: qn_topk_drain_def)
  then show "sorted_wrt (\<lambda>a b. le b a) ys" by simp
  have "length xs = h_n ?h + size D" using D(1) by (metis size_mset size_union)
  then show "length ys = min (h_cap h) (length xs)"
    using D(2) n ms by (cases "D = {#}") (auto simp: offers_cap dest!: mset_eq_length)
  show "\<exists>D. mset xs = mset ys + D \<and> (\<forall>d \<in># D. \<forall>k \<in> set ys. le d k)"
    using D(1,3) ms by (metis set_mset_mset)
qed

end

end
