(* ===== verification/Cf_Rank.thy ===== *)
theory Cf_Rank
  imports Stats Bytes
begin

text \<open>
  The ranking half of \<^verbatim>\<open>src/core/stats.c\<close>: the versioned score of a candidate
  (\<open>qn_cf_score_policy\<close>), \<open>qn_cf_finalize_rank\<close>, and the insertion sort with binary search that
  orders the results.  \<open>cf_record\<close> has the fields that the modelled functions read or write;
  \<open>has_colo\<close> is the test \<open>r->colo[0]\<close>.  The score components are at most 30000, so storing
  them in 16 bits loses nothing.
\<close>

record cf_record =
  addr :: qn_addr
  rtt_min_us :: nat
  rtt_med_us :: nat
  rtt_p90_us :: nat
  rtt_ci90 :: "(nat \<times> nat) option"
  confidence :: nat
  rtt_delta_mean_us :: nat
  score :: nat
  score_version :: nat
  score_edge :: nat
  score_latency :: nat
  score_stability :: nat
  score_confidence :: nat
  score_throughput :: nat
  score_tunnel :: nat
  highest_rung_reached :: qn_highest_rung
  terminal_outcome :: qn_terminal_outcome
  loss_pct :: nat
  has_colo :: bool
  kbps :: nat
  idle_held_ms :: nat
  verified :: bool
  tunnel_state :: qn_tunnel_state
  sys_errno :: int
  failure_origin :: qn_failure_origin
  transport_result :: qn_result
  tls_outcome :: qn_tls_outcome
  samples :: qn_samples

abbreviation QN_SCORE_VERSION :: nat where "QN_SCORE_VERSION \<equiv> 3"

text \<open>The result of the first \<open>switch\<close>; \<open>None\<close> is its early return.\<close>

definition rung_points :: "qn_highest_rung \<Rightarrow> nat option" where
  "rung_points r = (case r of
      QN_RUNG_STABLE \<Rightarrow> Some 4000 | QN_RUNG_FLOWING \<Rightarrow> Some 3700 | QN_RUNG_EDGE \<Rightarrow> Some 3400
    | QN_RUNG_HTTP \<Rightarrow> Some 2800 | QN_RUNG_TLS \<Rightarrow> Some 2200 | QN_RUNG_TCP \<Rightarrow> Some 800 | _ \<Rightarrow> None)"

definition policy_total :: "qn_rank_policy \<Rightarrow> nat \<Rightarrow> nat \<Rightarrow> nat \<Rightarrow> nat \<Rightarrow> nat \<Rightarrow> nat \<Rightarrow> nat" where
  "policy_total policy tunnel edge latency stability conf throughput = (case policy of
      QN_RANK_LATENCY \<Rightarrow> tunnel + edge + latency * 2 + stability div 2 + conf div 2
    | QN_RANK_STABILITY \<Rightarrow> tunnel + edge + stability * 2 + latency div 2 + conf
    | QN_RANK_THROUGHPUT \<Rightarrow> tunnel + edge + throughput * 3 + latency div 2 + stability div 2
    | QN_RANK_BALANCED \<Rightarrow> tunnel + edge + latency + stability + conf + throughput)"

definition tunnel_points :: "qn_tunnel_state \<Rightarrow> nat" where
  "tunnel_points st = (if st = QN_TUNNEL_PASSED then 30000
     else if qn_tunnel_state_failed st then 0 else 15000)"

definition median_quality :: "nat \<Rightarrow> nat" where
  "median_quality med = (if med = 0 \<or> med \<ge> 600000 then 0 else 1500 - med * 1500 div 600000)"

definition p90_quality :: "nat \<Rightarrow> nat" where
  "p90_quality p90 = (if p90 = 0 \<or> p90 \<ge> 900000 then 0 else 1000 - p90 * 1000 div 900000)"

definition jitter_quality :: "nat \<Rightarrow> nat" where
  "jitter_quality delta = (if delta \<ge> 150000 then 0 else 750 - delta * 750 div 150000)"

definition loss_quality :: "nat \<Rightarrow> nat" where
  "loss_quality pct = (if pct \<ge> 100 then 0 else (100 - pct) * 7)"

definition qn_cf_score_policy :: "cf_record \<Rightarrow> qn_rank_policy \<Rightarrow> nat \<times> cf_record" where
  "qn_cf_score_policy r0 policy =
     (let r = r0\<lparr>score_version := QN_SCORE_VERSION, score_edge := 0, score_latency := 0, score_stability := 0,
                 score_confidence := 0, score_throughput := 0, score_tunnel := 0\<rparr>
      in if terminal_outcome r \<noteq> QN_TERM_SUCCESS then (0, r)
         else case rung_points (highest_rung_reached r) of
           None \<Rightarrow> (0, r)
         | Some points \<Rightarrow>
             (let edge = points + (if verified r \<and> has_colo r then 500 else 0);
                  latency = median_quality (rtt_med_us r) + p90_quality (rtt_p90_us r);
                  stability = jitter_quality (rtt_delta_mean_us r) + loss_quality (loss_pct r) +
                    (if highest_rung_reached r = QN_RUNG_STABLE \<and> idle_held_ms r \<noteq> 0 then 50 else 0);
                  conf = (if confidence r > 1000 then 1000 else confidence r);
                  throughput = (if kbps r \<ge> 100000 then 1000 else kbps r div 100);
                  tunnel = tunnel_points (tunnel_state r)
              in (policy_total policy tunnel edge latency stability conf throughput,
                  r\<lparr>score_edge := edge, score_latency := latency, score_stability := stability,
                    score_confidence := conf, score_throughput := throughput, score_tunnel := tunnel\<rparr>)))"

definition qn_cf_score :: "cf_record \<Rightarrow> nat" where
  "qn_cf_score r = fst (qn_cf_score_policy r QN_RANK_BALANCED)"

definition qn_cf_finalize_rank :: "cf_record \<Rightarrow> qn_rank_policy \<Rightarrow> cf_record" where
  "qn_cf_finalize_rank r policy =
     (let s = samples r;
          r1 = r\<lparr>rtt_min_us := qn_samples_min s, rtt_med_us := qn_samples_median s,
                 rtt_p90_us := qn_samples_p90 s, rtt_ci90 := qn_samples_median_ci90 s,
                 rtt_delta_mean_us := qn_samples_delta_mean s, loss_pct := qn_samples_loss_pct s\<rparr>;
          (sc, r2) = qn_cf_score_policy r1 policy
      in r2\<lparr>score := sc\<rparr>)"

definition qn_cf_finalize :: "cf_record \<Rightarrow> cf_record" where
  "qn_cf_finalize r = qn_cf_finalize_rank r QN_RANK_BALANCED"

definition goes_before :: "cf_record \<Rightarrow> cf_record \<Rightarrow> bool" where
  "goes_before x key \<longleftrightarrow> score x > score key \<or> score x = score key \<and> address_order (addr x) (addr key) \<le> 0"

text \<open>The binary search for the insertion point, and the whole sort.\<close>

function insertion_point :: "cf_record list \<Rightarrow> cf_record \<Rightarrow> nat \<Rightarrow> nat \<Rightarrow> nat" where
  "insertion_point v key lo hi =
     (if lo < hi
      then (let mid = lo + (hi - lo) div 2
            in if goes_before (v ! mid) key then insertion_point v key (mid + 1) hi
               else insertion_point v key lo mid)
      else lo)"
  by pat_completeness auto
termination by (relation "measure (\<lambda>(v, key, lo, hi). hi - lo)") auto

declare insertion_point.simps [simp del]

definition sort_step :: "nat \<Rightarrow> cf_record list \<Rightarrow> cf_record list" where
  "sort_step i v =
     (let key = v ! i; lo = insertion_point v key 0 i
      in take lo v @ key # drop lo (take i v) @ drop (Suc i) v)"

definition qn_cf_sort :: "cf_record list \<Rightarrow> cf_record list" where
  "qn_cf_sort v = fold sort_step [1..<length v] v"

section \<open>The order of results\<close>

definition rank_key :: "cf_record \<Rightarrow> int \<times> nat \<times> nat" where
  "rank_key r = (- int (score r), addr_key (addr r))"

lemma goes_before_key:
  "addr_ok (addr x) \<Longrightarrow> addr_ok (addr key) \<Longrightarrow> goes_before x key \<longleftrightarrow> rank_key x \<le> rank_key key"
  by (auto simp: goes_before_def rank_key_def address_order_key)

lemma insertion_point_split:
  assumes "lo \<le> hi" "hi \<le> i"
    and mono: "\<And>j k. j \<le> k \<Longrightarrow> k < i \<Longrightarrow> goes_before (v ! k) key \<Longrightarrow> goes_before (v ! j) key"
    and "\<And>j. j < lo \<Longrightarrow> goes_before (v ! j) key" "\<And>j. hi \<le> j \<Longrightarrow> j < i \<Longrightarrow> \<not> goes_before (v ! j) key"
  shows "insertion_point v key lo hi \<le> i \<and> (\<forall>j < insertion_point v key lo hi. goes_before (v ! j) key) \<and>
    (\<forall>j. insertion_point v key lo hi \<le> j \<longrightarrow> j < i \<longrightarrow> \<not> goes_before (v ! j) key)"
  using assms
proof (induction v key lo hi rule: insertion_point.induct)
  case (1 v key lo hi)
  show ?case
  proof (cases "lo < hi")
    case True
    let ?m = "lo + (hi - lo) div 2"
    have m: "lo \<le> ?m" "?m < hi" using True by auto
    show ?thesis
    proof (cases "goes_before (v ! ?m) key")
      case gb: True
      have eq: "insertion_point v key lo hi = insertion_point v key (?m + 1) hi"
        using True gb by (subst insertion_point.simps) (simp add: Let_def)
      show ?thesis
        unfolding eq
      proof (rule "1.IH"(1) [OF True refl gb])
        show "?m + 1 \<le> hi" using m by simp
        show "goes_before (v ! j) key" if "j < ?m + 1" for j
          using "1.prems"(3) [of j ?m] gb m "1.prems"(2) that by linarith
      qed (fact "1.prems")+
    next
      case gb: False
      have eq: "insertion_point v key lo hi = insertion_point v key lo ?m"
        using True gb by (subst insertion_point.simps) (simp add: Let_def)
      show ?thesis
        unfolding eq
      proof (rule "1.IH"(2) [OF True refl gb])
        show "lo \<le> ?m" by simp
        show "?m \<le> i" using m "1.prems"(2) by linarith
        show "\<not> goes_before (v ! j) key" if "?m \<le> j" "j < i" for j
          using "1.prems"(3) [OF that] gb by blast
      qed (fact "1.prems")+
    qed
  next
    case False
    then have "insertion_point v key lo hi = lo" by (subst insertion_point.simps) simp
    then show ?thesis using False "1.prems" by auto
  qed
qed

text \<open>One step of the sort inserts the next record into the sorted prefix, behind its equals.\<close>

lemma sort_step_spec:
  assumes i: "i < length v" and ok: "\<forall>r \<in> set v. addr_ok (addr r)" and s: "sorted (map rank_key (take i v))"
  shows "sorted (map rank_key (take (Suc i) (sort_step i v)))" "mset (sort_step i v) = mset v"
    "length (sort_step i v) = length v" "filter (\<lambda>x. k = rank_key x) (sort_step i v) = filter (\<lambda>x. k = rank_key x) v"
    "set (sort_step i v) = set v"
proof -
  let ?key = "v ! i"
  define p where "p = insertion_point v ?key 0 i"
  have gb: "goes_before (v ! j) ?key \<longleftrightarrow> rank_key (v ! j) \<le> rank_key ?key" if "j < i" for j
    using that i ok by (intro goes_before_key) auto
  have mono: "j \<le> k \<Longrightarrow> k < i \<Longrightarrow> rank_key (v ! j) \<le> rank_key (v ! k)" for j k
    using sorted_nth_mono [OF s, of j k] i by simp
  have sp: "p \<le> i \<and> (\<forall>j<p. goes_before (v ! j) ?key) \<and> (\<forall>j. p \<le> j \<longrightarrow> j < i \<longrightarrow> \<not> goes_before (v ! j) ?key)"
    unfolding p_def by (rule insertion_point_split) (use gb mono in \<open>auto intro: order_trans\<close>)
  have lo: "rank_key x \<le> rank_key ?key" if "x \<in> set (take p v)" for x
    using that sp gb i by (auto simp: in_set_conv_nth)
  have hi: "rank_key ?key < rank_key x" if x: "x \<in> set (drop p (take i v))" for x
  proof -
    obtain j where "j < i - p" "x = v ! (p + j)" using x i sp by (auto simp: in_set_conv_nth)
    then show ?thesis using sp gb [of "p + j"] by (auto simp: not_le)
  qed
  have eq: "sort_step i v = take p v @ ?key # drop p (take i v) @ drop (Suc i) v"
    by (simp add: sort_step_def p_def Let_def)
  have pre: "take i v = take p v @ drop p (take i v)" using sp by (metis append_take_drop_id min.absorb1 take_take)
  have v: "v = take p v @ drop p (take i v) @ ?key # drop (Suc i) v"
    using pre i by (metis append_assoc id_take_nth_drop)
  have t: "take (Suc i) (sort_step i v) = take p v @ ?key # drop p (take i v)"
    unfolding eq using sp i by (simp add: take_Cons')
  show "sorted (map rank_key (take (Suc i) (sort_step i v)))"
  proof -
    have "sorted (map rank_key (take p v @ drop p (take i v)))" using s by (simp only: pre [symmetric])
    then show ?thesis unfolding t using lo hi
      by (auto simp: sorted_append simp del: take_append drop_append drop_take intro: order_trans less_imp_le)
  qed
  show ms: "mset (sort_step i v) = mset v" 
    unfolding eq using arg_cong [OF v, of mset] by (simp del: drop_take)
  show "length (sort_step i v) = length v" using mset_eq_length [OF ms] .
  show "set (sort_step i v) = set v" using mset_eq_setD [OF ms] .
  have "filter (\<lambda>x. k = rank_key x) (drop p (take i v)) = []" if "k = rank_key ?key"
    using that by (auto simp: filter_empty_conv simp del: drop_take dest!: hi)
  then show "filter (\<lambda>x. k = rank_key x) (sort_step i v) = filter (\<lambda>x. k = rank_key x) v"
    unfolding eq using arg_cong [OF v, of "filter (\<lambda>x. k = rank_key x)"]
    by (cases "k = rank_key ?key") (simp_all del: drop_take)
qed

lemma qn_cf_sort_key:
  assumes ok: "\<forall>r \<in> set v. addr_ok (addr r)"
  shows "qn_cf_sort v = sort_key rank_key v"
proof -
  have inv: "mset (fold sort_step [1..<n] v) = mset v \<and> sorted (map rank_key (take n (fold sort_step [1..<n] v))) \<and>
      (\<forall>k. filter (\<lambda>x. k = rank_key x) (fold sort_step [1..<n] v) = filter (\<lambda>x. k = rank_key x) v)"
    if "n \<le> length v" "1 \<le> n" for n
    using that
  proof (induction n)
    case (Suc n)
    show ?case
    proof (cases "n = 0")
      case True
      then show ?thesis using Suc.prems by (cases v) auto
    next
      case False
      let ?w = "fold sort_step [1..<n] v"
      have IH: "mset ?w = mset v" "sorted (map rank_key (take n ?w))"
        "\<And>k. filter (\<lambda>x. k = rank_key x) ?w = filter (\<lambda>x. k = rank_key x) v"
        using Suc False by auto
      have "n < length ?w" using mset_eq_length [OF IH(1)] Suc.prems by simp
      moreover have "\<forall>r \<in> set ?w. addr_ok (addr r)" using ok mset_eq_setD [OF IH(1)] by simp
      moreover have "fold sort_step [1..<Suc n] v = sort_step n ?w" using False by simp
      ultimately show ?thesis using sort_step_spec(1,2,4) [of n ?w] IH by simp
    qed
  qed simp
  show ?thesis
  proof (cases "v = []")
    case False
    let ?w = "fold sort_step [1..<length v] v"
    have "1 \<le> length v" using False by (simp add: Suc_le_eq)
    from inv [OF order_refl this] have *: "mset ?w = mset v" "sorted (map rank_key (take (length v) ?w))"
      "\<And>k. filter (\<lambda>x. k = rank_key x) ?w = filter (\<lambda>x. k = rank_key x) v" by auto
    have "take (length v) ?w = ?w" using mset_eq_length [OF *(1)] by simp
    then show ?thesis
      unfolding qn_cf_sort_def using * by (intro properties_for_sort_key [symmetric]) auto
  qed (simp add: qn_cf_sort_def)
qed

section \<open>Properties\<close>

text \<open>Property C14. \<open>qn_cf_sort\<close> is the stable sort of the results by descending score with ties by
  ascending address, IPv4 before IPv6.\<close>

theorem cf_sort_is_stable_sort:
  assumes "\<forall>r \<in> set v. addr_ok (addr r)"
  shows "qn_cf_sort v = sort_key rank_key v \<and>
    sorted_wrt (\<lambda>x y. score x > score y \<or> score x = score y \<and> address_order (addr x) (addr y) \<le> 0) (qn_cf_sort v)"
proof -
  have eq: "qn_cf_sort v = sort_key rank_key v" by (rule qn_cf_sort_key [OF assms])
  have "sorted_wrt (\<lambda>x y. rank_key x \<le> rank_key y) (sort_key rank_key v)"
    using sorted_sort_key [of rank_key v] by (simp add: sorted_map)
  then have "sorted_wrt goes_before (sort_key rank_key v)"
    by (rule sorted_wrt_mono_rel [rotated]) (use assms goes_before_key in auto)
  then show ?thesis using eq by (simp add: goes_before_def [abs_def])
qed

definition blank_record :: cf_record where
  "blank_record = \<lparr>addr = V4 0, rtt_min_us = 0, rtt_med_us = 0, rtt_p90_us = 0, rtt_ci90 = None, confidence = 0,
     rtt_delta_mean_us = 0, score = 0, score_version = 0, score_edge = 0, score_latency = 0, score_stability = 0,
     score_confidence = 0, score_throughput = 0, score_tunnel = 0, highest_rung_reached = QN_RUNG_NONE,
     terminal_outcome = QN_TERM_NONE, loss_pct = 0, has_colo = False, kbps = 0, idle_held_ms = 0, verified = False,
     tunnel_state = QN_TUNNEL_UNTESTED, sys_errno = 0, failure_origin = QN_FAIL_NONE,
     transport_result = QN_R_PENDING, tls_outcome = QN_TLS_NONE, samples = samples_empty\<rparr>"

theorem cf_sort_is_stable_sort_witness:
  "qn_cf_sort [blank_record\<lparr>addr := V4 9\<rparr>, blank_record\<lparr>addr := V4 5\<rparr>, blank_record\<lparr>score := 7\<rparr>] =
   [blank_record\<lparr>score := 7\<rparr>, blank_record\<lparr>addr := V4 5\<rparr>, blank_record\<lparr>addr := V4 9\<rparr>]"
proof -
  have "qn_cf_sort [blank_record\<lparr>addr := V4 9\<rparr>, blank_record\<lparr>addr := V4 5\<rparr>, blank_record\<lparr>score := 7\<rparr>] =
      sort_key rank_key [blank_record\<lparr>addr := V4 9\<rparr>, blank_record\<lparr>addr := V4 5\<rparr>, blank_record\<lparr>score := 7\<rparr>]"
    by (rule cf_sort_is_stable_sort [THEN conjunct1]) (simp add: addr_ok_def blank_record_def)
  then show ?thesis by (simp add: rank_key_def addr_key_def blank_record_def)
qed

lemma quality_bounds:
  "median_quality m \<le> 1500" "p90_quality p \<le> 1000" "jitter_quality d \<le> 750" "loss_quality l \<le> 700"
  by (auto simp: median_quality_def p90_quality_def jitter_quality_def loss_quality_def)

lemma rung_points_bounds: "rung_points r = Some p \<Longrightarrow> 800 \<le> p \<and> p \<le> 4000"
  by (auto simp: rung_points_def split: qn_highest_rung.splits)

lemma policy_total_bounds:
  assumes "edge \<le> 4500" "lat \<le> 2500" "stab \<le> 1500" "conf \<le> 1000" "thr \<le> 1000"
  shows "tunnel + edge \<le> policy_total pol tunnel edge lat stab conf thr"
    "policy_total pol tunnel edge lat stab conf thr \<le> tunnel + 10750"
  using assms by (auto simp: policy_total_def split: qn_rank_policy.split)

text \<open>A record that a sweep can rank: it succeeded and reached some rung.\<close>

definition rankable :: "cf_record \<Rightarrow> bool" where
  "rankable r \<longleftrightarrow> terminal_outcome r = QN_TERM_SUCCESS \<and> rung_points (highest_rung_reached r) \<noteq> None"

lemma score_range:
  assumes "rankable r"
  shows "tunnel_points (tunnel_state r) + 800 \<le> fst (qn_cf_score_policy r pol)"
    "fst (qn_cf_score_policy r pol) \<le> tunnel_points (tunnel_state r) + 10750"
proof -
  obtain p where p: "rung_points (highest_rung_reached r) = Some p" "terminal_outcome r = QN_TERM_SUCCESS"
    using assms by (auto simp: rankable_def)
  note pb = rung_points_bounds [OF p(1)]
  define edge lat stab conf thr where "edge = p + (if verified r \<and> has_colo r then 500 else 0)"
    and "lat = median_quality (rtt_med_us r) + p90_quality (rtt_p90_us r)"
    and "stab = jitter_quality (rtt_delta_mean_us r) + loss_quality (loss_pct r) +
           (if highest_rung_reached r = QN_RUNG_STABLE \<and> idle_held_ms r \<noteq> 0 then 50 else 0)"
    and "conf = (if confidence r > 1000 then 1000 else confidence r)"
    and "thr = (if kbps r \<ge> 100000 then 1000 else kbps r div 100)"
  note d = edge_def lat_def stab_def conf_def thr_def
  have sc: "fst (qn_cf_score_policy r pol) =
      policy_total pol (tunnel_points (tunnel_state r)) edge lat stab conf thr"
    using p by (simp add: qn_cf_score_policy_def Let_def d)
  have e: "edge \<le> 4500" "800 \<le> edge" using pb by (auto simp: d)
  have l: "lat \<le> 2500" using quality_bounds(1) [of "rtt_med_us r"] quality_bounds(2) [of "rtt_p90_us r"] by (simp add: d)
  have s: "stab \<le> 1500"
    using quality_bounds(3) [of "rtt_delta_mean_us r"] quality_bounds(4) [of "loss_pct r"] by (auto simp: d)
  have c: "conf \<le> 1000" "thr \<le> 1000" by (auto simp: d)
  show "tunnel_points (tunnel_state r) + 800 \<le> fst (qn_cf_score_policy r pol)"
    using policy_total_bounds(1) [OF e(1) l s c, of "tunnel_points (tunnel_state r)" pol] e(2) by (simp add: sc)
  show "fst (qn_cf_score_policy r pol) \<le> tunnel_points (tunnel_state r) + 10750"
    using policy_total_bounds(2) [OF e(1) l s c] by (simp add: sc)
qed

text \<open>Whatever the ranking policy, the tunnel verdict dominates the score: a candidate
  whose tunnel test passed outranks every untested one, which outranks every one whose test
  failed; and a candidate that did not succeed scores 0.\<close>

lemma tunnel_verdict_dominates:
  "(rankable r \<and> rankable r' \<and> tunnel_points (tunnel_state r') < tunnel_points (tunnel_state r) \<longrightarrow>
      fst (qn_cf_score_policy r' pol) < fst (qn_cf_score_policy r pol)) \<and>
   (\<not> rankable r \<longrightarrow> fst (qn_cf_score_policy r pol) = 0)"
proof (intro conjI impI)
  assume a: "rankable r \<and> rankable r' \<and> tunnel_points (tunnel_state r') < tunnel_points (tunnel_state r)"
  then have "tunnel_points (tunnel_state r') + 15000 \<le> tunnel_points (tunnel_state r)"
    by (auto simp: tunnel_points_def split: if_splits)
  then show "fst (qn_cf_score_policy r' pol) < fst (qn_cf_score_policy r pol)"
    using score_range(1) [of r pol] score_range(2) [of r' pol] a by linarith
next
  assume "\<not> rankable r"
  then show "fst (qn_cf_score_policy r pol) = 0"
    by (auto simp: rankable_def qn_cf_score_policy_def Let_def)
qed

end
