(* ===== verification/Observation.thy ===== *)
theory Observation
  imports Util
begin

text \<open>
  \<^verbatim>\<open>src/net/observation.c\<close>: the evidence collected about one endpoint and its classification on the
  ladder from an open port to a stable edge.  The record has the parts of \<open>qn_observation\<close>
  that the functions of the file read or write; the enumeration of rungs is ordered as in
  the header.
\<close>

section \<open>The ladder\<close>

fun rung_code :: "qn_highest_rung \<Rightarrow> nat" where
  "rung_code QN_RUNG_NONE = 0"
| "rung_code QN_RUNG_TCP = 1"
| "rung_code QN_RUNG_TLS = 2"
| "rung_code QN_RUNG_HTTP = 3"
| "rung_code QN_RUNG_EDGE = 4"
| "rung_code QN_RUNG_FLOWING = 5"
| "rung_code QN_RUNG_STABLE = 6"
| "rung_code QN_RUNG_COUNT = 7"

lemma rung_code_inj: "rung_code a = rung_code b \<longleftrightarrow> a = b"
  by (cases a; cases b) simp_all

instantiation qn_highest_rung :: linorder
begin

definition less_eq_qn_highest_rung :: "qn_highest_rung \<Rightarrow> qn_highest_rung \<Rightarrow> bool" where
  "less_eq_qn_highest_rung a b \<longleftrightarrow> rung_code a \<le> rung_code b"

definition less_qn_highest_rung :: "qn_highest_rung \<Rightarrow> qn_highest_rung \<Rightarrow> bool" where
  "less_qn_highest_rung a b \<longleftrightarrow> rung_code a < rung_code b"

instance
  by standard (auto simp: less_eq_qn_highest_rung_def less_qn_highest_rung_def rung_code_inj)

end

lemmas rung_order = less_eq_qn_highest_rung_def less_qn_highest_rung_def

fun qn_highest_rung_str :: "qn_highest_rung \<Rightarrow> string" where
  "qn_highest_rung_str QN_RUNG_NONE = ''none''"
| "qn_highest_rung_str QN_RUNG_TCP = ''tcp''"
| "qn_highest_rung_str QN_RUNG_TLS = ''handshake''"
| "qn_highest_rung_str QN_RUNG_HTTP = ''http''"
| "qn_highest_rung_str QN_RUNG_EDGE = ''cf-marker-observed''"
| "qn_highest_rung_str QN_RUNG_FLOWING = ''flowing-after-marker''"
| "qn_highest_rung_str QN_RUNG_STABLE = ''stable-after-marker''"
| "qn_highest_rung_str QN_RUNG_COUNT = ''invalid''"

fun qn_terminal_outcome_str :: "qn_terminal_outcome \<Rightarrow> string" where
  "qn_terminal_outcome_str QN_TERM_NONE = ''pending''"
| "qn_terminal_outcome_str QN_TERM_SUCCESS = ''success''"
| "qn_terminal_outcome_str QN_TERM_DEAD = ''dead''"
| "qn_terminal_outcome_str QN_TERM_LOCAL_ERROR = ''local-error''"
| "qn_terminal_outcome_str QN_TERM_INCONCLUSIVE = ''inconclusive''"
| "qn_terminal_outcome_str QN_TERM_PEER_REJECTED = ''peer-rejected''"
| "qn_terminal_outcome_str QN_TERM_UNSUPPORTED = ''unsupported''"
| "qn_terminal_outcome_str QN_TERM_PROTOCOL_INVALID = ''protocol-invalid''"
| "qn_terminal_outcome_str QN_TERM_RESET = ''reset''"
| "qn_terminal_outcome_str QN_TERM_TIMEOUT = ''timeout''"
| "qn_terminal_outcome_str QN_TERM_CANCELLED = ''cancelled''"
| "qn_terminal_outcome_str QN_TERM_INTERFERENCE = ''interference-suspected''"
| "qn_terminal_outcome_str QN_TERM_COUNT = ''invalid''"

record qn_classification =
  cl_rung :: qn_highest_rung
  cl_terminal :: qn_terminal_outcome

definition qn_classification_str :: "qn_classification \<Rightarrow> string" where
  "qn_classification_str c =
     (if cl_terminal c = QN_TERM_SUCCESS then qn_highest_rung_str (cl_rung c) else qn_terminal_outcome_str (cl_terminal c))"

definition qn_classification_has_tls :: "qn_classification \<Rightarrow> bool" where
  "qn_classification_has_tls c \<longleftrightarrow> cl_terminal c = QN_TERM_SUCCESS \<and> cl_rung c \<ge> QN_RUNG_TLS \<and> cl_rung c < QN_RUNG_COUNT"

definition qn_classification_has_marker :: "qn_classification \<Rightarrow> bool" where
  "qn_classification_has_marker c \<longleftrightarrow> cl_terminal c = QN_TERM_SUCCESS \<and> cl_rung c \<ge> QN_RUNG_EDGE \<and> cl_rung c < QN_RUNG_COUNT"

section \<open>Evidence\<close>

record qn_http_event =
  he_flags :: u32
  he_response_index :: nat
  he_body_bytes :: nat
  he_status :: nat
  he_colo :: string

abbreviation QN_HTTP_FACT_HEADERS :: u32 where "QN_HTTP_FACT_HEADERS \<equiv> 1"
abbreviation QN_HTTP_FACT_BODY :: u32 where "QN_HTTP_FACT_BODY \<equiv> 2"
abbreviation QN_HTTP_FACT_DONE :: u32 where "QN_HTTP_FACT_DONE \<equiv> 4"
abbreviation QN_HTTP_FACT_INFORMATIONAL :: u32 where "QN_HTTP_FACT_INFORMATIONAL \<equiv> 8"
abbreviation QN_HTTP_FACT_TRACE_COLO :: u32 where "QN_HTTP_FACT_TRACE_COLO \<equiv> 16"
abbreviation QN_HTTP_FACT_CF_RAY :: u32 where "QN_HTTP_FACT_CF_RAY \<equiv> 32"
abbreviation QN_HTTP_FACT_SERVER_CLOUDFLARE :: u32 where "QN_HTTP_FACT_SERVER_CLOUDFLARE \<equiv> 64"
abbreviation QN_HTTP_FACT_TRAILERS :: u32 where "QN_HTTP_FACT_TRAILERS \<equiv> 256"

definition has_fact :: "qn_http_event \<Rightarrow> u32 \<Rightarrow> bool" where "has_fact e f \<longleftrightarrow> he_flags e AND f \<noteq> 0"

record qn_observation =
  connected :: bool
  handshake_complete :: bool
  request_fully_flushed :: bool
  final_headers :: bool
  trailers :: bool
  response_complete :: bool
  cf_ray :: bool
  server_cloudflare :: bool
  trace_colo :: bool
  http_status :: nat
  informational_responses :: u32
  body_bytes :: u64
  http_colo :: string
  edge_weak_header :: bool
  edge_trace_colo :: bool
  edge_verified :: bool
  edge_colo :: string
  flow_completed :: bool
  survived :: bool
  term_origin :: qn_failure_origin
  term_outcome :: qn_terminal_outcome
  term_sys_errno :: int
  term_protocol_code :: int
  term_reason :: string
  completed :: bool

definition qn_observation_init :: qn_observation where
  "qn_observation_init = \<lparr>connected = False, handshake_complete = False, request_fully_flushed = False, final_headers = False,
     trailers = False, response_complete = False, cf_ray = False, server_cloudflare = False, trace_colo = False,
     http_status = 0, informational_responses = 0, body_bytes = 0, http_colo = [], edge_weak_header = False,
     edge_trace_colo = False, edge_verified = False, edge_colo = [], flow_completed = False, survived = False,
     term_origin = QN_FAIL_NONE, term_outcome = QN_TERM_NONE, term_sys_errno = 0, term_protocol_code = 0,
     term_reason = [], completed = False\<rparr>"

definition qn_edge_policy_apply :: "qn_observation \<Rightarrow> qn_observation" where
  "qn_edge_policy_apply ob =
     (let o1 = ob\<lparr>edge_weak_header := cf_ray ob \<or> server_cloudflare ob, edge_trace_colo := trace_colo ob,
                 edge_verified := connected ob \<and> handshake_complete ob \<and> request_fully_flushed ob \<and>
                   final_headers ob \<and> http_status ob = 200 \<and> trace_colo ob\<rparr>
      in if edge_verified o1 then o1\<lparr>edge_colo := http_colo o1\<rparr> else o1)"

definition qn_observation_apply_http :: "qn_observation \<Rightarrow> qn_http_event \<Rightarrow> qn_observation" where
  "qn_observation_apply_http o0 e =
     (if he_response_index e \<noteq> 1 then o0
      else (let o1 = (if has_fact e QN_HTTP_FACT_INFORMATIONAL then o0\<lparr>informational_responses := informational_responses o0 + 1\<rparr> else o0);
                o2 = (if has_fact e QN_HTTP_FACT_TRAILERS then o1\<lparr>trailers := True\<rparr> else o1);
                o3 = (if has_fact e QN_HTTP_FACT_HEADERS \<and> \<not> final_headers o2
                      then o2\<lparr>final_headers := True, http_status := he_status e\<rparr> else o2);
                o4 = (if has_fact e QN_HTTP_FACT_BODY then o3\<lparr>body_bytes := body_bytes o3 + word_of_nat (he_body_bytes e)\<rparr> else o3);
                o5 = (if has_fact e QN_HTTP_FACT_DONE then o4\<lparr>response_complete := True\<rparr> else o4);
                o6 = (if has_fact e QN_HTTP_FACT_CF_RAY then o5\<lparr>cf_ray := True\<rparr> else o5);
                o7 = (if has_fact e QN_HTTP_FACT_SERVER_CLOUDFLARE then o6\<lparr>server_cloudflare := True\<rparr> else o6);
                o8 = (if has_fact e QN_HTTP_FACT_TRACE_COLO then o7\<lparr>trace_colo := True, http_colo := he_colo e\<rparr> else o7)
            in qn_edge_policy_apply o8))"

definition qn_observation_fail ::
  "qn_observation \<Rightarrow> qn_terminal_outcome \<Rightarrow> qn_failure_origin \<Rightarrow> int \<Rightarrow> int \<Rightarrow> string option \<Rightarrow> qn_observation" where
  "qn_observation_fail ob out origin errno pcode reason =
     (if out = QN_TERM_NONE \<or> out = QN_TERM_SUCCESS \<or> out = QN_TERM_COUNT then ob
      else (let o1 = ob\<lparr>term_outcome := out, term_origin := origin, term_sys_errno := errno, term_protocol_code := pcode\<rparr>
            in case reason of
                 Some r \<Rightarrow> if term_reason o1 = [] then o1\<lparr>term_reason := the (fst (qn_strlcpy r 24))\<rparr> else o1
               | None \<Rightarrow> o1))"

definition qn_observation_classify :: "qn_observation \<Rightarrow> qn_classification" where
  "qn_observation_classify ob =
     (let r0 = QN_RUNG_NONE;
          r1 = (if connected ob then QN_RUNG_TCP else r0);
          r2 = (if r1 = QN_RUNG_TCP \<and> handshake_complete ob then QN_RUNG_TLS else r1);
          r3 = (if r2 = QN_RUNG_TLS \<and> final_headers ob then QN_RUNG_HTTP else r2);
          r4 = (if r3 = QN_RUNG_HTTP \<and> edge_verified ob then QN_RUNG_EDGE else r3);
          r5 = (if r4 = QN_RUNG_EDGE \<and> flow_completed ob then QN_RUNG_FLOWING else r4);
          r6 = (if r5 \<ge> QN_RUNG_EDGE \<and> survived ob then QN_RUNG_STABLE else r5);
          t = (if term_outcome ob \<noteq> QN_TERM_NONE \<and> term_outcome ob \<noteq> QN_TERM_COUNT then term_outcome ob
               else if completed ob then (if connected ob then QN_TERM_SUCCESS else QN_TERM_DEAD) else QN_TERM_NONE)
      in \<lparr>cl_rung = r6, cl_terminal = t\<rparr>)"

section \<open>Laws\<close>

lemma edge_policy_frame [simp]:
  "connected (qn_edge_policy_apply ob) = connected ob" "handshake_complete (qn_edge_policy_apply ob) = handshake_complete ob"
  "request_fully_flushed (qn_edge_policy_apply ob) = request_fully_flushed ob" "final_headers (qn_edge_policy_apply ob) = final_headers ob"
  "http_status (qn_edge_policy_apply ob) = http_status ob" "trace_colo (qn_edge_policy_apply ob) = trace_colo ob"
  "http_colo (qn_edge_policy_apply ob) = http_colo ob" "term_outcome (qn_edge_policy_apply ob) = term_outcome ob"
  by (simp_all add: qn_edge_policy_apply_def Let_def)

lemma edge_policy_verified: "edge_verified (qn_edge_policy_apply ob) \<longleftrightarrow> connected ob \<and> handshake_complete ob \<and>
    request_fully_flushed ob \<and> final_headers ob \<and> http_status ob = 200 \<and> trace_colo ob"
  by (simp add: qn_edge_policy_apply_def Let_def)

lemma apply_http_fields:
  assumes "he_response_index e = 1"
  shows "connected (qn_observation_apply_http ob e) = connected ob"
    "handshake_complete (qn_observation_apply_http ob e) = handshake_complete ob"
    "request_fully_flushed (qn_observation_apply_http ob e) = request_fully_flushed ob"
    "final_headers (qn_observation_apply_http ob e) = (final_headers ob \<or> has_fact e QN_HTTP_FACT_HEADERS)"
    "http_status (qn_observation_apply_http ob e) = (if has_fact e QN_HTTP_FACT_HEADERS \<and> \<not> final_headers ob then he_status e else http_status ob)"
    "trace_colo (qn_observation_apply_http ob e) = (trace_colo ob \<or> has_fact e QN_HTTP_FACT_TRACE_COLO)"
  using assms by (auto simp: qn_observation_apply_http_def Let_def)

lemma apply_http_verified:
  assumes "he_response_index e = 1"
  shows "edge_verified (qn_observation_apply_http ob e) \<longleftrightarrow> connected ob \<and> handshake_complete ob \<and> request_fully_flushed ob \<and>
    final_headers (qn_observation_apply_http ob e) \<and> http_status (qn_observation_apply_http ob e) = 200 \<and>
    trace_colo (qn_observation_apply_http ob e)"
proof -
  obtain o8 where "qn_observation_apply_http ob e = qn_edge_policy_apply o8"
    using assms by (simp add: qn_observation_apply_http_def Let_def)
  then show ?thesis using apply_http_fields(1-3) [OF assms, of ob] by (simp add: edge_policy_verified)
qed

definition first_head :: "qn_http_event list \<Rightarrow> qn_http_event option" where
  "first_head es = List.find (\<lambda>e. he_response_index e = 1 \<and> has_fact e QN_HTTP_FACT_HEADERS) es"

lemma first_head_snoc: "first_head (es @ [e]) = (case first_head es of Some h \<Rightarrow> Some h
    | None \<Rightarrow> if he_response_index e = 1 \<and> has_fact e QN_HTTP_FACT_HEADERS then Some e else None)"
  by (induction es) (auto simp: first_head_def)

lemma apply_all:
  assumes o: "ob = fold (\<lambda>e ob. qn_observation_apply_http ob e) es o0" and o0: "\<not> final_headers o0" "\<not> trace_colo o0" "\<not> edge_verified o0"
  shows "connected ob = connected o0 \<and> handshake_complete ob = handshake_complete o0 \<and> request_fully_flushed ob = request_fully_flushed o0 \<and>
    final_headers ob = (first_head es \<noteq> None) \<and> (\<forall>h. first_head es = Some h \<longrightarrow> http_status ob = he_status h) \<and>
    trace_colo ob = (\<exists>e \<in> set es. he_response_index e = 1 \<and> has_fact e QN_HTTP_FACT_TRACE_COLO) \<and>
    (edge_verified ob \<longleftrightarrow> connected o0 \<and> handshake_complete o0 \<and> request_fully_flushed o0 \<and> final_headers ob \<and> http_status ob = 200 \<and> trace_colo ob)"
  using o
proof (induction es arbitrary: ob rule: rev_induct)
  case Nil
  then show ?case using o0 by (simp add: first_head_def)
next
  case (snoc e es)
  let ?o = "fold (\<lambda>e ob. qn_observation_apply_http ob e) es o0"
  note ih = snoc.IH [OF refl]
  have ob: "ob = qn_observation_apply_http ?o e" using snoc.prems by simp
  show ?case
  proof (cases "he_response_index e = 1")
    case True
    show ?thesis
      unfolding ob apply_http_verified [OF True] apply_http_fields [OF True]
      using ih True by (auto simp: first_head_snoc split: option.splits)
  next
    case False
    then have "ob = ?o" by (simp add: ob qn_observation_apply_http_def)
    then show ?thesis using ih False by (auto simp: first_head_snoc split: option.splits)
  qed
qed

lemma classify_ladder:
  "cl_rung (qn_observation_classify ob) \<ge> QN_RUNG_TCP \<longleftrightarrow> connected ob"
  "cl_rung (qn_observation_classify ob) \<ge> QN_RUNG_TLS \<longleftrightarrow> connected ob \<and> handshake_complete ob"
  "cl_rung (qn_observation_classify ob) \<ge> QN_RUNG_HTTP \<longleftrightarrow> connected ob \<and> handshake_complete ob \<and> final_headers ob"
  "cl_rung (qn_observation_classify ob) \<ge> QN_RUNG_EDGE \<longleftrightarrow> connected ob \<and> handshake_complete ob \<and> final_headers ob \<and> edge_verified ob"
  "cl_rung (qn_observation_classify ob) < QN_RUNG_COUNT"
  by (auto simp: qn_observation_classify_def Let_def rung_order)

section \<open>Theorems\<close>

text \<open>
  Property C6.  Whatever HTTP events arrive, in whatever order, an endpoint is classified at or above the
  edge rung only on full evidence: the connection and the handshake are complete, the request
  was flushed entirely, the first final response head of the first response had status 200
  (later heads, trailers and other responses never replace it) and that response carried the
  trace marker.  Header hints alone never suffice.
\<close>

theorem edge_needs_full_evidence:
  assumes "\<not> final_headers o0" "\<not> trace_colo o0" "\<not> edge_verified o0"
  shows "cl_rung (qn_observation_classify (fold (\<lambda>e ob. qn_observation_apply_http ob e) es o0)) \<ge> QN_RUNG_EDGE \<longleftrightarrow>
    connected o0 \<and> handshake_complete o0 \<and> request_fully_flushed o0 \<and>
    (\<exists>h. first_head es = Some h \<and> he_status h = 200) \<and>
    (\<exists>e \<in> set es. he_response_index e = 1 \<and> has_fact e QN_HTTP_FACT_TRACE_COLO)"
proof -
  define ob where "ob = fold (\<lambda>e ob. qn_observation_apply_http ob e) es o0"
  note a = apply_all [OF ob_def assms]
  have "cl_rung (qn_observation_classify ob) \<ge> QN_RUNG_EDGE \<longleftrightarrow>
      connected ob \<and> handshake_complete ob \<and> final_headers ob \<and> edge_verified ob" by (rule classify_ladder)
  then show ?thesis unfolding ob_def [symmetric] using a by auto
qed

theorem edge_needs_full_evidence_witness:
  "\<not> cl_rung (qn_observation_classify (fold (\<lambda>e ob. qn_observation_apply_http ob e)
      [\<lparr>he_flags = 33, he_response_index = 1, he_body_bytes = 0, he_status = 200, he_colo = []\<rparr>]
      (qn_observation_init\<lparr>connected := True, handshake_complete := True, request_fully_flushed := True\<rparr>))) \<ge> QN_RUNG_EDGE"
proof -
  let ?o = "qn_observation_init\<lparr>connected := True, handshake_complete := True, request_fully_flushed := True\<rparr>"
  let ?e = "\<lparr>he_flags = 33, he_response_index = 1, he_body_bytes = 0, he_status = 200, he_colo = []\<rparr>"
  have "\<not> has_fact ?e QN_HTTP_FACT_TRACE_COLO" by (simp add: has_fact_def)
  then show ?thesis using edge_needs_full_evidence [of ?o "[?e]"] by (simp add: qn_observation_init_def)
qed

end
