(* ===== verification/Cf_Sweep.thy ===== *)
theory Cf_Sweep
  imports Topk Cf_Rank Histogram Bandit_Schedule Cidr_Enum Observation
begin

text \<open>
  The Cloudflare scan of \<^verbatim>\<open>src/task/task_cf.c\<close>, its sweep and its measuring handlers.  The array
  \<open>rec\<close> with its length \<open>n\<close> is the list \<open>sc_rec\<close>; without a limit the bounded heap \<open>keep\<close> works in
  place on it.  The callbacks of the current task are those of the phase; its domain and label
  are fields.  \<open>sc_active\<close>, \<open>sc_finalist\<close> hold positions in \<open>sc_rec\<close>; \<open>sc_spr\<close> and
  \<open>sc_baseline\<close> are indexed by the same positions.
\<close>

datatype qn_stage = QN_STAGE_TCP | QN_STAGE_TLS | QN_STAGE_RTT | QN_STAGE_BANNER
datatype cf_phase = CF_PHASE_SWEEP | CF_PHASE_TLS | CF_PHASE_RTT | CF_PHASE_DONE

fun cf_phase_str :: "cf_phase \<Rightarrow> string" where
  "cf_phase_str CF_PHASE_SWEEP = ''reach''"
| "cf_phase_str CF_PHASE_TLS = ''handshake''"
| "cf_phase_str CF_PHASE_RTT = ''measure''"
| "cf_phase_str CF_PHASE_DONE = ''done''"

record qn_job =
  j_addr :: qn_addr
  j_port :: nat
  j_stage :: qn_stage
  j_token :: nat

record qn_event =
  ev_job :: qn_job
  ev_rtt_us :: nat
  ev_result :: qn_result
  ev_tls :: qn_tls_outcome
  ev_failure_origin :: qn_failure_origin
  ev_sys_errno :: int

text \<open>The answers of a task's \<open>next\<close>.\<close>

datatype qn_task_next = QN_TASK_JOB qn_job | QN_TASK_EXHAUSTED | QN_TASK_STOP_CONDITION | QN_TASK_CANCELLED | QN_TASK_FATAL

text \<open>What the scan reads of its configuration and plan.\<close>

record cf_plan =
  pl_planned :: nat
  pl_exact_full :: bool
  pl_selection :: qn_selection
  pl_rank_by :: qn_rank_policy
  pl_finalist_limit :: nat
  pl_samples :: nat

record cf_scan =
  sc_plan :: cf_plan
  sc_set :: qn_cidr_set
  sc_bandit :: qn_bandit
  sc_uniform :: qn_perm
  sc_rec :: "cf_record list"
  sc_cap :: nat
  sc_limit :: nat
  sc_offered :: nat
  sc_evicted :: nat
  sc_spr :: "qn_sprt list"
  sc_baseline :: "nat list"
  sc_finalist :: "nat list"
  sc_calibration :: nat
  sc_nfinalist :: nat
  sc_active :: "nat list"
  sc_phase :: cf_phase
  sc_step :: int
  sc_rtt_round :: nat
  sc_rtt_ready :: bool
  sc_full :: bool
  sc_reached :: nat
  sc_dropped :: nat
  sc_replaced :: nat
  sc_late :: nat
  sc_truncated :: bool
  sc_sweep_completed :: nat
  sc_inconclusive :: nat
  sc_local_errors :: nat
  sc_clean :: nat
  sc_hist :: qn_hist
  sc_task_domain :: nat
  sc_task_label :: string

section \<open>Sweep\<close>

definition cf_sweep_key :: "cf_record \<Rightarrow> nat" where
  "cf_sweep_key r = (let m = qn_samples_min (samples r) in if m = 0 then 0xFFFFFFFF else m)"

definition cf_sweep_better :: "cf_record \<Rightarrow> cf_record \<Rightarrow> int" where
  "cf_sweep_better a b =
     (let ra = cf_sweep_key a; rb = cf_sweep_key b in if ra < rb then 1 else if ra > rb then -1 else 0)"

definition cf_next_sweep :: "cf_scan \<Rightarrow> nat \<Rightarrow> qn_task_next \<times> cf_scan" where
  "cf_next_sweep s idx =
     (let job = (\<lambda>s pick. case qn_cidr_set_nth (sc_set s) pick of
                   None \<Rightarrow> (QN_TASK_FATAL, s)
                 | Some a \<Rightarrow> (QN_TASK_JOB \<lparr>j_addr = a, j_port = 443, j_stage = QN_STAGE_TCP, j_token = pick\<rparr>, s))
      in if sc_full s then (QN_TASK_STOP_CONDITION, s)
         else if idx \<ge> pl_planned (sc_plan s) then (QN_TASK_EXHAUSTED, s)
         else if pl_exact_full (sc_plan s) \<or> pl_selection (sc_plan s) = QN_SELECTION_UNIFORM
         then job s (perm_nat (sc_uniform s) idx)
         else (case qn_bandit_next (sc_bandit s) idx of
                 (None, b) \<Rightarrow> (QN_TASK_EXHAUSTED, s\<lparr>sc_bandit := b\<rparr>)
               | (Some pick, b) \<Rightarrow> job (s\<lparr>sc_bandit := b\<rparr>) pick))"

text \<open>The heap over the record array.\<close>

definition keep_heap :: "cf_scan \<Rightarrow> cf_record qn_topk" where
  "keep_heap s = \<lparr>h_slot = sc_rec s, h_cap = sc_cap s, h_offered = sc_offered s, h_evicted = sc_evicted s\<rparr>"

definition sweep_candidate :: "qn_event \<Rightarrow> cf_record" where
  "sweep_candidate ev =
     (let cand = blank_record\<lparr>addr := j_addr (ev_job ev), highest_rung_reached := QN_RUNG_TCP, terminal_outcome := QN_TERM_SUCCESS\<rparr>
      in if ev_rtt_us ev \<noteq> 0 then cand\<lparr>samples := qn_samples_add (samples cand) (ev_rtt_us ev)\<rparr> else cand)"

definition train :: "cf_scan \<Rightarrow> qn_event \<Rightarrow> cf_scan" where
  "train s ev =
     (if ev_result ev \<noteq> QN_R_CANCELLED \<and>
         (ev_failure_origin ev = QN_FAIL_NONE \<or> ev_failure_origin ev = QN_FAIL_PEER \<or> ev_failure_origin ev = QN_FAIL_PATH)
      then s\<lparr>sc_bandit := qn_bandit_report (sc_bandit s) (j_token (ev_job ev)) (ev_result ev = QN_R_OPEN)\<rparr> else s)"

definition sweep_keep :: "cf_scan \<Rightarrow> cf_record \<Rightarrow> cf_scan" where
  "sweep_keep s cand =
     (let was_full = qn_topk_full (keep_heap s);
          (kept, h) = qn_topk_offer cf_sweep_better (keep_heap s) cand;
          s1 = s\<lparr>sc_rec := h_slot h, sc_offered := h_offered h, sc_evicted := h_evicted h\<rparr>
      in if was_full
         then (let s2 = s1\<lparr>sc_truncated := True\<rparr> in
               if kept then s2\<lparr>sc_replaced := sc_replaced s2 + 1\<rparr> else s2\<lparr>sc_dropped := sc_dropped s2 + 1\<rparr>)
         else s1)"

definition cf_on_sweep :: "cf_scan \<Rightarrow> qn_event \<Rightarrow> cf_scan" where
  "cf_on_sweep s0 ev =
     (let s = train (s0\<lparr>sc_sweep_completed := sc_sweep_completed s0 + 1\<rparr>) ev in
      if ev_result ev \<noteq> QN_R_OPEN then s
      else (let s = s\<lparr>sc_reached := sc_reached s + 1\<rparr>; n = length (sc_rec s) in
            if sc_limit s \<noteq> 0 \<and> n \<ge> sc_limit s then s\<lparr>sc_late := sc_late s + 1, sc_full := True\<rparr>
            else if sc_limit s \<noteq> 0
            then (let s = s\<lparr>sc_rec := sc_rec s @ [sweep_candidate ev]\<rparr> in
                  if length (sc_rec s) \<ge> sc_limit s then s\<lparr>sc_full := True\<rparr> else s)
            else sweep_keep s (sweep_candidate ev)))"

section \<open>Handshake and measurement\<close>

definition cf_next_sel :: "cf_scan \<Rightarrow> nat \<Rightarrow> qn_stage \<Rightarrow> nat \<Rightarrow> qn_task_next" where
  "cf_next_sel s idx stage port =
     (if idx \<ge> length (sc_active s) then QN_TASK_EXHAUSTED
      else (let i = sc_active s ! idx in
            QN_TASK_JOB \<lparr>j_addr = addr (sc_rec s ! i), j_port = port, j_stage = stage, j_token = i\<rparr>))"

definition cf_next_tls :: "cf_scan \<Rightarrow> nat \<Rightarrow> qn_task_next" where
  "cf_next_tls s idx = cf_next_sel s idx QN_STAGE_TLS 443"

definition cf_on_tls :: "cf_scan \<Rightarrow> qn_event \<Rightarrow> cf_scan" where
  "cf_on_tls s ev =
     (let i = j_token (ev_job ev) in
      if i \<ge> length (sc_rec s) \<or> ev_result ev = QN_R_CANCELLED then s
      else (let r = (sc_rec s ! i)\<lparr>failure_origin := ev_failure_origin ev, transport_result := ev_result ev,
                      tls_outcome := ev_tls ev, sys_errno := ev_sys_errno ev\<rparr>;
                put = (\<lambda>s r. s\<lparr>sc_rec := (sc_rec s)[i := r]\<rparr>);
                bad = (\<lambda>t. put (s\<lparr>sc_inconclusive := sc_inconclusive s + 1\<rparr>) (r\<lparr>terminal_outcome := t\<rparr>))
            in if ev_failure_origin ev = QN_FAIL_LOCAL \<or> ev_result ev = QN_R_ERROR
               then put (s\<lparr>sc_local_errors := sc_local_errors s + 1\<rparr>) (r\<lparr>terminal_outcome := QN_TERM_LOCAL_ERROR\<rparr>)
               else (case ev_tls ev of
                  QN_TLS_SERVERHELLO \<Rightarrow>
                    (let r1 = r\<lparr>highest_rung_reached := QN_RUNG_TLS, terminal_outcome := QN_TERM_SUCCESS\<rparr>;
                         s1 = s\<lparr>sc_clean := sc_clean s + 1\<rparr>
                     in if ev_rtt_us ev \<noteq> 0
                        then put (s1\<lparr>sc_hist := qn_hist_add (sc_hist s1) (ev_rtt_us ev)\<rparr>)
                               (r1\<lparr>samples := qn_samples_add (samples r1) (ev_rtt_us ev)\<rparr>)
                        else put s1 r1)
                | QN_TLS_ALERT \<Rightarrow> bad QN_TERM_PEER_REJECTED
                | QN_TLS_RESET \<Rightarrow> bad QN_TERM_RESET
                | QN_TLS_SILENCE \<Rightarrow> bad (if ev_result ev = QN_R_TIMEOUT then QN_TERM_TIMEOUT else QN_TERM_INCONCLUSIVE)
                | QN_TLS_GARBAGE \<Rightarrow> bad QN_TERM_PROTOCOL_INVALID
                | QN_TLS_NONE \<Rightarrow>
                    if ev_result ev = QN_R_UNREACH \<or> ev_failure_origin ev = QN_FAIL_PATH then bad QN_TERM_INCONCLUSIVE
                    else put s r)))"

definition cf_next_rtt :: "cf_scan \<Rightarrow> nat \<Rightarrow> qn_task_next" where
  "cf_next_rtt s idx =
     (if idx \<ge> length (sc_active s) then QN_TASK_EXHAUSTED
      else (let i = sc_active s ! idx in
            QN_TASK_JOB \<lparr>j_addr = addr (sc_rec s ! i), j_port = 443, j_stage = QN_STAGE_RTT, j_token = i\<rparr>))"

abbreviation CF_RTT_CALIBRATION :: nat where "CF_RTT_CALIBRATION \<equiv> 3"

definition cf_on_rtt :: "cf_scan \<Rightarrow> qn_event \<Rightarrow> cf_scan" where
  "cf_on_rtt s ev =
     (let i = j_token (ev_job ev) in
      if i \<ge> length (sc_rec s) \<or> ev_result ev = QN_R_CANCELLED then s
      else if ev_failure_origin ev = QN_FAIL_LOCAL \<or> ev_result ev = QN_R_ERROR then s\<lparr>sc_local_errors := sc_local_errors s + 1\<rparr>
      else if ev_result ev = QN_R_OPEN \<and> ev_rtt_us ev \<noteq> 0
      then (let r = (sc_rec s ! i)\<lparr>samples := qn_samples_add (samples (sc_rec s ! i)) (ev_rtt_us ev)\<rparr>;
                s1 = s\<lparr>sc_rec := (sc_rec s)[i := r], sc_hist := qn_hist_add (sc_hist s) (ev_rtt_us ev)\<rparr>
            in if sc_baseline s1 ! i = 0
               then (if length (rtt_us (samples r)) \<ge> CF_RTT_CALIBRATION
                     then s1\<lparr>sc_baseline := (sc_baseline s1)[i := qn_samples_median (samples r)]\<rparr> else s1)
               else s1\<lparr>sc_spr := (sc_spr s1)[i := snd (qn_sprt_push (sc_spr s1 ! i)
                      (qn_rtt_within_baseline (sc_baseline s1 ! i) (ev_rtt_us ev)))]\<rparr>)
      else s\<lparr>sc_rec := (sc_rec s)[i := (sc_rec s ! i)\<lparr>samples := qn_samples_lost (samples (sc_rec s ! i))\<rparr>],
             sc_spr := (sc_spr s)[i := snd (qn_sprt_push (sc_spr s ! i) False)]\<rparr>)"

section \<open>The sweep keeps the best\<close>

text \<open>The comparison of the sweep satisfies the contract of the bounded heap.\<close>

interpretation sweep: topk_order cf_sweep_better
  by unfold_locales (auto simp: cf_sweep_better_def Let_def split: if_splits)

lemma sweep_le: "sweep.le a b \<longleftrightarrow> cf_sweep_key b \<le> cf_sweep_key a"
  by (auto simp: sweep.le_def cf_sweep_better_def Let_def)

definition candidates :: "qn_event list \<Rightarrow> cf_record list" where
  "candidates evs = map sweep_candidate (filter (\<lambda>ev. ev_result ev = QN_R_OPEN) evs)"

lemma train_frame:
  "sc_rec (train s ev) = sc_rec s" "sc_cap (train s ev) = sc_cap s" "sc_limit (train s ev) = sc_limit s"
  "sc_offered (train s ev) = sc_offered s" "sc_evicted (train s ev) = sc_evicted s" "sc_reached (train s ev) = sc_reached s"
  "sc_full (train s ev) = sc_full s" "sc_late (train s ev) = sc_late s" "sc_dropped (train s ev) = sc_dropped s"
  "sc_replaced (train s ev) = sc_replaced s" "sc_truncated (train s ev) = sc_truncated s"
  by (simp_all add: train_def)

lemma keep_heap_sel [simp]:
  "h_slot (keep_heap s) = sc_rec s" "h_cap (keep_heap s) = sc_cap s" by (simp_all add: keep_heap_def)

lemma offer_length: "h_n (snd (qn_topk_offer cmp h x)) = (if h_n h < h_cap h then h_n h + 1 else h_n h)"
  by (simp add: qn_topk_offer_def Let_def)

lemma sweep_keep_heap: "keep_heap (sweep_keep s c) = snd (qn_topk_offer cf_sweep_better (keep_heap s) c)"
  by (simp add: sweep_keep_def keep_heap_def qn_topk_offer_def Let_def)

lemma sweep_keep_counts:
  "sc_reached (sweep_keep s c) = sc_reached s" "sc_limit (sweep_keep s c) = sc_limit s" "sc_cap (sweep_keep s c) = sc_cap s"
  "sc_dropped (sweep_keep s c) + sc_replaced (sweep_keep s c) =
     sc_dropped s + sc_replaced s + (if length (sc_rec s) < sc_cap s then 0 else 1)"
  "sc_truncated (sweep_keep s c) = (sc_truncated s \<or> \<not> length (sc_rec s) < sc_cap s)"
  by (auto simp: sweep_keep_def Let_def qn_topk_full_def split: prod.split)

text \<open>What holds after the events seen so far, without a limit.\<close>

definition sweep_inv :: "cf_scan \<Rightarrow> cf_record list \<Rightarrow> bool" where
  "sweep_inv s cs \<longleftrightarrow> sweep.best_of (keep_heap s) (mset cs) \<and> sc_limit s = 0 \<and> length (sc_rec s) = min (sc_cap s) (length cs) \<and>
     sc_reached s = length cs \<and> sc_dropped s + sc_replaced s = length cs - length (sc_rec s) \<and>
     sc_truncated s = (sc_cap s < length cs)"

lemma on_sweep_inv:
  assumes inv: "sweep_inv s cs"
  shows "sweep_inv (cf_on_sweep s ev) (cs @ candidates [ev]) \<and> sc_cap (cf_on_sweep s ev) = sc_cap s"
proof (cases "ev_result ev = QN_R_OPEN")
  case False
  then have e: "cf_on_sweep s ev = train (s\<lparr>sc_sweep_completed := sc_sweep_completed s + 1\<rparr>) ev" by (simp add: cf_on_sweep_def)
  have "keep_heap (cf_on_sweep s ev) = keep_heap s" by (simp add: keep_heap_def e train_frame)
  then show ?thesis using inv False by (simp add: sweep_inv_def e train_frame candidates_def)
next
  case True
  let ?u = "train (s\<lparr>sc_sweep_completed := sc_sweep_completed s + 1\<rparr>) ev"
  let ?s = "?u\<lparr>sc_reached := sc_reached s + 1\<rparr>"
  let ?c = "sweep_candidate ev"
  have fr: "sc_rec ?s = sc_rec s" "sc_cap ?s = sc_cap s" "sc_limit ?s = sc_limit s" "sc_dropped ?s = sc_dropped s"
    "sc_replaced ?s = sc_replaced s" "sc_truncated ?s = sc_truncated s" "sc_reached ?s = sc_reached s + 1"
    by (simp_all add: train_frame)
  have e: "cf_on_sweep s ev = sweep_keep ?s ?c"
    using True inv by (simp add: cf_on_sweep_def Let_def train_frame sweep_inv_def)
  have kh: "keep_heap ?s = keep_heap s" by (simp add: keep_heap_def train_frame)
  have b: "sweep.best_of (keep_heap (cf_on_sweep s ev)) (add_mset ?c (mset cs))"
    using inv unfolding e sweep_keep_heap kh by (intro sweep.offer_best) (simp add: sweep_inv_def)
  have "length (sc_rec (cf_on_sweep s ev)) = (if length (sc_rec s) < sc_cap s then length (sc_rec s) + 1 else length (sc_rec s))"
    using offer_length [of cf_sweep_better "keep_heap s" ?c] kh sweep_keep_heap [of ?s ?c] unfolding e
    by (metis keep_heap_sel)
  moreover have "candidates [ev] = [?c]" using True by (simp add: candidates_def)
  ultimately show ?thesis
    using inv b unfolding sweep_inv_def e sweep_keep_counts fr
    by (auto simp: min_def)
qed

lemma sweep_run_inv:
  assumes "sweep_inv s cs"
  shows "sweep_inv (fold (\<lambda>ev s. cf_on_sweep s ev) evs s) (cs @ candidates evs) \<and>
    sc_cap (fold (\<lambda>ev s. cf_on_sweep s ev) evs s) = sc_cap s"
  using assms
proof (induction evs arbitrary: s cs)
  case (Cons ev evs)
  have "candidates (ev # evs) = candidates [ev] @ candidates evs" by (simp add: candidates_def)
  then show ?case using Cons.IH [of "cf_on_sweep s ev" "cs @ candidates [ev]"] on_sweep_inv [OF Cons.prems, of ev] by simp
qed (simp add: candidates_def)

text \<open>With a limit: the first candidates, in the order they answered.\<close>

definition limit_inv :: "cf_scan \<Rightarrow> cf_record list \<Rightarrow> bool" where
  "limit_inv s cs \<longleftrightarrow> sc_limit s \<noteq> 0 \<and> sc_rec s = take (sc_limit s) cs \<and> sc_full s = (sc_limit s \<le> length cs) \<and>
     sc_reached s = length cs \<and> sc_late s = length cs - sc_limit s"

lemma on_sweep_limit:
  assumes inv: "limit_inv s cs"
  shows "limit_inv (cf_on_sweep s ev) (cs @ candidates [ev]) \<and> sc_limit (cf_on_sweep s ev) = sc_limit s"
proof (cases "ev_result ev = QN_R_OPEN")
  case False
  then show ?thesis using inv by (simp add: limit_inv_def cf_on_sweep_def Let_def train_frame candidates_def)
next
  case True
  then show ?thesis using inv
    by (auto simp: limit_inv_def cf_on_sweep_def Let_def train_frame candidates_def min_def)
qed

lemma limit_run_inv:
  assumes "limit_inv s cs"
  shows "limit_inv (fold (\<lambda>ev s. cf_on_sweep s ev) evs s) (cs @ candidates evs) \<and>
    sc_limit (fold (\<lambda>ev s. cf_on_sweep s ev) evs s) = sc_limit s"
  using assms
proof (induction evs arbitrary: s cs)
  case (Cons ev evs)
  have "candidates (ev # evs) = candidates [ev] @ candidates evs" by (simp add: candidates_def)
  then show ?case using Cons.IH [of "cf_on_sweep s ev" "cs @ candidates [ev]"] on_sweep_limit [OF Cons.prems, of ev] by simp
qed (simp add: candidates_def)

section \<open>Theorems\<close>


text \<open>
  With a limit the sweep keeps the first candidates in the order they answered, never more
  than the limit; it raises the stop flag exactly when the limit is reached and counts every
  answer that came too late.
\<close>

lemma sweep_limit_first:
  assumes "sc_limit s0 \<noteq> 0" "sc_rec s0 = []" "\<not> sc_full s0" "sc_reached s0 = 0" "sc_late s0 = 0"
  shows "let s = fold (\<lambda>ev s. cf_on_sweep s ev) evs s0 in
    sc_rec s = take (sc_limit s0) (candidates evs) \<and> sc_full s = (sc_limit s0 \<le> length (candidates evs)) \<and>
    sc_late s = length (candidates evs) - sc_limit s0 \<and>
    (\<forall>idx. sc_full s \<longrightarrow> fst (cf_next_sweep s idx) = QN_TASK_STOP_CONDITION)"
proof -
  have "limit_inv s0 []" using assms by (simp add: limit_inv_def)
  from limit_run_inv [OF this, of evs] show ?thesis by (simp add: limit_inv_def Let_def cf_next_sweep_def)
qed

definition blank_scan :: cf_scan where
  "blank_scan = \<lparr>sc_plan = \<lparr>pl_planned = 0, pl_exact_full = False, pl_selection = QN_SELECTION_HYBRID, pl_rank_by = QN_RANK_BALANCED,
       pl_finalist_limit = 1, pl_samples = 5\<rparr>,
     sc_set = two_halves, sc_bandit = \<lparr>b_alpha = [], b_beta = [], b_drawn = [], b_n = 0, b_span = 1, b_total = 0, b_seed = 0,
       b_block_order = qn_perm_init 0 0, b_explore_order = qn_perm_init 0 0, b_explore = 2, b_probe = 48, b_explore_total = 0,
       b_exact = False, b_issued = 0\<rparr>,
     sc_uniform = qn_perm_init 0 0, sc_rec = [], sc_cap = 2, sc_limit = 0, sc_offered = 0, sc_evicted = 0, sc_spr = [],
     sc_baseline = [], sc_finalist = [], sc_calibration = 0, sc_nfinalist = 0, sc_active = [], sc_phase = CF_PHASE_SWEEP,
     sc_step = -1, sc_rtt_round = 0, sc_rtt_ready = False, sc_full = False, sc_reached = 0, sc_dropped = 0, sc_replaced = 0,
     sc_late = 0, sc_truncated = False, sc_sweep_completed = 0, sc_inconclusive = 0, sc_local_errors = 0, sc_clean = 0,
     sc_hist = qn_hist_reset, sc_task_domain = 0, sc_task_label = []\<rparr>"

definition open_event :: "nat \<Rightarrow> nat \<Rightarrow> qn_event" where
  "open_event i rtt = \<lparr>ev_job = \<lparr>j_addr = V4 (word_of_nat i), j_port = 443, j_stage = QN_STAGE_TCP, j_token = i\<rparr>,
     ev_rtt_us = rtt, ev_result = QN_R_OPEN, ev_tls = QN_TLS_NONE, ev_failure_origin = QN_FAIL_NONE, ev_sys_errno = 0\<rparr>"


end
