(* ===== verification/Cf_Phases.thy ===== *)
theory Cf_Phases
  imports Cf_Sweep
begin

text \<open>
  The phases of the Cloudflare scan in \<^verbatim>\<open>src/task/task_cf.c\<close>: choosing a calibration cohort and the
  finalists, and \<open>cf_scan_next_phase\<close>, which drives the scan from the sweep through the
  handshakes to the sequential measurement.
\<close>

abbreviation CF_CALIBRATION_OVERSAMPLE :: nat where "CF_CALIBRATION_OVERSAMPLE \<equiv> 4"
abbreviation CF_CALIBRATION_EXTRA :: nat where "CF_CALIBRATION_EXTRA \<equiv> 32"

definition active_all :: "cf_scan \<Rightarrow> cf_scan" where
  "active_all s = s\<lparr>sc_active := [0..<length (sc_rec s)]\<rparr>"

definition qn_cf_record_classification :: "cf_record \<Rightarrow> qn_classification" where
  "qn_cf_record_classification r = \<lparr>cl_rung = highest_rung_reached r, cl_terminal = terminal_outcome r\<rparr>"

definition ordered_index :: "nat list option \<Rightarrow> nat \<Rightarrow> nat" where
  "ordered_index order position = (case order of None \<Rightarrow> position | Some ord \<Rightarrow> ord ! position)"

definition has_tls :: "cf_scan \<Rightarrow> nat \<Rightarrow> bool" where
  "has_tls s i \<longleftrightarrow> qn_classification_has_tls (qn_cf_record_classification (sc_rec s ! i))"

text \<open>The block of an IPv4 record; other records have none.\<close>

definition rec_block :: "cf_scan \<Rightarrow> nat \<Rightarrow> nat option" where
  "rec_block s i = (case addr (sc_rec s ! i) of V4 x \<Rightarrow> Some (unat x div 256) | V6 _ \<Rightarrow> None)"

text \<open>Linear probing in the scratch table; \<open>UINT32_MAX\<close> marks a free slot.\<close>

fun table_probe :: "nat list \<Rightarrow> nat \<Rightarrow> nat \<Rightarrow> nat \<Rightarrow> bool \<times> nat list" where
  "table_probe tab block at 0 = (False, tab)"
| "table_probe tab block at (Suc k) =
     (let at = (if at \<ge> length tab then at - length tab else at) in
      if tab ! at = block then (True, tab)
      else if tab ! at = UINT32_MAX then (False, tab[at := block])
      else table_probe tab block (at + 1) k)"

text \<open>The first pass reserves places for records of different blocks.\<close>

fun diverse_pass :: "cf_scan \<Rightarrow> nat \<Rightarrow> nat list \<Rightarrow> nat list \<Rightarrow> nat list \<Rightarrow> nat list \<Rightarrow> nat list \<times> nat list" where
  "diverse_pass s reserve [] tab marks out = (marks, out)"
| "diverse_pass s reserve (i # is) tab marks out =
     (if length out \<ge> reserve then (marks, out)
      else if i \<ge> length (sc_rec s) \<or> \<not> has_tls s i \<or> rec_block s i = None then diverse_pass s reserve is tab marks out
      else (let block = the (rec_block s i);
                (found, tab') = table_probe tab block (block * 2654435761 mod sc_cap s) (sc_cap s)
            in if found then diverse_pass s reserve is tab' marks out
               else diverse_pass s reserve is tab' (marks[i := UINT32_MAX]) (out @ [i])))"

fun fill_pass :: "cf_scan \<Rightarrow> nat \<Rightarrow> nat list \<Rightarrow> nat list \<Rightarrow> nat list \<Rightarrow> nat list \<times> nat list" where
  "fill_pass s keep [] marks out = (marks, out)"
| "fill_pass s keep (i # is) marks out =
     (if length out \<ge> keep then (marks, out)
      else if i \<ge> length (sc_rec s) \<or> marks ! i = UINT32_MAX then fill_pass s keep is marks out
      else if has_tls s i then fill_pass s keep is (marks[i := UINT32_MAX]) (out @ [i])
      else fill_pass s keep is marks out)"

definition choose_diverse :: "cf_scan \<Rightarrow> nat list option \<Rightarrow> nat \<Rightarrow> nat \<Rightarrow> nat list \<times> cf_scan" where
  "choose_diverse s order cnt keep =
     (let reserve = min keep (max (keep div 4) 1);
          ord = map (ordered_index order) [0..<cnt];
          tab = replicate (sc_cap s) UINT32_MAX;
          marks = replicate (sc_cap s) 0;
          (marks, out) = diverse_pass s reserve ord tab marks [];
          (marks, out) = fill_pass s keep ord marks out
      in (out, s\<lparr>sc_baseline := fold (\<lambda>i m. m[i := 0]) out marks\<rparr>))"

definition calibration_limit :: "cf_scan \<Rightarrow> nat" where
  "calibration_limit s =
     (let finalists = pl_finalist_limit (sc_plan s);
          multiplied = (if finalists > UINT64_MAX div CF_CALIBRATION_OVERSAMPLE then UINT64_MAX
                        else finalists * CF_CALIBRATION_OVERSAMPLE);
          added = (if finalists > UINT64_MAX - CF_CALIBRATION_EXTRA then UINT64_MAX else finalists + CF_CALIBRATION_EXTRA)
      in min (max multiplied added) (length (sc_rec s)))"

definition record_index_precedes :: "cf_scan \<Rightarrow> nat \<Rightarrow> nat \<Rightarrow> bool" where
  "record_index_precedes s left right =
     (let a = sc_rec s ! left; b = sc_rec s ! right in
      score a > score b \<or> score a = score b \<and> address_order (addr a) (addr b) \<le> 0)"

function index_point :: "cf_scan \<Rightarrow> nat list \<Rightarrow> nat \<Rightarrow> nat \<Rightarrow> nat \<Rightarrow> nat" where
  "index_point s v key lo hi =
     (if lo < hi
      then (let mid = lo + (hi - lo) div 2
            in if record_index_precedes s (v ! mid) key then index_point s v key (mid + 1) hi
               else index_point s v key lo mid)
      else lo)"
  by pat_completeness auto
termination by (relation "measure (\<lambda>(s, v, key, lo, hi). hi - lo)") auto

declare index_point.simps [simp del]

definition index_step :: "cf_scan \<Rightarrow> nat \<Rightarrow> nat list \<Rightarrow> nat list" where
  "index_step s i v =
     (let key = v ! i; lo = index_point s v key 0 i
      in take lo v @ key # drop lo (take i v) @ drop (Suc i) v)"

definition sort_record_indices :: "cf_scan \<Rightarrow> nat list \<Rightarrow> nat list" where
  "sort_record_indices s v = fold (index_step s) [1..<length v] v"

definition finalize_all :: "cf_scan \<Rightarrow> nat list \<Rightarrow> cf_scan" where
  "finalize_all s is = s\<lparr>sc_rec := fold (\<lambda>i v. v[i := qn_cf_finalize_rank (v ! i) (pl_rank_by (sc_plan s))]) is (sc_rec s)\<rparr>"

definition finalize_calibrated_finalists :: "cf_scan \<Rightarrow> cf_scan" where
  "finalize_calibrated_finalists s =
     (if \<not> sc_rtt_ready s then s
      else (let cal = take (sc_calibration s) (sc_finalist s);
                s1 = finalize_all s cal;
                act = sort_record_indices s1 cal;
                (out, s2) = choose_diverse s1 (Some act) (sc_calibration s) (pl_finalist_limit (sc_plan s))
            in s2\<lparr>sc_finalist := out, sc_nfinalist := length out, sc_active := [], sc_rtt_ready := False\<rparr>))"

definition max_rounds :: "cf_scan \<Rightarrow> nat" where
  "max_rounds s = (let samples = (if pl_samples (sc_plan s) \<noteq> 0 then pl_samples (sc_plan s) else 1) in min QN_MAX_SAMPLES (samples * 2))"

text \<open>The cases of the \<open>switch\<close>; \<open>continue\<close> goes on to the next one.\<close>

definition phase_default :: "cf_scan \<Rightarrow> bool \<times> cf_scan" where
  "phase_default s =
     (let narrow = s\<lparr>sc_active := filter (\<lambda>i. qn_sprt_status (sc_spr s ! i) = QN_SPRT_CONTINUE) (sc_active s)\<rparr>;
          done = (\<lambda>s. (False, (finalize_calibrated_finalists s)\<lparr>sc_phase := CF_PHASE_DONE\<rparr>))
      in if sc_rtt_ready s \<and> sc_rtt_round s < max_rounds s
         then (if sc_active narrow \<noteq> []
               then (True, narrow\<lparr>sc_rtt_round := sc_rtt_round s + 1, sc_phase := CF_PHASE_RTT,
                            sc_task_domain := length (sc_active narrow), sc_task_label := ''measure''\<rparr>)
               else done narrow)
         else done s)"

definition phase_measure :: "cf_scan \<Rightarrow> bool \<times> cf_scan" where
  "phase_measure s =
     (let s1 = finalize_all s [0..<length (sc_rec s)];
          s2 = s1\<lparr>sc_rec := qn_cf_sort (sc_rec s1)\<rparr>;
          (out, s3) = choose_diverse s2 None (length (sc_rec s2)) (calibration_limit s2);
          s4 = s3\<lparr>sc_finalist := out, sc_calibration := length out, sc_nfinalist := 0\<rparr>
      in if out = [] then phase_default (s4\<lparr>sc_step := sc_step s4 + 1\<rparr>)
         else (let s5 = s4\<lparr>sc_rec := fold (\<lambda>i v. v[i := (v ! i)\<lparr>samples := samples_empty\<rparr>]) out (sc_rec s4),
                           sc_baseline := fold (\<lambda>i m. m[i := 0]) out (sc_baseline s4),
                           sc_spr := fold (\<lambda>i v. v[i := qn_sprt_init 500 900 50 50 3 (max_rounds s4)]) out (sc_spr s4)\<rparr>
               in (True, s5\<lparr>sc_active := out, sc_hist := qn_hist_reset, sc_rtt_ready := True, sc_rtt_round := 1,
                         sc_phase := CF_PHASE_RTT, sc_task_domain := length out, sc_task_label := ''measure''\<rparr>)))"

definition phase_tls :: "cf_scan \<Rightarrow> bool \<times> cf_scan" where
  "phase_tls s =
     (if sc_rec s = [] then phase_measure (s\<lparr>sc_step := sc_step s + 1\<rparr>)
      else (let s1 = active_all (s\<lparr>sc_phase := CF_PHASE_TLS\<rparr>)
            in (True, s1\<lparr>sc_task_domain := length (sc_active s1), sc_task_label := ''handshake''\<rparr>)))"

definition cf_scan_next_phase :: "cf_scan \<Rightarrow> bool \<times> cf_scan" where
  "cf_scan_next_phase s0 =
     (let s = s0\<lparr>sc_step := sc_step s0 + 1\<rparr> in
      if sc_step s = 0
      then (True, s\<lparr>sc_phase := CF_PHASE_SWEEP, sc_task_domain := pl_planned (sc_plan s), sc_task_label := ''reach''\<rparr>)
      else if sc_step s = 1 then phase_tls s
      else if sc_step s = 2 then phase_measure s
      else phase_default s)"

section \<open>Choosing\<close>

definition eligible :: "cf_scan \<Rightarrow> nat list \<Rightarrow> nat list" where
  "eligible s ord = filter (\<lambda>i. i < length (sc_rec s) \<and> has_tls s i) ord"

text \<open>The marks are the indices chosen so far.\<close>

definition marked :: "nat \<Rightarrow> nat list \<Rightarrow> nat list \<Rightarrow> bool" where
  "marked cap marks out \<longleftrightarrow> length marks = cap \<and> (\<forall>i<cap. marks ! i = (if i \<in> set out then UINT32_MAX else 0))"

lemma marked_add: "marked cap marks out \<Longrightarrow> i < cap \<Longrightarrow> marked cap (marks[i := UINT32_MAX]) (out @ [i])"
  by (auto simp: marked_def nth_list_update)

lemma diverse_pass_spec:
  assumes "marked cap marks out" "length (sc_rec s) \<le> cap" "distinct (out @ ord)" "length out \<le> reserve"
    and "diverse_pass s reserve ord tab marks out = (marks', out')"
  shows "marked cap marks' out' \<and> (\<exists>new. out' = out @ new \<and> distinct new \<and> set new \<subseteq> set (eligible s ord)) \<and> length out' \<le> reserve"
  using assms
proof (induction s reserve ord tab marks out rule: diverse_pass.induct)
  case (2 s reserve i ord tab marks out)
  obtain found tab' where p: "table_probe tab (the (rec_block s i)) (the (rec_block s i) * 2654435761 mod sc_cap s) (sc_cap s) = (found, tab')"
    by force
  let ?skip = "i \<ge> length (sc_rec s) \<or> \<not> has_tls s i \<or> rec_block s i = None"
  show ?case
  proof (cases "length out \<ge> reserve")
    case True
    then show ?thesis using 2 by auto
  next
    case False
    show ?thesis
    proof (cases "?skip \<or> found")
      case True
      have "diverse_pass s reserve ord (if ?skip then tab else tab') marks out = (marks', out')"
        using 2(8) False True p by (auto split: if_splits)
      then have "marked cap marks' out' \<and> (\<exists>new. out' = out @ new \<and> distinct new \<and> set new \<subseteq> set (eligible s ord)) \<and> length out' \<le> reserve"
        using 2(1) [OF False] 2(2) [OF False _ refl, of "(found, tab')"] 2(4-7) True p by (cases ?skip) auto
      then show ?thesis by (auto simp: eligible_def)
    next
      case add: False
      have d: "diverse_pass s reserve ord tab' (marks[i := UINT32_MAX]) (out @ [i]) = (marks', out')"
        using 2(8) False add p by auto
      have "marked cap marks' out' \<and> (\<exists>new. out' = (out @ [i]) @ new \<and> distinct new \<and> set new \<subseteq> set (eligible s ord)) \<and> length out' \<le> reserve"
        using 2(3) [OF False _ refl, of "(found, tab')" found tab'] 2(4-7) add p d False marked_add [OF 2(4), of i] by auto
      then obtain new where n: "marked cap marks' out'" "out' = (out @ [i]) @ new" "distinct new" "set new \<subseteq> set (eligible s ord)" "length out' \<le> reserve"
        by blast
      have "i \<notin> set new" using n(4) 2(6) by (auto simp: eligible_def)
      then show ?thesis using n add by (intro conjI exI [of _ "i # new"]) (auto simp: eligible_def)
    qed
  qed
qed auto

lemma fill_pass_spec:
  assumes "marked cap marks out" "length (sc_rec s) \<le> cap" "distinct out" "distinct ord" "length out \<le> keep"
    and "fill_pass s keep ord marks out = (marks', out')"
  shows "marked cap marks' out' \<and> distinct out' \<and> set out' \<subseteq> set out \<union> set (eligible s ord) \<and> length out' \<le> keep \<and>
    set out \<subseteq> set out' \<and> (length out' < keep \<longrightarrow> set (eligible s ord) \<subseteq> set out')"
  using assms
proof (induction s keep ord marks out rule: fill_pass.induct)
  case (2 s keep i ord marks out)
  show ?case
  proof (cases "length out \<ge> keep")
    case True
    then show ?thesis using 2(4-9) by auto
  next
    case False
    show ?thesis
    proof (cases "i \<ge> length (sc_rec s) \<or> marks ! i = UINT32_MAX")
      case True
      have "i < length (sc_rec s) \<Longrightarrow> i \<in> set out" using True 2(4,5) by (auto simp: marked_def split: if_splits)
      moreover have "fill_pass s keep ord marks out = (marks', out')" using 2(9) False True by auto
      ultimately show ?thesis using 2(1) [OF False True 2(4,5,6)] 2(7,8) by (auto simp: eligible_def)
    next
      case no: False
      have i: "i \<notin> set out" "i < cap" using no 2(4,5) by (auto simp: marked_def)
      show ?thesis
      proof (cases "has_tls s i")
        case True
        have "fill_pass s keep ord (marks[i := UINT32_MAX]) (out @ [i]) = (marks', out')" using 2(9) False no True by auto
        then show ?thesis
          using 2(2) [OF False no True marked_add [OF 2(4) i(2)] 2(5)] 2(6-8) i no False True by (auto simp: eligible_def)
      next
        case nt: False
        have "fill_pass s keep ord marks out = (marks', out')" using 2(9) False no nt by auto
        then show ?thesis using 2(3) [OF False no nt 2(4,5,6)] 2(7,8) nt by (auto simp: eligible_def)
      qed
    qed
  qed
qed (auto simp: eligible_def)

lemma choose_spec:
  assumes cap: "length (sc_rec s) \<le> sc_cap s" and d: "distinct (map (ordered_index order) [0..<cnt])"
    and c: "choose_diverse s order cnt keep = (out, s')"
  shows "distinct out" "set out \<subseteq> set (eligible s (map (ordered_index order) [0..<cnt]))"
    "length out = min keep (length (eligible s (map (ordered_index order) [0..<cnt])))"
proof -
  let ?ord = "map (ordered_index order) [0..<cnt]" let ?res = "min keep (max (keep div 4) 1)"
  obtain m1 o1 where p1: "diverse_pass s ?res ?ord (replicate (sc_cap s) UINT32_MAX) (replicate (sc_cap s) 0) [] = (m1, o1)" by force
  obtain m2 o2 where p2: "fill_pass s keep ?ord m1 o1 = (m2, o2)" by force
  have out: "out = o2" using c p1 p2 by (simp add: choose_diverse_def Let_def)
  have "marked (sc_cap s) (replicate (sc_cap s) 0) []" by (simp add: marked_def)
  from diverse_pass_spec [OF this cap _ _ p1] d have s1: "marked (sc_cap s) m1 o1" "distinct o1"
    "set o1 \<subseteq> set (eligible s ?ord)" "length o1 \<le> ?res" by auto
  have "length o1 \<le> keep" using s1(4) by simp
  note s2 = fill_pass_spec [OF s1(1) cap s1(2) d this p2]
  show "distinct out" "set out \<subseteq> set (eligible s ?ord)" using s2 s1(3) by (auto simp: out)
  have de: "distinct (eligible s ?ord)" using d by (simp add: eligible_def)
  have l: "length o2 = card (set o2)" "length (eligible s ?ord) = card (set (eligible s ?ord))"
    using s2 de distinct_card [of o2] distinct_card [of "eligible s ?ord"] by simp_all
  have sub: "set o2 \<subseteq> set (eligible s ?ord)" using s2 s1(3) by blast
  then have le: "length o2 \<le> length (eligible s ?ord)" unfolding l by (intro card_mono) auto
  show "length out = min keep (length (eligible s ?ord))"
  proof (cases "length o2 < keep")
    case True
    then have "set o2 = set (eligible s ?ord)" using s2 sub by blast
    then have "length o2 = length (eligible s ?ord)" unfolding l by simp
    then show ?thesis using True by (simp only: out min_def not_le [symmetric] if_False)
  next
    case False
    then have "length o2 = keep" using s2 by linarith
    then show ?thesis using le by (simp only: out min_def if_True)
  qed
qed

section \<open>Progress of the phases\<close>

text \<open>The handlers of a phase.\<close>

definition phase_handler :: "cf_phase \<Rightarrow> cf_scan \<Rightarrow> qn_event \<Rightarrow> cf_scan" where
  "phase_handler p s ev = (case p of CF_PHASE_SWEEP \<Rightarrow> cf_on_sweep s ev | CF_PHASE_TLS \<Rightarrow> cf_on_tls s ev
     | CF_PHASE_RTT \<Rightarrow> cf_on_rtt s ev | CF_PHASE_DONE \<Rightarrow> s)"

definition progress :: "cf_scan \<Rightarrow> int \<times> nat \<times> bool \<times> cf_plan" where
  "progress s = (sc_step s, sc_rtt_round s, sc_rtt_ready s, sc_plan s)"

lemma progress_sweep: "progress (cf_on_sweep s ev) = progress s"
proof -
  have tr: "progress (train s ev) = progress s" for s by (simp add: train_def progress_def)
  have kp: "progress (sweep_keep s c) = progress s" for s c
    by (simp add: sweep_keep_def Let_def progress_def split: prod.split)
  have up: "progress (s\<lparr>sc_sweep_completed := a\<rparr>) = progress s" "progress (s\<lparr>sc_reached := b\<rparr>) = progress s"
    "progress (s\<lparr>sc_rec := r\<rparr>) = progress s" "progress (s\<lparr>sc_full := f\<rparr>) = progress s"
    "progress (s\<lparr>sc_late := l\<rparr>) = progress s" for s a b r f l
    by (simp_all add: progress_def)
  show ?thesis by (simp add: cf_on_sweep_def Let_def tr kp up)
qed

lemma progress_tls: "progress (cf_on_tls s ev) = progress s"
proof -
  have up: "progress (s\<lparr>sc_rec := r\<rparr>) = progress s" "progress (s\<lparr>sc_inconclusive := a\<rparr>) = progress s"
    "progress (s\<lparr>sc_local_errors := a\<rparr>) = progress s" "progress (s\<lparr>sc_clean := a\<rparr>) = progress s"
    "progress (s\<lparr>sc_hist := h\<rparr>) = progress s" for s r a h
    by (simp_all add: progress_def)
  show ?thesis unfolding cf_on_tls_def Let_def
    by (cases "ev_tls ev") (simp_all add: up)
qed

lemma progress_rtt: "progress (cf_on_rtt s ev) = progress s"
  unfolding cf_on_rtt_def Let_def by (simp add: progress_def)

lemma handler_progress: "progress (phase_handler p s ev) = progress s"
  by (cases p) (simp_all add: phase_handler_def progress_sweep progress_tls progress_rtt)

lemma handlers_progress: "progress (fold (\<lambda>ev s. phase_handler p s ev) evs s) = progress s"
  by (induction evs arbitrary: s) (simp_all add: handler_progress)

lemma handlers_frame:
  "sc_step (fold (\<lambda>ev s. phase_handler p s ev) evs s) = sc_step s"
  "sc_rtt_round (fold (\<lambda>ev s. phase_handler p s ev) evs s) = sc_rtt_round s"
  "sc_rtt_ready (fold (\<lambda>ev s. phase_handler p s ev) evs s) = sc_rtt_ready s"
  "sc_plan (fold (\<lambda>ev s. phase_handler p s ev) evs s) = sc_plan s"
  using handlers_progress [of p evs s] by (simp_all add: progress_def)

text \<open>
  \<open>phases s k s'\<close>: the scan went from \<open>s\<close> to \<open>s'\<close> through \<open>k\<close> phases, each with whatever events its
  task produced.
\<close>

inductive phases :: "cf_scan \<Rightarrow> nat \<Rightarrow> cf_scan \<Rightarrow> bool" where
  phases_none: "phases s 0 s"
| phases_more: "phases s k s1 \<Longrightarrow> cf_scan_next_phase s1 = (True, s2) \<Longrightarrow>
    phases s (Suc k) (fold (\<lambda>ev s. phase_handler (sc_phase s2) s ev) evs s2)"

inductive_cases phases_SucE: "phases s (Suc k) s'"

text \<open>A bound on the phases that are left.\<close>

definition phases_left :: "cf_scan \<Rightarrow> nat" where
  "phases_left s =
     (if sc_step s < 0 then 2 + max_rounds s
      else if sc_step s < 1 then 1 + max_rounds s
      else if sc_step s < 2 then max_rounds s
      else if sc_rtt_ready s then max_rounds s - sc_rtt_round s else 0)"

lemma max_rounds_pos: "1 \<le> max_rounds s" by (simp add: max_rounds_def Let_def)

lemma choose_frame: "choose_diverse s order cnt keep = (out, s') \<Longrightarrow> sc_step s' = sc_step s \<and> sc_plan s' = sc_plan s \<and>
    sc_rtt_ready s' = sc_rtt_ready s \<and> sc_rtt_round s' = sc_rtt_round s"
  by (auto simp: choose_diverse_def Let_def split: prod.splits)

lemma default_true:
  assumes "phase_default s = (True, s')"
  shows "sc_rtt_ready s \<and> sc_rtt_round s < max_rounds s \<and> sc_rtt_round s' = sc_rtt_round s + 1 \<and> sc_rtt_ready s' \<and>
    sc_step s' = sc_step s \<and> sc_plan s' = sc_plan s"
  using assms by (auto simp: phase_default_def Let_def split: if_splits)

lemma measure_true:
  assumes "phase_measure s = (True, s')" "\<not> sc_rtt_ready s"
  shows "sc_rtt_round s' = 1 \<and> sc_rtt_ready s' \<and> sc_step s' = sc_step s \<and> sc_plan s' = sc_plan s"
proof -
  define s2 where "s2 = (finalize_all s [0..<length (sc_rec s)])\<lparr>sc_rec := qn_cf_sort (sc_rec (finalize_all s [0..<length (sc_rec s)]))\<rparr>"
  obtain out s3 where c: "choose_diverse s2 None (length (sc_rec s2)) (calibration_limit s2) = (out, s3)" by force
  note f = choose_frame [OF c]
  have s2: "sc_step s2 = sc_step s" "sc_plan s2 = sc_plan s" "sc_rtt_ready s2 = sc_rtt_ready s" "sc_rtt_round s2 = sc_rtt_round s"
    by (simp_all add: s2_def finalize_all_def)
  show ?thesis
  proof (cases "out = []")
    case True
    then have "phase_default (s3\<lparr>sc_finalist := out, sc_calibration := length out, sc_nfinalist := 0, sc_step := sc_step s3 + 1\<rparr>) = (True, s')"
      using assms(1) c by (simp add: phase_measure_def s2_def Let_def)
    from default_true [OF this] show ?thesis using f s2 assms(2) by simp
  next
    case False
    have "phase_measure s = (let (out, s3) = choose_diverse s2 None (length (sc_rec s2)) (calibration_limit s2);
          s4 = s3\<lparr>sc_finalist := out, sc_calibration := length out, sc_nfinalist := 0\<rparr>
      in if out = [] then phase_default (s4\<lparr>sc_step := sc_step s4 + 1\<rparr>)
         else (let s5 = s4\<lparr>sc_rec := fold (\<lambda>i v. v[i := (v ! i)\<lparr>samples := samples_empty\<rparr>]) out (sc_rec s4),
                           sc_baseline := fold (\<lambda>i m. m[i := 0]) out (sc_baseline s4),
                           sc_spr := fold (\<lambda>i v. v[i := qn_sprt_init 500 900 50 50 3 (max_rounds s4)]) out (sc_spr s4)\<rparr>
               in (True, s5\<lparr>sc_active := out, sc_hist := qn_hist_reset, sc_rtt_ready := True, sc_rtt_round := 1,
                         sc_phase := CF_PHASE_RTT, sc_task_domain := length out, sc_task_label := ''measure''\<rparr>)))"
      by (simp only: phase_measure_def s2_def Let_def)
    then show ?thesis using False assms(1) c f s2 by (auto simp: Let_def)
  qed
qed

lemma next_phase_left:
  assumes n: "cf_scan_next_phase s = (True, s')" and step: "-1 \<le> sc_step s" and r: "sc_step s < 2 \<longrightarrow> \<not> sc_rtt_ready s"
  shows "Suc (phases_left s') \<le> phases_left s \<and> -1 \<le> sc_step s' \<and> (sc_step s' < 2 \<longrightarrow> \<not> sc_rtt_ready s') \<and> sc_plan s' = sc_plan s"
proof -
  consider "sc_step s = -1" | "sc_step s = 0" | "sc_step s = 1" | "2 \<le> sc_step s" using step by linarith
  then show ?thesis
  proof cases
    case 1
    then show ?thesis using n r by (auto simp: cf_scan_next_phase_def Let_def phases_left_def max_rounds_def)
  next
    case 2
    let ?s = "s\<lparr>sc_step := 1\<rparr>"
    have t: "phase_tls ?s = (True, s')" using n 2 by (simp add: cf_scan_next_phase_def Let_def)
    show ?thesis
    proof (cases "sc_rec s = []")
      case True
      then have m: "phase_measure (s\<lparr>sc_step := 2\<rparr>) = (True, s')" using t by (simp add: phase_tls_def)
      have "sc_rtt_round s' = 1 \<and> sc_rtt_ready s' \<and> sc_step s' = 2 \<and> sc_plan s' = sc_plan s"
        using measure_true [OF m] r 2 by simp
      then show ?thesis using 2 max_rounds_pos [of s] by (simp add: phases_left_def max_rounds_def)
    next
      case False
      then show ?thesis using t r 2 by (auto simp: phase_tls_def active_all_def Let_def phases_left_def max_rounds_def)
    qed
  next
    case 3
    have m: "phase_measure (s\<lparr>sc_step := 2\<rparr>) = (True, s')" using n 3 by (simp add: cf_scan_next_phase_def Let_def)
    have "sc_rtt_round s' = 1 \<and> sc_rtt_ready s' \<and> sc_step s' = 2 \<and> sc_plan s' = sc_plan s"
      using measure_true [OF m] r 3 by simp
    then show ?thesis using 3 max_rounds_pos [of s] by (simp add: phases_left_def max_rounds_def)
  next
    case 4
    have m: "phase_default (s\<lparr>sc_step := sc_step s + 1\<rparr>) = (True, s')" using n 4 by (simp add: cf_scan_next_phase_def Let_def)
    from default_true [OF m] show ?thesis using 4 by (auto simp: phases_left_def max_rounds_def)
  qed
qed

lemma phases_bound:
  assumes "phases s k s'" "sc_step s = -1" "\<not> sc_rtt_ready s"
  shows "k + phases_left s' \<le> 2 + max_rounds s \<and> -1 \<le> sc_step s' \<and> (sc_step s' < 2 \<longrightarrow> \<not> sc_rtt_ready s')"
  using assms
proof (induction rule: phases.induct)
  case (phases_none s)
  then show ?case by (simp add: phases_left_def)
next
  case (phases_more s k s1 s2 evs)
  then have ih: "k + phases_left s1 \<le> 2 + max_rounds s" "-1 \<le> sc_step s1" "sc_step s1 < 2 \<longrightarrow> \<not> sc_rtt_ready s1" by auto
  have "phases_left (fold (\<lambda>ev s. phase_handler (sc_phase s2) s ev) evs s2) = phases_left s2"
    by (simp add: phases_left_def max_rounds_def handlers_frame)
  then show ?case using next_phase_left [OF phases_more(2) ih(2,3)] ih by (simp add: handlers_frame)
qed

section \<open>Theorems\<close>

text \<open>
  Property C7.  The scan comes to an end: from a fresh scan \<^verbatim>\<open>cf_scan_next_phase\<close> announces at most one
  sweep, one handshake phase and as many measuring rounds as twice the configured samples (at
  most 12), whatever events the phases deliver.
\<close>

theorem scan_phases_bounded:
  assumes "phases s k s'" "sc_step s = -1" "\<not> sc_rtt_ready s"
  shows "k \<le> 2 + min 12 (2 * max 1 (pl_samples (sc_plan s)))"
proof -
  have "max_rounds s = min 12 (2 * max 1 (pl_samples (sc_plan s)))"
    by (cases "pl_samples (sc_plan s)") (simp_all add: max_rounds_def mult.commute)
  then show ?thesis using phases_bound [OF assms] by linarith
qed

theorem scan_phases_bounded_witness:
  "\<exists>s'. phases blank_scan 1 s' \<and> (1::nat) \<le> 2 + min 12 (2 * max 1 (pl_samples (sc_plan blank_scan)))"
proof -
  obtain s2 where n: "cf_scan_next_phase blank_scan = (True, s2)" by (simp add: cf_scan_next_phase_def blank_scan_def)
  have p: "phases blank_scan 1 s2" using phases_more [OF phases_none n, of "[]"] by simp
  show ?thesis using scan_phases_bounded [OF p] p by (auto simp: blank_scan_def)
qed

text \<open>
  \<^verbatim>\<open>choose_diverse\<close> never returns an index twice and only returns records with a completed
  handshake; it fills the quota whenever there are enough of them, so preferring different
  address blocks never costs a place.
\<close>

lemma choose_diverse_fills:
  assumes "length (sc_rec s) \<le> sc_cap s" "distinct (map (ordered_index order) [0..<cnt])"
  shows "distinct (fst (choose_diverse s order cnt keep)) \<and>
    (\<forall>i \<in> set (fst (choose_diverse s order cnt keep)). i < length (sc_rec s) \<and> has_tls s i) \<and>
    length (fst (choose_diverse s order cnt keep)) = min keep (length (eligible s (map (ordered_index order) [0..<cnt])))"
proof -
  obtain out s' where c: "choose_diverse s order cnt keep = (out, s')" by force
  show ?thesis using choose_spec [OF assms c] c by (auto simp: eligible_def)
qed

end
