(* ===== verification/Store.thy ===== *)
theory Store
  imports Util Arena
begin

text \<open>
  \<^verbatim>\<open>src/core/store.c\<close>, the evidence kept between runs: one entry per address with a decayed count
  of successes (\<open>e_score\<close>) and of observations (\<open>e_weight\<close>), both in 1/1024.  A store holds
  its used entries and its capacity; slots past \<open>n\<close> are cleared before use and never read.
  Times are seconds.  Reading and writing the history file is in theory \<open>Store_File\<close>.
\<close>

record qn_store_entry =
  e_addr :: qn_addr
  e_last_seen :: nat
  e_runs :: nat
  e_score :: nat
  e_weight :: nat
  e_oper_mask :: u32
  e_handshake :: nat

record qn_store =
  s_base :: "u64 option"
  s_e :: "qn_store_entry list"
  s_cap :: nat

abbreviation QN_STORE_HALFLIFE_SEC :: nat where "QN_STORE_HALFLIFE_SEC \<equiv> 259200"
abbreviation Q10 :: nat where "Q10 \<equiv> 1024"

function decay_loop :: "nat \<Rightarrow> nat \<Rightarrow> nat \<times> nat" where
  "decay_loop dt q =
     (if dt \<ge> QN_STORE_HALFLIFE_SEC \<and> q > 1 then decay_loop (dt - QN_STORE_HALFLIFE_SEC) (q div 2) else (dt, q))"
  by pat_completeness auto
termination by (relation "measure (\<lambda>(dt, q). q)") auto

declare decay_loop.simps [simp del]

definition decay_q10 :: "nat \<Rightarrow> nat" where
  "decay_q10 dt_sec =
     (let (dt, q) = decay_loop dt_sec Q10 in
      if q > 1 then q - (q div 2 * dt) div QN_STORE_HALFLIFE_SEC else q)"

text \<open>FNV-1a of the path tag picks one of 32 bits; a missing tag hashes like an empty one.\<close>

definition oper_bit :: "string option \<Rightarrow> u32" where
  "oper_bit oper =
     (let h = fold (\<lambda>c h. (h XOR word_of_nat (code c)) * 16777619) (case oper of None \<Rightarrow> [] | Some s \<Rightarrow> s) (2166136261 :: u32)
      in push_bit (unat (h AND 31)) 1)"

text \<open>An entry takes 56 bytes, aligned to 8.\<close>

definition qn_store_init :: "qn_arena option \<Rightarrow> nat \<Rightarrow> bool \<times> qn_store \<times> qn_arena option" where
  "qn_store_init a cap =
     (let zero = \<lparr>s_base = None, s_e = [], s_cap = 0\<rparr> in
      case a of
        None \<Rightarrow> (False, zero, None)
      | Some ar \<Rightarrow>
          if cap = 0 then (False, zero, Some ar)
          else (case qn_arena_array ar 56 (word_of_nat cap) 8 of
                  (None, ar') \<Rightarrow> (False, zero, Some ar')
                | (Some p, ar') \<Rightarrow> (True, \<lparr>s_base = Some p, s_e = [], s_cap = cap\<rparr>, Some ar')))"

definition qn_store_find :: "qn_store \<Rightarrow> qn_addr \<Rightarrow> qn_store_entry option" where
  "qn_store_find s a =
     (if s_base s = None then None else List.find (\<lambda>e. qn_addr_eq (e_addr e) a) (s_e s))"

text \<open>How far an entry has decayed by \<open>now\<close>; the code writes this expression three times.\<close>

definition decay_at :: "qn_store_entry \<Rightarrow> nat \<Rightarrow> nat" where
  "decay_at e now = (if e_last_seen e \<noteq> 0 \<and> now > e_last_seen e then decay_q10 (now - e_last_seen e) else Q10)"

definition standing :: "qn_store_entry \<Rightarrow> nat \<Rightarrow> nat" where
  "standing e now =
     (let d = decay_at e now; w = e_weight e * d div Q10; v = e_score e * d div Q10
      in v * Q10 div (w + 1) * (w + 1))"

fun addr_index :: "qn_store_entry list \<Rightarrow> qn_addr \<Rightarrow> nat option" where
  "addr_index [] a = None"
| "addr_index (e # es) a = (if qn_addr_eq (e_addr e) a then Some 0 else map_option Suc (addr_index es a))"

definition worst_index :: "qn_store_entry list \<Rightarrow> nat \<Rightarrow> nat" where
  "worst_index es now = fold (\<lambda>i worst. if standing (es ! i) now < standing (es ! worst) now then i else worst) [1..<length es] 0"

definition fresh_entry :: "qn_addr \<Rightarrow> qn_store_entry" where
  "fresh_entry a = \<lparr>e_addr = a, e_last_seen = 0, e_runs = 0, e_score = 0, e_weight = 0, e_oper_mask = 0, e_handshake = 0\<rparr>"

text \<open>The index of the slot for an address and the entries, with a cleared slot where there was none.\<close>

definition slot_for :: "qn_store \<Rightarrow> qn_addr \<Rightarrow> nat \<Rightarrow> nat \<times> qn_store_entry list" where
  "slot_for s a now =
     (case addr_index (s_e s) a of
        Some i \<Rightarrow> (i, s_e s)
      | None \<Rightarrow>
          if length (s_e s) < s_cap s then (length (s_e s), s_e s @ [fresh_entry a])
          else (let worst = worst_index (s_e s) now in (worst, (s_e s)[worst := fresh_entry a])))"

text \<open>The evidence of an entry at a time, halved if another observation might not fit.\<close>

definition decayed :: "qn_store_entry \<Rightarrow> nat \<Rightarrow> nat \<times> nat" where
  "decayed e event_now =
     (let d = decay_at e event_now; score = e_score e * d div Q10; weight = e_weight e * d div Q10
      in if score > UINT32_MAX - Q10 \<or> weight > UINT32_MAX - Q10
         then ((score + 1) div 2, (weight + 1) div 2) else (score, weight))"

definition fold_in :: "qn_store_entry \<Rightarrow> string option \<Rightarrow> bool \<Rightarrow> nat \<Rightarrow> nat \<Rightarrow> qn_store_entry" where
  "fold_in e oper good handshake_us now =
     (let event_now = (if e_last_seen e \<noteq> 0 \<and> now < e_last_seen e then e_last_seen e else now);
          (score, weight) = decayed e event_now;
          score = (if good then score + Q10 else score);
          weight = weight + Q10;
          e = e\<lparr>e_score := score mod 2 ^ 32, e_weight := weight mod 2 ^ 32, e_last_seen := event_now,
                e_runs := (if e_runs e \<noteq> UINT32_MAX then e_runs e + 1 else e_runs e)\<rparr>
      in if good
         then e\<lparr>e_oper_mask := e_oper_mask e OR oper_bit oper,
                e_handshake := (if e_handshake e \<noteq> 0 then (e_handshake e + handshake_us) div 2 mod 2 ^ 32 else handshake_us)\<rparr>
         else e)"

definition qn_store_observe :: "qn_store \<Rightarrow> qn_addr \<Rightarrow> string option \<Rightarrow> bool \<Rightarrow> nat \<Rightarrow> nat \<Rightarrow> qn_store" where
  "qn_store_observe s a oper good handshake_us now =
     (if s_base s = None \<or> s_cap s = 0 then s
      else (let (i, es) = slot_for s a now in s\<lparr>s_e := es[i := fold_in (es ! i) oper good handshake_us now]\<rparr>))"

definition popcount :: "u32 \<Rightarrow> nat" where "popcount m = length (filter (bit m) [0..<32])"

definition qn_store_confidence :: "qn_store \<Rightarrow> qn_addr \<Rightarrow> nat \<Rightarrow> nat" where
  "qn_store_confidence s a now =
     (case qn_store_find s a of
        None \<Rightarrow> 0
      | Some e \<Rightarrow>
          if e_weight e = 0 then 0
          else (let d = decay_at e now;
                    rate = e_score e * 1000 div e_weight e;
                    conf = rate * 7 div 10;
                    paths = popcount (e_oper_mask e);
                    conf = (if paths > 1 then conf + min (paths - 1) 3 * 60 else conf);
                    conf = (if e_runs e \<ge> 3 then conf + 60 else conf);
                    conf = (if e_runs e \<ge> 8 then conf + 60 else conf);
                    conf = conf * d div Q10
                in if conf > 1000 then 1000 else conf))"

section \<open>Decay\<close>

text \<open>The decay from \<open>2 ^ k\<close>, by recursion on the number of halvings left.\<close>

fun decay_from :: "nat \<Rightarrow> nat \<Rightarrow> nat" where
  "decay_from 0 dt = 1"
| "decay_from (Suc k) dt =
     (if dt \<ge> QN_STORE_HALFLIFE_SEC then decay_from k (dt - QN_STORE_HALFLIFE_SEC)
      else 2 ^ Suc k - (2 ^ k * dt) div QN_STORE_HALFLIFE_SEC)"

lemma decay_from_eq:
  "(let (d, q) = decay_loop dt (2 ^ k) in if q > 1 then q - (q div 2 * d) div QN_STORE_HALFLIFE_SEC else q) = decay_from k dt"
proof (induction k arbitrary: dt)
  case 0
  show ?case by (subst decay_loop.simps) simp
next
  case (Suc k)
  have "(1::nat) < 2 ^ Suc k" by (rule one_less_power) simp_all
  then show ?case using Suc [of "dt - QN_STORE_HALFLIFE_SEC"] by (subst decay_loop.simps) simp
qed

lemma decay_q10_from: "decay_q10 dt = decay_from 10 dt"
  using decay_from_eq [of dt 10] by (simp add: decay_q10_def)

lemma decay_step: "dt < QN_STORE_HALFLIFE_SEC \<Longrightarrow> (2 ^ k * dt) div QN_STORE_HALFLIFE_SEC < 2 ^ k"
  by (simp add: less_mult_imp_div_less)

lemma decay_from_le: "1 \<le> decay_from k dt \<and> decay_from k dt \<le> 2 ^ k"
proof (induction k arbitrary: dt)
  case (Suc k)
  then have "1 \<le> decay_from k (dt - QN_STORE_HALFLIFE_SEC)" "decay_from k (dt - QN_STORE_HALFLIFE_SEC) \<le> 2 * 2 ^ k"
    by (auto intro: le_trans [of _ "2 ^ k"])
  moreover have "1 \<le> 2 * 2 ^ k - 2 ^ k * dt div QN_STORE_HALFLIFE_SEC" if "dt < QN_STORE_HALFLIFE_SEC"
    using decay_step [OF that, of k] by linarith
  ultimately show ?case by simp
qed simp

lemma decay_from_anti: "dt \<le> dt' \<Longrightarrow> decay_from k dt' \<le> decay_from k dt"
proof (induction k arbitrary: dt dt')
  case (Suc k)
  consider "dt \<ge> QN_STORE_HALFLIFE_SEC" | "dt < QN_STORE_HALFLIFE_SEC" "dt' \<ge> QN_STORE_HALFLIFE_SEC" | "dt' < QN_STORE_HALFLIFE_SEC"
    using Suc.prems by linarith
  then show ?case
  proof cases
    case 1
    then show ?thesis using Suc by simp
  next
    case 2
    then show ?thesis using decay_step [of dt k] decay_from_le [of k "dt' - QN_STORE_HALFLIFE_SEC"] by simp linarith
  next
    case 3
    then show ?thesis using Suc.prems by (simp add: diff_le_mono2 div_le_mono)
  qed
qed simp

lemma div_double: "(2 * x) div d = 2 * (x div d) \<or> (2 * x) div d = 2 * (x div d) + 1" if "0 < d" for x d :: nat
proof -
  have "2 * x = 2 * (d * (x div d) + x mod d)" by simp
  then have "2 * x = 2 * (x mod d) + d * (2 * (x div d))" by (simp only: distrib_left ac_simps)
  then have e: "(2 * x) div d = 2 * (x div d) + (2 * (x mod d)) div d" using that by (metis div_mult_self2 not_gr_zero add.commute)
  have "2 * (x mod d) < 2 * d" using that by simp
  then have "(2 * (x mod d)) div d < 2" by (simp add: less_mult_imp_div_less)
  then show ?thesis using e by linarith
qed

lemma decay_from_half: "decay_from k dt = (decay_from (Suc k) dt + 1) div 2"
proof (induction k arbitrary: dt)
  case 0
  show ?case using div_double [of QN_STORE_HALFLIFE_SEC dt] by simp
next
  case (Suc k)
  show ?case
  proof (cases "dt \<ge> QN_STORE_HALFLIFE_SEC")
    case True
    then have "decay_from (Suc k) dt = decay_from k (dt - QN_STORE_HALFLIFE_SEC)"
      "decay_from (Suc (Suc k)) dt = decay_from (Suc k) (dt - QN_STORE_HALFLIFE_SEC)" by simp_all
    then show ?thesis using Suc [of "dt - QN_STORE_HALFLIFE_SEC"] by (simp only:)
  next
    case False
    let ?x = "(2 ^ k * dt) div QN_STORE_HALFLIFE_SEC" let ?y = "(2 ^ Suc k * dt) div QN_STORE_HALFLIFE_SEC"
    have "?y = 2 * ?x \<or> ?y = 2 * ?x + 1" using div_double [of QN_STORE_HALFLIFE_SEC "2 ^ k * dt"] by (simp add: mult.assoc)
    moreover have "?x < 2 ^ k" using False decay_step [of dt k] by simp
    ultimately have "2 ^ Suc k - ?x = (2 ^ Suc (Suc k) - ?y + 1) div 2" by auto
    then show ?thesis using False by (simp only: decay_from.simps if_False)
  qed
qed

lemma decay_at_bounds: "1 \<le> decay_at e now" "decay_at e now \<le> Q10"
  using decay_from_le [of 10 "now - e_last_seen e"] by (auto simp: decay_at_def decay_q10_from)

lemma decay_at_anti: "now \<le> now' \<Longrightarrow> decay_at e now' \<le> decay_at e now"
  using decay_from_le [of 10 "now' - e_last_seen e"] decay_from_anti [of "now - e_last_seen e" "now' - e_last_seen e" 10]
  by (auto simp: decay_at_def decay_q10_from)

section \<open>Entries\<close>

definition entry_ok :: "qn_store_entry \<Rightarrow> bool" where
  "entry_ok e \<longleftrightarrow> addr_ok (e_addr e) \<and> e_last_seen e \<le> UINT64_MAX \<and> e_runs e \<le> UINT32_MAX \<and> e_score e \<le> e_weight e \<and>
     e_weight e \<le> UINT32_MAX \<and> (e_runs e = 0 \<longleftrightarrow> e_weight e = 0) \<and> e_handshake e \<le> UINT32_MAX"

definition entries_ok :: "nat \<Rightarrow> qn_store_entry list \<Rightarrow> bool" where
  "entries_ok cap es \<longleftrightarrow> length es \<le> cap \<and> (\<forall>e \<in> set es. entry_ok e) \<and> distinct (map e_addr es)"

definition store_ok :: "qn_store \<Rightarrow> bool" where
  "store_ok s \<longleftrightarrow> entries_ok (s_cap s) (s_e s)"

lemma fold_in_addr [simp]: "e_addr (fold_in e oper good us now) = e_addr e"
  by (simp add: fold_in_def Let_def split: prod.splits)

lemma scaled_le: "d \<le> Q10 \<Longrightarrow> x * d div Q10 \<le> x" for x d :: nat
  by (metis div_le_mono div_mult_self_is_m mult_le_mono2 zero_less_numeral)

lemma decayed_ok:
  assumes e: "entry_ok e" and d: "decayed e t = (s, w)"
  shows "s \<le> w \<and> w + Q10 \<le> UINT32_MAX"
proof -
  define s0 w0 where "s0 = e_score e * decay_at e t div Q10" and "w0 = e_weight e * decay_at e t div Q10"
  have "w0 \<le> e_weight e" unfolding w0_def by (rule scaled_le) (rule decay_at_bounds)
  moreover have "s0 \<le> w0" using e by (auto simp: s0_def w0_def entry_ok_def intro: div_le_mono)
  ultimately have sw: "s0 \<le> w0" "w0 \<le> UINT32_MAX" using e by (auto simp: entry_ok_def)
  have "(if s0 > UINT32_MAX - Q10 \<or> w0 > UINT32_MAX - Q10 then ((s0 + 1) div 2, (w0 + 1) div 2) else (s0, w0)) = (s, w)"
    using d by (simp only: decayed_def Let_def s0_def w0_def)
  then show ?thesis using sw by (auto split: if_splits)
qed

lemma fold_in_ok:
  assumes e: "entry_ok e" and us: "us \<le> UINT32_MAX" and now: "now \<le> UINT64_MAX"
  shows "entry_ok (fold_in e oper good us now)" "0 < e_runs (fold_in e oper good us now)"
proof -
  define t where "t = (if e_last_seen e \<noteq> 0 \<and> now < e_last_seen e then e_last_seen e else now)"
  obtain s w where d: "decayed e t = (s, w)" by force
  have sw: "s \<le> w" "w + Q10 \<le> UINT32_MAX" using decayed_ok [OF e d] by simp_all
  have m: "(w + Q10) mod 2 ^ 32 = w + Q10" "(s + Q10) mod 2 ^ 32 = s + Q10" "s mod 2 ^ 32 = s" using sw by auto
  have h: "(e_handshake e + us) div 2 mod 2 ^ 32 \<le> UINT32_MAX" by (simp add: less_Suc_eq_le [symmetric])
  have "t \<le> UINT64_MAX" using e now by (auto simp: t_def entry_ok_def)
  then show "entry_ok (fold_in e oper good us now)"
    unfolding fold_in_def t_def [symmetric] d Let_def prod.case m using sw h e us by (auto simp: entry_ok_def)
  show "0 < e_runs (fold_in e oper good us now)"
    unfolding fold_in_def t_def [symmetric] d Let_def prod.case by auto
qed

lemma fresh_entry_ok: "addr_ok a \<Longrightarrow> entry_ok (fresh_entry a)"
  by (simp add: fresh_entry_def entry_ok_def)

lemma fresh_entry_addr [simp]: "e_addr (fresh_entry a) = a" by (simp add: fresh_entry_def)

section \<open>Slots\<close>

lemma find_unique:
  assumes "distinct (map e_addr es)" "\<forall>e \<in> set es. entry_ok e" "addr_ok a"
  shows "List.find (\<lambda>e. qn_addr_eq (e_addr e) a) es = Some e \<longleftrightarrow> e \<in> set es \<and> e_addr e = a"
  using assms
proof (induction es)
  case (Cons x es)
  then show ?case by (auto simp: entry_ok_def)
qed simp

lemma addr_index_Some:
  "addr_index es a = Some i \<Longrightarrow> \<forall>e \<in> set es. entry_ok e \<Longrightarrow> addr_ok a \<Longrightarrow> i < length es \<and> e_addr (es ! i) = a"
  by (induction es arbitrary: i) (auto simp: entry_ok_def split: if_splits)

lemma addr_index_None:
  "addr_index es a = None \<Longrightarrow> \<forall>e \<in> set es. entry_ok e \<Longrightarrow> addr_ok a \<Longrightarrow> a \<notin> e_addr ` set es"
  by (induction es) (auto simp: entry_ok_def split: if_splits)

lemma worst_fold:
  "let r = fold (\<lambda>i w. if f i < f w then i else w) ks w in r \<in> insert w (set ks) \<and> (\<forall>k \<in> insert w (set ks). f r \<le> (f k :: nat))"
proof (induction ks arbitrary: w)
  case (Cons k ks)
  show ?case using Cons [of "if f k < f w then k else w"] by (auto simp: Let_def intro: order_trans less_imp_le split: if_splits)
qed simp

lemma worst_index:
  assumes "es \<noteq> []"
  shows "worst_index es now < length es" "i < length es \<Longrightarrow> standing (es ! worst_index es now) now \<le> standing (es ! i) now"
proof -
  have "insert 0 (set [1..<length es]) = {..<length es}" using assms by (cases es) auto
  then show "worst_index es now < length es" "i < length es \<Longrightarrow> standing (es ! worst_index es now) now \<le> standing (es ! i) now"
    using worst_fold [of "\<lambda>i. standing (es ! i) now" "[1..<length es]" 0] by (auto simp: worst_index_def Let_def)
qed

lemma update_entries_ok:
  assumes "entries_ok cap es" "i < length es" "entry_ok e" "e_addr e \<notin> e_addr ` (set es - {es ! i})"
  shows "entries_ok cap (es[i := e])" "set (es[i := e]) = insert e (set es - {es ! i})"
proof -
  have d: "distinct es" using assms(1) by (auto simp: entries_ok_def distinct_map)
  show "set (es[i := e]) = insert e (set es - {es ! i})" using d assms(2) by (rule set_update_distinct)
  then have "\<forall>x \<in> set (es[i := e]). entry_ok x" using assms by (auto simp: entries_ok_def)
  moreover have "distinct (map e_addr (es[i := e]))"
    unfolding map_update using assms by (intro distinct_list_update) (auto simp: entries_ok_def)
  ultimately show "entries_ok cap (es[i := e])" using assms(1) by (simp add: entries_ok_def)
qed

lemma find_None_addr:
  assumes "store_ok s" "addr_ok a" "s_base s \<noteq> None"
  shows "qn_store_find s a = Some e \<longleftrightarrow> e \<in> set (s_e s) \<and> e_addr e = a" "qn_store_find s a = None \<longleftrightarrow> a \<notin> e_addr ` set (s_e s)"
proof -
  have u: "qn_store_find s a = Some e \<longleftrightarrow> e \<in> set (s_e s) \<and> e_addr e = a" for e
    using assms find_unique [of "s_e s" a e] by (auto simp: qn_store_find_def store_ok_def entries_ok_def)
  then show "qn_store_find s a = Some e \<longleftrightarrow> e \<in> set (s_e s) \<and> e_addr e = a" .
  show "qn_store_find s a = None \<longleftrightarrow> a \<notin> e_addr ` set (s_e s)"
    using u by (metis (mono_tags, lifting) image_iff option.exhaust option.simps(3))
qed

text \<open>The entry an observation of \<open>a\<close> starts from, and the entry that has to make room.\<close>

definition before :: "qn_store \<Rightarrow> qn_addr \<Rightarrow> qn_store_entry" where
  "before s a = (case qn_store_find s a of Some e \<Rightarrow> e | None \<Rightarrow> fresh_entry a)"

definition victim :: "qn_store \<Rightarrow> qn_addr \<Rightarrow> nat \<Rightarrow> qn_store_entry set" where
  "victim s a now =
     (if qn_store_find s a = None \<and> s_cap s \<le> length (s_e s) then {s_e s ! worst_index (s_e s) now} else {})"

lemma slot_spec:
  assumes ok: "store_ok s" "s_base s \<noteq> None" "0 < s_cap s" "addr_ok a" and sl: "slot_for s a now = (i, es)"
  shows "entries_ok (s_cap s) es \<and> i < length es \<and> es ! i = before s a \<and> e_addr (es ! i) = a \<and>
    set es - {es ! i} = set (s_e s) - victim s a now - {before s a}"
proof -
  have es: "entries_ok (s_cap s) (s_e s)" "\<forall>e \<in> set (s_e s). entry_ok e" using ok by (auto simp: store_ok_def entries_ok_def)
  note f = find_None_addr [OF ok(1) ok(4) ok(2)]
  show ?thesis
  proof (cases "addr_index (s_e s) a")
    case (Some j)
    then have "j < length (s_e s)" "e_addr (s_e s ! j) = a" using addr_index_Some [OF Some es(2) ok(4)] by auto
    moreover from this have "qn_store_find s a = Some (s_e s ! j)" using f(1) by simp
    ultimately show ?thesis using Some sl es by (auto simp: slot_for_def before_def victim_def)
  next
    case None
    then have na: "a \<notin> e_addr ` set (s_e s)" using addr_index_None es(2) ok(4) by blast
    then have fn: "qn_store_find s a = None" using f(2) by simp
    have fa: "fresh_entry a \<notin> set (s_e s)" using na by force
    show ?thesis
    proof (cases "length (s_e s) < s_cap s")
      case True
      then have "entries_ok (s_cap s) (s_e s @ [fresh_entry a])"
        using es na fresh_entry_ok [OF ok(4)] by (auto simp: entries_ok_def)
      then show ?thesis using True None sl fn fa by (auto simp: slot_for_def before_def victim_def)
    next
      case False
      let ?w = "worst_index (s_e s) now"
      have w: "?w < length (s_e s)" using False ok(3) by (intro worst_index) auto
      have "entries_ok (s_cap s) ((s_e s)[?w := fresh_entry a])"
        "set ((s_e s)[?w := fresh_entry a]) = insert (fresh_entry a) (set (s_e s) - {s_e s ! ?w})"
        using update_entries_ok [OF es(1) w fresh_entry_ok [OF ok(4)]] na by auto
      then show ?thesis using False None sl fn fa w by (auto simp: slot_for_def before_def victim_def Let_def)
    qed
  qed
qed

lemma observe_entries:
  assumes ok: "store_ok s" "s_base s \<noteq> None" "0 < s_cap s" "addr_ok a" and b: "us \<le> UINT32_MAX" "now \<le> UINT64_MAX"
  shows "store_ok (qn_store_observe s a oper good us now) \<and>
    set (s_e (qn_store_observe s a oper good us now)) =
      insert (fold_in (before s a) oper good us now) (set (s_e s) - victim s a now - {before s a})"
proof -
  obtain i es where sl: "slot_for s a now = (i, es)" by force
  note sp = slot_spec [OF ok sl]
  let ?x = "fold_in (es ! i) oper good us now"
  have "entry_ok (es ! i)" using sp by (auto simp: entries_ok_def)
  then have x: "entry_ok ?x" using b by (rule fold_in_ok(1))
  have fr: "e_addr ?x \<notin> e_addr ` (set es - {es ! i})"
  proof
    assume "e_addr ?x \<in> e_addr ` (set es - {es ! i})"
    then obtain e where "e_addr ?x = e_addr e" "e \<in> set es - {es ! i}" by (rule imageE)
    moreover have "inj_on e_addr (set es)" using sp by (simp add: entries_ok_def distinct_map)
    moreover have "es ! i \<in> set es" using sp by (intro nth_mem) simp
    ultimately show False using inj_onD [of e_addr "set es" "es ! i" e] by simp
  qed
  have "entries_ok (s_cap s) (es[i := ?x])" "set (es[i := ?x]) = insert ?x (set es - {es ! i})"
    using update_entries_ok [OF conjunct1 [OF sp] _ x fr] sp by simp_all
  moreover have "qn_store_observe s a oper good us now = s\<lparr>s_e := es[i := ?x]\<rparr>" using ok sl by (auto simp: qn_store_observe_def)
  moreover have "es ! i = before s a" "set es - {es ! i} = set (s_e s) - victim s a now - {before s a}" using sp by blast+
  ultimately show ?thesis by (simp only: store_ok_def) simp
qed

section \<open>Theorems\<close>

text \<open>
  Property C20.  \<^verbatim>\<open>qn_store_observe\<close> keeps the store well formed (distinct addresses, no more successes than
  observations, fields within their widths), folds the observation into the entry of that
  address, and touches no other entry, except that a full store drops exactly one entry for an
  address it has not seen, one whose decayed standing is the smallest.
\<close>

theorem store_observe_spec:
  assumes ok: "store_ok s" "s_base s \<noteq> None" "0 < s_cap s" "addr_ok a" and b: "us \<le> UINT32_MAX" "now \<le> UINT64_MAX"
    and s': "s' = qn_store_observe s a oper good us now"
  shows "store_ok s' \<and> s_cap s' = s_cap s \<and>
    qn_store_find s' a = Some (fold_in (case qn_store_find s a of Some e \<Rightarrow> e | None \<Rightarrow> fresh_entry a) oper good us now) \<and>
    (\<exists>out. (\<forall>x. addr_ok x \<longrightarrow> x \<noteq> a \<longrightarrow> qn_store_find s' x = (if out = Some x then None else qn_store_find s x)) \<and>
       (\<forall>x. out = Some x \<longrightarrow> qn_store_find s a = None \<and> length (s_e s) = s_cap s \<and>
          (\<exists>e. qn_store_find s x = Some e \<and> (\<forall>e' \<in> set (s_e s). standing e now \<le> standing e' now))))"
proof -
  note oe = observe_entries [OF ok b, of oper good, folded s']
  have base: "s_base s' \<noteq> None" "s_cap s' = s_cap s" using ok(2) by (auto simp: s' qn_store_observe_def split: prod.splits)
  note f = find_None_addr [OF ok(1) _ ok(2)] and f' = find_None_addr [OF conjunct1 [OF oe] _ base(1)]
  have adr: "e_addr (before s a) = a" using f(1) [OF ok(4)] by (auto simp: before_def split: option.splits)
  have wv: "worst_index (s_e s) now < length (s_e s)" if "s_cap s \<le> length (s_e s)"
    using that ok(3) by (intro worst_index) auto
  have la: "length (s_e s) \<le> s_cap s" using ok(1) by (simp add: store_ok_def entries_ok_def)
  let ?v = "s_e s ! worst_index (s_e s) now"
  let ?out = "if victim s a now = {} then None else Some (e_addr ?v)"
  have fa: "qn_store_find s' a = Some (fold_in (before s a) oper good us now)"
    unfolding f'(1) [OF ok(4)] using oe adr by simp
  have inj: "inj_on e_addr (set (s_e s))" using ok(1) by (simp add: store_ok_def entries_ok_def distinct_map)
  have fx: "qn_store_find s' x = (if ?out = Some x then None else qn_store_find s x)" if x: "addr_ok x" "x \<noteq> a" for x
  proof -
    have "qn_store_find s' x = Some e \<longleftrightarrow> (if ?out = Some x then None else qn_store_find s x) = Some e" for e
      unfolding f'(1) [OF x(1)] using oe adr x f(1) [OF x(1), of e] wv inj
      by (auto simp: victim_def inj_on_def split: if_splits)
    then show ?thesis by (metis option.exhaust)
  qed
  have fv: "qn_store_find s a = None \<and> length (s_e s) = s_cap s \<and>
      (\<exists>e. qn_store_find s x = Some e \<and> (\<forall>e' \<in> set (s_e s). standing e now \<le> standing e' now))" if "?out = Some x" for x
  proof -
    have v: "qn_store_find s a = None" "s_cap s \<le> length (s_e s)" "x = e_addr ?v" using that by (auto simp: victim_def split: if_splits)
    have m: "?v \<in> set (s_e s)" using wv [OF v(2)] by simp
    have "addr_ok x" using m ok(1) v(3) by (auto simp: store_ok_def entries_ok_def entry_ok_def)
    then have "qn_store_find s x = Some ?v" using f(1) m v(3) by blast
    moreover have "standing ?v now \<le> standing e' now" if "e' \<in> set (s_e s)" for e'
      using that worst_index(2) [of "s_e s" _ now] by (metis in_set_conv_nth length_greater_0_conv length_pos_if_in_set)
    ultimately show ?thesis using v la by auto
  qed
  show ?thesis using oe base fa fx fv by (intro conjI exI [of _ ?out]) (auto simp: before_def)
qed

text \<open>A store of one slot that holds a single success.\<close>

definition one_slot :: qn_store where
  "one_slot = \<lparr>s_base = Some 0x1000,
     s_e = [\<lparr>e_addr = V4 0x01010101, e_last_seen = 5, e_runs = 1, e_score = 1024, e_weight = 1024, e_oper_mask = 1, e_handshake = 0\<rparr>],
     s_cap = 1\<rparr>"

lemma one_slot_ok: "store_ok one_slot" "s_base one_slot \<noteq> None" "0 < s_cap one_slot"
  by (simp_all add: one_slot_def store_ok_def entries_ok_def entry_ok_def addr_ok_def)

theorem store_observe_spec_witness:
  "qn_store_find (qn_store_observe one_slot (V4 0x08080808) None False 0 9) (V4 0x08080808) =
     Some (fold_in (fresh_entry (V4 0x08080808)) None False 0 9)"
proof -
  have "addr_ok (V4 0x08080808)" "(0::nat) \<le> UINT32_MAX" "(9::nat) \<le> UINT64_MAX" by (simp_all add: addr_ok_def)
  from store_observe_spec [OF one_slot_ok this refl, of None False]
  have "qn_store_find (qn_store_observe one_slot (V4 0x08080808) None False 0 9) (V4 0x08080808) =
    Some (fold_in (case qn_store_find one_slot (V4 0x08080808) of Some e \<Rightarrow> e | None \<Rightarrow> fresh_entry (V4 0x08080808)) None False 0 9)"
    by (simp only:)
  then show ?thesis by (simp add: one_slot_def qn_store_find_def qn_addr_eq_def)
qed

section \<open>Confidence\<close>

text \<open>The confidence of an entry before it fades.\<close>

definition raw_confidence :: "qn_store_entry \<Rightarrow> nat" where
  "raw_confidence e =
     (if e_weight e = 0 then 0
      else e_score e * 1000 div e_weight e * 7 div 10 + (if popcount (e_oper_mask e) > 1 then min (popcount (e_oper_mask e) - 1) 3 * 60 else 0) +
        (if e_runs e \<ge> 3 then 60 else 0) + (if e_runs e \<ge> 8 then 60 else 0))"

lemma raw_confidence_le: "e_score e \<le> e_weight e \<Longrightarrow> raw_confidence e \<le> 1000"
proof (cases "e_weight e = 0")
  case False
  assume "e_score e \<le> e_weight e"
  then have "e_score e * 1000 div e_weight e \<le> 1000"
    using False by (metis div_le_mono mult.commute mult_le_mono2 nonzero_mult_div_cancel_left)
  then have "e_score e * 1000 div e_weight e * 7 div 10 \<le> 700" by linarith
  moreover have "min (popcount (e_oper_mask e) - 1) 3 * 60 \<le> 180" by simp
  moreover have "raw_confidence e \<le> e_score e * 1000 div e_weight e * 7 div 10 + min (popcount (e_oper_mask e) - 1) 3 * 60 + 120"
    by (simp add: raw_confidence_def)
  ultimately show ?thesis by linarith
qed (simp add: raw_confidence_def)

lemma confidence_eq:
  assumes "store_ok s" "addr_ok a"
  shows "qn_store_confidence s a now = (case qn_store_find s a of None \<Rightarrow> 0 | Some e \<Rightarrow> raw_confidence e * decay_at e now div Q10)"
proof (cases "qn_store_find s a")
  case (Some e)
  then have "s_base s \<noteq> None" by (auto simp: qn_store_find_def split: if_splits)
  then have "e \<in> set (s_e s)" using Some find_None_addr(1) [OF assms] by blast
  then have "raw_confidence e \<le> 1000" using assms(1) by (intro raw_confidence_le) (auto simp: store_ok_def entries_ok_def entry_ok_def)
  then have "raw_confidence e * decay_at e now div Q10 \<le> 1000"
    using scaled_le [OF decay_at_bounds(2), of "raw_confidence e" e now] by linarith
  moreover have "qn_store_confidence s a now =
    (let c = raw_confidence e * decay_at e now div Q10 in if c > 1000 then 1000 else c)"
    using Some by (auto simp: qn_store_confidence_def raw_confidence_def Let_def)
  ultimately show ?thesis using Some by (simp add: Let_def)
qed (simp add: qn_store_confidence_def)

lemma decay_whole: "j \<le> k \<Longrightarrow> decay_from k (j * QN_STORE_HALFLIFE_SEC) = 2 ^ (k - j)"
proof (induction k arbitrary: j)
  case (Suc k)
  show ?case
  proof (cases j)
    case (Suc i)
    then show ?thesis using Suc.IH [of i] Suc.prems by simp
  qed simp
qed simp

text \<open>
  Property C21.  The confidence of an address never exceeds 1000 and never grows while no new evidence
  arrives; after each of the first ten half-lives of three days it is exactly halved.
\<close>

theorem store_confidence_fades:
  assumes "store_ok s" "addr_ok a"
  shows "qn_store_confidence s a now \<le> 1000 \<and> qn_store_confidence s a (now + k) \<le> qn_store_confidence s a now \<and>
    (\<forall>e j. qn_store_find s a = Some e \<and> e_last_seen e \<noteq> 0 \<and> j \<le> 10 \<longrightarrow>
       qn_store_confidence s a (e_last_seen e + j * QN_STORE_HALFLIFE_SEC) = qn_store_confidence s a (e_last_seen e) div 2 ^ j)"
proof (intro conjI allI impI)
  show "qn_store_confidence s a now \<le> 1000"
    by (auto simp: qn_store_confidence_def Let_def split: option.splits)
  show "qn_store_confidence s a (now + k) \<le> qn_store_confidence s a now"
    unfolding confidence_eq [OF assms] using decay_at_anti [of now "now + k"]
    by (auto split: option.splits intro: div_le_mono)
  fix e and j :: nat
  assume e: "qn_store_find s a = Some e \<and> e_last_seen e \<noteq> 0 \<and> j \<le> 10"
  have "decay_at e (e_last_seen e + j * QN_STORE_HALFLIFE_SEC) = 2 ^ (10 - j)"
    using e decay_whole [of j 10] by (cases "j = 0") (auto simp: decay_at_def decay_q10_from)
  moreover have "raw_confidence e * 2 ^ (10 - j) div Q10 = raw_confidence e div 2 ^ j"
  proof -
    have "Q10 = 2 ^ (10 - j) * 2 ^ j" using e by (simp flip: power_add)
    then have "raw_confidence e * 2 ^ (10 - j) div Q10 = raw_confidence e * 2 ^ (10 - j) div 2 ^ (10 - j) div 2 ^ j"
      by (simp only: div_mult2_eq)
    then show ?thesis by simp
  qed
  ultimately show "qn_store_confidence s a (e_last_seen e + j * QN_STORE_HALFLIFE_SEC) = qn_store_confidence s a (e_last_seen e) div 2 ^ j"
    unfolding confidence_eq [OF assms] using e by (simp add: decay_at_def)
qed

theorem store_confidence_fades_witness:
  "qn_store_confidence one_slot (V4 0x01010101) 5 = 700 \<and>
   qn_store_confidence one_slot (V4 0x01010101) (5 + 3 * 259200) = 700 div 8"
proof -
  have a: "addr_ok (V4 0x01010101)" by (simp add: addr_ok_def)
  have f: "qn_store_find one_slot (V4 0x01010101) = Some (hd (s_e one_slot))" "e_last_seen (hd (s_e one_slot)) = 5"
    by (simp_all add: one_slot_def qn_store_find_def qn_addr_eq_def)
  have "raw_confidence (hd (s_e one_slot)) = 700" by (simp add: one_slot_def raw_confidence_def popcount_def upt_rec)
  then have c: "qn_store_confidence one_slot (V4 0x01010101) 5 = 700"
    unfolding confidence_eq [OF one_slot_ok(1) a] using f by (simp add: decay_at_def)
  moreover have "qn_store_confidence one_slot (V4 0x01010101) (e_last_seen (hd (s_e one_slot)) + 3 * QN_STORE_HALFLIFE_SEC) =
      qn_store_confidence one_slot (V4 0x01010101) (e_last_seen (hd (s_e one_slot))) div 2 ^ 3"
    by (rule store_confidence_fades [OF one_slot_ok(1) a, THEN conjunct2, THEN conjunct2, rule_format]) (simp_all add: f)
  ultimately show ?thesis using f by simp
qed

end
