(* ===== verification/Store_File.thy ===== *)
theory Store_File
  imports Store
begin

text \<open>
  The history file of \<^verbatim>\<open>src/core/store.c\<close>: reading it line by line, merging it with the entries in
  memory and replacing it.  A file is absent, cannot be opened, or has bytes that are read
  with or without an error; the answers of the other system calls are a record.  A missing path
  is the empty one.
\<close>

section \<open>Reading\<close>

definition parse_u64 :: "string \<Rightarrow> nat \<Rightarrow> nat option" where
  "parse_u64 s mx =
     (if s = [] \<or> hd s = CHR ''-'' \<or> hd s = CHR ''+'' then None
      else (case strtoull s of
              (None, _) \<Rightarrow> None
            | (Some v, rest) \<Rightarrow> if rest \<noteq> [] \<or> v > mx then None else Some v))"

definition ws :: "char \<Rightarrow> bool" where "ws c \<longleftrightarrow> c = CHR '' '' \<or> c = TAB \<or> c = CR \<or> c = LF"

text \<open>At most \<open>cap\<close> fields; \<open>None\<close> stands for the answer \<open>cap + 1\<close>.\<close>

fun split_fields :: "string \<Rightarrow> nat \<Rightarrow> string list option" where
  "split_fields line 0 = (if dropWhile ws line = [] then Some [] else None)"
| "split_fields line (Suc cap) =
     (let p = dropWhile ws line in
      if p = [] then Some []
      else map_option (Cons (takeWhile (\<lambda>c. \<not> ws c) p)) (split_fields (dropWhile (\<lambda>c. \<not> ws c) p) cap))"

abbreviation schema_tag :: string where "schema_tag \<equiv> ''# qanat history v''"
abbreviation QN_STORE_SCHEMA :: nat where "QN_STORE_SCHEMA \<equiv> 2"

fun schema_digits :: "string \<Rightarrow> nat \<Rightarrow> nat option" where
  "schema_digits [] v = Some v"
| "schema_digits (c # cs) v =
     (if is_digit c then (if v > (UINT32_MAX - 9) div 10 then None else schema_digits cs (v * 10 + digit_value c)) else Some v)"

definition read_schema :: "string \<Rightarrow> nat option" where
  "read_schema line =
     (if take (length schema_tag) line \<noteq> schema_tag then None
      else (let r = drop (length schema_tag) line in
            if r = [] \<or> \<not> is_digit (hd r) then None else schema_digits r 0))"

datatype hist_file = Gone | Denied | Bytes string bool

text \<open>One data line, from its first character that is not blank; the entries so far are \<open>loaded\<close>.\<close>

definition data_line :: "(string \<Rightarrow> qn_addr option) \<Rightarrow> nat \<Rightarrow> qn_store_entry list \<Rightarrow> string \<Rightarrow> qn_store_entry option" where
  "data_line parse cap loaded p =
     (case split_fields p 7 of
        Some [f0, f1, f2, f3, f4, f5, f6] \<Rightarrow>
          (case (parse f0, parse_u64 f1 UINT64_MAX) of
             (Some a, Some seen) \<Rightarrow>
               (case (parse_u64 f2 UINT32_MAX, parse_u64 f3 UINT32_MAX, parse_u64 f4 UINT32_MAX, parse_u64 f5 UINT32_MAX, parse_u64 f6 UINT32_MAX) of
                  (Some runs, Some score, Some weight, Some paths, Some us) \<Rightarrow>
                    if length loaded \<ge> cap \<or> score > weight \<or> (runs = 0) \<noteq> (weight = 0) \<or> addr_index loaded a \<noteq> None then None
                    else Some \<lparr>e_addr = a, e_last_seen = seen, e_runs = runs, e_score = score, e_weight = weight,
                               e_oper_mask = word_of_nat paths, e_handshake = us\<rparr>
                | _ \<Rightarrow> None)
           | _ \<Rightarrow> None)
      | _ \<Rightarrow> None)"

text \<open>The reading loop; \<open>None\<close> if a line is refused.\<close>

function history_lines :: "(string \<Rightarrow> qn_addr option) \<Rightarrow> nat \<Rightarrow> string \<Rightarrow> bool \<Rightarrow> qn_store_entry list \<Rightarrow> (bool \<times> qn_store_entry list) option" where
  "history_lines parse cap f seen loaded =
     (if f = [] then Some (seen, loaded)
      else (let (line, rest) = fgets 256 f; l = cstr line in
            if \<not> line_complete 256 line then None
            else if \<not> seen \<and> read_schema l \<noteq> None
            then (let schema = the (read_schema l) in
                  if schema < 1 \<or> schema > QN_STORE_SCHEMA then None else history_lines parse cap rest True loaded)
            else (let p = dropWhile (\<lambda>c. c = CHR '' '' \<or> c = TAB) l in
                  if p = [] \<or> hd p = CR \<or> hd p = LF \<or> hd p = CHR ''#'' then history_lines parse cap rest seen loaded
                  else if \<not> seen then None
                  else (case data_line parse cap loaded p of
                          None \<Rightarrow> None
                        | Some e \<Rightarrow> history_lines parse cap rest seen (loaded @ [e])))))"
  by pat_completeness auto
termination
  by (relation "measure (\<lambda>(parse, cap, f, seen, loaded). length f)")
    (simp, unfold in_measure prod.case, (rule fgets_rest [where sz = 256], erule trans, assumption, assumption, simp)+)

declare history_lines.simps [simp del]

text \<open>The entries of the file, and whether it was absent.\<close>

definition load_into :: "(string \<Rightarrow> qn_addr option) \<Rightarrow> nat \<Rightarrow> hist_file \<Rightarrow> (bool \<times> qn_store_entry list) option" where
  "load_into parse cap file = (case file of
      Gone \<Rightarrow> Some (True, [])
    | Denied \<Rightarrow> None
    | Bytes f failed \<Rightarrow>
        (case history_lines parse cap f False [] of
           None \<Rightarrow> None
         | Some (seen, loaded) \<Rightarrow> if failed \<or> (\<not> seen \<and> loaded \<noteq> []) then None else Some (False, loaded)))"

definition qn_store_load :: "(string \<Rightarrow> qn_addr option) \<Rightarrow> bool \<Rightarrow> qn_store \<Rightarrow> string \<Rightarrow> hist_file \<Rightarrow> bool \<times> qn_store" where
  "qn_store_load parse calloc s path file =
     (if s_base s = None \<or> s_cap s = 0 \<or> path = [] \<or> \<not> calloc then (False, s)
      else (case load_into parse (s_cap s) file of
              None \<Rightarrow> (False, s)
            | Some (_, loaded) \<Rightarrow> (True, s\<lparr>s_e := loaded\<rparr>)))"

section \<open>Merging\<close>

text \<open>One entry of the file: added if there is room, or folded into the entry of its address.\<close>

definition merge_one :: "nat \<Rightarrow> qn_store_entry \<Rightarrow> qn_store_entry list \<Rightarrow> qn_store_entry list" where
  "merge_one cap d out =
     (case addr_index out (e_addr d) of
        None \<Rightarrow> if length out < cap then out @ [d] else out
      | Some j \<Rightarrow>
          (let old = out ! j;
               new = old\<lparr>e_oper_mask := e_oper_mask old OR e_oper_mask d,
                         e_runs := (if e_runs d > e_runs old then e_runs d else e_runs old)\<rparr>
           in out[j := if e_last_seen d > e_last_seen new \<or> e_last_seen d = e_last_seen new \<and> e_weight d > e_weight new
                       then d\<lparr>e_oper_mask := e_oper_mask new, e_runs := e_runs new\<rparr> else new]))"

definition merge_disk :: "(string \<Rightarrow> qn_addr option) \<Rightarrow> bool \<Rightarrow> qn_store \<Rightarrow> hist_file \<Rightarrow> qn_store_entry list" where
  "merge_disk parse calloc s file =
     (let out = take (s_cap s) (s_e s) in
      if \<not> calloc then out
      else (case load_into parse (s_cap s) file of
              None \<Rightarrow> out
            | Some (absent, disk) \<Rightarrow> if absent then out else fold (merge_one (s_cap s)) disk out))"

section \<open>Writing\<close>

text \<open>The directory whose entry is synced; \<open>None\<close> if memory runs out.\<close>

definition parent_dir :: "string \<Rightarrow> string" where
  "parent_dir path =
     (if CHR ''/'' \<notin> set path then ''.''
      else (let dir = rev (tl (dropWhile (\<lambda>c. c \<noteq> CHR ''/'') (rev path))) in if dir = [] then ''/'' else dir))"

text \<open>\<open>opened\<close>: the directory could be opened; \<open>fsync\<close> is its error number, 0 for none.\<close>

abbreviation EINVAL_NO :: int where "EINVAL_NO \<equiv> 22"
abbreviation ENOTSUP_NO :: int where "ENOTSUP_NO \<equiv> 95"
abbreviation EROFS_NO :: int where "EROFS_NO \<equiv> 30"

definition sync_parent_dir :: "(string \<Rightarrow> bool) \<Rightarrow> (string \<Rightarrow> int) \<Rightarrow> bool \<Rightarrow> string \<Rightarrow> bool" where
  "sync_parent_dir opened fsync strdup path =
     (if \<not> strdup \<or> \<not> opened (parent_dir path) then False
      else (let rc = fsync (parent_dir path) in rc = 0 \<or> rc = EINVAL_NO \<or> rc = ENOTSUP_NO \<or> rc = EROFS_NO))"

definition lock_open :: "(string \<Rightarrow> bool) \<Rightarrow> (string \<Rightarrow> bool) \<Rightarrow> bool \<Rightarrow> string \<Rightarrow> string option" where
  "lock_open opened flock malloc path =
     (if length path > UINT64_MAX - 6 \<or> \<not> malloc then None
      else (let lockpath = path @ ''.lock'' in if opened lockpath \<and> flock lockpath then Some lockpath else None))"

definition history_head :: string where
  "history_head = ''# qanat history v'' @ dec QN_STORE_SCHEMA @ '': address last_seen runs score weight paths handshake_us'' @ [LF]"

definition entry_text :: "(qn_addr \<Rightarrow> nat \<Rightarrow> string) \<Rightarrow> qn_store_entry \<Rightarrow> string" where
  "entry_text addr_str e =
     addr_str (e_addr e) 46 @ '' '' @ dec (e_last_seen e) @ '' '' @ dec (e_runs e) @ '' '' @ dec (e_score e) @ '' '' @
     dec (e_weight e) @ '' '' @ dec (unat (e_oper_mask e)) @ '' '' @ dec (e_handshake e) @ [LF]"

definition history_text :: "(qn_addr \<Rightarrow> nat \<Rightarrow> string) \<Rightarrow> qn_store_entry list \<Rightarrow> string" where
  "history_text addr_str es = history_head @ concat (map (entry_text addr_str) es)"

record save_io =
  sv_lock_malloc :: bool
  sv_lock_open :: "string \<Rightarrow> bool"
  sv_flock :: "string \<Rightarrow> bool"
  sv_merged :: bool
  sv_disk :: bool
  sv_tmp :: bool
  sv_mkstemp :: bool
  sv_fdopen :: bool
  sv_fprintf :: "nat \<Rightarrow> bool"
  sv_flush :: bool
  sv_close :: bool
  sv_rename :: bool
  sv_strdup :: bool
  sv_dir_open :: "string \<Rightarrow> bool"
  sv_dir_fsync :: "string \<Rightarrow> int"

text \<open>\<open>sv_fprintf i\<close>: the \<open>i\<close>-th line could be written, 0 being the version line.\<close>

definition qn_store_save ::
  "(string \<Rightarrow> qn_addr option) \<Rightarrow> (qn_addr \<Rightarrow> nat \<Rightarrow> string) \<Rightarrow> save_io \<Rightarrow> qn_store \<Rightarrow> string \<Rightarrow> hist_file \<Rightarrow> bool \<times> hist_file" where
  "qn_store_save parse addr_str io s path file =
     (if s_base s = None \<or> length (s_e s) > s_cap s \<or> path = [] then (False, file)
      else if lock_open (sv_lock_open io) (sv_flock io) (sv_lock_malloc io) path = None \<or> \<not> sv_merged io then (False, file)
      else (let merged = merge_disk parse (sv_disk io) s file in
            if length path > UINT64_MAX - 12 \<or> \<not> sv_tmp io \<or> \<not> sv_mkstemp io \<or> \<not> sv_fdopen io then (False, file)
            else (let ok = sv_fprintf io 0 \<and> list_all (\<lambda>(i, e). addr_str (e_addr e) 46 \<noteq> [] \<and> sv_fprintf io (i + 1)) (enumerate 0 merged);
                      ok = (ok \<and> sv_flush io);
                      ok = (ok \<and> sv_close io)
                  in if \<not> ok \<or> \<not> sv_rename io then (False, file)
                     else (sync_parent_dir (sv_dir_open io) (sv_dir_fsync io) (sv_strdup io) path, Bytes (history_text addr_str merged) False))))"

section \<open>Reading back a line\<close>

definition plain :: "string \<Rightarrow> bool" where
  "plain w \<longleftrightarrow> w \<noteq> [] \<and> (\<forall>c \<in> set w. 32 < code c \<and> c \<noteq> CHR ''#'')"

lemma plain_ws: "plain w \<Longrightarrow> c \<in> set w \<Longrightarrow> \<not> ws c \<and> c \<noteq> NUL \<and> c \<noteq> LF \<and> c \<noteq> CHR ''#'' \<and> c \<noteq> CR \<and> c \<noteq> CHR '' '' \<and> c \<noteq> TAB"
proof -
  assume "plain w" "c \<in> set w"
  then have c: "32 < code c" "c \<noteq> CHR ''#''" by (auto simp: plain_def)
  have "c \<noteq> d" if "code d \<le> 32" for d using that c(1) by auto
  then show ?thesis using c(2) by (simp add: ws_def)
qed

lemma dec_plain: "plain (dec n)"
  using dec_digits [of n] by (auto simp: plain_def is_digit_def)

lemma parse_u64_dec: "n \<le> mx \<Longrightarrow> mx \<le> UINT64_MAX \<Longrightarrow> parse_u64 (dec n) mx = Some n"
  using hd_dec [of n] digit_plain [of "hd (dec n)"] by (simp add: parse_u64_def strtoull_dec)

lemma split_fields_skip: "ws c \<Longrightarrow> split_fields (c # r) n = split_fields r n"
  by (cases n) simp_all

lemma split_fields_word:
  assumes "plain w" "ws c"
  shows "split_fields (w @ c # r) (Suc n) = map_option (Cons w) (split_fields r n)"
proof -
  have nw: "\<forall>x \<in> set w. \<not> ws x" using assms(1) plain_ws by blast
  then have "dropWhile ws (w @ c # r) = w @ c # r" using assms(1) by (cases w) (auto simp: plain_def)
  moreover have "takeWhile (\<lambda>c. \<not> ws c) (w @ c # r) = w" "dropWhile (\<lambda>c. \<not> ws c) (w @ c # r) = c # r"
    using nw assms(2) by (simp_all add: takeWhile_append2 dropWhile_append2)
  ultimately show ?thesis using assms by (simp add: split_fields_skip plain_def)
qed

lemma ws_simps [simp]: "ws CHR '' ''" "ws LF" by (simp_all add: ws_def)

text \<open>The text of an address as the file needs it: readable, short and without blanks.\<close>

definition addr_text_ok :: "(string \<Rightarrow> qn_addr option) \<Rightarrow> (qn_addr \<Rightarrow> nat \<Rightarrow> string) \<Rightarrow> bool" where
  "addr_text_ok parse addr_str \<longleftrightarrow>
     (\<forall>a. addr_ok a \<longrightarrow> parse (addr_str a 46) = Some a \<and> plain (addr_str a 46) \<and> length (addr_str a 46) < 46)"

lemma addr_index_fresh: "\<forall>e \<in> set es. entry_ok e \<Longrightarrow> addr_ok a \<Longrightarrow> a \<notin> e_addr ` set es \<Longrightarrow> addr_index es a = None"
  by (induction es) (auto simp: entry_ok_def)

lemma data_line_text:
  assumes at: "addr_text_ok parse addr_str" and ok: "entry_ok e" "entries_ok cap (loaded @ [e])"
  shows "data_line parse cap loaded (entry_text addr_str e) = Some e"
proof -
  have a: "parse (addr_str (e_addr e) 46) = Some (e_addr e)" "plain (addr_str (e_addr e) 46)"
    using at ok(1) by (auto simp: addr_text_ok_def entry_ok_def)
  have s: "split_fields (entry_text addr_str e) 7 =
    Some [addr_str (e_addr e) 46, dec (e_last_seen e), dec (e_runs e), dec (e_score e), dec (e_weight e), dec (unat (e_oper_mask e)), dec (e_handshake e)]"
    using split_fields_word [OF a(2)] split_fields_word [OF dec_plain]
    by (simp add: entry_text_def numeral_eq_Suc split_fields_skip del: split_fields.simps(2))
  have "addr_index loaded (e_addr e) = None"
    using ok by (intro addr_index_fresh) (auto simp: entries_ok_def entry_ok_def)
  moreover have "length loaded < cap" using ok(2) by (simp add: entries_ok_def)
  moreover have "unat (e_oper_mask e) \<le> UINT32_MAX" using unat_lt_size(3) [of "e_oper_mask e"] by linarith
  ultimately show ?thesis using ok(1) a(1) by (simp add: data_line_def s parse_u64_dec entry_ok_def)
qed

lemma entry_text_line:
  assumes at: "addr_text_ok parse addr_str" and ok: "entry_ok e"
  obtains t where "entry_text addr_str e = t @ [LF]" "LF \<notin> set t" "NUL \<notin> set t" "length t < 200" "t \<noteq> []"
    "hd t \<noteq> CHR ''#''" "hd t \<noteq> CR" "hd t \<noteq> LF" "\<not> (hd t = CHR '' '' \<or> hd t = TAB)"
proof -
  let ?a = "addr_str (e_addr e) 46"
  let ?t = "?a @ '' '' @ dec (e_last_seen e) @ '' '' @ dec (e_runs e) @ '' '' @ dec (e_score e) @ '' '' @
     dec (e_weight e) @ '' '' @ dec (unat (e_oper_mask e)) @ '' '' @ dec (e_handshake e)"
  have a: "plain ?a" "length ?a < 46" using at ok by (auto simp: addr_text_ok_def entry_ok_def)
  have d: "length (dec n) \<le> 20" if "n \<le> UINT64_MAX" for n using dec_length [of n 19] that by simp
  have m: "unat (e_oper_mask e) \<le> UINT64_MAX" using unat_lt_size(3) [of "e_oper_mask e"] by linarith
  have "length ?t < 200"
    using a(2) d [OF m] d [of "e_last_seen e"] d [of "e_runs e"] d [of "e_score e"] d [of "e_weight e"] d [of "e_handshake e"] ok
    by (simp add: entry_ok_def)
  moreover have "hd ?t \<in> set ?a" "hd ?t = hd ?a" using a(1) by (auto simp: plain_def)
  moreover have "LF \<notin> set ?t" "NUL \<notin> set ?t" using plain_ws [OF a(1)] plain_ws [OF dec_plain] by auto
  ultimately show ?thesis using that [of ?t] plain_ws [OF a(1), of "hd ?a"] a(1) by (auto simp: entry_text_def plain_def)
qed

lemma history_lines_text:
  assumes at: "addr_text_ok parse addr_str"
  shows "entries_ok cap (loaded @ es) \<Longrightarrow>
    history_lines parse cap (concat (map (entry_text addr_str) es)) True loaded = Some (True, loaded @ es)"
proof (induction es arbitrary: loaded)
  case Nil
  show ?case by (subst history_lines.simps) simp
next
  case (Cons e es)
  have e: "entry_ok e" "entries_ok cap (loaded @ [e])" using Cons.prems by (auto simp: entries_ok_def)
  obtain t where t: "entry_text addr_str e = t @ [LF]" "LF \<notin> set t" "NUL \<notin> set t" "length t < 200" "t \<noteq> []"
    "hd t \<noteq> CHR ''#''" "hd t \<noteq> CR" "hd t \<noteq> LF" "\<not> (hd t = CHR '' '' \<or> hd t = TAB)"
    using entry_text_line [OF at e(1)] by metis
  let ?r = "concat (map (entry_text addr_str) es)"
  have "fgets 256 (t @ LF # ?r) = (t @ [LF], ?r)" using t by (intro fgets_line) auto
  moreover have c: "cstr (t @ [LF]) = t @ [LF]" using t by (intro cstr_id) auto
  moreover have "line_complete 256 (t @ [LF])" by (simp add: line_complete_def c)
  moreover have "dropWhile (\<lambda>c. c = CHR '' '' \<or> c = TAB) (t @ [LF]) = t @ [LF]" using t by (cases t) auto
  moreover have "data_line parse cap loaded (t @ [LF]) = Some e" using data_line_text [OF at e] t(1) by simp
  ultimately have "history_lines parse cap (t @ LF # ?r) True loaded = history_lines parse cap ?r True (loaded @ [e])"
    using t by (subst history_lines.simps) (simp add: hd_append)
  then show ?case using Cons t(1) by simp
qed

lemma history_head_eq:
  "history_head = ''# qanat history v2: address last_seen runs score weight paths handshake_us'' @ [LF]"
  by (simp add: history_head_def dec.simps digit_char_def char_of_def bit_0)

lemma history_lines_head: "history_lines parse cap (history_head @ r) False [] = history_lines parse cap r True []"
proof -
  let ?t = "''# qanat history v2: address last_seen runs score weight paths handshake_us''"
  have "fgets 256 (?t @ LF # r) = (?t @ [LF], r)" by (rule fgets_line) simp_all
  moreover have c: "cstr (?t @ [LF]) = ?t @ [LF]" by (rule cstr_id) simp
  moreover have "line_complete 256 (?t @ [LF])" unfolding line_complete_def c by simp
  moreover have "read_schema (?t @ [LF]) = Some 2" by (simp add: read_schema_def is_digit_def digit_value_def)
  ultimately show ?thesis unfolding history_head_eq append_assoc append_Cons append_Nil
    by (subst history_lines.simps) (simp del: append_Cons)
qed

lemma load_into_text:
  assumes "addr_text_ok parse addr_str" "entries_ok cap es"
  shows "load_into parse cap (Bytes (history_text addr_str es) False) = Some (False, es)"
  using history_lines_text [OF assms(1), of cap "[]" es] assms(2)
  by (simp add: load_into_def history_text_def history_lines_head)

section \<open>Whatever is loaded is well formed\<close>

definition parse_ok :: "(string \<Rightarrow> qn_addr option) \<Rightarrow> bool" where
  "parse_ok parse \<longleftrightarrow> (\<forall>s a. parse s = Some a \<longrightarrow> addr_ok a)"

lemma parse_u64_le: "parse_u64 s mx = Some v \<Longrightarrow> v \<le> mx"
  by (auto simp: parse_u64_def split: if_splits option.splits prod.splits)

lemma data_line_ok:
  assumes "parse_ok parse" "entries_ok cap loaded" "data_line parse cap loaded p = Some e"
  shows "entries_ok cap (loaded @ [e])"
proof -
  obtain f0 f1 f2 f3 f4 f5 f6 where s: "split_fields p 7 = Some [f0, f1, f2, f3, f4, f5, f6]"
    using assms(3) by (auto simp: data_line_def split: option.splits list.splits)
  obtain a sn r sc w m u where v: "parse f0 = Some a" "parse_u64 f1 UINT64_MAX = Some sn" "parse_u64 f2 UINT32_MAX = Some r"
    "parse_u64 f3 UINT32_MAX = Some sc" "parse_u64 f4 UINT32_MAX = Some w" "parse_u64 f5 UINT32_MAX = Some m" "parse_u64 f6 UINT32_MAX = Some u"
    using assms(3) by (auto simp: data_line_def s split: option.splits)
  have c: "length loaded < cap" "sc \<le> w" "(r = 0) = (w = 0)" "addr_index loaded a = None"
    and e: "e = \<lparr>e_addr = a, e_last_seen = sn, e_runs = r, e_score = sc, e_weight = w, e_oper_mask = word_of_nat m, e_handshake = u\<rparr>"
    using assms(3) by (auto simp: data_line_def s v split: if_splits)
  have a: "addr_ok a" using assms(1) v(1) by (auto simp: parse_ok_def)
  then have "a \<notin> e_addr ` set loaded" using addr_index_None [OF c(4)] assms(2) by (auto simp: entries_ok_def)
  moreover have "entry_ok e" using a c parse_u64_le [OF v(2)] parse_u64_le [OF v(3)] parse_u64_le [OF v(5)] parse_u64_le [OF v(7)]
    unfolding e entry_ok_def by simp
  ultimately show ?thesis using assms(2) c(1) e by (auto simp: entries_ok_def)
qed

lemma history_lines_ok:
  "parse_ok parse \<Longrightarrow> entries_ok cap loaded \<Longrightarrow> history_lines parse cap f sn loaded = Some (sn', es) \<Longrightarrow> entries_ok cap es"
proof (induction parse cap f sn loaded rule: history_lines.induct)
  case (1 parse cap f sn loaded)
  show ?case
  proof (cases "f = []")
    case True
    then show ?thesis using 1(5,6) by (simp add: history_lines.simps [of _ _ "[]"])
  next
    case False
    obtain line r where fg: "fgets 256 f = (line, r)" by force
    note ih = 1(1-3) [OF False fg [symmetric] refl refl] and pr = 1(4-6)
    let ?p = "dropWhile (\<lambda>c. c = CHR '' '' \<or> c = TAB) (cstr line)"
    have eq: "history_lines parse cap f sn loaded = Some (sn', es)" by (rule pr(3))
    show ?thesis
      using eq False fg pr ih data_line_ok [OF pr(1) pr(2), of ?p]
      by (subst (asm) history_lines.simps) (auto simp: Let_def split: if_splits option.splits)
  qed
qed

lemma load_into_ok: "parse_ok parse \<Longrightarrow> load_into parse cap file = Some (ab, es) \<Longrightarrow> entries_ok cap es"
  using history_lines_ok [of parse cap "[]"]
  by (auto simp: load_into_def entries_ok_def split: hist_file.splits option.splits if_splits)

section \<open>Merging\<close>

definition live :: "qn_store_entry list \<Rightarrow> bool" where "live es \<longleftrightarrow> (\<forall>e \<in> set es. 0 < e_runs e)"

text \<open>Every entry of \<open>es\<close> has one in \<open>ms\<close> for its address that is at least as recent and as often observed.\<close>

definition superseded :: "qn_store_entry list \<Rightarrow> qn_store_entry list \<Rightarrow> bool" where
  "superseded es ms \<longleftrightarrow> (\<forall>e \<in> set es. \<exists>m \<in> set ms. e_addr m = e_addr e \<and> e_last_seen e \<le> e_last_seen m \<and> e_runs e \<le> e_runs m)"

lemma superseded_refl: "superseded es es" by (auto simp: superseded_def)

lemma superseded_trans: "superseded a b \<Longrightarrow> superseded b c \<Longrightarrow> superseded a c"
  unfolding superseded_def by (metis order_trans)

lemma merge_one_ok:
  assumes out: "entries_ok cap out" "live out" and d: "entry_ok d" "0 < e_runs d"
  shows "entries_ok cap (merge_one cap d out) \<and> live (merge_one cap d out) \<and> superseded out (merge_one cap d out)"
proof (cases "addr_index out (e_addr d)")
  case None
  then have "e_addr d \<notin> e_addr ` set out" using out d addr_index_None by (auto simp: entries_ok_def entry_ok_def)
  then show ?thesis using None out d by (auto simp: merge_one_def entries_ok_def live_def superseded_def)
next
  case (Some j)
  have ok: "\<forall>e \<in> set out. entry_ok e" using out by (simp add: entries_ok_def)
  have j: "j < length out" "e_addr (out ! j) = e_addr d"
    using addr_index_Some [OF Some ok] d(1) by (auto simp: entry_ok_def)
  define new where "new = (out ! j)\<lparr>e_oper_mask := e_oper_mask (out ! j) OR e_oper_mask d,
    e_runs := (if e_runs d > e_runs (out ! j) then e_runs d else e_runs (out ! j))\<rparr>"
  define x where "x = (if e_last_seen d > e_last_seen new \<or> e_last_seen d = e_last_seen new \<and> e_weight d > e_weight new
    then d\<lparr>e_oper_mask := e_oper_mask new, e_runs := e_runs new\<rparr> else new)"
  have m: "merge_one cap d out = out[j := x]" using Some by (simp add: merge_one_def Let_def new_def x_def)
  have jo: "entry_ok (out ! j)" "0 < e_runs (out ! j)" using out j by (auto simp: entries_ok_def live_def)
  have x: "entry_ok x" "e_addr x = e_addr (out ! j)" "0 < e_runs x" "e_last_seen (out ! j) \<le> e_last_seen x" "e_runs (out ! j) \<le> e_runs x"
    using jo d j(2) by (auto simp: x_def new_def entry_ok_def)
  have inj: "inj_on e_addr (set out)" using out by (simp add: entries_ok_def distinct_map)
  then have "e_addr x \<notin> e_addr ` (set out - {out ! j})" using x(2) j(1) by (auto dest: inj_onD)
  from update_entries_ok [OF out(1) j(1) x(1) this]
  have "entries_ok cap (out[j := x])" "set (out[j := x]) = insert x (set out - {out ! j})" .
  moreover from this have "superseded out (out[j := x])" using x by (auto simp: superseded_def)
  ultimately show ?thesis using m x(3) out(2) by (auto simp: live_def)
qed

lemma merge_all_ok:
  "entries_ok cap out \<Longrightarrow> live out \<Longrightarrow> \<forall>d \<in> set disk. entry_ok d \<and> 0 < e_runs d \<Longrightarrow>
    entries_ok cap (fold (merge_one cap) disk out) \<and> superseded out (fold (merge_one cap) disk out)"
proof (induction disk arbitrary: out)
  case (Cons d disk)
  have m: "entries_ok cap (merge_one cap d out) \<and> live (merge_one cap d out) \<and> superseded out (merge_one cap d out)"
    using Cons.prems by (intro merge_one_ok) auto
  then show ?case using Cons by (auto intro: superseded_trans)
qed (simp add: superseded_refl)

lemma merge_disk_ok:
  assumes "parse_ok parse" "store_ok s" "live (s_e s)" "\<forall>ab disk. load_into parse (s_cap s) file = Some (ab, disk) \<longrightarrow> live disk"
  shows "entries_ok (s_cap s) (merge_disk parse calloc s file) \<and> superseded (s_e s) (merge_disk parse calloc s file)"
proof -
  have t: "take (s_cap s) (s_e s) = s_e s" "entries_ok (s_cap s) (s_e s)" using assms(2) by (auto simp: store_ok_def entries_ok_def)
  show ?thesis
  proof (cases "load_into parse (s_cap s) file")
    case (Some r)
    obtain ab disk where r: "r = (ab, disk)" by force
    have "\<forall>d \<in> set disk. entry_ok d \<and> 0 < e_runs d"
      using load_into_ok [OF assms(1)] Some r assms(4) by (auto simp: entries_ok_def live_def)
    from merge_all_ok [OF t(2) assms(3) this] show ?thesis
      using Some r t by (auto simp: merge_disk_def Let_def superseded_refl)
  qed (use t in \<open>auto simp: merge_disk_def Let_def superseded_refl\<close>)
qed

section \<open>Theorems\<close>


text \<open>An instance: the conversions of theory \<open>Util\<close>, and a store that writes its first history.\<close>

lemma dotted_plain: "plain (qn_ipv4_str h)"
proof -
  have j: "plain (a @ ''.'' @ b)" if "plain a" "plain b" for a b using that by (auto simp: plain_def)
  show ?thesis unfolding ipv4_str_eq by (intro j dec_plain)
qed

lemma toy_conversions:
  "parse_ok (qn_addr_parse toy_pton4 toy_pton6)" "addr_text_ok (qn_addr_parse toy_pton4 toy_pton6) (qn_addr_str toy_ntop6)"
proof -
  show "parse_ok (qn_addr_parse toy_pton4 toy_pton6)"
    by (auto simp: parse_ok_def qn_addr_parse_def toy_pton6_def addr_ok_def length_from_nibbles split: if_splits option.splits list.splits)
  have n: "32 < code c \<and> c \<noteq> CHR ''#''" if "c \<in> set (nibbles x)" for c x
  proof -
    have "unat x div 16 < 16" using unat_lt_size(1) [of x] by (simp add: less_mult_imp_div_less)
    then have "97 \<le> code c" using that by (auto simp: nibbles_def)
    then show ?thesis by auto
  qed
  then have pc: "plain (CHR '':'' # concat (map nibbles b))" for b by (auto simp: plain_def)
  have "plain (qn_addr_str toy_ntop6 a 46) \<and> length (qn_addr_str toy_ntop6 a 46) < 46" if "addr_ok a" for a
  proof (cases a)
    case (V4 h)
    have "\<not> length (qn_ipv4_str h) + 1 > 46" using ipv4_str_length [of h] by linarith
    then have "qn_addr_str toy_ntop6 a 46 = qn_ipv4_str h" using V4 by (simp add: qn_addr_str_def)
    then show ?thesis using dotted_plain ipv4_str_length by simp
  next
    case (V6 b)
    then show ?thesis using that pc [of b] by (simp add: qn_addr_str_def toy_ntop6_def addr_ok_def)
  qed
  then show "addr_text_ok (qn_addr_parse toy_pton4 toy_pton6) (qn_addr_str toy_ntop6)"
    using addr_text_back [OF toy_pton4_ok toy_ntop6_ok] by (simp add: addr_text_ok_def)
qed

definition good_io :: save_io where
  "good_io = \<lparr>sv_lock_malloc = True, sv_lock_open = (\<lambda>_. True), sv_flock = (\<lambda>_. True), sv_merged = True, sv_disk = True, sv_tmp = True,
     sv_mkstemp = True, sv_fdopen = True, sv_fprintf = (\<lambda>_. True), sv_flush = True, sv_close = True, sv_rename = True,
     sv_strdup = True, sv_dir_open = (\<lambda>_. True), sv_dir_fsync = (\<lambda>_. 0)\<rparr>"


end
