(* ===== verification/Socks5.thy ===== *)
theory Socks5
  imports Text
begin

text \<open>
  \<^verbatim>\<open>src/net/socks5.c\<close>, the SOCKS5 client that talks to a local tunnel.  The response buffer is the
  list of the bytes in it (at most 263); a missing output buffer is a capacity of \<open>None\<close>.  An
  operation returns its action, the client, how many bytes it consumed and what it wrote.
\<close>

datatype socks_phase = SOCKS_PHASE_METHOD | SOCKS_PHASE_CONNECT | SOCKS_PHASE_READY | SOCKS_PHASE_FAILED

datatype qn_socks5_error = QN_SOCKS5_ERROR_NONE | QN_SOCKS5_ERROR_ARGUMENT | QN_SOCKS5_ERROR_VERSION | QN_SOCKS5_ERROR_AUTH
  | QN_SOCKS5_ERROR_CONNECT | QN_SOCKS5_ERROR_ADDRESS | QN_SOCKS5_ERROR_RESERVED | QN_SOCKS5_ERROR_OVERFLOW | QN_SOCKS5_ERROR_TRUNCATED

datatype qn_socks5_action = QN_SOCKS5_NEED_INPUT | QN_SOCKS5_SEND_CONNECT | QN_SOCKS5_READY | QN_SOCKS5_FAILED

record qn_socks5_client =
  sx_phase :: socks_phase
  sx_response :: bytes
  sx_needed :: nat
  sx_host :: bytes
  sx_port :: u16
  sx_error :: qn_socks5_error

text \<open>\<open>strnlen\<close> stops at 256; the host is the bytes before its NUL.\<close>

definition qn_socks5_init :: "bytes \<Rightarrow> u16 \<Rightarrow> qn_socks5_client option" where
  "qn_socks5_init host port =
     (if port = 0 \<or> host = [] \<or> length host \<ge> 256 \<or> list_ex (\<lambda>c. c \<le> 0x20 \<or> c \<ge> 0x7F) host then None
      else Some \<lparr>sx_phase = SOCKS_PHASE_METHOD, sx_response = [], sx_needed = 2, sx_host = host, sx_port = port,
                 sx_error = QN_SOCKS5_ERROR_NONE\<rparr>)"

definition qn_socks5_greeting :: bytes where "qn_socks5_greeting = [0x05, 0x01, 0x00]"

definition socks_fail :: "qn_socks5_client \<Rightarrow> qn_socks5_error \<Rightarrow> qn_socks5_action \<times> qn_socks5_client" where
  "socks_fail c err = (QN_SOCKS5_FAILED, c\<lparr>sx_phase := SOCKS_PHASE_FAILED, sx_error := err\<rparr>)"

definition method_complete :: "qn_socks5_client \<Rightarrow> nat option \<Rightarrow> (qn_socks5_action \<times> qn_socks5_client) \<times> bytes" where
  "method_complete c capacity =
     (let need = 7 + length (sx_host c) in
      if sx_response c ! 0 \<noteq> 0x05 then (socks_fail c QN_SOCKS5_ERROR_VERSION, [])
      else if sx_response c ! 1 \<noteq> 0x00 then (socks_fail c QN_SOCKS5_ERROR_AUTH, [])
      else if capacity = None \<or> the capacity < need then (socks_fail c QN_SOCKS5_ERROR_OVERFLOW, [])
      else ((QN_SOCKS5_SEND_CONNECT, c\<lparr>sx_phase := SOCKS_PHASE_CONNECT, sx_response := [], sx_needed := 4\<rparr>),
            [0x05, 0x01, 0x00, 0x03, word_of_nat (length (sx_host c))] @ sx_host c @
            [ucast (drop_bit 8 (sx_port c)), ucast (sx_port c)]))"

definition connect_header :: "qn_socks5_client \<Rightarrow> qn_socks5_action \<times> qn_socks5_client" where
  "connect_header c =
     (if sx_response c ! 0 \<noteq> 0x05 then socks_fail c QN_SOCKS5_ERROR_VERSION
      else if sx_response c ! 1 \<noteq> 0x00 then socks_fail c QN_SOCKS5_ERROR_CONNECT
      else if sx_response c ! 2 \<noteq> 0x00 then socks_fail c QN_SOCKS5_ERROR_RESERVED
      else if sx_response c ! 3 = 0x01 then (QN_SOCKS5_NEED_INPUT, c\<lparr>sx_needed := 10\<rparr>)
      else if sx_response c ! 3 = 0x03 then (QN_SOCKS5_NEED_INPUT, c\<lparr>sx_needed := 5\<rparr>)
      else socks_fail c QN_SOCKS5_ERROR_ADDRESS)"

definition connect_complete :: "qn_socks5_client \<Rightarrow> qn_socks5_action \<times> qn_socks5_client" where
  "connect_complete c = (QN_SOCKS5_READY, c\<lparr>sx_phase := SOCKS_PHASE_READY, sx_error := QN_SOCKS5_ERROR_NONE\<rparr>)"

text \<open>
  One byte has been appended and the response has the length it needs: \<open>Inl\<close> returns from the
  loop, \<open>Inr\<close> goes on.
\<close>

definition name_length :: "qn_socks5_client \<Rightarrow> (qn_socks5_action \<times> qn_socks5_client) + qn_socks5_client" where
  "name_length c =
     (if sx_phase c = SOCKS_PHASE_CONNECT \<and> sx_response c ! 3 = 0x03 \<and> sx_needed c = 5 \<and> length (sx_response c) = 5
      then (let n = unat (sx_response c ! 4); c' = c\<lparr>sx_needed := 7 + n\<rparr> in
            if sx_needed c' > 263 \<or> n = 0 then Inl (socks_fail c' QN_SOCKS5_ERROR_ADDRESS) else Inr c')
      else Inr c)"

definition response_full :: "qn_socks5_client \<Rightarrow> nat option \<Rightarrow> bool \<Rightarrow> ((qn_socks5_action \<times> qn_socks5_client) + qn_socks5_client) \<times> bytes" where
  "response_full c capacity tail =
     (if sx_phase c = SOCKS_PHASE_METHOD
      then (case method_complete c capacity of
              (r, out) \<Rightarrow> (Inl (if tail then socks_fail (snd r) QN_SOCKS5_ERROR_OVERFLOW else r), out))
      else (let h = (if sx_needed c = 4 then connect_header c else (QN_SOCKS5_NEED_INPUT, c)) in
            if fst h = QN_SOCKS5_FAILED then (Inl h, [])
            else (case name_length (snd h) of
                    Inl r \<Rightarrow> (Inl r, [])
                  | Inr c \<Rightarrow>
                      if sx_phase c = SOCKS_PHASE_CONNECT \<and> length (sx_response c) = sx_needed c \<and> sx_needed c > 5
                      then (let r = connect_complete c in (Inl (if tail then socks_fail (snd r) QN_SOCKS5_ERROR_OVERFLOW else r), []))
                      else (Inr c, []))))"

fun feed_loop :: "bytes \<Rightarrow> nat \<Rightarrow> qn_socks5_client \<Rightarrow> nat option \<Rightarrow> (qn_socks5_action \<times> qn_socks5_client) \<times> nat \<times> bytes" where
  "feed_loop [] consumed c capacity = ((QN_SOCKS5_NEED_INPUT, c), consumed, [])"
| "feed_loop (b # bs) consumed c capacity =
     (if length (sx_response c) \<ge> 263 then (socks_fail c QN_SOCKS5_ERROR_OVERFLOW, consumed, [])
      else (let c = c\<lparr>sx_response := sx_response c @ [b]\<rparr> in
            if length (sx_response c) < sx_needed c then feed_loop bs (consumed + 1) c capacity
            else (case response_full c capacity (bs \<noteq> []) of
                    (Inl r, out) \<Rightarrow> (r, consumed + 1, out)
                  | (Inr c, out) \<Rightarrow> feed_loop bs (consumed + 1) c capacity)))"

definition qn_socks5_feed :: "qn_socks5_client \<Rightarrow> bytes \<Rightarrow> nat option \<Rightarrow> (qn_socks5_action \<times> qn_socks5_client) \<times> nat \<times> bytes" where
  "qn_socks5_feed c input capacity =
     (if sx_phase c = SOCKS_PHASE_READY
      then (if input \<noteq> [] then (socks_fail c QN_SOCKS5_ERROR_OVERFLOW, 0, []) else ((QN_SOCKS5_READY, c), 0, []))
      else if sx_phase c = SOCKS_PHASE_FAILED then ((QN_SOCKS5_FAILED, c), 0, [])
      else feed_loop input 0 c capacity)"

definition qn_socks5_eof :: "qn_socks5_client \<Rightarrow> qn_socks5_action \<times> qn_socks5_client" where
  "qn_socks5_eof c = (if sx_phase c = SOCKS_PHASE_READY then (QN_SOCKS5_READY, c) else socks_fail c QN_SOCKS5_ERROR_TRUNCATED)"

fun qn_socks5_error_str :: "qn_socks5_error \<Rightarrow> string" where
  "qn_socks5_error_str QN_SOCKS5_ERROR_NONE = ''none''"
| "qn_socks5_error_str QN_SOCKS5_ERROR_ARGUMENT = ''argument''"
| "qn_socks5_error_str QN_SOCKS5_ERROR_VERSION = ''version''"
| "qn_socks5_error_str QN_SOCKS5_ERROR_AUTH = ''auth''"
| "qn_socks5_error_str QN_SOCKS5_ERROR_CONNECT = ''connect''"
| "qn_socks5_error_str QN_SOCKS5_ERROR_ADDRESS = ''address''"
| "qn_socks5_error_str QN_SOCKS5_ERROR_RESERVED = ''reserved''"
| "qn_socks5_error_str QN_SOCKS5_ERROR_OVERFLOW = ''overflow''"
| "qn_socks5_error_str QN_SOCKS5_ERROR_TRUNCATED = ''truncated''"

section \<open>The reply to the connect request\<close>

text \<open>The client that is left after a piece of input.\<close>

definition after :: "nat option \<Rightarrow> bytes \<Rightarrow> qn_socks5_client \<Rightarrow> qn_socks5_client" where
  "after cap bs c = snd (fst (qn_socks5_feed c bs cap))"

lemma after_failed: "sx_phase c = SOCKS_PHASE_FAILED \<Longrightarrow> after cap bs c = c"
  by (simp add: after_def qn_socks5_feed_def)

lemma connect_header_phase:
  "fst (connect_header c) = QN_SOCKS5_FAILED \<or> fst (connect_header c) = QN_SOCKS5_NEED_INPUT"
  "fst (connect_header c) = QN_SOCKS5_FAILED \<Longrightarrow> sx_phase (snd (connect_header c)) = SOCKS_PHASE_FAILED"
  "fst (connect_header c) = QN_SOCKS5_NEED_INPUT \<Longrightarrow> sx_phase (snd (connect_header c)) = sx_phase c"
  by (auto simp: connect_header_def socks_fail_def)

lemma name_length_phase:
  "name_length c = Inl r \<Longrightarrow> sx_phase (snd r) = SOCKS_PHASE_FAILED" "name_length c = Inr c' \<Longrightarrow> sx_phase c' = sx_phase c"
  by (auto simp: name_length_def Let_def socks_fail_def split: if_splits)

text \<open>
  In the connect phase the end of a response either goes on, fails, or is ready; bytes that
  follow turn ready into an overflow.
\<close>

lemma response_full_cases:
  assumes "sx_phase c = SOCKS_PHASE_CONNECT"
  obtains (go) c' where "\<And>t. response_full c cap t = (Inr c', [])" "sx_phase c' = SOCKS_PHASE_CONNECT"
  | (bad) r where "\<And>t. response_full c cap t = (Inl r, [])" "sx_phase (snd r) = SOCKS_PHASE_FAILED"
  | (good) c' where "\<And>t. response_full c cap t = (Inl (if t then socks_fail (snd (connect_complete c')) QN_SOCKS5_ERROR_OVERFLOW else connect_complete c'), [])"
proof -
  define h where "h = (if sx_needed c = 4 then connect_header c else (QN_SOCKS5_NEED_INPUT, c))"
  have rf: "response_full c cap t = (if fst h = QN_SOCKS5_FAILED then (Inl h, [])
      else (case name_length (snd h) of Inl r \<Rightarrow> (Inl r, []) | Inr c \<Rightarrow>
        if sx_phase c = SOCKS_PHASE_CONNECT \<and> length (sx_response c) = sx_needed c \<and> sx_needed c > 5
        then (Inl (if t then socks_fail (snd (connect_complete c)) QN_SOCKS5_ERROR_OVERFLOW else connect_complete c), []) else (Inr c, [])))" for t
    unfolding response_full_def h_def Let_def using assms by simp
  have hp: "fst h = QN_SOCKS5_FAILED \<Longrightarrow> sx_phase (snd h) = SOCKS_PHASE_FAILED" "fst h \<noteq> QN_SOCKS5_FAILED \<Longrightarrow> sx_phase (snd h) = SOCKS_PHASE_CONNECT"
    using connect_header_phase [of c] assms by (auto simp: h_def split: if_splits)
  show ?thesis
  proof (cases "fst h = QN_SOCKS5_FAILED")
    case True
    then show ?thesis using bad [of h] rf hp(1) by simp
  next
    case False
    show ?thesis
    proof (cases "name_length (snd h)")
      case (Inl r)
      then show ?thesis using bad [of r] rf False name_length_phase(1) by simp
    next
      case (Inr c')
      then have p: "sx_phase c' = SOCKS_PHASE_CONNECT" using name_length_phase(2) hp(2) [OF False] by simp
      show ?thesis
      proof (cases "length (sx_response c') = sx_needed c' \<and> sx_needed c' > 5")
        case True
        then show ?thesis using good [of c'] rf False Inr p by simp
      next
        case False
        then show ?thesis using go [of c'] rf \<open>fst h \<noteq> QN_SOCKS5_FAILED\<close> Inr p by auto
      qed
    qed
  qed
qed

lemma feed_loop_append:
  assumes "sx_phase c = SOCKS_PHASE_CONNECT"
  shows "snd (fst (feed_loop (a @ b) k c cap)) = after cap b (snd (fst (feed_loop a k c cap)))"
  using assms
proof (induction a arbitrary: k c)
  case Nil
  have "snd (fst (feed_loop b k c cap)) = snd (fst (feed_loop b k' c cap))" for k' b
  proof (induction b arbitrary: k k' c)
    case (Cons x b)
    show ?case by (auto simp: Let_def split: prod.splits sum.splits intro: Cons)
  qed simp
  then show ?case using Nil by (simp add: after_def qn_socks5_feed_def)
next
  case (Cons x a)
  let ?c = "c\<lparr>sx_response := sx_response c @ [x]\<rparr>"
  consider "length (sx_response c) \<ge> 263" | "length (sx_response c) < 263" "length (sx_response ?c) < sx_needed ?c"
    | "length (sx_response c) < 263" "\<not> length (sx_response ?c) < sx_needed ?c" by linarith
  then show ?case
  proof cases
    case 1
    then show ?thesis by (simp add: after_failed socks_fail_def)
  next
    case 2
    then show ?thesis using Cons by (simp add: Let_def)
  next
    case 3
    have "sx_phase ?c = SOCKS_PHASE_CONNECT" using Cons.prems by simp
    then show ?thesis
    proof (cases rule: response_full_cases [of ?c cap])
      case (go c')
      then show ?thesis using 3 Cons.IH [of c' "k + 1"] by (simp add: Let_def)
    next
      case (bad r)
      then show ?thesis using 3 by (simp add: Let_def after_failed)
    next
      case (good c')
      have "after cap b (snd (connect_complete c')) = (if b = [] then snd (connect_complete c') else snd (socks_fail (snd (connect_complete c')) QN_SOCKS5_ERROR_OVERFLOW))"
        by (simp add: after_def qn_socks5_feed_def connect_complete_def)
      then show ?thesis using 3 good
        by (auto simp: Let_def after_failed socks_fail_def)
    qed
  qed
qed

definition feed_all :: "nat option \<Rightarrow> bytes list \<Rightarrow> qn_socks5_client \<Rightarrow> qn_socks5_client" where
  "feed_all cap chunks c = fold (after cap) chunks c"

text \<open>How the input is cut into pieces does not matter once the connect request is out.\<close>

lemma after_append:
  "sx_phase c \<noteq> SOCKS_PHASE_METHOD \<Longrightarrow> after cap (a @ b) c = after cap b (after cap a c)"
proof (cases "sx_phase c")
  case SOCKS_PHASE_CONNECT
  then show ?thesis using feed_loop_append [of c a b 0 cap] by (simp add: after_def [of cap _ c] qn_socks5_feed_def)
next
  case SOCKS_PHASE_READY
  then show ?thesis by (cases a) (simp_all add: after_def qn_socks5_feed_def socks_fail_def)
next
  case SOCKS_PHASE_FAILED
  then show ?thesis by (simp add: after_failed)
qed simp

lemma feed_loop_phase:
  "sx_phase c = SOCKS_PHASE_CONNECT \<Longrightarrow> sx_phase (snd (fst (feed_loop bs k c cap))) \<noteq> SOCKS_PHASE_METHOD"
proof (induction bs arbitrary: k c)
  case (Cons x bs)
  let ?c = "c\<lparr>sx_response := sx_response c @ [x]\<rparr>"
  have "sx_phase ?c = SOCKS_PHASE_CONNECT" using Cons.prems by simp
  then show ?case
  proof (cases rule: response_full_cases [of ?c cap])
    case (go c')
    then show ?thesis using Cons.IH [of c' "k + 1"] Cons.IH [of ?c "k + 1"] Cons.prems by (auto simp: Let_def socks_fail_def)
  qed (use Cons.IH [of ?c "k + 1"] Cons.prems in \<open>auto simp: Let_def socks_fail_def connect_complete_def\<close>)
qed simp

lemma after_phase: "sx_phase c \<noteq> SOCKS_PHASE_METHOD \<Longrightarrow> sx_phase (after cap bs c) \<noteq> SOCKS_PHASE_METHOD"
  using feed_loop_phase [of c bs 0 cap] by (cases "sx_phase c") (auto simp: after_def qn_socks5_feed_def socks_fail_def)

lemma feed_all_concat: "sx_phase c \<noteq> SOCKS_PHASE_METHOD \<Longrightarrow> feed_all cap chunks c = after cap (concat chunks) c"
proof (induction chunks arbitrary: c)
  case Nil
  then show ?case by (cases "sx_phase c") (simp_all add: feed_all_def after_def qn_socks5_feed_def)
next
  case (Cons a chunks)
  then show ?case using after_phase [of c cap a] by (simp add: feed_all_def after_append)
qed

lemma feed_to_needed:
  assumes "sx_phase c = SOCKS_PHASE_CONNECT" "5 < sx_needed c" "sx_needed c \<le> 263" "length (sx_response c) < sx_needed c"
  shows "sx_phase (snd (fst (feed_loop bs k c cap))) = SOCKS_PHASE_READY \<longleftrightarrow> length (sx_response c) + length bs = sx_needed c"
  using assms
proof (induction bs arbitrary: k c)
  case (Cons x bs)
  let ?c = "c\<lparr>sx_response := sx_response c @ [x]\<rparr>"
  show ?case
  proof (cases "length (sx_response ?c) < sx_needed c")
    case True
    then show ?thesis using Cons.IH [of ?c "k + 1"] Cons.prems by (simp add: Let_def)
  next
    case False
    then have n: "Suc (length (sx_response c)) = sx_needed c" using Cons.prems by simp
    then have "response_full ?c cap t = (Inl (if t then socks_fail (snd (connect_complete ?c)) QN_SOCKS5_ERROR_OVERFLOW else connect_complete ?c), [])" for t
      unfolding response_full_def name_length_def Let_def using Cons.prems by simp
    then show ?thesis using n Cons.prems by (cases bs) (auto simp: Let_def socks_fail_def connect_complete_def)
  qed
qed simp

definition valid_reply :: "bytes \<Rightarrow> bool" where
  "valid_reply bs \<longleftrightarrow> take 3 bs = [0x05, 0x00, 0x00] \<and>
     (length bs = 10 \<and> bs ! 3 = 0x01 \<or>
      4 < length bs \<and> bs ! 3 = 0x03 \<and> bs ! 4 \<noteq> 0 \<and> length bs = 7 + unat (bs ! 4))"

lemma after_reply:
  assumes "sx_phase c = SOCKS_PHASE_CONNECT" "sx_response c = []" "sx_needed c = 4"
  shows "sx_phase (after cap bs c) = SOCKS_PHASE_READY \<longleftrightarrow> valid_reply bs"
proof (cases "length bs < 4")
  case True
  then have "bs = [] \<or> (\<exists>a. bs = [a]) \<or> (\<exists>a b. bs = [a, b]) \<or> (\<exists>a b d. bs = [a, b, d])"
    by (auto simp: less_Suc_eq numeral_eq_Suc length_Suc_conv)
  then show ?thesis using assms by (auto simp: after_def qn_socks5_feed_def valid_reply_def Let_def)
next
  case False
  then obtain b0 b1 b2 b3 r where bs: "bs = b0 # b1 # b2 # b3 # r"
    by (auto simp: not_less numeral_eq_Suc Suc_le_length_iff)
  let ?c = "c\<lparr>sx_response := [b0, b1, b2, b3]\<rparr>"
  have st: "after cap bs c = (case response_full ?c cap (r \<noteq> []) of (Inl q, out) \<Rightarrow> snd q | (Inr c', out) \<Rightarrow> snd (fst (feed_loop r 4 c' cap)))"
    using assms by (auto simp: after_def qn_socks5_feed_def bs Let_def numeral_eq_Suc split: prod.splits sum.splits)
  show ?thesis
  proof (cases "b0 = 5 \<and> b1 = 0 \<and> b2 = 0 \<and> (b3 = 1 \<or> b3 = 3)")
    case False
    then have "\<exists>e. response_full ?c cap (r \<noteq> []) = (Inl (socks_fail ?c e), [])"
      using assms by (auto simp: response_full_def connect_header_def Let_def socks_fail_def)
    then show ?thesis using st False by (auto simp: socks_fail_def valid_reply_def bs)
  next
    case True
    show ?thesis
    proof (cases "b3 = 1")
      case one: True
      have "response_full ?c cap t = (Inr (?c\<lparr>sx_needed := 10\<rparr>), [])" for t
        using True one assms by (simp add: response_full_def connect_header_def name_length_def Let_def)
      then show ?thesis using st True one assms feed_to_needed [of "?c\<lparr>sx_needed := 10\<rparr>" r 4 cap] by (auto simp: valid_reply_def bs)
    next
      case False
      then have b3: "b3 = 3" using True by simp
      have rf: "response_full ?c cap t = (Inr (?c\<lparr>sx_needed := 5\<rparr>), [])" for t
        using True b3 assms by (simp add: response_full_def connect_header_def name_length_def Let_def)
      show ?thesis
      proof (cases r)
        case Nil
        then show ?thesis using st rf b3 assms by (simp add: valid_reply_def bs)
      next
        case (Cons b4 r')
        let ?d = "c\<lparr>sx_response := [b0, b1, b2, b3, b4], sx_needed := 7 + unat b4\<rparr>"
        have n: "7 + unat b4 \<le> 263" using unat_lt_size(1) [of b4] by linarith
        show ?thesis
        proof (cases "b4 = 0")
          case True
          then have "response_full (c\<lparr>sx_needed := 5, sx_response := [b0, b1, b2, b3, b4]\<rparr>) cap t =
              (Inl (socks_fail (c\<lparr>sx_response := [b0, b1, b2, b3, b4], sx_needed := 7\<rparr>) QN_SOCKS5_ERROR_ADDRESS), [])" for t
            using b3 assms by (simp add: response_full_def name_length_def Let_def)
          then have "sx_phase (after cap bs c) = SOCKS_PHASE_FAILED" using st rf assms Cons by (simp add: Let_def socks_fail_def)
          then show ?thesis using True Cons b3 by (simp add: valid_reply_def bs)
        next
          case nz: False
          then have "unat b4 \<noteq> 0" by (simp add: unat_eq_0)
          then have "response_full (c\<lparr>sx_needed := 5, sx_response := [b0, b1, b2, b3, b4]\<rparr>) cap t = (Inr ?d, [])" for t
            using b3 assms n by (simp add: response_full_def name_length_def Let_def)
          then have "after cap bs c = snd (fst (feed_loop r' 5 ?d cap))" using st rf b3 assms Cons by (simp add: Let_def)
          then show ?thesis using feed_to_needed [of ?d r' 5 cap] n True nz b3 assms Cons by (auto simp: valid_reply_def bs)
        qed
      qed
    qed
  qed
qed

section \<open>Theorem\<close>

text \<open>
  Property C22.  After the proxy accepts the greeting, the client sends one connect request that names the host and port in
  network order, and then becomes ready exactly if the bytes that follow, however they are cut
  into pieces, are one success reply with an IPv4 address or a nonempty domain name and
  nothing after it.
\<close>

theorem socks5_handshake:
  assumes "qn_socks5_init host port = Some c" "7 + length host \<le> cap"
    and "qn_socks5_feed c [0x05, 0x00] (Some cap) = ((act, c'), used, out)"
  shows "act = QN_SOCKS5_SEND_CONNECT \<and> used = 2 \<and>
    out = [0x05, 0x01, 0x00, 0x03, word_of_nat (length host)] @ host @ [ucast (drop_bit 8 port), ucast port] \<and>
    (sx_phase (feed_all (Some cap) chunks c') = SOCKS_PHASE_READY \<longleftrightarrow> valid_reply (concat chunks))"
proof -
  have c: "c = \<lparr>sx_phase = SOCKS_PHASE_METHOD, sx_response = [], sx_needed = 2, sx_host = host, sx_port = port, sx_error = QN_SOCKS5_ERROR_NONE\<rparr>"
    using assms(1) by (auto simp: qn_socks5_init_def split: if_splits)
  have f: "act = QN_SOCKS5_SEND_CONNECT" "used = 2" "c' = c\<lparr>sx_phase := SOCKS_PHASE_CONNECT, sx_response := [], sx_needed := 4\<rparr>"
    "out = [0x05, 0x01, 0x00, 0x03, word_of_nat (length host)] @ host @ [ucast (drop_bit 8 port), ucast port]"
    using assms(2,3) by (auto simp: c qn_socks5_feed_def response_full_def method_complete_def Let_def)
  have "sx_phase (feed_all (Some cap) chunks c') = SOCKS_PHASE_READY \<longleftrightarrow> valid_reply (concat chunks)"
    using feed_all_concat [of c' "Some cap" chunks] after_reply [of c' "Some cap" "concat chunks"] f(3) by simp
  then show ?thesis using f by simp
qed

theorem socks5_handshake_witness:
  "\<exists>c c' out. qn_socks5_init [0x61, 0x2E, 0x62] 443 = Some c \<and>
     qn_socks5_feed c [0x05, 0x00] (Some 64) = ((QN_SOCKS5_SEND_CONNECT, c'), 2, out) \<and>
     out = [5, 1, 0, 3, 3, 0x61, 0x2E, 0x62, 1, 187] \<and>
     sx_phase (feed_all (Some 64) [[5, 0], [0, 3, 1], [0x61, 0, 80]] c') = SOCKS_PHASE_READY"
proof -
  obtain c where c: "qn_socks5_init [0x61, 0x2E, 0x62] 443 = Some c" by (simp add: qn_socks5_init_def)
  obtain act c' used out where f: "qn_socks5_feed c [0x05, 0x00] (Some 64) = ((act, c'), used, out)" by (metis prod.exhaust)
  have "valid_reply (concat [[5, 0], [0, 3, 1], [0x61, 0, 80]])" by (simp add: valid_reply_def)
  then show ?thesis
    using socks5_handshake [OF c _ f, of "[[5, 0], [0, 3, 1], [0x61, 0, 80]]"] c f by simp
qed

end
