(* ===== verification/Wire.thy ===== *)
theory Wire
  imports Fifo Text
begin

text \<open>
  The small pieces around one connection's bytes: the output buffer of \<^verbatim>\<open>src/net/outbuf.h\<close>, the
  gate of \<^verbatim>\<open>src/net/request_gate.c\<close> that keeps answers from being read before the request is out,
  and the flow report of \<^verbatim>\<open>src/net/flowmeter.h\<close>.  A buffer is its storage (always \<open>cap\<close> bytes) with the
  two offsets, so that what a compaction overwrites is visible.
\<close>

section \<open>Output buffer\<close>

record qn_outbuf =
  ob_buf :: bytes
  ob_cap :: nat
  ob_len :: nat
  ob_off :: nat

definition qn_outbuf_init :: "bytes \<Rightarrow> nat \<Rightarrow> qn_outbuf" where
  "qn_outbuf_init storage cap = \<lparr>ob_buf = storage, ob_cap = cap, ob_len = 0, ob_off = 0\<rparr>"

definition qn_outbuf_reset :: "qn_outbuf \<Rightarrow> qn_outbuf" where
  "qn_outbuf_reset b = b\<lparr>ob_len := 0, ob_off := 0\<rparr>"

definition qn_outbuf_pending :: "qn_outbuf \<Rightarrow> nat" where
  "qn_outbuf_pending b = ob_len b - ob_off b"

text \<open>\<open>qn_outbuf_head\<close>: the bytes from the read offset on.\<close>

definition qn_outbuf_head :: "qn_outbuf \<Rightarrow> bytes" where
  "qn_outbuf_head b = drop (ob_off b) (ob_buf b)"

text \<open>\<open>memcpy\<close> and \<open>memmove\<close> into the storage at an offset.\<close>

definition store_at :: "nat \<Rightarrow> bytes \<Rightarrow> bytes \<Rightarrow> bytes" where
  "store_at i p buf = take i buf @ p @ drop (i + length p) buf"

definition qn_outbuf_compact :: "qn_outbuf \<Rightarrow> qn_outbuf" where
  "qn_outbuf_compact b =
     (let pending = qn_outbuf_pending b in
      if ob_off b = 0 then b
      else (let b1 = (if pending \<noteq> 0 then b\<lparr>ob_buf := store_at 0 (take pending (qn_outbuf_head b)) (ob_buf b)\<rparr> else b)
            in b1\<lparr>ob_len := pending, ob_off := 0\<rparr>))"

definition qn_outbuf_consume :: "qn_outbuf \<Rightarrow> nat \<Rightarrow> qn_outbuf" where
  "qn_outbuf_consume b n =
     (let b1 = b\<lparr>ob_off := ob_off b + (if n > qn_outbuf_pending b then qn_outbuf_pending b else n)\<rparr>
      in if ob_off b1 = ob_len b1 then qn_outbuf_reset b1 else b1)"

definition qn_outbuf_queue :: "qn_outbuf \<Rightarrow> bytes \<Rightarrow> bool \<times> qn_outbuf" where
  "qn_outbuf_queue b p =
     (if length p > ob_cap b then (False, b)
      else (let b1 = qn_outbuf_compact b in
            if length p > ob_cap b1 - ob_len b1 then (False, b1)
            else (True, b1\<lparr>ob_buf := store_at (ob_len b1) p (ob_buf b1), ob_len := ob_len b1 + length p\<rparr>)))"

text \<open>The offset of the writable tail, its size, and the compacted buffer.\<close>

definition qn_outbuf_tail :: "qn_outbuf \<Rightarrow> nat \<times> nat \<times> qn_outbuf" where
  "qn_outbuf_tail b = (let b1 = qn_outbuf_compact b in (ob_len b1, ob_cap b1 - ob_len b1, b1))"

definition qn_outbuf_commit :: "qn_outbuf \<Rightarrow> nat \<Rightarrow> qn_outbuf" where
  "qn_outbuf_commit b n = b\<lparr>ob_len := ob_len b + (if n > ob_cap b - ob_len b then ob_cap b - ob_len b else n)\<rparr>"

section \<open>Request gate\<close>

datatype qn_request_app_action = QN_REQUEST_APP_NONE | QN_REQUEST_APP_REJECT | QN_REQUEST_APP_QUARANTINE | QN_REQUEST_APP_PARSE

record qn_request_gate =
  g_wire_ns :: nat
  g_index :: nat
  g_queued :: bool
  g_flushed :: bool

definition qn_request_gate_begin :: "nat \<Rightarrow> qn_request_gate" where
  "qn_request_gate_begin ix = \<lparr>g_wire_ns = 0, g_index = ix, g_queued = True, g_flushed = False\<rparr>"

definition qn_request_gate_mark_flushed :: "qn_request_gate \<Rightarrow> nat \<Rightarrow> nat \<Rightarrow> bool \<times> qn_request_gate" where
  "qn_request_gate_mark_flushed g pending_bytes wire_ns =
     (if \<not> g_queued g \<or> g_flushed g \<or> pending_bytes \<noteq> 0 then (False, g)
      else (True, g\<lparr>g_flushed := True, g_wire_ns := wire_ns\<rparr>))"

text \<open>A missing gate is \<open>None\<close>.\<close>

definition qn_request_gate_app :: "qn_request_gate option \<Rightarrow> nat \<Rightarrow> qn_request_app_action" where
  "qn_request_gate_app g app_bytes =
     (if app_bytes = 0 then QN_REQUEST_APP_NONE
      else (case g of
              None \<Rightarrow> QN_REQUEST_APP_REJECT
            | Some g \<Rightarrow> if \<not> g_queued g then QN_REQUEST_APP_REJECT
                        else if g_flushed g then QN_REQUEST_APP_PARSE else QN_REQUEST_APP_QUARANTINE))"

definition qn_request_gate_elapsed_us :: "qn_request_gate option \<Rightarrow> nat \<Rightarrow> nat" where
  "qn_request_gate_elapsed_us g observed_ns =
     (case g of
        None \<Rightarrow> 0
      | Some g \<Rightarrow>
          if \<not> g_flushed g \<or> g_wire_ns g = 0 \<or> observed_ns \<le> g_wire_ns g then 0
          else (let elapsed = (observed_ns - g_wire_ns g) div 1000 in if elapsed > UINT32_MAX then UINT32_MAX else elapsed))"

section \<open>Flow report\<close>

record qn_flow_sample =
  fs_requested :: u64
  fs_received :: u64
  fs_span_ns :: u64
  fs_since_progress_ns :: u64

record qn_flow_report =
  fr_kbps :: nat
  fr_partial_kbps :: nat
  fr_stall_us :: nat
  fr_completed :: bool
  fr_attempted :: bool

definition qn_flow_rate_kbps :: "u64 \<Rightarrow> u64 \<Rightarrow> nat" where
  "qn_flow_rate_kbps n span_ns =
     (if span_ns \<le> 1000000 then 0 else min (unat ((n * 8 * 1000000) div span_ns)) UINT32_MAX)"

definition qn_flow_report_of :: "qn_flow_sample \<Rightarrow> qn_flow_report" where
  "qn_flow_report_of s =
     (let out = \<lparr>fr_kbps = 0, fr_partial_kbps = 0, fr_stall_us = 0, fr_completed = False, fr_attempted = False\<rparr> in
      if fs_requested s = 0 then out
      else (let out = out\<lparr>fr_attempted := True, fr_completed := fs_received s \<ge> fs_requested s\<rparr> in
            if fr_completed out then out\<lparr>fr_kbps := qn_flow_rate_kbps (fs_received s) (fs_span_ns s)\<rparr>
            else out\<lparr>fr_partial_kbps := qn_flow_rate_kbps (fs_received s) (fs_span_ns s),
                     fr_stall_us := min (unat ((if fs_since_progress_ns s \<noteq> 0 then fs_since_progress_ns s else fs_span_ns s) div 1000)) UINT32_MAX\<rparr>))"

section \<open>The buffer is a queue of bytes\<close>

definition outbuf_ok :: "qn_outbuf \<Rightarrow> bool" where
  "outbuf_ok b \<longleftrightarrow> ob_off b \<le> ob_len b \<and> ob_len b \<le> ob_cap b \<and> length (ob_buf b) = ob_cap b"

text \<open>The bytes queued and not yet handed to the socket.\<close>

definition unsent :: "qn_outbuf \<Rightarrow> bytes" where
  "unsent b = take (qn_outbuf_pending b) (qn_outbuf_head b)"

lemma length_unsent: "outbuf_ok b \<Longrightarrow> length (unsent b) = qn_outbuf_pending b"
  by (auto simp: unsent_def qn_outbuf_head_def qn_outbuf_pending_def outbuf_ok_def)

lemma compact_ok:
  assumes "outbuf_ok b"
  shows "outbuf_ok (qn_outbuf_compact b)" "unsent (qn_outbuf_compact b) = unsent b"
    "ob_off (qn_outbuf_compact b) = 0" "ob_len (qn_outbuf_compact b) = length (unsent b)" "ob_cap (qn_outbuf_compact b) = ob_cap b"
  using assms length_unsent [OF assms]
  by (auto simp: outbuf_ok_def unsent_def qn_outbuf_compact_def Let_def store_at_def qn_outbuf_pending_def qn_outbuf_head_def)

lemma consume_ok:
  assumes "outbuf_ok b"
  shows "outbuf_ok (qn_outbuf_consume b n)" "unsent (qn_outbuf_consume b n) = drop n (unsent b)" "ob_cap (qn_outbuf_consume b n) = ob_cap b"
  using assms
  by (auto simp: outbuf_ok_def unsent_def qn_outbuf_consume_def qn_outbuf_reset_def Let_def qn_outbuf_pending_def qn_outbuf_head_def
      drop_take add.commute)

lemma queue_ok:
  assumes "outbuf_ok b" "qn_outbuf_queue b p = (r, b')"
  shows "r \<longleftrightarrow> length (unsent b) + length p \<le> ob_cap b" "outbuf_ok b'" "unsent b' = (if r then unsent b @ p else unsent b)" "ob_cap b' = ob_cap b"
proof -
  let ?c = "qn_outbuf_compact b"
  note c = compact_ok [OF assms(1)]
  have l: "length (unsent b) \<le> ob_cap b" "length (ob_buf ?c) = ob_cap b" using c by (auto simp: outbuf_ok_def)
  have u: "take (ob_len ?c) (ob_buf ?c) = unsent b" using c by (simp add: unsent_def qn_outbuf_pending_def qn_outbuf_head_def)
  show "r \<longleftrightarrow> length (unsent b) + length p \<le> ob_cap b" "ob_cap b' = ob_cap b"
    using assms c l by (auto simp: qn_outbuf_queue_def Let_def split: if_splits)
  have "length p \<le> ob_cap b - length (unsent b)" if r using that assms c by (auto simp: qn_outbuf_queue_def Let_def split: if_splits)
  then have q: "b' = (if r then ?c\<lparr>ob_buf := store_at (ob_len ?c) p (ob_buf ?c), ob_len := ob_len ?c + length p\<rparr> else b') \<and>
     (r \<longrightarrow> length p \<le> ob_cap b - length (unsent b)) \<and> (\<not> r \<longrightarrow> b' = b \<or> b' = ?c)"
    using assms c by (auto simp: qn_outbuf_queue_def Let_def split: if_splits)
  show "outbuf_ok b'" using q c l assms(1) by (cases r) (auto simp: outbuf_ok_def store_at_def)
  show "unsent b' = (if r then unsent b @ p else unsent b)"
  proof (cases r)
    case True
    have "unsent b' = take (ob_len ?c + length p) (store_at (ob_len ?c) p (ob_buf ?c))"
      using q True c by (simp add: unsent_def qn_outbuf_pending_def qn_outbuf_head_def)
    also have "\<dots> = unsent b @ p" unfolding store_at_def u using c l by simp
    finally show ?thesis using True by simp
  qed (use q c in auto)
qed

interpretation ob: bounded_fifo outbuf_ok unsent ob_cap "\<lambda>b x. qn_outbuf_queue b [x]" "\<lambda>b n. (take n (unsent b), qn_outbuf_consume b n)" UINT64_MAX
proof unfold_locales
  fix b :: qn_outbuf and x :: u8 and m :: nat
  assume ok: "outbuf_ok b"
  obtain r b' where q: "qn_outbuf_queue b [x] = (r, b')" by force
  note qo = queue_ok [OF ok q]
  show "length (unsent b) < ob_cap b \<Longrightarrow> fst (qn_outbuf_queue b [x]) \<and> outbuf_ok (snd (qn_outbuf_queue b [x])) \<and>
      unsent (snd (qn_outbuf_queue b [x])) = unsent b @ [x] \<and> ob_cap (snd (qn_outbuf_queue b [x])) = ob_cap b"
    "\<not> length (unsent b) < ob_cap b \<Longrightarrow> \<not> fst (qn_outbuf_queue b [x]) \<and> outbuf_ok (snd (qn_outbuf_queue b [x])) \<and>
      unsent (snd (qn_outbuf_queue b [x])) = unsent b \<and> ob_cap (snd (qn_outbuf_queue b [x])) = ob_cap b"
    using qo q by auto
  show "outbuf_ok (snd (take m (unsent b), qn_outbuf_consume b m)) \<and>
      unsent b = fst (take m (unsent b), qn_outbuf_consume b m) @ unsent (snd (take m (unsent b), qn_outbuf_consume b m)) \<and>
      length (fst (take m (unsent b), qn_outbuf_consume b m)) \<le> m \<and> ob_cap (snd (take m (unsent b), qn_outbuf_consume b m)) = ob_cap b"
    using consume_ok [OF ok, of m] by simp
  show "0 < m \<Longrightarrow> unsent b \<noteq> [] \<Longrightarrow> fst (take m (unsent b), qn_outbuf_consume b m) \<noteq> []" by simp
  show "length (unsent b) \<le> ob_cap b" using length_unsent [OF ok] ok by (auto simp: qn_outbuf_pending_def outbuf_ok_def)
qed

section \<open>Theorem\<close>

text \<open>A connection's use of its buffer: whole blocks are queued and the socket takes some bytes off the front.\<close>

datatype ob_op = Queue bytes | Sent nat

fun ob_run :: "qn_outbuf \<Rightarrow> ob_op list \<Rightarrow> bytes \<times> bytes \<times> qn_outbuf" where
  "ob_run b [] = ([], [], b)"
| "ob_run b (Queue p # ops) = (let (ok, b1) = qn_outbuf_queue b p; (acc, out, b2) = ob_run b1 ops in ((if ok then p @ acc else acc), out, b2))"
| "ob_run b (Sent n # ops) = (let xs = take n (unsent b); (acc, out, b2) = ob_run (qn_outbuf_consume b n) ops in (acc, xs @ out, b2))"

lemma ob_run_stream: "outbuf_ok b \<Longrightarrow> ob_run b ops = (acc, out, b') \<Longrightarrow> outbuf_ok b' \<and> ob_cap b' = ob_cap b \<and> unsent b @ acc = out @ unsent b'"
proof (induction b ops arbitrary: acc out rule: ob_run.induct)
  case (2 b p ops)
  obtain ok b1 where q: "qn_outbuf_queue b p = (ok, b1)" by force
  obtain acc1 where r: "ob_run b1 ops = (acc1, out, b')" "acc = (if ok then p @ acc1 else acc1)"
    using 2(3) q by (auto split: prod.splits)
  have "outbuf_ok b' \<and> ob_cap b' = ob_cap b1 \<and> unsent b1 @ acc1 = out @ unsent b'" using 2(1) [OF q [symmetric] refl queue_ok(2) [OF 2(2) q] r(1)] .
  then show ?case using queue_ok(3,4) [OF 2(2) q] r(2) by auto
next
  case (3 b n ops)
  obtain out1 where r: "ob_run (qn_outbuf_consume b n) ops = (acc, out1, b')" "out = take n (unsent b) @ out1"
    using 3(3) by (auto simp: Let_def split: prod.splits)
  have "outbuf_ok b' \<and> ob_cap b' = ob_cap b \<and> drop n (unsent b) @ acc = out1 @ unsent b'"
    using 3(1) [OF refl consume_ok(1) [OF 3(2)] r(1)] consume_ok(2,3) [OF 3(2)] by simp
  then show ?case using r(2) by (metis append.assoc append_take_drop_id)
qed auto

text \<open>
  Property C23.  Whatever is queued and however little of it each write takes, the bytes handed to the socket are
  the accepted blocks in order, without loss or repetition; a block is accepted exactly if it
  fits beside what is still unsent, and once nothing is queued any more, writing until nothing is
  left hands over all of it.
\<close>

theorem outbuf_stream:
  assumes "0 < n" "n \<le> UINT64_MAX" "ob_run (qn_outbuf_init (replicate cap 0) cap) ops = (acc, out, b)"
  shows "acc = out @ unsent b \<and> fst (ob.drain cap b n) = unsent b \<and> unsent (snd (ob.drain cap b n)) = [] \<and>
    (fst (qn_outbuf_queue b p) \<longleftrightarrow> length (unsent b) + length p \<le> cap)"
proof -
  let ?i = "qn_outbuf_init (replicate cap 0) cap"
  have i: "outbuf_ok ?i" "unsent ?i = []" "ob_cap ?i = cap" by (simp_all add: qn_outbuf_init_def outbuf_ok_def unsent_def qn_outbuf_pending_def)
  have b: "outbuf_ok b" "acc = out @ unsent b" "ob_cap b = cap"
    using ob_run_stream [OF i(1) assms(3)] i by simp_all
  have "length (unsent b) \<le> cap" using ob.bounded [OF b(1)] b(3) by simp
  then have d: "fst (ob.drain cap b n) = unsent b \<and> unsent (snd (ob.drain cap b n)) = [] \<and> outbuf_ok (snd (ob.drain cap b n))"
    by (rule ob.drain_all [OF b(1) assms(1,2)])
  obtain r b' where q: "qn_outbuf_queue b p = (r, b')" by force
  show ?thesis using d b queue_ok(1) [OF b(1) q] q by simp
qed

theorem outbuf_stream_witness:
  "fst (ob.drain 4 (snd (snd (ob_run (qn_outbuf_init (replicate 4 0) 4) [Queue [1, 2, 3], Sent 2, Queue [4, 5, 6], Queue [7]]))) 3) = [3, 4, 5, 6]"
proof -
  let ?r = "ob_run (qn_outbuf_init (replicate 4 0) 4) [Queue [1, 2, 3], Sent 2, Queue [4, 5, 6], Queue [7]]"
  have r: "?r = (fst ?r, fst (snd ?r), snd (snd ?r))" by simp
  have "fst ?r = [1, 2, 3, 4, 5, 6] \<and> fst (snd ?r) = [1, 2]"
    by (simp add: qn_outbuf_init_def qn_outbuf_queue_def qn_outbuf_consume_def qn_outbuf_compact_def qn_outbuf_pending_def
        qn_outbuf_head_def store_at_def unsent_def qn_outbuf_reset_def Let_def numeral_eq_Suc)
  then show ?thesis using outbuf_stream [OF _ _ r, of 3 "[]"] by simp
qed

end
