(* ===== verification/Probe_Http.thy ===== *)
theory Probe_Http
  imports Observation
begin

text \<open>
  \<^verbatim>\<open>src/net/probe_http.c\<close>: the request the prober sends and how it reads a reply, its status
  line, the hints in its headers and the lines of a trace body.  A buffer is the list of its
  characters; \<open>parse\<close> stands for \<open>qn_addr_parse\<close>, whose C library calls are parameters of theory
  \<open>Util\<close>.
\<close>

section \<open>The request\<close>

abbreviation DQ :: char where "DQ \<equiv> CHR 0x22"
abbreviation CRLF :: string where "CRLF \<equiv> [CR, LF]"

definition get_prefix :: string where "get_prefix = ''GET ''"

definition get_between :: string where "get_between = '' HTTP/1.1'' @ CRLF @ ''Host: ''"

definition get_suffix :: string where
  "get_suffix = CRLF @ ''Connection: keep-alive'' @ CRLF @
     ''Sec-CH-UA: '' @ [DQ] @ ''Not=A?Brand'' @ [DQ] @ '';v='' @ [DQ] @ ''99'' @ [DQ] @ '', '' @ [DQ] @ ''Google Chrome'' @ [DQ] @ '';v='' @ [DQ] @ ''151'' @ [DQ] @ '', '' @
     [DQ] @ ''Chromium'' @ [DQ] @ '';v='' @ [DQ] @ ''151'' @ [DQ] @ CRLF @
     ''Sec-CH-UA-Mobile: ?1'' @ CRLF @ ''Sec-CH-UA-Platform: '' @ [DQ] @ ''Android'' @ [DQ] @ CRLF @
     ''Upgrade-Insecure-Requests: 1'' @ CRLF @
     ''User-Agent: Mozilla/5.0 (Linux; Android 10; K) AppleWebKit/537.36 (KHTML, like Gecko) Chrome/151.0.0.0 Mobile Safari/537.36'' @ CRLF @
     ''Accept: text/html,application/xhtml+xml,application/xml;q=0.9,image/avif,image/webp,image/apng,*/*;q=0.8,application/signed-exchange;v=b3;q=0.7'' @ CRLF @
     ''Sec-Fetch-Site: cross-site'' @ CRLF @ ''Sec-Fetch-Mode: navigate'' @ CRLF @
     ''Sec-Fetch-Dest: document'' @ CRLF @ ''Accept-Encoding: gzip, deflate, br, zstd'' @ CRLF @
     ''Accept-Language: fa,en-US;q=0.9,en;q=0.8,de;q=0.7'' @ CRLF @ CRLF"

definition qn_http_build_get :: "nat \<Rightarrow> string \<Rightarrow> string \<Rightarrow> string option" where
  "qn_http_build_get cap host path =
     (let fixed = length get_prefix + length get_between + length get_suffix in
      if cap = 0 \<or> \<not> qn_valid_field host 253 \<or> \<not> qn_valid_field path 1024 then None
      else if length path > UINT64_MAX - fixed \<or> length host > UINT64_MAX - fixed - length path then None
      else if fixed + length path + length host > 2147483647 \<or> fixed + length path + length host \<ge> cap then None
      else Some (get_prefix @ path @ get_between @ host @ get_suffix))"

section \<open>Status line and header hints\<close>

fun status_eol :: "string \<Rightarrow> nat \<Rightarrow> bool" where
  "status_eol [] i = False"
| "status_eol (c # cs) i =
     (if i \<ge> 512 then False
      else if c = LF then False
      else if c = CR then cs \<noteq> [] \<and> hd cs = LF
      else status_eol cs (i + 1))"

definition parse_status :: "string \<Rightarrow> nat" where
  "parse_status b =
     (if length b < 12 \<or> take 7 b \<noteq> ''HTTP/1.'' \<or> (b ! 7 \<noteq> CHR ''0'' \<and> b ! 7 \<noteq> CHR ''1'') \<or> b ! 8 \<noteq> CHR '' '' then 0
      else if \<not> is_digit (b ! 9) \<or> \<not> is_digit (b ! 10) \<or> \<not> is_digit (b ! 11) then 0
      else (let n = digit_value (b ! 9) * 100 + digit_value (b ! 10) * 10 + digit_value (b ! 11) in
            if n < 100 \<or> n > 599 then 0
            else if length b > 12 \<and> b ! 12 \<noteq> CHR '' '' \<and> b ! 12 \<noteq> CR then 0
            else if status_eol (drop 12 b) 12 then n else 0))"

definition upper :: "char \<Rightarrow> bool" where "upper c \<longleftrightarrow> code CHR ''A'' \<le> code c \<and> code c \<le> code CHR ''Z''"

text \<open>The colo is what has been written when the function returns; letters before a bad one stay.\<close>

definition parse_cfray :: "string \<Rightarrow> bool \<times> string" where
  "parse_cfray b =
     (case qn_find_ci b (LF # ''cf-ray:'') of
        None \<Rightarrow> (False, [])
      | Some h \<Rightarrow>
          (let p = dropWhile (\<lambda>c. c = CHR '' '' \<or> c = TAB) (drop (h + 8) b);
               q = takeWhile (\<lambda>c. c \<noteq> CR \<and> c \<noteq> LF) p
           in if CHR ''-'' \<notin> set q then (False, [])
              else (let dash = length q - 1 - length (takeWhile (\<lambda>c. c \<noteq> CHR ''-'') (rev q)); tail = drop dash p
                    in if length tail < 4 then (False, [])
                       else (let w = takeWhile upper (take 3 (tl tail)) in (length w = 3, w)))))"

definition key_is :: "string \<Rightarrow> string \<Rightarrow> bool" where "key_is p want \<longleftrightarrow> map lc p = want"

definition valid_colo :: "string \<Rightarrow> bool" where "valid_colo p \<longleftrightarrow> length p = 3 \<and> list_all upper p"

section \<open>Trace bodies\<close>

abbreviation QN_TRACE_LINE_MAX :: nat where "QN_TRACE_LINE_MAX \<equiv> 128"

record qn_trace_body =
  tb_colo :: string
  tb_ip :: "qn_addr option"
  tb_lines :: nat
  tb_have_colo :: bool
  tb_have_ip :: bool
  tb_conflict :: bool
  tb_malformed :: bool

definition trace_zero :: qn_trace_body where
  "trace_zero = \<lparr>tb_colo = [], tb_ip = None, tb_lines = 0, tb_have_colo = False, tb_have_ip = False, tb_conflict = False, tb_malformed = False\<rparr>"

text \<open>One line that is not blank: \<open>Inl\<close> ends the parse without success.\<close>

definition trace_line :: "(string \<Rightarrow> qn_addr option) \<Rightarrow> string \<Rightarrow> qn_trace_body \<Rightarrow> qn_trace_body + qn_trace_body" where
  "trace_line parse line tb =
     (if length line > QN_TRACE_LINE_MAX then Inl (tb\<lparr>tb_malformed := True\<rparr>)
      else if CHR ''='' \<notin> set line \<or> hd line = CHR ''='' then Inl (tb\<lparr>tb_malformed := True\<rparr>)
      else (let key = takeWhile (\<lambda>c. c \<noteq> CHR ''='') line; val = tl (dropWhile (\<lambda>c. c \<noteq> CHR ''='') line);
                tb = tb\<lparr>tb_lines := tb_lines tb + 1\<rparr>
            in if key_is key ''colo''
               then (if \<not> valid_colo val then Inl (tb\<lparr>tb_malformed := True\<rparr>)
                     else if tb_have_colo tb \<and> tb_colo tb \<noteq> val then Inl (tb\<lparr>tb_conflict := True\<rparr>)
                     else Inr (tb\<lparr>tb_colo := val, tb_have_colo := True\<rparr>))
               else if key_is key ''ip''
               then (if length val \<ge> 46 then Inl (tb\<lparr>tb_malformed := True\<rparr>)
                     else (case parse (cstr val) of
                             None \<Rightarrow> Inl (tb\<lparr>tb_malformed := True\<rparr>)
                           | Some a \<Rightarrow> Inr (tb\<lparr>tb_ip := Some a, tb_have_ip := True\<rparr>)))
               else Inr tb))"

function trace_loop :: "(string \<Rightarrow> qn_addr option) \<Rightarrow> string \<Rightarrow> qn_trace_body \<Rightarrow> bool \<times> qn_trace_body" where
  "trace_loop parse b tb =
     (if LF \<notin> set b then (tb_have_colo tb, tb)
      else (let raw = takeWhile (\<lambda>c. c \<noteq> LF) b; rest = tl (dropWhile (\<lambda>c. c \<noteq> LF) b);
                line = (if raw \<noteq> [] \<and> last raw = CR then butlast raw else raw)
            in if line = [] then trace_loop parse rest tb
               else (case trace_line parse line tb of
                       Inl tb' \<Rightarrow> (False, tb')
                     | Inr tb' \<Rightarrow> trace_loop parse rest tb')))"
  by pat_completeness auto
termination
proof (relation "measure (\<lambda>(parse, b, tb). length b)", goal_cases)
  case (2 parse b tb raw rest line)
  then have "dropWhile (\<lambda>c. c \<noteq> LF) b \<noteq> []" by (auto simp: dropWhile_eq_Nil_conv)
  then show ?case using 2 length_dropWhile_le [of "\<lambda>c. c \<noteq> LF" b] by (cases "dropWhile (\<lambda>c. c \<noteq> LF) b") auto
next
  case (3 parse b tb raw rest line tb')
  then have "dropWhile (\<lambda>c. c \<noteq> LF) b \<noteq> []" by (auto simp: dropWhile_eq_Nil_conv)
  then show ?case using 3 length_dropWhile_le [of "\<lambda>c. c \<noteq> LF" b] by (cases "dropWhile (\<lambda>c. c \<noteq> LF) b") auto
qed simp

declare trace_loop.simps [simp del]

definition qn_http_trace_parse :: "(string \<Rightarrow> qn_addr option) \<Rightarrow> string \<Rightarrow> bool \<times> qn_trace_body" where
  "qn_http_trace_parse parse b = trace_loop parse b trace_zero"

section \<open>Replies\<close>

record qn_http_reply =
  rp_status :: nat
  rp_colo :: string
  rp_is_cloudflare :: bool
  rp_cf_ray :: bool
  rp_server_cloudflare :: bool
  rp_colo_verified :: bool
  rp_complete :: bool

definition reply_zero :: qn_http_reply where
  "reply_zero = \<lparr>rp_status = 0, rp_colo = [], rp_is_cloudflare = False, rp_cf_ray = False, rp_server_cloudflare = False,
     rp_colo_verified = False, rp_complete = False\<rparr>"

definition qn_http_parse :: "(string \<Rightarrow> qn_addr option) \<Rightarrow> string \<Rightarrow> bool \<times> qn_http_reply" where
  "qn_http_parse parse buf =
     (if length buf < 12 then (False, reply_zero)
      else (let out = reply_zero\<lparr>rp_status := parse_status buf\<rparr> in
            if rp_status out = 0 then (False, out)
            else (let hend = qn_find_headers_end buf;
                      head = (case hend of Some n \<Rightarrow> take n buf | None \<Rightarrow> buf);
                      srv = qn_find_ci head (LF # ''server: cloudflare'') \<noteq> None;
                      ray = qn_find_ci head (LF # ''cf-ray:'') \<noteq> None;
                      out = out\<lparr>rp_complete := hend \<noteq> None, rp_server_cloudflare := srv, rp_cf_ray := ray,
                                rp_is_cloudflare := srv \<or> ray, rp_colo := snd (parse_cfray head)\<rparr>
                  in if hend \<noteq> None \<and> rp_status out = 200
                     then (let (ok, tb) = qn_http_trace_parse parse (drop (the hend) buf) in
                           if ok then (True, out\<lparr>rp_colo := tb_colo tb, rp_colo_verified := True\<rparr>)
                           else if tb_malformed tb \<or> tb_conflict tb then (False, out) else (True, out))
                     else (True, out))))"

section \<open>Laws\<close>

text \<open>What one trace line has to be to count as evidence.\<close>

definition colo_line :: "string \<Rightarrow> bool" where
  "colo_line l \<longleftrightarrow> length l \<le> QN_TRACE_LINE_MAX \<and> CHR ''='' \<in> set l \<and> map lc (takeWhile (\<lambda>c. c \<noteq> CHR ''='') l) = ''colo'' \<and>
     valid_colo (tl (dropWhile (\<lambda>c. c \<noteq> CHR ''='') l))"

lemma trace_loop_Nil [simp]: "trace_loop parse [] tb = (tb_have_colo tb, tb)"
  by (subst trace_loop.simps) simp

lemma trace_single:
  assumes "LF \<notin> set l" "CR \<notin> set l" "l \<noteq> []"
  shows "fst (qn_http_trace_parse parse (l @ [LF])) \<longleftrightarrow> colo_line l"
proof -
  have t: "takeWhile (\<lambda>c. c \<noteq> LF) (l @ [LF]) = l" "dropWhile (\<lambda>c. c \<noteq> LF) (l @ [LF]) = [LF]"
    using assms(1) by (subst takeWhile_append2 | subst dropWhile_append2 | auto)+
  have cr: "last l \<noteq> CR" using assms(2,3) by (metis last_in_set)
  have e: "qn_http_trace_parse parse (l @ [LF]) = (case trace_line parse l trace_zero of Inl tb \<Rightarrow> (False, tb) | Inr tb \<Rightarrow> (tb_have_colo tb, tb))"
    unfolding qn_http_trace_parse_def
    by (subst trace_loop.simps) (simp add: t cr assms(3) Let_def split: sum.split)
  have k: "key_is (takeWhile (\<lambda>c. c \<noteq> CHR ''='') l) ''colo'' \<Longrightarrow> hd l \<noteq> CHR ''=''"
    using assms(3) by (cases l) (auto simp: key_is_def)
  show ?thesis
  proof (cases "key_is (takeWhile (\<lambda>c. c \<noteq> CHR ''='') l) ''colo''")
    case True
    then show ?thesis using k by (auto simp: e trace_line_def Let_def colo_line_def key_is_def trace_zero_def split: sum.splits)
  next
    case False
    then show ?thesis by (auto simp: e trace_line_def Let_def colo_line_def key_is_def trace_zero_def split: sum.splits option.splits if_splits)
  qed
qed

end
