(* ===== verification/Http1.thy ===== *)
theory Http1
  imports Probe_Http
begin

text \<open>
  \<^verbatim>\<open>src/net/http1.c\<close>: the incremental reader of HTTP/1.1 responses.  The state is the record of
  the C structure with buffers as the lists of the bytes in them (at most 8192 of a head and 128 of
  a trace line); byte counters are unbounded, since a connection cannot carry \<open>2 ^ 64\<close> bytes.
  An operation returns its code, the new state and the event, also when it fails half-way.
  This theory holds the definitions; their laws are in theory \<open>Http1_Frame\<close>.
\<close>

datatype h1_state = H1_HEAD | H1_FIXED | H1_CHUNK_SIZE | H1_CHUNK_DATA | H1_CHUNK_CRLF | H1_TRAILERS | H1_EOF_BODY

datatype qn_http1_rc = QN_HTTP1_OK | QN_HTTP1_PROTOCOL | QN_HTTP1_SPACE

abbreviation QN_HTTP1_HEAD_MAX :: nat where "QN_HTTP1_HEAD_MAX \<equiv> 8192"

record qn_http1 =
  h_head :: string
  h_left :: nat
  h_current_body :: nat
  h_total_body :: nat
  h_responses :: nat
  h_opened :: nat
  h_status :: nat
  h_state :: h1_state
  h_crlf_n :: nat
  h_line :: string
  h_line_overflow :: bool

section \<open>Field values\<close>

definition ascii_eq :: "string \<Rightarrow> string \<Rightarrow> bool" where "ascii_eq p s \<longleftrightarrow> map lc p = s"

definition tchar :: "char \<Rightarrow> bool" where
  "tchar c \<longleftrightarrow> is_digit c \<or> upper c \<or> code CHR ''a'' \<le> code c \<and> code c \<le> code CHR ''z'' \<or> c \<in> set ''!#$%&*+-.^_|~'' \<or> c = CHR 0x27 \<or> c = CHR 0x60"

definition token :: "string \<Rightarrow> bool" where "token p \<longleftrightarrow> p \<noteq> [] \<and> list_all tchar p"

definition blank_char :: "char \<Rightarrow> bool" where "blank_char c \<longleftrightarrow> c = CHR '' '' \<or> c = TAB"

definition strip_end :: "string \<Rightarrow> string" where "strip_end p = rev (dropWhile blank_char (rev p))"

record te_list =
  te_codings :: nat
  te_chunked_seen :: nat
  te_chunked_is_last :: bool
  te_malformed :: bool

definition te_zero :: te_list where
  "te_zero = \<lparr>te_codings = 0, te_chunked_seen = 0, te_chunked_is_last = False, te_malformed = False\<rparr>"

definition te_element :: "te_list \<Rightarrow> string \<Rightarrow> te_list" where
  "te_element te el =
     (if \<not> token el then te\<lparr>te_malformed := True\<rparr>
      else (let te = te\<lparr>te_codings := te_codings te + 1\<rparr> in
            if ascii_eq el ''chunked'' then te\<lparr>te_chunked_seen := te_chunked_seen te + 1, te_chunked_is_last := True\<rparr>
            else te\<lparr>te_chunked_is_last := False\<rparr>))"

function te_loop :: "te_list \<Rightarrow> string \<Rightarrow> te_list" where
  "te_loop te p =
     (if p = [] then te
      else (let r = dropWhile blank_char p;
                el = strip_end (takeWhile (\<lambda>c. c \<noteq> CHR '','') r);
                rest = tl (dropWhile (\<lambda>c. c \<noteq> CHR '','') r)
            in if el = [] then te_loop (if r \<noteq> [] \<or> te_codings te \<noteq> 0 then te\<lparr>te_malformed := True\<rparr> else te) rest
               else te_loop (te_element te el) rest))"
  by pat_completeness auto
termination
proof -
  have s: "length (tl (dropWhile Q (dropWhile P p))) < length p" if "p \<noteq> []" for P Q and p :: string
    using that length_dropWhile_le [of Q "dropWhile P p"] length_dropWhile_le [of P p]
    by (simp only: length_tl length_greater_0_conv [symmetric])
  show ?thesis by (relation "measure (\<lambda>(te, p). length p)") (simp_all add: s [unfolded length_tl One_nat_def])
qed

declare te_loop.simps [simp del]

definition te_append :: "te_list \<Rightarrow> string \<Rightarrow> te_list" where
  "te_append te p =
     (let t = strip_end p in
      te_loop (if t \<noteq> [] \<and> last t = CHR '','' then te\<lparr>te_malformed := True\<rparr> else te) p)"

fun decimal_digits :: "string \<Rightarrow> nat \<Rightarrow> (nat \<times> string) option" where
  "decimal_digits [] v = Some (v, [])"
| "decimal_digits (c # cs) v =
     (if is_digit c
      then (if v > (UINT64_MAX - digit_value c) div 10 then None else decimal_digits cs (v * 10 + digit_value c))
      else Some (v, c # cs))"

definition parse_decimal :: "string \<Rightarrow> nat option" where
  "parse_decimal p =
     (let r = dropWhile blank_char p in
      if r = [] then None
      else (case decimal_digits r 0 of
              None \<Rightarrow> None
            | Some (v, rest) \<Rightarrow> if dropWhile blank_char rest \<noteq> [] then None else Some v))"

definition hex_value :: "char \<Rightarrow> nat option" where
  "hex_value c =
     (if is_digit c then Some (digit_value c)
      else if code CHR ''a'' \<le> code c \<and> code c \<le> code CHR ''f'' then Some (code c - code CHR ''a'' + 10)
      else if code CHR ''A'' \<le> code c \<and> code c \<le> code CHR ''F'' then Some (code c - code CHR ''A'' + 10)
      else None)"

fun hex_digits :: "string \<Rightarrow> nat \<Rightarrow> bool \<Rightarrow> (nat \<times> bool \<times> string) option" where
  "hex_digits [] v some = Some (v, some, [])"
| "hex_digits (c # cs) v some =
     (if c = CHR '';'' \<or> c = CHR '' '' \<or> c = TAB then Some (v, some, c # cs)
      else (case hex_value c of
              None \<Rightarrow> None
            | Some d \<Rightarrow> if v > (UINT64_MAX - d) div 16 then None else hex_digits cs (v * 16 + d) True))"

text \<open>A quoted string after its opening quote; what follows the closing quote.\<close>

fun quoted :: "string \<Rightarrow> string option" where
  "quoted [] = None"
| "quoted (c # cs) =
     (if c = DQ then Some cs
      else if c = CHR 0x5C
      then (case cs of [] \<Rightarrow> None | d # ds \<Rightarrow> if code d < 0x20 \<or> code d = 0x7F then None else quoted ds)
      else if code c < 0x20 \<and> c \<noteq> TAB \<or> code c = 0x7F then None
      else quoted cs)"

lemma quoted_shorter: "quoted cs = Some r \<Longrightarrow> length r < length cs"
  by (induction cs rule: quoted.induct) (fastforce split: if_splits list.splits)+

definition ext_value :: "string \<Rightarrow> string option" where
  "ext_value s =
     (case s of
        [] \<Rightarrow> None
      | c # cs \<Rightarrow> if c = DQ then quoted cs else (if takeWhile tchar s = [] then None else Some (dropWhile tchar s)))"

lemma ext_value_shorter: "ext_value s = Some r \<Longrightarrow> length r \<le> length s"
  using length_dropWhile_le [of tchar s]
  by (auto simp: ext_value_def dest: quoted_shorter split: list.splits if_splits)

text \<open>The extensions of a chunk size line.\<close>

function chunk_ext :: "string \<Rightarrow> bool" where
  "chunk_ext s =
     (if s = [] then True
      else if hd s \<noteq> CHR '';'' then False
      else (let t = dropWhile blank_char (tl s); r = dropWhile tchar t in
            if takeWhile tchar t = [] then False
            else if r \<noteq> [] \<and> hd r = CHR ''=''
            then (case ext_value (tl r) of None \<Rightarrow> False | Some u \<Rightarrow> chunk_ext (dropWhile blank_char u))
            else chunk_ext (dropWhile blank_char r)))"
  by pat_completeness auto
termination
proof -
  have d: "length (dropWhile P xs) \<le> length xs" for P and xs :: string by (rule length_dropWhile_le)
  have r: "length (dropWhile tchar (dropWhile blank_char (tl s))) < length s" if "s \<noteq> []" for s
    using that d [of tchar "dropWhile blank_char (tl s)"] d [of blank_char "tl s"] by (cases s) auto
  have u: "length (dropWhile blank_char u) < length s"
    if "s \<noteq> []" "ext_value (tl (dropWhile tchar (dropWhile blank_char (tl s)))) = Some u" for s u
    using r [OF that(1)] ext_value_shorter [OF that(2)] d [of blank_char u] by auto
  have v: "length (dropWhile blank_char (dropWhile tchar (dropWhile blank_char (tl s)))) < length s" if "s \<noteq> []" for s
    using r [OF that] d [of blank_char "dropWhile tchar (dropWhile blank_char (tl s))"] by simp
  show ?thesis by (relation "measure length") (simp_all add: u v)
qed

declare chunk_ext.simps [simp del]

definition parse_hex_line :: "string \<Rightarrow> nat option" where
  "parse_hex_line p =
     (case hex_digits (dropWhile blank_char p) 0 False of
        None \<Rightarrow> None
      | Some (v, some, rest) \<Rightarrow> if \<not> some then None else if chunk_ext (dropWhile blank_char rest) then Some v else None)"

section \<open>Events and bodies\<close>

definition event_zero :: qn_http_event where
  "event_zero = \<lparr>he_flags = 0, he_response_index = 0, he_body_bytes = 0, he_status = 0, he_colo = []\<rparr>"

definition add_fact :: "u32 \<Rightarrow> qn_http_event \<Rightarrow> qn_http_event" where
  "add_fact f ev = ev\<lparr>he_flags := he_flags ev OR f\<rparr>"

definition event_trace :: "qn_http_event \<Rightarrow> string \<Rightarrow> qn_http_event" where
  "event_trace ev colo =
     (let ev = add_fact QN_HTTP_FACT_TRACE_COLO ev in if colo \<noteq> [] then ev\<lparr>he_colo := colo\<rparr> else ev)"

definition scan_line :: "(string \<Rightarrow> qn_addr option) \<Rightarrow> qn_http1 \<Rightarrow> qn_http_event \<Rightarrow> qn_http_event" where
  "scan_line parse h ev =
     (if h_line_overflow h \<or> h_line h = [] then ev
      else (let (ok, tb) = qn_http_trace_parse parse (h_line h @ [LF]) in
            if ok \<and> tb_have_colo tb then event_trace ev (tb_colo tb) else ev))"

definition scan_byte :: "(string \<Rightarrow> qn_addr option) \<Rightarrow> char \<Rightarrow> qn_http1 \<times> qn_http_event \<Rightarrow> qn_http1 \<times> qn_http_event" where
  "scan_byte parse c hv =
     (let (h, ev) = hv in
      if c = LF then (h\<lparr>h_line := [], h_line_overflow := False\<rparr>, scan_line parse h ev)
      else if c = CR then (h, ev)
      else if length (h_line h) \<ge> QN_TRACE_LINE_MAX then (h\<lparr>h_line_overflow := True\<rparr>, ev)
      else (h\<lparr>h_line := h_line h @ [c]\<rparr>, ev))"

definition scan_trace :: "(string \<Rightarrow> qn_addr option) \<Rightarrow> string \<Rightarrow> qn_http1 \<times> qn_http_event \<Rightarrow> qn_http1 \<times> qn_http_event" where
  "scan_trace parse p hv = fold (scan_byte parse) p hv"

definition body :: "(string \<Rightarrow> qn_addr option) \<Rightarrow> qn_http1 \<Rightarrow> string \<Rightarrow> qn_http_event \<Rightarrow> qn_http1 \<times> qn_http_event" where
  "body parse h p ev =
     (let h = h\<lparr>h_current_body := h_current_body h + length p, h_total_body := h_total_body h + length p\<rparr>;
          ev = ev\<lparr>he_response_index := h_responses h + 1, he_status := h_status h, he_body_bytes := he_body_bytes ev + length p\<rparr>
      in scan_trace parse p (h, add_fact QN_HTTP_FACT_BODY ev))"

definition reset_response :: "qn_http1 \<Rightarrow> qn_http1" where
  "reset_response h = h\<lparr>h_head := [], h_left := 0, h_current_body := 0, h_status := 0, h_state := H1_HEAD, h_crlf_n := 0,
     h_line := [], h_line_overflow := False\<rparr>"

definition complete :: "qn_http1 \<Rightarrow> qn_http_event \<Rightarrow> qn_http1 \<times> qn_http_event" where
  "complete h ev =
     (let h = h\<lparr>h_responses := h_responses h + 1\<rparr>;
          ev = (add_fact QN_HTTP_FACT_DONE ev)\<lparr>he_response_index := h_responses h, he_status := h_status h\<rparr>
      in (reset_response h, ev))"

section \<open>Heads\<close>

text \<open>The text before and after the first CR LF.\<close>

fun crlf_split :: "string \<Rightarrow> (string \<times> string) option" where
  "crlf_split (a # b # cs) =
     (if a = CR \<and> b = LF then Some ([], cs) else map_option (\<lambda>(l, r). (a # l, r)) (crlf_split (b # cs)))"
| "crlf_split _ = None"

lemma crlf_split_shorter: "crlf_split s = Some (l, r) \<Longrightarrow> length r < length s"
proof (induction s arbitrary: l r rule: crlf_split.induct)
  case (1 a b cs)
  then show ?case by (auto split: if_splits intro: less_SucI)
qed auto

text \<open>What the header fields say: the content length, and the transfer codings if any were given.\<close>

definition head_field :: "string \<Rightarrow> nat option \<times> te_list option \<Rightarrow> (nat option \<times> te_list option) option" where
  "head_field line acc =
     (let (len, te) = acc in
      if CHR '':'' \<notin> set line then None
      else (let name = takeWhile (\<lambda>c. c \<noteq> CHR '':'') line;
                val = dropWhile blank_char (tl (dropWhile (\<lambda>c. c \<noteq> CHR '':'') line))
            in if \<not> token name then None
               else if ascii_eq name ''content-length''
               then (case parse_decimal val of
                       None \<Rightarrow> None
                     | Some v \<Rightarrow> if len \<noteq> None \<and> len \<noteq> Some v then None else Some (Some v, te))
               else if ascii_eq name ''transfer-encoding''
               then Some (len, Some (te_append (case te of None \<Rightarrow> te_zero | Some t \<Rightarrow> t) val))
               else Some (len, te)))"

function head_fields :: "string \<Rightarrow> nat option \<times> te_list option \<Rightarrow> (nat option \<times> te_list option) option" where
  "head_fields s acc =
     (if length s < 2 then Some acc
      else (case crlf_split s of
              None \<Rightarrow> None
            | Some (line, rest) \<Rightarrow>
                if line = [] then Some acc
                else (case head_field line acc of None \<Rightarrow> None | Some acc' \<Rightarrow> head_fields rest acc')))"
  by pat_completeness auto
termination by (relation "measure (\<lambda>(s, acc). length s)") (auto dest: crlf_split_shorter)

declare head_fields.simps [simp del]

text \<open>After the fields: what frames the body.\<close>

definition frame_body :: "qn_http1 \<Rightarrow> qn_http_event \<Rightarrow> nat option \<times> te_list option \<Rightarrow> qn_http1_rc \<times> qn_http1 \<times> qn_http_event" where
  "frame_body h ev acc =
     (let (len, te) = acc in
      if h_status h = 101 then (QN_HTTP1_PROTOCOL, h, ev)
      else if h_status h \<ge> 100 \<and> h_status h < 200 then (QN_HTTP1_OK, reset_response h, add_fact QN_HTTP_FACT_INFORMATIONAL ev)
      else (let ev = add_fact QN_HTTP_FACT_HEADERS ev in
            if h_responses h \<ge> h_opened h then (QN_HTTP1_PROTOCOL, h, ev)
            else if (case te of None \<Rightarrow> False | Some t \<Rightarrow> te_malformed t \<or> te_codings t = 0 \<or> te_chunked_seen t > 1) then (QN_HTTP1_PROTOCOL, h, ev)
            else if te \<noteq> None \<and> len \<noteq> None then (QN_HTTP1_PROTOCOL, h, ev)
            else if h_status h = 204 \<or> h_status h = 304 then (QN_HTTP1_OK, complete h ev)
            else (case te of
                    Some t \<Rightarrow> (QN_HTTP1_OK, h\<lparr>h_state := (if te_chunked_is_last t then H1_CHUNK_SIZE else H1_EOF_BODY)\<rparr>, ev)
                  | None \<Rightarrow>
                      (case len of
                         Some n \<Rightarrow>
                           (let h = h\<lparr>h_left := n, h_state := H1_FIXED\<rparr> in
                            (QN_HTTP1_OK, if n = 0 then complete h ev else (h, ev)))
                       | None \<Rightarrow> (QN_HTTP1_OK, h\<lparr>h_state := H1_EOF_BODY\<rparr>, ev)))))"

definition parse_head :: "(string \<Rightarrow> qn_addr option) \<Rightarrow> qn_http1 \<Rightarrow> qn_http_event \<Rightarrow> qn_http1_rc \<times> qn_http1 \<times> qn_http_event" where
  "parse_head parse h ev =
     (let (ok, rep) = qn_http_parse parse (h_head h) in
      if \<not> ok \<or> \<not> rp_complete rep then (QN_HTTP1_PROTOCOL, h, ev)
      else (let h = h\<lparr>h_status := rp_status rep\<rparr>;
                ev = ev\<lparr>he_status := rp_status rep, he_response_index := h_responses h + 1\<rparr>;
                ev = (if rp_cf_ray rep then add_fact QN_HTTP_FACT_CF_RAY ev else ev);
                ev = (if rp_server_cloudflare rep then add_fact QN_HTTP_FACT_SERVER_CLOUDFLARE ev else ev)
            in case crlf_split (h_head h) of
                 None \<Rightarrow> (QN_HTTP1_PROTOCOL, h, ev)
               | Some (_, flds) \<Rightarrow>
                   (case head_fields flds (None, None) of
                      None \<Rightarrow> (QN_HTTP1_PROTOCOL, h, ev)
                    | Some acc \<Rightarrow> frame_body (h\<lparr>h_head := []\<rparr>) ev acc)))"

definition qn_http1_init :: qn_http1 where
  "qn_http1_init = \<lparr>h_head = [], h_left = 0, h_current_body = 0, h_total_body = 0, h_responses = 0, h_opened = 1, h_status = 0,
     h_state = H1_HEAD, h_crlf_n = 0, h_line = [], h_line_overflow = False\<rparr>"

definition qn_http1_open_response :: "qn_http1 \<Rightarrow> bool \<times> qn_http1" where
  "qn_http1_open_response h =
     (if h_opened h = UINT32_MAX then (False, h) else (True, h\<lparr>h_opened := h_opened h + 1\<rparr>))"

section \<open>Feeding\<close>

definition ends_with :: "string \<Rightarrow> string \<Rightarrow> bool" where
  "ends_with s t \<longleftrightarrow> length t \<le> length s \<and> drop (length s - length t) s = t"

text \<open>
  One round of the loop of \<open>qn_http1_feed\<close> on a nonempty input: the code, the state, the event and
  the input that is left.
\<close>

definition feed_step :: "(string \<Rightarrow> qn_addr option) \<Rightarrow> qn_http1 \<Rightarrow> string \<Rightarrow> qn_http_event \<Rightarrow> qn_http1_rc \<times> qn_http1 \<times> qn_http_event \<times> string" where
  "feed_step parse h inp ev =
     (let push = h\<lparr>h_head := h_head h @ [hd inp]\<rparr>; room = length (h_head h) < QN_HTTP1_HEAD_MAX; now = take (h_left h) inp in
      case h_state h of
        H1_HEAD \<Rightarrow>
          if \<not> room then (QN_HTTP1_SPACE, h, ev, inp)
          else if ends_with (h_head push) (CRLF @ CRLF)
          then (case parse_head parse push ev of (rc, h', ev') \<Rightarrow> (rc, h', ev', tl inp))
          else (QN_HTTP1_OK, push, ev, tl inp)
      | H1_FIXED \<Rightarrow>
          (case body parse h now ev of
             (h1, ev1) \<Rightarrow>
               (let h2 = h1\<lparr>h_left := h_left h1 - length now\<rparr>;
                    (h3, ev3) = (if h_left h2 = 0 then complete h2 ev1 else (h2, ev1))
                in (QN_HTTP1_OK, h3, ev3, drop (h_left h) inp)))
      | H1_CHUNK_SIZE \<Rightarrow>
          if \<not> room then (QN_HTTP1_SPACE, h, ev, inp)
          else if ends_with (h_head push) CRLF
          then (case parse_hex_line (take (length (h_head push) - 2) (h_head push)) of
                  None \<Rightarrow> (QN_HTTP1_PROTOCOL, push, ev, tl inp)
                | Some n \<Rightarrow> (QN_HTTP1_OK, push\<lparr>h_left := n, h_head := [], h_state := (if n \<noteq> 0 then H1_CHUNK_DATA else H1_TRAILERS)\<rparr>, ev, tl inp))
          else (QN_HTTP1_OK, push, ev, tl inp)
      | H1_CHUNK_DATA \<Rightarrow>
          (case body parse h now ev of
             (h1, ev1) \<Rightarrow>
               (let h2 = h1\<lparr>h_left := h_left h1 - length now\<rparr>
                in (QN_HTTP1_OK, if h_left h2 = 0 then h2\<lparr>h_state := H1_CHUNK_CRLF, h_crlf_n := 0\<rparr> else h2, ev1, drop (h_left h) inp)))
      | H1_CHUNK_CRLF \<Rightarrow>
          if hd inp \<noteq> (if h_crlf_n h \<noteq> 0 then LF else CR) then (QN_HTTP1_PROTOCOL, h, ev, inp)
          else (let h = h\<lparr>h_crlf_n := h_crlf_n h + 1\<rparr>
                in (QN_HTTP1_OK, if h_crlf_n h = 2 then h\<lparr>h_head := [], h_state := H1_CHUNK_SIZE\<rparr> else h, ev, tl inp))
      | H1_TRAILERS \<Rightarrow>
          if \<not> room then (QN_HTTP1_SPACE, h, ev, inp)
          else if h_head push = CRLF then (case complete push ev of (h', ev') \<Rightarrow> (QN_HTTP1_OK, h', ev', tl inp))
          else if ends_with (h_head push) (CRLF @ CRLF)
          then (case complete push (add_fact QN_HTTP_FACT_TRAILERS ev) of (h', ev') \<Rightarrow> (QN_HTTP1_OK, h', ev', tl inp))
          else (QN_HTTP1_OK, push, ev, tl inp)
      | H1_EOF_BODY \<Rightarrow> (case body parse h inp ev of (h', ev') \<Rightarrow> (QN_HTTP1_OK, h', ev', [])))"

definition feed_measure :: "qn_http1 \<Rightarrow> string \<Rightarrow> nat" where
  "feed_measure h inp = 2 * length inp + (if (h_state h = H1_FIXED \<or> h_state h = H1_CHUNK_DATA) \<and> h_left h = 0 then 1 else 0)"

lemma scan_trace_frame [simp]:
  "h_state (fst (scan_trace parse p (h, ev))) = h_state h" "h_left (fst (scan_trace parse p (h, ev))) = h_left h"
  "h_status (fst (scan_trace parse p (h, ev))) = h_status h" "h_responses (fst (scan_trace parse p (h, ev))) = h_responses h"
  by (induction p arbitrary: h ev) (auto simp: scan_trace_def scan_byte_def Let_def split: prod.splits)

lemma body_frame [simp]:
  "h_state (fst (body parse h p ev)) = h_state h" "h_left (fst (body parse h p ev)) = h_left h"
  "h_status (fst (body parse h p ev)) = h_status h" "h_responses (fst (body parse h p ev)) = h_responses h"
  by (simp_all add: body_def Let_def)

lemma complete_state [simp]: "h_state (fst (complete h ev)) = H1_HEAD"
  by (simp add: complete_def reset_response_def Let_def)

lemma feed_step_measure:
  assumes "inp \<noteq> []" "feed_step parse h inp ev = (QN_HTTP1_OK, h', ev', rest)"
  shows "feed_measure h' rest < feed_measure h inp"
proof -
  obtain c cs where c: "inp = c # cs" using assms(1) by (cases inp) auto
  have one: "feed_measure h' cs < feed_measure h inp" by (simp add: feed_measure_def c)
  obtain h1 ev1 where b: "body parse h (take (h_left h) inp) ev = (h1, ev1)" by force
  have b1: "h_state h1 = h_state h" "h_left h1 = h_left h" using body_frame [of parse h "take (h_left h) inp" ev] b by simp_all
  let ?h2 = "h1\<lparr>h_left := h_left h1 - length (take (h_left h) inp)\<rparr>"
  have z: "h_left ?h2 = 0 \<longleftrightarrow> h_left h \<le> length inp" using b1 by auto
  consider (fixed) "h_state h = H1_FIXED" | (data) "h_state h = H1_CHUNK_DATA" | (other) "h_state h \<noteq> H1_FIXED" "h_state h \<noteq> H1_CHUNK_DATA" by blast
  then show ?thesis
  proof cases
    case fixed
    have "feed_step parse h inp ev = (let q = (if h_left ?h2 = 0 then complete ?h2 ev1 else (?h2, ev1)) in (QN_HTTP1_OK, fst q, snd q, drop (h_left h) inp))"
      by (simp add: feed_step_def fixed b Let_def split: prod.splits)
    then have "rest = drop (h_left h) inp" "h_left h \<le> length inp \<longrightarrow> h_state h' = H1_HEAD"
      using assms(2) z by (auto simp: Let_def)
    then show ?thesis using fixed c by (auto simp: feed_measure_def)
  next
    case data
    have "rest = drop (h_left h) inp" "h_left h \<le> length inp \<longrightarrow> h_state h' = H1_CHUNK_CRLF"
      using assms(2) z by (auto simp: feed_step_def data b Let_def)
    then show ?thesis using data c by (auto simp: feed_measure_def)
  next
    case other
    then have "rest = cs \<or> rest = []"
      using assms c by (auto simp: feed_step_def Let_def split: h1_state.splits prod.splits if_splits option.splits)
    then show ?thesis using one by (auto simp: feed_measure_def c)
  qed
qed

function feed_loop1 :: "(string \<Rightarrow> qn_addr option) \<Rightarrow> qn_http1 \<Rightarrow> string \<Rightarrow> qn_http_event \<Rightarrow> qn_http1_rc \<times> qn_http1 \<times> qn_http_event" where
  "feed_loop1 parse h inp ev =
     (if inp = [] then (QN_HTTP1_OK, h, ev)
      else (case feed_step parse h inp ev of
              (rc, h', ev', rest) \<Rightarrow> if rc \<noteq> QN_HTTP1_OK then (rc, h', ev') else feed_loop1 parse h' rest ev'))"
  by pat_completeness auto
termination
  by (relation "measure (\<lambda>(parse, h, inp, ev). feed_measure h inp)") (auto intro: feed_step_measure [OF _ sym])

declare feed_loop1.simps [simp del]

definition qn_http1_feed :: "(string \<Rightarrow> qn_addr option) \<Rightarrow> qn_http1 \<Rightarrow> string \<Rightarrow> qn_http1_rc \<times> qn_http1 \<times> qn_http_event" where
  "qn_http1_feed parse h inp = feed_loop1 parse h inp event_zero"

definition qn_http1_eof :: "qn_http1 \<Rightarrow> qn_http1_rc \<times> qn_http1 \<times> qn_http_event" where
  "qn_http1_eof h =
     (if h_state h = H1_EOF_BODY then (case complete h event_zero of (h', ev) \<Rightarrow> (QN_HTTP1_OK, h', ev))
      else (if h_state h = H1_HEAD \<and> h_head h = [] then QN_HTTP1_OK else QN_HTTP1_PROTOCOL, h, event_zero))"

end
