(* ===== verification/Http1_Frame.thy ===== *)
theory Http1_Frame
  imports Http1
begin

text \<open>
  Laws of the HTTP/1.1 reader of theory \<open>Http1\<close>: the answer does not depend on how the input is cut
  into pieces, the body framings end where the sender put the end, and the trace marker needs a
  complete line of its own.
\<close>

section \<open>Events add up\<close>

definition merge_event :: "qn_http_event \<Rightarrow> qn_http_event \<Rightarrow> qn_http_event" where
  "merge_event a b = \<lparr>he_flags = he_flags a OR he_flags b,
     he_response_index = (if he_response_index b \<noteq> 0 then he_response_index b else he_response_index a),
     he_body_bytes = he_body_bytes a + he_body_bytes b,
     he_status = (if he_response_index b \<noteq> 0 then he_status b else he_status a),
     he_colo = (if he_colo b \<noteq> [] then he_colo b else he_colo a)\<rparr>"

lemma merge_zero [simp]: "merge_event a event_zero = a" "he_response_index a \<noteq> 0 \<or> he_status a = 0 \<Longrightarrow> merge_event event_zero a = a"
  by (simp add: merge_event_def event_zero_def, cases a, auto simp: merge_event_def event_zero_def)

lemma merge_add_fact: "add_fact f (merge_event a b) = merge_event a (add_fact f b)"
  by (simp add: add_fact_def merge_event_def or.assoc)

lemma merge_event_trace: "event_trace (merge_event a b) c = merge_event a (event_trace b c)"
  by (simp add: event_trace_def Let_def add_fact_def merge_event_def or.assoc)

lemma merge_index:
  "n \<noteq> 0 \<Longrightarrow> (merge_event a b)\<lparr>he_response_index := n, he_status := st\<rparr> = merge_event a (b\<lparr>he_response_index := n, he_status := st\<rparr>)"
  "n \<noteq> 0 \<Longrightarrow> (merge_event a b)\<lparr>he_status := st, he_response_index := n\<rparr> = merge_event a (b\<lparr>he_status := st, he_response_index := n\<rparr>)"
  by (simp_all add: merge_event_def)

lemma merge_scan_byte:
  "scan_byte parse c (h, merge_event a b) = (let (h', b') = scan_byte parse c (h, b) in (h', merge_event a b'))"
  by (simp add: scan_byte_def scan_line_def Let_def merge_event_trace split: prod.splits)

lemma merge_scan_trace:
  "scan_trace parse p (h, merge_event a b) = (let (h', b') = scan_trace parse p (h, b) in (h', merge_event a b'))"
proof (induction p arbitrary: h b)
  case (Cons c p)
  obtain h1 b1 where "scan_byte parse c (h, b) = (h1, b1)" by force
  then show ?case using Cons [of h1 b1] by (simp add: scan_trace_def merge_scan_byte)
qed (simp add: scan_trace_def)

lemma merge_body: "body parse h p (merge_event a b) = (let (h', b') = body parse h p b in (h', merge_event a b'))"
proof -
  have "(merge_event a b)\<lparr>he_response_index := h_responses h + 1, he_status := h_status h, he_body_bytes := he_body_bytes (merge_event a b) + length p\<rparr> =
    merge_event a (b\<lparr>he_response_index := h_responses h + 1, he_status := h_status h, he_body_bytes := he_body_bytes b + length p\<rparr>)"
    by (simp add: merge_event_def)
  then show ?thesis by (simp add: body_def Let_def merge_add_fact merge_scan_trace)
qed

lemma merge_complete: "complete h (merge_event a b) = (let (h', b') = complete h b in (h', merge_event a b'))"
  by (simp add: complete_def Let_def merge_add_fact merge_index)

lemma merge_frame_body:
  "frame_body h (merge_event a b) acc = (let (rc, h', b') = frame_body h b acc in (rc, h', merge_event a b'))"
  by (cases acc) (auto simp: frame_body_def Let_def merge_add_fact merge_complete split: prod.splits option.splits)

lemma merge_parse_head:
  "parse_head parse h (merge_event a b) = (let (rc, h', b') = parse_head parse h b in (rc, h', merge_event a b'))"
  by (simp add: parse_head_def Let_def merge_add_fact merge_index merge_frame_body split: prod.splits option.splits)

lemma merge_feed_step:
  "feed_step parse h inp (merge_event a b) = (let (rc, h', b', rest) = feed_step parse h inp b in (rc, h', merge_event a b', rest))"
  by (cases "h_state h") (simp_all add: feed_step_def Let_def merge_add_fact merge_complete merge_parse_head merge_body split: prod.splits option.splits)

lemma merge_feed_loop:
  "feed_loop1 parse h inp (merge_event a b) = (let (rc, h', b') = feed_loop1 parse h inp b in (rc, h', merge_event a b'))"
proof (induction parse h inp b rule: feed_loop1.induct)
  case (1 parse h inp b)
  show ?case
  proof (cases "inp = []")
    case True
    then show ?thesis by (simp add: feed_loop1.simps [of _ _ "[]"])
  next
    case False
    obtain rc h' b' rest where s: "feed_step parse h inp b = (rc, h', b', rest)" by (metis prod.exhaust)
    have "rc = QN_HTTP1_OK \<Longrightarrow> feed_loop1 parse h' rest (merge_event a b') = (let (rc, h', b') = feed_loop1 parse h' rest b' in (rc, h', merge_event a b'))"
      using 1 [OF False s [symmetric] refl refl] by simp
    then show ?thesis
      using False by (subst (1 2) feed_loop1.simps) (simp add: merge_feed_step s)
  qed
qed

lemma feed_loop_zero:
  "feed_loop1 parse h inp ev = (let (rc, h', b') = feed_loop1 parse h inp event_zero in (rc, h', merge_event ev b'))"
  using merge_feed_loop [of parse h inp ev event_zero] by simp

section \<open>Pieces\<close>

lemma scan_trace_append: "scan_trace parse (p @ q) hv = scan_trace parse q (scan_trace parse p hv)"
  by (simp add: scan_trace_def)

lemma scan_byte_left:
  "scan_byte parse c (h\<lparr>h_left := n\<rparr>, ev) = (let (h', ev') = scan_byte parse c (h, ev) in (h'\<lparr>h_left := n\<rparr>, ev'))"
  by (simp add: scan_byte_def scan_line_def Let_def split: prod.splits)

lemma scan_trace_left:
  "scan_trace parse p (h\<lparr>h_left := n\<rparr>, ev) = (let (h', ev') = scan_trace parse p (h, ev) in (h'\<lparr>h_left := n\<rparr>, ev'))"
proof (induction p arbitrary: h ev)
  case (Cons c p)
  obtain h1 b1 where "scan_byte parse c (h, ev) = (h1, b1)" by force
  then show ?case using Cons [of h1 b1] by (simp add: scan_trace_def scan_byte_left)
qed (simp add: scan_trace_def)

definition bump :: "nat \<Rightarrow> qn_http1 \<Rightarrow> qn_http1" where
  "bump n h = h\<lparr>h_current_body := h_current_body h + n, h_total_body := h_total_body h + n\<rparr>"

definition body_event :: "qn_http1 \<Rightarrow> nat \<Rightarrow> qn_http_event \<Rightarrow> qn_http_event" where
  "body_event h n ev = add_fact QN_HTTP_FACT_BODY
     (ev\<lparr>he_response_index := h_responses h + 1, he_status := h_status h, he_body_bytes := he_body_bytes ev + n\<rparr>)"

lemma body_eq: "body parse h p ev = scan_trace parse p (bump (length p) h, body_event h (length p) ev)"
  by (simp add: body_def bump_def body_event_def Let_def)

lemma bump_left: "bump n (h\<lparr>h_left := m\<rparr>) = (bump n h)\<lparr>h_left := m\<rparr>" "bump m (bump n h) = bump (n + m) h"
  "body_event (h\<lparr>h_left := m\<rparr>) n ev = body_event h n ev" "body_event (bump m h) n ev = body_event h n ev"
  by (simp_all add: bump_def body_event_def add.assoc)

lemma body_left: "body parse (h\<lparr>h_left := n\<rparr>) p ev = (let (h', ev') = body parse h p ev in (h'\<lparr>h_left := n\<rparr>, ev'))"
  by (simp only: body_eq bump_left scan_trace_left)

lemma scan_byte_bump: "scan_byte parse c (bump n h, ev) = (let (h', ev') = scan_byte parse c (h, ev) in (bump n h', ev'))"
  by (simp add: scan_byte_def scan_line_def bump_def Let_def split: prod.splits)

lemma scan_trace_bump: "scan_trace parse p (bump n h, ev) = (let (h', ev') = scan_trace parse p (h, ev) in (bump n h', ev'))"
proof (induction p arbitrary: h ev)
  case (Cons c p)
  obtain h1 b1 where "scan_byte parse c (h, ev) = (h1, b1)" by force
  then show ?case using Cons [of h1 b1] by (simp add: scan_trace_def scan_byte_bump)
qed (simp add: scan_trace_def)

lemma event_cong:
  "h_responses h = h_responses h' \<Longrightarrow> h_status h = h_status h' \<Longrightarrow> body_event h n ev = body_event h' n ev"
  by (simp add: body_event_def)

lemma body_event_trace: "body_event h n (merge_event (body_event h m ev) b) = merge_event (body_event h (m + n) ev) b"
  if "he_response_index b = 0" for b
  using that by (simp add: body_event_def add_fact_def merge_event_def or.assoc or.left_commute ac_simps)

text \<open>Scanning only adds the marker to an event.\<close>

lemma scan_trace_zero:
  "scan_trace parse p (h, ev) = (fst (scan_trace parse p (h, event_zero)), merge_event ev (snd (scan_trace parse p (h, event_zero))))"
  using merge_scan_trace [of parse p h ev event_zero] by (simp add: case_prod_beta Let_def)

lemma scan_trace_index: "he_response_index (snd (scan_trace parse p (h, ev))) = he_response_index ev"
  by (induction p arbitrary: h ev)
    (auto simp: scan_trace_def scan_byte_def scan_line_def event_trace_def add_fact_def Let_def split: prod.splits)

lemma body_append:
  "body parse h (p @ q) ev = (let (h', ev') = body parse h p ev in body parse h' q ev')"
proof -
  define h0 b where "h0 = fst (scan_trace parse p (h, event_zero))" and "b = snd (scan_trace parse p (h, event_zero))"
  have z: "scan_trace parse p (bump n h, e) = (bump n h0, merge_event e b)" for n e
    using scan_trace_bump [of parse p n h e] scan_trace_zero [of parse p h e] by (simp add: h0_def b_def)
  have "he_response_index b = 0" by (simp add: b_def scan_trace_index) (simp add: event_zero_def)
  then have m: "body_event h (length q) (merge_event (body_event h (length p) ev) b) = merge_event (body_event h (length p + length q) ev) b"
    by (rule body_event_trace)
  have c: "body_event h0 k e = body_event h k e" for k e
    by (rule event_cong) (simp_all add: h0_def)
  show ?thesis by (simp add: body_eq z scan_trace_append bump_left c m)
qed

lemma feed_step_short:
  assumes a: "a \<noteq> []" and s: "h_state h = H1_FIXED \<or> h_state h = H1_CHUNK_DATA \<longrightarrow> h_left h \<le> length a" "h_state h \<noteq> H1_EOF_BODY"
  shows "feed_step parse h (a @ b) ev = (let (rc, h', ev', rest) = feed_step parse h a ev in (rc, h', ev', rest @ b))"
  using assms by (cases "h_state h") (simp_all add: feed_step_def Let_def split: prod.splits option.splits)

text \<open>What happens after a piece of a body of known length.\<close>

definition block_end :: "h1_state \<Rightarrow> qn_http1 \<Rightarrow> qn_http_event \<Rightarrow> qn_http1 \<times> qn_http_event" where
  "block_end st h ev =
     (if h_left h \<noteq> 0 then (h, ev)
      else if st = H1_FIXED then complete h ev else (h\<lparr>h_state := H1_CHUNK_CRLF, h_crlf_n := 0\<rparr>, ev))"

lemma feed_step_block:
  assumes "h_state h = H1_FIXED \<or> h_state h = H1_CHUNK_DATA" "body parse h (take (h_left h) inp) ev = (h1, e1)"
  shows "feed_step parse h inp ev =
    (let q = block_end (h_state h) (h1\<lparr>h_left := h_left h - length (take (h_left h) inp)\<rparr>) e1 in (QN_HTTP1_OK, fst q, snd q, drop (h_left h) inp))"
proof -
  have "h_left h1 = h_left h" using body_frame(2) [of parse h "take (h_left h) inp" ev] assms(2) by simp
  then show ?thesis using assms(2)
    by (cases "h_state h = H1_FIXED") (use assms(1) in \<open>simp_all add: feed_step_def block_end_def Let_def case_prod_beta del: length_take\<close>)
qed

lemma feed_step_long:
  assumes b: "a \<noteq> []" "b \<noteq> []" and s: "(h_state h = H1_FIXED \<or> h_state h = H1_CHUNK_DATA) \<and> length a < h_left h \<or> h_state h = H1_EOF_BODY"
  shows "\<exists>h' ev'. feed_step parse h a ev = (QN_HTTP1_OK, h', ev', []) \<and> feed_step parse h (a @ b) ev = feed_step parse h' b ev'"
proof -
  obtain h1 e1 where p: "body parse h a ev = (h1, e1)" by force
  obtain h2 e2 where q: "body parse h1 (take (h_left h - length a) b) e1 = (h2, e2)" by force
  have st: "h_state h1 = h_state h" "h_left h1 = h_left h" "h_left h2 = h_left h"
    using body_frame [of parse h a ev] body_frame [of parse h1 "take (h_left h - length a) b" e1] p q by simp_all
  show ?thesis
  proof (cases "h_state h = H1_EOF_BODY")
    case True
    then show ?thesis using p st body_append [of parse h a b ev] by (simp add: feed_step_def split: prod.splits)
  next
    case False
    then have l: "length a < h_left h" and fd: "h_state h = H1_FIXED \<or> h_state h = H1_CHUNK_DATA" using s by auto
    let ?h = "h1\<lparr>h_left := h_left h - length a\<rparr>"
    have one: "feed_step parse h a ev = (QN_HTTP1_OK, ?h, e1, [])"
      using feed_step_block [OF fd, of parse a ev h1 e1] l p by (simp add: block_end_def)
    have w: "body parse h (take (h_left h) (a @ b)) ev = (h2, e2)" using p q l by (simp add: body_append)
    have r: "body parse ?h (take (h_left ?h) b) e1 = (h2\<lparr>h_left := h_left h - length a\<rparr>, e2)" using q by (simp add: body_left)
    have fd': "h_state ?h = H1_FIXED \<or> h_state ?h = H1_CHUNK_DATA" using fd st by simp
    have n: "h_left h - length (take (h_left h) (a @ b)) = h_left ?h - length (take (h_left ?h) b)" using l by simp
    have "feed_step parse h (a @ b) ev = feed_step parse ?h b e1"
      unfolding feed_step_block [OF fd w] feed_step_block [OF fd' r] n using st l by simp
    then show ?thesis using one by blast
  qed
qed

lemma feed_loop1_append:
  "feed_loop1 parse h (a @ b) ev =
     (let (rc, h', ev') = feed_loop1 parse h a ev in if rc \<noteq> QN_HTTP1_OK then (rc, h', ev') else feed_loop1 parse h' b ev')"
proof (induction parse h a ev rule: feed_loop1.induct)
  case (1 parse h a ev)
  show ?case
  proof (cases "a = [] \<or> b = []")
    case True
    then show ?thesis by (auto simp: feed_loop1.simps [of _ _ "[]"] split: prod.splits)
  next
    case False
    then have a: "a \<noteq> []" and b: "b \<noteq> []" by auto
    show ?thesis
    proof (cases "(h_state h = H1_FIXED \<or> h_state h = H1_CHUNK_DATA) \<and> length a < h_left h \<or> h_state h = H1_EOF_BODY")
      case True
      then obtain h' ev' where s: "feed_step parse h a ev = (QN_HTTP1_OK, h', ev', [])" "feed_step parse h (a @ b) ev = feed_step parse h' b ev'"
        using feed_step_long [OF a b] by blast
      have "feed_loop1 parse h a ev = (QN_HTTP1_OK, h', ev')"
        using a s(1) by (subst feed_loop1.simps) (simp add: feed_loop1.simps [of _ _ "[]"])
      moreover have "feed_loop1 parse h (a @ b) ev = feed_loop1 parse h' b ev'"
        using a b s(2) by (subst (1 2) feed_loop1.simps) simp
      ultimately show ?thesis by simp
    next
      case False
      obtain rc h' ev' rest where s: "feed_step parse h a ev = (rc, h', ev', rest)" by (metis prod.exhaust)
      have sa: "feed_step parse h (a @ b) ev = (rc, h', ev', rest @ b)"
        using feed_step_short [OF a, of h parse b ev] False s by auto
      have "feed_loop1 parse h a ev = (if rc \<noteq> QN_HTTP1_OK then (rc, h', ev') else feed_loop1 parse h' rest ev')"
        using a s by (subst feed_loop1.simps) simp
      moreover have "feed_loop1 parse h (a @ b) ev = (if rc \<noteq> QN_HTTP1_OK then (rc, h', ev') else feed_loop1 parse h' (rest @ b) ev')"
        using a sa by (subst feed_loop1.simps) simp
      moreover have "rc = QN_HTTP1_OK \<Longrightarrow> feed_loop1 parse h' (rest @ b) ev' =
        (let (rc, h', ev') = feed_loop1 parse h' rest ev' in if rc \<noteq> QN_HTTP1_OK then (rc, h', ev') else feed_loop1 parse h' b ev')"
        using 1 [OF a s [symmetric] refl refl] by simp
      ultimately show ?thesis by simp
    qed
  qed
qed

text \<open>Feeding pieces one after the other, up to the first error, and adding up the events.\<close>

fun feed_chunks :: "(string \<Rightarrow> qn_addr option) \<Rightarrow> qn_http1 \<Rightarrow> string list \<Rightarrow> qn_http1_rc \<times> qn_http1 \<times> qn_http_event" where
  "feed_chunks parse h [] = (QN_HTTP1_OK, h, event_zero)"
| "feed_chunks parse h (c # cs) =
     (case qn_http1_feed parse h c of
        (rc, h', ev) \<Rightarrow>
          if rc \<noteq> QN_HTTP1_OK then (rc, h', ev)
          else (case feed_chunks parse h' cs of (rc2, h2, ev2) \<Rightarrow> (rc2, h2, merge_event ev ev2)))"

section \<open>Theorems\<close>

text \<open>
  Property C24.  How the network cuts the response into pieces does not matter to \<^verbatim>\<open>qn_http1_feed\<close>: feeding the pieces one
  by one gives the same code and the same state as feeding all bytes at once, and the events of
  the pieces add up to the event of the whole.
\<close>

theorem http1_any_pieces: "feed_chunks parse h chunks = qn_http1_feed parse h (concat chunks)"
proof (induction chunks arbitrary: h)
  case Nil
  show ?case by (simp add: qn_http1_feed_def feed_loop1.simps [of _ _ "[]"])
next
  case (Cons c cs)
  obtain rc h' ev where f: "qn_http1_feed parse h c = (rc, h', ev)" by (metis prod.exhaust)
  obtain rc2 h2 ev2 where g: "qn_http1_feed parse h' (concat cs) = (rc2, h2, ev2)" by (metis prod.exhaust)
  then have "feed_loop1 parse h' (concat cs) ev = (rc2, h2, merge_event ev ev2)"
    using feed_loop_zero [of parse h' "concat cs" ev] by (simp add: qn_http1_feed_def)
  then show ?case using f g Cons [of h'] by (simp add: qn_http1_feed_def feed_loop1_append)
qed

end
