(* ===== verification/Http1_Body.thy ===== *)
theory Http1_Body
  imports Http1_Frame
begin

text \<open>
  What the HTTP/1.1 reader reports about a body: how many bytes it had, where it ended, and whether
  one of its complete lines was the trace marker.  \<open>chunk_stream\<close> is the chunked coding of a list
  of pieces, as a sender writes it.
\<close>

section \<open>Lines of a body\<close>

text \<open>The complete lines of a text, without carriage returns; \<open>cur\<close> is the line begun before it.\<close>

fun complete_lines :: "string \<Rightarrow> string \<Rightarrow> string list" where
  "complete_lines cur [] = []"
| "complete_lines cur (c # cs) =
     (if c = LF then cur # complete_lines [] cs else if c = CR then complete_lines cur cs else complete_lines (cur @ [c]) cs)"

fun open_line :: "string \<Rightarrow> string \<Rightarrow> string" where
  "open_line cur [] = cur"
| "open_line cur (c # cs) = (if c = LF then open_line [] cs else if c = CR then open_line cur cs else open_line (cur @ [c]) cs)"

lemma complete_lines_append: "complete_lines cur (p @ q) = complete_lines cur p @ complete_lines (open_line cur p) q"
  by (induction cur p rule: complete_lines.induct) simp_all

lemma open_line_append: "open_line cur (p @ q) = open_line (open_line cur p) q"
  by (induction cur p rule: open_line.induct) simp_all

definition marked :: "qn_http_event \<Rightarrow> bool" where "marked ev \<longleftrightarrow> has_fact ev QN_HTTP_FACT_TRACE_COLO"

definition line_inv :: "string \<Rightarrow> qn_http1 \<Rightarrow> bool" where
  "line_inv cur h \<longleftrightarrow> h_line h = take QN_TRACE_LINE_MAX cur \<and> (h_line_overflow h \<longleftrightarrow> QN_TRACE_LINE_MAX < length cur) \<and> LF \<notin> set cur \<and> CR \<notin> set cur"

lemma or_and_same: "(x OR f) AND f = (f :: u32)"
  by (rule bit_word_eqI) (auto simp: bit_simps)

lemma marked_event_trace [simp]: "marked (event_trace ev colo)"
  by (simp add: marked_def has_fact_def event_trace_def add_fact_def Let_def or_and_same)

lemma has_fact_other: "f AND g = 0 \<Longrightarrow> has_fact (add_fact f ev) g = has_fact ev g"
  by (simp add: has_fact_def add_fact_def bit.conj_disj_distrib2)

lemma has_fact_same: "f \<noteq> 0 \<Longrightarrow> has_fact (add_fact f ev) f"
  by (simp add: has_fact_def add_fact_def or_and_same)

lemma marked_add_fact [simp]: "marked (add_fact QN_HTTP_FACT_BODY ev) = marked ev" "marked (add_fact QN_HTTP_FACT_DONE ev) = marked ev"
  "marked (add_fact QN_HTTP_FACT_HEADERS ev) = marked ev"
  "marked (add_fact QN_HTTP_FACT_CF_RAY ev) = marked ev" "marked (add_fact QN_HTTP_FACT_SERVER_CLOUDFLARE ev) = marked ev"
  by (simp_all add: marked_def has_fact_other)

lemma marked_update [simp]: "marked (ev\<lparr>he_response_index := i\<rparr>) = marked ev" "marked (ev\<lparr>he_status := s\<rparr>) = marked ev"
  "marked (ev\<lparr>he_body_bytes := n\<rparr>) = marked ev"
  by (simp_all add: marked_def has_fact_def)

lemma trace_parse_colo: "fst (qn_http_trace_parse parse b) \<Longrightarrow> tb_have_colo (snd (qn_http_trace_parse parse b))"
proof -
  have "fst (trace_loop parse b tb) \<longrightarrow> tb_have_colo (snd (trace_loop parse b tb))" for tb
  proof (induction parse b tb rule: trace_loop.induct)
    case (1 parse b tb)
    show ?case
    proof (cases "LF \<in> set b")
      case False
      then show ?thesis by (subst (1 2) trace_loop.simps) simp
    next
      case True
      then show ?thesis using 1(1) [OF _ refl refl refl] 1(2) [OF _ refl refl refl]
        by (subst (1 2) trace_loop.simps) (auto simp: Let_def split: sum.splits)
    qed
  qed
  then show "fst (qn_http_trace_parse parse b) \<Longrightarrow> tb_have_colo (snd (qn_http_trace_parse parse b))"
    by (simp add: qn_http_trace_parse_def)
qed

lemma scan_line_marked:
  assumes "line_inv cur h"
  shows "marked (scan_line parse h ev) \<longleftrightarrow> marked ev \<or> colo_line cur"
proof (cases "QN_TRACE_LINE_MAX < length cur \<or> cur = []")
  case True
  then show ?thesis using assms by (auto simp: scan_line_def line_inv_def colo_line_def)
next
  case False
  then have l: "h_line h = cur" "\<not> h_line_overflow h" "cur \<noteq> []" "LF \<notin> set cur" "CR \<notin> set cur" using assms by (auto simp: line_inv_def)
  have "fst (qn_http_trace_parse parse (cur @ [LF])) \<longleftrightarrow> colo_line cur" by (rule trace_single) (use l in auto)
  then show ?thesis using l trace_parse_colo [of parse "cur @ [LF]"]
    by (auto simp: scan_line_def Let_def split: prod.splits)
qed

lemma scan_trace_lines:
  "line_inv cur h \<Longrightarrow> line_inv (open_line cur p) (fst (scan_trace parse p (h, ev))) \<and>
    (marked (snd (scan_trace parse p (h, ev))) \<longleftrightarrow> marked ev \<or> list_ex colo_line (complete_lines cur p))"
proof (induction p arbitrary: cur h ev)
  case (Cons c p)
  obtain h1 e1 where s: "scan_byte parse c (h, ev) = (h1, e1)" by force
  consider "c = LF" | "c = CR" | "c \<noteq> LF" "c \<noteq> CR" by blast
  then show ?case
  proof cases
    case 1
    then have "line_inv [] h1" "marked e1 \<longleftrightarrow> marked ev \<or> colo_line cur"
      using s scan_line_marked [OF Cons.prems, of parse ev] by (auto simp: scan_byte_def line_inv_def)
    then show ?thesis using Cons.IH [of "[]" h1 e1] s 1 by (simp add: scan_trace_def)
  next
    case 2
    then show ?thesis using Cons.IH [of cur h ev] Cons.prems by (simp add: scan_trace_def scan_byte_def)
  next
    case 3
    then have "line_inv (cur @ [c]) h1" "e1 = ev"
      using s Cons.prems by (auto simp: scan_byte_def line_inv_def split: if_splits)
    then show ?thesis using Cons.IH [of "cur @ [c]" h1 e1] s 3 by (simp add: scan_trace_def)
  qed
qed (simp add: scan_trace_def)

lemma scan_trace_keeps:
  "h_head (fst (scan_trace parse p (h, ev))) = h_head h" "h_crlf_n (fst (scan_trace parse p (h, ev))) = h_crlf_n h"
  "h_opened (fst (scan_trace parse p (h, ev))) = h_opened h" "he_body_bytes (snd (scan_trace parse p (h, ev))) = he_body_bytes ev"
  by (induction p arbitrary: h ev)
    (auto simp: scan_trace_def scan_byte_def scan_line_def event_trace_def add_fact_def Let_def split: prod.splits)

lemma body_lines:
  assumes "line_inv cur h" "body parse h p ev = (h', ev')"
  shows "line_inv (open_line cur p) h'" "marked ev' \<longleftrightarrow> marked ev \<or> list_ex colo_line (complete_lines cur p)"
    "he_body_bytes ev' = he_body_bytes ev + length p" "h_head h' = h_head h" "h_crlf_n h' = h_crlf_n h" "h_opened h' = h_opened h"
    "h_state h' = h_state h" "h_left h' = h_left h" "h_status h' = h_status h" "h_responses h' = h_responses h"
proof -
  have b: "scan_trace parse p (bump (length p) h, body_event h (length p) ev) = (h', ev')" using assms(2) by (simp add: body_eq)
  have i: "line_inv cur (bump (length p) h)" using assms(1) by (simp add: line_inv_def bump_def)
  have m: "marked (body_event h (length p) ev) = marked ev" "he_body_bytes (body_event h (length p) ev) = he_body_bytes ev + length p"
    by (simp_all add: body_event_def) (simp add: add_fact_def)
  show "line_inv (open_line cur p) h'" "marked ev' \<longleftrightarrow> marked ev \<or> list_ex colo_line (complete_lines cur p)"
    using scan_trace_lines [OF i, of p parse "body_event h (length p) ev"] b m by simp_all
  show "he_body_bytes ev' = he_body_bytes ev + length p" "h_head h' = h_head h" "h_crlf_n h' = h_crlf_n h" "h_opened h' = h_opened h"
    using scan_trace_keeps [of parse p "bump (length p) h" "body_event h (length p) ev"] b m by (simp_all add: bump_def)
  show "h_state h' = h_state h" "h_left h' = h_left h" "h_status h' = h_status h" "h_responses h' = h_responses h"
    using body_frame [of parse h p ev] assms(2) by simp_all
qed

section \<open>Chunks\<close>

definition hex_char :: "nat \<Rightarrow> char" where
  "hex_char n = (if n < 10 then digit_char n else char_of (87 + n))"

fun hex :: "nat \<Rightarrow> string" where
  "hex n = (if n < 16 then [hex_char n] else hex (n div 16) @ [hex_char (n mod 16)])"

declare hex.simps [simp del]

definition chunk_text :: "string \<Rightarrow> string" where
  "chunk_text d = hex (length d) @ CRLF @ d @ CRLF"

definition chunk_stream :: "string list \<Rightarrow> string" where
  "chunk_stream ds = concat (map chunk_text ds) @ ''0'' @ CRLF @ CRLF"

lemma hex_char_value: "n < 16 \<Longrightarrow> hex_value (hex_char n) = Some n"
  by (auto simp: hex_char_def hex_value_def is_digit_def)

lemma hex_char_plain: "n < 16 \<Longrightarrow> 48 \<le> code (hex_char n)" by (auto simp: hex_char_def)

lemma hex_char_other: "n < 16 \<Longrightarrow> hex_char n \<noteq> CHR '';'' \<and> hex_char n \<noteq> CHR '' '' \<and> hex_char n \<noteq> TAB \<and> hex_char n \<noteq> LF \<and> hex_char n \<noteq> CR"
proof -
  assume n: "n < 16"
  have "hex_value CHR '';'' = None" by (simp add: hex_value_def is_digit_def)
  then have "hex_char n \<noteq> CHR '';''" using hex_char_value [OF n] by auto
  moreover have "hex_char n \<noteq> d" if "code d < 48" for d using that hex_char_plain [OF n] by auto
  ultimately show ?thesis by simp
qed

lemma hex_ne [simp]: "hex n \<noteq> []" by (subst hex.simps) simp

lemma hex_clean: "\<forall>c \<in> set (hex n). c \<noteq> CHR '' '' \<and> c \<noteq> TAB \<and> c \<noteq> LF \<and> c \<noteq> CR"
proof (induction n rule: hex.induct)
  case (1 n)
  show ?case using 1 hex_char_other [of "n mod 16"] hex_char_other [of n] by (subst hex.simps) auto
qed

lemma hex_length: "n < 16 ^ Suc k \<Longrightarrow> length (hex n) \<le> Suc k"
proof (induction k arbitrary: n)
  case (Suc k)
  then have "n div 16 < 16 ^ Suc k" by (simp add: less_mult_imp_div_less mult.commute)
  then show ?case using Suc.IH [of "n div 16"] by (subst hex.simps) simp
qed (subst hex.simps, simp)

lemma hex_digits_append:
  "n \<le> UINT64_MAX \<Longrightarrow> hex_digits (hex n @ r) 0 b = hex_digits r n True"
proof (induction n arbitrary: b r rule: hex.induct)
  case (1 n)
  show ?case
  proof (cases "n < 16")
    case True
    then show ?thesis using hex_char_other [OF True] hex_char_value [OF True] by (subst hex.simps) simp
  next
    case False
    let ?d = "hex_char (n mod 16)"
    have d: "hex_value ?d = Some (n mod 16)" "?d \<noteq> CHR '';'' \<and> ?d \<noteq> CHR '' '' \<and> ?d \<noteq> TAB" using hex_char_value [of "n mod 16"] hex_char_other [of "n mod 16"] by simp_all
    have "n div 16 * 16 + n mod 16 = n" by simp
    then have "n div 16 * 16 \<le> UINT64_MAX - n mod 16" using 1(2) by linarith
    then have "n div 16 \<le> (UINT64_MAX - n mod 16) div 16" by (simp add: less_eq_div_iff_mult_less_eq)
    then have "hex_digits (?d # r) (n div 16) True = hex_digits r n True" using d by simp
    then show ?thesis using 1 False by (subst hex.simps) simp
  qed
qed

lemma parse_hex_line_hex: "n \<le> UINT64_MAX \<Longrightarrow> parse_hex_line (hex n) = Some n"
proof -
  assume n: "n \<le> UINT64_MAX"
  have "dropWhile blank_char (hex n) = hex n" using hex_clean [of n] by (cases "hex n") (auto simp: blank_char_def)
  then show ?thesis using hex_digits_append [OF n, of "[]" False] by (simp add: parse_hex_line_def chunk_ext.simps)
qed

lemma ends_last: "ends_with s t \<Longrightarrow> t \<noteq> [] \<Longrightarrow> last s = last t"
  by (metis ends_with_def drop_eq_Nil last_drop not_le)

lemma ends_CRLF: "ends_with (s @ CRLF) CRLF" "c \<noteq> LF \<Longrightarrow> \<not> ends_with (s @ [c]) CRLF" "c \<noteq> LF \<Longrightarrow> \<not> ends_with (s @ [c]) (CRLF @ CRLF)"
  by (simp add: ends_with_def, (use ends_last in force)+)

lemma feed_loop_cons:
  "inp \<noteq> [] \<Longrightarrow> feed_step parse h inp ev = (QN_HTTP1_OK, h', ev', rest) \<Longrightarrow> feed_loop1 parse h inp ev = feed_loop1 parse h' rest ev'"
  by (subst feed_loop1.simps) simp

lemma feed_nil [simp]: "feed_loop1 parse h [] ev = (QN_HTTP1_OK, h, ev)" by (subst feed_loop1.simps) simp

text \<open>Bytes of a size line, of a head or of trailers up to the next line feed.\<close>

lemma feed_collect:
  assumes "h_state h = H1_CHUNK_SIZE \<or> h_state h = H1_HEAD" "LF \<notin> set l" "length (h_head h) + length l \<le> QN_HTTP1_HEAD_MAX"
  shows "feed_loop1 parse h (l @ r) ev = feed_loop1 parse (h\<lparr>h_head := h_head h @ l\<rparr>) r ev"
  using assms
proof (induction l arbitrary: h)
  case (Cons c l)
  have "feed_step parse h (c # l @ r) ev = (QN_HTTP1_OK, h\<lparr>h_head := h_head h @ [c]\<rparr>, ev, l @ r)"
    using Cons.prems ends_CRLF(2,3) [of c "h_head h"] by (auto simp: feed_step_def Let_def)
  then have "feed_loop1 parse h ((c # l) @ r) ev = feed_loop1 parse (h\<lparr>h_head := h_head h @ [c]\<rparr>) (l @ r) ev"
    using feed_loop_cons [of "c # l @ r"] by simp
  also have "\<dots> = feed_loop1 parse (h\<lparr>h_head := h_head h @ c # l\<rparr>) r ev" using Cons.IH [of "h\<lparr>h_head := h_head h @ [c]\<rparr>"] Cons.prems by simp
  finally show ?case .
qed simp

lemma feed_size_line:
  assumes "h_state h = H1_CHUNK_SIZE" "h_head h = []" "n \<le> UINT64_MAX"
  shows "feed_loop1 parse h (hex n @ CRLF @ r) ev =
    feed_loop1 parse (h\<lparr>h_left := n, h_head := [], h_state := (if n \<noteq> 0 then H1_CHUNK_DATA else H1_TRAILERS)\<rparr>) r ev"
proof -
  have l: "length (hex n) \<le> 16" using hex_length [of n 15] assms(3) by simp
  have "feed_loop1 parse h ((hex n @ [CR]) @ LF # r) ev = feed_loop1 parse (h\<lparr>h_head := hex n @ [CR]\<rparr>) (LF # r) ev"
    using assms hex_clean [of n] l by (subst feed_collect) auto
  also have "\<dots> = feed_loop1 parse (h\<lparr>h_left := n, h_head := [], h_state := (if n \<noteq> 0 then H1_CHUNK_DATA else H1_TRAILERS)\<rparr>) r ev"
  proof (rule feed_loop_cons)
    show "feed_step parse (h\<lparr>h_head := hex n @ [CR]\<rparr>) (LF # r) ev =
      (QN_HTTP1_OK, h\<lparr>h_left := n, h_head := [], h_state := (if n \<noteq> 0 then H1_CHUNK_DATA else H1_TRAILERS)\<rparr>, ev, r)"
      using assms l parse_hex_line_hex [OF assms(3)] ends_CRLF(1) [of "hex n"] by (simp add: feed_step_def)
  qed simp
  finally show ?thesis by simp
qed

lemma feed_crlf:
  assumes "h_state h = H1_CHUNK_CRLF" "h_crlf_n h = 0"
  shows "feed_loop1 parse h (CRLF @ r) ev = feed_loop1 parse (h\<lparr>h_crlf_n := 2, h_head := [], h_state := H1_CHUNK_SIZE\<rparr>) r ev"
proof -
  have "feed_loop1 parse h (CR # LF # r) ev = feed_loop1 parse (h\<lparr>h_crlf_n := 1\<rparr>) (LF # r) ev"
    using assms by (intro feed_loop_cons) (simp_all add: feed_step_def Let_def)
  also have "\<dots> = feed_loop1 parse (h\<lparr>h_crlf_n := 2, h_head := [], h_state := H1_CHUNK_SIZE\<rparr>) r ev"
    using assms by (intro feed_loop_cons) (simp_all add: feed_step_def Let_def)
  finally show ?thesis by simp
qed

lemma feed_chunk:
  assumes h: "h_state h = H1_CHUNK_SIZE" "h_head h = []" "line_inv cur h" and d: "d \<noteq> []" "length d \<le> UINT64_MAX"
  obtains h' ev' where "feed_loop1 parse h (chunk_text d @ r) ev = feed_loop1 parse h' r ev'"
    "h_state h' = H1_CHUNK_SIZE" "h_head h' = []" "line_inv (open_line cur d) h'" "h_responses h' = h_responses h" "h_status h' = h_status h"
    "marked ev' \<longleftrightarrow> marked ev \<or> list_ex colo_line (complete_lines cur d)" "he_body_bytes ev' = he_body_bytes ev + length d"
proof -
  let ?h = "h\<lparr>h_left := length d, h_head := [], h_state := H1_CHUNK_DATA\<rparr>"
  obtain h1 ev1 where b: "body parse ?h d ev = (h1, ev1)" by force
  have i: "line_inv cur ?h" using h(3) by (simp add: line_inv_def)
  note bl = body_lines [OF i b]
  let ?h2 = "h1\<lparr>h_left := 0, h_state := H1_CHUNK_CRLF, h_crlf_n := 0\<rparr>"
  have "feed_loop1 parse h (chunk_text d @ r) ev = feed_loop1 parse ?h (d @ CRLF @ r) ev"
    using feed_size_line [OF h(1,2) d(2), of parse "d @ CRLF @ r" ev] d by (simp add: chunk_text_def)
  also have "\<dots> = feed_loop1 parse ?h2 (CRLF @ r) ev1"
    using b d(1) feed_step_block [of ?h parse "d @ CRLF @ r" ev h1 ev1] by (intro feed_loop_cons) (simp_all add: block_end_def)
  also have "\<dots> = feed_loop1 parse (?h2\<lparr>h_crlf_n := 2, h_head := [], h_state := H1_CHUNK_SIZE\<rparr>) r ev1"
    by (rule feed_crlf) simp_all
  finally show thesis using bl
    by (intro that [of "?h2\<lparr>h_crlf_n := 2, h_head := [], h_state := H1_CHUNK_SIZE\<rparr>" ev1]) (simp_all add: line_inv_def)
qed

lemma feed_last_chunk:
  assumes "h_state h = H1_CHUNK_SIZE" "h_head h = []"
  shows "\<exists>h' ev'. feed_loop1 parse h (''0'' @ CRLF @ CRLF @ r) ev = feed_loop1 parse h' r ev' \<and>
    h_state h' = H1_HEAD \<and> h_head h' = [] \<and> h_responses h' = h_responses h + 1 \<and>
    marked ev' = marked ev \<and> he_body_bytes ev' = he_body_bytes ev \<and> has_fact ev' QN_HTTP_FACT_DONE \<and> he_status ev' = h_status h \<and>
    he_response_index ev' = h_responses h + 1"
proof -
  let ?h = "h\<lparr>h_left := 0, h_head := [], h_state := H1_TRAILERS\<rparr>"
  have z: "hex 0 = ''0''" by (simp add: hex.simps hex_char_def digit_char_def char_of_def bit_0)
  have "feed_loop1 parse h (''0'' @ CRLF @ CRLF @ r) ev = feed_loop1 parse ?h (CRLF @ r) ev"
    using feed_size_line [OF assms, of 0 parse "CRLF @ r" ev] by (simp add: z)
  also have "\<dots> = feed_loop1 parse (?h\<lparr>h_head := [CR]\<rparr>) (LF # r) ev"
    by (rule feed_loop_cons) (simp_all add: feed_step_def ends_with_def)
  also have "\<dots> = (case complete (?h\<lparr>h_head := CRLF\<rparr>) ev of (h', ev') \<Rightarrow> feed_loop1 parse h' r ev')"
    by (subst feed_loop1.simps) (simp add: feed_step_def split: prod.splits)
  finally have f: "feed_loop1 parse h (''0'' @ CRLF @ CRLF @ r) ev = (case complete (?h\<lparr>h_head := CRLF\<rparr>) ev of (h', ev') \<Rightarrow> feed_loop1 parse h' r ev')" .
  obtain h' ev' where c: "complete (?h\<lparr>h_head := CRLF\<rparr>) ev = (h', ev')" by force
  then have "h_state h' = H1_HEAD \<and> h_head h' = [] \<and> h_responses h' = h_responses h + 1 \<and> marked ev' = marked ev \<and> he_body_bytes ev' = he_body_bytes ev \<and>
      has_fact ev' QN_HTTP_FACT_DONE \<and> he_status ev' = h_status h \<and> he_response_index ev' = h_responses h + 1"
    by (auto simp: complete_def reset_response_def Let_def has_fact_def add_fact_def or_and_same marked_def bit.conj_disj_distrib2)
  then show ?thesis using f c by (intro exI [of _ h'] exI [of _ ev']) simp
qed

lemma feed_chunks:
  assumes "h_state h = H1_CHUNK_SIZE" "h_head h = []" "line_inv cur h" "\<forall>d \<in> set ds. d \<noteq> [] \<and> length d \<le> UINT64_MAX"
  shows "\<exists>h1 ev1. feed_loop1 parse h (concat (map chunk_text ds) @ r) ev = feed_loop1 parse h1 r ev1 \<and> h_state h1 = H1_CHUNK_SIZE \<and>
    h_head h1 = [] \<and> h_responses h1 = h_responses h \<and> h_status h1 = h_status h \<and> he_body_bytes ev1 = he_body_bytes ev + length (concat ds) \<and>
    (marked ev1 \<longleftrightarrow> marked ev \<or> list_ex colo_line (complete_lines cur (concat ds)))"
  using assms
proof (induction ds arbitrary: h ev cur)
  case Nil
  then show ?case by auto
next
  case (Cons d ds)
  have d: "d \<noteq> []" "length d \<le> UINT64_MAX" using Cons.prems(4) by auto
  obtain h' ev' where f: "feed_loop1 parse h (chunk_text d @ concat (map chunk_text ds) @ r) ev = feed_loop1 parse h' (concat (map chunk_text ds) @ r) ev'"
    "h_state h' = H1_CHUNK_SIZE" "h_head h' = []" "line_inv (open_line cur d) h'" "h_responses h' = h_responses h" "h_status h' = h_status h"
    "marked ev' \<longleftrightarrow> marked ev \<or> list_ex colo_line (complete_lines cur d)" "he_body_bytes ev' = he_body_bytes ev + length d"
    using feed_chunk [OF Cons.prems(1-3) d] by metis
  obtain h1 ev1 where g: "feed_loop1 parse h' (concat (map chunk_text ds) @ r) ev' = feed_loop1 parse h1 r ev1" "h_state h1 = H1_CHUNK_SIZE"
    "h_head h1 = []" "h_responses h1 = h_responses h'" "h_status h1 = h_status h'" "he_body_bytes ev1 = he_body_bytes ev' + length (concat ds)"
    "marked ev1 \<longleftrightarrow> marked ev' \<or> list_ex colo_line (complete_lines (open_line cur d) (concat ds))"
    using Cons.IH [OF f(2-4), of ev'] Cons.prems(4) by auto
  show ?case
    by (rule exI [of _ h1], rule exI [of _ ev1]) (use f g in \<open>simp add: complete_lines_append\<close>)
qed

text \<open>
  Property C25.  A chunked body ends exactly where the sender ended it: from the start of a body the reader takes the chunked coding
  of any list of nonempty pieces, reports all their bytes and the end of the response, and is
  back at the start of the next head.  The trace marker is reported exactly if one complete
  line of the body, across chunk boundaries, is \<open>colo=\<close> with three capital letters.
\<close>

theorem http1_chunked_body:
  assumes h: "h_state h = H1_CHUNK_SIZE" "h_head h = []" "h_line h = []" "\<not> h_line_overflow h"
    and ds: "\<forall>d \<in> set ds. d \<noteq> [] \<and> length d \<le> UINT64_MAX"
    and feed: "qn_http1_feed parse h (chunk_stream ds) = (rc, h', ev)"
  shows "rc = QN_HTTP1_OK \<and> h_state h' = H1_HEAD \<and> h_head h' = [] \<and> h_responses h' = h_responses h + 1 \<and>
    has_fact ev QN_HTTP_FACT_DONE \<and> he_status ev = h_status h \<and> he_response_index ev = h_responses h + 1 \<and>
    he_body_bytes ev = length (concat ds) \<and>
    (has_fact ev QN_HTTP_FACT_TRACE_COLO \<longleftrightarrow> list_ex colo_line (complete_lines [] (concat ds)))"
proof -
  have li: "line_inv [] h" using h by (simp add: line_inv_def)
  obtain h1 ev1 where a: "feed_loop1 parse h (chunk_stream ds) event_zero = feed_loop1 parse h1 (''0'' @ CRLF @ CRLF) ev1" "h_state h1 = H1_CHUNK_SIZE"
      "h_head h1 = []" "h_responses h1 = h_responses h" "h_status h1 = h_status h" "he_body_bytes ev1 = length (concat ds)"
      "marked ev1 \<longleftrightarrow> list_ex colo_line (complete_lines [] (concat ds))"
    using feed_chunks [OF h(1,2) li ds, of parse "''0'' @ CRLF @ CRLF" event_zero]
    by (auto simp: chunk_stream_def marked_def has_fact_def event_zero_def)
  obtain h2 ev2 where b: "feed_loop1 parse h1 (''0'' @ CRLF @ CRLF) ev1 = (QN_HTTP1_OK, h2, ev2)" "h_state h2 = H1_HEAD" "h_head h2 = []"
      "h_responses h2 = h_responses h1 + 1" "marked ev2 = marked ev1" "he_body_bytes ev2 = he_body_bytes ev1" "has_fact ev2 QN_HTTP_FACT_DONE"
      "he_status ev2 = h_status h1" "he_response_index ev2 = h_responses h1 + 1"
    using feed_last_chunk [OF a(2,3), of parse "[]" ev1] by auto
  have "rc = QN_HTTP1_OK" "h' = h2" "ev = ev2" using feed a(1) b(1) by (simp_all add: qn_http1_feed_def)
  then show ?thesis using a b by (simp add: marked_def)
qed

text \<open>A trace line cut in two by a chunk boundary.\<close>

theorem http1_chunked_body_witness:
  "(let h = qn_http1_init\<lparr>h_state := H1_CHUNK_SIZE, h_status := 200\<rparr>;
        (rc, h', ev) = qn_http1_feed (\<lambda>_. None) h (chunk_stream [''fl=1'' @ [LF] @ ''co'', ''lo=FRA'' @ CRLF])
    in rc = QN_HTTP1_OK \<and> he_body_bytes ev = 15 \<and> has_fact ev QN_HTTP_FACT_TRACE_COLO)"
proof -
  let ?h = "qn_http1_init\<lparr>h_state := H1_CHUNK_SIZE, h_status := 200\<rparr>" and ?ds = "[''fl=1'' @ [LF] @ ''co'', ''lo=FRA'' @ CRLF]"
  obtain rc h' ev where f: "qn_http1_feed (\<lambda>_. None) ?h (chunk_stream ?ds) = (rc, h', ev)" by (metis prod.exhaust)
  have "list_ex colo_line (complete_lines [] (concat ?ds))"
    by (simp add: colo_line_def valid_colo_def upper_def lc_def)
  moreover have "length (concat ?ds) = 15" by simp
  moreover have "\<forall>d \<in> set ?ds. d \<noteq> [] \<and> length d \<le> UINT64_MAX" by simp
  ultimately show ?thesis using http1_chunked_body [OF _ _ _ _ _ f] f by (simp add: qn_http1_init_def)
qed

end
