(* ===== verification/Scan_Plan.thy ===== *)
theory Scan_Plan
  imports Util "HOL-Library.Monad_Syntax"
begin

text \<open>
  The scan planner (\<^verbatim>\<open>core/scan_plan.c\<close> up to the settings file, which is in \<open>Scan_Settings\<close>): a
  request as the user states it, its validation and presets, coverage and size texts, and the
  resolution of a request against the machine into a plan.

  Numbers are naturals; where the code casts to 32 bits the cast is \<open>to_u32\<close>, where it guards a
  64-bit sum or product the guard is \<open>add_u64\<close> or \<open>mul_u64\<close>.  Enumerations are datatypes, so the
  tests that an enumeration is in range hold by type and have no branch here.  An error text is
  the whole message; the buffers of the code hold every message there is.
\<close>

section \<open>Requests\<close>

datatype qn_scan_mode = QN_SCAN_AUTO | QN_SCAN_FULL | QN_SCAN_COVERAGE | QN_SCAN_BUDGET | QN_SCAN_REACHABLE

datatype qn_scan_preset = QN_PRESET_CUSTOM | QN_PRESET_QUICK | QN_PRESET_BALANCED | QN_PRESET_DEEP | QN_PRESET_FULL

abbreviation QN_COVERAGE_SCALE :: nat where "QN_COVERAGE_SCALE \<equiv> 1000000"

definition add_u64 :: "nat \<Rightarrow> nat \<Rightarrow> nat option" where
  "add_u64 a b = (if a > UINT64_MAX - b then None else Some (a + b))"

definition mul_u64 :: "nat \<Rightarrow> nat \<Rightarrow> nat option" where
  "mul_u64 a b = (if a \<noteq> 0 \<and> b > UINT64_MAX div a then None else Some (a * b))"

definition to_u32 :: "nat \<Rightarrow> nat" where "to_u32 n = n mod 2 ^ 32"

fun text_eq :: "string \<Rightarrow> string \<Rightarrow> bool" where
  "text_eq (a # as) (b # bs) = (lc a = lc b \<and> text_eq as bs)"
| "text_eq as bs = (as = [] \<and> bs = [])"

fun qn_scan_mode_str :: "qn_scan_mode \<Rightarrow> string" where
  "qn_scan_mode_str QN_SCAN_AUTO = ''auto''"
| "qn_scan_mode_str QN_SCAN_FULL = ''full''"
| "qn_scan_mode_str QN_SCAN_COVERAGE = ''coverage''"
| "qn_scan_mode_str QN_SCAN_BUDGET = ''budget''"
| "qn_scan_mode_str QN_SCAN_REACHABLE = ''reachable''"

fun qn_selection_str :: "qn_selection \<Rightarrow> string" where
  "qn_selection_str QN_SELECTION_UNIFORM = ''uniform''"
| "qn_selection_str QN_SELECTION_STRATIFIED = ''stratified''"
| "qn_selection_str QN_SELECTION_ADAPTIVE = ''adaptive''"
| "qn_selection_str QN_SELECTION_HYBRID = ''hybrid''"

fun qn_rank_policy_str :: "qn_rank_policy \<Rightarrow> string" where
  "qn_rank_policy_str QN_RANK_BALANCED = ''balanced''"
| "qn_rank_policy_str QN_RANK_LATENCY = ''latency''"
| "qn_rank_policy_str QN_RANK_STABILITY = ''stability''"
| "qn_rank_policy_str QN_RANK_THROUGHPUT = ''throughput''"

text \<open>The enumerators in the order of their values.\<close>

definition scan_modes :: "qn_scan_mode list" where
  "scan_modes = [QN_SCAN_AUTO, QN_SCAN_FULL, QN_SCAN_COVERAGE, QN_SCAN_BUDGET, QN_SCAN_REACHABLE]"

definition selections :: "qn_selection list" where
  "selections = [QN_SELECTION_UNIFORM, QN_SELECTION_STRATIFIED, QN_SELECTION_ADAPTIVE, QN_SELECTION_HYBRID]"

definition rank_policies :: "qn_rank_policy list" where
  "rank_policies = [QN_RANK_BALANCED, QN_RANK_LATENCY, QN_RANK_STABILITY, QN_RANK_THROUGHPUT]"

definition qn_scan_mode_parse :: "string \<Rightarrow> qn_scan_mode option" where
  "qn_scan_mode_parse s = List.find (\<lambda>m. text_eq s (qn_scan_mode_str m)) scan_modes"

definition qn_selection_parse :: "string \<Rightarrow> qn_selection option" where
  "qn_selection_parse s = List.find (\<lambda>m. text_eq s (qn_selection_str m)) selections"

definition qn_rank_policy_parse :: "string \<Rightarrow> qn_rank_policy option" where
  "qn_rank_policy_parse s = List.find (\<lambda>m. text_eq s (qn_rank_policy_str m)) rank_policies"

record qn_scan_request =
  rq_mode :: qn_scan_mode
  rq_selection :: qn_selection
  rq_rank_by :: qn_rank_policy
  rq_coverage_ppm :: nat
  rq_explore_percent :: nat
  rq_address_budget :: nat
  rq_reachable_target :: nat
  rq_candidate_capacity :: nat
  rq_finalist_limit :: nat
  rq_output_limit :: nat
  rq_memory_budget_bytes :: nat
  rq_scan_concurrency :: nat
  rq_verify_concurrency :: nat
  rq_stability_concurrency :: nat
  rq_tunnel_target :: nat
  rq_tunnel_concurrency :: nat
  rq_tunnel_attempts :: nat
  rq_candidate_auto :: bool
  rq_finalists_auto :: bool
  rq_finalists_all :: bool
  rq_output_all :: bool
  rq_memory_auto :: bool
  rq_scan_concurrency_auto :: bool
  rq_verify_concurrency_auto :: bool
  rq_stability_concurrency_auto :: bool
  rq_tunnel_enabled :: bool
  rq_tunnel_all :: bool

definition qn_scan_request_defaults :: qn_scan_request where
  "qn_scan_request_defaults = \<lparr>rq_mode = QN_SCAN_AUTO, rq_selection = QN_SELECTION_HYBRID, rq_rank_by = QN_RANK_BALANCED,
     rq_coverage_ppm = 100000, rq_explore_percent = 20, rq_address_budget = 0, rq_reachable_target = 0,
     rq_candidate_capacity = 0, rq_finalist_limit = 0, rq_output_limit = 20, rq_memory_budget_bytes = 0,
     rq_scan_concurrency = 0, rq_verify_concurrency = 0, rq_stability_concurrency = 0, rq_tunnel_target = 0,
     rq_tunnel_concurrency = 1, rq_tunnel_attempts = 2, rq_candidate_auto = True, rq_finalists_auto = True,
     rq_finalists_all = False, rq_output_all = False, rq_memory_auto = True, rq_scan_concurrency_auto = True,
     rq_verify_concurrency_auto = True, rq_stability_concurrency_auto = True, rq_tunnel_enabled = False, rq_tunnel_all = False\<rparr>"

text \<open>The message of the first rule a request breaks, \<open>None\<close> if it is valid.\<close>

definition qn_scan_request_validate :: "qn_scan_request \<Rightarrow> string option" where
  "qn_scan_request_validate r =
     (if rq_coverage_ppm r < 100 \<or> rq_coverage_ppm r > QN_COVERAGE_SCALE then Some ''Coverage must be from 0.01% to 100%''
      else if rq_explore_percent r > 100 then Some ''Explore Percent must be from 0 to 100''
      else if rq_mode r = QN_SCAN_BUDGET \<and> rq_address_budget r = 0 then Some ''Address Budget must be greater than zero''
      else if rq_mode r = QN_SCAN_REACHABLE \<and> rq_reachable_target r = 0 then Some ''Reachable Target must be greater than zero''
      else if \<not> rq_candidate_auto r \<and> (rq_candidate_capacity r = 0 \<or> rq_candidate_capacity r > UINT32_MAX)
      then Some ''Candidate Capacity must be from 1 to 4294967295''
      else if rq_finalists_all r \<and> rq_finalists_auto r then Some ''Finalist Count cannot be both Auto and All Candidates''
      else if \<not> rq_finalists_all r \<and> \<not> rq_finalists_auto r \<and> (rq_finalist_limit r = 0 \<or> rq_finalist_limit r > UINT32_MAX)
      then Some ''Finalist Count must be from 1 to 4294967295''
      else if \<not> rq_candidate_auto r \<and> \<not> rq_finalists_auto r \<and> \<not> rq_finalists_all r \<and> rq_finalist_limit r > rq_candidate_capacity r
      then Some ''Finalist Count cannot exceed Candidate Capacity''
      else if rq_mode r = QN_SCAN_REACHABLE \<and> \<not> rq_candidate_auto r \<and> rq_reachable_target r > rq_candidate_capacity r
      then Some ''Reachable Target cannot exceed Candidate Capacity''
      else if \<not> rq_output_all r \<and> (rq_output_limit r = 0 \<or> rq_output_limit r > UINT32_MAX)
      then Some ''Output Top must be from 1 to 4294967295 or All Verified''
      else if \<not> rq_memory_auto r \<and> rq_memory_budget_bytes r = 0 then Some ''Memory Budget must be greater than zero''
      else if \<not> rq_scan_concurrency_auto r \<and> rq_scan_concurrency r = 0 \<or>
              \<not> rq_verify_concurrency_auto r \<and> rq_verify_concurrency r = 0 \<or>
              \<not> rq_stability_concurrency_auto r \<and> rq_stability_concurrency r = 0
      then Some ''Concurrency must be greater than zero''
      else if rq_tunnel_enabled r \<and> \<not> rq_tunnel_all r \<and> rq_tunnel_target r = 0
      then Some ''Tunnel Target must be greater than zero or All''
      else if rq_tunnel_enabled r \<and> (rq_tunnel_concurrency r = 0 \<or> rq_tunnel_concurrency r > 32)
      then Some ''Tunnel Concurrency must be from 1 to 32''
      else if rq_tunnel_enabled r \<and> (rq_tunnel_attempts r = 0 \<or> rq_tunnel_attempts r > 2)
      then Some ''Tunnel Attempts must be from 1 to 2''
      else None)"

fun qn_scan_preset_str :: "qn_scan_preset \<Rightarrow> string" where
  "qn_scan_preset_str QN_PRESET_CUSTOM = ''custom''"
| "qn_scan_preset_str QN_PRESET_QUICK = ''quick''"
| "qn_scan_preset_str QN_PRESET_BALANCED = ''balanced''"
| "qn_scan_preset_str QN_PRESET_DEEP = ''deep''"
| "qn_scan_preset_str QN_PRESET_FULL = ''full''"

definition qn_scan_preset_apply :: "qn_scan_request \<Rightarrow> qn_scan_preset \<Rightarrow> qn_scan_request" where
  "qn_scan_preset_apply r preset =
     (let d = qn_scan_request_defaults\<lparr>rq_selection := QN_SELECTION_HYBRID\<rparr> in
      case preset of
        QN_PRESET_CUSTOM \<Rightarrow> r
      | QN_PRESET_QUICK \<Rightarrow>
          d\<lparr>rq_mode := QN_SCAN_COVERAGE, rq_coverage_ppm := 10000, rq_finalists_auto := False, rq_finalist_limit := 64, rq_output_limit := 20\<rparr>
      | QN_PRESET_BALANCED \<Rightarrow>
          d\<lparr>rq_mode := QN_SCAN_COVERAGE, rq_coverage_ppm := 100000, rq_candidate_auto := False, rq_candidate_capacity := 16384,
            rq_finalists_auto := False, rq_finalist_limit := 256, rq_output_limit := 50\<rparr>
      | QN_PRESET_DEEP \<Rightarrow>
          d\<lparr>rq_mode := QN_SCAN_COVERAGE, rq_coverage_ppm := 250000, rq_candidate_auto := False, rq_candidate_capacity := 65536,
            rq_finalists_auto := False, rq_finalist_limit := 1024, rq_output_limit := 100\<rparr>
      | QN_PRESET_FULL \<Rightarrow> d\<lparr>rq_mode := QN_SCAN_FULL, rq_output_limit := 100\<rparr>)"

text \<open>The code compares the members one by one, which is equality of the records.\<close>

definition qn_scan_request_equal :: "qn_scan_request \<Rightarrow> qn_scan_request \<Rightarrow> bool" where
  "qn_scan_request_equal a b \<longleftrightarrow>
     rq_mode a = rq_mode b \<and> rq_selection a = rq_selection b \<and> rq_rank_by a = rq_rank_by b \<and>
     rq_coverage_ppm a = rq_coverage_ppm b \<and> rq_explore_percent a = rq_explore_percent b \<and>
     rq_address_budget a = rq_address_budget b \<and> rq_reachable_target a = rq_reachable_target b \<and>
     rq_candidate_capacity a = rq_candidate_capacity b \<and> rq_finalist_limit a = rq_finalist_limit b \<and>
     rq_output_limit a = rq_output_limit b \<and> rq_memory_budget_bytes a = rq_memory_budget_bytes b \<and>
     rq_scan_concurrency a = rq_scan_concurrency b \<and> rq_verify_concurrency a = rq_verify_concurrency b \<and>
     rq_stability_concurrency a = rq_stability_concurrency b \<and> rq_tunnel_target a = rq_tunnel_target b \<and>
     rq_tunnel_concurrency a = rq_tunnel_concurrency b \<and> rq_tunnel_attempts a = rq_tunnel_attempts b \<and>
     rq_candidate_auto a = rq_candidate_auto b \<and> rq_finalists_auto a = rq_finalists_auto b \<and>
     rq_finalists_all a = rq_finalists_all b \<and> rq_output_all a = rq_output_all b \<and> rq_memory_auto a = rq_memory_auto b \<and>
     rq_scan_concurrency_auto a = rq_scan_concurrency_auto b \<and> rq_verify_concurrency_auto a = rq_verify_concurrency_auto b \<and>
     rq_stability_concurrency_auto a = rq_stability_concurrency_auto b \<and> rq_tunnel_enabled a = rq_tunnel_enabled b \<and>
     rq_tunnel_all a = rq_tunnel_all b"

definition qn_scan_preset_detect :: "qn_scan_request \<Rightarrow> qn_scan_preset" where
  "qn_scan_preset_detect r =
     (case List.find (\<lambda>p. qn_scan_request_equal r (qn_scan_preset_apply r p)) [QN_PRESET_QUICK, QN_PRESET_BALANCED, QN_PRESET_DEEP, QN_PRESET_FULL] of
        Some p \<Rightarrow> p
      | None \<Rightarrow> QN_PRESET_CUSTOM)"

section \<open>Coverage and size texts\<close>

text \<open>The digits before the point; \<open>None\<close> once the number passes 100.\<close>

fun whole_part :: "string \<Rightarrow> nat \<Rightarrow> (nat \<times> string) option" where
  "whole_part (c # cs) w =
     (if is_digit c then (let w' = w * 10 + digit_value c in if w' > 100 then None else whole_part cs w') else Some (w, c # cs))"
| "whole_part [] w = Some (w, [])"

text \<open>The digits after the point; \<open>None\<close> if there are more than four.\<close>

fun fraction_part :: "string \<Rightarrow> nat \<Rightarrow> nat \<Rightarrow> (nat \<times> nat \<times> string) option" where
  "fraction_part (c # cs) f n =
     (if is_digit c then (if n \<ge> 4 then None else fraction_part cs (f * 10 + digit_value c) (n + 1)) else Some (f, n, c # cs))"
| "fraction_part [] f n = Some (f, n, [])"

definition qn_coverage_parse :: "string \<Rightarrow> nat option" where
  "qn_coverage_parse t =
     (if t = [] \<or> hd t = CHR ''+'' \<or> hd t = CHR ''-'' \<or> \<not> is_digit (hd t) then None
      else do {
        (whole, p) \<leftarrow> whole_part t 0;
        (fraction, n, p) \<leftarrow>
          (if p \<noteq> [] \<and> hd p = CHR ''.''
           then (if tl p = [] \<or> \<not> is_digit (hd (tl p)) then None else fraction_part (tl p) 0 0)
           else Some (0, 0, p));
        let p = (if p \<noteq> [] \<and> hd p = CHR ''%'' then tl p else p);
        if p \<noteq> [] then None
        else (let v = fraction * 10 ^ (4 - n) + whole * 10000
              in if v < 100 \<or> v > QN_COVERAGE_SCALE then None else Some (to_u32 v))
      })"

definition qn_coverage_count :: "nat \<Rightarrow> nat \<Rightarrow> nat option" where
  "qn_coverage_count total_n ppm =
     (if total_n = 0 \<or> ppm < 100 \<or> ppm > QN_COVERAGE_SCALE then None
      else do {
        whole \<leftarrow> mul_u64 (total_n div QN_COVERAGE_SCALE) ppm;
        scaled \<leftarrow> mul_u64 (total_n mod QN_COVERAGE_SCALE) ppm;
        add_u64 whole (scaled div QN_COVERAGE_SCALE + (if scaled mod QN_COVERAGE_SCALE \<noteq> 0 then 1 else 0))
      })"

definition qn_size_parse :: "string \<Rightarrow> nat option" where
  "qn_size_parse t =
     (if t = [] \<or> hd t = CHR ''+'' \<or> hd t = CHR ''-'' then None
      else (case strtoull t of
              (None, _) \<Rightarrow> None
            | (Some v, rest) \<Rightarrow>
                if rest = t then None
                else do {
                  multiplier \<leftarrow>
                    (if rest = [] then Some 1
                     else if text_eq rest ''k'' \<or> text_eq rest ''kb'' \<or> text_eq rest ''kib'' then Some (2 ^ 10)
                     else if text_eq rest ''m'' \<or> text_eq rest ''mb'' \<or> text_eq rest ''mib'' then Some (2 ^ 20)
                     else if text_eq rest ''g'' \<or> text_eq rest ''gb'' \<or> text_eq rest ''gib'' then Some (2 ^ 30)
                     else if \<not> text_eq rest ''b'' then None else Some 1);
                  mul_u64 v multiplier
                }))"

section \<open>Resolving a plan\<close>

record qn_scan_environment =
  en_total_addresses :: nat
  en_available_memory_bytes :: nat
  en_fd_limit :: nat
  en_input_prefixes :: nat
  en_normalized_prefixes :: nat
  en_input_addresses :: nat
  en_duplicate_addresses :: nat
  en_cpu_count :: nat
  en_candidate_bytes :: nat
  en_candidate_fixed_bytes :: nat
  en_verifier_slot_bytes :: nat
  en_verifier_result_bytes :: nat
  en_verifier_fixed_bytes :: nat
  en_working_bytes :: nat
  en_working_capacity_bytes :: nat
  en_page_size :: nat
  en_mobile :: bool

record qn_scan_plan =
  sp_version :: nat
  sp_requested_mode :: qn_scan_mode
  sp_mode :: qn_scan_mode
  sp_selection :: qn_selection
  sp_rank_by :: qn_rank_policy
  sp_coverage_ppm :: nat
  sp_explore_percent :: nat
  sp_total_addresses :: nat
  sp_planned_addresses :: nat
  sp_reachable_target :: nat
  sp_candidate_capacity :: nat
  sp_finalist_limit :: nat
  sp_output_limit :: nat
  sp_memory_budget_bytes :: nat
  sp_estimated_candidate_bytes :: nat
  sp_estimated_verifier_bytes :: nat
  sp_estimated_tunnel_bytes :: nat
  sp_estimated_working_bytes :: nat
  sp_estimated_total_bytes :: nat
  sp_fd_limit :: nat
  sp_estimated_fds :: nat
  sp_scan_concurrency :: nat
  sp_verify_concurrency :: nat
  sp_stability_concurrency :: nat
  sp_tunnel_target :: nat
  sp_tunnel_concurrency :: nat
  sp_tunnel_attempts :: nat
  sp_verification_batch_size :: nat
  sp_input_prefixes :: nat
  sp_normalized_prefixes :: nat
  sp_input_addresses :: nat
  sp_duplicate_addresses :: nat
  sp_finalists_all :: bool
  sp_output_all :: bool
  sp_representative :: bool
  sp_exact_full :: bool
  sp_auto_adjusted :: bool
  sp_tunnel_enabled :: bool
  sp_tunnel_all :: bool
  sp_valid :: bool
  sp_error :: string

abbreviation QN_MIB :: nat where "QN_MIB \<equiv> 1048576"
abbreviation QN_PLAN_FD_RESERVE :: nat where "QN_PLAN_FD_RESERVE \<equiv> 64"
abbreviation QN_PLAN_TUNNEL_FDS :: nat where "QN_PLAN_TUNNEL_FDS \<equiv> 3"
abbreviation QN_PLAN_TUNNEL_WORKER_BYTES :: nat where "QN_PLAN_TUNNEL_WORKER_BYTES \<equiv> 65536"

definition plan_zero :: qn_scan_plan where
  "plan_zero = \<lparr>sp_version = 2, sp_requested_mode = QN_SCAN_AUTO, sp_mode = QN_SCAN_AUTO, sp_selection = QN_SELECTION_UNIFORM,
     sp_rank_by = QN_RANK_BALANCED, sp_coverage_ppm = 0, sp_explore_percent = 0, sp_total_addresses = 0, sp_planned_addresses = 0,
     sp_reachable_target = 0, sp_candidate_capacity = 0, sp_finalist_limit = 0, sp_output_limit = 0, sp_memory_budget_bytes = 0,
     sp_estimated_candidate_bytes = 0, sp_estimated_verifier_bytes = 0, sp_estimated_tunnel_bytes = 0, sp_estimated_working_bytes = 0,
     sp_estimated_total_bytes = 0, sp_fd_limit = 0, sp_estimated_fds = 0, sp_scan_concurrency = 0, sp_verify_concurrency = 0,
     sp_stability_concurrency = 0, sp_tunnel_target = 0, sp_tunnel_concurrency = 0, sp_tunnel_attempts = 0, sp_verification_batch_size = 0,
     sp_input_prefixes = 0, sp_normalized_prefixes = 0, sp_input_addresses = 0, sp_duplicate_addresses = 0, sp_finalists_all = False,
     sp_output_all = False, sp_representative = False, sp_exact_full = False, sp_auto_adjusted = False, sp_tunnel_enabled = False,
     sp_tunnel_all = False, sp_valid = False, sp_error = []\<rparr>"

text \<open>
  A stage of the resolution takes the plan so far and answers whether to go on, and the plan as
  it leaves it; a stage that fails has written its message into it.  \<open>stages\<close> runs them in order
  up to the first that fails.
\<close>

definition plan_error :: "qn_scan_plan \<Rightarrow> string \<Rightarrow> bool \<times> qn_scan_plan" where
  "plan_error p msg = (False, p\<lparr>sp_error := msg, sp_valid := False\<rparr>)"

fun stages :: "(qn_scan_plan \<Rightarrow> bool \<times> qn_scan_plan) list \<Rightarrow> qn_scan_plan \<Rightarrow> bool \<times> qn_scan_plan" where
  "stages [] p = (True, p)"
| "stages (f # fs) p = (case f p of (True, p') \<Rightarrow> stages fs p' | (False, p') \<Rightarrow> (False, p'))"

definition auto_memory :: "qn_scan_environment \<Rightarrow> nat" where
  "auto_memory e =
     (let preferred = (if en_mobile e then 128 else 256) * QN_MIB; safe = en_available_memory_bytes e div 2
      in if en_available_memory_bytes e \<noteq> 0 \<and> safe < preferred then safe else preferred)"

definition auto_scan_concurrency :: "qn_scan_environment \<Rightarrow> nat" where
  "auto_scan_concurrency e =
     (let by_cpu = (if en_cpu_count e \<noteq> 0 then en_cpu_count e else 1) * 32;
          by_fd = (if en_fd_limit e > QN_PLAN_FD_RESERVE then en_fd_limit e - QN_PLAN_FD_RESERVE else 1);
          by_cpu = (if by_cpu < 32 then 32 else by_cpu)
      in to_u32 (if by_cpu < by_fd then by_cpu else by_fd))"

definition auto_verify_concurrency :: "qn_scan_environment \<Rightarrow> nat" where
  "auto_verify_concurrency e =
     (let v = (if en_cpu_count e \<noteq> 0 then en_cpu_count e else 1) * 4;
          hi = (if en_mobile e then 32 else 64); lo = (if en_mobile e then 4 else 8);
          v = (if v < lo then lo else v); v = (if v > hi then hi else v)
      in to_u32 v)"

definition auto_stability_concurrency :: "qn_scan_environment \<Rightarrow> nat" where
  "auto_stability_concurrency e =
     (let v = (if en_cpu_count e \<noteq> 0 then en_cpu_count e else 1) * 32;
          hi = (if en_mobile e then 128 else 512);
          v = (if v < 32 then 32 else v); v = (if v > hi then hi else v)
      in to_u32 v)"

definition resolve_scope :: "qn_scan_request \<Rightarrow> qn_scan_environment \<Rightarrow> qn_scan_plan \<Rightarrow> bool \<times> qn_scan_plan" where
  "resolve_scope r e p =
     (let p = p\<lparr>sp_requested_mode := rq_mode r, sp_mode := rq_mode r, sp_coverage_ppm := rq_coverage_ppm r\<rparr>;
          p = (if sp_mode p = QN_SCAN_AUTO
               then (if en_total_addresses e \<le> 65536 then p\<lparr>sp_mode := QN_SCAN_FULL\<rparr>
                     else p\<lparr>sp_mode := QN_SCAN_COVERAGE, sp_coverage_ppm := 100000\<rparr>)\<lparr>sp_auto_adjusted := True\<rparr>
               else p)
      in case sp_mode p of
           QN_SCAN_FULL \<Rightarrow>
             (True, p\<lparr>sp_planned_addresses := en_total_addresses e, sp_coverage_ppm := QN_COVERAGE_SCALE, sp_exact_full := True\<rparr>)
         | QN_SCAN_COVERAGE \<Rightarrow>
             (case qn_coverage_count (en_total_addresses e) (sp_coverage_ppm p) of
                None \<Rightarrow> plan_error p ''coverage must be between 0.01% and 100%''
              | Some n \<Rightarrow>
                  (let p = p\<lparr>sp_planned_addresses := n\<rparr> in
                   (True, if sp_coverage_ppm p = QN_COVERAGE_SCALE then p\<lparr>sp_mode := QN_SCAN_FULL, sp_exact_full := True\<rparr> else p)))
         | QN_SCAN_BUDGET \<Rightarrow>
             if rq_address_budget r = 0 then plan_error p ''address budget must be greater than zero''
             else (let n = (if rq_address_budget r < en_total_addresses e then rq_address_budget r else en_total_addresses e)
                   in (True, p\<lparr>sp_planned_addresses := n, sp_exact_full := (n = en_total_addresses e)\<rparr>))
         | QN_SCAN_REACHABLE \<Rightarrow>
             if rq_reachable_target r = 0 \<or> rq_reachable_target r > en_total_addresses e
             then plan_error p ''reachable target must be within the loaded address set''
             else (True, p\<lparr>sp_reachable_target := rq_reachable_target r, sp_planned_addresses := en_total_addresses e\<rparr>)
         | QN_SCAN_AUTO \<Rightarrow> plan_error p ''invalid scan mode'')"

text \<open>The file descriptors above the reserve, and those the tunnels of a request take.\<close>

definition fds_available :: "qn_scan_environment \<Rightarrow> nat" where
  "fds_available e = (if en_fd_limit e > QN_PLAN_FD_RESERVE then en_fd_limit e - QN_PLAN_FD_RESERVE else 0)"

definition tunnel_fds :: "qn_scan_request \<Rightarrow> nat option" where
  "tunnel_fds r = (if rq_tunnel_enabled r then mul_u64 (rq_tunnel_concurrency r) QN_PLAN_TUNNEL_FDS else Some 0)"

definition choose_concurrency :: "qn_scan_request \<Rightarrow> qn_scan_environment \<Rightarrow> qn_scan_plan \<Rightarrow> qn_scan_plan" where
  "choose_concurrency r e p =
     p\<lparr>sp_scan_concurrency := (if rq_scan_concurrency_auto r then auto_scan_concurrency e else rq_scan_concurrency r),
       sp_verify_concurrency := (if rq_verify_concurrency_auto r then auto_verify_concurrency e else rq_verify_concurrency r),
       sp_stability_concurrency := (if rq_stability_concurrency_auto r then auto_stability_concurrency e else rq_stability_concurrency r)\<rparr>"

text \<open>The verifier's two pools cut down to what is available.\<close>

definition cut_verifier :: "nat \<Rightarrow> qn_scan_plan \<Rightarrow> qn_scan_plan" where
  "cut_verifier avail p =
     (let p = p\<lparr>sp_stability_concurrency :=
                  (if avail > sp_verify_concurrency p then to_u32 (avail - sp_verify_concurrency p) else 1)\<rparr>;
          p = (if sp_verify_concurrency p + sp_stability_concurrency p > avail
               then p\<lparr>sp_verify_concurrency := (if avail > 1 then to_u32 (avail - 1) else 1)\<rparr> else p)
      in p\<lparr>sp_auto_adjusted := True\<rparr>)"

definition resolve_concurrency :: "qn_scan_request \<Rightarrow> qn_scan_environment \<Rightarrow> qn_scan_plan \<Rightarrow> bool \<times> qn_scan_plan" where
  "resolve_concurrency r e p =
     (let avail = fds_available e; p = choose_concurrency r e p in
      if sp_scan_concurrency p = 0 \<or> sp_verify_concurrency p = 0 \<or> sp_stability_concurrency p = 0
      then plan_error p ''concurrency values must be greater than zero''
      else if avail < 2 then plan_error p ''file descriptor limit leaves fewer than two verifier slots''
      else (case tunnel_fds r of
              None \<Rightarrow> plan_error p ''tunnel file descriptor estimate overflowed''
            | Some tfds \<Rightarrow>
                if tfds > avail then plan_error p ''Tunnel Concurrency exceeds the file descriptor budget''
                else (let over = (sp_verify_concurrency p + sp_stability_concurrency p > avail) in
                      if over \<and> (\<not> rq_verify_concurrency_auto r \<or> \<not> rq_stability_concurrency_auto r)
                      then plan_error p ''requested verifier concurrency exceeds the file descriptor budget''
                      else (let p = (if over then cut_verifier avail p else p) in
                            if sp_scan_concurrency p > avail \<and> \<not> rq_scan_concurrency_auto r
                            then plan_error p ''requested scan concurrency exceeds the file descriptor budget''
                            else (let p = (if sp_scan_concurrency p > avail
                                           then p\<lparr>sp_scan_concurrency := to_u32 avail, sp_auto_adjusted := True\<rparr> else p);
                                      phase = sp_verify_concurrency p + sp_stability_concurrency p;
                                      phase = (if tfds > phase then tfds else phase);
                                      phase = (if sp_scan_concurrency p > phase then sp_scan_concurrency p else phase)
                                  in (True, p\<lparr>sp_estimated_fds := QN_PLAN_FD_RESERVE + phase\<rparr>))))))"

section \<open>Memory\<close>

definition candidate_memory :: "qn_scan_environment \<Rightarrow> qn_scan_plan \<Rightarrow> nat option" where
  "candidate_memory e p = do {
     c \<leftarrow> mul_u64 (sp_candidate_capacity p) (en_candidate_bytes e);
     add_u64 c (en_candidate_fixed_bytes e) }"

definition verifier_memory :: "qn_scan_environment \<Rightarrow> qn_scan_plan \<Rightarrow> nat option" where
  "verifier_memory e p = do {
     slots \<leftarrow> add_u64 (sp_verify_concurrency p) (sp_stability_concurrency p);
     v \<leftarrow> mul_u64 slots (en_verifier_slot_bytes e);
     results \<leftarrow> mul_u64 (sp_verification_batch_size p) (en_verifier_result_bytes e);
     v \<leftarrow> add_u64 v results;
     add_u64 v (en_verifier_fixed_bytes e) }"

definition tunnel_memory :: "qn_scan_environment \<Rightarrow> qn_scan_plan \<Rightarrow> nat option" where
  "tunnel_memory e p =
     (if sp_tunnel_enabled p
      then do {
        w \<leftarrow> add_u64 (en_verifier_slot_bytes e) (en_verifier_result_bytes e);
        w \<leftarrow> add_u64 w (en_verifier_fixed_bytes e);
        w \<leftarrow> add_u64 w QN_PLAN_TUNNEL_WORKER_BYTES;
        mul_u64 (sp_tunnel_concurrency p) w }
      else Some 0)"

definition page_of :: "qn_scan_environment \<Rightarrow> nat" where
  "page_of e = (if en_page_size e \<noteq> 0 then en_page_size e else 4096)"

definition page_up :: "nat \<Rightarrow> nat \<Rightarrow> nat option" where
  "page_up page n = (if page > 1 \<and> n mod page \<noteq> 0 then add_u64 n (page - n mod page) else Some n)"

definition memory_estimate :: "qn_scan_environment \<Rightarrow> qn_scan_plan \<Rightarrow> bool \<times> qn_scan_plan" where
  "memory_estimate e p =
     (let overflow = ''resource plan arithmetic overflowed'' in
      case do { c \<leftarrow> candidate_memory e p; v \<leftarrow> verifier_memory e p; Some (c, v) } of
        None \<Rightarrow> plan_error p overflow
      | Some (candidate, verifier) \<Rightarrow>
          (case tunnel_memory e p of
             None \<Rightarrow> plan_error p ''tunnel resource plan arithmetic overflowed''
           | Some tunnel \<Rightarrow>
               (case do { c \<leftarrow> page_up (page_of e) candidate; w \<leftarrow> page_up (page_of e) (en_working_bytes e); Some (c, w) } of
                  None \<Rightarrow> plan_error p overflow
                | Some (candidate, working) \<Rightarrow>
                    (let p = p\<lparr>sp_estimated_candidate_bytes := candidate, sp_estimated_verifier_bytes := verifier,
                               sp_estimated_tunnel_bytes := tunnel, sp_estimated_working_bytes := working\<rparr>
                     in case add_u64 candidate (if verifier > tunnel then verifier else tunnel) of
                          None \<Rightarrow> plan_error p overflow
                        | Some t \<Rightarrow>
                            (let p = p\<lparr>sp_estimated_total_bytes := t\<rparr> in
                             case add_u64 t working of
                               None \<Rightarrow> plan_error p overflow
                             | Some t \<Rightarrow> (True, p\<lparr>sp_estimated_total_bytes := t\<rparr>))))))"

section \<open>The stages of \<open>qn_scan_plan_resolve\<close>\<close>

text \<open>What is copied from the request and the machine once both are found usable.\<close>

definition resolve_inputs :: "qn_scan_request \<Rightarrow> qn_scan_environment \<Rightarrow> qn_scan_plan \<Rightarrow> bool \<times> qn_scan_plan" where
  "resolve_inputs r e p =
     (if en_total_addresses e = 0 \<or> en_candidate_bytes e = 0 \<or> en_verifier_slot_bytes e = 0 \<or> en_verifier_result_bytes e = 0
      then plan_error p ''scan plan environment is incomplete''
      else (case qn_scan_request_validate r of
              Some msg \<Rightarrow> plan_error p msg
            | None \<Rightarrow>
                if en_working_capacity_bytes e \<noteq> 0 \<and> en_working_bytes e > en_working_capacity_bytes e
                then plan_error p ''range metadata exceeds the working arena capacity''
                else if rq_explore_percent r > 100 then plan_error p ''scan selection or ranking policy is invalid''
                else (True, p\<lparr>sp_selection := rq_selection r, sp_rank_by := rq_rank_by r, sp_explore_percent := rq_explore_percent r,
                       sp_total_addresses := en_total_addresses e, sp_input_prefixes := en_input_prefixes e,
                       sp_normalized_prefixes := en_normalized_prefixes e, sp_input_addresses := en_input_addresses e,
                       sp_duplicate_addresses := en_duplicate_addresses e, sp_tunnel_enabled := rq_tunnel_enabled r,
                       sp_tunnel_all := rq_tunnel_all r, sp_tunnel_concurrency := rq_tunnel_concurrency r,
                       sp_tunnel_attempts := rq_tunnel_attempts r, sp_fd_limit := en_fd_limit e,
                       sp_representative := (rq_selection r = QN_SELECTION_UNIFORM \<or> rq_selection r = QN_SELECTION_STRATIFIED)\<rparr>)))"

definition resolve_budget :: "qn_scan_request \<Rightarrow> qn_scan_environment \<Rightarrow> qn_scan_plan \<Rightarrow> bool \<times> qn_scan_plan" where
  "resolve_budget r e p =
     (let p = p\<lparr>sp_memory_budget_bytes := (if rq_memory_auto r then auto_memory e else rq_memory_budget_bytes r)\<rparr> in
      if sp_memory_budget_bytes p = 0 then plan_error p ''memory budget must be greater than zero'' else (True, p))"

definition auto_candidates :: "qn_scan_environment \<Rightarrow> qn_scan_plan \<Rightarrow> nat" where
  "auto_candidates e p =
     (let c = sp_memory_budget_bytes p div 2 div en_candidate_bytes e;
          c = (if c > 65536 then 65536 else c);
          c = (if sp_mode p = QN_SCAN_REACHABLE \<and> c < sp_reachable_target p then sp_reachable_target p else c);
          c = (if c < 4096 \<and> sp_planned_addresses p \<ge> 4096 then 4096 else c)
      in if c > sp_planned_addresses p then sp_planned_addresses p else c)"

definition resolve_candidates :: "qn_scan_request \<Rightarrow> qn_scan_environment \<Rightarrow> qn_scan_plan \<Rightarrow> bool \<times> qn_scan_plan" where
  "resolve_candidates r e p =
     (let c = (if rq_candidate_auto r then auto_candidates e p else rq_candidate_capacity r) in
      if c = 0 \<or> c > UINT32_MAX then plan_error p ''Candidate Capacity must be between 1 and 4294967295''
      else if sp_mode p = QN_SCAN_REACHABLE \<and> c < sp_reachable_target p
      then plan_error p ''Candidate Capacity must be at least the Reachable Target''
      else (True, p\<lparr>sp_candidate_capacity := c\<rparr>))"

definition resolve_finalists :: "qn_scan_request \<Rightarrow> qn_scan_plan \<Rightarrow> bool \<times> qn_scan_plan" where
  "resolve_finalists r p =
     (let c = sp_candidate_capacity p;
          p = (if rq_finalists_all r then p\<lparr>sp_finalists_all := True\<rparr> else p);
          most = (if sp_exact_full p then 1024 else 256);
          f = (if rq_finalists_all r then c
               else if rq_finalists_auto r then (if c < most then c else most)
               else rq_finalist_limit r)
      in if f = 0 \<or> f > c then plan_error p ''Finalist Count must be between 1 and Candidate Capacity''
         else (True, p\<lparr>sp_finalist_limit := f\<rparr>))"

definition resolve_tunnel :: "qn_scan_request \<Rightarrow> qn_scan_plan \<Rightarrow> bool \<times> qn_scan_plan" where
  "resolve_tunnel r p =
     (if \<not> rq_tunnel_enabled r then (True, p)
      else (let f = sp_finalist_limit p;
                p = p\<lparr>sp_tunnel_target := (if rq_tunnel_all r then f else rq_tunnel_target r)\<rparr>;
                p = (if sp_tunnel_target p > f then p\<lparr>sp_tunnel_target := f, sp_auto_adjusted := True\<rparr> else p);
                p = (if sp_tunnel_concurrency p > sp_tunnel_target p
                     then p\<lparr>sp_tunnel_concurrency := to_u32 (sp_tunnel_target p), sp_auto_adjusted := True\<rparr> else p)
            in if sp_tunnel_target p = 0 \<or> sp_tunnel_concurrency p = 0 \<or> sp_tunnel_attempts p = 0
               then plan_error p ''tunnel resource plan is empty''
               else (True, p)))"

definition resolve_output :: "qn_scan_request \<Rightarrow> qn_scan_plan \<Rightarrow> bool \<times> qn_scan_plan" where
  "resolve_output r p =
     (if rq_output_all r then (True, p\<lparr>sp_output_all := True, sp_output_limit := sp_finalist_limit p\<rparr>)
      else if rq_output_limit r = 0 then plan_error p ''Output Top must be greater than zero or all''
      else if rq_output_limit r > sp_finalist_limit p
      then (True, p\<lparr>sp_auto_adjusted := True, sp_output_limit := sp_finalist_limit p\<rparr>)
      else (True, p\<lparr>sp_output_limit := rq_output_limit r\<rparr>))"

definition resolve_batch :: "qn_scan_plan \<Rightarrow> bool \<times> qn_scan_plan" where
  "resolve_batch p =
     (let b = sp_verify_concurrency p * 4;
          b = (if b < 32 then 32 else b);
          b = (if b > sp_finalist_limit p then sp_finalist_limit p else b)
      in if b = 0 \<or> b > UINT32_MAX then plan_error p ''verification batch size exceeds the platform limit''
         else (True, p\<lparr>sp_verification_batch_size := to_u32 b\<rparr>))"

text \<open>The limits cut down to a smaller number of candidates.\<close>

definition cut_limits :: "nat \<Rightarrow> qn_scan_plan \<Rightarrow> qn_scan_plan" where
  "cut_limits c p =
     (let p = p\<lparr>sp_candidate_capacity := c\<rparr>;
          p = (if sp_finalist_limit p > c then p\<lparr>sp_finalist_limit := c\<rparr> else p);
          p = (if sp_output_limit p > sp_finalist_limit p then p\<lparr>sp_output_limit := sp_finalist_limit p\<rparr> else p);
          p = (if sp_verification_batch_size p > sp_finalist_limit p
               then p\<lparr>sp_verification_batch_size := to_u32 (sp_finalist_limit p)\<rparr> else p)
      in p\<lparr>sp_auto_adjusted := True\<rparr>)"

definition resolve_fit :: "qn_scan_request \<Rightarrow> qn_scan_environment \<Rightarrow> qn_scan_plan \<Rightarrow> bool \<times> qn_scan_plan" where
  "resolve_fit r e p =
     (if sp_estimated_total_bytes p \<le> sp_memory_budget_bytes p then (True, p)
      else if \<not> rq_candidate_auto r then plan_error p ''requested Candidate Capacity exceeds the memory budget''
      else (let budget = sp_memory_budget_bytes p;
                transient = (if sp_estimated_verifier_bytes p > sp_estimated_tunnel_bytes p then sp_estimated_verifier_bytes p
                             else sp_estimated_tunnel_bytes p)
            in case do { f \<leftarrow> add_u64 (sp_estimated_working_bytes p) transient; add_u64 f (en_candidate_fixed_bytes e) } of
                 None \<Rightarrow> plan_error p ''working set and verifier exceed the memory budget''
               | Some fixed \<Rightarrow>
                   if fixed \<ge> budget then plan_error p ''working set and verifier exceed the memory budget''
                   else (let cb = budget - sp_estimated_working_bytes p - transient;
                             cb = (if page_of e > 1 then cb - cb mod page_of e else cb)
                         in if cb \<le> en_candidate_fixed_bytes e then plan_error p ''memory budget cannot hold one candidate page''
                            else (let c = (cb - en_candidate_fixed_bytes e) div en_candidate_bytes e;
                                      c = (if c > sp_planned_addresses p then sp_planned_addresses p else c)
                                  in if c < sp_reachable_target p \<or> c = 0
                                     then plan_error p ''memory budget cannot retain the requested Reachable Target''
                                     else if sp_finalist_limit p > c \<and> \<not> rq_finalists_auto r \<and> \<not> rq_finalists_all r
                                     then plan_error (p\<lparr>sp_candidate_capacity := c\<rparr>) ''Finalist Count exceeds memory-adjusted Candidate Capacity''
                                     else (case memory_estimate e (cut_limits c p) of
                                             (ok, p) \<Rightarrow>
                                               if \<not> ok \<or> sp_estimated_total_bytes p > sp_memory_budget_bytes p
                                               then plan_error p ''automatic resource plan cannot fit the memory budget''
                                               else (True, p))))))"

definition resolve_done :: "qn_scan_plan \<Rightarrow> bool \<times> qn_scan_plan" where
  "resolve_done p = (True, p\<lparr>sp_valid := True\<rparr>)"

definition qn_scan_plan_resolve :: "qn_scan_request \<Rightarrow> qn_scan_environment \<Rightarrow> bool \<times> qn_scan_plan" where
  "qn_scan_plan_resolve r e =
     stages [resolve_inputs r e, resolve_scope r e, resolve_concurrency r e, resolve_budget r e, resolve_candidates r e,
       resolve_finalists r, resolve_tunnel r, resolve_output r, resolve_batch, memory_estimate e, resolve_fit r e, resolve_done] plan_zero"

section \<open>Guarded arithmetic\<close>

lemma add_u64_iff: "b \<le> UINT64_MAX \<Longrightarrow> add_u64 a b = Some c \<longleftrightarrow> c = a + b \<and> a + b \<le> UINT64_MAX"
  by (auto simp: add_u64_def)

lemma add_u64_SomeD: "add_u64 a b = Some c \<Longrightarrow> c = a + b \<and> a \<le> UINT64_MAX - b"
  by (auto simp: add_u64_def split: if_splits)

lemma mul_u64_iff: "mul_u64 a b = Some c \<longleftrightarrow> c = a * b \<and> a * b \<le> UINT64_MAX"
proof (cases "a = 0")
  case False
  then have "b \<le> UINT64_MAX div a \<longleftrightarrow> a * b \<le> UINT64_MAX" by (simp add: less_eq_div_iff_mult_less_eq mult.commute)
  then show ?thesis using False by (auto simp: mul_u64_def)
qed (auto simp: mul_u64_def)

lemma to_u32_id [simp]: "n \<le> UINT32_MAX \<Longrightarrow> to_u32 n = n" by (simp add: to_u32_def)

lemma to_u32_le [simp]: "to_u32 n \<le> UINT32_MAX"
  using mod_less_divisor [of "2 ^ 32" n] by (simp add: to_u32_def)

lemma ceil_div: "0 < d \<Longrightarrow> n div d + (if n mod d \<noteq> 0 then 1 else 0) = (n + (d - 1)) div d" for n d :: nat
proof -
  assume d: "0 < d"
  have n: "n = n div d * d + n mod d" by simp
  show ?thesis
  proof (cases "n mod d")
    case 0
    then have "n + (d - 1) = (d - 1) + n div d * d" using n by simp
    then have "(n + (d - 1)) div d = n div d" using d by (simp only: div_mult_self1) simp
    then show ?thesis using 0 by simp
  next
    case (Suc r)
    then have "r < d" using d by (metis Suc_lessD mod_less_divisor)
    moreover have "n + (d - 1) = r + (n div d + 1) * d" using n Suc d by (simp add: algebra_simps)
    ultimately have "(n + (d - 1)) div d = n div d + 1" using d by (simp only: div_mult_self1) simp
    then show ?thesis using Suc by simp
  qed
qed

lemma coverage_count_eq:
  assumes "0 < n" "n \<le> UINT64_MAX" "100 \<le> ppm" "ppm \<le> QN_COVERAGE_SCALE"
  shows "qn_coverage_count n ppm = Some ((n * ppm + 999999) div QN_COVERAGE_SCALE)"
proof -
  let ?S = "QN_COVERAGE_SCALE"
  let ?w = "n div ?S" and ?r = "n mod ?S"
  have n: "n = ?w * ?S + ?r" by simp
  have "?w * ppm \<le> ?w * ?S" "?r * ppm \<le> ?r * ?S" using assms(4) by simp_all
  moreover have "?r < ?S" by simp
  ultimately have b: "?w * ppm \<le> UINT64_MAX" "?r * ppm \<le> UINT64_MAX" using n assms(2) by linarith+
  have m: "mul_u64 ?w ppm = Some (?w * ppm)" "mul_u64 ?r ppm = Some (?r * ppm)" using b by (simp_all add: mul_u64_iff)
  let ?t = "?r * ppm div ?S + (if ?r * ppm mod ?S \<noteq> 0 then 1 else 0)"
  have t: "?t = (?r * ppm + 999999) div ?S" using ceil_div [of ?S "?r * ppm"] by simp
  have "a + 999999 < (b + 1) * ?S" if "a \<le> b * ?S" for a b :: nat using that by simp
  then have "?r * ppm + 999999 < (?r + 1) * ?S" using \<open>?r * ppm \<le> ?r * ?S\<close> by blast
  then have "?t < ?r + 1" unfolding t by (simp add: div_less_iff_less_mult)
  then have "?w * ppm + ?t \<le> n" using n \<open>?w * ppm \<le> ?w * ?S\<close> by linarith
  then have "add_u64 (?w * ppm) ?t = Some (?w * ppm + ?t)" using assms(2) \<open>?t < ?r + 1\<close> by (subst add_u64_iff) auto
  moreover have "?w * ppm + ?t = (n * ppm + 999999) div ?S"
  proof -
    have "m * ppm + 999999 = (r * ppm + 999999) + (w * ppm) * ?S" if "m = w * ?S + r" for m w r using that by (simp add: algebra_simps)
    then have "n * ppm + 999999 = (?r * ppm + 999999) + (?w * ppm) * ?S" using n by blast
    then show ?thesis unfolding t by simp
  qed
  ultimately show ?thesis using assms m by (simp add: qn_coverage_count_def)
qed

lemma coverage_count_le:
  "n * ppm \<le> n * QN_COVERAGE_SCALE \<Longrightarrow> (n * ppm + 999999) div QN_COVERAGE_SCALE \<le> n"
  by linarith

lemma stages_Cons_True: "stages (f # fs) p = (True, q) \<longleftrightarrow> (\<exists>p'. f p = (True, p') \<and> stages fs p' = (True, q))"
  by (auto split: prod.splits bool.splits)

section \<open>Names and presets\<close>

lemma scan_names_back:
  "qn_scan_mode_parse (qn_scan_mode_str m) = Some m" "qn_selection_parse (qn_selection_str s) = Some s" "qn_rank_policy_parse (qn_rank_policy_str k) = Some k"
  subgoal by (cases m) (simp_all add: qn_scan_mode_parse_def scan_modes_def lc_def)
  subgoal by (cases s) (simp_all add: qn_selection_parse_def selections_def lc_def)
  subgoal by (cases k) (simp_all add: qn_rank_policy_parse_def rank_policies_def lc_def)
  done

lemma request_equal_iff: "qn_scan_request_equal a b \<longleftrightarrow> a = b"
proof
  assume "qn_scan_request_equal a b"
  then show "a = b" unfolding qn_scan_request_equal_def by (intro qn_scan_request.equality) simp_all
qed (simp add: qn_scan_request_equal_def)

text \<open>Every preset is a valid request and is recognised as itself.\<close>

lemma presets_valid: "preset \<noteq> QN_PRESET_CUSTOM \<Longrightarrow> qn_scan_request_validate (qn_scan_preset_apply r preset) = None"
  by (cases preset) (simp_all add: qn_scan_preset_apply_def qn_scan_request_defaults_def qn_scan_request_validate_def)

lemma presets_detected: "preset \<noteq> QN_PRESET_CUSTOM \<Longrightarrow> qn_scan_preset_detect (qn_scan_preset_apply r preset) = preset"
  by (cases preset) (simp_all add: qn_scan_preset_detect_def request_equal_iff qn_scan_preset_apply_def qn_scan_request_defaults_def)

end
