(* ===== verification/Scan_Plan_Sound.thy ===== *)
theory Scan_Plan_Sound
  imports Scan_Plan
begin

text \<open>
  What a resolved plan promises: it fits the memory budget and the file descriptors, its limits
  are consistent, and nothing the user stated explicitly was changed.  The needs of a plan are
  stated in plain arithmetic; that the guarded 64-bit computation of the code agrees with them is
  proved first.
\<close>

section \<open>Needs\<close>

definition ceil_to :: "nat \<Rightarrow> nat \<Rightarrow> nat" where
  "ceil_to page n = (if page \<le> 1 then n else (n + (page - 1)) div page * page)"

definition candidate_need :: "qn_scan_environment \<Rightarrow> qn_scan_plan \<Rightarrow> nat" where
  "candidate_need e p = ceil_to (page_of e) (sp_candidate_capacity p * en_candidate_bytes e + en_candidate_fixed_bytes e)"

definition verifier_need :: "qn_scan_environment \<Rightarrow> qn_scan_plan \<Rightarrow> nat" where
  "verifier_need e p = (sp_verify_concurrency p + sp_stability_concurrency p) * en_verifier_slot_bytes e +
     sp_verification_batch_size p * en_verifier_result_bytes e + en_verifier_fixed_bytes e"

definition tunnel_need :: "qn_scan_environment \<Rightarrow> qn_scan_plan \<Rightarrow> nat" where
  "tunnel_need e p = (if sp_tunnel_enabled p
     then sp_tunnel_concurrency p * (en_verifier_slot_bytes e + en_verifier_result_bytes e + en_verifier_fixed_bytes e + QN_PLAN_TUNNEL_WORKER_BYTES)
     else 0)"

definition working_need :: "qn_scan_environment \<Rightarrow> nat" where
  "working_need e = ceil_to (page_of e) (en_working_bytes e)"

definition memory_need :: "qn_scan_environment \<Rightarrow> qn_scan_plan \<Rightarrow> nat" where
  "memory_need e p = candidate_need e p + max (verifier_need e p) (tunnel_need e p) + working_need e"

definition fds_need :: "qn_scan_plan \<Rightarrow> nat" where
  "fds_need p = QN_PLAN_FD_RESERVE + max (sp_scan_concurrency p) (max (sp_verify_concurrency p + sp_stability_concurrency p)
     (if sp_tunnel_enabled p then QN_PLAN_TUNNEL_FDS * sp_tunnel_concurrency p else 0))"

text \<open>The values fit the C types of the fields they stand for.\<close>

definition request_fits :: "qn_scan_request \<Rightarrow> bool" where
  "request_fits r \<longleftrightarrow> rq_scan_concurrency r \<le> UINT32_MAX \<and> rq_verify_concurrency r \<le> UINT32_MAX \<and>
     rq_stability_concurrency r \<le> UINT32_MAX \<and> rq_tunnel_concurrency r \<le> UINT32_MAX \<and> rq_memory_budget_bytes r \<le> UINT64_MAX"

definition environment_fits :: "qn_scan_environment \<Rightarrow> bool" where
  "environment_fits e \<longleftrightarrow> en_total_addresses e \<le> UINT64_MAX \<and> en_fd_limit e \<le> UINT64_MAX \<and> en_candidate_fixed_bytes e \<le> UINT64_MAX \<and>
     en_verifier_slot_bytes e \<le> UINT64_MAX \<and> en_verifier_result_bytes e \<le> UINT64_MAX \<and> en_verifier_fixed_bytes e \<le> UINT64_MAX \<and>
     en_working_bytes e \<le> UINT64_MAX \<and> en_page_size e \<le> UINT64_MAX"

section \<open>Pages\<close>

lemma ceil_to_alt: "ceil_to page n = (if page > 1 \<and> n mod page \<noteq> 0 then n + (page - n mod page) else n)"
proof (cases "page > 1")
  case True
  define q r where "q = n div page" and "r = n mod page"
  have n: "n = q * page + r" and r: "r < page" using True by (simp_all add: q_def r_def)
  have "(n + (page - 1)) div page = q + (if r \<noteq> 0 then 1 else 0)" using True ceil_div [of page n] by (simp add: q_def r_def)
  then have c: "ceil_to page n = (q + (if r \<noteq> 0 then 1 else 0)) * page" using True by (simp add: ceil_to_def)
  have "q * page + page = n + (page - r)" "r = 0 \<Longrightarrow> q * page = n" using n r by simp_all
  then show ?thesis using True c r_def by (cases "r = 0") (simp_all add: add_mult_distrib)
qed (simp add: ceil_to_def)

lemma ceil_to_ge: "n \<le> ceil_to page n" unfolding ceil_to_alt by (auto split: if_splits intro: le_add1 simp del: diff_is_0_eq Nat.add_diff_assoc Nat.diff_add_assoc)

lemma page_up_True: "page_up page n = Some m \<Longrightarrow> m = ceil_to page n"
  by (auto simp: page_up_def ceil_to_alt add_u64_def split: if_splits)

lemma page_up_fits: "ceil_to page n \<le> UINT64_MAX \<Longrightarrow> page_up page n = Some (ceil_to page n)"
  by (auto simp: page_up_def ceil_to_alt add_u64_def split: if_splits)

lemma ceil_to_le_floor:
  assumes "n \<le> b - (if page > 1 then b mod page else 0)"
  shows "ceil_to page n \<le> b - (if page > 1 then b mod page else 0)"
proof (cases "page > 1")
  case True
  then have "n \<le> b div page * page" using assms by (simp add: minus_mod_eq_div_mult)
  then have "(n + (page - 1)) div page \<le> ((page - 1) + b div page * page) div page" by (intro div_le_mono) simp
  also have "\<dots> = b div page" using True by (simp only: div_mult_self1) simp
  finally show ?thesis using True by (simp add: ceil_to_def minus_mod_eq_div_mult)
qed (use assms in \<open>simp add: ceil_to_def\<close>)

section \<open>The guarded estimate\<close>

definition estimated :: "qn_scan_environment \<Rightarrow> qn_scan_plan \<Rightarrow> qn_scan_plan" where
  "estimated e p = p\<lparr>sp_estimated_candidate_bytes := candidate_need e p, sp_estimated_verifier_bytes := verifier_need e p,
     sp_estimated_tunnel_bytes := tunnel_need e p, sp_estimated_working_bytes := working_need e, sp_estimated_total_bytes := memory_need e p\<rparr>"

lemma candidate_memory_True: "candidate_memory e p = Some c \<Longrightarrow> ceil_to (page_of e) c = candidate_need e p"
  by (auto simp: candidate_memory_def candidate_need_def mul_u64_iff add_u64_def split: bind_splits if_splits)

lemma verifier_memory_True: "verifier_memory e p = Some v \<Longrightarrow> v = verifier_need e p"
  by (auto simp: verifier_memory_def verifier_need_def mul_u64_iff add_u64_def split: bind_splits if_splits)

lemma tunnel_memory_True: "tunnel_memory e p = Some v \<Longrightarrow> v = tunnel_need e p"
  by (auto simp: tunnel_memory_def tunnel_need_def mul_u64_iff add_u64_def split: bind_splits if_splits)

lemma estimate_True:
  assumes "memory_estimate e p = (True, q)"
  shows "q = estimated e p"
proof -
  obtain c v where cv: "candidate_memory e p = Some c" "verifier_memory e p = Some v"
    using assms by (cases "candidate_memory e p"; cases "verifier_memory e p") (auto simp: memory_estimate_def plan_error_def Let_def)
  obtain u where u: "tunnel_memory e p = Some u"
    using assms cv by (cases "tunnel_memory e p") (auto simp: memory_estimate_def plan_error_def Let_def)
  obtain c' w where cw: "page_up (page_of e) c = Some c'" "page_up (page_of e) (en_working_bytes e) = Some w"
    using assms cv u by (cases "page_up (page_of e) c"; cases "page_up (page_of e) (en_working_bytes e)")
      (auto simp: memory_estimate_def plan_error_def Let_def)
  have n: "c' = candidate_need e p" "v = verifier_need e p" "u = tunnel_need e p" "w = working_need e"
    using candidate_memory_True [OF cv(1)] verifier_memory_True [OF cv(2)] tunnel_memory_True [OF u] page_up_True [OF cw(1)] page_up_True [OF cw(2)]
    by (simp_all add: working_need_def)
  show ?thesis using assms cv u cw
    by (auto simp: memory_estimate_def plan_error_def Let_def estimated_def memory_need_def n max_def add_u64_def split: option.splits if_splits)
qed

lemma estimate_fits:
  assumes m: "memory_need e p \<le> UINT64_MAX" and t: "sp_tunnel_enabled p \<Longrightarrow> sp_tunnel_concurrency p \<noteq> 0" and e: "en_verifier_slot_bytes e \<noteq> 0"
  shows "memory_estimate e p = (True, estimated e p)"
proof -
  let ?c = "sp_candidate_capacity p * en_candidate_bytes e + en_candidate_fixed_bytes e"
  have le: "candidate_need e p \<le> UINT64_MAX" "verifier_need e p \<le> UINT64_MAX" "tunnel_need e p \<le> UINT64_MAX" "working_need e \<le> UINT64_MAX"
    using m by (auto simp: memory_need_def)
  have "?c \<le> candidate_need e p" by (simp add: candidate_need_def ceil_to_ge)
  then have c: "candidate_memory e p = Some ?c" using le(1) by (simp add: candidate_memory_def mul_u64_iff add_u64_iff Option.bind_eq_Some_conv)
  have "a \<le> a * en_verifier_slot_bytes e" for a using e by simp
  from this [of "sp_verify_concurrency p + sp_stability_concurrency p"]
  have "sp_verify_concurrency p + sp_stability_concurrency p \<le> UINT64_MAX" using le(2) unfolding verifier_need_def by linarith
  then have "add_u64 (sp_verify_concurrency p) (sp_stability_concurrency p) = Some (sp_verify_concurrency p + sp_stability_concurrency p)"
    by (subst add_u64_iff) simp_all
  then have v: "verifier_memory e p = Some (verifier_need e p)"
    using le(2) by (simp add: verifier_memory_def verifier_need_def mul_u64_iff add_u64_iff Option.bind_eq_Some_conv)
  have u: "tunnel_memory e p = Some (tunnel_need e p)"
  proof (cases "sp_tunnel_enabled p")
    case True
    let ?w = "en_verifier_slot_bytes e + en_verifier_result_bytes e + en_verifier_fixed_bytes e + QN_PLAN_TUNNEL_WORKER_BYTES"
    have "?w \<le> sp_tunnel_concurrency p * ?w" using t [OF True] by simp
    also have "\<dots> = tunnel_need e p" using True by (simp add: tunnel_need_def)
    finally have "?w \<le> UINT64_MAX" using le(3) by (rule order_trans)
    then show ?thesis using True le(3) by (simp add: tunnel_memory_def tunnel_need_def mul_u64_iff add_u64_iff Option.bind_eq_Some_conv)
  qed (simp add: tunnel_memory_def tunnel_need_def)
  have pg: "page_up (page_of e) ?c = Some (candidate_need e p)" "page_up (page_of e) (en_working_bytes e) = Some (working_need e)"
    using le page_up_fits by (simp_all add: candidate_need_def working_need_def)
  have t1: "add_u64 (candidate_need e p) (max (verifier_need e p) (tunnel_need e p)) = Some (candidate_need e p + max (verifier_need e p) (tunnel_need e p))"
    using m le by (subst add_u64_iff) (auto simp: memory_need_def)
  have t2: "add_u64 (candidate_need e p + max (verifier_need e p) (tunnel_need e p)) (working_need e) = Some (memory_need e p)"
    using m le(4) by (subst add_u64_iff) (auto simp: memory_need_def)
  have mx: "(if verifier_need e p > tunnel_need e p then verifier_need e p else tunnel_need e p) = max (verifier_need e p) (tunnel_need e p)"
    by (simp add: max_def)
  show ?thesis unfolding memory_estimate_def c v u Let_def
    by (simp add: pg mx t1 t2 estimated_def)
qed

section \<open>What every stage keeps\<close>

definition scope_ok :: "qn_scan_environment \<Rightarrow> qn_scan_plan \<Rightarrow> bool" where
  "scope_ok e p \<longleftrightarrow> 0 < sp_planned_addresses p \<and> sp_planned_addresses p \<le> en_total_addresses e \<and>
     (sp_reachable_target p \<noteq> 0 \<longrightarrow> sp_mode p = QN_SCAN_REACHABLE) \<and> (sp_exact_full p \<longrightarrow> sp_planned_addresses p = en_total_addresses e)"

definition pools_ok :: "qn_scan_environment \<Rightarrow> qn_scan_plan \<Rightarrow> bool" where
  "pools_ok e p \<longleftrightarrow> 0 < sp_scan_concurrency p \<and> 0 < sp_verify_concurrency p \<and> 0 < sp_stability_concurrency p \<and>
     fds_need p \<le> sp_estimated_fds p \<and> sp_estimated_fds p \<le> en_fd_limit e"

lemma validate_tunnel: "qn_scan_request_validate r = None \<Longrightarrow> rq_tunnel_enabled r \<Longrightarrow> 0 < rq_tunnel_concurrency r \<and> rq_tunnel_concurrency r \<le> 32"
  by (auto simp: qn_scan_request_validate_def split: if_splits)

lemma inputs_True:
  assumes "resolve_inputs r e plan_zero = (True, q)"
  shows "qn_scan_request_validate r = None" "en_total_addresses e \<noteq> 0" "en_candidate_bytes e \<noteq> 0" "en_verifier_slot_bytes e \<noteq> 0"
    "sp_error q = []" "sp_reachable_target q = 0" "\<not> sp_exact_full q" "sp_tunnel_enabled q = rq_tunnel_enabled r" "sp_tunnel_concurrency q = rq_tunnel_concurrency r"
    "sp_tunnel_target q = 0"
  using assms by (auto simp: resolve_inputs_def plan_error_def plan_zero_def split: if_splits option.splits)

lemma scope_True:
  assumes "resolve_scope r e p = (True, q)" "0 < en_total_addresses e" "en_total_addresses e \<le> UINT64_MAX" "sp_reachable_target p = 0" "\<not> sp_exact_full p"
  shows "scope_ok e q" "sp_error q = sp_error p" "sp_tunnel_enabled q = sp_tunnel_enabled p" "sp_tunnel_concurrency q = sp_tunnel_concurrency p"
proof -
  have c: "0 < n \<and> n \<le> en_total_addresses e \<and> (ppm = QN_COVERAGE_SCALE \<longrightarrow> n = en_total_addresses e)"
    if "qn_coverage_count (en_total_addresses e) ppm = Some n" for ppm n
  proof -
    let ?T = "en_total_addresses e"
    have b: "100 \<le> ppm" "ppm \<le> QN_COVERAGE_SCALE" using that by (auto simp: qn_coverage_count_def split: if_splits)
    have n: "n = (?T * ppm + 999999) div QN_COVERAGE_SCALE" using coverage_count_eq [OF assms(2,3) b] that by simp
    moreover have "QN_COVERAGE_SCALE \<le> ?T * ppm + 999999"
    proof -
      have "1 * 100 \<le> ?T * ppm" using assms(2) b(1) by (intro mult_le_mono) auto
      then show ?thesis by linarith
    qed
    moreover have "?T * ppm \<le> ?T * QN_COVERAGE_SCALE" using b by simp
    ultimately show ?thesis using coverage_count_le [of ?T ppm] by (auto simp: div_greater_zero_iff)
  qed
  show "scope_ok e q" using assms c
    by (cases "rq_mode r") (auto simp: resolve_scope_def scope_ok_def plan_error_def Let_def split: if_splits option.splits)
  show "sp_error q = sp_error p" "sp_tunnel_enabled q = sp_tunnel_enabled p" "sp_tunnel_concurrency q = sp_tunnel_concurrency p"
    using assms(1) by (cases "rq_mode r"; auto simp: resolve_scope_def plan_error_def Let_def split: if_splits option.splits)+
qed

lemma cut_verifier_ok:
  assumes "2 \<le> avail" "avail < sp_verify_concurrency p + sp_stability_concurrency p" "0 < sp_verify_concurrency p"
    "sp_verify_concurrency p \<le> UINT32_MAX" "sp_stability_concurrency p \<le> UINT32_MAX"
  shows "sp_verify_concurrency (cut_verifier avail p) + sp_stability_concurrency (cut_verifier avail p) \<le> avail"
    "0 < sp_verify_concurrency (cut_verifier avail p)" "0 < sp_stability_concurrency (cut_verifier avail p)"
  using assms by (auto simp: cut_verifier_def Let_def)

lemma cut_verifier_frame:
  "cut_verifier a p = p\<lparr>sp_verify_concurrency := sp_verify_concurrency (cut_verifier a p), sp_stability_concurrency := sp_stability_concurrency (cut_verifier a p),
     sp_auto_adjusted := True\<rparr>"
  by (simp add: cut_verifier_def Let_def)

text \<open>
  The plan after the concurrency stage: the values of the request or of the machine, cut down only
  where they are automatic, and an estimate.
\<close>

lemma concurrency_shape:
  assumes q: "resolve_concurrency r e p = (True, q)"
  obtains s v t a n where "q = p\<lparr>sp_scan_concurrency := s, sp_verify_concurrency := v, sp_stability_concurrency := t, sp_auto_adjusted := a, sp_estimated_fds := n\<rparr>"
    "\<not> rq_scan_concurrency_auto r \<Longrightarrow> s = rq_scan_concurrency r" "\<not> rq_verify_concurrency_auto r \<Longrightarrow> v = rq_verify_concurrency r"
    "\<not> rq_stability_concurrency_auto r \<Longrightarrow> t = rq_stability_concurrency r"
proof -
  let ?c = "choose_concurrency r e p"
  let ?a = "fds_available e"
  obtain p1 n where p1: "p1 = ?c \<or> (p1 = cut_verifier ?a ?c \<and> rq_verify_concurrency_auto r \<and> rq_stability_concurrency_auto r)"
    and q1: "q = p1\<lparr>sp_estimated_fds := n\<rparr> \<or> (rq_scan_concurrency_auto r \<and> q = p1\<lparr>sp_scan_concurrency := to_u32 ?a, sp_auto_adjusted := True, sp_estimated_fds := n\<rparr>)"
    using q by (auto simp: resolve_concurrency_def plan_error_def Let_def split: if_splits option.splits)
  have c: "?c = p\<lparr>sp_scan_concurrency := sp_scan_concurrency ?c, sp_verify_concurrency := sp_verify_concurrency ?c, sp_stability_concurrency := sp_stability_concurrency ?c,
      sp_auto_adjusted := sp_auto_adjusted p\<rparr>" by (simp add: choose_concurrency_def)
  have k: "p1 = p\<lparr>sp_scan_concurrency := sp_scan_concurrency p1, sp_verify_concurrency := sp_verify_concurrency p1, sp_stability_concurrency := sp_stability_concurrency p1,
      sp_auto_adjusted := sp_auto_adjusted p1\<rparr>" using p1 c by (auto simp: choose_concurrency_def cut_verifier_def Let_def)
  have "q = p\<lparr>sp_scan_concurrency := sp_scan_concurrency q, sp_verify_concurrency := sp_verify_concurrency q, sp_stability_concurrency := sp_stability_concurrency q,
      sp_auto_adjusted := sp_auto_adjusted q, sp_estimated_fds := n\<rparr>" using q1 by (subst (asm) (1 2) k) auto
  moreover have "\<not> rq_scan_concurrency_auto r \<Longrightarrow> sp_scan_concurrency q = rq_scan_concurrency r" "\<not> rq_verify_concurrency_auto r \<Longrightarrow> sp_verify_concurrency q = rq_verify_concurrency r"
    "\<not> rq_stability_concurrency_auto r \<Longrightarrow> sp_stability_concurrency q = rq_stability_concurrency r"
    using p1 q1 by (auto simp: choose_concurrency_def cut_verifier_def Let_def)
  ultimately show thesis by (rule that)
qed

lemma concurrency_True:
  assumes q: "resolve_concurrency r e p = (True, q)" and r: "request_fits r" "qn_scan_request_validate r = None"
    and t: "sp_tunnel_enabled p = rq_tunnel_enabled r" "sp_tunnel_concurrency p = rq_tunnel_concurrency r"
  shows "pools_ok e q"
proof -
  let ?a = "fds_available e" and ?p = "choose_concurrency r e p"
  have w: "sp_verify_concurrency ?p \<le> UINT32_MAX" "sp_stability_concurrency ?p \<le> UINT32_MAX" "sp_scan_concurrency ?p \<le> UINT32_MAX"
    using r by (auto simp: choose_concurrency_def request_fits_def auto_verify_concurrency_def auto_stability_concurrency_def auto_scan_concurrency_def Let_def)
  have pos: "0 < sp_scan_concurrency ?p" "0 < sp_verify_concurrency ?p" "0 < sp_stability_concurrency ?p" and a: "2 \<le> ?a"
    using q by (auto simp: resolve_concurrency_def plan_error_def Let_def split: if_splits)
  obtain tf where tf: "tunnel_fds r = Some tf" "tf \<le> ?a"
    using q pos a by (cases "tunnel_fds r") (auto simp: resolve_concurrency_def plan_error_def Let_def split: if_splits)
  have tn: "(if rq_tunnel_enabled r then 3 * rq_tunnel_concurrency r else 0) = tf"
    using tf(1) by (auto simp: tunnel_fds_def mul_u64_iff)
  define over where "over = (sp_verify_concurrency ?p + sp_stability_concurrency ?p > ?a)"
  define p1 where "p1 = (if over then cut_verifier ?a ?p else ?p)"
  have p1: "sp_verify_concurrency p1 + sp_stability_concurrency p1 \<le> ?a" "0 < sp_verify_concurrency p1" "0 < sp_stability_concurrency p1"
    "sp_scan_concurrency p1 = sp_scan_concurrency ?p"
    using cut_verifier_ok [OF a _ pos(2) w(1,2)] pos by (auto simp: p1_def over_def cut_verifier_def Let_def)
  define p2 where "p2 = (if sp_scan_concurrency p1 > ?a then p1\<lparr>sp_scan_concurrency := to_u32 ?a, sp_auto_adjusted := True\<rparr> else p1)"
  have p2: "sp_verify_concurrency p2 + sp_stability_concurrency p2 \<le> ?a" "0 < sp_verify_concurrency p2" "0 < sp_stability_concurrency p2"
    "0 < sp_scan_concurrency p2" "sp_scan_concurrency p2 \<le> ?a"
    using p1 pos(1) w(3) a by (auto simp: p2_def)
  let ?ph = "sp_verify_concurrency p2 + sp_stability_concurrency p2"
  let ?ph1 = "if tf > ?ph then tf else ?ph"
  have "q = p2\<lparr>sp_estimated_fds := QN_PLAN_FD_RESERVE + (if sp_scan_concurrency p2 > ?ph1 then sp_scan_concurrency p2 else ?ph1)\<rparr>"
    using q pos a tf by (auto simp: resolve_concurrency_def plan_error_def Let_def p2_def p1_def over_def split: if_splits)
  moreover have "QN_PLAN_FD_RESERVE + ?a = en_fd_limit e" using a by (auto simp: fds_available_def split: if_splits)
  moreover have "sp_tunnel_enabled p2 = rq_tunnel_enabled r" "sp_tunnel_concurrency p2 = rq_tunnel_concurrency r"
    using t by (auto simp: p2_def p1_def cut_verifier_def choose_concurrency_def Let_def)
  ultimately show ?thesis using p2 tf(2) tn by (auto simp: pools_ok_def fds_need_def split: if_splits)
qed

section \<open>Budget, candidates, finalists, output and batch\<close>

definition limits_ok :: "qn_scan_plan \<Rightarrow> bool" where
  "limits_ok p \<longleftrightarrow> 0 < sp_output_limit p \<and> sp_output_limit p \<le> sp_finalist_limit p \<and> sp_finalist_limit p \<le> sp_candidate_capacity p \<and>
     sp_candidate_capacity p \<le> UINT32_MAX \<and> sp_reachable_target p \<le> sp_candidate_capacity p \<and>
     0 < sp_verification_batch_size p \<and> sp_verification_batch_size p \<le> sp_finalist_limit p"

lemmas middle_defs = resolve_budget_def resolve_candidates_def resolve_finalists_def resolve_tunnel_def resolve_output_def
  resolve_batch_def plan_error_def Let_def

lemma budget_True:
  assumes "resolve_budget r e p = (True, q)"
  shows "\<exists>b. q = p\<lparr>sp_memory_budget_bytes := b\<rparr> \<and> b = (if rq_memory_auto r then auto_memory e else rq_memory_budget_bytes r) \<and> b \<noteq> 0"
  using assms by (auto simp: middle_defs split: if_splits)

lemma candidates_True:
  assumes "resolve_candidates r e p = (True, q)"
  shows "\<exists>c. q = p\<lparr>sp_candidate_capacity := c\<rparr> \<and> c = (if rq_candidate_auto r then auto_candidates e p else rq_candidate_capacity r) \<and>
    c \<noteq> 0 \<and> c \<le> UINT32_MAX \<and> (sp_mode p = QN_SCAN_REACHABLE \<longrightarrow> sp_reachable_target p \<le> c)"
  using assms by (auto simp: middle_defs split: if_splits)

lemma finalists_True:
  assumes "resolve_finalists r p = (True, q)"
  shows "\<exists>f a. q = p\<lparr>sp_finalists_all := a, sp_finalist_limit := f\<rparr> \<and> f \<noteq> 0 \<and> f \<le> sp_candidate_capacity p \<and>
    (rq_finalists_all r \<longrightarrow> f = sp_candidate_capacity p) \<and> (\<not> rq_finalists_all r \<and> \<not> rq_finalists_auto r \<longrightarrow> f = rq_finalist_limit r)"
proof -
  have "q = p\<lparr>sp_finalists_all := sp_finalists_all q, sp_finalist_limit := sp_finalist_limit q\<rparr>" 
    using assms by (auto simp: middle_defs split: if_splits)
  moreover have "sp_finalist_limit q \<noteq> 0 \<and> sp_finalist_limit q \<le> sp_candidate_capacity p \<and> (rq_finalists_all r \<longrightarrow> sp_finalist_limit q = sp_candidate_capacity p) \<and>
      (\<not> rq_finalists_all r \<and> \<not> rq_finalists_auto r \<longrightarrow> sp_finalist_limit q = rq_finalist_limit r)"
    using assms by (auto simp: middle_defs split: if_splits)
  ultimately show ?thesis by metis
qed

lemma tunnel_True:
  assumes "resolve_tunnel r p = (True, q)"
  shows "\<exists>t c a. q = p\<lparr>sp_tunnel_target := t, sp_tunnel_concurrency := c, sp_auto_adjusted := a\<rparr> \<and> c \<le> sp_tunnel_concurrency p \<and> (rq_tunnel_enabled r \<longrightarrow> 0 < c)"
proof -
  have "q = p\<lparr>sp_tunnel_target := sp_tunnel_target q, sp_tunnel_concurrency := sp_tunnel_concurrency q, sp_auto_adjusted := sp_auto_adjusted q\<rparr>"
    using assms by (auto simp: middle_defs split: if_splits)
  moreover have "sp_tunnel_concurrency q \<le> sp_tunnel_concurrency p \<and> (rq_tunnel_enabled r \<longrightarrow> 0 < sp_tunnel_concurrency q)"
    using assms mod_less_eq_dividend order_trans by (auto simp: middle_defs to_u32_def split: if_splits intro: order_trans [OF mod_less_eq_dividend])
  ultimately show ?thesis by metis
qed

lemma output_True:
  assumes "resolve_output r p = (True, q)" "sp_finalist_limit p \<noteq> 0"
  shows "\<exists>n a b. q = p\<lparr>sp_output_all := a, sp_auto_adjusted := b, sp_output_limit := n\<rparr> \<and> 0 < n \<and>
    n = (if rq_output_all r then sp_finalist_limit p else min (rq_output_limit r) (sp_finalist_limit p))"
proof -
  have "q = p\<lparr>sp_output_all := sp_output_all q, sp_auto_adjusted := sp_auto_adjusted q, sp_output_limit := sp_output_limit q\<rparr>"
    using assms by (auto simp: middle_defs split: if_splits)
  moreover have "0 < sp_output_limit q \<and> sp_output_limit q = (if rq_output_all r then sp_finalist_limit p else min (rq_output_limit r) (sp_finalist_limit p))"
    using assms by (auto simp: middle_defs split: if_splits)
  ultimately show ?thesis by metis
qed

lemma batch_True:
  assumes "resolve_batch p = (True, q)"
  shows "\<exists>b. q = p\<lparr>sp_verification_batch_size := b\<rparr> \<and> 0 < b \<and> b \<le> sp_finalist_limit p"
  using assms by (auto simp: middle_defs split: if_splits)

section \<open>Cutting a plan down to the budget\<close>

lemma cut_limits_eq:
  assumes "sp_finalist_limit p \<le> UINT32_MAX"
  shows "cut_limits c p = p\<lparr>sp_candidate_capacity := c, sp_finalist_limit := min (sp_finalist_limit p) c,
    sp_output_limit := min (sp_output_limit p) (min (sp_finalist_limit p) c),
    sp_verification_batch_size := min (sp_verification_batch_size p) (min (sp_finalist_limit p) c), sp_auto_adjusted := True\<rparr>"
  using assms by (auto simp: cut_limits_def Let_def min_def)

text \<open>The bytes left for candidates, in whole pages, and how many candidates they hold.\<close>

definition room :: "qn_scan_environment \<Rightarrow> qn_scan_plan \<Rightarrow> nat" where
  "room e p = (let b = sp_memory_budget_bytes p - working_need e - max (verifier_need e p) (tunnel_need e p)
     in if page_of e > 1 then b - b mod page_of e else b)"

definition room_candidates :: "qn_scan_environment \<Rightarrow> qn_scan_plan \<Rightarrow> nat" where
  "room_candidates e p = min ((room e p - en_candidate_fixed_bytes e) div en_candidate_bytes e) (sp_planned_addresses p)"

lemma room_le: "room e p \<le> sp_memory_budget_bytes p - working_need e - max (verifier_need e p) (tunnel_need e p)"
  by (cases "page_of e > 1") (simp_all only: room_def Let_def if_True if_False diff_le_self order_refl)

lemma candidate_need_room: "en_candidate_fixed_bytes e < room e p \<Longrightarrow> 0 < en_candidate_bytes e \<Longrightarrow>
  c \<le> (room e p - en_candidate_fixed_bytes e) div en_candidate_bytes e \<Longrightarrow> sp_candidate_capacity q = c \<Longrightarrow> candidate_need e q \<le> room e p"
proof -
  assume f: "en_candidate_fixed_bytes e < room e p" and b: "0 < en_candidate_bytes e"
    and c: "c \<le> (room e p - en_candidate_fixed_bytes e) div en_candidate_bytes e" and q: "sp_candidate_capacity q = c"
  have "c * en_candidate_bytes e \<le> room e p - en_candidate_fixed_bytes e" using c b by (simp add: less_eq_div_iff_mult_less_eq)
  then have l: "c * en_candidate_bytes e + en_candidate_fixed_bytes e \<le> room e p" using f by linarith
  let ?b = "sp_memory_budget_bytes p - working_need e - max (verifier_need e p) (tunnel_need e p)"
  have r: "room e p = ?b - (if page_of e > 1 then ?b mod page_of e else 0)" by (simp add: room_def Let_def)
  show ?thesis using l ceil_to_le_floor [of _ ?b "page_of e"] unfolding candidate_need_def q r by blast
qed

text \<open>A plan that does not fit loses candidates, and with the candidates that have room it fits.\<close>

lemma fewer_candidates:
  assumes big: "sp_memory_budget_bytes p < memory_need e p"
    and fit: "working_need e + max (verifier_need e p) (tunnel_need e p) < sp_memory_budget_bytes p" "en_candidate_fixed_bytes e < room e p" "0 < en_candidate_bytes e"
  shows "room_candidates e p \<le> sp_candidate_capacity p"
proof (rule ccontr)
  assume "\<not> room_candidates e p \<le> sp_candidate_capacity p"
  then have "sp_candidate_capacity p \<le> (room e p - en_candidate_fixed_bytes e) div en_candidate_bytes e" by (simp add: room_candidates_def)
  then have "candidate_need e p \<le> room e p" using candidate_need_room [OF fit(2,3)] by blast
  then show False using room_le [of e p] big fit(1) unfolding memory_need_def by linarith
qed

lemma cut_fits:
  assumes fit: "working_need e + max (verifier_need e p) (tunnel_need e p) < sp_memory_budget_bytes p" "en_candidate_fixed_bytes e < room e p" "0 < en_candidate_bytes e"
    and f: "sp_finalist_limit p \<le> UINT32_MAX"
  shows "memory_need e (cut_limits (room_candidates e p) p) \<le> sp_memory_budget_bytes p"
proof -
  let ?q = "cut_limits (room_candidates e p) p"
  have "candidate_need e ?q \<le> room e p"
    by (rule candidate_need_room [OF fit(2,3)]) (simp_all add: cut_limits_eq [OF f] room_candidates_def)
  moreover have "verifier_need e ?q \<le> verifier_need e p" by (simp add: verifier_need_def cut_limits_eq [OF f])
  moreover have "tunnel_need e ?q = tunnel_need e p" by (simp add: tunnel_need_def cut_limits_eq [OF f])
  ultimately show ?thesis using room_le [of e p] fit(1) unfolding memory_need_def by linarith
qed

lemma estimated_idem [simp]: "estimated e (estimated e p) = estimated e p"
  by (simp add: estimated_def candidate_need_def verifier_need_def tunnel_need_def memory_need_def)

lemma estimated_needs [simp]:
  "memory_need e (estimated e p) = memory_need e p" "candidate_need e (estimated e p) = candidate_need e p"
  "verifier_need e (estimated e p) = verifier_need e p" "tunnel_need e (estimated e p) = tunnel_need e p"
  by (simp_all add: estimated_def candidate_need_def verifier_need_def tunnel_need_def memory_need_def)

lemma estimated_budget [simp]: "sp_memory_budget_bytes (estimated e p) = sp_memory_budget_bytes p" by (simp add: estimated_def)

text \<open>The last stage on an estimated plan, in terms of needs: three outcomes.\<close>

lemma fit_cases:
  assumes e: "estimated e p = p" and env: "environment_fits e" "0 < en_candidate_bytes e" "en_verifier_slot_bytes e \<noteq> 0"
    and f: "sp_finalist_limit p \<le> UINT32_MAX" and b: "sp_memory_budget_bytes p \<le> UINT64_MAX"
    and t: "sp_tunnel_enabled p \<longrightarrow> sp_tunnel_concurrency p \<noteq> 0"
  obtains (fits) "memory_need e p \<le> sp_memory_budget_bytes p" "resolve_fit r e p = (True, p)"
  | (cut) "sp_memory_budget_bytes p < memory_need e p" "rq_candidate_auto r" "room_candidates e p \<noteq> 0" "sp_reachable_target p \<le> room_candidates e p"
      "room_candidates e p \<le> sp_candidate_capacity p" "sp_finalist_limit p \<le> room_candidates e p \<or> rq_finalists_auto r \<or> rq_finalists_all r"
      "memory_need e (cut_limits (room_candidates e p) p) \<le> sp_memory_budget_bytes p"
      "resolve_fit r e p = (True, estimated e (cut_limits (room_candidates e p) p))"
  | (fails) q where "resolve_fit r e p = (False, q)" "sp_error q \<noteq> ''automatic resource plan cannot fit the memory budget''"
proof (cases "memory_need e p \<le> sp_memory_budget_bytes p")
  case True
  moreover have "sp_estimated_total_bytes p = memory_need e p" by (subst e [symmetric]) (simp add: estimated_def)
  ultimately show thesis using fits by (simp add: resolve_fit_def)
next
  case False
  let ?M = "max (verifier_need e p) (tunnel_need e p)" and ?w = "working_need e" and ?F = "en_candidate_fixed_bytes e"
  have s: "sp_estimated_total_bytes p = memory_need e p" "sp_estimated_working_bytes p = ?w" "sp_estimated_verifier_bytes p = verifier_need e p"
      "sp_estimated_tunnel_bytes p = tunnel_need e p"
    by (subst e [symmetric], simp add: estimated_def)+
  have tr: "(if sp_estimated_verifier_bytes p > sp_estimated_tunnel_bytes p then sp_estimated_verifier_bytes p else sp_estimated_tunnel_bytes p) = ?M"
    by (simp add: s max_def)
  have fail: ?thesis if "resolve_fit r e p = plan_error q m" "m \<noteq> ''automatic resource plan cannot fit the memory budget''" for q m
    using fails [of "q\<lparr>sp_error := m, sp_valid := False\<rparr>"] that by (simp add: plan_error_def)
  have c1: "(memory_need e p \<le> sp_memory_budget_bytes p) = False" using False by simp
  let ?bind = "do { f \<leftarrow> add_u64 ?w ?M; add_u64 f ?F }"
  have bind_le: "x = ?w + ?M + ?F" if "?bind = Some x" for x using that by (auto simp: add_u64_def split: bind_splits if_splits)
  have rm: "(if page_of e > 1 then (sp_memory_budget_bytes p - ?w - ?M) - (sp_memory_budget_bytes p - ?w - ?M) mod page_of e else sp_memory_budget_bytes p - ?w - ?M) = room e p"
    by (simp add: room_def Let_def)
  note rules = resolve_fit_def Let_def tr s(1,2) option.case rm c1 if_True if_False simp_thms
  consider (given) "\<not> rq_candidate_auto r" | (over) "rq_candidate_auto r" "sp_memory_budget_bytes p \<le> ?w + ?M + ?F"
    | (page) "rq_candidate_auto r" "?w + ?M + ?F < sp_memory_budget_bytes p" "room e p \<le> ?F"
    | (ok) "rq_candidate_auto r \<and> ?w + ?M + ?F < sp_memory_budget_bytes p \<and> ?F < room e p" by linarith
  then show thesis
  proof cases
    case given
    then have "rq_candidate_auto r = False" by simp
    then show ?thesis by (intro fail [of p "''requested Candidate Capacity exceeds the memory budget''"]) (simp_all only: rules, simp)
  next
    case over
    then have a: "rq_candidate_auto r = True" by simp
    have "resolve_fit r e p = plan_error p ''working set and verifier exceed the memory budget''"
    proof (cases ?bind)
      case None
      then show ?thesis using a by (simp only: rules)
    next
      case (Some x)
      then have "(sp_memory_budget_bytes p \<le> x) = True" using bind_le over by simp
      then show ?thesis using a Some by (simp only: rules)
    qed
    then show ?thesis by (rule fail) simp
  next
    case page
    then have "?bind = Some (?w + ?M + ?F)" using b by (auto simp: add_u64_def)
    moreover have "rq_candidate_auto r = True" "(sp_memory_budget_bytes p \<le> ?w + ?M + ?F) = False" "(room e p \<le> ?F) = True" using page by simp_all
    ultimately have "resolve_fit r e p = plan_error p ''memory budget cannot hold one candidate page''" by (simp only: rules)
    then show ?thesis by (rule fail) simp
  next
    case ok
    then have bind: "do { f \<leftarrow> add_u64 ?w ?M; add_u64 f ?F } = Some (?w + ?M + ?F)" using b by (auto simp: add_u64_def)
    have wm: "?w + ?M < sp_memory_budget_bytes p" using ok by linarith
    let ?c = "room_candidates e p"
    have cf: "memory_need e (cut_limits ?c p) \<le> sp_memory_budget_bytes p" by (rule cut_fits [OF wm _ env(2) f]) (use ok in simp)
    have me: "memory_estimate e (cut_limits ?c p) = (True, estimated e (cut_limits ?c p))"
      by (rule estimate_fits) (use cf b t env in \<open>auto simp: cut_limits_eq [OF f]\<close>)
    have bud: "sp_estimated_total_bytes (estimated e (cut_limits ?c p)) \<le> sp_memory_budget_bytes (estimated e (cut_limits ?c p))"
      using cf by (simp add: estimated_def cut_limits_eq [OF f])
    have rc: "(if (room e p - ?F) div en_candidate_bytes e > sp_planned_addresses p then sp_planned_addresses p else (room e p - ?F) div en_candidate_bytes e) = ?c"
      by (simp add: room_candidates_def min_def)
    have c: "(memory_need e p \<le> sp_memory_budget_bytes p) = False" "rq_candidate_auto r = True" "(sp_memory_budget_bytes p \<le> ?w + ?M + ?F) = False"
        "(room e p \<le> ?F) = False"
        "(sp_memory_budget_bytes (estimated e (cut_limits ?c p)) < sp_estimated_total_bytes (estimated e (cut_limits ?c p))) = False"
      using False ok bud by auto
    have rf: "resolve_fit r e p =
        (if ?c < sp_reachable_target p \<or> ?c = 0 then plan_error p ''memory budget cannot retain the requested Reachable Target''
         else if sp_finalist_limit p > ?c \<and> \<not> rq_finalists_auto r \<and> \<not> rq_finalists_all r
         then plan_error (p\<lparr>sp_candidate_capacity := ?c\<rparr>) ''Finalist Count exceeds memory-adjusted Candidate Capacity''
         else (True, estimated e (cut_limits ?c p)))"
      by (simp only: resolve_fit_def Let_def tr s(1,2) bind option.case rm rc me prod.case c if_True if_False simp_thms)
    show thesis
    proof (cases "?c < sp_reachable_target p \<or> ?c = 0 \<or> sp_finalist_limit p > ?c \<and> \<not> rq_finalists_auto r \<and> \<not> rq_finalists_all r")
      case True
      then show ?thesis using fail rf by (auto split: if_splits)
    next
      case good: False
      have "?c \<le> sp_candidate_capacity p" by (rule fewer_candidates) (use False wm ok env in auto)
      then show ?thesis using cut False ok good cf rf by auto
    qed
  qed
qed

section \<open>All stages\<close>

text \<open>The number of addresses a request asks for.\<close>

definition planned_for :: "qn_scan_request \<Rightarrow> nat \<Rightarrow> nat" where
  "planned_for r n = (case rq_mode r of
      QN_SCAN_FULL \<Rightarrow> n
    | QN_SCAN_COVERAGE \<Rightarrow> (n * rq_coverage_ppm r + 999999) div QN_COVERAGE_SCALE
    | QN_SCAN_BUDGET \<Rightarrow> min (rq_address_budget r) n
    | QN_SCAN_REACHABLE \<Rightarrow> n
    | QN_SCAN_AUTO \<Rightarrow> if n \<le> 65536 then n else (n * 100000 + 999999) div QN_COVERAGE_SCALE)"

text \<open>What was stated explicitly is in the plan as stated.\<close>

definition honours :: "qn_scan_request \<Rightarrow> qn_scan_environment \<Rightarrow> qn_scan_plan \<Rightarrow> bool" where
  "honours r e p \<longleftrightarrow>
     sp_planned_addresses p = planned_for r (en_total_addresses e) \<and>
     (\<not> rq_candidate_auto r \<longrightarrow> sp_candidate_capacity p = rq_candidate_capacity r) \<and>
     (\<not> rq_finalists_all r \<and> \<not> rq_finalists_auto r \<longrightarrow> sp_finalist_limit p = rq_finalist_limit r) \<and>
     (rq_finalists_all r \<longrightarrow> sp_finalist_limit p = sp_candidate_capacity p) \<and>
     sp_output_limit p = (if rq_output_all r then sp_finalist_limit p else min (rq_output_limit r) (sp_finalist_limit p)) \<and>
     (\<not> rq_memory_auto r \<longrightarrow> sp_memory_budget_bytes p = rq_memory_budget_bytes r) \<and>
     (\<not> rq_scan_concurrency_auto r \<longrightarrow> sp_scan_concurrency p = rq_scan_concurrency r) \<and>
     (\<not> rq_verify_concurrency_auto r \<longrightarrow> sp_verify_concurrency p = rq_verify_concurrency r) \<and>
     (\<not> rq_stability_concurrency_auto r \<longrightarrow> sp_stability_concurrency p = rq_stability_concurrency r)"

definition ready :: "qn_scan_request \<Rightarrow> qn_scan_environment \<Rightarrow> qn_scan_plan \<Rightarrow> bool" where
  "ready r e p \<longleftrightarrow> scope_ok e p \<and> pools_ok e p \<and> limits_ok p \<and> honours r e p \<and> sp_error p = [] \<and>
     sp_memory_budget_bytes p \<le> UINT64_MAX \<and> (sp_tunnel_enabled p \<longrightarrow> sp_tunnel_concurrency p \<noteq> 0)"

lemma scope_planned:
  assumes "resolve_scope r e p = (True, q)" "0 < en_total_addresses e" "en_total_addresses e \<le> UINT64_MAX" "qn_scan_request_validate r = None"
  shows "sp_planned_addresses q = planned_for r (en_total_addresses e)"
proof -
  have "100 \<le> rq_coverage_ppm r" "rq_coverage_ppm r \<le> QN_COVERAGE_SCALE" using assms(4) by (auto simp: qn_scan_request_validate_def split: if_splits)
  then have "qn_coverage_count (en_total_addresses e) (rq_coverage_ppm r) = Some ((en_total_addresses e * rq_coverage_ppm r + 999999) div QN_COVERAGE_SCALE)"
    "qn_coverage_count (en_total_addresses e) 100000 = Some ((en_total_addresses e * 100000 + 999999) div QN_COVERAGE_SCALE)"
    using coverage_count_eq [OF assms(2,3)] by simp_all
  then show ?thesis using assms(1)
    by (cases "rq_mode r") (auto simp: resolve_scope_def planned_for_def plan_error_def Let_def min_def split: if_splits)
qed

lemma budget_bound: "request_fits r \<Longrightarrow> (if rq_memory_auto r then auto_memory e else rq_memory_budget_bytes r) \<le> UINT64_MAX"
  by (auto simp: request_fits_def auto_memory_def Let_def)

lemma stages_ready:
  assumes st: "stages [resolve_inputs r e, resolve_scope r e, resolve_concurrency r e, resolve_budget r e, resolve_candidates r e,
       resolve_finalists r, resolve_tunnel r, resolve_output r, resolve_batch] plan_zero = (True, p)"
    and fits: "request_fits r" "environment_fits e"
  shows "ready r e p" "en_candidate_bytes e \<noteq> 0" "en_verifier_slot_bytes e \<noteq> 0"
proof -
  from st obtain p1 p2 p3 p4 p5 p6 p7 p8 where
    s: "resolve_inputs r e plan_zero = (True, p1)" "resolve_scope r e p1 = (True, p2)" "resolve_concurrency r e p2 = (True, p3)"
      "resolve_budget r e p3 = (True, p4)" "resolve_candidates r e p4 = (True, p5)" "resolve_finalists r p5 = (True, p6)"
      "resolve_tunnel r p6 = (True, p7)" "resolve_output r p7 = (True, p8)" "resolve_batch p8 = (True, p)"
    by (simp only: stages_Cons_True stages.simps(1) prod.inject) blast
  note i = inputs_True [OF s(1)]
  show "en_candidate_bytes e \<noteq> 0" "en_verifier_slot_bytes e \<noteq> 0" using i by simp_all
  have e: "0 < en_total_addresses e" "en_total_addresses e \<le> UINT64_MAX" using i fits(2) by (simp_all add: environment_fits_def)
  note sc = scope_True [OF s(2) e i(6,7)] and pl = scope_planned [OF s(2) e i(1)]
  have po: "pools_ok e p3" by (rule concurrency_True [OF s(3) fits(1) i(1)]) (simp_all add: sc i)
  obtain sn v t a n where c: "p3 = p2\<lparr>sp_scan_concurrency := sn, sp_verify_concurrency := v, sp_stability_concurrency := t, sp_auto_adjusted := a, sp_estimated_fds := n\<rparr>"
    and ch: "\<not> rq_scan_concurrency_auto r \<Longrightarrow> sn = rq_scan_concurrency r" "\<not> rq_verify_concurrency_auto r \<Longrightarrow> v = rq_verify_concurrency r"
    "\<not> rq_stability_concurrency_auto r \<Longrightarrow> t = rq_stability_concurrency r" using concurrency_shape [OF s(3)] by metis
  obtain b where b: "p4 = p3\<lparr>sp_memory_budget_bytes := b\<rparr>" "b = (if rq_memory_auto r then auto_memory e else rq_memory_budget_bytes r)" using budget_True [OF s(4)] by blast
  obtain cn where cn: "p5 = p4\<lparr>sp_candidate_capacity := cn\<rparr>" "\<not> rq_candidate_auto r \<Longrightarrow> cn = rq_candidate_capacity r" "cn \<le> UINT32_MAX"
    "sp_mode p4 = QN_SCAN_REACHABLE \<longrightarrow> sp_reachable_target p4 \<le> cn" using candidates_True [OF s(5)] by auto
  obtain f fa where f: "p6 = p5\<lparr>sp_finalists_all := fa, sp_finalist_limit := f\<rparr>" "f \<noteq> 0" "f \<le> cn" "rq_finalists_all r \<longrightarrow> f = cn"
    "\<not> rq_finalists_all r \<and> \<not> rq_finalists_auto r \<longrightarrow> f = rq_finalist_limit r" using finalists_True [OF s(6)] cn(1) by auto
  obtain tt tc ta where tn: "p7 = p6\<lparr>sp_tunnel_target := tt, sp_tunnel_concurrency := tc, sp_auto_adjusted := ta\<rparr>" "tc \<le> sp_tunnel_concurrency p6" "rq_tunnel_enabled r \<longrightarrow> 0 < tc"
    using tunnel_True [OF s(7)] by blast
  have f7: "sp_finalist_limit p7 = f" by (simp add: tn(1) f(1))
  obtain o1 o2 o3 where o: "p8 = p7\<lparr>sp_output_all := o2, sp_auto_adjusted := o3, sp_output_limit := o1\<rparr>" "0 < o1"
    "o1 = (if rq_output_all r then f else min (rq_output_limit r) f)" 
    using output_True [OF s(8)] f(2) unfolding f7 by blast
  have f8: "sp_finalist_limit p8 = f" by (simp add: o(1) f7)
  obtain bt where bt: "p = p8\<lparr>sp_verification_batch_size := bt\<rparr>" "0 < bt" "bt \<le> f" using batch_True [OF s(9)] unfolding f8 by blast
  have "scope_ok e p" using sc(1) by (simp add: scope_ok_def bt o tn f cn b c)
  moreover have "pools_ok e p" using po tn(2) by (auto simp: pools_ok_def fds_need_def bt o tn(1) f(1) cn(1) b(1) c split: if_splits)
  moreover have "limits_ok p"
  proof -
    have "sp_reachable_target p2 \<le> cn" using sc(1) cn(4) by (auto simp: scope_ok_def b(1) c)
    then show ?thesis using o(2) bt(2,3) f(2,3) cn(3) by (simp add: limits_ok_def bt(1) o(1) tn(1) f(1) cn(1) b(1) c o(3))
  qed
  moreover have "honours r e p" using pl cn(2) f(4,5) ch by (simp add: honours_def bt(1) o tn(1) f(1) cn(1) b c)
  moreover have "sp_error p = []" using i(5) sc(2) by (simp add: bt(1) o(1) tn(1) f(1) cn(1) b(1) c)
  moreover have "sp_memory_budget_bytes p \<le> UINT64_MAX" using budget_bound [OF fits(1), of e] b(2) by (simp add: bt(1) o(1) tn(1) f(1) cn(1) b(1))
  moreover have "sp_tunnel_enabled p \<longrightarrow> sp_tunnel_concurrency p \<noteq> 0" using tn(3) sc(3) i(8) by (simp add: bt(1) o(1) tn(1) f(1) cn(1) b(1) c)
  ultimately show "ready r e p" by (simp add: ready_def)
qed

lemma stages_append: "stages (fs @ gs) p = (case stages fs p of (True, q) \<Rightarrow> stages gs q | (False, q) \<Rightarrow> (False, q))"
  by (induction fs arbitrary: p) (auto split: prod.splits bool.splits)

lemma ready_estimated [simp]: "ready r e (estimated e p) = ready r e p"
  by (simp add: ready_def scope_ok_def pools_ok_def fds_need_def limits_ok_def honours_def estimated_def)

lemma ready_cut:
  assumes "ready r e p" "rq_candidate_auto r" "c \<noteq> 0" "sp_reachable_target p \<le> c" "c \<le> sp_candidate_capacity p"
    "sp_finalist_limit p \<le> c \<or> rq_finalists_auto r \<or> rq_finalists_all r" "rq_finalists_all r \<Longrightarrow> \<not> rq_finalists_auto r"
  shows "ready r e (cut_limits c p)"
proof -
  have l: "limits_ok p" "honours r e p" "scope_ok e p" "pools_ok e p" using assms(1) by (auto simp: ready_def)
  then have f: "sp_finalist_limit p \<le> UINT32_MAX" by (auto simp: limits_ok_def)
  have "limits_ok (cut_limits c p)" using l(1) assms(3-5) by (auto simp: limits_ok_def cut_limits_eq [OF f])
  moreover have "honours r e (cut_limits c p)"
    using l(2) assms(2,5-7) by (auto simp: honours_def cut_limits_eq [OF f] min_def)
  moreover have "fds_need (cut_limits c p) = fds_need p" by (simp add: fds_need_def cut_limits_eq [OF f])
  then have "scope_ok e (cut_limits c p)" "pools_ok e (cut_limits c p)"
    using l(3,4) by (simp_all add: scope_ok_def pools_ok_def cut_limits_eq [OF f])
  ultimately show ?thesis using assms(1) by (simp add: ready_def cut_limits_eq [OF f])
qed

abbreviation early_stages :: "qn_scan_request \<Rightarrow> qn_scan_environment \<Rightarrow> (qn_scan_plan \<Rightarrow> bool \<times> qn_scan_plan) list" where
  "early_stages r e \<equiv> [resolve_inputs r e, resolve_scope r e, resolve_concurrency r e, resolve_budget r e, resolve_candidates r e,
     resolve_finalists r, resolve_tunnel r, resolve_output r, resolve_batch]"

lemma resolve_split:
  "qn_scan_plan_resolve r e = (case stages (early_stages r e) plan_zero of
     (True, p) \<Rightarrow> stages [memory_estimate e, resolve_fit r e, resolve_done] p | (False, p) \<Rightarrow> (False, p))"
  unfolding qn_scan_plan_resolve_def by (subst stages_append [symmetric]) (simp del: stages.simps)

lemma validate_all_auto: "qn_scan_request_validate r = None \<Longrightarrow> rq_finalists_all r \<Longrightarrow> \<not> rq_finalists_auto r"
  by (auto simp: qn_scan_request_validate_def split: if_splits)

lemma early_valid: "stages (early_stages r e) plan_zero = (True, p) \<Longrightarrow> qn_scan_request_validate r = None"
  by (simp only: stages_Cons_True) (blast dest: inputs_True)

text \<open>The last two stages on what the early ones leave.\<close>

lemma late_stages:
  assumes st: "stages (early_stages r e) plan_zero = (True, p)" and fits: "request_fits r" "environment_fits e" and m: "memory_estimate e p = (True, p1)"
  obtains (ok) q where "resolve_fit r e p1 = (True, q)" "ready r e q" "estimated e q = q" "memory_need e q \<le> sp_memory_budget_bytes q"
  | (fails) q where "resolve_fit r e p1 = (False, q)" "sp_error q \<noteq> ''automatic resource plan cannot fit the memory budget''"
proof -
  note rd = stages_ready [OF st fits]
  have p1: "p1 = estimated e p" by (rule estimate_True [OF m])
  then have e: "estimated e p1 = p1" and r1: "ready r e p1" using rd(1) by simp_all
  have f: "sp_finalist_limit p1 \<le> UINT32_MAX" and b: "sp_memory_budget_bytes p1 \<le> UINT64_MAX" and t: "sp_tunnel_enabled p1 \<longrightarrow> sp_tunnel_concurrency p1 \<noteq> 0"
    using r1 by (auto simp: ready_def limits_ok_def)
  have cb: "0 < en_candidate_bytes e" using rd(2) by simp
  show thesis
  proof (cases rule: fit_cases [OF e fits(2) cb rd(3) f b t, where r = r])
    case 1
    then show ?thesis using ok r1 e by blast
  next
    case cut: 2
    let ?q = "cut_limits (room_candidates e p1) p1"
    have "ready r e ?q" by (rule ready_cut [OF r1 cut(2-6)]) (use validate_all_auto [OF early_valid [OF st]] in blast)
    moreover have "sp_memory_budget_bytes ?q = sp_memory_budget_bytes p1" by (simp add: cut_limits_eq [OF f])
    then have "memory_need e (estimated e ?q) \<le> sp_memory_budget_bytes (estimated e ?q)" using cut(7) by simp
    ultimately show ?thesis using ok [OF cut(8)] by simp
  qed (rule fails)
qed

lemma resolved:
  assumes "qn_scan_plan_resolve r e = (True, p)" "request_fits r" "environment_fits e"
  shows "\<exists>q. p = q\<lparr>sp_valid := True\<rparr> \<and> ready r e q \<and> estimated e q = q \<and> memory_need e q \<le> sp_memory_budget_bytes q"
proof -
  obtain p0 where p0: "stages (early_stages r e) plan_zero = (True, p0)" "stages [memory_estimate e, resolve_fit r e, resolve_done] p0 = (True, p)"
    using assms(1) unfolding resolve_split by (auto split: prod.splits bool.splits)
  then obtain p1 q where q: "memory_estimate e p0 = (True, p1)" "resolve_fit r e p1 = (True, q)" "p = q\<lparr>sp_valid := True\<rparr>"
    by (auto simp: stages_Cons_True resolve_done_def simp del: stages.simps(2))
  show ?thesis using q by (cases rule: late_stages [OF p0(1) assms(2,3) q(1)]) auto
qed

text \<open>
  Property C26.  A resolved plan fits the machine: its memory need, computed without any overflow, is the
  estimate it reports and within the budget, and the descriptors of every phase are within the
  limit, with all pools able to work.
\<close>

theorem plan_fits_machine:
  assumes "qn_scan_plan_resolve r e = (True, p)" "request_fits r" "environment_fits e"
  shows "sp_estimated_total_bytes p = memory_need e p \<and> memory_need e p \<le> sp_memory_budget_bytes p \<and>
    fds_need p \<le> sp_estimated_fds p \<and> sp_estimated_fds p \<le> en_fd_limit e \<and>
    0 < sp_scan_concurrency p \<and> 0 < sp_verify_concurrency p \<and> 0 < sp_stability_concurrency p"
proof -
  obtain q where q: "p = q\<lparr>sp_valid := True\<rparr>" "ready r e q" "estimated e q = q" "memory_need e q \<le> sp_memory_budget_bytes q"
    using resolved [OF assms] by blast
  have "memory_need e p = memory_need e q" "fds_need p = fds_need q"
    by (simp_all add: q(1) memory_need_def candidate_need_def verifier_need_def tunnel_need_def fds_need_def)
  moreover have "sp_estimated_total_bytes q = memory_need e q" by (subst q(3) [symmetric]) (simp add: estimated_def)
  ultimately show ?thesis using q by (simp add: ready_def pools_ok_def)
qed


section \<open>Refusals\<close>

definition no_giving_up :: "(qn_scan_plan \<Rightarrow> bool \<times> qn_scan_plan) \<Rightarrow> bool" where
  "no_giving_up f \<longleftrightarrow> (\<forall>p q. f p = (False, q) \<longrightarrow> sp_error q \<noteq> ''automatic resource plan cannot fit the memory budget'')"

lemma no_giving_up_error: "m \<noteq> ''automatic resource plan cannot fit the memory budget'' \<Longrightarrow> plan_error p m = (False, q) \<Longrightarrow>
    sp_error q \<noteq> ''automatic resource plan cannot fit the memory budget''"
  by (auto simp: plan_error_def)

lemma stages_no_giving_up:
  "list_all no_giving_up fs \<Longrightarrow> stages fs p = (False, q) \<Longrightarrow> sp_error q \<noteq> ''automatic resource plan cannot fit the memory budget''"
  by (induction fs arbitrary: p) (auto simp: no_giving_up_def split: prod.splits bool.splits)

lemma validate_message: "qn_scan_request_validate r \<noteq> Some ''automatic resource plan cannot fit the memory budget''"
  unfolding qn_scan_request_validate_def by (simp split: if_split)

lemma early_no_giving_up:
  "no_giving_up (resolve_inputs r e)" "no_giving_up (resolve_scope r e)" "no_giving_up (resolve_concurrency r e)"
  "no_giving_up (resolve_budget r e)" "no_giving_up (resolve_candidates r e)" "no_giving_up (resolve_finalists r)"
  "no_giving_up (resolve_tunnel r)" "no_giving_up (resolve_output r)" "no_giving_up resolve_batch"
  subgoal unfolding no_giving_up_def resolve_inputs_def
    using validate_message [of r] by (auto split: if_splits option.splits dest!: no_giving_up_error [rotated])
  subgoal unfolding no_giving_up_def resolve_scope_def Let_def
    by (auto split: if_splits option.splits qn_scan_mode.splits dest!: no_giving_up_error [rotated])
  subgoal unfolding no_giving_up_def resolve_concurrency_def Let_def
    by (auto split: if_splits option.splits dest!: no_giving_up_error [rotated])
  by (auto simp: no_giving_up_def middle_defs split: if_splits)

lemma estimate_no_giving_up: "no_giving_up (memory_estimate e)"
  unfolding no_giving_up_def memory_estimate_def Let_def
  by (auto split: option.splits if_splits dest!: no_giving_up_error [rotated])

text \<open>
  The planner's last refusal is never taken: once automatic candidates are cut to the pages left
  in the budget the second estimate neither overflows nor exceeds the budget, whatever the
  request and the machine.
\<close>

lemma plan_cut_always_fits:
  assumes "request_fits r" "environment_fits e"
  shows "sp_error (snd (qn_scan_plan_resolve r e)) \<noteq> ''automatic resource plan cannot fit the memory budget''"
proof (cases "stages (early_stages r e) plan_zero")
  case (Pair ok p)
  show ?thesis
  proof (cases ok)
    case False
    then have "qn_scan_plan_resolve r e = (False, p)" using Pair by (simp add: resolve_split del: stages.simps)
    moreover have "sp_error p \<noteq> ''automatic resource plan cannot fit the memory budget''"
      by (rule stages_no_giving_up [of "early_stages r e" plan_zero]) (use early_no_giving_up Pair False in simp_all)
    ultimately show ?thesis by simp
  next
    case True
    then have st: "stages (early_stages r e) plan_zero = (True, p)" using Pair by simp
    then have r: "qn_scan_plan_resolve r e = stages [memory_estimate e, resolve_fit r e, resolve_done] p" by (simp add: resolve_split del: stages.simps)
    obtain m p1 where m: "memory_estimate e p = (m, p1)" by force
    show ?thesis
    proof (cases m)
      case False
      then show ?thesis using r m estimate_no_giving_up [of e] by (simp add: no_giving_up_def)
    next
      case True
      then have "memory_estimate e p = (True, p1)" using m by simp
      then show ?thesis
        by (cases rule: late_stages [OF st assms]) (auto simp: r resolve_done_def ready_def)
    qed
  qed
qed

section \<open>An example\<close>

text \<open>A small machine, and a request that has to be cut to a budget of 300000 bytes.\<close>

definition example_environment :: qn_scan_environment where
  "example_environment = \<lparr>en_total_addresses = 5000, en_available_memory_bytes = 0, en_fd_limit = 1024, en_input_prefixes = 1,
     en_normalized_prefixes = 1, en_input_addresses = 5000, en_duplicate_addresses = 0, en_cpu_count = 1, en_candidate_bytes = 1000,
     en_candidate_fixed_bytes = 0, en_verifier_slot_bytes = 1000, en_verifier_result_bytes = 100, en_verifier_fixed_bytes = 0,
     en_working_bytes = 1000, en_working_capacity_bytes = 0, en_page_size = 4096, en_mobile = False\<rparr>"

definition example_request :: qn_scan_request where
  "example_request = qn_scan_request_defaults\<lparr>rq_memory_auto := False, rq_memory_budget_bytes := 300000, rq_tunnel_enabled := True, rq_tunnel_all := True\<rparr>"


lemmas resolve_compute = qn_scan_plan_resolve_def plan_zero_def example_request_def example_environment_def qn_scan_request_defaults_def
  resolve_inputs_def qn_scan_request_validate_def resolve_scope_def qn_coverage_count_def mul_u64_def add_u64_def
  resolve_concurrency_def fds_available_def choose_concurrency_def auto_scan_concurrency_def auto_verify_concurrency_def auto_stability_concurrency_def
  tunnel_fds_def middle_defs auto_candidates_def auto_memory_def memory_estimate_def candidate_memory_def verifier_memory_def tunnel_memory_def
  page_of_def page_up_def resolve_fit_def cut_limits_def resolve_done_def to_u32_def

lemma example_resolved:
  "fst (qn_scan_plan_resolve example_request example_environment)"
  "sp_candidate_capacity (snd (qn_scan_plan_resolve example_request example_environment)) = 225"
  "sp_finalist_limit (snd (qn_scan_plan_resolve example_request example_environment)) = 225"
  "sp_tunnel_target (snd (qn_scan_plan_resolve example_request example_environment)) = 1024"
  by (simp_all add: resolve_compute)

lemma example_fits: "request_fits example_request" "environment_fits example_environment"
  by (simp_all add: request_fits_def environment_fits_def example_request_def example_environment_def qn_scan_request_defaults_def)

theorem plan_fits_machine_witness:
  "\<exists>p. qn_scan_plan_resolve example_request example_environment = (True, p) \<and> memory_need example_environment p \<le> sp_memory_budget_bytes p"
proof -
  obtain p where p: "qn_scan_plan_resolve example_request example_environment = (True, p)" using example_resolved(1) by (metis prod.collapse)
  show ?thesis using plan_fits_machine [OF p example_fits] p by blast
qed


text \<open>
  The cut reaches the finalists, the output and the batch but not the tunnels: the example plans
  tunnels through 1024 finalists when it will have 225.
\<close>

lemma tunnel_target_not_cut:
  "\<exists>p. qn_scan_plan_resolve example_request example_environment = (True, p) \<and> sp_finalist_limit p < sp_tunnel_target p"
proof -
  obtain p where p: "qn_scan_plan_resolve example_request example_environment = (True, p)" using example_resolved(1) by (metis prod.collapse)
  show ?thesis using example_resolved(3,4) unfolding p by auto
qed

end
