(* ===== verification/Scan_Settings.thy ===== *)
theory Scan_Settings
  imports Scan_Plan Store_File
begin

text \<open>
  The settings file of the scan planner (\<^verbatim>\<open>core/scan_plan.c\<close>): one line per setting, written to a
  temporary file that replaces the old one, and read back strictly.

  A descriptor of the code names the member by its offset; here it carries the function that
  reads the member as a number and the one that writes it.  The answers of the system are
  parameters: \<open>mkdir p\<close> says that the directory \<open>p\<close> was made or exists.
\<close>

section \<open>Descriptors\<close>

text \<open>The value of an enumerator is its position.\<close>

fun mode_code :: "qn_scan_mode \<Rightarrow> nat" where
  "mode_code QN_SCAN_AUTO = 0"
| "mode_code QN_SCAN_FULL = 1"
| "mode_code QN_SCAN_COVERAGE = 2"
| "mode_code QN_SCAN_BUDGET = 3"
| "mode_code QN_SCAN_REACHABLE = 4"

fun selection_code :: "qn_selection \<Rightarrow> nat" where
  "selection_code QN_SELECTION_UNIFORM = 0"
| "selection_code QN_SELECTION_STRATIFIED = 1"
| "selection_code QN_SELECTION_ADAPTIVE = 2"
| "selection_code QN_SELECTION_HYBRID = 3"

fun rank_code :: "qn_rank_policy \<Rightarrow> nat" where
  "rank_code QN_RANK_BALANCED = 0"
| "rank_code QN_RANK_LATENCY = 1"
| "rank_code QN_RANK_STABILITY = 2"
| "rank_code QN_RANK_THROUGHPUT = 3"

text \<open>A member of a request, by its type.\<close>

datatype setting_member =
    Mode_Member "qn_scan_request \<Rightarrow> qn_scan_mode" "qn_scan_mode \<Rightarrow> qn_scan_request \<Rightarrow> qn_scan_request"
  | Selection_Member "qn_scan_request \<Rightarrow> qn_selection" "qn_selection \<Rightarrow> qn_scan_request \<Rightarrow> qn_scan_request"
  | Rank_Member "qn_scan_request \<Rightarrow> qn_rank_policy" "qn_rank_policy \<Rightarrow> qn_scan_request \<Rightarrow> qn_scan_request"
  | U32_Member "qn_scan_request \<Rightarrow> nat" "nat \<Rightarrow> qn_scan_request \<Rightarrow> qn_scan_request"
  | U64_Member "qn_scan_request \<Rightarrow> nat" "nat \<Rightarrow> qn_scan_request \<Rightarrow> qn_scan_request"
  | Bool_Member "qn_scan_request \<Rightarrow> bool" "bool \<Rightarrow> qn_scan_request \<Rightarrow> qn_scan_request"

record qn_setting_desc =
  sd_name :: string
  sd_member :: setting_member
  sd_maximum :: nat

definition desc :: "string \<Rightarrow> setting_member \<Rightarrow> nat \<Rightarrow> qn_setting_desc" where
  "desc name member maximum = \<lparr>sd_name = name, sd_member = member, sd_maximum = maximum\<rparr>"

definition setting_desc :: "qn_setting_desc list" where
  "setting_desc = [
     desc ''mode'' (Mode_Member rq_mode (\<lambda>v r. r\<lparr>rq_mode := v\<rparr>)) 4,
     desc ''selection'' (Selection_Member rq_selection (\<lambda>v r. r\<lparr>rq_selection := v\<rparr>)) 3,
     desc ''rank_by'' (Rank_Member rq_rank_by (\<lambda>v r. r\<lparr>rq_rank_by := v\<rparr>)) 3,
     desc ''coverage_ppm'' (U32_Member rq_coverage_ppm (\<lambda>v r. r\<lparr>rq_coverage_ppm := v\<rparr>)) QN_COVERAGE_SCALE,
     desc ''explore_percent'' (U32_Member rq_explore_percent (\<lambda>v r. r\<lparr>rq_explore_percent := v\<rparr>)) 100,
     desc ''address_budget'' (U64_Member rq_address_budget (\<lambda>v r. r\<lparr>rq_address_budget := v\<rparr>)) UINT64_MAX,
     desc ''reachable_target'' (U64_Member rq_reachable_target (\<lambda>v r. r\<lparr>rq_reachable_target := v\<rparr>)) UINT64_MAX,
     desc ''candidate_capacity'' (U64_Member rq_candidate_capacity (\<lambda>v r. r\<lparr>rq_candidate_capacity := v\<rparr>)) UINT32_MAX,
     desc ''finalist_limit'' (U64_Member rq_finalist_limit (\<lambda>v r. r\<lparr>rq_finalist_limit := v\<rparr>)) UINT32_MAX,
     desc ''output_limit'' (U64_Member rq_output_limit (\<lambda>v r. r\<lparr>rq_output_limit := v\<rparr>)) UINT32_MAX,
     desc ''memory_budget_bytes'' (U64_Member rq_memory_budget_bytes (\<lambda>v r. r\<lparr>rq_memory_budget_bytes := v\<rparr>)) UINT64_MAX,
     desc ''scan_concurrency'' (U32_Member rq_scan_concurrency (\<lambda>v r. r\<lparr>rq_scan_concurrency := v\<rparr>)) UINT32_MAX,
     desc ''verify_concurrency'' (U32_Member rq_verify_concurrency (\<lambda>v r. r\<lparr>rq_verify_concurrency := v\<rparr>)) UINT32_MAX,
     desc ''stability_concurrency'' (U32_Member rq_stability_concurrency (\<lambda>v r. r\<lparr>rq_stability_concurrency := v\<rparr>)) UINT32_MAX,
     desc ''tunnel_target'' (U64_Member rq_tunnel_target (\<lambda>v r. r\<lparr>rq_tunnel_target := v\<rparr>)) UINT32_MAX,
     desc ''tunnel_concurrency'' (U32_Member rq_tunnel_concurrency (\<lambda>v r. r\<lparr>rq_tunnel_concurrency := v\<rparr>)) 32,
     desc ''tunnel_attempts'' (U32_Member rq_tunnel_attempts (\<lambda>v r. r\<lparr>rq_tunnel_attempts := v\<rparr>)) 2,
     desc ''candidate_auto'' (Bool_Member rq_candidate_auto (\<lambda>v r. r\<lparr>rq_candidate_auto := v\<rparr>)) 1,
     desc ''finalists_auto'' (Bool_Member rq_finalists_auto (\<lambda>v r. r\<lparr>rq_finalists_auto := v\<rparr>)) 1,
     desc ''finalists_all'' (Bool_Member rq_finalists_all (\<lambda>v r. r\<lparr>rq_finalists_all := v\<rparr>)) 1,
     desc ''output_all'' (Bool_Member rq_output_all (\<lambda>v r. r\<lparr>rq_output_all := v\<rparr>)) 1,
     desc ''memory_auto'' (Bool_Member rq_memory_auto (\<lambda>v r. r\<lparr>rq_memory_auto := v\<rparr>)) 1,
     desc ''scan_concurrency_auto'' (Bool_Member rq_scan_concurrency_auto (\<lambda>v r. r\<lparr>rq_scan_concurrency_auto := v\<rparr>)) 1,
     desc ''verify_concurrency_auto'' (Bool_Member rq_verify_concurrency_auto (\<lambda>v r. r\<lparr>rq_verify_concurrency_auto := v\<rparr>)) 1,
     desc ''stability_concurrency_auto'' (Bool_Member rq_stability_concurrency_auto (\<lambda>v r. r\<lparr>rq_stability_concurrency_auto := v\<rparr>)) 1,
     desc ''tunnel_enabled'' (Bool_Member rq_tunnel_enabled (\<lambda>v r. r\<lparr>rq_tunnel_enabled := v\<rparr>)) 1,
     desc ''tunnel_all'' (Bool_Member rq_tunnel_all (\<lambda>v r. r\<lparr>rq_tunnel_all := v\<rparr>)) 1]"

definition decimal_u64 :: "string \<Rightarrow> nat option" where
  "decimal_u64 t =
     (if t = [] \<or> hd t = CHR ''+'' \<or> hd t = CHR ''-'' then None
      else (case strtoull t of (None, _) \<Rightarrow> None | (Some v, rest) \<Rightarrow> if rest \<noteq> [] then None else Some v))"

definition setting_get :: "qn_scan_request \<Rightarrow> qn_setting_desc \<Rightarrow> nat" where
  "setting_get r d = (case sd_member d of
      Mode_Member get _ \<Rightarrow> mode_code (get r)
    | Selection_Member get _ \<Rightarrow> selection_code (get r)
    | Rank_Member get _ \<Rightarrow> rank_code (get r)
    | U32_Member get _ \<Rightarrow> get r
    | U64_Member get _ \<Rightarrow> get r
    | Bool_Member get _ \<Rightarrow> if get r then 1 else 0)"

text \<open>The callers put no value above the maximum, so an enumerator exists for it.\<close>

definition setting_put :: "qn_scan_request \<Rightarrow> qn_setting_desc \<Rightarrow> nat \<Rightarrow> qn_scan_request" where
  "setting_put r d v = (case sd_member d of
      Mode_Member _ put \<Rightarrow> put (scan_modes ! v) r
    | Selection_Member _ put \<Rightarrow> put (selections ! v) r
    | Rank_Member _ put \<Rightarrow> put (rank_policies ! v) r
    | U32_Member _ put \<Rightarrow> put (to_u32 v) r
    | U64_Member _ put \<Rightarrow> put v r
    | Bool_Member _ put \<Rightarrow> put (v \<noteq> 0) r)"

section \<open>Paths\<close>

abbreviation PATH_MAX :: nat where "PATH_MAX \<equiv> 4096"

text \<open>The path for the values of \<open>XDG_CONFIG_HOME\<close> and \<open>HOME\<close>, with a buffer of \<open>capacity\<close> bytes.\<close>

definition qn_scan_settings_default_path :: "string option \<Rightarrow> string option \<Rightarrow> nat \<Rightarrow> string option" where
  "qn_scan_settings_default_path xdg home capacity =
     (let fit = (\<lambda>p. if length p < capacity then Some p else None) in
      if capacity = 0 then None
      else (case xdg of
              Some (c # b) \<Rightarrow> fit ((c # b) @ ''/qanat/scan-plan.conf'')
            | _ \<Rightarrow> (case home of
                      Some (c # b) \<Rightarrow> fit ((c # b) @ ''/.config/qanat/scan-plan.conf'')
                    | _ \<Rightarrow> None)))"

definition create_parent_directories :: "(string \<Rightarrow> bool) \<Rightarrow> string \<Rightarrow> bool" where
  "create_parent_directories mkdir path =
     (if path = [] \<or> length path \<ge> PATH_MAX then False
      else list_all (\<lambda>i. mkdir (take i path)) (filter (\<lambda>i. path ! i = CHR ''/'') [1..<length path]))"

definition sync_parent_directory :: "(string \<Rightarrow> bool) \<Rightarrow> (string \<Rightarrow> bool) \<Rightarrow> (string \<Rightarrow> bool) \<Rightarrow> string \<Rightarrow> bool" where
  "sync_parent_directory opened fsync closed path =
     (if length path \<ge> PATH_MAX then False
      else (let dir = parent_dir path in opened dir \<and> fsync dir \<and> closed dir))"

section \<open>Saving\<close>

record settings_io =
  st_mkdir :: "string \<Rightarrow> bool"
  st_mkstemp :: bool
  st_fchmod :: bool
  st_fdopen :: bool
  st_fprintf :: "nat \<Rightarrow> bool"
  st_fflush :: bool
  st_fsync :: bool
  st_fclose :: bool
  st_rename :: bool
  st_dir_open :: "string \<Rightarrow> bool"
  st_dir_fsync :: "string \<Rightarrow> bool"
  st_dir_close :: "string \<Rightarrow> bool"

definition setting_line :: "qn_scan_request \<Rightarrow> qn_setting_desc \<Rightarrow> string" where
  "setting_line r d = sd_name d @ ''='' @ dec (setting_get r d) @ [LF]"

definition settings_text :: "qn_scan_request \<Rightarrow> string" where
  "settings_text r = ''version='' @ dec 2 @ [LF] @ concat (map (setting_line r) setting_desc)"

text \<open>
  The error (\<open>None\<close> for success) and the file at the path afterwards; \<open>st_fprintf i\<close> says that line
  \<open>i\<close> could be written, 0 being the version.
\<close>

definition qn_scan_settings_save :: "settings_io \<Rightarrow> string \<Rightarrow> qn_scan_request \<Rightarrow> string option \<Rightarrow> string option \<times> string option" where
  "qn_scan_settings_save io path r file =
     (case qn_scan_request_validate r of
        Some msg \<Rightarrow> (Some msg, file)
      | None \<Rightarrow>
          if path = [] \<or> \<not> create_parent_directories (st_mkdir io) path then (Some ''cannot create the settings directory'', file)
          else if length path + 11 \<ge> PATH_MAX then (Some ''settings path is too long'', file)
          else if \<not> st_mkstemp io then (Some ''cannot create the temporary settings file'', file)
          else if \<not> st_fchmod io then (Some ''cannot protect the temporary settings file'', file)
          else if \<not> st_fdopen io then (Some ''cannot open the temporary settings stream'', file)
          else (let ok = st_fprintf io 0;
                    ok = (ok \<and> list_all (\<lambda>i. st_fprintf io (i + 1)) [0..<length setting_desc]);
                    ok = (ok \<and> st_fflush io);
                    ok = (ok \<and> st_fsync io);
                    ok = (ok \<and> st_fclose io)
                in if \<not> ok then (Some ''cannot write the settings file completely'', file)
                   else if \<not> st_rename io then (Some ''cannot replace the settings file atomically'', file)
                   else if \<not> sync_parent_directory (st_dir_open io) (st_dir_fsync io) (st_dir_close io) path
                   then (Some ''settings saved but directory sync failed'', Some (settings_text r))
                   else (None, Some (settings_text r))))"

section \<open>Loading\<close>

definition setting_find :: "string \<Rightarrow> nat option" where
  "setting_find name = List.find (\<lambda>i. sd_name (setting_desc ! i) = name) [0..<length setting_desc]"

definition settings_mask :: "bool \<Rightarrow> u64" where
  "settings_mask tunnel = fold (\<lambda>i m. if (take 7 (sd_name (setting_desc ! i)) = ''tunnel_'') = tunnel then m OR push_bit i 1 else m) [0..<length setting_desc] 0"

text \<open>\<open>getline\<close>: a line with its newline if it has one, and the rest.\<close>

definition getline :: "string \<Rightarrow> string \<times> string" where
  "getline f = (let l = takeWhile (\<lambda>c. c \<noteq> LF) f in if LF \<in> set f then (l @ [LF], skip_line f) else (f, []))"

lemma getline_shorter: "f \<noteq> [] \<Longrightarrow> length (snd (getline f)) < length f"
  using length_dropWhile_le [of "\<lambda>c. c \<noteq> LF" f] by (cases f) (auto simp: getline_def skip_line_def Let_def less_Suc_eq_le intro: le_trans [OF diff_le_self])

text \<open>What has been read: the request, the settings seen and the version.\<close>

type_synonym load_state = "qn_scan_request \<times> u64 \<times> nat option"

text \<open>One line; \<open>None\<close> stops the reading with failure.\<close>

definition load_line :: "string \<Rightarrow> load_state \<Rightarrow> load_state option" where
  "load_line raw s =
     (let (loaded, seen, version) = s in
      if length raw > 4096 \<or> NUL \<in> set raw then None
      else (let line = rev (dropWhile (\<lambda>c. c = LF \<or> c = CR) (rev raw)) in
            if line = [] then Some s
            else (case split_at CHR ''='' line of
                    None \<Rightarrow> None
                  | Some (name, text) \<Rightarrow>
                      if name = [] \<or> CHR ''='' \<in> set text then None
                      else (case decimal_u64 text of
                              None \<Rightarrow> None
                            | Some v \<Rightarrow>
                                if name = ''version''
                                then (if version \<noteq> None \<or> (v \<noteq> 1 \<and> v \<noteq> 2) then None else Some (loaded, seen, Some v))
                                else (case setting_find name of
                                        None \<Rightarrow> None
                                      | Some i \<Rightarrow>
                                          if i \<ge> 64 \<or> seen AND push_bit i 1 \<noteq> 0 \<or> v > sd_maximum (setting_desc ! i) then None
                                          else Some (setting_put loaded (setting_desc ! i) v, seen OR push_bit i 1, version))))))"

function load_lines :: "string \<Rightarrow> load_state \<Rightarrow> load_state option" where
  "load_lines f s =
     (if f = [] then Some s
      else (case load_line (fst (getline f)) s of None \<Rightarrow> None | Some s' \<Rightarrow> load_lines (snd (getline f)) s'))"
  by pat_completeness auto
termination by (relation "measure (\<lambda>(f, s). length f)") (auto simp: getline_shorter)

declare load_lines.simps [simp del]

text \<open>The file is its text and whether reading or closing it failed.\<close>

definition qn_scan_settings_load :: "string \<Rightarrow> (string \<times> bool) option \<Rightarrow> string + qn_scan_request" where
  "qn_scan_settings_load path file =
     (let malformed = Inl ''settings file is malformed or incomplete'' in
      if path = [] then Inl ''settings path or destination is missing''
      else (case file of
              None \<Rightarrow> Inl ''cannot open the settings file''
            | Some (f, failed) \<Rightarrow>
                (case load_lines f (qn_scan_request_defaults, 0, None) of
                   None \<Rightarrow> malformed
                 | Some (loaded, seen, version) \<Rightarrow>
                     if failed then malformed
                     else (case version of
                             None \<Rightarrow> malformed
                           | Some v \<Rightarrow>
                               if v = 2 \<and> seen \<noteq> push_bit (length setting_desc) 1 - 1 then malformed
                               else if v \<noteq> 2 \<and> (seen \<noteq> settings_mask False \<or> seen AND settings_mask True \<noteq> 0) then malformed
                               else (let loaded = (if v = 2 then loaded
                                                   else loaded\<lparr>rq_tunnel_enabled := False, rq_tunnel_all := False, rq_tunnel_target := 0\<rparr>)
                                     in case qn_scan_request_validate loaded of
                                          Some msg \<Rightarrow> Inl msg
                                        | None \<Rightarrow> Inr loaded)))))"

section \<open>Reading back\<close>

definition within_maxima :: "qn_scan_request \<Rightarrow> bool" where
  "within_maxima r \<longleftrightarrow> list_all (\<lambda>d. setting_get r d \<le> sd_maximum d) setting_desc"

lemma setting_names:
  "distinct (map sd_name setting_desc)" "length setting_desc = 27"
  "\<forall>d \<in> set setting_desc. sd_name d \<noteq> [] \<and> sd_name d \<noteq> ''version'' \<and> length (sd_name d) \<le> 30 \<and> sd_maximum d \<le> UINT64_MAX \<and>
     list_all (\<lambda>c. c \<noteq> CHR ''='' \<and> c \<noteq> LF \<and> c \<noteq> CR \<and> c \<noteq> NUL) (sd_name d)"
  by (simp_all add: setting_desc_def desc_def)

lemma setting_find_nth: "i < 27 \<Longrightarrow> setting_find (sd_name (setting_desc ! i)) = Some i"
proof -
  assume i: "i < 27"
  have "sd_name (setting_desc ! j) = sd_name (setting_desc ! i) \<longleftrightarrow> j = i" if "j < 27" for j
    using nth_eq_iff_index_eq [OF setting_names(1), of j i] that i by (simp add: setting_names(2))
  then show ?thesis using i unfolding setting_find_def setting_names(2) find_Some_iff by (intro exI [of _ i]) auto
qed

lemma getline_line: "LF \<notin> set l \<Longrightarrow> getline (l @ LF # f) = (l @ [LF], f)"
proof -
  assume "LF \<notin> set l"
  then have "takeWhile (\<lambda>c. c \<noteq> LF) (l @ LF # f) = l" "dropWhile (\<lambda>c. c \<noteq> LF) (l @ LF # f) = LF # f" by (induction l) auto
  then show ?thesis by (simp add: getline_def skip_line_def Let_def)
qed

lemma load_lines_line:
  "LF \<notin> set l \<Longrightarrow> load_lines (l @ LF # f) s = (case load_line (l @ [LF]) s of None \<Rightarrow> None | Some s' \<Rightarrow> load_lines f s')"
  by (subst load_lines.simps) (simp add: getline_line split: option.splits)

lemma load_lines_nil [simp]: "load_lines [] s = Some s" by (subst load_lines.simps) simp

text \<open>A line of a name and digits.\<close>

lemma load_line_text:
  assumes n: "name \<noteq> []" "length name \<le> 30" "list_all (\<lambda>c. c \<noteq> CHR ''='' \<and> c \<noteq> LF \<and> c \<noteq> CR \<and> c \<noteq> NUL) name" and v: "v \<le> UINT64_MAX"
  shows "load_line (name @ ''='' @ dec v @ [LF]) (loaded, seen, version) =
    (if name = ''version'' then (if version \<noteq> None \<or> (v \<noteq> 1 \<and> v \<noteq> 2) then None else Some (loaded, seen, Some v))
     else (case setting_find name of
             None \<Rightarrow> None
           | Some i \<Rightarrow> if i \<ge> 64 \<or> seen AND push_bit i 1 \<noteq> 0 \<or> v > sd_maximum (setting_desc ! i) then None
                      else Some (setting_put loaded (setting_desc ! i) v, seen OR push_bit i 1, version)))"
proof -
  let ?l = "name @ ''='' @ dec v"
  have dp: "plain (dec v)" by (rule dec_plain)
  have dl: "length (dec v) \<le> 20" using dec_length [of v 19] v by simp
  have eq: "CHR ''='' \<notin> set (dec v)"
    using dec_digits [of v] by (auto simp: is_digit_def)
  have nul: "NUL \<notin> set (?l @ [LF])" using n(3) plain_ws [OF dp] by (auto simp: list_all_iff)
  have lst: "last ?l \<noteq> LF \<and> last ?l \<noteq> CR" using plain_ws [OF dp, of "last (dec v)"] by simp
  have strip: "rev (dropWhile (\<lambda>c. c = LF \<or> c = CR) (rev (?l @ [LF]))) = ?l"
  proof -
    obtain c cs where "rev ?l = c # cs" using n(1) by (cases "rev ?l") auto
    then have "?l = rev cs @ [c]" by (metis rev.simps(2) rev_rev_ident)
    moreover have "c = last ?l" using \<open>?l = rev cs @ [c]\<close> by (metis last_snoc)
    ultimately show ?thesis using lst by (simp del: last_append)
  qed
  have sp: "split_at CHR ''='' ?l = Some (name, dec v)" using split_at_append [of "CHR ''=''" name "dec v"] n(3) by (auto simp: list_all_iff)
  have dd: "decimal_u64 (dec v) = Some v" using hd_dec [of v] digit_plain [of "hd (dec v)"] v by (simp add: decimal_u64_def strtoull_dec)
  have len: "\<not> length (?l @ [LF]) > 4096" using n(2) dl by simp
  have nn: "?l \<noteq> []" using n(1) by simp
  show ?thesis unfolding load_line_def prod.case Let_def using nul len strip sp eq dd nn n(1) by simp
qed

lemma seen_bit: "(mask i :: u64) AND push_bit i 1 = 0" "i < 64 \<Longrightarrow> (mask i :: u64) OR push_bit i 1 = mask (Suc i)"
  by (rule bit_word_eqI, auto simp: bit_simps)+

lemma load_settings:
  assumes "setting_desc = pre @ ds" "list_all (\<lambda>d. setting_get r d \<le> UINT64_MAX) ds"
  shows "load_lines (concat (map (setting_line r) ds)) (loaded, mask (length pre), version) =
    (if list_all (\<lambda>d. setting_get r d \<le> sd_maximum d) ds
     then Some (fold (\<lambda>d l. setting_put l d (setting_get r d)) ds loaded, mask (length setting_desc), version) else None)"
  using assms
proof (induction ds arbitrary: pre loaded)
  case (Cons d ds)
  let ?i = "length pre" and ?v = "setting_get r d"
  have i: "?i < 27" using arg_cong [OF Cons.prems(1), of length] setting_names(2) by simp
  have d: "setting_desc ! ?i = d" unfolding Cons.prems(1) by (rule nth_append_length)
  then have "d \<in> set setting_desc" using i setting_names(2) by (metis nth_mem)
  then have n: "sd_name d \<noteq> []" "length (sd_name d) \<le> 30" "list_all (\<lambda>c. c \<noteq> CHR ''='' \<and> c \<noteq> LF \<and> c \<noteq> CR \<and> c \<noteq> NUL) (sd_name d)" "sd_name d \<noteq> ''version''"
    using setting_names(3) by blast+
  have v: "?v \<le> UINT64_MAX" using Cons.prems(2) by simp
  have f: "setting_find (sd_name d) = Some ?i" using setting_find_nth [OF i] d by simp
  have "LF \<notin> set (sd_name d @ ''='' @ dec ?v)" using n(3) plain_ws [OF dec_plain] by (auto simp: list_all_iff)
  then have l: "load_lines (setting_line r d @ f') s = (case load_line (setting_line r d) s of None \<Rightarrow> None | Some s' \<Rightarrow> load_lines f' s')" for f' s
    using load_lines_line [of "sd_name d @ ''='' @ dec ?v" f' s] by (simp add: setting_line_def)
  have ll: "load_line (setting_line r d) (loaded, mask ?i, version) =
      (if ?v > sd_maximum d then None else Some (setting_put loaded d ?v, mask (Suc ?i), version))"
    using load_line_text [OF n(1-3) v, of loaded "mask ?i" version] n(4) f i seen_bit [of ?i] by (simp add: setting_line_def d)
  show ?case using Cons.IH [of "pre @ [d]" "setting_put loaded d ?v"] Cons.prems by (simp add: l ll not_less)
qed simp

lemma settings_put_all:
  "within_maxima r \<Longrightarrow> fold (\<lambda>d l. setting_put l d (setting_get r d)) setting_desc qn_scan_request_defaults = r"
proof -
  assume w: "within_maxima r"
  have m: "scan_modes ! mode_code m = m" for m by (cases m) (simp_all add: scan_modes_def)
  have s: "selections ! selection_code m = m" for m by (cases m) (simp_all add: selections_def)
  have k: "rank_policies ! rank_code m = m" for m by (cases m) (simp_all add: rank_policies_def)
  have b: "((if x then 1 else (0::nat)) \<noteq> 0) = x" for x by simp
  show ?thesis using w unfolding within_maxima_def setting_desc_def desc_def
    by (intro qn_scan_request.equality) (simp_all add: setting_put_def setting_get_def m s k b)
qed

lemma load_saved:
  assumes "qn_scan_request_validate r = None" "list_all (\<lambda>d. setting_get r d \<le> UINT64_MAX) setting_desc" "path \<noteq> []"
  shows "qn_scan_settings_load path (Some (settings_text r, False)) =
    (if within_maxima r then Inr r else Inl ''settings file is malformed or incomplete'')"
proof -
  let ?s = "(qn_scan_request_defaults, 0 :: u64, None)"
  have "load_line (''version'' @ ''='' @ dec 2 @ [LF]) ?s = Some (qn_scan_request_defaults, 0, Some 2)"
    by (subst load_line_text) simp_all
  moreover have "LF \<notin> set (''version'' @ ''='' @ dec 2)" using plain_ws [OF dec_plain [of 2]] by auto
  moreover have "settings_text r = (''version'' @ ''='' @ dec 2) @ LF # concat (map (setting_line r) setting_desc)"
    by (simp add: settings_text_def)
  ultimately have "load_lines (settings_text r) ?s = load_lines (concat (map (setting_line r) setting_desc)) (qn_scan_request_defaults, 0, Some 2)"
    using load_lines_line [of "''version'' @ ''='' @ dec 2" _ ?s] by simp
  also have "\<dots> = (if within_maxima r then Some (r, mask (length setting_desc), Some 2) else None)"
    using load_settings [of "[]" setting_desc r qn_scan_request_defaults "Some 2"] assms(2) settings_put_all [of r] by (simp add: within_maxima_def)
  finally show ?thesis using assms by (simp add: qn_scan_settings_load_def mask_eq_exp_minus_1 push_bit_eq_mult)
qed

text \<open>
  Property C28.  Saving settings leaves the old file or the complete new one at the path, never a part of it,
  and success means the new one.  A saved request is read back exactly as it was, provided
  every setting is within the maximum the reader allows; otherwise the reader refuses the
  whole file.
\<close>

theorem settings_roundtrip:
  assumes "qn_scan_request_validate r = None" "list_all (\<lambda>d. setting_get r d \<le> UINT64_MAX) setting_desc" "path \<noteq> []"
    and save: "qn_scan_settings_save io path r file = (err, file')"
  shows "(file' = file \<or> file' = Some (settings_text r)) \<and> (err = None \<longrightarrow> file' = Some (settings_text r)) \<and>
    qn_scan_settings_load path (Some (settings_text r, False)) =
      (if within_maxima r then Inr r else Inl ''settings file is malformed or incomplete'')"
proof -
  have "(file' = file \<or> file' = Some (settings_text r)) \<and> (err = None \<longrightarrow> file' = Some (settings_text r))"
    using save assms(1) unfolding qn_scan_settings_save_def Let_def by (auto split: if_splits)
  then show ?thesis using load_saved [OF assms(1-3)] by blast
qed

lemma defaults_valid: "qn_scan_request_validate qn_scan_request_defaults = None" "within_maxima qn_scan_request_defaults"
  "list_all (\<lambda>d. setting_get qn_scan_request_defaults d \<le> UINT64_MAX) setting_desc"
  by (simp_all add: qn_scan_request_validate_def qn_scan_request_defaults_def within_maxima_def setting_desc_def desc_def setting_get_def)

definition calm_io :: settings_io where
  "calm_io = \<lparr>st_mkdir = \<lambda>_. True, st_mkstemp = True, st_fchmod = True, st_fdopen = True, st_fprintf = \<lambda>_. True, st_fflush = True,
     st_fsync = True, st_fclose = True, st_rename = True, st_dir_open = \<lambda>_. True, st_dir_fsync = \<lambda>_. True, st_dir_close = \<lambda>_. True\<rparr>"

theorem settings_roundtrip_witness:
  "case qn_scan_settings_save calm_io ''/s'' qn_scan_request_defaults None of
     (err, file) \<Rightarrow> err = None \<and> (\<exists>f. file = Some f \<and> qn_scan_settings_load ''/s'' (Some (f, False)) = Inr qn_scan_request_defaults)"
proof -
  obtain err saved where s: "qn_scan_settings_save calm_io ''/s'' qn_scan_request_defaults None = (err, saved)" by force
  then have "err = None"
    using defaults_valid(1) by (simp add: qn_scan_settings_save_def create_parent_directories_def sync_parent_directory_def calm_io_def list_all_iff split: if_splits)
  then show ?thesis using settings_roundtrip [OF defaults_valid(1,3) _ s] defaults_valid(2) s by simp
qed

text \<open>The planner accepts and saves a tunnel target of \<open>2 ^ 32\<close>, but the reader refuses the file.\<close>

lemma saved_settings_refused:
  "\<exists>r. qn_scan_request_validate r = None \<and>
     qn_scan_settings_load ''/s'' (Some (settings_text r, False)) = Inl ''settings file is malformed or incomplete''"
proof -
  let ?r = "qn_scan_request_defaults\<lparr>rq_tunnel_enabled := True, rq_tunnel_target := 2 ^ 32\<rparr>"
  have v: "qn_scan_request_validate ?r = None" "\<not> within_maxima ?r" "list_all (\<lambda>d. setting_get ?r d \<le> UINT64_MAX) setting_desc"
    by (simp_all add: qn_scan_request_validate_def qn_scan_request_defaults_def within_maxima_def setting_desc_def desc_def setting_get_def)
  show ?thesis using load_saved [OF v(1,3), of "''/s''"] v by (intro exI [of _ ?r]) simp
qed

text \<open>A number may be negative behind a blank: the sign is looked for in the first place only.\<close>

lemma blank_minus_accepted: "decimal_u64 '' -1'' = Some UINT64_MAX" "qn_size_parse '' -1'' = Some UINT64_MAX"
  by (simp_all add: decimal_u64_def qn_size_parse_def strtoull_def isspace_def is_digit_def digits_def after_digits_def dec_value_def digit_value_def mul_u64_def)

end
