(* ===== verification/Hpack.thy ===== *)
theory Hpack
  imports Probe_Http
begin

text \<open>
  Header compression of HTTP/2 as \<^verbatim>\<open>src/net/http2.c\<close> and \<^verbatim>\<open>src/net/hpack_huff.h\<close> have it: integers
  with a prefix, strings plain or Huffman coded, and the fields of a header block without a
  dynamic table.  A buffer and an offset into it are the list of the bytes from the offset on.
\<close>

section \<open>Writing\<close>

function hpack_rest :: "nat \<Rightarrow> nat \<Rightarrow> nat \<Rightarrow> bytes option" where
  "hpack_rest v off cap =
     (if v \<ge> 128
      then (if off \<ge> cap then None else map_option (Cons (word_of_nat (v mod 128) OR 0x80)) (hpack_rest (v div 128) (off + 1) cap))
      else if off \<ge> cap then None else Some [word_of_nat v])"
  by pat_completeness auto
termination by (relation "measure (\<lambda>(v, off, cap). v)") auto

declare hpack_rest.simps [simp del]

definition hpack_uint :: "u8 \<Rightarrow> nat \<Rightarrow> nat \<Rightarrow> nat \<Rightarrow> bytes option" where
  "hpack_uint first prefix v cap =
     (let mk = 2 ^ prefix - 1 in
      if cap = 0 then None
      else if v < mk then Some [first OR word_of_nat v]
      else map_option (Cons (first OR word_of_nat mk)) (hpack_rest (v - mk) 1 cap))"

text \<open>The bytes of a C string.\<close>

definition octets :: "string \<Rightarrow> bytes" where "octets s = map (\<lambda>c. word_of_nat (code c)) s"

definition hpack_string :: "string \<Rightarrow> nat \<Rightarrow> bytes option" where
  "hpack_string s cap =
     (if length s > UINT32_MAX then None
      else (case hpack_uint 0 7 (length s) cap of
              None \<Rightarrow> None
            | Some n \<Rightarrow> if cap - length n < length s then None else Some (n @ octets s)))"

definition literal_indexed_name :: "nat \<Rightarrow> string \<Rightarrow> nat \<Rightarrow> bytes option" where
  "literal_indexed_name name v cap =
     (case hpack_uint 0 4 name cap of
        None \<Rightarrow> None
      | Some a \<Rightarrow> map_option (\<lambda>b. a @ b) (hpack_string v (cap - length a)))"

definition literal_new_name :: "string \<Rightarrow> string \<Rightarrow> nat \<Rightarrow> bytes option" where
  "literal_new_name name v cap =
     (if cap = 0 then None
      else (case hpack_string name (cap - 1) of
              None \<Rightarrow> None
            | Some a \<Rightarrow> map_option (\<lambda>b. 0 # a @ b) (hpack_string v (cap - 1 - length a))))"

section \<open>Reading integers\<close>

fun pull_more :: "bytes \<Rightarrow> nat \<Rightarrow> nat \<Rightarrow> (nat \<times> bytes) option" where
  "pull_more [] v shift = None"
| "pull_more (b # r) v shift =
     (let d = unat (b AND 0x7F) in
      if shift > 28 then None
      else if d > (UINT32_MAX - v) div 2 ^ shift then None
      else if b AND 0x80 \<noteq> 0 then pull_more r (v + d * 2 ^ shift) (shift + 7)
      else Some (v + d * 2 ^ shift, r))"

definition pull_hpack_int :: "nat \<Rightarrow> bytes \<Rightarrow> (nat \<times> bytes) option" where
  "pull_hpack_int prefix p =
     (case p of
        [] \<Rightarrow> None
      | b # r \<Rightarrow> (let mk = 2 ^ prefix - 1; v = unat b mod 2 ^ prefix in if v \<noteq> mk then Some (v, r) else pull_more r v 0))"

section \<open>Huffman coding\<close>

abbreviation QN_HUFF_MAXLEN :: nat where "QN_HUFF_MAXLEN \<equiv> 30"
abbreviation QN_HUFF_EOS :: nat where "QN_HUFF_EOS \<equiv> 256"
abbreviation QN_HUFF_MAX_OUT :: nat where "QN_HUFF_MAX_OUT \<equiv> 65536"

definition huff_count :: "nat list" where
  "huff_count = [0, 0, 0, 0, 0, 10, 26, 32, 6, 0, 5, 3, 2, 6, 2, 3, 0, 0, 0, 3, 8, 13, 26, 29, 12, 4, 15, 19, 29, 0, 4]"

definition huff_first_code :: "nat list" where
  "huff_first_code = [0, 0, 0, 0, 0, 0, 20, 92, 248, 508, 1016, 2042, 4090, 8184, 16380, 32764,
     65534, 131068, 262136, 524272, 1048550, 2097116, 4194258, 8388568, 16777194, 33554412, 67108832, 134217694, 268435426, 536870910, 1073741820]"

definition huff_first_index :: "nat list" where
  "huff_first_index = [0, 0, 0, 0, 0, 0, 10, 36, 68, 74, 74, 79, 82, 84, 90, 92, 95, 95, 95, 95, 98, 106, 119, 145, 174, 186, 190, 205, 224, 253, 253]"

definition huff_sym :: "nat list" where
  "huff_sym = [48, 49, 50, 97, 99, 101, 105, 111, 115, 116, 32, 37, 45, 46, 47, 51, 52, 53, 54, 55, 56, 57, 61, 65, 95, 98,
     100, 102, 103, 104, 108, 109, 110, 112, 114, 117, 58, 66, 67, 68, 69, 70, 71, 72, 73, 74, 75, 76, 77, 78, 79, 80,
     81, 82, 83, 84, 85, 86, 87, 89, 106, 107, 113, 118, 119, 120, 121, 122, 38, 42, 44, 59, 88, 90, 33, 34, 40, 41,
     63, 39, 43, 124, 35, 62, 0, 36, 64, 91, 93, 126, 94, 125, 60, 96, 123, 92, 195, 208, 128, 130, 131, 162, 184, 194,
     224, 226, 153, 161, 167, 172, 176, 177, 179, 209, 216, 217, 227, 229, 230, 129, 132, 133, 134, 136, 146, 154, 156, 160, 163, 164,
     169, 170, 173, 178, 181, 185, 186, 187, 189, 190, 196, 198, 228, 232, 233, 1, 135, 137, 138, 139, 140, 141, 143, 147, 149, 150,
     151, 152, 155, 157, 158, 165, 166, 168, 174, 175, 180, 182, 183, 188, 191, 197, 231, 239, 9, 142, 144, 145, 148, 159, 171, 206,
     215, 225, 236, 237, 199, 207, 234, 235, 192, 193, 200, 201, 202, 205, 210, 213, 218, 219, 238, 240, 242, 243, 255, 203, 204, 211,
     212, 214, 221, 222, 223, 241, 244, 245, 246, 247, 248, 250, 251, 252, 253, 254, 2, 3, 4, 5, 6, 7, 8, 11, 12, 14,
     15, 16, 17, 18, 19, 20, 21, 23, 24, 25, 26, 27, 28, 29, 30, 31, 127, 220, 249, 10, 13, 22, 256]"

record huff_state =
  hf_code :: nat
  hf_nbits :: nat
  hf_out :: bytes
  hf_len :: nat
  hf_truncated :: bool
  hf_upper :: bool

definition huff_zero :: huff_state where
  "huff_zero = \<lparr>hf_code = 0, hf_nbits = 0, hf_out = [], hf_len = 0, hf_truncated = False, hf_upper = False\<rparr>"

text \<open>A decoded symbol; \<open>None\<close> refuses the string.\<close>

definition huff_emit :: "nat \<Rightarrow> nat \<Rightarrow> huff_state \<Rightarrow> huff_state option" where
  "huff_emit cap sy s =
     (if sy = QN_HUFF_EOS then None
      else if hf_len s \<ge> QN_HUFF_MAX_OUT then None
      else (let s = s\<lparr>hf_len := hf_len s + 1\<rparr>;
                s = (if 65 \<le> sy \<and> sy \<le> 90 then s\<lparr>hf_upper := True\<rparr> else s);
                s = (if length (hf_out s) < cap then s\<lparr>hf_out := hf_out s @ [word_of_nat sy]\<rparr> else s\<lparr>hf_truncated := True\<rparr>)
            in Some (s\<lparr>hf_code := 0, hf_nbits := 0\<rparr>)))"

definition huff_bit :: "nat \<Rightarrow> bool \<Rightarrow> huff_state \<Rightarrow> huff_state option" where
  "huff_bit cap b s =
     (let c = 2 * hf_code s + of_bool b; n = hf_nbits s + 1; s = s\<lparr>hf_code := c, hf_nbits := n\<rparr> in
      if n > QN_HUFF_MAXLEN then None
      else if huff_count ! n = 0 \<or> c < huff_first_code ! n then Some s
      else (let off = c - huff_first_code ! n in
            if off \<ge> huff_count ! n then Some s
            else huff_emit cap (huff_sym ! (huff_first_index ! n + off)) s))"

fun huff_bits :: "nat \<Rightarrow> bool list \<Rightarrow> huff_state \<Rightarrow> huff_state option" where
  "huff_bits cap [] s = Some s"
| "huff_bits cap (b # bs) s = (case huff_bit cap b s of None \<Rightarrow> None | Some s' \<Rightarrow> huff_bits cap bs s')"

text \<open>The bits of a byte, the highest first.\<close>

definition byte_bits :: "u8 \<Rightarrow> bool list" where "byte_bits b = map (bit b) [7, 6, 5, 4, 3, 2, 1, 0]"

text \<open>The decoder; \<open>hf_out\<close> holds what fits in \<open>cap\<close> bytes.\<close>

definition qn_huff_decode :: "bytes \<Rightarrow> nat \<Rightarrow> huff_state option" where
  "qn_huff_decode src cap =
     (case huff_bits cap (concat (map byte_bits src)) huff_zero of
        None \<Rightarrow> None
      | Some s \<Rightarrow>
          if hf_nbits s \<ge> 8 then None
          else if hf_nbits s \<noteq> 0 \<and> hf_code s \<noteq> 2 ^ hf_nbits s - 1 then None
          else Some s)"

section \<open>Strings\<close>

record hstr =
  st_p :: bytes
  st_full :: nat
  st_truncated :: bool
  st_upper :: bool

definition upper_byte :: "u8 \<Rightarrow> bool" where "upper_byte b \<longleftrightarrow> 65 \<le> unat b \<and> unat b \<le> 90"

definition pull_hpack_string :: "bytes \<Rightarrow> nat \<Rightarrow> (hstr \<times> bytes) option" where
  "pull_hpack_string p cap =
     (if p = [] then None
      else (case pull_hpack_int 7 p of
              None \<Rightarrow> None
            | Some (n, r) \<Rightarrow>
                if n > length r then None
                else if hd p AND 0x80 \<noteq> 0
                then (case qn_huff_decode (take n r) cap of
                        None \<Rightarrow> None
                      | Some s \<Rightarrow> Some (\<lparr>st_p = hf_out s, st_full = hf_len s, st_truncated = hf_truncated s, st_upper = hf_upper s\<rparr>, drop n r))
                else Some (\<lparr>st_p = take n r, st_full = n, st_truncated = False, st_upper = list_ex upper_byte (take n r)\<rparr>, drop n r)))"

definition byte_lower :: "u8 \<Rightarrow> u8" where "byte_lower b = (if upper_byte b then b + 32 else b)"

definition eq_ascii_ci :: "hstr \<Rightarrow> string \<Rightarrow> bool" where
  "eq_ascii_ci s lit \<longleftrightarrow> \<not> st_truncated s \<and> st_full s = length lit \<and> map byte_lower (st_p s) = octets lit"

section \<open>Header blocks\<close>

definition static_status :: "nat \<Rightarrow> nat" where
  "static_status i = (if 8 \<le> i \<and> i \<le> 14 then [200, 204, 206, 304, 400, 404, 500] ! (i - 8) else 0)"

text \<open>Whether a static entry is a pseudo header, and whether it is the status.\<close>

definition static_index_is_pseudo :: "nat \<Rightarrow> bool \<times> bool" where
  "static_index_is_pseudo i = (i \<le> 14, 8 \<le> i \<and> i \<le> 14)"

definition name_is_forbidden :: "hstr \<Rightarrow> bool" where
  "name_is_forbidden s \<longleftrightarrow> eq_ascii_ci s ''connection'' \<or> eq_ascii_ci s ''keep-alive'' \<or> eq_ascii_ci s ''proxy-connection'' \<or>
     eq_ascii_ci s ''transfer-encoding'' \<or> eq_ascii_ci s ''upgrade''"

definition static_index_is_forbidden :: "nat \<Rightarrow> bool" where "static_index_is_forbidden i \<longleftrightarrow> i = 57"

definition name_is_lowercase :: "hstr \<Rightarrow> bool" where "name_is_lowercase s \<longleftrightarrow> \<not> st_upper s"

definition status_from_value :: "hstr \<Rightarrow> nat option" where
  "status_from_value v =
     (if st_truncated v \<or> st_full v \<noteq> 3 then None
      else (let a = unat (st_p v ! 0); b = unat (st_p v ! 1); c = unat (st_p v ! 2) in
            if a < 49 \<or> a > 53 \<or> b < 48 \<or> b > 57 \<or> c < 48 \<or> c > 57 then None
            else Some ((a - 48) * 100 + (b - 48) * 10 + c - 48)))"

text \<open>What is known while a block is read: the facts, the status fields seen, whether a regular field was seen.\<close>

record hblock_scan =
  hb_status_count :: nat
  hb_saw_regular :: bool

text \<open>A pseudo header: allowed once, before every regular field and not in trailers.\<close>

definition take_status :: "bool \<Rightarrow> bool \<Rightarrow> nat option \<Rightarrow> qn_http_event \<times> hblock_scan \<Rightarrow> (qn_http_event \<times> hblock_scan) option" where
  "take_status trail is_status found es =
     (let (ev, scan) = es in
      if trail \<or> \<not> is_status \<or> hb_saw_regular scan then None
      else if hb_status_count scan + 1 > 1 then None
      else (case found of
              None \<Rightarrow> None
            | Some st \<Rightarrow> Some (ev\<lparr>he_status := st\<rparr>, scan\<lparr>hb_status_count := hb_status_count scan + 1\<rparr>)))"

definition mark_fact :: "u32 \<Rightarrow> qn_http_event \<Rightarrow> qn_http_event" where
  "mark_fact f ev = ev\<lparr>he_flags := he_flags ev OR f\<rparr>"

text \<open>A literal field without indexing.\<close>

definition literal_field :: "bytes \<Rightarrow> bool \<Rightarrow> qn_http_event \<times> hblock_scan \<Rightarrow> (bytes \<times> qn_http_event \<times> hblock_scan) option" where
  "literal_field p trail es =
     (case pull_hpack_int 4 p of
        None \<Rightarrow> None
      | Some (idx, r) \<Rightarrow>
          if idx > 61 then None
          else (case (if idx = 0 then map_option (\<lambda>(s, r). (Some s, r)) (pull_hpack_string r 256) else Some (None, r)) of
                  None \<Rightarrow> None
                | Some (name, r) \<Rightarrow>
                    (case pull_hpack_string r 32 of
                       None \<Rightarrow> None
                     | Some (val, r) \<Rightarrow>
                         (case (case name of
                                  None \<Rightarrow> if static_index_is_forbidden idx then None
                                          else (let (pseudo, is_status) = static_index_is_pseudo idx in Some (pseudo, is_status, False, idx = 54))
                                | Some s \<Rightarrow> if st_full s = 0 \<or> \<not> name_is_lowercase s \<or> name_is_forbidden s then None
                                            else Some (st_p s ! 0 = 58, eq_ascii_ci s '':status'', eq_ascii_ci s ''cf-ray'', eq_ascii_ci s ''server'')) of
                            None \<Rightarrow> None
                          | Some (pseudo, is_status, ray, srv) \<Rightarrow>
                              if pseudo then map_option (\<lambda>es. (r, es)) (take_status trail is_status (status_from_value val) es)
                              else (let (ev, scan) = es;
                                        ev = (if ray then mark_fact QN_HTTP_FACT_CF_RAY ev else ev);
                                        ev = (if srv \<and> eq_ascii_ci val ''cloudflare'' then mark_fact QN_HTTP_FACT_SERVER_CLOUDFLARE ev else ev)
                                    in Some (r, ev, scan\<lparr>hb_saw_regular := True\<rparr>))))))"

definition indexed_field :: "bytes \<Rightarrow> bool \<Rightarrow> qn_http_event \<times> hblock_scan \<Rightarrow> (bytes \<times> qn_http_event \<times> hblock_scan) option" where
  "indexed_field p trail es =
     (case pull_hpack_int 7 p of
        None \<Rightarrow> None
      | Some (idx, r) \<Rightarrow>
          if idx = 0 \<or> idx > 61 then None
          else (let (pseudo, is_status) = static_index_is_pseudo idx; (ev, scan) = es in
                if pseudo then map_option (\<lambda>es. (r, es)) (take_status trail is_status (Some (static_status idx)) es)
                else if static_index_is_forbidden idx then None
                else Some (r, ev, scan\<lparr>hb_saw_regular := True\<rparr>)))"

lemma pull_more_shorter: "pull_more p v s = Some (x, r) \<Longrightarrow> length r < length p"
  by (induction p v s rule: pull_more.induct) (auto simp: Let_def split: if_splits intro: less_SucI)

lemma pull_int_shorter: "pull_hpack_int n p = Some (x, r) \<Longrightarrow> length r < length p"
  by (cases p) (auto simp: pull_hpack_int_def Let_def split: if_splits dest: pull_more_shorter)

lemma pull_string_shorter: "pull_hpack_string p cap = Some (s, r) \<Longrightarrow> length r < length p"
  by (auto simp: pull_hpack_string_def split: if_splits option.splits dest!: pull_int_shorter)

lemma literal_shorter: "literal_field p t es = Some (r, es') \<Longrightarrow> length r < length p"
  by (auto simp: literal_field_def Let_def split: option.splits prod.splits if_splits dest!: pull_int_shorter pull_string_shorter)

lemma indexed_shorter: "indexed_field p t es = Some (r, es') \<Longrightarrow> length r < length p"
  by (auto simp: indexed_field_def Let_def split: option.splits prod.splits if_splits dest!: pull_int_shorter)

function parse_fields :: "bytes \<Rightarrow> bool \<Rightarrow> bool \<Rightarrow> nat \<Rightarrow> qn_http_event \<times> hblock_scan \<Rightarrow> (qn_http_event \<times> hblock_scan) option" where
  "parse_fields p trail saw_field size_updates es =
     (if p = [] then Some es
      else if hd p AND 0x80 \<noteq> 0
      then (case indexed_field p trail es of None \<Rightarrow> None | Some (r, es') \<Rightarrow> parse_fields r trail True size_updates es')
      else if hd p AND 0xE0 = 0x20
      then (if saw_field \<or> size_updates + 1 > 2 then None
            else (case pull_hpack_int 5 p of
                    None \<Rightarrow> None
                  | Some (idx, r) \<Rightarrow> if idx \<noteq> 0 then None else parse_fields r trail saw_field (size_updates + 1) es))
      else if hd p AND 0x40 \<noteq> 0 then None
      else (case literal_field p trail es of None \<Rightarrow> None | Some (r, es') \<Rightarrow> parse_fields r trail True size_updates es'))"
  by pat_completeness auto
termination
  by (relation "measure (\<lambda>(p, _). length p)") (auto dest: indexed_shorter literal_shorter pull_int_shorter)

declare parse_fields.simps [simp del]

definition parse_hpack :: "bytes \<Rightarrow> qn_http_event \<Rightarrow> bool \<Rightarrow> (qn_http_event \<times> hblock_scan) option" where
  "parse_hpack p ev trail = parse_fields p trail False 0 (ev, \<lparr>hb_status_count = 0, hb_saw_regular = False\<rparr>)"

end
