(* ===== verification/Hpack_Codes.thy ===== *)
theory Hpack_Codes
  imports Hpack
begin

text \<open>
  What is written by the encoder of HTTP/2 headers is read back by the decoder, and the Huffman
  decoder inverts the canonical code its tables describe.
\<close>

section \<open>Integers and strings\<close>

lemma low_seven: "x AND (0x7F :: u8) = take_bit 7 x"
proof -
  have "(0x7F :: u8) = mask 7" by (simp add: mask_eq_exp_minus_1)
  then show ?thesis by (simp add: take_bit_eq_mask)
qed

lemma top_bit_iff: "x AND (0x80 :: u8) = 0 \<longleftrightarrow> \<not> bit x 7"
  using and_exp_eq_0_iff_not_bit [of x 7] by simp

lemma octet_bits:
  assumes "d < 128"
  shows "unat ((word_of_nat d OR 0x80) AND (0x7F :: u8)) = d" "(word_of_nat d OR 0x80) AND (0x80 :: u8) \<noteq> 0"
    "unat (word_of_nat d AND (0x7F :: u8)) = d" "word_of_nat d AND (0x80 :: u8) = 0"
proof -
  have t: "unat (take_bit 7 (word_of_nat d :: u8)) = d" using assms by (simp add: unsigned_take_bit_eq take_bit_nat_eq_self unat_word_of_nat)
  have z: "take_bit 7 (0x80 :: u8) = 0" by simp
  show "unat ((word_of_nat d OR 0x80) AND (0x7F :: u8)) = d" unfolding low_seven take_bit_or z by (simp add: t)
  show "unat (word_of_nat d AND (0x7F :: u8)) = d" unfolding low_seven by (rule t)
  have n: "\<not> bit (word_of_nat d :: u8) 7" using assms by (simp add: bit_of_nat_iff bit_iff_odd [of d])
  show "word_of_nat d AND (0x80 :: u8) = 0" using n by (simp add: top_bit_iff)
  have "bit (0x80 :: u8) 7" by simp
  then show "(word_of_nat d OR 0x80) AND (0x80 :: u8) \<noteq> 0" by (simp add: top_bit_iff bit_or_iff)
qed

lemma pull_rest:
  assumes "hpack_rest v off cap = Some bs" "acc + v * 2 ^ (7 * k) \<le> UINT32_MAX" "7 * k \<le> 28"
  shows "pull_more (bs @ r) acc (7 * k) = Some (acc + v * 2 ^ (7 * k), r)"
  using assms
proof (induction v off cap arbitrary: bs acc k rule: hpack_rest.induct)
  case (1 v off cap)
  have le: "v mod 128 \<le> (UINT32_MAX - acc) div 2 ^ (7 * k)"
  proof -
    have "v * 2 ^ (7 * k) \<le> UINT32_MAX - acc" using 1(3) by linarith
    then have "v \<le> (UINT32_MAX - acc) div 2 ^ (7 * k)" by (simp add: less_eq_div_iff_mult_less_eq)
    then show ?thesis using mod_less_eq_dividend [of v 128] by linarith
  qed
  show ?case
  proof (cases "v \<ge> 128")
    case True
    then obtain bs' where bs: "bs = (word_of_nat (v mod 128) OR 0x80) # bs'" "hpack_rest (v div 128) (off + 1) cap = Some bs'" "\<not> off \<ge> cap"
      using 1(2) by (subst (asm) hpack_rest.simps) (auto split: if_splits)
    have sum: "acc + v mod 128 * 2 ^ (7 * k) + v div 128 * 2 ^ (7 * Suc k) = acc + v * 2 ^ (7 * k)"
    proof -
      have "v div 128 * 2 ^ (7 * Suc k) = (v div 128 * 128) * 2 ^ (7 * k)" by (simp add: power_add)
      then have "v mod 128 * 2 ^ (7 * k) + v div 128 * 2 ^ (7 * Suc k) = (v mod 128 + v div 128 * 128) * 2 ^ (7 * k)" by (simp only: add_mult_distrib)
      then show ?thesis by simp
    qed
    have small: "7 * Suc k \<le> 28"
    proof (rule ccontr)
      assume "\<not> 7 * Suc k \<le> 28"
      then have "4 \<le> k" by simp
      then have "(2::nat) ^ 28 \<le> 2 ^ (7 * k)" by (intro power_increasing) auto
      then have "128 * 2 ^ 28 \<le> v * 2 ^ (7 * k)" using True by (intro mult_le_mono) auto
      then show False using 1(3) by simp
    qed
    have "pull_more (bs' @ r) (acc + v mod 128 * 2 ^ (7 * k)) (7 * Suc k) = Some (acc + v mod 128 * 2 ^ (7 * k) + v div 128 * 2 ^ (7 * Suc k), r)"
      using 1(1) [OF True bs(3) bs(2), of "acc + v mod 128 * 2 ^ (7 * k)" "Suc k"] small 1(3) unfolding sum by blast
    then have "pull_more (bs' @ r) (acc + v mod 128 * 2 ^ (7 * k)) (7 * k + 7) = Some (acc + v * 2 ^ (7 * k), r)"
      unfolding sum by (simp add: add.commute)
    then show ?thesis using bs(1) le 1(4) octet_bits [of "v mod 128"] by simp
  next
    case False
    then have "bs = [word_of_nat v]" using 1(2) by (subst (asm) hpack_rest.simps) (auto split: if_splits)
    then show ?thesis using le False 1(4) octet_bits [of v] by simp
  qed
qed

lemma hpack_int_back:
  assumes "hpack_uint 0 prefix v cap = Some bs" "0 < prefix" "prefix \<le> 8" "v \<le> UINT32_MAX"
  shows "pull_hpack_int prefix (bs @ r) = Some (v, r)"
proof -
  let ?m = "2 ^ prefix - 1 :: nat"
  have p: "(2::nat) ^ prefix \<le> 2 ^ 8" using assms(3) by (intro power_increasing) auto
  show ?thesis
  proof (cases "v < ?m")
    case True
    then have "bs = [word_of_nat v]" using assms(1) by (auto simp: hpack_uint_def Let_def split: if_splits)
    moreover have "unat (word_of_nat v :: u8) = v" using True p by (simp add: unat_word_of_nat)
    moreover have "v mod 2 ^ prefix = v" using True by simp
    ultimately show ?thesis using True by (simp add: pull_hpack_int_def)
  next
    case False
    then obtain bs' where bs: "bs = word_of_nat ?m # bs'" "hpack_rest (v - ?m) 1 cap = Some bs'"
      using assms(1) by (auto simp: hpack_uint_def Let_def split: if_splits)
    have "unat (word_of_nat m :: u8) = m" if "m < 256" for m using that by (simp add: unat_word_of_nat)
    from this [of ?m] have "unat (word_of_nat ?m :: u8) = ?m" using p by fastforce
    moreover have "?m mod 2 ^ prefix = ?m" by simp
    moreover have "pull_more (bs' @ r) ?m 0 = Some (v, r)" using pull_rest [OF bs(2), of ?m 0 r] False assms(4) by simp
    ultimately show ?thesis using bs(1) by (simp add: pull_hpack_int_def)
  qed
qed

text \<open>The first byte of a plain string has its top bit clear: the Huffman flag.\<close>

lemma hpack_uint_plain:
  assumes "hpack_uint 0 7 v cap = Some bs"
  shows "bs \<noteq> []" "\<not> bit (hd bs) 7"
proof -
  have *: "\<not> bit (word_of_nat d :: u8) 7" if "d < 128" for d using octet_bits(4) [OF that] top_bit_iff by blast
  show "bs \<noteq> []" "\<not> bit (hd bs) 7" using assms * [of v] * [of 127] by (auto simp: hpack_uint_def Let_def split: if_splits)
qed

lemma pull_back_string:
  assumes "hpack_string s cap = Some bs"
  shows "pull_hpack_string (bs @ r) c =
    Some (\<lparr>st_p = octets s, st_full = length s, st_truncated = False, st_upper = list_ex upper_byte (octets s)\<rparr>, r)"
proof -
  obtain n where n: "hpack_uint 0 7 (length s) cap = Some n" "bs = n @ octets s" "length s \<le> UINT32_MAX"
    using assms by (auto simp: hpack_string_def split: if_splits option.splits)
  have p: "pull_hpack_int 7 (bs @ r) = Some (length s, octets s @ r)" using hpack_int_back [OF n(1), of "octets s @ r"] n by simp
  have "\<not> bit (hd n) 7 \<and> n \<noteq> []" using hpack_uint_plain [OF n(1)] by simp
  then have h: "hd (bs @ r) AND 0x80 = 0" "bs \<noteq> []" by (auto simp: n top_bit_iff)
  have "length (octets s) = length s" by (simp add: octets_def)
  then show ?thesis unfolding pull_hpack_string_def p option.case prod.case h(1) by (simp add: h(2))
qed

section \<open>The Huffman code\<close>

text \<open>
  The code the tables describe, as an encoder: the word of a symbol has the length of the row that
  holds its position, and within a row the words count up.
\<close>

definition huff_pos :: "nat \<Rightarrow> nat" where "huff_pos sy = length (takeWhile (\<lambda>x. x \<noteq> sy) huff_sym)"

definition huff_row :: "nat \<Rightarrow> nat" where "huff_row i = the (find (\<lambda>n. i < huff_first_index ! n + huff_count ! n) [0..<31])"

definition code_bits :: "nat \<Rightarrow> nat \<Rightarrow> bool list" where "code_bits n c = map (\<lambda>i. bit c i) (rev [0..<n])"

definition huff_word :: "nat \<Rightarrow> bool list" where
  "huff_word sy = (let i = huff_pos sy; n = huff_row i in code_bits n (huff_first_code ! n + (i - huff_first_index ! n)))"

definition huff_encode :: "bytes \<Rightarrow> bool list" where "huff_encode s = concat (map (\<lambda>b. huff_word (unat b)) s)"

lemma huff_lengths [simp]: "length huff_count = 31" "length huff_first_code = 31" "length huff_first_index = 31" "length huff_sym = 257"
  by (simp_all add: huff_count_def huff_first_code_def huff_first_index_def huff_sym_def)

lemma huff_canonical:
  assumes "n < 30"
  shows "huff_first_code ! Suc n = 2 * (huff_first_code ! n + huff_count ! n)"
    "huff_first_index ! Suc n = huff_first_index ! n + huff_count ! n"
proof -
  have c: "tl huff_first_code = map (\<lambda>(a, b). 2 * (a + b)) (butlast (zip huff_first_code huff_count))"
    by (simp add: huff_first_code_def huff_count_def)
  have i: "tl huff_first_index = map (\<lambda>(a, b). a + b) (butlast (zip huff_first_index huff_count))"
    by (simp add: huff_first_index_def huff_count_def)
  have "tl huff_first_code ! n = 2 * (huff_first_code ! n + huff_count ! n)" unfolding c using assms by (simp add: nth_butlast)
  then show "huff_first_code ! Suc n = 2 * (huff_first_code ! n + huff_count ! n)" using assms by (simp add: nth_tl)
  have "tl huff_first_index ! n = huff_first_index ! n + huff_count ! n" unfolding i using assms by (simp add: nth_butlast)
  then show "huff_first_index ! Suc n = huff_first_index ! n + huff_count ! n" using assms by (simp add: nth_tl)
qed

lemma huff_ends: "huff_first_index ! 0 = 0" "huff_first_index ! 30 + huff_count ! 30 = 257" "huff_first_code ! 30 + huff_count ! 30 = 2 ^ 30"
  by (simp_all add: huff_first_index_def huff_count_def huff_first_code_def)

lemma huff_sym_distinct: "distinct huff_sym" by (simp add: huff_sym_def)

lemma huff_sym_le: "x \<in> set huff_sym \<Longrightarrow> x \<le> 256" by (auto simp: huff_sym_def)

lemma huff_sym_all: "x < 256 \<Longrightarrow> x \<in> set huff_sym"
proof -
  have "set huff_sym = {..256}"
    by (rule card_subset_eq) (auto simp: huff_sym_le distinct_card huff_sym_distinct)
  then show "x < 256 \<Longrightarrow> x \<in> set huff_sym" by auto
qed

lemma huff_index_mono: "m \<le> n \<Longrightarrow> n \<le> 30 \<Longrightarrow> huff_first_index ! m \<le> huff_first_index ! n"
  by (induction n rule: dec_induct) (auto simp: huff_canonical)

lemma huff_pos_bound:
  assumes "n \<le> 30" "off < huff_count ! n"
  shows "huff_first_index ! n + off < 257"
proof -
  have "huff_first_index ! n + off < huff_first_index ! 30 + huff_count ! 30"
  proof (cases "n = 30")
    case False
    then show ?thesis using huff_index_mono [of "Suc n" 30] huff_canonical(2) [of n] assms by simp
  qed (use assms in simp)
  then show ?thesis by (simp add: huff_ends(2))
qed

lemma huff_row_of:
  assumes "i < 257"
  shows "huff_row i \<le> 30" "huff_first_index ! huff_row i \<le> i" "i < huff_first_index ! huff_row i + huff_count ! huff_row i"
proof -
  let ?P = "\<lambda>n. i < huff_first_index ! n + huff_count ! n"
  have "find ?P [0..<31] \<noteq> None" using assms huff_ends(2) by (auto simp: find_None_iff intro!: exI [of _ 30])
  then obtain n where n: "find ?P [0..<31] = Some n" by auto
  then have f: "n < 31" "?P n" "\<forall>j<n. \<not> ?P j" by (auto simp: find_Some_iff)
  have r: "huff_row i = n" by (simp add: huff_row_def n)
  have "huff_first_index ! n \<le> i"
  proof (cases n)
    case 0
    then show ?thesis by (simp add: huff_ends(1))
  next
    case (Suc m)
    then show ?thesis using f huff_canonical(2) [of m] by auto
  qed
  then show "huff_row i \<le> 30" "huff_first_index ! huff_row i \<le> i" "i < huff_first_index ! huff_row i + huff_count ! huff_row i"
    using f by (auto simp: r)
qed

lemma huff_row_unique:
  assumes "n \<le> 30" "off < huff_count ! n"
  shows "huff_row (huff_first_index ! n + off) = n"
proof -
  let ?i = "huff_first_index ! n + off"
  have e: "huff_first_index ! m + huff_count ! m \<le> huff_first_index ! k" if "m < k" "k \<le> 30" for m k
    using huff_index_mono [of "Suc m" k] huff_canonical(2) [of m] that by simp
  note r = huff_row_of [OF huff_pos_bound [OF assms]]
  show ?thesis
  proof (rule ccontr)
    assume "huff_row ?i \<noteq> n"
    then consider "huff_row ?i < n" | "n < huff_row ?i" by linarith
    then show False
    proof cases
      case 1
      then show ?thesis using e [of "huff_row ?i" n] r(3) assms by linarith
    next
      case 2
      then show ?thesis using e [of n "huff_row ?i"] r(1,2) assms by linarith
    qed
  qed
qed

text \<open>A row leaves room below every later one, so that no word is a prefix of another.\<close>

lemma huff_room: "m < n \<Longrightarrow> n \<le> 30 \<Longrightarrow> (huff_first_code ! m + huff_count ! m) * 2 ^ (n - m) \<le> huff_first_code ! n"
proof (induction n)
  case (Suc n)
  note c = huff_canonical(1) [of n]
  show ?case
  proof (cases "m = n")
    case True
    then show ?thesis using c Suc.prems by simp
  next
    case False
    then have "(huff_first_code ! m + huff_count ! m) * 2 ^ (n - m) \<le> huff_first_code ! n" using Suc by simp
    moreover have "(2::nat) ^ (Suc n - m) = 2 * 2 ^ (n - m)" using False Suc.prems by (simp add: Suc_diff_le)
    ultimately show ?thesis using c Suc.prems by simp
  qed
qed simp

lemma huff_below: "n \<le> 30 \<Longrightarrow> huff_first_code ! n + huff_count ! n \<le> 2 ^ n"
proof (cases "n = 30")
  case False
  assume n: "n \<le> 30"
  have "(huff_first_code ! n + huff_count ! n) * 2 ^ (30 - n) \<le> 2 ^ 30" using huff_room [of n 30] huff_ends(3) n False by linarith
  also have "(2::nat) ^ 30 = 2 ^ n * 2 ^ (30 - n)" using n by (simp flip: power_add)
  finally show ?thesis by simp
qed (use huff_ends(3) in simp)

lemma code_bits_snoc: "code_bits (Suc n) (2 * c + of_bool b) = code_bits n c @ [b]"
proof -
  have "bit (2 * c + of_bool b) (Suc i) = bit c i" for i by (simp add: bit_Suc)
  moreover have "bit (2 * c + of_bool b) 0 = b" by (simp add: bit_0)
  ultimately have "map (bit (2 * c + of_bool b)) (0 # map Suc [0..<n]) = b # map (bit c) [0..<n]" by simp
  then show ?thesis by (simp only: code_bits_def upt_conv_Cons [of 0 "Suc n"] map_Suc_upt zero_less_Suc rev_map [symmetric]) simp
qed

lemma half_odd: "2 * (c div 2) + of_bool (odd c) = (c :: nat)" by (cases "odd c") auto

lemma code_bits_div: "code_bits (Suc n) c = code_bits n (c div 2) @ [odd c]"
  using code_bits_snoc [of n "c div 2" "odd c"] by (simp only: half_odd)

lemma code_bits_ones: "code_bits k (2 ^ k - 1) = replicate k True"
proof (induction k)
  case (Suc k)
  have "(2::nat) ^ Suc k - 1 = 2 * (2 ^ k - 1) + of_bool True"
    using one_le_power [of "2 :: nat" k] by (simp only: power_Suc of_bool_eq) linarith
  then show ?case using code_bits_snoc [of k "2 ^ k - 1" True] Suc by (simp add: replicate_append_same)
qed (simp add: code_bits_def)

lemma huff_bits_append: "huff_bits cap (xs @ ys) s = (case huff_bits cap xs s of None \<Rightarrow> None | Some t \<Rightarrow> huff_bits cap ys t)"
  by (induction xs arbitrary: s) (auto split: option.splits)

lemma huff_bit_quiet:
  assumes "hf_nbits s = m" "Suc m \<le> 30" "huff_first_code ! Suc m + huff_count ! Suc m \<le> 2 * hf_code s + of_bool b"
  shows "huff_bit cap b s = Some (s\<lparr>hf_code := 2 * hf_code s + of_bool b, hf_nbits := Suc m\<rparr>)"
  using assms by (auto simp: huff_bit_def Let_def)

lemma huff_bits_quiet:
  assumes "hf_code s = 0" "hf_nbits s = 0" "m \<le> 30"
    "\<forall>j. j \<le> m \<longrightarrow> 0 < j \<longrightarrow> huff_first_code ! j + huff_count ! j \<le> c div 2 ^ (m - j)" "c < 2 ^ m"
  shows "huff_bits cap (code_bits m c) s = Some (s\<lparr>hf_code := c, hf_nbits := m\<rparr>)"
  using assms(3-)
proof (induction m arbitrary: c)
  case 0
  then show ?case using assms(1,2) by (simp add: code_bits_def)
next
  case (Suc m)
  have "huff_bits cap (code_bits m (c div 2)) s = Some (s\<lparr>hf_code := c div 2, hf_nbits := m\<rparr>)"
  proof (rule Suc.IH)
    have "c div 2 ^ (Suc m - j) = c div 2 div 2 ^ (m - j)" if "j \<le> m" for j
      using that by (simp add: Suc_diff_le flip: div_mult2_eq)
    then show "\<forall>j. j \<le> m \<longrightarrow> 0 < j \<longrightarrow> huff_first_code ! j + huff_count ! j \<le> c div 2 div 2 ^ (m - j)"
      using Suc.prems(2) by (metis le_SucI)
  qed (use Suc.prems in auto)
  moreover have "huff_bit cap (odd c) (s\<lparr>hf_code := c div 2, hf_nbits := m\<rparr>) = Some (s\<lparr>hf_code := c, hf_nbits := Suc m\<rparr>)"
    using huff_bit_quiet [of "s\<lparr>hf_code := c div 2, hf_nbits := m\<rparr>" m "odd c" cap] Suc.prems(1) Suc.prems(2) [rule_format, of "Suc m"]
    by (simp add: half_odd)
  ultimately show ?case by (simp add: code_bits_div huff_bits_append)
qed

text \<open>The decoder between two symbols, after the bytes \<open>d\<close>.\<close>

definition huff_done :: "nat \<Rightarrow> bytes \<Rightarrow> huff_state" where
  "huff_done cap d = \<lparr>hf_code = 0, hf_nbits = 0, hf_out = take cap d, hf_len = length d, hf_truncated = (cap < length d),
     hf_upper = list_ex upper_byte d\<rparr>"

lemma huff_emit_done:
  assumes "sy < 256"
  shows "huff_emit cap sy ((huff_done cap d)\<lparr>hf_code := c, hf_nbits := n\<rparr>) =
    (if length d \<ge> QN_HUFF_MAX_OUT then None else Some (huff_done cap (d @ [word_of_nat sy])))"
proof -
  have "unat (word_of_nat sy :: u8) = sy" using assms by (simp add: unat_word_of_nat)
  then show ?thesis using assms by (auto simp: huff_emit_def huff_done_def Let_def upper_byte_def)
qed

lemma huff_word_of:
  assumes "n \<le> 30" "off < huff_count ! n"
  shows "huff_word (huff_sym ! (huff_first_index ! n + off)) = code_bits n (huff_first_code ! n + off)"
proof -
  let ?i = "huff_first_index ! n + off"
  have "?i < 257" by (rule huff_pos_bound [OF assms])
  then have "huff_pos (huff_sym ! ?i) = ?i"
    using huff_sym_distinct by (simp add: huff_pos_def takeWhile_eq_take_P_nth [of ?i] nth_eq_iff_index_eq)
  then show ?thesis by (simp add: huff_word_def Let_def huff_row_unique [OF assms])
qed

lemma takeWhile_full: "length (takeWhile P xs) = length xs \<Longrightarrow> x \<in> set xs \<Longrightarrow> P x"
  by (induction xs) (auto split: if_splits)

lemma ones_div:
  assumes "j \<le> k"
  shows "((2::nat) ^ k - 1) div 2 ^ (k - j) = 2 ^ j - 1"
proof -
  define a where "a = (2::nat) ^ (k - j)"
  have a: "0 < a" "a - 1 < a" by (simp_all add: a_def)
  have "(2::nat) ^ k = 2 ^ j * a" using assms by (simp add: a_def flip: power_add)
  moreover have "(2::nat) ^ j * a = (2 ^ j - 1) * a + a" by (simp add: diff_mult_distrib)
  ultimately have "(2::nat) ^ k - 1 = (2 ^ j - 1) * a + (a - 1)" using a by linarith
  then have "(2 ^ k - 1) div a = 2 ^ j - 1 + (a - 1) div a" using a(1) by (simp only: div_mult_self3)
  then show ?thesis using a by (simp add: a_def)
qed

lemma huff_word_decodes:
  "huff_bits cap (huff_word (unat b)) (huff_done cap d) =
     (if length d \<ge> QN_HUFF_MAX_OUT then None else Some (huff_done cap (d @ [b])))"
proof -
  define i where "i = huff_pos (unat b)"
  have mem: "unat b \<in> set huff_sym" using huff_sym_all unsigned_less [of b] by simp
  then have i: "i < 257" 
    using length_takeWhile_le [of "\<lambda>x. x \<noteq> unat b" huff_sym] takeWhile_full [of "\<lambda>x. x \<noteq> unat b" huff_sym "unat b"]
    by (auto simp: i_def huff_pos_def le_less)
  then have sy: "huff_sym ! i = unat b"
    using nth_length_takeWhile [of "\<lambda>x. x \<noteq> unat b" huff_sym] by (simp add: i_def huff_pos_def)
  define n where "n = huff_row i"
  note r = huff_row_of [OF i, folded n_def]
  define off where "off = i - huff_first_index ! n"
  have off: "off < huff_count ! n" "huff_first_index ! n + off = i" using r by (auto simp: off_def)
  define c where "c = huff_first_code ! n + off"
  have w: "huff_word (unat b) = code_bits n c" using huff_word_of [OF r(1) off(1)] by (simp add: off(2) sy c_def)
  obtain m where m: "n = Suc m" using off(1) by (cases n) (auto simp: huff_count_def)
  let ?s = "huff_done cap d"
  have "huff_bits cap (code_bits m (c div 2)) ?s = Some (?s\<lparr>hf_code := c div 2, hf_nbits := m\<rparr>)"
  proof (rule huff_bits_quiet)
    show "\<forall>j. j \<le> m \<longrightarrow> 0 < j \<longrightarrow> huff_first_code ! j + huff_count ! j \<le> c div 2 div 2 ^ (m - j)"
    proof (intro allI impI)
      fix j assume j: "j \<le> m"
      then have "(huff_first_code ! j + huff_count ! j) * 2 ^ Suc (m - j) \<le> c"
        using huff_room [of j n] r(1) m by (simp add: Suc_diff_le c_def)
      then show "huff_first_code ! j + huff_count ! j \<le> c div 2 div 2 ^ (m - j)"
        by (simp add: less_eq_div_iff_mult_less_eq mult.commute mult.assoc flip: div_mult2_eq)
    qed
    have "c < 2 ^ Suc m" using huff_below [OF r(1)] off(1) by (simp add: c_def m)
    then show "c div 2 < 2 ^ m" by auto
  qed (use r(1) m in \<open>auto simp: huff_done_def\<close>)
  moreover have "huff_bit cap (odd c) (?s\<lparr>hf_code := c div 2, hf_nbits := m\<rparr>) = huff_emit cap (unat b) (?s\<lparr>hf_code := c, hf_nbits := n\<rparr>)"
  proof -
    have "huff_sym ! (huff_first_index ! n + (c - huff_first_code ! n)) = unat b" using off(2) sy by (simp add: c_def)
    then show ?thesis using r(1) off(1) by (simp add: huff_bit_def Let_def half_odd flip: m) (simp add: c_def)
  qed
  ultimately show ?thesis using unsigned_less [of b] by (simp add: w m code_bits_div huff_bits_append huff_emit_done)
qed

lemma huff_encode_decodes:
  "length d \<le> QN_HUFF_MAX_OUT \<Longrightarrow> huff_bits cap (huff_encode d) huff_zero = Some (huff_done cap d)"
proof (induction d rule: rev_induct)
  case Nil
  then show ?case by (simp add: huff_encode_def huff_zero_def huff_done_def)
next
  case (snoc b d)
  then show ?case using huff_word_decodes [of cap b d] by (simp add: huff_encode_def huff_bits_append)
qed

lemma huff_padding:
  assumes "k < 8"
  shows "huff_bits cap (replicate k True) (huff_done cap d) = Some ((huff_done cap d)\<lparr>hf_code := 2 ^ k - 1, hf_nbits := k\<rparr>)"
proof -
  have "huff_bits cap (code_bits k (2 ^ k - 1)) (huff_done cap d) = Some ((huff_done cap d)\<lparr>hf_code := 2 ^ k - 1, hf_nbits := k\<rparr>)"
  proof (rule huff_bits_quiet)
    have "huff_first_code ! j + huff_count ! j \<le> 2 ^ j - 1" if "0 < j" "j < 8" for j
    proof -
      have "j \<in> {1, 2, 3, 4, 5, 6, 7}" using that by auto
      then show ?thesis by (auto simp: huff_first_code_def huff_count_def)
    qed
    then show "\<forall>j. j \<le> k \<longrightarrow> 0 < j \<longrightarrow> huff_first_code ! j + huff_count ! j \<le> (2 ^ k - 1) div 2 ^ (k - j)"
      using assms by (simp add: ones_div [unfolded One_nat_def])
  qed (use assms in \<open>auto simp: huff_done_def\<close>)
  then show ?thesis by (simp only: code_bits_ones)
qed

text \<open>What the decoder holds after any bits: whole words so far, and the bits of the open one.\<close>

lemma huff_bits_sound:
  assumes "huff_bits cap bs huff_zero = Some s"
  shows "\<exists>d. length d \<le> QN_HUFF_MAX_OUT \<and> s = (huff_done cap d)\<lparr>hf_code := hf_code s, hf_nbits := hf_nbits s\<rparr> \<and>
    hf_code s < 2 ^ hf_nbits s \<and> bs = huff_encode d @ code_bits (hf_nbits s) (hf_code s)"
  using assms
proof (induction bs arbitrary: s rule: rev_induct)
  case Nil
  then show ?case by (auto intro!: exI [of _ "[]"] simp: huff_zero_def huff_done_def huff_encode_def code_bits_def)
next
  case (snoc b bs)
  obtain t where t: "huff_bits cap bs huff_zero = Some t" "huff_bit cap b t = Some s"
    using snoc.prems by (auto simp: huff_bits_append split: option.splits)
  obtain d where d: "length d \<le> QN_HUFF_MAX_OUT" "t = (huff_done cap d)\<lparr>hf_code := hf_code t, hf_nbits := hf_nbits t\<rparr>"
      "hf_code t < 2 ^ hf_nbits t" "bs = huff_encode d @ code_bits (hf_nbits t) (hf_code t)"
    using snoc.IH [OF t(1)] by blast
  define c n where "c = 2 * hf_code t + of_bool b" and "n = Suc (hf_nbits t)"
  define u where "u = (huff_done cap d)\<lparr>hf_code := c, hf_nbits := n\<rparr>"
  have ut: "t\<lparr>hf_code := c, hf_nbits := n\<rparr> = u" by (subst d(2)) (simp add: u_def)
  have bs: "bs @ [b] = huff_encode d @ code_bits n c" by (simp add: d(4) c_def n_def code_bits_snoc)
  have lt: "c < 2 ^ n" using d(3) by (simp add: c_def n_def of_bool_def)
  have st: "huff_bit cap b t = (if n > QN_HUFF_MAXLEN then None else if huff_count ! n = 0 \<or> c < huff_first_code ! n then Some u
      else if c - huff_first_code ! n \<ge> huff_count ! n then Some u
      else huff_emit cap (huff_sym ! (huff_first_index ! n + (c - huff_first_code ! n))) u)"
    by (simp add: huff_bit_def Let_def ut [symmetric] c_def n_def)
  show ?case
  proof (cases "s = u")
    case True
    then show ?thesis using d(1) bs lt by (auto intro!: exI [of _ d] simp: u_def)
  next
    case False
    define off where "off = c - huff_first_code ! n"
    have e: "n \<le> 30" "off < huff_count ! n" "huff_first_code ! n + off = c" "huff_emit cap (huff_sym ! (huff_first_index ! n + off)) u = Some s"
      using t(2) False unfolding st by (auto simp: off_def split: if_splits)
    define sy where "sy = huff_sym ! (huff_first_index ! n + off)"
    have em: "huff_emit cap sy u = Some s" using e(4) by (simp add: sy_def)
    have "huff_first_index ! n + off < 257" using huff_pos_bound [OF e(1,2)] .
    then have "sy \<le> 256" using huff_sym_le [OF nth_mem] by (simp add: sy_def)
    then have sy: "sy < 256" using em by (cases "sy = 256") (auto simp: huff_emit_def)
    then have s: "s = huff_done cap (d @ [word_of_nat sy])" "length d < QN_HUFF_MAX_OUT"
      using em by (auto simp: u_def huff_emit_done [OF sy] split: if_splits)
    have "huff_word sy = code_bits n c" using huff_word_of [OF e(1,2)] e(3) by (simp add: sy_def)
    moreover have "unat (word_of_nat sy :: u8) = sy" using sy by (simp add: unat_word_of_nat)
    ultimately have "bs @ [b] = huff_encode (d @ [word_of_nat sy])" by (simp add: bs huff_encode_def)
    then show ?thesis using s by (auto intro!: exI [of _ "d @ [word_of_nat sy]"] simp: huff_done_def code_bits_def)
  qed
qed

section \<open>Properties\<close>

text \<open>
  Property C32.  The Huffman decoder accepts exactly the code words of at most 65536 bytes followed by
  fewer than eight ones, and then reports these bytes: the first \<open>cap\<close> of them, how many there are,
  whether some did not fit and whether one is an upper case letter.  So it neither accepts a longer
  or other padding nor the end-of-string symbol, and it reads back whatever was encoded.
\<close>

theorem huff_decode_exact:
  "qn_huff_decode src cap = Some h \<longleftrightarrow>
     (\<exists>s k. length s \<le> QN_HUFF_MAX_OUT \<and> k < 8 \<and> concat (map byte_bits src) = huff_encode s @ replicate k True \<and>
       h = \<lparr>hf_code = 2 ^ k - 1, hf_nbits = k, hf_out = take cap s, hf_len = length s, hf_truncated = (cap < length s),
         hf_upper = list_ex upper_byte s\<rparr>)" (is "?L \<longleftrightarrow> ?R")
proof
  assume ?L
  then have h: "huff_bits cap (concat (map byte_bits src)) huff_zero = Some h" "hf_nbits h < 8" "hf_nbits h = 0 \<or> hf_code h = 2 ^ hf_nbits h - 1"
    by (auto simp: qn_huff_decode_def split: option.splits if_splits)
  obtain d where d: "length d \<le> QN_HUFF_MAX_OUT" "h = (huff_done cap d)\<lparr>hf_code := hf_code h, hf_nbits := hf_nbits h\<rparr>"
      "hf_code h < 2 ^ hf_nbits h" "concat (map byte_bits src) = huff_encode d @ code_bits (hf_nbits h) (hf_code h)"
    using huff_bits_sound [OF h(1)] by blast
  have "hf_code h = 2 ^ hf_nbits h - 1" using h(3) d(3) by (cases "hf_nbits h = 0") auto
  then show ?R using d h(2) by (intro exI [of _ d] exI [of _ "hf_nbits h"]) (auto simp: huff_done_def code_bits_ones [unfolded One_nat_def])
next
  assume ?R
  then obtain s k where r: "length s \<le> QN_HUFF_MAX_OUT" "k < 8" "concat (map byte_bits src) = huff_encode s @ replicate k True"
      "h = (huff_done cap s)\<lparr>hf_code := 2 ^ k - 1, hf_nbits := k\<rparr>" by (auto simp: huff_done_def)
  then show ?L by (simp add: qn_huff_decode_def huff_bits_append huff_encode_decodes huff_padding)
qed

text \<open>
  Property C33.  A string written into a header block is read back whole whatever follows it, and the
  reader stops right behind it.
\<close>

theorem hpack_string_roundtrip:
  assumes "hpack_string s cap = Some bs"
  shows "pull_hpack_string (bs @ r) room =
    Some (\<lparr>st_p = octets s, st_full = length s, st_truncated = False, st_upper = list_ex upper_byte (octets s)\<rparr>, r)"
  by (rule pull_back_string [OF assms])

theorem hpack_string_roundtrip_witness:
  "pull_hpack_string ([2, 71, 111] @ [7, 8]) 32 = Some (\<lparr>st_p = [71, 111], st_full = 2, st_truncated = False, st_upper = True\<rparr>, [7, 8])"
proof -
  have o: "octets ''Go'' = [71, 111]" by (simp add: octets_def of_char_def)
  have "hpack_string ''Go'' 16 = Some [2, 71, 111]" by (simp add: hpack_string_def hpack_uint_def Let_def o)
  from hpack_string_roundtrip [OF this, of "[7, 8]" 32] show ?thesis by (simp add: o upper_byte_def)
qed

end
