(* ===== verification/Profile.thy ===== *)
theory Profile
  imports Probe_Http Perm "HOL-Library.Multiset"
begin

text \<open>
  Client profiles (\<^verbatim>\<open>src/net/profile.c\<close>): the browser a connection imitates, its HTTP/2 settings and
  header order, the seeded shuffle of the randomised profile and the HTTP/1.1 request.
\<close>

section \<open>Profiles\<close>

datatype qn_tls_fp = QN_TLS_FP_CHROME | QN_TLS_FP_FIREFOX | QN_TLS_FP_SAFARI | QN_TLS_FP_RANDOM

record qn_h2_setting =
  hs_id :: nat
  hs_value :: nat

datatype qn_pseudo_header = QN_PSEUDO_METHOD | QN_PSEUDO_AUTHORITY | QN_PSEUDO_SCHEME | QN_PSEUDO_PATH

datatype qn_regular_header = QN_HEADER_CONNECTION | QN_HEADER_USER_AGENT | QN_HEADER_ACCEPT | QN_HEADER_ACCEPT_ENCODING
  | QN_HEADER_ACCEPT_LANGUAGE | QN_HEADER_UPGRADE_INSECURE | QN_HEADER_SEC_FETCH_DEST | QN_HEADER_SEC_FETCH_MODE
  | QN_HEADER_SEC_FETCH_SITE | QN_HEADER_SEC_FETCH_USER | QN_HEADER_SEC_CH_UA | QN_HEADER_SEC_CH_UA_MOBILE
  | QN_HEADER_SEC_CH_UA_PLATFORM | QN_HEADER_PRIORITY | QN_HEADER_TE

record qn_http_header_profile =
  hp_user_agent :: string
  hp_accept :: string
  hp_accept_encoding :: string
  hp_accept_language :: string
  hp_sec_fetch_site :: string
  hp_sec_ch_ua :: "string option"
  hp_pseudo_order :: "qn_pseudo_header list"
  hp_header_order :: "qn_regular_header list"

record qn_client_profile =
  cp_tls :: qn_tls_fp
  cp_h2_settings :: "qn_h2_setting list"
  cp_h2_window :: nat
  cp_http :: qn_http_header_profile
  cp_name :: string
  cp_browser :: string
  cp_platform :: string
  cp_version :: string

abbreviation H2_HEADER_TABLE_SIZE :: nat where "H2_HEADER_TABLE_SIZE \<equiv> 1"
abbreviation H2_ENABLE_PUSH :: nat where "H2_ENABLE_PUSH \<equiv> 2"
abbreviation H2_MAX_CONCURRENT :: nat where "H2_MAX_CONCURRENT \<equiv> 3"
abbreviation H2_INITIAL_WINDOW :: nat where "H2_INITIAL_WINDOW \<equiv> 4"
abbreviation H2_MAX_FRAME_SIZE :: nat where "H2_MAX_FRAME_SIZE \<equiv> 5"
abbreviation H2_MAX_HEADER_LIST :: nat where "H2_MAX_HEADER_LIST \<equiv> 6"
abbreviation H2_ENABLE_CONNECT :: nat where "H2_ENABLE_CONNECT \<equiv> 8"
abbreviation H2_NO_RFC7540_PRI :: nat where "H2_NO_RFC7540_PRI \<equiv> 9"

definition setting :: "nat \<Rightarrow> nat \<Rightarrow> qn_h2_setting" where "setting i v = \<lparr>hs_id = i, hs_value = v\<rparr>"

definition chrome_http :: qn_http_header_profile where
  "chrome_http = \<lparr>
     hp_user_agent = ''Mozilla/5.0 (Linux; Android 10; K) AppleWebKit/537.36 (KHTML, like Gecko) Chrome/151.0.0.0 Mobile Safari/537.36'',
     hp_accept = ''text/html,application/xhtml+xml,application/xml;q=0.9,image/avif,image/webp,image/apng,*/*;q=0.8,application/signed-exchange;v=b3;q=0.7'',
     hp_accept_encoding = ''gzip, deflate, br, zstd'',
     hp_accept_language = ''fa,en-US;q=0.9,en;q=0.8,de;q=0.7'',
     hp_sec_fetch_site = ''cross-site'',
     hp_sec_ch_ua = Some ([DQ] @ ''Not=A?Brand'' @ [DQ] @ '';v='' @ [DQ] @ ''99'' @ [DQ] @ '', '' @ [DQ] @ ''Google Chrome'' @ [DQ] @ '';v='' @
       [DQ] @ ''151'' @ [DQ] @ '', '' @ [DQ] @ ''Chromium'' @ [DQ] @ '';v='' @ [DQ] @ ''151'' @ [DQ]),
     hp_pseudo_order = [QN_PSEUDO_METHOD, QN_PSEUDO_AUTHORITY, QN_PSEUDO_SCHEME, QN_PSEUDO_PATH],
     hp_header_order = [QN_HEADER_CONNECTION, QN_HEADER_SEC_CH_UA, QN_HEADER_SEC_CH_UA_MOBILE, QN_HEADER_SEC_CH_UA_PLATFORM,
       QN_HEADER_UPGRADE_INSECURE, QN_HEADER_USER_AGENT, QN_HEADER_ACCEPT, QN_HEADER_SEC_FETCH_SITE, QN_HEADER_SEC_FETCH_MODE,
       QN_HEADER_SEC_FETCH_DEST, QN_HEADER_ACCEPT_ENCODING, QN_HEADER_ACCEPT_LANGUAGE]\<rparr>"

definition firefox_http :: qn_http_header_profile where
  "firefox_http = \<lparr>
     hp_user_agent = ''Mozilla/5.0 (Android 13; Mobile; rv:153.0) Gecko/153.0 Firefox/153.0'',
     hp_accept = ''text/html,application/xhtml+xml,application/xml;q=0.9,*/*;q=0.8'',
     hp_accept_encoding = ''gzip, deflate, br, zstd'', hp_accept_language = ''fa-IR'', hp_sec_fetch_site = ''none'', hp_sec_ch_ua = None,
     hp_pseudo_order = [QN_PSEUDO_METHOD, QN_PSEUDO_PATH, QN_PSEUDO_AUTHORITY, QN_PSEUDO_SCHEME],
     hp_header_order = [QN_HEADER_USER_AGENT, QN_HEADER_ACCEPT, QN_HEADER_ACCEPT_LANGUAGE, QN_HEADER_ACCEPT_ENCODING, QN_HEADER_CONNECTION,
       QN_HEADER_UPGRADE_INSECURE, QN_HEADER_SEC_FETCH_DEST, QN_HEADER_SEC_FETCH_MODE, QN_HEADER_SEC_FETCH_SITE, QN_HEADER_SEC_FETCH_USER,
       QN_HEADER_PRIORITY]\<rparr>"

definition safari_http :: qn_http_header_profile where
  "safari_http = \<lparr>
     hp_user_agent = ''Mozilla/5.0 (iPhone; CPU iPhone OS 26_3 like Mac OS X) AppleWebKit/605.1.15 (KHTML, like Gecko) Version/26.0 Mobile/15E148 Safari/604.1'',
     hp_accept = ''text/html,application/xhtml+xml,application/xml;q=0.9,*/*;q=0.8'',
     hp_accept_encoding = ''gzip, deflate, br'', hp_accept_language = ''en-US,en;q=0.9'', hp_sec_fetch_site = ''none'', hp_sec_ch_ua = None,
     hp_pseudo_order = [QN_PSEUDO_METHOD, QN_PSEUDO_SCHEME, QN_PSEUDO_PATH, QN_PSEUDO_AUTHORITY],
     hp_header_order = [QN_HEADER_USER_AGENT, QN_HEADER_ACCEPT, QN_HEADER_ACCEPT_LANGUAGE, QN_HEADER_ACCEPT_ENCODING, QN_HEADER_UPGRADE_INSECURE,
       QN_HEADER_SEC_FETCH_DEST, QN_HEADER_SEC_FETCH_MODE, QN_HEADER_SEC_FETCH_SITE, QN_HEADER_SEC_FETCH_USER, QN_HEADER_PRIORITY,
       QN_HEADER_CONNECTION]\<rparr>"

text \<open>The table \<open>PROFILES\<close>, by its index.\<close>

fun qn_client_profile_get :: "qn_tls_fp \<Rightarrow> qn_client_profile" where
  "qn_client_profile_get QN_TLS_FP_CHROME =
     \<lparr>cp_tls = QN_TLS_FP_CHROME,
      cp_h2_settings = [setting H2_HEADER_TABLE_SIZE 65536, setting H2_ENABLE_PUSH 0, setting H2_INITIAL_WINDOW (6 * 2 ^ 20), setting H2_MAX_HEADER_LIST (256 * 2 ^ 10)],
      cp_h2_window = 15 * 2 ^ 20, cp_http = chrome_http,
      cp_name = ''chrome-android-151'', cp_browser = ''Chrome'', cp_platform = ''Android'', cp_version = ''151''\<rparr>"
| "qn_client_profile_get QN_TLS_FP_FIREFOX =
     \<lparr>cp_tls = QN_TLS_FP_FIREFOX,
      cp_h2_settings = [setting H2_HEADER_TABLE_SIZE 65536, setting H2_ENABLE_PUSH 0, setting H2_INITIAL_WINDOW 131072, setting H2_MAX_FRAME_SIZE 16384],
      cp_h2_window = 12 * 2 ^ 20, cp_http = firefox_http,
      cp_name = ''firefox-android-153'', cp_browser = ''Firefox'', cp_platform = ''Android'', cp_version = ''153''\<rparr>"
| "qn_client_profile_get QN_TLS_FP_SAFARI =
     \<lparr>cp_tls = QN_TLS_FP_SAFARI,
      cp_h2_settings = [setting H2_HEADER_TABLE_SIZE 4096, setting H2_ENABLE_PUSH 0, setting H2_MAX_CONCURRENT 100, setting H2_INITIAL_WINDOW (2 * 2 ^ 20),
        setting H2_ENABLE_CONNECT 1, setting H2_NO_RFC7540_PRI 1],
      cp_h2_window = 10 * 2 ^ 20, cp_http = safari_http,
      cp_name = ''safari-ios-26'', cp_browser = ''Safari'', cp_platform = ''iOS'', cp_version = ''26.3''\<rparr>"
| "qn_client_profile_get QN_TLS_FP_RANDOM =
     \<lparr>cp_tls = QN_TLS_FP_RANDOM,
      cp_h2_settings = [setting H2_HEADER_TABLE_SIZE 65536, setting H2_ENABLE_PUSH 0, setting H2_INITIAL_WINDOW (6 * 2 ^ 20), setting H2_MAX_HEADER_LIST (256 * 2 ^ 10)],
      cp_h2_window = 15 * 2 ^ 20, cp_http = chrome_http,
      cp_name = ''random'', cp_browser = ''Randomized'', cp_platform = ''dynamic'', cp_version = ''seeded''\<rparr>"

definition tls_fps :: "qn_tls_fp list" where
  "tls_fps = [QN_TLS_FP_CHROME, QN_TLS_FP_FIREFOX, QN_TLS_FP_SAFARI, QN_TLS_FP_RANDOM]"

definition qn_tls_fp_str :: "qn_tls_fp \<Rightarrow> string" where "qn_tls_fp_str f = cp_name (qn_client_profile_get f)"

definition qn_client_profile_parse :: "string \<Rightarrow> qn_tls_fp option" where
  "qn_client_profile_parse name =
     (case List.find (\<lambda>f. name = cp_name (qn_client_profile_get f)) tls_fps of
        Some f \<Rightarrow> Some f
      | None \<Rightarrow>
          if name = ''chrome'' then Some QN_TLS_FP_CHROME
          else if name = ''firefox'' then Some QN_TLS_FP_FIREFOX
          else if name = ''safari'' then Some QN_TLS_FP_SAFARI
          else if name = ''chrome-android-126'' then Some QN_TLS_FP_CHROME
          else if name = ''firefox-android-127'' then Some QN_TLS_FP_FIREFOX
          else if name = ''safari-ios-17'' then Some QN_TLS_FP_SAFARI
          else None)"

definition qn_tls_fp_parse :: "string \<Rightarrow> qn_tls_fp option" where "qn_tls_fp_parse name = qn_client_profile_parse name"

section \<open>Shuffling\<close>

definition shape_next :: "u64 \<Rightarrow> u64 \<times> u64" where
  "shape_next state =
     (let s = state + 0x9E3779B97F4A7C15;
          z = (s XOR drop_bit 30 s) * 0xBF58476D1CE4E5B9;
          z = (z XOR drop_bit 27 z) * 0x94D049BB133111EB
      in (z XOR drop_bit 31 z, s))"

text \<open>Both shuffles of the code, which differ in the type of the elements.\<close>

fun shuffle :: "'a list \<Rightarrow> nat \<Rightarrow> u64 \<Rightarrow> 'a list \<times> u64" where
  "shuffle v (Suc (Suc k)) state =
     (let i = k + 2; (x, state') = shape_next state; j = unat x mod i; tmp = v ! (i - 1)
      in shuffle (v[i - 1 := v ! j, j := tmp]) (Suc k) state')"
| "shuffle v _ state = (v, state)"

definition shuffle_u8 :: "'a list \<Rightarrow> nat \<Rightarrow> u64 \<Rightarrow> 'a list \<times> u64" where "shuffle_u8 v n state = shuffle v n state"

definition shuffle_h2 :: "qn_h2_setting list \<Rightarrow> nat \<Rightarrow> u64 \<Rightarrow> qn_h2_setting list \<times> u64" where "shuffle_h2 v n state = shuffle v n state"

text \<open>Every initial window gets a value of its own.\<close>

fun random_windows :: "qn_h2_setting list \<Rightarrow> u64 \<Rightarrow> qn_h2_setting list" where
  "random_windows [] state = []"
| "random_windows (s # ss) state =
     (if hs_id s = H2_INITIAL_WINDOW
      then (let (x, state') = shape_next state
            in s\<lparr>hs_value := (65535 + unat x mod (4 * 2 ^ 20)) mod 2 ^ 32\<rparr> # random_windows ss state')
      else s # random_windows ss state)"

abbreviation QN_PROFILE_MAX_H2_SETTINGS :: nat where "QN_PROFILE_MAX_H2_SETTINGS \<equiv> 6"
abbreviation QN_PROFILE_MAX_HEADERS :: nat where "QN_PROFILE_MAX_HEADERS \<equiv> 12"

definition qn_profile_h2_shape :: "qn_client_profile \<Rightarrow> u64 \<Rightarrow> nat \<Rightarrow> (qn_h2_setting list \<times> nat) option" where
  "qn_profile_h2_shape p seed cap =
     (let s = cp_h2_settings p in
      if length s > QN_PROFILE_MAX_H2_SETTINGS \<or> cap < length s then None
      else (let s = (if cp_tls p = QN_TLS_FP_RANDOM
                     then (let (v, state) = shuffle_h2 s (length s) (seed XOR 0x48322D5345545449) in random_windows v state)
                     else s)
            in Some (s, cp_h2_window p)))"

definition qn_profile_http_shape :: "qn_client_profile \<Rightarrow> u64 \<Rightarrow> (qn_pseudo_header list \<times> qn_regular_header list) option" where
  "qn_profile_http_shape p seed =
     (let ps = hp_pseudo_order (cp_http p); hs = hp_header_order (cp_http p) in
      if length hs > QN_PROFILE_MAX_HEADERS then None
      else if cp_tls p = QN_TLS_FP_RANDOM
      then (let (ps', state) = shuffle_u8 ps 4 (seed XOR 0x48322D4845414445); (hs', _) = shuffle_u8 hs (length hs) state in Some (ps', hs'))
      else Some (ps, hs))"

section \<open>Instances\<close>

datatype qn_profile_support = QN_PROFILE_EXACT | QN_PROFILE_CAPABILITY_CONSTRAINED | QN_PROFILE_UNSUPPORTED

fun qn_profile_support_str :: "qn_profile_support \<Rightarrow> string" where
  "qn_profile_support_str QN_PROFILE_EXACT = ''exact''"
| "qn_profile_support_str QN_PROFILE_CAPABILITY_CONSTRAINED = ''capability-constrained''"
| "qn_profile_support_str QN_PROFILE_UNSUPPORTED = ''unsupported''"

record qn_profile_instance =
  pi_version :: nat
  pi_requested :: qn_tls_fp
  pi_resolved :: qn_tls_fp
  pi_support :: qn_profile_support
  pi_profile :: qn_client_profile
  pi_seed :: u64
  pi_grease_seed :: u64
  pi_sni :: string
  pi_h2_settings :: "qn_h2_setting list"
  pi_h2_window :: nat
  pi_pseudo_order :: "qn_pseudo_header list"
  pi_header_order :: "qn_regular_header list"
  pi_allow_tls12 :: bool
  pi_cert_strict :: bool

definition qn_profile_seed_from_run :: "u64 \<Rightarrow> u64" where
  "qn_profile_seed_from_run run_seed = qn_seed_derive run_seed 0x43462D50524F4649"

definition qn_profile_wire_seed :: "u64 \<Rightarrow> u64 \<Rightarrow> u64" where
  "qn_profile_wire_seed run_seed index =
     qn_seed_derive (qn_seed_derive run_seed 0x43462D4445455000) (0x5645524946590000 XOR index)"

definition qn_profile_instance_init :: "qn_tls_fp \<Rightarrow> u64 \<Rightarrow> string \<Rightarrow> bool \<Rightarrow> bool \<Rightarrow> qn_profile_instance option" where
  "qn_profile_instance_init requested seed sni allow_tls12 cert_strict =
     (if \<not> qn_valid_hostname sni then None
      else (let resolved = (if requested = QN_TLS_FP_RANDOM then tls_fps ! (unat (qn_seed_derive seed 0x50524F46494C4500) mod 3) else requested);
                profile = qn_client_profile_get resolved
            in if snd (qn_strlcpy sni 254) \<ge> 254 then None
               else (case qn_profile_h2_shape profile seed QN_PROFILE_MAX_H2_SETTINGS of
                       None \<Rightarrow> None
                     | Some (settings, window) \<Rightarrow>
                         (case qn_profile_http_shape profile seed of
                            None \<Rightarrow> None
                          | Some (ps, hs) \<Rightarrow>
                              Some \<lparr>pi_version = 2, pi_requested = requested, pi_resolved = resolved, pi_support = QN_PROFILE_CAPABILITY_CONSTRAINED,
                                pi_profile = profile, pi_seed = seed, pi_grease_seed = qn_seed_derive seed 0x4752454153450000, pi_sni = sni,
                                pi_h2_settings = settings, pi_h2_window = window, pi_pseudo_order = ps, pi_header_order = hs,
                                pi_allow_tls12 = allow_tls12, pi_cert_strict = cert_strict\<rparr>))))"

section \<open>The request\<close>

text \<open>
  A writer is the text so far, or \<open>None\<close> once it has failed.  A profile without a client hint
  names no header that needs it (lemma \<open>orders_have_hints\<close>); the code would read a null pointer.
\<close>

definition request_put :: "nat \<Rightarrow> string \<Rightarrow> string option \<Rightarrow> string option" where
  "request_put cap t w = (case w of None \<Rightarrow> None | Some s \<Rightarrow> if length t > cap - length s then None else Some (s @ t))"

fun header_parts :: "qn_http_header_profile \<Rightarrow> qn_regular_header \<Rightarrow> string list option" where
  "header_parts p QN_HEADER_CONNECTION = Some [''Connection: keep-alive'']"
| "header_parts p QN_HEADER_USER_AGENT = Some [''User-Agent: '', hp_user_agent p]"
| "header_parts p QN_HEADER_ACCEPT = Some [''Accept: '', hp_accept p]"
| "header_parts p QN_HEADER_ACCEPT_ENCODING = Some [''Accept-Encoding: '', hp_accept_encoding p]"
| "header_parts p QN_HEADER_ACCEPT_LANGUAGE = Some [''Accept-Language: '', hp_accept_language p]"
| "header_parts p QN_HEADER_UPGRADE_INSECURE = Some [''Upgrade-Insecure-Requests: 1'']"
| "header_parts p QN_HEADER_SEC_FETCH_DEST = Some [''Sec-Fetch-Dest: document'']"
| "header_parts p QN_HEADER_SEC_FETCH_MODE = Some [''Sec-Fetch-Mode: navigate'']"
| "header_parts p QN_HEADER_SEC_FETCH_SITE = Some [''Sec-Fetch-Site: '', hp_sec_fetch_site p]"
| "header_parts p QN_HEADER_SEC_FETCH_USER = Some [''Sec-Fetch-User: ?1'']"
| "header_parts p QN_HEADER_SEC_CH_UA = map_option (\<lambda>ua. [''Sec-CH-UA: '', ua]) (hp_sec_ch_ua p)"
| "header_parts p QN_HEADER_SEC_CH_UA_MOBILE = Some [''Sec-CH-UA-Mobile: ?1'']"
| "header_parts p QN_HEADER_SEC_CH_UA_PLATFORM = Some [''Sec-CH-UA-Platform: '' @ [DQ] @ ''Android'' @ [DQ]]"
| "header_parts p QN_HEADER_PRIORITY = Some [''Priority: u=0, i'']"
| "header_parts p QN_HEADER_TE = Some [''TE: trailers'']"

definition request_header :: "nat \<Rightarrow> qn_http_header_profile \<Rightarrow> qn_regular_header \<Rightarrow> string option \<Rightarrow> string option" where
  "request_header cap p h w = (case header_parts p h of None \<Rightarrow> None | Some ts \<Rightarrow> fold (request_put cap) (ts @ [CRLF]) w)"

definition request_text :: "qn_http_header_profile \<Rightarrow> qn_regular_header list \<Rightarrow> string \<Rightarrow> string \<Rightarrow> nat \<Rightarrow> string option" where
  "request_text p order host path cap =
     (let w = fold (request_put cap) [''GET '', path, '' HTTP/1.1'' @ CRLF @ ''Host: '', host, CRLF] (Some []);
          w = fold (request_header cap p) order w;
          w = request_put cap CRLF w
      in case w of None \<Rightarrow> None | Some s \<Rightarrow> if length s \<ge> cap \<or> length s > 2147483647 then None else Some s)"

definition qn_profile_http1_get :: "qn_client_profile \<Rightarrow> u64 \<Rightarrow> string \<Rightarrow> string \<Rightarrow> nat \<Rightarrow> string option" where
  "qn_profile_http1_get p seed host path cap =
     (if cap = 0 \<or> \<not> qn_valid_field host 253 \<or> \<not> qn_valid_field path 1024 then None
      else (case qn_profile_http_shape p seed of
              None \<Rightarrow> None
            | Some (_, order) \<Rightarrow> request_text (cp_http p) order host path cap))"

definition qn_profile_instance_http1_get :: "qn_profile_instance \<Rightarrow> string \<Rightarrow> string \<Rightarrow> nat \<Rightarrow> string option" where
  "qn_profile_instance_http1_get inst host path cap =
     (if pi_version inst \<noteq> 2 \<or> cap = 0 \<or> \<not> qn_valid_field host 253 \<or> \<not> qn_valid_field path 1024 then None
      else request_text (cp_http (pi_profile inst)) (pi_header_order inst) host path cap)"

section \<open>Shuffles keep the elements\<close>

lemma shuffle_mset: "n \<le> length v \<Longrightarrow> mset (fst (shuffle v n state)) = mset v \<and> length (fst (shuffle v n state)) = length v"
proof (induction v n state rule: shuffle.induct)
  case (1 v k state)
  obtain x s where x: "shape_next state = (x, s)" by force
  let ?j = "unat x mod (k + 2)" and ?v = "v[k + 2 - 1 := v ! (unat x mod (k + 2)), unat x mod (k + 2) := v ! (k + 2 - 1)]"
  have "?j < length v" "k + 2 - 1 < length v" using 1(2) mod_less_divisor [of "k + 2" "unat x"] by linarith+
  then have "mset ?v = mset v" by (rule mset_swap)
  then show ?case using 1(1) [OF refl x [symmetric] refl refl] 1(2) x by (simp add: Let_def)
qed auto

lemma windows_ids: "map hs_id (random_windows ss state) = map hs_id ss"
  by (induction ss state rule: random_windows.induct) (auto split: prod.splits)

lemma http_shape_mset:
  assumes "qn_profile_http_shape p seed = Some (ps, hs)" "length (hp_pseudo_order (cp_http p)) = 4"
  shows "mset ps = mset (hp_pseudo_order (cp_http p))" "mset hs = mset (hp_header_order (cp_http p))"
  using assms shuffle_mset [of 4 "hp_pseudo_order (cp_http p)"] shuffle_mset [of "length (hp_header_order (cp_http p))" "hp_header_order (cp_http p)"]
  by (auto simp: qn_profile_http_shape_def shuffle_u8_def Let_def split: if_splits prod.splits) (metis fst_conv order_refl)+

lemma pseudo_orders [simp]: "length (hp_pseudo_order (cp_http (qn_client_profile_get f))) = 4"
  by (cases f) (simp_all add: chrome_http_def firefox_http_def safari_http_def)

section \<open>The text of a request\<close>

definition line_text :: "string \<Rightarrow> bool" where "line_text l \<longleftrightarrow> l \<noteq> [] \<and> CR \<notin> set l \<and> LF \<notin> set l"

definition head_text :: "string list \<Rightarrow> string" where "head_text ls = concat (map (\<lambda>l. l @ CRLF) ls) @ CRLF"

lemma put_simps [simp]: "request_put cap t None = None" "request_put cap t (Some s) = (if length t > cap - length s then None else Some (s @ t))"
  by (simp_all add: request_put_def)

lemma put_none [simp]: "fold (request_put cap) ts None = None" by (induction ts) simp_all

lemma put_all: "fold (request_put cap) ts (Some s) = Some r \<Longrightarrow> r = s @ concat ts"
proof (induction ts arbitrary: s)
  case (Cons t ts)
  then show ?case using Cons.IH [of "s @ t"] by (cases "length t > cap - length s") auto
qed simp

lemma header_simps [simp]: "request_header cap p h None = None"
  by (auto simp: request_header_def split: option.splits)

lemma header_none [simp]: "fold (request_header cap p) hs None = None"
  by (induction hs) simp_all

lemma header_all:
  "fold (request_header cap p) hs (Some s) = Some r \<Longrightarrow>
    \<exists>ls. map Some ls = map (\<lambda>h. map_option concat (header_parts p h)) hs \<and> r = s @ concat (map (\<lambda>l. l @ CRLF) ls)"
proof (induction hs arbitrary: s)
  case (Cons h hs)
  have step: "fold (request_header cap p) hs (request_header cap p h (Some s)) = Some r" using Cons.prems by simp
  then obtain s' where s': "request_header cap p h (Some s) = Some s'" by (cases "request_header cap p h (Some s)") simp_all
  then obtain ts where ts: "header_parts p h = Some ts" "fold (request_put cap) (ts @ [CRLF]) (Some s) = Some s'"
    by (auto simp: request_header_def split: option.splits)
  have e: "s' = s @ concat ts @ CRLF" using put_all [OF ts(2)] by simp
  obtain ls where "map Some ls = map (\<lambda>h. map_option concat (header_parts p h)) hs" "r = s' @ concat (map (\<lambda>l. l @ CRLF) ls)"
    using Cons.IH [of s'] step s' by auto
  then show ?case using ts e by (intro exI [of _ "concat ts # ls"]) simp
qed simp

lemma request_text_lines:
  assumes "request_text p order host path cap = Some t"
  shows "\<exists>ls. map Some ls = map (\<lambda>h. map_option concat (header_parts p h)) order \<and>
    t = head_text ((''GET '' @ path @ '' HTTP/1.1'') # (''Host: '' @ host) # ls) \<and> length t < cap"
proof -
  let ?start = "[''GET '', path, '' HTTP/1.1'' @ CRLF @ ''Host: '', host, CRLF]"
  obtain w0 where w0: "fold (request_put cap) ?start (Some []) = Some w0"
    using assms by (cases "fold (request_put cap) ?start (Some [])") (simp_all add: request_text_def Let_def request_put_def)
  obtain w1 where w1: "fold (request_header cap p) order (Some w0) = Some w1"
    using assms w0 by (cases "fold (request_header cap p) order (Some w0)") (simp_all add: request_text_def Let_def request_put_def)
  have "request_put cap CRLF (Some w1) = Some t" "length t < cap"
    using assms w0 w1 by (auto simp: request_text_def Let_def split: option.splits if_splits)
  then have "t = w1 @ CRLF" by (simp add: request_put_def split: if_splits)
  then show ?thesis using put_all [OF w0] header_all [OF w1] \<open>length t < cap\<close> by (auto simp: head_text_def)
qed

section \<open>One head\<close>

lemma head_text_empty_line:
  "ls \<noteq> [] \<Longrightarrow> list_all line_text ls \<Longrightarrow> crlf2_at (head_text ls) p \<longleftrightarrow> p + 4 = length (head_text ls)"
proof (induction ls arbitrary: p)
  case (Cons l ls)
  let ?r = "head_text ls" and ?n = "length l"
  have l: "l \<noteq> []" "CR \<notin> set l" "LF \<notin> set l" using Cons.prems by (auto simp: line_text_def)
  have t: "head_text (l # ls) = l @ CR # LF # ?r" by (simp add: head_text_def)
  have far: "crlf2_at (l @ CR # LF # ?r) (?n + 2 + q) = crlf2_at ?r q" for q
    by (auto simp: crlf2_at_def nth_append add.commute)
  consider "p < ?n" | "p = ?n" | "p = ?n + 1" | q where "p = ?n + 2 + q" by (metis add_2_eq_Suc' le_Suc_ex less_SucE not_less add.commute plus_1_eq_Suc)
  then show ?case
  proof cases
    case 1
    then have "(l @ CR # LF # ?r) ! p = l ! p" by (simp add: nth_append)
    then have "\<not> crlf2_at (l @ CR # LF # ?r) p" using 1 l(2) by (auto simp: crlf2_at_def in_set_conv_nth)
    then show ?thesis using 1 by (simp add: t head_text_def)
  next
    case 2
    show ?thesis
    proof (cases ls)
      case Nil
      then show ?thesis using 2 by (simp add: t crlf2_at_def head_text_def nth_append)
    next
      case (Cons m ms)
      then have m: "m \<noteq> []" "CR \<notin> set m" using \<open>list_all line_text (l # ls)\<close> by (auto simp: line_text_def)
      then have "?r ! 0 = hd m" "hd m \<noteq> CR" using Cons by (cases m; auto simp: head_text_def)+
      then have "\<not> crlf2_at (l @ CR # LF # ?r) p" using 2 by (simp add: crlf2_at_def nth_append)
      moreover have "4 < length (CR # LF # ?r)" using m Cons by (cases m) (simp_all add: head_text_def)
      ultimately show ?thesis using 2 by (simp add: t)
    qed
  next
    case 3
    then have "\<not> crlf2_at (l @ CR # LF # ?r) p" by (simp add: crlf2_at_def nth_append)
    then show ?thesis using 3 by (cases ls) (auto simp: t head_text_def)
  next
    case (4 q)
    show ?thesis
    proof (cases "ls = []")
      case True
      then show ?thesis using 4 far [of q] by (simp add: t crlf2_at_def head_text_def)
    next
      case False
      have ih: "crlf2_at ?r q \<longleftrightarrow> q + 4 = length ?r" by (rule Cons.IH [OF False]) (use Cons.prems in simp)
      show ?thesis unfolding t 4 far ih by auto
    qed
  qed
qed simp

lemma head_text_end: "ls \<noteq> [] \<Longrightarrow> list_all line_text ls \<Longrightarrow> qn_find_headers_end (head_text ls) = Some (length (head_text ls))"
proof -
  assume ls: "ls \<noteq> []" "list_all line_text ls"
  have four: "4 \<le> length (head_text ls)" using ls(1) by (cases ls) (simp_all add: head_text_def)
  have e: "crlf2_at (head_text ls) p \<longleftrightarrow> p = length (head_text ls) - 4" for p using head_text_empty_line [OF ls, of p] four by auto
  have "(LEAST p. p = length (head_text ls) - 4) = length (head_text ls) - 4" by (rule Least_equality) auto
  then show ?thesis unfolding find_headers_end_eq e using four by simp
qed

lemma valid_field_line: "qn_valid_field s mx \<Longrightarrow> CR \<notin> set s \<and> LF \<notin> set s"
proof -
  have "valid_field_from s i mx \<Longrightarrow> \<forall>c \<in> set s. 0x20 < code c" for i by (induction s arbitrary: i) (auto split: if_splits)
  moreover assume "qn_valid_field s mx"
  ultimately have "\<forall>c \<in> set s. 0x20 < code c" by (auto simp: qn_valid_field_def)
  then show ?thesis by auto
qed

text \<open>The header lines of the profiles: none is missing and none breaks a line.\<close>

lemma orders_have_hints: "h \<in> set (hp_header_order (cp_http (qn_client_profile_get f))) \<Longrightarrow>
    \<exists>ts. header_parts (cp_http (qn_client_profile_get f)) h = Some ts \<and> line_text (concat ts)"
proof -
  have "list_all (\<lambda>h. case header_parts (cp_http (qn_client_profile_get f)) h of None \<Rightarrow> False | Some ts \<Rightarrow> line_text (concat ts))
      (hp_header_order (cp_http (qn_client_profile_get f)))"
    by (cases f) (simp_all add: chrome_http_def firefox_http_def safari_http_def line_text_def)
  moreover assume "h \<in> set (hp_header_order (cp_http (qn_client_profile_get f)))"
  ultimately show ?thesis by (auto simp: list_all_iff split: option.splits)
qed

lemma request_one_head:
  assumes t: "request_text (cp_http (qn_client_profile_get f)) order host path cap = Some t" and o: "mset order = mset (hp_header_order (cp_http (qn_client_profile_get f)))"
    and v: "qn_valid_field host n" "qn_valid_field path m"
  shows "qn_find_headers_end t = Some (length t)" "length t < cap"
proof -
  obtain ls where ls: "map Some ls = map (\<lambda>h. map_option concat (header_parts (cp_http (qn_client_profile_get f)) h)) order"
      "t = head_text ((''GET '' @ path @ '' HTTP/1.1'') # (''Host: '' @ host) # ls)" "length t < cap"
    using request_text_lines [OF t] by blast
  have "line_text l" if "l \<in> set ls" for l
  proof -
    have "Some l \<in> set (map Some ls)" using that by simp
    then obtain h where h: "h \<in> set order" "Some l = map_option concat (header_parts (cp_http (qn_client_profile_get f)) h)" unfolding ls(1) set_map by (rule imageE)
    then have "h \<in> set (hp_header_order (cp_http (qn_client_profile_get f)))" using o by (metis set_mset_mset)
    then show ?thesis using orders_have_hints [of h f] h(2) [symmetric] by auto
  qed
  then have "list_all line_text ((''GET '' @ path @ '' HTTP/1.1'') # (''Host: '' @ host) # ls)"
    using valid_field_line [OF v(1)] valid_field_line [OF v(2)] by (auto simp: list_all_iff line_text_def)
  then show "qn_find_headers_end t = Some (length t)" unfolding ls(2) by (intro head_text_end) simp_all
  show "length t < cap" by (rule ls(3))
qed



end
