(* ===== verification/Http2.thy ===== *)
theory Http2
  imports Http1 Profile Hpack Wire
begin

text \<open>
  Framing of HTTP/2 as \<^verbatim>\<open>src/net/http2.c\<close> has it: the preface and the requests the prober writes, and
  the reader that turns the bytes of a peer into facts per stream, answers SETTINGS and PING and
  publishes flow control credit.  A buffer with its fill counter is the list of the bytes in it; an
  \<^verbatim>\<open>uint32_t\<close> is a natural number, with the wrap-around written where it can happen.  What a failed
  call leaves in the state is part of the model, since a later call continues from it.
\<close>

section \<open>Constants\<close>

abbreviation H2_DATA :: nat where "H2_DATA \<equiv> 0"
abbreviation H2_HEADERS :: nat where "H2_HEADERS \<equiv> 1"
abbreviation H2_RST_STREAM :: nat where "H2_RST_STREAM \<equiv> 3"
abbreviation H2_SETTINGS :: nat where "H2_SETTINGS \<equiv> 4"
abbreviation H2_PUSH_PROMISE :: nat where "H2_PUSH_PROMISE \<equiv> 5"
abbreviation H2_PING :: nat where "H2_PING \<equiv> 6"
abbreviation H2_GOAWAY :: nat where "H2_GOAWAY \<equiv> 7"
abbreviation H2_WINDOW_UPDATE :: nat where "H2_WINDOW_UPDATE \<equiv> 8"
abbreviation H2_CONTINUATION :: nat where "H2_CONTINUATION \<equiv> 9"

abbreviation H2_END_STREAM :: u8 where "H2_END_STREAM \<equiv> 0x01"
abbreviation H2_ACK :: u8 where "H2_ACK \<equiv> 0x01"
abbreviation H2_END_HEADERS :: u8 where "H2_END_HEADERS \<equiv> 0x04"
abbreviation H2_PADDED :: u8 where "H2_PADDED \<equiv> 0x08"
abbreviation H2_PRIORITY :: u8 where "H2_PRIORITY \<equiv> 0x20"

abbreviation H2_MAX_FRAME_IN :: nat where "H2_MAX_FRAME_IN \<equiv> 16384"
abbreviation H2_WINDOW_STEP :: nat where "H2_WINDOW_STEP \<equiv> 16384"
abbreviation QN_H2_HEADER_BLOCK_MAX :: nat where "QN_H2_HEADER_BLOCK_MAX \<equiv> 8192"
abbreviation QN_H2_MAX_STREAMS :: nat where "QN_H2_MAX_STREAMS \<equiv> 4"
abbreviation QN_H2_EVENT_STREAMS :: nat where "QN_H2_EVENT_STREAMS \<equiv> 4"
abbreviation QN_H2_TRACE_LINE_MAX :: nat where "QN_H2_TRACE_LINE_MAX \<equiv> 64"
abbreviation QN_H2_CONTROL_MAX :: nat where "QN_H2_CONTROL_MAX \<equiv> 128"
abbreviation QN_PROFILE_INSTANCE_VERSION :: nat where "QN_PROFILE_INSTANCE_VERSION \<equiv> 2"
abbreviation QN_HTTP_FACT_RESET :: u32 where "QN_HTTP_FACT_RESET \<equiv> 128"

datatype qn_h2_rc = QN_H2_OK | QN_H2_PROTOCOL | QN_H2_SPACE | QN_H2_UNSUPPORTED

datatype qn_h2_stream_state = QN_H2_STREAM_IDLE | QN_H2_STREAM_OPEN | QN_H2_STREAM_HEADERS | QN_H2_STREAM_CLOSED

section \<open>Bytes\<close>

definition be24 :: "bytes \<Rightarrow> nat" where "be24 p = unat (p ! 0) * 65536 + unat (p ! 1) * 256 + unat (p ! 2)"

definition be32 :: "bytes \<Rightarrow> nat" where
  "be32 p = unat (p ! 0) * 16777216 + unat (p ! 1) * 65536 + unat (p ! 2) * 256 + unat (p ! 3)"

definition put24 :: "nat \<Rightarrow> bytes" where
  "put24 v = [word_of_nat (v div 65536), word_of_nat (v div 256), word_of_nat v]"

definition put32 :: "nat \<Rightarrow> bytes" where
  "put32 v = [word_of_nat (v div 16777216), word_of_nat (v div 65536), word_of_nat (v div 256), word_of_nat v]"

text \<open>The frame, or \<open>None\<close> where the code returns 0.\<close>

definition frame :: "nat \<Rightarrow> nat \<Rightarrow> u8 \<Rightarrow> nat \<Rightarrow> bytes \<Rightarrow> bytes option" where
  "frame cap ty fl stream payload =
     (if length payload > 0xFFFFFF \<or> cap < 9 + length payload then None
      else Some (put24 (length payload) @ [word_of_nat ty, fl] @ put32 (stream mod 2 ^ 31) @ payload))"

section \<open>Writing\<close>

definition h2_magic :: string where "h2_magic = ''PRI * HTTP/2.0'' @ CRLF @ CRLF @ ''SM'' @ CRLF @ CRLF"

definition setting_bytes :: "qn_h2_setting \<Rightarrow> bytes" where
  "setting_bytes s = [word_of_nat (hs_id s div 256), word_of_nat (hs_id s)] @ put32 (hs_value s)"

definition preface_shaped :: "qn_h2_setting list \<Rightarrow> nat \<Rightarrow> nat \<Rightarrow> bytes option" where
  "preface_shaped ss window cap =
     (if cap < length h2_magic \<or> length ss > QN_PROFILE_MAX_H2_SETTINGS then None
      else (case frame (cap - length h2_magic) H2_SETTINGS 0 0 (concat (map setting_bytes ss)) of
              None \<Rightarrow> None
            | Some f \<Rightarrow>
                if window < 65535 \<or> window > 0x7FFFFFFF then None
                else if window > 65535
                then map_option (\<lambda>u. octets h2_magic @ f @ u)
                       (frame (cap - length h2_magic - length f) H2_WINDOW_UPDATE 0 0 (put32 (window - 65535)))
                else Some (octets h2_magic @ f)))"

definition qn_h2_preface_profile :: "qn_client_profile \<Rightarrow> u64 \<Rightarrow> nat \<Rightarrow> bytes option" where
  "qn_h2_preface_profile p seed cap =
     (case qn_profile_h2_shape p seed QN_PROFILE_MAX_H2_SETTINGS of
        None \<Rightarrow> None
      | Some (ss, window) \<Rightarrow> preface_shaped ss window cap)"

definition qn_h2_preface :: "nat \<Rightarrow> bytes option" where
  "qn_h2_preface cap = qn_h2_preface_profile (qn_client_profile_get QN_TLS_FP_CHROME) 0 cap"

definition qn_h2_preface_instance :: "qn_profile_instance \<Rightarrow> nat \<Rightarrow> bytes option" where
  "qn_h2_preface_instance inst cap =
     (if pi_version inst \<noteq> QN_PROFILE_INSTANCE_VERSION then None
      else preface_shaped (pi_h2_settings inst) (pi_h2_window inst) cap)"

fun emit_pseudo :: "string \<Rightarrow> string \<Rightarrow> nat \<Rightarrow> qn_pseudo_header \<Rightarrow> bytes option" where
  "emit_pseudo authority path cap QN_PSEUDO_METHOD = (if cap = 0 then None else Some [0x82])"
| "emit_pseudo authority path cap QN_PSEUDO_SCHEME = (if cap = 0 then None else Some [0x87])"
| "emit_pseudo authority path cap QN_PSEUDO_AUTHORITY = literal_indexed_name 1 authority cap"
| "emit_pseudo authority path cap QN_PSEUDO_PATH = literal_indexed_name 4 path cap"

text \<open>A profile without a client hint does not order the header; the code has no value to write there.\<close>

fun emit_regular :: "qn_http_header_profile \<Rightarrow> nat \<Rightarrow> qn_regular_header \<Rightarrow> bytes option" where
  "emit_regular p cap QN_HEADER_CONNECTION = Some []"
| "emit_regular p cap QN_HEADER_USER_AGENT = literal_indexed_name 58 (hp_user_agent p) cap"
| "emit_regular p cap QN_HEADER_ACCEPT = literal_indexed_name 19 (hp_accept p) cap"
| "emit_regular p cap QN_HEADER_ACCEPT_ENCODING = literal_indexed_name 16 (hp_accept_encoding p) cap"
| "emit_regular p cap QN_HEADER_ACCEPT_LANGUAGE = literal_indexed_name 17 (hp_accept_language p) cap"
| "emit_regular p cap QN_HEADER_UPGRADE_INSECURE = literal_new_name ''upgrade-insecure-requests'' ''1'' cap"
| "emit_regular p cap QN_HEADER_SEC_FETCH_DEST = literal_new_name ''sec-fetch-dest'' ''document'' cap"
| "emit_regular p cap QN_HEADER_SEC_FETCH_MODE = literal_new_name ''sec-fetch-mode'' ''navigate'' cap"
| "emit_regular p cap QN_HEADER_SEC_FETCH_SITE = literal_new_name ''sec-fetch-site'' (hp_sec_fetch_site p) cap"
| "emit_regular p cap QN_HEADER_SEC_FETCH_USER = literal_new_name ''sec-fetch-user'' ''?1'' cap"
| "emit_regular p cap QN_HEADER_SEC_CH_UA =
     (case hp_sec_ch_ua p of None \<Rightarrow> None | Some v \<Rightarrow> literal_new_name ''sec-ch-ua'' v cap)"
| "emit_regular p cap QN_HEADER_SEC_CH_UA_MOBILE = literal_new_name ''sec-ch-ua-mobile'' ''?1'' cap"
| "emit_regular p cap QN_HEADER_SEC_CH_UA_PLATFORM = literal_new_name ''sec-ch-ua-platform'' (CHR 0x22 # ''Android'' @ [CHR 0x22]) cap"
| "emit_regular p cap QN_HEADER_PRIORITY = literal_new_name ''priority'' ''u=0, i'' cap"
| "emit_regular p cap QN_HEADER_TE = literal_indexed_name 59 ''trailers'' cap"

text \<open>Each field goes behind what the block already holds.\<close>

definition block_put :: "(nat \<Rightarrow> 'f \<Rightarrow> bytes option) \<Rightarrow> 'f \<Rightarrow> bytes option \<Rightarrow> bytes option" where
  "block_put emit f block =
     (case block of None \<Rightarrow> None | Some b \<Rightarrow> map_option (\<lambda>n. b @ n) (emit (1024 - length b) f))"

definition get_shaped :: "qn_client_profile \<Rightarrow> qn_pseudo_header list \<Rightarrow> qn_regular_header list \<Rightarrow> nat \<Rightarrow> string \<Rightarrow> string \<Rightarrow> nat \<Rightarrow> bytes option" where
  "get_shaped p pseudo order stream authority path cap =
     (if stream = 0 \<or> even stream \<or> authority = [] \<or> path = [] \<or> hd path \<noteq> CHR ''/'' then None
      else (case fold (block_put (emit_regular (cp_http p))) order (fold (block_put (emit_pseudo authority path)) pseudo (Some [])) of
              None \<Rightarrow> None
            | Some block \<Rightarrow> frame cap H2_HEADERS (H2_END_HEADERS OR H2_END_STREAM) stream block))"

definition qn_h2_get_profile :: "qn_client_profile \<Rightarrow> u64 \<Rightarrow> nat \<Rightarrow> string \<Rightarrow> string \<Rightarrow> nat \<Rightarrow> bytes option" where
  "qn_h2_get_profile p seed stream authority path cap =
     (case qn_profile_http_shape p seed of
        None \<Rightarrow> None
      | Some (pseudo, order) \<Rightarrow> get_shaped p pseudo order stream authority path cap)"

definition qn_h2_get :: "nat \<Rightarrow> string \<Rightarrow> string \<Rightarrow> nat \<Rightarrow> bytes option" where
  "qn_h2_get stream authority path cap = qn_h2_get_profile (qn_client_profile_get QN_TLS_FP_CHROME) 0 stream authority path cap"

definition qn_h2_get_instance :: "qn_profile_instance \<Rightarrow> nat \<Rightarrow> string \<Rightarrow> string \<Rightarrow> nat \<Rightarrow> bytes option" where
  "qn_h2_get_instance inst stream authority path cap =
     (if pi_version inst \<noteq> QN_PROFILE_INSTANCE_VERSION then None
      else get_shaped (pi_profile inst) (pi_pseudo_order inst) (pi_header_order inst) stream authority path cap)"

end
