(* ===== verification/Http2_Feed.thy ===== *)
theory Http2_Feed
  imports Http2
begin

text \<open>
  The reader of \<^verbatim>\<open>src/net/http2.c\<close>: \<^verbatim>\<open>qn_h2_feed\<close> and everything below it, one definition per C
  function.  An entry of the event is the pair of a stream and its facts.  Reading an address of a
  trace line is the parameter \<open>parse\<close>, as for the other readers of trace bodies.
\<close>

section \<open>State\<close>

record h2_trace =
  tr_id :: nat
  tr_line :: bytes
  tr_overflow :: bool

record h2_flow =
  fl_id :: nat
  fl_consumed :: nat

record h2_stream =
  sm_id :: nat
  sm_state :: qn_h2_stream_state
  sm_head_done :: bool

record qn_h2 =
  h2_hdr :: bytes
  h2_type :: nat
  h2_flags :: u8
  h2_frame_len :: nat
  h2_frame_got :: nat
  h2_stream_id :: nat
  h2_pad_len :: nat
  h2_data_start :: nat
  h2_data_end :: nat
  h2_control :: bytes
  h2_scratch :: bytes
  h2_setting :: bytes
  h2_hblock :: bytes
  h2_hblock_stream :: nat
  h2_hblock_open :: bool
  h2_hblock_end :: bool
  h2_trace :: "h2_trace list"
  h2_conn_consumed :: nat
  h2_flow :: "h2_flow list"
  h2_stream :: "h2_stream list"

record qn_h2_event =
  e2_goaway :: bool
  e2_stream :: "(nat \<times> qn_http_event) list"

definition h2_event_zero :: qn_h2_event where "h2_event_zero = \<lparr>e2_goaway = False, e2_stream = []\<rparr>"

definition qn_h2_init :: qn_h2 where
  "qn_h2_init = \<lparr>h2_hdr = [], h2_type = 0, h2_flags = 0, h2_frame_len = 0, h2_frame_got = 0, h2_stream_id = 0, h2_pad_len = 0,
     h2_data_start = 0, h2_data_end = 0, h2_control = [], h2_scratch = replicate 64 0, h2_setting = [], h2_hblock = [],
     h2_hblock_stream = 0, h2_hblock_open = False, h2_hblock_end = False,
     h2_trace = replicate QN_H2_EVENT_STREAMS \<lparr>tr_id = 0, tr_line = [], tr_overflow = False\<rparr>, h2_conn_consumed = 0,
     h2_flow = replicate QN_H2_EVENT_STREAMS \<lparr>fl_id = 0, fl_consumed = 0\<rparr>, h2_stream = []\<rparr>"

section \<open>Streams\<close>

text \<open>The place of the first element that satisfies the test.\<close>

fun place :: "('a \<Rightarrow> bool) \<Rightarrow> 'a list \<Rightarrow> nat option" where
  "place P [] = None"
| "place P (x # xs) = (if P x then Some 0 else map_option Suc (place P xs))"

definition stream_index :: "qn_h2 \<Rightarrow> nat \<Rightarrow> nat option" where
  "stream_index h sid = place (\<lambda>s. sm_id s = sid) (h2_stream h)"

definition qn_h2_open_stream :: "qn_h2 \<Rightarrow> nat \<Rightarrow> bool \<times> qn_h2" where
  "qn_h2_open_stream h sid =
     (if sid = 0 \<or> even sid \<or> length (h2_stream h) \<ge> QN_H2_MAX_STREAMS then (False, h)
      else if stream_index h sid \<noteq> None then (False, h)
      else (True, h\<lparr>h2_stream := h2_stream h @ [\<lparr>sm_id = sid, sm_state = QN_H2_STREAM_OPEN, sm_head_done = False\<rparr>]\<rparr>))"

definition qn_h2_stream_has_head :: "qn_h2 \<Rightarrow> nat \<Rightarrow> bool" where
  "qn_h2_stream_has_head h sid = (case stream_index h sid of None \<Rightarrow> False | Some i \<Rightarrow> sm_head_done (h2_stream h ! i))"

definition set_stream :: "nat \<Rightarrow> (h2_stream \<Rightarrow> h2_stream) \<Rightarrow> qn_h2 \<Rightarrow> qn_h2" where
  "set_stream i f h = h\<lparr>h2_stream := (h2_stream h)[i := f (h2_stream h ! i)]\<rparr>"

text \<open>The entry of a stream in the event, new if need be; \<open>None\<close> when the event is full.\<close>

definition stream_event :: "qn_h2 \<Rightarrow> qn_h2_event \<Rightarrow> nat \<Rightarrow> nat option \<times> qn_h2_event" where
  "stream_event h ev sid =
     (case place (\<lambda>e. fst e = sid) (e2_stream ev) of
        Some i \<Rightarrow> (Some i, ev)
      | None \<Rightarrow>
          if length (e2_stream ev) \<ge> QN_H2_EVENT_STREAMS then (None, ev)
          else (let se = (case stream_index h sid of None \<Rightarrow> event_zero | Some si \<Rightarrow> event_zero\<lparr>he_response_index := si + 1\<rparr>)
                in (Some (length (e2_stream ev)), ev\<lparr>e2_stream := e2_stream ev @ [(sid, se)]\<rparr>)))"

definition set_event :: "nat \<Rightarrow> (qn_http_event \<Rightarrow> qn_http_event) \<Rightarrow> qn_h2_event \<Rightarrow> qn_h2_event" where
  "set_event i f ev = ev\<lparr>e2_stream := (e2_stream ev)[i := map_prod id f (e2_stream ev ! i)]\<rparr>"

definition trace_slot :: "qn_h2 \<Rightarrow> nat \<Rightarrow> nat option \<times> qn_h2" where
  "trace_slot h sid =
     (case place (\<lambda>t. tr_id t = sid \<or> tr_id t = 0) (h2_trace h) of
        None \<Rightarrow> (None, h)
      | Some i \<Rightarrow> (Some i, h\<lparr>h2_trace := (h2_trace h)[i := (h2_trace h ! i)\<lparr>tr_id := sid\<rparr>]\<rparr>))"

definition flow_slot :: "qn_h2 \<Rightarrow> nat \<Rightarrow> nat option \<times> qn_h2" where
  "flow_slot h sid =
     (case place (\<lambda>t. fl_id t = sid \<or> fl_id t = 0) (h2_flow h) of
        None \<Rightarrow> (None, h)
      | Some i \<Rightarrow> (Some i, h\<lparr>h2_flow := (h2_flow h)[i := (h2_flow h ! i)\<lparr>fl_id := sid\<rparr>]\<rparr>))"

section \<open>Trace lines\<close>

definition take_trace_line :: "(string \<Rightarrow> qn_addr option) \<Rightarrow> bytes \<Rightarrow> qn_http_event \<Rightarrow> qn_http_event" where
  "take_trace_line parse line ev =
     (if length line > QN_H2_TRACE_LINE_MAX then ev
      else (let (ok, tb) = qn_http_trace_parse parse (map (\<lambda>b. char_of (unat b)) line @ [LF]) in
            if \<not> ok \<or> \<not> tb_have_colo tb then ev
            else mark_fact QN_HTTP_FACT_TRACE_COLO (ev\<lparr>he_colo := tb_colo tb\<rparr>)))"

definition trace_byte :: "(string \<Rightarrow> qn_addr option) \<Rightarrow> u8 \<Rightarrow> h2_trace \<times> qn_http_event \<Rightarrow> h2_trace \<times> qn_http_event" where
  "trace_byte parse b te =
     (let (t, ev) = te in
      if b = 0x0A
      then (t\<lparr>tr_line := [], tr_overflow := False\<rparr>, if tr_overflow t then ev else take_trace_line parse (tr_line t) ev)
      else if length (tr_line t) < QN_H2_TRACE_LINE_MAX then (t\<lparr>tr_line := tr_line t @ [b]\<rparr>, ev)
      else (t\<lparr>tr_overflow := True\<rparr>, ev))"

definition h2_scan_trace :: "(string \<Rightarrow> qn_addr option) \<Rightarrow> qn_h2 \<Rightarrow> nat \<Rightarrow> bytes \<Rightarrow> qn_http_event \<Rightarrow> qn_h2 \<times> qn_http_event" where
  "h2_scan_trace parse h sid p ev =
     (case trace_slot h sid of
        (None, h) \<Rightarrow> (h, ev)
      | (Some i, h) \<Rightarrow> (let (t, ev) = fold (trace_byte parse) p (h2_trace h ! i, ev)
                        in (h\<lparr>h2_trace := (h2_trace h)[i := t]\<rparr>, ev)))"

section \<open>Control frames\<close>

definition emit_ack :: "qn_h2 \<Rightarrow> nat \<Rightarrow> bytes \<Rightarrow> qn_h2 option" where
  "emit_ack h ty payload =
     map_option (\<lambda>f. h\<lparr>h2_control := h2_control h @ f\<rparr>) (frame (QN_H2_CONTROL_MAX - length (h2_control h)) ty H2_ACK 0 payload)"

definition credit_worth_publishing :: "qn_h2 \<Rightarrow> bool \<Rightarrow> bool" where
  "credit_worth_publishing h force =
     (if force then h2_conn_consumed h \<noteq> 0 \<or> list_ex (\<lambda>f. fl_consumed f \<noteq> 0) (h2_flow h)
      else h2_conn_consumed h \<ge> H2_WINDOW_STEP \<or> list_ex (\<lambda>f. fl_consumed f \<ge> H2_WINDOW_STEP) (h2_flow h))"

text \<open>A credit and the stream it belongs to behind the pending updates; nothing to publish is skipped.\<close>

definition credit_frame :: "nat \<times> nat \<Rightarrow> bytes option \<Rightarrow> bytes option" where
  "credit_frame c pending =
     (case pending of
        None \<Rightarrow> None
      | Some p \<Rightarrow>
          if snd c = 0 then Some p
          else if snd c > 0x7FFFFFFF then None
          else map_option (\<lambda>f. p @ f) (frame (13 * (1 + QN_H2_EVENT_STREAMS) - length p) H2_WINDOW_UPDATE 0 (fst c) (put32 (snd c))))"

definition replenish_windows :: "qn_h2 \<Rightarrow> nat \<Rightarrow> bool \<Rightarrow> qn_h2_rc \<times> qn_h2" where
  "replenish_windows h external_cap force =
     (if \<not> credit_worth_publishing h force then (QN_H2_OK, h)
      else (case fold credit_frame ((0, h2_conn_consumed h) # map (\<lambda>f. (fl_id f, fl_consumed f)) (h2_flow h)) (Some []) of
              None \<Rightarrow> (QN_H2_SPACE, h)
            | Some pending \<Rightarrow>
                if length pending > QN_H2_CONTROL_MAX - length (h2_control h) \<or> length (h2_control h) > external_cap \<or>
                   length pending > external_cap - length (h2_control h)
                then (QN_H2_SPACE, h)
                else (QN_H2_OK, h\<lparr>h2_control := h2_control h @ pending, h2_conn_consumed := 0,
                        h2_flow := map (\<lambda>f. f\<lparr>fl_consumed := 0\<rparr>) (h2_flow h)\<rparr>)))"

section \<open>Frames\<close>

text \<open>The parts of the head, and what the reader expects of the payload.\<close>

definition frame_head :: "qn_h2 \<Rightarrow> qn_h2" where
  "frame_head h =
     (let ty = unat (h2_hdr h ! 3); fl = h2_hdr h ! 4;
          start = (if (ty = H2_DATA \<or> ty = H2_HEADERS \<or> ty = H2_PUSH_PROMISE) \<and> fl AND H2_PADDED \<noteq> 0 then 1 else 0);
          start = (if ty = H2_HEADERS \<and> fl AND H2_PRIORITY \<noteq> 0 then start + 5 else start);
          start = (if ty = H2_PUSH_PROMISE then start + 4 else start)
      in h\<lparr>h2_frame_len := be24 (h2_hdr h), h2_type := ty, h2_flags := fl, h2_stream_id := be32 (drop 5 (h2_hdr h)) mod 2 ^ 31,
           h2_frame_got := 0, h2_pad_len := 0, h2_data_start := start, h2_data_end := be24 (h2_hdr h),
           h2_setting := (if ty = H2_SETTINGS then [] else h2_setting h)\<rparr>)"

text \<open>Whether the stream of the frame may receive it.\<close>

definition stream_refuses :: "qn_h2 \<Rightarrow> bool" where
  "stream_refuses h \<longleftrightarrow>
     (case stream_index h (h2_stream_id h) of
        None \<Rightarrow> True
      | Some i \<Rightarrow> sm_state (h2_stream h ! i) = QN_H2_STREAM_IDLE \<or> sm_state (h2_stream h ! i) = QN_H2_STREAM_CLOSED \<or>
          h2_type h = H2_DATA \<and> \<not> sm_head_done (h2_stream h ! i))"

definition begin_frame :: "qn_h2 \<Rightarrow> qn_h2_rc \<times> qn_h2" where
  "begin_frame h0 =
     (let h = frame_head h0 in
      if h2_frame_len h > H2_MAX_FRAME_IN \<or> h2_data_start h > h2_frame_len h then (QN_H2_PROTOCOL, h)
      else if h2_type h = H2_DATA \<and> h2_stream_id h = 0 then (QN_H2_PROTOCOL, h)
      else if h2_hblock_open h \<and> h2_type h \<noteq> H2_CONTINUATION then (QN_H2_PROTOCOL, h)
      else if h2_type h = H2_CONTINUATION \<and> (\<not> h2_hblock_open h \<or> h2_stream_id h \<noteq> h2_hblock_stream h) then (QN_H2_PROTOCOL, h)
      else if h2_stream_id h \<noteq> 0 \<and> h2_type h \<in> {H2_DATA, H2_HEADERS, H2_CONTINUATION, H2_RST_STREAM, H2_PUSH_PROMISE} \<and> stream_refuses h
      then (QN_H2_PROTOCOL, h)
      else (QN_H2_OK, h))"

definition check_setting :: "bytes \<Rightarrow> qn_h2_rc" where
  "check_setting s =
     (let i = unat (s ! 0) * 256 + unat (s ! 1); v = be32 (drop 2 s) in
      if i = H2_ENABLE_PUSH then (if v > 1 then QN_H2_PROTOCOL else QN_H2_OK)
      else if i = H2_INITIAL_WINDOW then (if v > 0x7FFFFFFF then QN_H2_PROTOCOL else QN_H2_OK)
      else if i = H2_MAX_FRAME_SIZE then (if v < 16384 \<or> v > 16777215 then QN_H2_PROTOCOL else QN_H2_OK)
      else QN_H2_OK)"

fun take_settings :: "bytes \<Rightarrow> bytes \<Rightarrow> qn_h2_rc \<times> bytes" where
  "take_settings [] s = (QN_H2_OK, s)"
| "take_settings (b # p) s =
     (let s = s @ [b] in
      if length s = 6 then (case check_setting s of QN_H2_OK \<Rightarrow> take_settings p [] | rc \<Rightarrow> (rc, []))
      else take_settings p s)"

text \<open>Subtraction of \<^verbatim>\<open>uint32_t\<close>.\<close>

definition sub32 :: "nat \<Rightarrow> nat \<Rightarrow> nat" where "sub32 a b = (a + 2 ^ 32 - b) mod 2 ^ 32"

definition take_padding :: "qn_h2 \<Rightarrow> bytes \<Rightarrow> bool \<times> qn_h2" where
  "take_padding h p =
     (if h2_data_start h \<noteq> 0 \<and> h2_flags h AND H2_PADDED \<noteq> 0 \<and> h2_frame_got h = 0 \<and> p \<noteq> []
      then (let h = h\<lparr>h2_pad_len := unat (hd p)\<rparr> in
            if h2_pad_len h > sub32 (h2_frame_len h) (h2_data_start h) then (False, h)
            else (True, h\<lparr>h2_data_end := sub32 (h2_frame_len h) (h2_pad_len h)\<rparr>))
      else (True, h))"

text \<open>The bytes of the payload between the padding fields.\<close>

definition data_part :: "qn_h2 \<Rightarrow> bytes \<Rightarrow> bytes" where
  "data_part h p =
     (let first = h2_frame_got h; lo = max first (h2_data_start h); hi = min (first + length p) (h2_data_end h)
      in if hi > lo then take (hi - lo) (drop (lo - first) p) else [])"

definition consume_data :: "(string \<Rightarrow> qn_addr option) \<Rightarrow> qn_h2 \<Rightarrow> bytes \<Rightarrow> qn_h2_event \<Rightarrow> qn_h2_rc \<times> qn_h2 \<times> qn_h2_event" where
  "consume_data parse h p ev =
     (case flow_slot h (h2_stream_id h) of
        (None, h) \<Rightarrow> (QN_H2_SPACE, h, ev)
      | (Some i, h) \<Rightarrow>
          if length p > UINT32_MAX - h2_conn_consumed h \<or> length p > UINT32_MAX - fl_consumed (h2_flow h ! i) then (QN_H2_SPACE, h, ev)
          else (let h = h\<lparr>h2_conn_consumed := h2_conn_consumed h + length p,
                          h2_flow := (h2_flow h)[i := (h2_flow h ! i)\<lparr>fl_consumed := fl_consumed (h2_flow h ! i) + length p\<rparr>]\<rparr>;
                    d = data_part h p
                in if d = [] then (QN_H2_OK, h, ev)
                   else (case stream_event h ev (h2_stream_id h) of
                           (None, ev) \<Rightarrow> (QN_H2_SPACE, h, ev)
                         | (Some k, ev) \<Rightarrow>
                             (let se = mark_fact QN_HTTP_FACT_BODY (snd (e2_stream ev ! k));
                                  se = se\<lparr>he_body_bytes := he_body_bytes se + length d\<rparr>;
                                  (h, se) = h2_scan_trace parse h (h2_stream_id h) d se
                              in (QN_H2_OK, h, set_event k (\<lambda>_. se) ev)))))"

definition consume_body :: "(string \<Rightarrow> qn_addr option) \<Rightarrow> qn_h2 \<Rightarrow> bytes \<Rightarrow> qn_h2_event \<Rightarrow> qn_h2_rc \<times> qn_h2 \<times> qn_h2_event" where
  "consume_body parse h p ev =
     (if h2_type h = H2_DATA then consume_data parse h p ev
      else if h2_type h = H2_HEADERS \<or> h2_type h = H2_CONTINUATION
      then (let d = data_part h p in
            if length d > QN_H2_HEADER_BLOCK_MAX - length (h2_hblock h) then (QN_H2_SPACE, h, ev)
            else (QN_H2_OK, h\<lparr>h2_hblock := h2_hblock h @ d\<rparr>, ev))
      else if h2_type h = H2_SETTINGS
      then (case take_settings p (h2_setting h) of (rc, s) \<Rightarrow> (rc, h\<lparr>h2_setting := s\<rparr>, ev))
      else if h2_frame_got h < 64
      then (QN_H2_OK, h\<lparr>h2_scratch := store_at (h2_frame_got h) (take (64 - h2_frame_got h) p) (h2_scratch h)\<rparr>, ev)
      else (QN_H2_OK, h, ev))"

definition consume_payload :: "(string \<Rightarrow> qn_addr option) \<Rightarrow> qn_h2 \<Rightarrow> bytes \<Rightarrow> qn_h2_event \<Rightarrow> qn_h2_rc \<times> qn_h2 \<times> qn_h2_event" where
  "consume_payload parse h p ev =
     (if length p > UINT32_MAX - h2_frame_got h then (QN_H2_PROTOCOL, h, ev)
      else (let last = h2_frame_got h + length p in
            case take_padding h p of
              (False, h) \<Rightarrow> (QN_H2_PROTOCOL, h, ev)
            | (True, h) \<Rightarrow>
                (case consume_body parse h p ev of
                   (QN_H2_OK, h, ev) \<Rightarrow> (QN_H2_OK, h\<lparr>h2_frame_got := last\<rparr>, ev)
                 | r \<Rightarrow> r)))"

section \<open>Finished frames\<close>

text \<open>
  What a refused block has written into the event of the call is left out: the caller drops the event
  of a call that fails.
\<close>

definition complete_hblock :: "qn_h2 \<Rightarrow> qn_h2_event \<Rightarrow> qn_h2_rc \<times> qn_h2 \<times> qn_h2_event" where
  "complete_hblock h ev0 =
     (case stream_event h ev0 (h2_stream_id h) of
        (None, ev) \<Rightarrow> (QN_H2_SPACE, h, ev)
      | (Some k, ev) \<Rightarrow>
          (case stream_index h (h2_stream_id h) of
             None \<Rightarrow> (QN_H2_PROTOCOL, h, ev)
           | Some si \<Rightarrow>
               (let trail = sm_head_done (h2_stream h ! si) in
                case parse_hpack (h2_hblock h) (snd (e2_stream ev ! k)) trail of
                  None \<Rightarrow> (QN_H2_PROTOCOL, h, ev)
                | Some (se, scan) \<Rightarrow>
                    (let h = h\<lparr>h2_hblock := []\<rparr>; ev = set_event k (\<lambda>_. se) ev in
                     if \<not> trail \<and> hb_status_count scan \<noteq> 1 then (QN_H2_PROTOCOL, h, ev)
                     else if \<not> trail \<and> he_status se < 200
                     then (if he_status se = 101 \<or> h2_hblock_end h then (QN_H2_PROTOCOL, h, ev)
                           else (QN_H2_OK, h\<lparr>h2_hblock_end := False\<rparr>, set_event k (mark_fact QN_HTTP_FACT_INFORMATIONAL) ev))
                     else (let h = (if trail then h else set_stream si (\<lambda>s. s\<lparr>sm_head_done := True, sm_state := QN_H2_STREAM_HEADERS\<rparr>) h);
                               ev = set_event k (mark_fact (if trail then QN_HTTP_FACT_TRAILERS else QN_HTTP_FACT_HEADERS)) ev;
                               ev = (if h2_hblock_end h then set_event k (mark_fact QN_HTTP_FACT_DONE) ev else ev);
                               h = (if h2_hblock_end h then set_stream si (\<lambda>s. s\<lparr>sm_state := QN_H2_STREAM_CLOSED\<rparr>) h else h)
                           in (QN_H2_OK, h\<lparr>h2_hblock_end := False\<rparr>, ev))))))"

text \<open>The stream of the frame ends with the given fact.\<close>

definition end_stream :: "u32 \<Rightarrow> qn_h2 \<Rightarrow> qn_h2_event \<Rightarrow> qn_h2_rc \<times> qn_h2 \<times> qn_h2_event" where
  "end_stream f h ev =
     (case stream_event h ev (h2_stream_id h) of
        (None, ev) \<Rightarrow> (QN_H2_SPACE, h, ev)
      | (Some k, ev) \<Rightarrow>
          (QN_H2_OK,
           (case stream_index h (h2_stream_id h) of None \<Rightarrow> h | Some si \<Rightarrow> set_stream si (\<lambda>s. s\<lparr>sm_state := QN_H2_STREAM_CLOSED\<rparr>) h),
           set_event k (mark_fact f) ev))"

definition finish_frame :: "qn_h2 \<Rightarrow> qn_h2_event \<Rightarrow> qn_h2_rc \<times> qn_h2 \<times> qn_h2_event" where
  "finish_frame h ev =
     (let ty = h2_type h; fl = h2_flags h; ack = fl AND H2_ACK \<noteq> 0 in
      if ty = H2_DATA then (if fl AND H2_END_STREAM \<noteq> 0 then end_stream QN_HTTP_FACT_DONE h ev else (QN_H2_OK, h, ev))
      else if ty = H2_HEADERS
      then (if h2_stream_id h = 0 then (QN_H2_PROTOCOL, h, ev)
            else (let h = h\<lparr>h2_hblock_open := (fl AND H2_END_HEADERS = 0), h2_hblock_stream := h2_stream_id h,
                            h2_hblock_end := (fl AND H2_END_STREAM \<noteq> 0)\<rparr>
                  in if h2_hblock_open h then (QN_H2_OK, h, ev) else complete_hblock h ev))
      else if ty = H2_CONTINUATION
      then (if fl AND H2_END_HEADERS \<noteq> 0 then complete_hblock (h\<lparr>h2_hblock_open := False\<rparr>) ev else (QN_H2_OK, h, ev))
      else if ty = H2_SETTINGS
      then (if h2_stream_id h \<noteq> 0 \<or> ack \<and> h2_frame_len h \<noteq> 0 \<or> \<not> ack \<and> h2_frame_len h mod 6 \<noteq> 0 then (QN_H2_PROTOCOL, h, ev)
            else if \<not> ack \<and> h2_setting h \<noteq> [] then (QN_H2_PROTOCOL, h, ev)
            else if ack then (QN_H2_OK, h, ev)
            else (case emit_ack h H2_SETTINGS [] of None \<Rightarrow> (QN_H2_SPACE, h, ev) | Some h \<Rightarrow> (QN_H2_OK, h, ev)))
      else if ty = H2_PING
      then (if h2_stream_id h \<noteq> 0 \<or> h2_frame_len h \<noteq> 8 then (QN_H2_PROTOCOL, h, ev)
            else if ack then (QN_H2_OK, h, ev)
            else (case emit_ack h H2_PING (take 8 (h2_scratch h)) of None \<Rightarrow> (QN_H2_SPACE, h, ev) | Some h \<Rightarrow> (QN_H2_OK, h, ev)))
      else if ty = H2_RST_STREAM
      then (if h2_stream_id h = 0 \<or> h2_frame_len h \<noteq> 4 then (QN_H2_PROTOCOL, h, ev) else end_stream QN_HTTP_FACT_RESET h ev)
      else if ty = H2_GOAWAY
      then (if h2_stream_id h \<noteq> 0 \<or> h2_frame_len h < 8 then (QN_H2_PROTOCOL, h, ev) else (QN_H2_OK, h, ev\<lparr>e2_goaway := True\<rparr>))
      else if ty = H2_WINDOW_UPDATE
      then (if h2_frame_len h \<noteq> 4 \<or> be32 (h2_scratch h) mod 2 ^ 31 = 0 then (QN_H2_PROTOCOL, h, ev) else (QN_H2_OK, h, ev))
      else if ty = H2_PUSH_PROMISE then (QN_H2_PROTOCOL, h, ev)
      else (QN_H2_OK, h, ev))"

section \<open>Feeding\<close>

text \<open>A finished frame makes room for the next head, whatever came of it.\<close>

definition close_frame :: "qn_h2 \<Rightarrow> qn_h2_event \<Rightarrow> qn_h2_rc \<times> qn_h2 \<times> qn_h2_event" where
  "close_frame h ev = (case finish_frame h ev of (rc, h, ev) \<Rightarrow> (rc, h\<lparr>h2_hdr := []\<rparr>, ev))"

text \<open>
  A frame is complete when all of it was read; what was read never exceeds the length of the frame
  (lemma \<open>h2_step_ok\<close> of \<^verbatim>\<open>Http2_Sound\<close>), so the comparison is the code's test for equality.
\<close>

definition feed_payload :: "(string \<Rightarrow> qn_addr option) \<Rightarrow> qn_h2 \<Rightarrow> bytes \<Rightarrow> qn_h2_event \<Rightarrow> (qn_h2_rc \<times> qn_h2 \<times> qn_h2_event) \<times> bytes" where
  "feed_payload parse h inp ev =
     (let n = min (h2_frame_len h - h2_frame_got h) (length inp) in
      case consume_payload parse h (take n inp) ev of
        (QN_H2_OK, h, ev) \<Rightarrow> (if h2_frame_len h \<le> h2_frame_got h then close_frame h ev else (QN_H2_OK, h, ev), drop n inp)
      | r \<Rightarrow> (r, drop n inp))"

text \<open>One round of the loop, with the input that is left.\<close>

definition h2_step :: "(string \<Rightarrow> qn_addr option) \<Rightarrow> qn_h2 \<Rightarrow> bytes \<Rightarrow> qn_h2_event \<Rightarrow> (qn_h2_rc \<times> qn_h2 \<times> qn_h2_event) \<times> bytes" where
  "h2_step parse h inp ev =
     (if length (h2_hdr h) < 9
      then (let n = min (9 - length (h2_hdr h)) (length inp); h = h\<lparr>h2_hdr := h2_hdr h @ take n inp\<rparr>; inp = drop n inp in
            if length (h2_hdr h) < 9 then ((QN_H2_OK, h, ev), inp)
            else (case begin_frame h of
                    (QN_H2_OK, h) \<Rightarrow> if h2_frame_len h = 0 then (close_frame h ev, inp) else feed_payload parse h inp ev
                  | (rc, h) \<Rightarrow> ((rc, h, ev), inp)))
      else feed_payload parse h inp ev)"

lemma consume_body_frame:
  "consume_body parse h p ev = (rc, h', ev') \<Longrightarrow> h2_frame_len h' = h2_frame_len h \<and> h2_frame_got h' = h2_frame_got h \<and> h2_hdr h' = h2_hdr h"
  by (auto simp: consume_body_def consume_data_def flow_slot_def h2_scan_trace_def trace_slot_def Let_def
      split: if_splits option.splits prod.splits)

lemma take_padding_frame:
  "take_padding h p = (b, h') \<Longrightarrow> h2_frame_len h' = h2_frame_len h \<and> h2_frame_got h' = h2_frame_got h \<and> h2_hdr h' = h2_hdr h"
  by (auto simp: take_padding_def Let_def split: if_splits)

lemma consume_frame:
  assumes "consume_payload parse h p ev = (QN_H2_OK, h', ev')"
  shows "h2_frame_len h' = h2_frame_len h" "h2_frame_got h' = h2_frame_got h + length p" "h2_hdr h' = h2_hdr h"
  using assms
  by (auto simp: consume_payload_def Let_def split: if_splits prod.splits bool.splits qn_h2_rc.splits
      dest!: consume_body_frame take_padding_frame)

text \<open>Every round reads input or closes a frame.\<close>

definition h2_measure :: "qn_h2 \<Rightarrow> bytes \<Rightarrow> nat" where
  "h2_measure h inp = 2 * length inp + (if length (h2_hdr h) < 9 then 0 else 1)"

lemma close_frame_hdr: "close_frame h ev = (rc, h', ev') \<Longrightarrow> h2_hdr h' = []"
  by (auto simp: close_frame_def split: prod.splits)

lemma payload_progress:
  assumes "feed_payload parse h inp ev = ((QN_H2_OK, h', ev'), r)" "9 \<le> length (h2_hdr h)"
  shows "(inp \<noteq> [] \<longrightarrow> h2_measure h' r < h2_measure h inp) \<and> length r \<le> length inp"
proof -
  let ?n = "min (h2_frame_len h - h2_frame_got h) (length inp)"
  obtain h1 ev1 where c: "consume_payload parse h (take ?n inp) ev = (QN_H2_OK, h1, ev1)" and r: "r = drop ?n inp"
      "(if h2_frame_len h1 \<le> h2_frame_got h1 then close_frame h1 ev1 else (QN_H2_OK, h1, ev1)) = (QN_H2_OK, h', ev')"
    using assms(1) by (auto simp: feed_payload_def Let_def split: prod.splits qn_h2_rc.splits)
  note f = consume_frame [OF c]
  show ?thesis
  proof (cases "h2_frame_len h1 \<le> h2_frame_got h1")
    case True
    then have "h2_hdr h' = []" using r(2) by (auto dest: close_frame_hdr)
    then show ?thesis using r(1) assms(2) by (auto simp: h2_measure_def)
  next
    case False
    then have "h' = h1" using r(2) by (simp only: if_False prod.inject)
    moreover have "h2_frame_got h < h2_frame_len h" using f(1,2) False by linarith
    ultimately show ?thesis using r(1) f assms(2) by (auto simp: h2_measure_def)
  qed
qed

lemma begin_frame_head: "begin_frame h = (rc, h') \<Longrightarrow> h' = frame_head h"
  unfolding begin_frame_def Let_def by (simp split: if_splits)

lemma begin_frame_hdr: "begin_frame h = (rc, h') \<Longrightarrow> h2_hdr h' = h2_hdr h"
  by (drule begin_frame_head) (simp add: frame_head_def Let_def)

lemma step_progress:
  assumes "h2_step parse h inp ev = ((QN_H2_OK, h', ev'), r)" "inp \<noteq> []"
  shows "h2_measure h' r < h2_measure h inp"
proof (cases "length (h2_hdr h) < 9")
  case False
  then show ?thesis using payload_progress [of parse h inp ev h' ev' r] assms by (simp add: h2_step_def)
next
  case True
  define n where "n = min (9 - length (h2_hdr h)) (length inp)"
  have n: "0 < n" "n \<le> length inp" using True assms(2) by (auto simp: n_def)
  define h1 where "h1 = h\<lparr>h2_hdr := h2_hdr h @ take n inp\<rparr>"
  have st: "h2_step parse h inp ev = (if length (h2_hdr h1) < 9 then ((QN_H2_OK, h1, ev), drop n inp)
      else (case begin_frame h1 of
              (QN_H2_OK, h2) \<Rightarrow> if h2_frame_len h2 = 0 then (close_frame h2 ev, drop n inp) else feed_payload parse h2 (drop n inp) ev
            | (rc, h2) \<Rightarrow> ((rc, h2, ev), drop n inp)))"
    using True by (simp only: h2_step_def Let_def n_def [symmetric] h1_def [symmetric] if_True)
  have m: "h2_measure h inp = 2 * length inp" using True by (simp add: h2_measure_def)
  show ?thesis
  proof (cases "length (h2_hdr h1) < 9")
    case True
    then show ?thesis using assms(1) n st m by (auto simp: h2_measure_def)
  next
    case False
    then obtain h2 where b: "begin_frame h1 = (QN_H2_OK, h2)" using assms(1) st by (auto split: prod.splits qn_h2_rc.splits if_splits)
    have l: "9 \<le> length (h2_hdr h2)" using begin_frame_hdr [OF b] False by simp
    have st2: "h2_step parse h inp ev = (if h2_frame_len h2 = 0 then (close_frame h2 ev, drop n inp) else feed_payload parse h2 (drop n inp) ev)"
      using st False b by simp
    show ?thesis
    proof (cases "h2_frame_len h2 = 0")
      case True
      then have "h2_hdr h' = []" "r = drop n inp" using assms(1) st2 by (auto dest: close_frame_hdr)
      then show ?thesis using n m by (simp add: h2_measure_def)
    next
      case False
      then have "length r \<le> length (drop n inp)" using payload_progress [of parse h2 "drop n inp" ev h' ev' r] assms(1) st2 l by simp
      then show ?thesis using n m by (auto simp: h2_measure_def)
    qed
  qed
qed

function h2_loop :: "(string \<Rightarrow> qn_addr option) \<Rightarrow> qn_h2 \<Rightarrow> bytes \<Rightarrow> qn_h2_event \<Rightarrow> qn_h2_rc \<times> qn_h2 \<times> qn_h2_event" where
  "h2_loop parse h inp ev =
     (if inp = [] then (QN_H2_OK, h, ev)
      else (case h2_step parse h inp ev of
              ((QN_H2_OK, h', ev'), r) \<Rightarrow> h2_loop parse h' r ev'
            | (res, r) \<Rightarrow> res))"
  by pat_completeness auto
termination by (relation "measure (\<lambda>(_, h, inp, _). h2_measure h inp)") (auto dest: step_progress [OF sym])

declare h2_loop.simps [simp del]

text \<open>
  The call: its result, the state, the event and the bytes written for the peer.  Control frames left
  from a call without room come first; an empty feed, an ended stream and GOAWAY publish all credit.
\<close>

definition qn_h2_feed :: "(string \<Rightarrow> qn_addr option) \<Rightarrow> qn_h2 \<Rightarrow> bytes \<Rightarrow> nat \<Rightarrow> qn_h2_rc \<times> qn_h2 \<times> qn_h2_event \<times> bytes" where
  "qn_h2_feed parse h inp control_cap =
     (if length (h2_control h) > control_cap then (QN_H2_SPACE, h, h2_event_zero, [])
      else (let out = h2_control h; h = h\<lparr>h2_control := []\<rparr> in
            case h2_loop parse h inp h2_event_zero of
              (QN_H2_OK, h, ev) \<Rightarrow>
                (let drain = (inp = [] \<or> list_ex (\<lambda>(_, se). he_flags se AND (QN_HTTP_FACT_DONE OR QN_HTTP_FACT_RESET) \<noteq> 0) (e2_stream ev)) in
                 case replenish_windows h (control_cap - length out) (drain \<or> e2_goaway ev) of
                   (QN_H2_OK, h) \<Rightarrow>
                     if length (h2_control h) > control_cap - length out then (QN_H2_SPACE, h, ev, out)
                     else (QN_H2_OK, h\<lparr>h2_control := []\<rparr>, ev, out @ h2_control h)
                 | (rc, h) \<Rightarrow> (rc, h, ev, out))
            | (rc, h, ev) \<Rightarrow> (rc, h, ev, out)))"

end
