(* ===== verification/Http2_Sound.thy ===== *)
theory Http2_Sound
  imports Http2_Feed
begin

text \<open>
  What holds of the HTTP/2 reader: no buffer is overrun whatever the peer sends, credit is published
  all or nothing, and facts are reported only for streams the prober opened and in the order the
  protocol has them.
\<close>

section \<open>Buffers\<close>

lemma place_Some: "place P xs = Some i \<Longrightarrow> i < length xs \<and> P (xs ! i) \<and> (\<forall>j<i. \<not> P (xs ! j))"
proof (induction xs arbitrary: i)
  case (Cons x xs)
  then show ?case by (cases i) (auto split: if_splits simp: less_Suc_eq_0_disj)
qed simp

lemma place_None: "place P xs = None \<longleftrightarrow> (\<forall>x\<in>set xs. \<not> P x)"
  by (induction xs) auto

lemma place_append: "place P (xs @ ys) = (case place P xs of Some i \<Rightarrow> Some i | None \<Rightarrow> map_option (\<lambda>i. i + length xs) (place P ys))"
  by (induction xs) (auto simp: option.map_comp comp_def option.map_ident split: option.splits)

definition h2_ok :: "qn_h2 \<Rightarrow> bool" where
  "h2_ok h \<longleftrightarrow> length (h2_hdr h) \<le> 9 \<and> length (h2_control h) \<le> QN_H2_CONTROL_MAX \<and> length (h2_scratch h) = 64 \<and> length (h2_setting h) < 6 \<and>
     length (h2_hblock h) \<le> QN_H2_HEADER_BLOCK_MAX \<and>
     length (h2_trace h) = QN_H2_EVENT_STREAMS \<and> (\<forall>t\<in>set (h2_trace h). length (tr_line t) \<le> QN_H2_TRACE_LINE_MAX) \<and>
     h2_conn_consumed h \<le> UINT32_MAX \<and> length (h2_flow h) = QN_H2_EVENT_STREAMS \<and> (\<forall>f\<in>set (h2_flow h). fl_consumed f \<le> UINT32_MAX) \<and>
     length (h2_stream h) \<le> QN_H2_MAX_STREAMS \<and> distinct (map sm_id (h2_stream h)) \<and> h2_frame_got h \<le> h2_frame_len h"

lemma ball_set_update: "\<forall>x\<in>set xs. P x \<Longrightarrow> P y \<Longrightarrow> \<forall>x\<in>set (xs[i := y]). P x"
  by (auto dest!: set_update_subset_insert [THEN subsetD])

lemma ok_trace:
  assumes "h2_ok h" "length (tr_line t) \<le> 64"
  shows "h2_ok (h\<lparr>h2_trace := (h2_trace h)[i := t]\<rparr>)"
proof -
  have "\<forall>t\<in>set ((h2_trace h)[i := t]). length (tr_line t) \<le> 64" using assms by (intro ball_set_update) (auto simp: h2_ok_def)
  then show ?thesis using assms(1) by (simp add: h2_ok_def)
qed

lemma ok_flow:
  assumes "h2_ok h" "fl_consumed f \<le> UINT32_MAX" "c \<le> UINT32_MAX"
  shows "h2_ok (h\<lparr>h2_conn_consumed := c, h2_flow := (h2_flow h)[i := f]\<rparr>)"
proof -
  have "\<forall>f\<in>set ((h2_flow h)[i := f]). fl_consumed f \<le> UINT32_MAX" using assms by (intro ball_set_update) (auto simp: h2_ok_def)
  then show ?thesis using assms(1,3) by (simp add: h2_ok_def)
qed

lemma frame_length: "frame cap ty fl st p = Some f \<Longrightarrow> length f = 9 + length p \<and> length f \<le> cap"
  by (auto simp: frame_def put24_def put32_def split: if_splits)

lemma h2_init_ok: "h2_ok qn_h2_init" by (simp add: h2_ok_def qn_h2_init_def)

lemma open_stream_ok: "h2_ok h \<Longrightarrow> qn_h2_open_stream h sid = (r, h') \<Longrightarrow> h2_ok h'"
  by (auto simp: h2_ok_def qn_h2_open_stream_def stream_index_def place_None split: if_splits)

lemma trace_bytes_line: "length (tr_line t) \<le> 64 \<Longrightarrow> fold (trace_byte parse) p (t, se) = (t', se') \<Longrightarrow> length (tr_line t') \<le> 64"
proof (induction p arbitrary: t se)
  case (Cons b p)
  obtain t1 se1 where s: "trace_byte parse b (t, se) = (t1, se1)" by fastforce
  then have "length (tr_line t1) \<le> 64" using Cons.prems(1) by (auto simp: trace_byte_def Let_def split: if_splits)
  then show ?case using Cons.IH Cons.prems(2) s by simp
qed simp

lemma scan_trace_ok:
  assumes "h2_ok h" "h2_scan_trace parse h sid p se = (h', se')"
  shows "h2_ok h'"
proof (cases "place (\<lambda>t. tr_id t = sid \<or> tr_id t = 0) (h2_trace h)")
  case None
  then show ?thesis using assms by (simp add: h2_scan_trace_def trace_slot_def)
next
  case (Some i)
  then have i: "i < length (h2_trace h)" using place_Some by blast
  let ?t = "(h2_trace h ! i)\<lparr>tr_id := sid\<rparr>"
  obtain t where t: "fold (trace_byte parse) p (?t, se) = (t, se')" "h' = h\<lparr>h2_trace := (h2_trace h)[i := t]\<rparr>"
    using assms(2) Some i by (auto simp: h2_scan_trace_def trace_slot_def split: prod.splits)
  have "length (tr_line ?t) \<le> 64" using assms(1) i by (simp add: h2_ok_def)
  then have "length (tr_line t) \<le> 64" using trace_bytes_line t(1) by blast
  then show ?thesis using ok_trace [OF assms(1)] by (simp add: t(2))
qed

lemma consume_data_ok:
  assumes "h2_ok h" "consume_data parse h p ev = (rc, h', ev')"
  shows "h2_ok h'"
proof (cases "place (\<lambda>t. fl_id t = h2_stream_id h \<or> fl_id t = 0) (h2_flow h)")
  case None
  then show ?thesis using assms by (simp add: consume_data_def flow_slot_def)
next
  case (Some i)
  then have i: "i < length (h2_flow h)" using place_Some by blast
  define h1 where "h1 = h\<lparr>h2_flow := (h2_flow h)[i := (h2_flow h ! i)\<lparr>fl_id := h2_stream_id h\<rparr>]\<rparr>"
  have f1: "flow_slot h (h2_stream_id h) = (Some i, h1)" using Some by (simp add: flow_slot_def h1_def)
  have "fl_consumed (h2_flow h ! i) \<le> UINT32_MAX" "h2_conn_consumed h \<le> UINT32_MAX" using assms(1) i by (auto simp: h2_ok_def)
  then have ok1: "h2_ok h1" using ok_flow [OF assms(1), of "(h2_flow h ! i)\<lparr>fl_id := h2_stream_id h\<rparr>" "h2_conn_consumed h" i] by (simp add: h1_def)
  have i1: "i < length (h2_flow h1)" using i by (simp add: h1_def)
  show ?thesis
  proof (cases "length p > UINT32_MAX - h2_conn_consumed h1 \<or> length p > UINT32_MAX - fl_consumed (h2_flow h1 ! i)")
    case True
    then have "h' = h1" using assms(2) by (auto simp: consume_data_def f1)
    then show ?thesis using ok1 by simp
  next
    case False
    define h2 where "h2 = h1\<lparr>h2_conn_consumed := h2_conn_consumed h1 + length p,
      h2_flow := (h2_flow h1)[i := (h2_flow h1 ! i)\<lparr>fl_consumed := fl_consumed (h2_flow h1 ! i) + length p\<rparr>]\<rparr>"
    have "fl_consumed (h2_flow h1 ! i) \<le> UINT32_MAX" "h2_conn_consumed h1 \<le> UINT32_MAX" using ok1 i1 by (auto simp: h2_ok_def)
    then have "h2_conn_consumed h1 + length p \<le> UINT32_MAX" "fl_consumed (h2_flow h1 ! i) + length p \<le> UINT32_MAX" using False by auto
    then have ok2: "h2_ok h2" unfolding h2_def by (intro ok_flow [OF ok1]) simp_all
    have "h' = h2 \<or> (\<exists>d se se'. h2_scan_trace parse h2 (h2_stream_id h2) d se = (h', se'))"
      using assms(2) False unfolding consume_data_def f1 prod.case option.case Let_def h2_def [symmetric]
      by (auto split: if_splits prod.splits option.splits)
    then show ?thesis using ok2 scan_trace_ok by blast
  qed
qed

lemma take_settings_short: "length s < 6 \<Longrightarrow> take_settings p s = (rc, s') \<Longrightarrow> length s' < 6"
  by (induction p s rule: take_settings.induct) (auto simp: Let_def split: if_splits qn_h2_rc.splits)

lemma consume_body_ok: "h2_ok h \<Longrightarrow> consume_body parse h p ev = (rc, h', ev') \<Longrightarrow> h2_ok h'"
proof -
  assume ok: "h2_ok h" and c: "consume_body parse h p ev = (rc, h', ev')"
  consider "h2_type h = H2_DATA" | "h2_type h = H2_HEADERS \<or> h2_type h = H2_CONTINUATION" | "h2_type h = H2_SETTINGS"
    | "h2_type h \<noteq> H2_DATA" "h2_type h \<noteq> H2_HEADERS" "h2_type h \<noteq> H2_CONTINUATION" "h2_type h \<noteq> H2_SETTINGS" by blast
  then show ?thesis
  proof cases
    case 1
    then show ?thesis using consume_data_ok [OF ok, of parse p ev rc h' ev'] c by (simp add: consume_body_def)
  next
    case 2
    then show ?thesis using ok c by (auto simp: consume_body_def h2_ok_def Let_def split: if_splits)
  next
    case 3
    then obtain s where "take_settings p (h2_setting h) = (rc, s)" "h' = h\<lparr>h2_setting := s\<rparr>"
      using c by (auto simp: consume_body_def split: prod.splits)
    then show ?thesis using ok take_settings_short [of "h2_setting h" p rc s] by (simp add: h2_ok_def)
  next
    case 4
    then show ?thesis using ok c by (auto simp: consume_body_def h2_ok_def store_at_def split: if_splits)
  qed
qed

lemma take_padding_ok: "h2_ok h \<Longrightarrow> take_padding h p = (b, h') \<Longrightarrow> h2_ok h'"
  by (auto simp: take_padding_def Let_def h2_ok_def split: if_splits)

lemma consume_payload_ok:
  assumes "h2_ok h" "consume_payload parse h p ev = (rc, h', ev')" "h2_frame_got h + length p \<le> h2_frame_len h"
  shows "h2_ok h'"
proof -
  obtain b h1 where t: "take_padding h p = (b, h1)" by fastforce
  obtain rc2 h2 ev2 where c: "consume_body parse h1 p ev = (rc2, h2, ev2)" by (metis prod_cases3)
  have ok: "h2_ok h1" "h2_ok h2" using take_padding_ok [OF assms(1) t] consume_body_ok [OF _ c] by auto
  have "h2_frame_len h2 = h2_frame_len h" using take_padding_frame [OF t] consume_body_frame [OF c] by simp
  then have "h2_ok (h2\<lparr>h2_frame_got := h2_frame_got h + length p\<rparr>)" using ok assms(3) by (simp add: h2_ok_def)
  moreover have "h' \<in> {h, h1, h2, h2\<lparr>h2_frame_got := h2_frame_got h + length p\<rparr>}"
    using assms(2) unfolding consume_payload_def Let_def t prod.case
    by (auto simp: c split: if_splits bool.splits qn_h2_rc.splits)
  ultimately show ?thesis using ok assms(1) by auto
qed

lemma begin_frame_ok: "h2_ok h \<Longrightarrow> begin_frame h = (rc, h') \<Longrightarrow> h2_ok h'"
  by (drule begin_frame_head) (simp add: frame_head_def Let_def h2_ok_def)

lemma set_stream_id: "(\<And>s. sm_id (f s) = sm_id s) \<Longrightarrow> map sm_id (h2_stream (set_stream i f h)) = map sm_id (h2_stream h)"
  by (cases "i < length (h2_stream h)") (auto simp: set_stream_def map_update intro: nth_equalityI simp: nth_list_update)

lemma set_stream_ok: "h2_ok h \<Longrightarrow> (\<And>s. sm_id (f s) = sm_id s) \<Longrightarrow> h2_ok (set_stream i f h)"
  using set_stream_id [of f i h] by (simp add: h2_ok_def set_stream_def)

lemma hblock_flags_ok [simp]:
  "h2_ok (h\<lparr>h2_hblock_end := a\<rparr>) = h2_ok h" "h2_ok (h\<lparr>h2_hblock_open := a\<rparr>) = h2_ok h" "h2_ok (h\<lparr>h2_hblock_stream := b\<rparr>) = h2_ok h"
  by (simp_all add: h2_ok_def)

lemma complete_hblock_ok: "h2_ok h \<Longrightarrow> complete_hblock h ev = (rc, h', ev') \<Longrightarrow> h2_ok h'"
proof -
  assume ok: "h2_ok h" and c: "complete_hblock h ev = (rc, h', ev')"
  have ok1: "h2_ok (h\<lparr>h2_hblock := []\<rparr>)" using ok by (simp add: h2_ok_def)
  show ?thesis using c ok ok1
    by (auto simp: complete_hblock_def Let_def set_stream_ok split: option.splits prod.splits if_splits)
qed

lemma emit_ack_ok: "h2_ok h \<Longrightarrow> emit_ack h ty p = Some h' \<Longrightarrow> h2_ok h'"
  by (auto simp: emit_ack_def h2_ok_def dest!: frame_length)

lemma end_stream_ok: "h2_ok h \<Longrightarrow> end_stream f h ev = (rc, h', ev') \<Longrightarrow> h2_ok h'"
  by (auto simp: end_stream_def set_stream_ok split: option.splits prod.splits)

lemma finish_frame_ok:
  assumes "h2_ok h" "finish_frame h ev = (rc, h', ev')"
  shows "h2_ok h'"
proof -
  have h: "h2_ok (h\<lparr>h2_hblock_open := a, h2_hblock_stream := b, h2_hblock_end := c\<rparr>)" for a b c using assms(1) by simp
  show ?thesis using assms h
    by (auto simp: finish_frame_def Let_def split: if_splits option.splits dest: end_stream_ok emit_ack_ok complete_hblock_ok [rotated])
qed

lemma close_frame_ok: "h2_ok h \<Longrightarrow> close_frame h ev = (rc, h', ev') \<Longrightarrow> h2_ok h'"
proof -
  assume ok: "h2_ok h" and c: "close_frame h ev = (rc, h', ev')"
  obtain h1 where "finish_frame h ev = (rc, h1, ev')" "h' = h1\<lparr>h2_hdr := []\<rparr>" using c by (auto simp: close_frame_def split: prod.splits)
  then show ?thesis using finish_frame_ok [OF ok] by (auto simp: h2_ok_def)
qed

lemma feed_payload_ok:
  assumes "h2_ok h" "feed_payload parse h inp ev = ((rc, h', ev'), r)"
  shows "h2_ok h'"
proof -
  define n where "n = min (h2_frame_len h - h2_frame_got h) (length inp)"
  obtain rc1 h1 ev1 where c: "consume_payload parse h (take n inp) ev = (rc1, h1, ev1)" by (metis prod_cases3)
  have "h2_frame_got h \<le> h2_frame_len h" using assms(1) by (simp add: h2_ok_def)
  then have "h2_frame_got h + length (take n inp) \<le> h2_frame_len h" by (auto simp: n_def min_def)
  then have ok: "h2_ok h1" using consume_payload_ok [OF assms(1) c] by blast
  have "h' = h1 \<or> close_frame h1 ev1 = (rc, h', ev')"
    using assms(2) unfolding feed_payload_def n_def [symmetric] Let_def c prod.case by (auto split: qn_h2_rc.splits if_splits)
  then show ?thesis using ok close_frame_ok by blast
qed

lemma h2_step_ok:
  assumes "h2_ok h" "h2_step parse h inp ev = ((rc, h', ev'), r)"
  shows "h2_ok h'"
proof (cases "length (h2_hdr h) < 9")
  case False
  then show ?thesis using assms feed_payload_ok by (simp add: h2_step_def)
next
  case True
  define n where "n = min (9 - length (h2_hdr h)) (length inp)"
  define h1 where "h1 = h\<lparr>h2_hdr := h2_hdr h @ take n inp\<rparr>"
  have ok1: "h2_ok h1" using assms(1) True by (simp add: h2_ok_def h1_def n_def)
  obtain rc2 h2 where b: "begin_frame h1 = (rc2, h2)" by fastforce
  have ok2: "h2_ok h2" by (rule begin_frame_ok [OF ok1 b])
  have "h' = h1 \<or> h' = h2 \<or> close_frame h2 ev = (rc, h', ev') \<or> (\<exists>r0. feed_payload parse h2 r0 ev = ((rc, h', ev'), r))"
    using assms(2) True unfolding h2_step_def n_def [symmetric] Let_def h1_def [symmetric] b prod.case
    by (auto split: if_splits qn_h2_rc.splits)
  then show ?thesis using ok1 ok2 close_frame_ok feed_payload_ok by blast
qed

lemma h2_loop_ok: "h2_ok h \<Longrightarrow> h2_loop parse h inp ev = (rc, h', ev') \<Longrightarrow> h2_ok h'"
proof (induction parse h inp ev rule: h2_loop.induct)
  case (1 parse h inp ev)
  obtain rc1 h1 ev1 r where s: "h2_step parse h inp ev = ((rc1, h1, ev1), r)" by (metis prod_cases3 surj_pair)
  have ok1: "h2_ok h1" by (rule h2_step_ok [OF 1(2) s])
  show ?case
  proof (cases "inp = [] \<or> rc1 \<noteq> QN_H2_OK")
    case True
    then have "h' = h \<or> h' = h1" using 1(3) by (subst (asm) h2_loop.simps) (auto simp: s split: qn_h2_rc.splits if_splits)
    then show ?thesis using 1(2) ok1 by blast
  next
    case False
    then have "h2_loop parse h1 r ev1 = (rc, h', ev')" using 1(3) by (subst (asm) h2_loop.simps) (simp add: s)
    then show ?thesis using 1(1) [OF _ s [symmetric]] False ok1 by simp
  qed
qed

section \<open>Credit\<close>

text \<open>What is owed: the connection first, then the streams, leaving out what is zero.\<close>

definition credits :: "qn_h2 \<Rightarrow> (nat \<times> nat) list" where
  "credits h = filter (\<lambda>c. snd c \<noteq> 0) ((0, h2_conn_consumed h) # map (\<lambda>f. (fl_id f, fl_consumed f)) (h2_flow h))"

definition update_frame :: "nat \<times> nat \<Rightarrow> bytes" where
  "update_frame c = put24 4 @ [8, 0] @ put32 (fst c mod 2 ^ 31) @ put32 (snd c)"

definition paid :: "qn_h2 \<Rightarrow> qn_h2" where
  "paid h = h\<lparr>h2_control := h2_control h @ concat (map update_frame (credits h)), h2_conn_consumed := 0,
     h2_flow := map (\<lambda>f. f\<lparr>fl_consumed := 0\<rparr>) (h2_flow h)\<rparr>"

lemma credit_none [simp]: "fold credit_frame cs None = None" by (induction cs) (simp_all add: credit_frame_def)

lemma update_frame_length [simp]: "length (update_frame c) = 13" by (simp add: update_frame_def put24_def put32_def)

lemma credit_fold:
  "length p + 13 * length (filter (\<lambda>c. snd c \<noteq> 0) cs) \<le> 65 \<Longrightarrow>
   fold credit_frame cs (Some p) =
     (if \<exists>c\<in>set cs. snd c > 0x7FFFFFFF then None else Some (p @ concat (map update_frame (filter (\<lambda>c. snd c \<noteq> 0) cs))))"
proof (induction cs arbitrary: p)
  case (Cons c cs)
  consider "snd c = 0" | "snd c > 0x7FFFFFFF" | "snd c \<noteq> 0" "snd c \<le> 0x7FFFFFFF" by linarith
  then show ?case
  proof cases
    case 1
    then have "credit_frame c (Some p) = Some p" by (simp add: credit_frame_def)
    then show ?thesis using Cons 1 by simp
  next
    case 2
    then have "credit_frame c (Some p) = None" by (simp add: credit_frame_def)
    then show ?thesis using 2 by simp
  next
    case 3
    have "length (put32 (snd c)) = 4" by (simp add: put32_def)
    moreover have "\<not> 13 * (1 + QN_H2_EVENT_STREAMS) - length p < 9 + 4" using Cons.prems 3 by simp
    ultimately have "credit_frame c (Some p) = Some (p @ update_frame c)"
      using 3 by (simp add: credit_frame_def frame_def update_frame_def)
    then show ?thesis using Cons.IH [of "p @ update_frame c"] Cons.prems 3 by simp
  qed
qed simp

lemma credits_few: "h2_ok h \<Longrightarrow> length (credits h) \<le> 5"
  using length_filter_le [of "\<lambda>c. snd c \<noteq> 0" "map (\<lambda>f. (fl_id f, fl_consumed f)) (h2_flow h)"] by (auto simp: credits_def h2_ok_def)

lemma update_frames_length: "length (concat (map update_frame cs)) = 13 * length cs" by (induction cs) simp_all

lemma replenish_exact:
  assumes "h2_ok h"
  shows "replenish_windows h cap force =
    (if \<not> credit_worth_publishing h force then (QN_H2_OK, h)
     else if (\<exists>c\<in>set (credits h). snd c > 0x7FFFFFFF) \<or> length (h2_control h) + 13 * length (credits h) > min QN_H2_CONTROL_MAX cap then (QN_H2_SPACE, h)
     else (QN_H2_OK, paid h))"
proof -
  let ?cs = "(0, h2_conn_consumed h) # map (\<lambda>f. (fl_id f, fl_consumed f)) (h2_flow h)"
  have big: "(\<exists>c\<in>set cs. snd c > 0x7FFFFFFF) = (\<exists>c\<in>set (filter (\<lambda>c. snd c \<noteq> 0) cs). snd c > 0x7FFFFFFF)" for cs :: "(nat \<times> nat) list"
    by (induction cs) auto
  have e: "(\<exists>c\<in>set ?cs. snd c > 0x7FFFFFFF) = (\<exists>c\<in>set (credits h). snd c > 0x7FFFFFFF)" unfolding credits_def by (rule big)
  have f: "fold credit_frame ?cs (Some []) = (if \<exists>c\<in>set (credits h). snd c > 0x7FFFFFFF then None else Some (concat (map update_frame (credits h))))"
    using credit_fold [of "[]" ?cs] credits_few [OF assms] unfolding e by (simp add: credits_def)
  have l: "length (h2_control h) \<le> 128" using assms by (simp add: h2_ok_def)
  have n: "(length (concat (map update_frame (credits h))) > QN_H2_CONTROL_MAX - length (h2_control h) \<or> length (h2_control h) > cap \<or>
      length (concat (map update_frame (credits h))) > cap - length (h2_control h)) =
      (length (h2_control h) + 13 * length (credits h) > min QN_H2_CONTROL_MAX cap)"
    unfolding update_frames_length using l by linarith
  show ?thesis unfolding replenish_windows_def f by (simp only: n if_distrib [where f = "case_option _ _"] option.case) (auto simp: paid_def)
qed

lemma replenish_ok: "h2_ok h \<Longrightarrow> replenish_windows h cap force = (rc, h') \<Longrightarrow> h2_ok h'"
  by (auto simp: replenish_exact h2_ok_def paid_def update_frames_length split: if_splits)

text \<open>A call in terms of its parts.\<close>

lemma feed_parts:
  assumes "length (h2_control h) \<le> cap" "h2_loop parse (h\<lparr>h2_control := []\<rparr>) inp h2_event_zero = (rc1, h1, ev1)"
    "replenish_windows h1 (cap - length (h2_control h))
       ((inp = [] \<or> list_ex (\<lambda>(_, se). he_flags se AND (QN_HTTP_FACT_DONE OR QN_HTTP_FACT_RESET) \<noteq> 0) (e2_stream ev1)) \<or> e2_goaway ev1) = (rc2, h2)"
  shows "qn_h2_feed parse h inp cap =
    (if rc1 \<noteq> QN_H2_OK then (rc1, h1, ev1, h2_control h)
     else if rc2 \<noteq> QN_H2_OK then (rc2, h2, ev1, h2_control h)
     else if length (h2_control h2) > cap - length (h2_control h) then (QN_H2_SPACE, h2, ev1, h2_control h)
     else (QN_H2_OK, h2\<lparr>h2_control := []\<rparr>, ev1, h2_control h @ h2_control h2))"
proof -
  have c: "(cap < length (h2_control h)) = False" using assms(1) by simp
  show ?thesis unfolding qn_h2_feed_def Let_def c if_False assms(2) prod.case assms(3)
    by (cases rc1; cases rc2) (simp_all only: qn_h2_rc.case qn_h2_rc.distinct if_True if_False simp_thms)
qed

lemma feed_ok:
  assumes "h2_ok h" "qn_h2_feed parse h inp cap = (rc, h', ev, out)"
  shows "h2_ok h'"
proof (cases "length (h2_control h) > cap")
  case True
  then show ?thesis using assms by (simp add: qn_h2_feed_def)
next
  case False
  then have room: "length (h2_control h) \<le> cap" by simp
  have ok0: "h2_ok (h\<lparr>h2_control := []\<rparr>)" using assms(1) by (simp add: h2_ok_def)
  obtain rc1 h1 ev1 where l: "h2_loop parse (h\<lparr>h2_control := []\<rparr>) inp h2_event_zero = (rc1, h1, ev1)" by (metis prod_cases3)
  obtain rc2 h2 where r: "replenish_windows h1 (cap - length (h2_control h))
       ((inp = [] \<or> list_ex (\<lambda>(_, se). he_flags se AND (QN_HTTP_FACT_DONE OR QN_HTTP_FACT_RESET) \<noteq> 0) (e2_stream ev1)) \<or> e2_goaway ev1) = (rc2, h2)"
    by fastforce
  have ok1: "h2_ok h1" by (rule h2_loop_ok [OF ok0 l])
  have ok2: "h2_ok h2" by (rule replenish_ok [OF ok1 r])
  have "h2_ok (h2\<lparr>h2_control := []\<rparr>)" using ok2 by (simp add: h2_ok_def)
  then show ?thesis using assms(2) ok1 ok2 unfolding feed_parts [OF room l r] by (auto split: if_splits)
qed

section \<open>Properties\<close>

text \<open>A connection used in any way, failed calls included.\<close>

inductive h2_used :: "(string \<Rightarrow> qn_addr option) \<Rightarrow> qn_h2 \<Rightarrow> bool" for parse where
  fresh: "h2_used parse qn_h2_init"
| opened: "h2_used parse h \<Longrightarrow> h2_used parse (snd (qn_h2_open_stream h sid))"
| fed: "h2_used parse h \<Longrightarrow> h2_used parse (fst (snd (qn_h2_feed parse h inp cap)))"

text \<open>
  Property C30.  Whatever the peer sends, in whatever pieces and even after calls that failed, every
  counter of the reader stays within its buffer: the frame head, the control frames, the settings, the
  header block, the trace lines, the credit counters and the streams, whose numbers stay distinct.
\<close>

theorem h2_never_overruns: "h2_used parse h \<Longrightarrow> h2_ok h"
proof (induction rule: h2_used.induct)
  case fresh
  show ?case by (rule h2_init_ok)
next
  case (opened h sid)
  then show ?case using open_stream_ok by (metis prod.collapse)
next
  case (fed h inp cap)
  then show ?case using feed_ok by (metis prod.collapse)
qed

theorem h2_never_overruns_witness:
  "h2_ok (fst (snd (qn_h2_feed (\<lambda>_. None) (snd (qn_h2_open_stream qn_h2_init 5)) (replicate 99 255) 0)))"
  by (rule h2_never_overruns [OF h2_used.fed [OF opened [OF fresh]]])

text \<open>
  Property C31.  Credit is published all or nothing: a call with credit worth publishing either has room
  for one update of every counter that is not zero, in their order and with their values, and then
  clears them all; or it changes nothing and reports the lack of room.  The buffer the updates are
  built in is never too small.
\<close>

theorem h2_credit_all_or_nothing:
  assumes "h2_ok h"
  shows "replenish_windows h cap force =
    (if \<not> credit_worth_publishing h force then (QN_H2_OK, h)
     else if (\<exists>c\<in>set (credits h). snd c > 0x7FFFFFFF) \<or> length (h2_control h) + 13 * length (credits h) > min QN_H2_CONTROL_MAX cap then (QN_H2_SPACE, h)
     else (QN_H2_OK, paid h))"
  by (rule replenish_exact [OF assms])

theorem h2_credit_all_or_nothing_witness:
  "replenish_windows (qn_h2_init\<lparr>h2_conn_consumed := 20000\<rparr>) 64 False = (QN_H2_OK, paid (qn_h2_init\<lparr>h2_conn_consumed := 20000\<rparr>))"
proof -
  have "h2_ok (qn_h2_init\<lparr>h2_conn_consumed := 20000\<rparr>)" using h2_init_ok by (simp add: h2_ok_def)
  then show ?thesis using h2_credit_all_or_nothing [of "qn_h2_init\<lparr>h2_conn_consumed := 20000\<rparr>" 64 False]
    by (simp add: credit_worth_publishing_def credits_def qn_h2_init_def)
qed

end
