(* ===== verification/Http2_Facts.thy ===== *)
theory Http2_Facts
  imports Http2_Sound
begin

text \<open>
  The facts of a call in terms of the streams: an invariant of the reading loop that relates the
  event under construction to the streams before and after.
\<close>

section \<open>Header blocks\<close>

lemma has_fact_mark: "has_fact (mark_fact f se) g \<longleftrightarrow> has_fact se g \<or> f AND g \<noteq> 0"
  by (simp add: has_fact_def mark_fact_def bit.conj_disj_distrib2 or_eq_0_iff)

lemma mark_fact_fields [simp]:
  "he_response_index (mark_fact f se) = he_response_index se" "he_body_bytes (mark_fact f se) = he_body_bytes se"
  "he_status (mark_fact f se) = he_status se" "he_colo (mark_fact f se) = he_colo se"
  by (simp_all add: mark_fact_def)

text \<open>What a block does to the facts: only the two Cloudflare marks, and the status when it is a head.\<close>

definition block_facts :: "bool \<Rightarrow> qn_http_event \<Rightarrow> qn_http_event \<Rightarrow> hblock_scan \<Rightarrow> bool" where
  "block_facts trail se0 se scan \<longleftrightarrow>
     he_response_index se = he_response_index se0 \<and> he_body_bytes se = he_body_bytes se0 \<and> he_colo se = he_colo se0 \<and>
     (\<forall>g. g AND (QN_HTTP_FACT_CF_RAY OR QN_HTTP_FACT_SERVER_CLOUDFLARE) = 0 \<longrightarrow> has_fact se g = has_fact se0 g) \<and>
     hb_status_count scan \<le> 1 \<and> (hb_status_count scan = 0 \<longrightarrow> he_status se = he_status se0) \<and>
     (hb_status_count scan = 1 \<longrightarrow> \<not> trail \<and> 100 \<le> he_status se \<and> he_status se < 600)"

lemma status_from_value_range: "status_from_value v = Some s \<Longrightarrow> 100 \<le> s \<and> s < 600"
  by (auto simp: status_from_value_def Let_def split: if_splits)

lemma static_status_range: "8 \<le> i \<Longrightarrow> i \<le> 14 \<Longrightarrow> 100 \<le> static_status i \<and> static_status i < 600"
proof -
  assume "8 \<le> i" "i \<le> 14"
  then have "i \<in> {8, 9, 10, 11, 12, 13, 14}" by auto
  then show ?thesis by (auto simp: static_status_def)
qed

lemma take_status_facts:
  assumes "block_facts trail se0 se scan" "take_status trail is_status found (se, scan) = Some (se', scan')"
    "is_status \<longrightarrow> (\<forall>s. found = Some s \<longrightarrow> 100 \<le> s \<and> s < 600)"
  shows "block_facts trail se0 se' scan'"
  using assms by (auto simp: take_status_def block_facts_def has_fact_def split: if_splits option.splits)

lemma mark_block_facts:
  assumes "block_facts trail se0 se scan" "f = QN_HTTP_FACT_CF_RAY \<or> f = QN_HTTP_FACT_SERVER_CLOUDFLARE"
  shows "block_facts trail se0 (mark_fact f se) scan"
proof -
  have "f AND g = 0" if "g AND (QN_HTTP_FACT_CF_RAY OR QN_HTTP_FACT_SERVER_CLOUDFLARE) = 0" for g
    using that assms(2) unfolding bit.conj_disj_distrib or_eq_0_iff by (auto simp: and.commute)
  then show ?thesis using assms(1) by (auto simp: block_facts_def has_fact_mark)
qed

lemma indexed_facts:
  assumes "block_facts trail se0 se scan" "indexed_field p trail (se, scan) = Some (r, se', scan')"
  shows "block_facts trail se0 se' scan'"
proof -
  obtain idx r' where p: "pull_hpack_int 7 p = Some (idx, r')" using assms(2) by (auto simp: indexed_field_def split: option.splits)
  consider "idx \<le> 14" "take_status trail (8 \<le> idx \<and> idx \<le> 14) (Some (static_status idx)) (se, scan) = Some (se', scan')"
    | "se' = se" "scan' = scan\<lparr>hb_saw_regular := True\<rparr>"
    using assms(2) unfolding indexed_field_def p option.case prod.case Let_def static_index_is_pseudo_def by (auto split: if_splits)
  then show ?thesis
  proof cases
    case 1
    then show ?thesis using take_status_facts [OF assms(1) 1(2)] static_status_range by auto
  next
    case 2
    then show ?thesis using assms(1) by (simp add: block_facts_def)
  qed
qed

text \<open>The outcome of a literal field is a status or marks.\<close>

lemma literal_cases:
  assumes "literal_field p trail (se, scan) = Some (r, se', scan')"
  shows "(\<exists>is_status val. take_status trail is_status (status_from_value val) (se, scan) = Some (se', scan')) \<or>
    (\<exists>ray srv. scan' = scan\<lparr>hb_saw_regular := True\<rparr> \<and>
       se' = (let ev = if ray then mark_fact QN_HTTP_FACT_CF_RAY se else se in if srv then mark_fact QN_HTTP_FACT_SERVER_CLOUDFLARE ev else ev))"
proof -
  obtain idx r1 where a: "pull_hpack_int 4 p = Some (idx, r1)" using assms by (auto simp: literal_field_def split: option.splits)
  obtain name r2 where b: "(if idx = 0 then map_option (\<lambda>(s, r). (Some s, r)) (pull_hpack_string r1 256) else Some (None, r1)) = Some (name, r2)"
    using assms unfolding literal_field_def a option.case prod.case by (auto split: option.splits if_splits)
  obtain val r3 where c: "pull_hpack_string r2 32 = Some (val, r3)"
    using assms unfolding literal_field_def a option.case prod.case b by (auto split: option.splits if_splits)
  let ?k = "case name of
      None \<Rightarrow> if static_index_is_forbidden idx then None else (let (pseudo, is_status) = static_index_is_pseudo idx in Some (pseudo, is_status, False, idx = 54))
    | Some s \<Rightarrow> if st_full s = 0 \<or> \<not> name_is_lowercase s \<or> name_is_forbidden s then None
                else Some (st_p s ! 0 = 58, eq_ascii_ci s '':status'', eq_ascii_ci s ''cf-ray'', eq_ascii_ci s ''server'')"
  obtain pseudo is_status ray srv where k: "?k = Some (pseudo, is_status, ray, srv)"
    using assms unfolding literal_field_def a option.case prod.case b c by (cases ?k) (auto split: if_splits)
  show ?thesis using assms unfolding literal_field_def a option.case prod.case b c k
    by (cases pseudo) (auto simp: Let_def split: if_splits)
qed

lemma literal_facts:
  assumes "block_facts trail se0 se scan" "literal_field p trail (se, scan) = Some (r, se', scan')"
  shows "block_facts trail se0 se' scan'"
  using literal_cases [OF assms(2)]
proof (elim disjE exE conjE)
  fix is_status val
  assume t: "take_status trail is_status (status_from_value val) (se, scan) = Some (se', scan')"
  show ?thesis by (rule take_status_facts [OF assms(1) t]) (auto dest: status_from_value_range)
next
  fix ray srv
  assume s: "scan' = scan\<lparr>hb_saw_regular := True\<rparr>"
    "se' = (let ev = if ray then mark_fact QN_HTTP_FACT_CF_RAY se else se in if srv then mark_fact QN_HTTP_FACT_SERVER_CLOUDFLARE ev else ev)"
  have "block_facts trail se0 se' scan" using assms(1) by (auto simp: s(2) Let_def intro!: mark_block_facts)
  then show ?thesis by (simp add: s(1) block_facts_def)
qed

lemma parse_fields_facts:
  "parse_fields p trail saw ups (se, scan) = Some (se', scan') \<Longrightarrow> block_facts trail se0 se scan \<Longrightarrow> block_facts trail se0 se' scan'"
proof (induction p trail saw ups "(se, scan)" arbitrary: se scan rule: parse_fields.induct)
  case (1 p trail saw ups)
  show ?case using 1(4,5)
    by (subst (asm) parse_fields.simps)
      (auto split: if_splits option.splits intro: 1(1) 1(2) 1(3) indexed_facts [OF 1(5)] literal_facts [OF 1(5)])
qed

lemma parse_hpack_facts: "parse_hpack p se trail = Some (se', scan) \<Longrightarrow> block_facts trail se se' scan"
  unfolding parse_hpack_def by (erule parse_fields_facts) (simp add: block_facts_def)

section \<open>Streams and facts\<close>

abbreviation closed :: "h2_stream \<Rightarrow> bool" where "closed s \<equiv> sm_state s = QN_H2_STREAM_CLOSED"

text \<open>The streams only advance: none reopens, none loses its head.\<close>

definition advanced :: "h2_stream list \<Rightarrow> h2_stream list \<Rightarrow> bool" where
  "advanced ss0 ss \<longleftrightarrow> map sm_id ss = map sm_id ss0 \<and>
     (\<forall>i<length ss. (closed (ss0 ! i) \<longrightarrow> closed (ss ! i)) \<and> (sm_head_done (ss0 ! i) \<longrightarrow> sm_head_done (ss ! i)))"

text \<open>An entry of the event speaks of the stream at its place.\<close>

definition entry_at :: "h2_stream list \<Rightarrow> h2_stream list \<Rightarrow> nat \<Rightarrow> qn_http_event \<Rightarrow> bool" where
  "entry_at ss0 ss i se \<longleftrightarrow> he_response_index se = i + 1 \<and> \<not> closed (ss0 ! i) \<and>
     (has_fact se QN_HTTP_FACT_BODY \<or> has_fact se QN_HTTP_FACT_TRAILERS \<longrightarrow> sm_head_done (ss ! i)) \<and>
     (has_fact se QN_HTTP_FACT_TRACE_COLO \<longrightarrow> has_fact se QN_HTTP_FACT_BODY) \<and>
     (has_fact se QN_HTTP_FACT_HEADERS \<longrightarrow> \<not> sm_head_done (ss0 ! i) \<and> sm_head_done (ss ! i) \<and> 200 \<le> he_status se \<and> he_status se < 600) \<and>
     (has_fact se QN_HTTP_FACT_DONE \<or> has_fact se QN_HTTP_FACT_RESET \<longrightarrow> closed (ss ! i))"

definition facts_ok :: "h2_stream list \<Rightarrow> h2_stream list \<Rightarrow> qn_h2_event \<Rightarrow> bool" where
  "facts_ok ss0 ss ev \<longleftrightarrow> advanced ss0 ss \<and> distinct (map fst (e2_stream ev)) \<and>
     (\<forall>(sid, se)\<in>set (e2_stream ev). \<exists>i<length ss. sm_id (ss ! i) = sid \<and> entry_at ss0 ss i se)"

lemma facts_entry:
  "facts_ok ss0 ss ev \<Longrightarrow> (sid, se) \<in> set (e2_stream ev) \<Longrightarrow> \<exists>i<length ss. sm_id (ss ! i) = sid \<and> entry_at ss0 ss i se"
  by (auto simp: facts_ok_def)

lemma advanced_refl [simp]: "advanced ss ss" by (simp add: advanced_def)

lemma advanced_length: "advanced ss0 ss \<Longrightarrow> length ss0 = length ss"
  unfolding advanced_def by (metis length_map)

lemma advanced_trans: "advanced a b \<Longrightarrow> advanced b c \<Longrightarrow> advanced a c"
  using advanced_length [of a b] advanced_length [of b c] by (auto simp: advanced_def)

lemma entry_at_advance: "entry_at ss0 ss i se \<Longrightarrow> advanced ss ss' \<Longrightarrow> i < length ss' \<Longrightarrow> entry_at ss0 ss' i se"
  by (auto simp: entry_at_def advanced_def)

lemma facts_ok_advance: "facts_ok ss0 ss ev \<Longrightarrow> advanced ss ss' \<Longrightarrow> facts_ok ss0 ss' ev"
proof -
  assume f: "facts_ok ss0 ss ev" and a: "advanced ss ss'"
  have l: "length ss' = length ss" using advanced_length [OF a] by simp
  have m: "map sm_id ss' = map sm_id ss" using a by (simp add: advanced_def)
  have id: "sm_id (ss' ! i) = sm_id (ss ! i)" if "i < length ss" for i
    using arg_cong [OF m, of "\<lambda>xs. xs ! i"] that l by simp
  have "\<exists>i<length ss'. sm_id (ss' ! i) = sid \<and> entry_at ss0 ss' i se" if e: "(sid, se) \<in> set (e2_stream ev)" for sid se
  proof -
    obtain i where "i < length ss" "sm_id (ss ! i) = sid" "entry_at ss0 ss i se" using facts_entry [OF f e] by blast
    then have "i < length ss'" "sm_id (ss' ! i) = sid" "entry_at ss0 ss' i se" using entry_at_advance [OF _ a] id l by simp_all
    then show ?thesis by blast
  qed
  then show ?thesis using f advanced_trans [OF _ a] by (auto simp: facts_ok_def)
qed

text \<open>The stream of the frame, when the frame may touch it.\<close>

definition live :: "qn_h2 \<Rightarrow> nat \<Rightarrow> bool" where
  "live h i \<longleftrightarrow> stream_index h (h2_stream_id h) = Some i \<and> \<not> closed (h2_stream h ! i)"

lemma live_place: "live h i \<Longrightarrow> i < length (h2_stream h) \<and> sm_id (h2_stream h ! i) = h2_stream_id h"
  using place_Some by (fastforce simp: live_def stream_index_def)

lemma entry_place:
  assumes "facts_ok ss0 (h2_stream h) ev" "live h i" "distinct (map sm_id (h2_stream h))" "(h2_stream_id h, se) \<in> set (e2_stream ev)"
  shows "entry_at ss0 (h2_stream h) i se"
proof -
  obtain j where j: "j < length (h2_stream h)" "sm_id (h2_stream h ! j) = h2_stream_id h" "entry_at ss0 (h2_stream h) j se"
    using assms(1,4) unfolding facts_ok_def by blast
  have "j = i" using assms(3) j live_place [OF assms(2)] by (metis distinct_map inj_on_eq_iff nth_mem nth_eq_iff_index_eq length_map nth_map)
  then show ?thesis using j by simp
qed

lemma stream_event_facts:
  assumes f: "facts_ok ss0 (h2_stream h) ev" and l: "live h i" and d: "distinct (map sm_id (h2_stream h))"
    and s: "stream_event h ev (h2_stream_id h) = (Some k, ev')"
  shows "facts_ok ss0 (h2_stream h) ev' \<and> k < length (e2_stream ev') \<and> fst (e2_stream ev' ! k) = h2_stream_id h \<and>
    entry_at ss0 (h2_stream h) i (snd (e2_stream ev' ! k))"
proof (cases "place (\<lambda>e. fst e = h2_stream_id h) (e2_stream ev)")
  case (Some j)
  then have k: "k = j" "ev' = ev" using s by (auto simp: stream_event_def)
  have p: "j < length (e2_stream ev)" "fst (e2_stream ev ! j) = h2_stream_id h" using place_Some [OF Some] by auto
  then have "(h2_stream_id h, snd (e2_stream ev ! j)) \<in> set (e2_stream ev)" by (metis nth_mem prod.collapse)
  then show ?thesis using entry_place [OF f l d] f p k by simp
next
  case None
  define se where "se = event_zero\<lparr>he_response_index := i + 1\<rparr>"
  have n: "h2_stream_id h \<notin> fst ` set (e2_stream ev)" using None by (auto simp: place_None)
  have e: "k = length (e2_stream ev)" "e2_stream ev' = e2_stream ev @ [(h2_stream_id h, se)]"
    using s None l by (auto simp: stream_event_def live_def se_def split: if_splits)
  have p: "i < length (h2_stream h)" "sm_id (h2_stream h ! i) = h2_stream_id h" using live_place [OF l] by auto
  have "\<not> closed (ss0 ! i)" using f l p by (auto simp: facts_ok_def advanced_def live_def)
  then have en: "entry_at ss0 (h2_stream h) i se" by (simp add: entry_at_def se_def event_zero_def has_fact_def)
  show ?thesis using f n p en by (auto simp: facts_ok_def e)
qed

lemma set_event_at:
  assumes "facts_ok ss0 ss ev" "i < length ss" "k < length (e2_stream ev)" "fst (e2_stream ev ! k) = sm_id (ss ! i)"
    "entry_at ss0 ss i (g (snd (e2_stream ev ! k)))"
  shows "facts_ok ss0 ss (set_event k g ev)"
proof -
  have m: "map fst (e2_stream (set_event k g ev)) = map fst (e2_stream ev)"
    using assms(3) by (auto simp: set_event_def intro!: nth_equalityI simp: nth_list_update)
  have "\<exists>i<length ss. sm_id (ss ! i) = sid \<and> entry_at ss0 (ss) i se"
    if e: "(sid, se) \<in> set (e2_stream (set_event k g ev))" for sid se
  proof -
    have "(sid, se) \<in> set (e2_stream ev) \<or> (sid, se) = map_prod id g (e2_stream ev ! k)"
      using e set_update_subset_insert [of "e2_stream ev" k "map_prod id g (e2_stream ev ! k)"] by (auto simp: set_event_def)
    then show ?thesis
    proof
      assume "(sid, se) \<in> set (e2_stream ev)"
      then show ?thesis using facts_entry [OF assms(1)] by blast
    next
      assume "(sid, se) = map_prod id g (e2_stream ev ! k)"
      then show ?thesis using assms(2,4,5) by (cases "e2_stream ev ! k") auto
    qed
  qed
  then show ?thesis using assms(1) m by (auto simp: facts_ok_def)
qed

section \<open>Payload\<close>

text \<open>What the payload of a frame leaves alone.\<close>

definition same_frame :: "qn_h2 \<Rightarrow> qn_h2 \<Rightarrow> bool" where
  "same_frame h h' \<longleftrightarrow> h2_stream h' = h2_stream h \<and> h2_stream_id h' = h2_stream_id h \<and> h2_type h' = h2_type h \<and> h2_flags h' = h2_flags h \<and>
     h2_hblock_open h' = h2_hblock_open h \<and> h2_hblock_stream h' = h2_hblock_stream h \<and> h2_hdr h' = h2_hdr h"

lemma scan_trace_same: "h2_scan_trace parse h sid p se = (h', se') \<Longrightarrow> same_frame h h'"
  by (auto simp: h2_scan_trace_def trace_slot_def same_frame_def split: option.splits prod.splits)

lemma take_padding_same: "take_padding h p = (b, h') \<Longrightarrow> same_frame h h'"
  by (auto simp: take_padding_def Let_def same_frame_def split: if_splits)

lemma take_trace_line_facts:
  "he_response_index (take_trace_line parse l se) = he_response_index se" "he_status (take_trace_line parse l se) = he_status se"
  "g AND QN_HTTP_FACT_TRACE_COLO = 0 \<Longrightarrow> has_fact (take_trace_line parse l se) g = has_fact se g"
proof -
  show "he_response_index (take_trace_line parse l se) = he_response_index se" "he_status (take_trace_line parse l se) = he_status se"
    by (simp_all add: take_trace_line_def Let_def split: prod.splits)
  assume "g AND QN_HTTP_FACT_TRACE_COLO = 0"
  then have "QN_HTTP_FACT_TRACE_COLO AND g = 0" by (simp add: and.commute)
  moreover have "has_fact (se\<lparr>he_colo := c\<rparr>) g = has_fact se g" for c by (simp add: has_fact_def)
  ultimately show "has_fact (take_trace_line parse l se) g = has_fact se g"
    by (simp add: take_trace_line_def Let_def has_fact_mark split: prod.splits)
qed

lemma trace_bytes_facts:
  "fold (trace_byte parse) p (t, se) = (t', se') \<Longrightarrow>
   he_response_index se' = he_response_index se \<and> he_status se' = he_status se \<and> (\<forall>g. g AND QN_HTTP_FACT_TRACE_COLO = 0 \<longrightarrow> has_fact se' g = has_fact se g)"
proof (induction p arbitrary: t se)
  case (Cons b p)
  obtain t1 se1 where s: "trace_byte parse b (t, se) = (t1, se1)" by fastforce
  then have "he_response_index se1 = he_response_index se \<and> he_status se1 = he_status se \<and>
      (\<forall>g. g AND QN_HTTP_FACT_TRACE_COLO = 0 \<longrightarrow> has_fact se1 g = has_fact se g)"
    by (auto simp: trace_byte_def Let_def take_trace_line_facts split: if_splits)
  then show ?case using Cons.IH [of t1 se1] Cons.prems s by simp
qed simp

lemma scan_trace_facts:
  assumes "h2_scan_trace parse h sid p se = (h', se')"
  shows "he_response_index se' = he_response_index se" "he_status se' = he_status se" "g AND QN_HTTP_FACT_TRACE_COLO = 0 \<Longrightarrow> has_fact se' g = has_fact se g"
  using assms trace_bytes_facts by (fastforce simp: h2_scan_trace_def trace_slot_def split: option.splits prod.splits)+

lemma consume_data_facts:
  assumes f: "facts_ok ss0 (h2_stream h) ev" and l: "live h i" and d: "distinct (map sm_id (h2_stream h))"
    and hd: "sm_head_done (h2_stream h ! i)" and c: "consume_data parse h p ev = (QN_H2_OK, h', ev')"
  shows "same_frame h h' \<and> facts_ok ss0 (h2_stream h) ev'"
proof -
  obtain j h1 where s1: "flow_slot h (h2_stream_id h) = (Some j, h1)" using c by (auto simp: consume_data_def split: prod.splits option.splits)
  define h2 where "h2 = h1\<lparr>h2_conn_consumed := h2_conn_consumed h1 + length p,
      h2_flow := (h2_flow h1)[j := (h2_flow h1 ! j)\<lparr>fl_consumed := fl_consumed (h2_flow h1 ! j) + length p\<rparr>]\<rparr>"
  have sf: "same_frame h h2" using s1 by (auto simp: flow_slot_def h2_def same_frame_def split: option.splits)
  then have st: "h2_stream h2 = h2_stream h" "h2_stream_id h2 = h2_stream_id h" by (simp_all add: same_frame_def)
  have l2: "live h2 i" using l by (simp add: live_def stream_index_def st)
  consider "h' = h2" "ev' = ev"
    | k ev1 se where "stream_event h2 ev (h2_stream_id h2) = (Some k, ev1)" "ev' = set_event k (\<lambda>_. se) ev1"
      "\<exists>dd. h2_scan_trace parse h2 (h2_stream_id h2) dd
         ((mark_fact QN_HTTP_FACT_BODY (snd (e2_stream ev1 ! k)))\<lparr>he_body_bytes := he_body_bytes (snd (e2_stream ev1 ! k)) + length dd\<rparr>) = (h', se)"
    using c unfolding consume_data_def s1 prod.case option.case Let_def h2_def [symmetric]
    by (auto split: if_splits prod.splits option.splits)
  then show ?thesis
  proof cases
    case 1
    then show ?thesis using f sf by simp
  next
    case 2
    note e = stream_event_facts [OF f [folded st(1)] l2 d [folded st(1)] 2(1)]
    obtain dd where t: "h2_scan_trace parse h2 (h2_stream_id h2) dd
         ((mark_fact QN_HTTP_FACT_BODY (snd (e2_stream ev1 ! k)))\<lparr>he_body_bytes := he_body_bytes (snd (e2_stream ev1 ! k)) + length dd\<rparr>) = (h', se)"
      using 2(3) by blast
    note tf = scan_trace_facts [OF t]
    have g: "has_fact se g = (has_fact (snd (e2_stream ev1 ! k)) g \<or> QN_HTTP_FACT_BODY AND g \<noteq> 0)" if "g AND QN_HTTP_FACT_TRACE_COLO = 0" for g
      using tf(3) [OF that] has_fact_mark [of QN_HTTP_FACT_BODY "snd (e2_stream ev1 ! k)" g] by (simp add: has_fact_def)
    have "entry_at ss0 (h2_stream h2) i se" using e hd tf(1,2) by (simp add: entry_at_def g st)
    then have "facts_ok ss0 (h2_stream h2) ev'" unfolding 2(2) using e live_place [OF l2] by (intro set_event_at) auto
    moreover have "same_frame h h'" using sf scan_trace_same [OF t] by (simp add: same_frame_def)
    ultimately show ?thesis by (simp add: st)
  qed
qed

lemma consume_body_facts:
  assumes "facts_ok ss0 (h2_stream h) ev" "distinct (map sm_id (h2_stream h))" "h2_type h = H2_DATA \<Longrightarrow> live h i \<and> sm_head_done (h2_stream h ! i)"
    "consume_body parse h p ev = (QN_H2_OK, h', ev')"
  shows "same_frame h h' \<and> facts_ok ss0 (h2_stream h) ev'"
proof (cases "h2_type h = H2_DATA")
  case True
  then show ?thesis using consume_data_facts [OF assms(1) _ assms(2), of i parse p h' ev'] assms(3,4) by (simp add: consume_body_def)
next
  case False
  then show ?thesis using assms(1,4) by (auto simp: consume_body_def Let_def same_frame_def split: if_splits prod.splits)
qed

lemma consume_payload_facts:
  assumes "facts_ok ss0 (h2_stream h) ev" "distinct (map sm_id (h2_stream h))" "h2_type h = H2_DATA \<Longrightarrow> live h i \<and> sm_head_done (h2_stream h ! i)"
    "consume_payload parse h p ev = (QN_H2_OK, h', ev')"
  shows "same_frame h h' \<and> facts_ok ss0 (h2_stream h) ev'"
proof -
  obtain h1 h2 where p: "take_padding h p = (True, h1)" "consume_body parse h1 p ev = (QN_H2_OK, h2, ev')" "h' = h2\<lparr>h2_frame_got := h2_frame_got h + length p\<rparr>"
    using assms(4) unfolding consume_payload_def Let_def by (auto split: if_splits prod.splits bool.splits qn_h2_rc.splits)
  have s: "same_frame h h1" by (rule take_padding_same [OF p(1)])
  have "same_frame h1 h2 \<and> facts_ok ss0 (h2_stream h1) ev'"
    using s assms(1-3) by (intro consume_body_facts [OF _ _ _ p(2)]) (auto simp: same_frame_def live_def stream_index_def)
  then show ?thesis using s by (simp add: same_frame_def p(3))
qed

section \<open>Frames\<close>

text \<open>What admission of a frame leaves for its payload: its stream is one that may receive it.\<close>

definition touches :: "qn_h2 \<Rightarrow> bool" where
  "touches h \<longleftrightarrow> h2_stream_id h \<noteq> 0 \<and> h2_type h \<in> {H2_DATA, H2_HEADERS, H2_CONTINUATION, H2_RST_STREAM, H2_PUSH_PROMISE}"

definition admitted :: "qn_h2 \<Rightarrow> bool" where
  "admitted h \<longleftrightarrow> (h2_hblock_open h \<longrightarrow> h2_hblock_stream h \<noteq> 0) \<and>
     (9 \<le> length (h2_hdr h) \<longrightarrow> (h2_type h = H2_DATA \<or> h2_type h = H2_CONTINUATION \<longrightarrow> h2_stream_id h \<noteq> 0) \<and> (touches h \<longrightarrow> \<not> stream_refuses h))"

lemma admitted_live:
  assumes "admitted h" "9 \<le> length (h2_hdr h)" "touches h"
  obtains i where "live h i" "h2_type h = H2_DATA \<Longrightarrow> sm_head_done (h2_stream h ! i)"
  using assms by (auto simp: admitted_def stream_refuses_def live_def split: option.splits)

lemma admitted_same: "admitted h \<Longrightarrow> same_frame h h' \<Longrightarrow> admitted h'"
proof -
  assume a: "admitted h" and f: "same_frame h h'"
  then have e: "h2_stream h' = h2_stream h" "h2_stream_id h' = h2_stream_id h" "h2_type h' = h2_type h" "h2_hblock_open h' = h2_hblock_open h"
      "h2_hblock_stream h' = h2_hblock_stream h" "h2_hdr h' = h2_hdr h"
    by (simp_all add: same_frame_def)
  show ?thesis using a unfolding admitted_def touches_def stream_refuses_def stream_index_def e .
qed

lemma begin_frame_admits: "begin_frame h = (QN_H2_OK, h') \<Longrightarrow> h2_hblock_open h \<longrightarrow> h2_hblock_stream h \<noteq> 0 \<Longrightarrow> admitted h' \<and> h2_stream h' = h2_stream h"
proof -
  assume b: "begin_frame h = (QN_H2_OK, h')" and o: "h2_hblock_open h \<longrightarrow> h2_hblock_stream h \<noteq> 0"
  have e: "h' = frame_head h" by (rule begin_frame_head [OF b])
  have k: "h2_stream h' = h2_stream h" "h2_hblock_open h' = h2_hblock_open h" "h2_hblock_stream h' = h2_hblock_stream h"
    by (simp_all add: e frame_head_def Let_def)
  have "\<not> (h2_type h' = H2_DATA \<and> h2_stream_id h' = 0)" "\<not> (h2_type h' = H2_CONTINUATION \<and> (\<not> h2_hblock_open h' \<or> h2_stream_id h' \<noteq> h2_hblock_stream h'))"
    "\<not> (touches h' \<and> stream_refuses h')"
    using b unfolding begin_frame_def Let_def e [symmetric] touches_def by (simp_all split: if_splits)
  then show ?thesis using o k by (auto simp: admitted_def)
qed

lemma advance_stream:
  assumes "i < length (h2_stream h)" "sm_id (f (h2_stream h ! i)) = sm_id (h2_stream h ! i)"
    "closed (h2_stream h ! i) \<longrightarrow> closed (f (h2_stream h ! i))" "sm_head_done (h2_stream h ! i) \<longrightarrow> sm_head_done (f (h2_stream h ! i))"
  shows "advanced (h2_stream h) (h2_stream (set_stream i f h))"
  using assms by (auto simp: advanced_def set_stream_def nth_list_update intro!: nth_equalityI)

lemma end_stream_facts:
  assumes f: "facts_ok ss0 (h2_stream h) ev" and l: "live h i" and d: "distinct (map sm_id (h2_stream h))"
    and e: "end_stream fa h ev = (QN_H2_OK, h', ev')" and fa: "fa = QN_HTTP_FACT_DONE \<or> fa = QN_HTTP_FACT_RESET"
  shows "facts_ok ss0 (h2_stream h') ev' \<and> h2_hblock_open h' = h2_hblock_open h \<and> h2_hblock_stream h' = h2_hblock_stream h"
proof -
  let ?f = "\<lambda>s. s\<lparr>sm_state := QN_H2_STREAM_CLOSED\<rparr>"
  obtain k ev1 where k: "stream_event h ev (h2_stream_id h) = (Some k, ev1)" "ev' = set_event k (mark_fact fa) ev1" "h' = set_stream i ?f h"
    using e l by (auto simp: end_stream_def live_def split: prod.splits option.splits)
  note se = stream_event_facts [OF f l d k(1)]
  have p: "i < length (h2_stream h)" "sm_id (h2_stream h ! i) = h2_stream_id h" using live_place [OF l] by auto
  have a: "advanced (h2_stream h) (h2_stream h')" unfolding k(3) using p by (intro advance_stream) auto
  have f1: "facts_ok ss0 (h2_stream h') ev1" using facts_ok_advance [OF _ a] se by blast
  have c: "closed (h2_stream h' ! i)" "i < length (h2_stream h')" "sm_id (h2_stream h' ! i) = h2_stream_id h" using p by (simp_all add: k(3) set_stream_def)
  have en: "entry_at ss0 (h2_stream h') i (snd (e2_stream ev1 ! k))" using se entry_at_advance [OF _ a c(2)] by blast
  then have "entry_at ss0 (h2_stream h') i (mark_fact fa (snd (e2_stream ev1 ! k)))"
    using fa c by (elim disjE) (auto simp: entry_at_def has_fact_mark)
  then have "facts_ok ss0 (h2_stream h') ev'" unfolding k(2) using se c f1 by (intro set_event_at) auto
  then show ?thesis by (simp add: k(3) set_stream_def)
qed

text \<open>
  What a complete block does: an informational head only leaves its mark; a final head or trailers
  move the stream on, and end it if the frame says so.
\<close>

definition hblock_outcome :: "qn_h2 \<Rightarrow> nat \<Rightarrow> qn_h2 \<Rightarrow> nat \<Rightarrow> qn_h2_event \<Rightarrow> qn_http_event \<Rightarrow> qn_h2_event \<Rightarrow> bool" where
  "hblock_outcome h i h' k ev1 se ev' \<longleftrightarrow>
      he_status se < 200 \<and> \<not> sm_head_done (h2_stream h ! i) \<and> h2_stream h' = h2_stream h \<and> ev' = set_event k (\<lambda>_. mark_fact QN_HTTP_FACT_INFORMATIONAL se) ev1 \<or>
       (sm_head_done (h2_stream h ! i) \<or> 200 \<le> he_status se) \<and>
       (\<exists>s. h2_stream h' = (h2_stream h)[i := s] \<and> sm_id s = sm_id (h2_stream h ! i) \<and> sm_head_done s \<and>
          (\<exists>se'. ev' = set_event k (\<lambda>_. se') ev1 \<and>
             (se' = mark_fact (if sm_head_done (h2_stream h ! i) then QN_HTTP_FACT_TRAILERS else QN_HTTP_FACT_HEADERS) se \<or>
              closed s \<and> se' = mark_fact QN_HTTP_FACT_DONE (mark_fact (if sm_head_done (h2_stream h ! i) then QN_HTTP_FACT_TRAILERS else QN_HTTP_FACT_HEADERS) se))))"

lemma complete_hblock_cases:
  assumes "complete_hblock h ev = (QN_H2_OK, h', ev')" "live h i"
  obtains k ev1 se scan where "stream_event h ev (h2_stream_id h) = (Some k, ev1)"
      "parse_hpack (h2_hblock h) (snd (e2_stream ev1 ! k)) (sm_head_done (h2_stream h ! i)) = Some (se, scan)"
      "\<not> sm_head_done (h2_stream h ! i) \<longrightarrow> hb_status_count scan = 1"
      "hblock_outcome h i h' k ev1 se ev'"
    "h2_hblock_open h' = h2_hblock_open h" "h2_hblock_stream h' = h2_hblock_stream h"
proof -
  have si: "stream_index h (h2_stream_id h) = Some i" using assms(2) by (simp add: live_def)
  obtain k ev1 where k: "stream_event h ev (h2_stream_id h) = (Some k, ev1)"
    using assms(1) by (auto simp: complete_hblock_def split: prod.splits option.splits)
  obtain se scan where p: "parse_hpack (h2_hblock h) (snd (e2_stream ev1 ! k)) (sm_head_done (h2_stream h ! i)) = Some (se, scan)"
    using assms(1) unfolding complete_hblock_def k prod.case option.case si Let_def by (auto split: option.splits)
  have i: "i < length (h2_stream h)" using live_place [OF assms(2)] by simp
  note c = assms(1) [unfolded complete_hblock_def k prod.case option.case si Let_def p]
  have twice: "set_event k f (set_event k (\<lambda>_. a) e) = set_event k (\<lambda>_. f a) e" if "k < length (e2_stream e)" for f a e
    using that by (cases "e2_stream e ! k") (simp add: set_event_def)
  have kk: "k < length (e2_stream ev1)"
    using k place_Some [of "\<lambda>e. fst e = h2_stream_id h" "e2_stream ev"] by (auto simp: stream_event_def Let_def split: option.splits if_splits)
  show ?thesis
  proof (cases "sm_head_done (h2_stream h ! i)")
    case True
    show ?thesis
    proof (rule that [OF k p])
      show "hblock_outcome h i h' k ev1 se ev'"
      proof (cases "h2_hblock_end h")
        case e: True
        then show ?thesis using c True kk i
          by (auto simp: hblock_outcome_def twice set_stream_def intro!: exI [of _ "(h2_stream h ! i)\<lparr>sm_state := QN_H2_STREAM_CLOSED\<rparr>"])
      next
        case False
        then show ?thesis using c True kk i by (auto simp: hblock_outcome_def twice set_stream_def intro!: exI [of _ "h2_stream h ! i"])
      qed
    qed (use c True in \<open>auto simp: set_stream_def split: if_splits\<close>)
  next
    case False
    then have n: "hb_status_count scan = 1" using c by (auto split: if_splits)
    show ?thesis
    proof (rule that [OF k p])
      show "hblock_outcome h i h' k ev1 se ev'"
      proof (cases "he_status se < 200")
        case s: True
        then show ?thesis using c False n kk by (auto simp: hblock_outcome_def twice split: if_splits)
      next
        case s: False
        show ?thesis
        proof (cases "h2_hblock_end h")
          case True
          then show ?thesis using c False n s kk i
            by (auto simp: hblock_outcome_def twice set_stream_def
                intro!: exI [of _ "(h2_stream h ! i)\<lparr>sm_head_done := True, sm_state := QN_H2_STREAM_CLOSED\<rparr>"])
        next
          case False
          then show ?thesis using c \<open>\<not> sm_head_done (h2_stream h ! i)\<close> n s kk i
            by (auto simp: hblock_outcome_def twice set_stream_def intro!: exI [of _ "(h2_stream h ! i)\<lparr>sm_head_done := True, sm_state := QN_H2_STREAM_HEADERS\<rparr>"])
        qed
      qed
    qed (use c False n in \<open>auto simp: set_stream_def split: if_splits\<close>)
  qed
qed

lemma complete_hblock_facts:
  assumes f: "facts_ok ss0 (h2_stream h) ev" and l: "live h i" and d: "distinct (map sm_id (h2_stream h))"
    and c: "complete_hblock h ev = (QN_H2_OK, h', ev')"
  shows "facts_ok ss0 (h2_stream h') ev' \<and> h2_hblock_open h' = h2_hblock_open h \<and> h2_hblock_stream h' = h2_hblock_stream h"
proof -
  obtain k ev1 se scan where k: "stream_event h ev (h2_stream_id h) = (Some k, ev1)"
      "parse_hpack (h2_hblock h) (snd (e2_stream ev1 ! k)) (sm_head_done (h2_stream h ! i)) = Some (se, scan)"
      "\<not> sm_head_done (h2_stream h ! i) \<longrightarrow> hb_status_count scan = 1" "hblock_outcome h i h' k ev1 se ev'"
      "h2_hblock_open h' = h2_hblock_open h" "h2_hblock_stream h' = h2_hblock_stream h"
    by (rule complete_hblock_cases [OF c l])
  let ?ss = "h2_stream h" let ?se1 = "snd (e2_stream ev1 ! k)"
  note e = stream_event_facts [OF f l d k(1)]
  note b = parse_hpack_facts [OF k(2)]
  have p: "i < length ?ss" "sm_id (?ss ! i) = h2_stream_id h" "\<not> closed (?ss ! i)" using live_place [OF l] l by (auto simp: live_def)
  have ad: "advanced ss0 ?ss" using f by (simp add: facts_ok_def)
  have g: "has_fact se g = has_fact ?se1 g" if "g \<in> {QN_HTTP_FACT_HEADERS, QN_HTTP_FACT_BODY, QN_HTTP_FACT_DONE, QN_HTTP_FACT_TRACE_COLO, QN_HTTP_FACT_RESET, QN_HTTP_FACT_TRAILERS}" for g
    using b that unfolding block_facts_def by auto
  have ri: "he_response_index se = he_response_index ?se1" using b by (simp add: block_facts_def)
  let ?m = "if sm_head_done (?ss ! i) then QN_HTTP_FACT_TRAILERS else QN_HTTP_FACT_HEADERS"
  from k(4) consider (info) "\<not> sm_head_done (?ss ! i)" "h2_stream h' = ?ss" "ev' = set_event k (\<lambda>_. mark_fact QN_HTTP_FACT_INFORMATIONAL se) ev1"
    | (head) s se' where "sm_head_done (?ss ! i) \<or> 200 \<le> he_status se" "h2_stream h' = ?ss[i := s]" "sm_id s = sm_id (?ss ! i)" "sm_head_done s"
        "ev' = set_event k (\<lambda>_. se') ev1" "se' = mark_fact ?m se \<or> closed s \<and> se' = mark_fact QN_HTTP_FACT_DONE (mark_fact ?m se)"
    unfolding hblock_outcome_def by blast
  then have "facts_ok ss0 (h2_stream h') ev'"
  proof cases
    case info
    have "entry_at ss0 ?ss i (mark_fact QN_HTTP_FACT_INFORMATIONAL se)" using e info(1) by (auto simp: entry_at_def has_fact_mark g ri)
    then show ?thesis unfolding info(2,3) using e p by (intro set_event_at) auto
  next
    case head
    have a: "advanced ?ss (h2_stream h')" using p head(2-4) by (auto simp: advanced_def nth_list_update intro!: nth_equalityI)
    have i': "i < length (h2_stream h')" "h2_stream h' ! i = s" using p(1) head(2) by simp_all
    have f1: "facts_ok ss0 (h2_stream h') ev1" using facts_ok_advance [OF _ a] e by blast
    have quiet: "\<not> has_fact ?se1 QN_HTTP_FACT_DONE \<and> \<not> has_fact ?se1 QN_HTTP_FACT_RESET" using e p(3) by (auto simp: entry_at_def)
    have st: "if sm_head_done (?ss ! i) then he_status se = he_status ?se1 else 200 \<le> he_status se \<and> he_status se < 600 \<and> \<not> sm_head_done (ss0 ! i)"
      using b k(3) head(1) ad p(1) by (auto simp: block_facts_def advanced_def)
    have "entry_at ss0 (h2_stream h') i se'" using head(6)
    proof
      assume "se' = mark_fact ?m se"
      then show ?thesis using e st quiet head(4) by (auto simp: entry_at_def i' has_fact_mark g ri split: if_splits)
    next
      assume "closed s \<and> se' = mark_fact QN_HTTP_FACT_DONE (mark_fact ?m se)"
      then show ?thesis using e st quiet head(4) by (auto simp: entry_at_def i' has_fact_mark g ri split: if_splits)
    qed
    then show ?thesis unfolding head(5) using e f1 i' head(3) p(2) by (intro set_event_at) auto
  qed
  then show ?thesis using k(5,6) by simp
qed

lemma finish_frame_facts:
  assumes f: "facts_ok ss0 (h2_stream h) ev" and a: "admitted h" and n: "9 \<le> length (h2_hdr h)" and d: "distinct (map sm_id (h2_stream h))"
    and c: "finish_frame h ev = (QN_H2_OK, h', ev')"
  shows "facts_ok ss0 (h2_stream h') ev' \<and> (h2_hblock_open h' \<longrightarrow> h2_hblock_stream h' \<noteq> 0)"
proof -
  have o: "h2_hblock_open h \<longrightarrow> h2_hblock_stream h \<noteq> 0" using a by (simp add: admitted_def)
  consider (data) "h2_type h = H2_DATA" | (headers) "h2_type h = H2_HEADERS" | (more) "h2_type h = H2_CONTINUATION" | (rst) "h2_type h = H2_RST_STREAM"
    | (other) "h2_type h \<noteq> H2_DATA" "h2_type h \<noteq> H2_HEADERS" "h2_type h \<noteq> H2_CONTINUATION" "h2_type h \<noteq> H2_RST_STREAM" by blast
  then show ?thesis
  proof cases
    case data
    then have "touches h" using a n by (auto simp: admitted_def touches_def)
    then obtain i where "live h i" using admitted_live [OF a n] by blast
    then show ?thesis using c f o end_stream_facts [OF f _ d, of i] by (auto simp: finish_frame_def data Let_def split: if_splits)
  next
    case headers
    then have s: "h2_stream_id h \<noteq> 0" using c by (auto simp: finish_frame_def Let_def split: if_splits)
    then have "touches h" using headers by (simp add: touches_def)
    then obtain i where l: "live h i" using admitted_live [OF a n] by blast
    define h1 where "h1 = h\<lparr>h2_hblock_open := (h2_flags h AND H2_END_HEADERS = 0), h2_hblock_stream := h2_stream_id h,
      h2_hblock_end := (h2_flags h AND H2_END_STREAM \<noteq> 0)\<rparr>"
    have h1: "h2_stream h1 = h2_stream h" "live h1 i" "h2_hblock_stream h1 \<noteq> 0" using l s by (auto simp: h1_def live_def stream_index_def)
    have c1: "(if h2_hblock_open h1 then (QN_H2_OK, h1, ev) else complete_hblock h1 ev) = (QN_H2_OK, h', ev')"
      using c s headers by (simp only: finish_frame_def Let_def h1_def [symmetric]) simp
    show ?thesis
    proof (cases "h2_hblock_open h1")
      case True
      then show ?thesis using c1 f h1 by auto
    next
      case False
      then show ?thesis using c1 f d h1 complete_hblock_facts [of ss0 h1 ev i h' ev'] by simp
    qed
  next
    case more
    then have "touches h" using a n by (auto simp: admitted_def touches_def)
    then obtain i where l: "live h i" using admitted_live [OF a n] by blast
    let ?h1 = "h\<lparr>h2_hblock_open := False\<rparr>"
    have h1: "h2_stream ?h1 = h2_stream h" "live ?h1 i" using l by (auto simp: live_def stream_index_def)
    show ?thesis
    proof (cases "h2_flags h AND H2_END_HEADERS = 0")
      case True
      then show ?thesis using c more f o by (simp add: finish_frame_def)
    next
      case False
      then have "complete_hblock ?h1 ev = (QN_H2_OK, h', ev')" using c more by (simp add: finish_frame_def)
      then show ?thesis using complete_hblock_facts [of ss0 ?h1 ev i h' ev'] f d h1 by simp
    qed
  next
    case rst
    then have "touches h" using c by (auto simp: finish_frame_def Let_def touches_def split: if_splits)
    then obtain i where "live h i" using admitted_live [OF a n] by blast
    then show ?thesis using c f o end_stream_facts [OF f _ d, of i] by (auto simp: finish_frame_def rst Let_def split: if_splits)
  next
    case other
    then show ?thesis using c f o
      by (auto simp: finish_frame_def Let_def emit_ack_def facts_ok_def split: if_splits option.splits)
  qed
qed

text \<open>The invariant of the loop.\<close>

definition reading :: "h2_stream list \<Rightarrow> qn_h2 \<Rightarrow> qn_h2_event \<Rightarrow> bool" where
  "reading ss0 h ev \<longleftrightarrow> h2_ok h \<and> admitted h \<and> facts_ok ss0 (h2_stream h) ev"

lemma reading_distinct: "reading ss0 h ev \<Longrightarrow> distinct (map sm_id (h2_stream h))"
  by (simp add: reading_def h2_ok_def)

lemma close_frame_reading:
  assumes "reading ss0 h ev" "9 \<le> length (h2_hdr h)" "close_frame h ev = (QN_H2_OK, h', ev')"
  shows "reading ss0 h' ev'"
proof -
  obtain h1 where h1: "finish_frame h ev = (QN_H2_OK, h1, ev')" "h' = h1\<lparr>h2_hdr := []\<rparr>"
    using assms(3) by (auto simp: close_frame_def split: prod.splits)
  have "facts_ok ss0 (h2_stream h1) ev' \<and> (h2_hblock_open h1 \<longrightarrow> h2_hblock_stream h1 \<noteq> 0)"
    using assms(1,2) reading_distinct [OF assms(1)] by (intro finish_frame_facts [OF _ _ _ _ h1(1)]) (auto simp: reading_def)
  moreover have "h2_ok h'" using close_frame_ok assms(1,3) by (auto simp: reading_def)
  ultimately show ?thesis by (simp add: reading_def h1(2) admitted_def)
qed

lemma feed_payload_reading:
  assumes r: "reading ss0 h ev" and n: "9 \<le> length (h2_hdr h)" and c: "feed_payload parse h inp ev = ((QN_H2_OK, h', ev'), rest)"
  shows "reading ss0 h' ev'"
proof -
  define m where "m = min (h2_frame_len h - h2_frame_got h) (length inp)"
  obtain h1 ev1 where p: "consume_payload parse h (take m inp) ev = (QN_H2_OK, h1, ev1)"
      "(if h2_frame_len h1 \<le> h2_frame_got h1 then close_frame h1 ev1 else (QN_H2_OK, h1, ev1)) = (QN_H2_OK, h', ev')"
    using c by (auto simp: feed_payload_def Let_def m_def split: prod.splits qn_h2_rc.splits)
  have ok: "h2_ok h" "admitted h" "facts_ok ss0 (h2_stream h) ev" using r by (simp_all add: reading_def)
  have "h2_frame_got h \<le> h2_frame_len h" using ok(1) by (simp add: h2_ok_def)
  then have ok1: "h2_ok h1" by (intro consume_payload_ok [OF ok(1) p(1)]) (auto simp: m_def min_def)
  obtain i where i: "h2_type h = H2_DATA \<longrightarrow> live h i \<and> sm_head_done (h2_stream h ! i)"
  proof (cases "h2_type h = H2_DATA")
    case True
    then have "touches h" using ok(2) n by (auto simp: admitted_def touches_def)
    then show ?thesis using admitted_live [OF ok(2) n] that True by metis
  qed (use that [of 0] in simp)
  have s: "same_frame h h1 \<and> facts_ok ss0 (h2_stream h) ev1"
    using i by (intro consume_payload_facts [OF ok(3) reading_distinct [OF r] _ p(1), of i]) simp
  then have "reading ss0 h1 ev1" using ok1 admitted_same [OF ok(2)] by (simp add: reading_def same_frame_def)
  moreover have "9 \<le> length (h2_hdr h1)" using s n by (simp add: same_frame_def)
  ultimately show ?thesis using p(2) close_frame_reading [of ss0 h1 ev1 h' ev'] by (auto split: if_splits)
qed

lemma h2_step_reading:
  assumes r: "reading ss0 h ev" and c: "h2_step parse h inp ev = ((QN_H2_OK, h', ev'), rest)"
  shows "reading ss0 h' ev'"
proof (cases "length (h2_hdr h) < 9")
  case False
  then show ?thesis using feed_payload_reading [OF r, of parse inp h' ev' rest] c by (simp add: h2_step_def)
next
  case True
  define n where "n = min (9 - length (h2_hdr h)) (length inp)"
  define h1 where "h1 = h\<lparr>h2_hdr := h2_hdr h @ take n inp\<rparr>"
  have o: "h2_hblock_open h1 \<longrightarrow> h2_hblock_stream h1 \<noteq> 0" "h2_stream h1 = h2_stream h" using r by (auto simp: h1_def reading_def admitted_def)
  have ok1: "h2_ok h1" using r True by (simp add: h2_ok_def h1_def n_def reading_def)
  have st: "h2_step parse h inp ev = (if length (h2_hdr h1) < 9 then ((QN_H2_OK, h1, ev), drop n inp)
      else (case begin_frame h1 of
              (QN_H2_OK, h2) \<Rightarrow> if h2_frame_len h2 = 0 then (close_frame h2 ev, drop n inp) else feed_payload parse h2 (drop n inp) ev
            | (rc, h2) \<Rightarrow> ((rc, h2, ev), drop n inp)))"
    using True by (simp only: h2_step_def Let_def n_def [symmetric] h1_def [symmetric] if_True)
  show ?thesis
  proof (cases "length (h2_hdr h1) < 9")
    case short: True
    then have "h' = h1" "ev' = ev" using c st by auto
    then show ?thesis using r ok1 o short by (simp add: reading_def admitted_def)
  next
    case False
    then obtain h2 where b: "begin_frame h1 = (QN_H2_OK, h2)" using c st by (auto split: prod.splits qn_h2_rc.splits if_splits)
    have l: "9 \<le> length (h2_hdr h2)" using begin_frame_hdr [OF b] False by simp
    have r2: "reading ss0 h2 ev" using begin_frame_admits [OF b o(1)] begin_frame_ok [OF ok1 b] r o(2) by (simp add: reading_def)
    have "(if h2_frame_len h2 = 0 then (close_frame h2 ev, drop n inp) else feed_payload parse h2 (drop n inp) ev) = ((QN_H2_OK, h', ev'), rest)"
      using st False b c by simp
    then show ?thesis using close_frame_reading [OF r2 l] feed_payload_reading [OF r2 l] by (auto split: if_splits)
  qed
qed

lemma h2_loop_reading: "reading ss0 h ev \<Longrightarrow> h2_loop parse h inp ev = (QN_H2_OK, h', ev') \<Longrightarrow> reading ss0 h' ev'"
proof (induction parse h inp ev rule: h2_loop.induct)
  case (1 parse h inp ev)
  obtain rc1 h1 ev1 r where s: "h2_step parse h inp ev = ((rc1, h1, ev1), r)" by (metis prod_cases3 surj_pair)
  show ?case
  proof (cases "inp = []")
    case True
    then show ?thesis using 1(2,3) by (subst (asm) h2_loop.simps) simp
  next
    case False
    then have rc: "rc1 = QN_H2_OK" using 1(3) by (subst (asm) h2_loop.simps) (auto simp: s split: qn_h2_rc.splits)
    then have "h2_loop parse h1 r ev1 = (QN_H2_OK, h', ev')" using 1(3) False by (subst (asm) h2_loop.simps) (simp add: s)
    then show ?thesis using 1(1) [OF False s [symmetric]] rc h2_step_reading [OF 1(2)] s by simp
  qed
qed

section \<open>Sessions\<close>

text \<open>A connection as its owner uses it: requests are declared and bytes are fed until a call fails.\<close>

inductive h2_session :: "(string \<Rightarrow> qn_addr option) \<Rightarrow> qn_h2 \<Rightarrow> bool" for parse where
  start: "h2_session parse qn_h2_init"
| request: "h2_session parse h \<Longrightarrow> qn_h2_open_stream h sid = (r, h') \<Longrightarrow> h2_session parse h'"
| fed: "h2_session parse h \<Longrightarrow> qn_h2_feed parse h inp cap = (QN_H2_OK, h', ev, out) \<Longrightarrow> h2_session parse h'"

lemma open_stream_admitted: "admitted h \<Longrightarrow> qn_h2_open_stream h sid = (r, h') \<Longrightarrow> admitted h'"
proof -
  assume a: "admitted h" and o: "qn_h2_open_stream h sid = (r, h')"
  show "admitted h'"
  proof (cases "h' = h")
    case False
    then obtain s where h': "h' = h\<lparr>h2_stream := h2_stream h @ [s]\<rparr>" using o by (auto simp: qn_h2_open_stream_def split: if_splits)
    have "stream_refuses h' \<longrightarrow> stream_refuses h"
    proof (cases "stream_index h (h2_stream_id h)")
      case (Some i)
      then have "i < length (h2_stream h)" using place_Some by (fastforce simp: stream_index_def)
      then show ?thesis using Some by (auto simp: stream_refuses_def h' stream_index_def place_append nth_append)
    qed (simp add: stream_refuses_def)
    then show ?thesis using a by (auto simp: admitted_def h' touches_def)
  qed (use a in simp)
qed

text \<open>A successful call is the loop, and then credit is published.\<close>

lemma feed_OK:
  assumes "qn_h2_feed parse h inp cap = (QN_H2_OK, h', ev, out)"
  obtains h1 where "h2_loop parse (h\<lparr>h2_control := []\<rparr>) inp h2_event_zero = (QN_H2_OK, h1, ev)" "same_frame h1 h'"
    "h2_control h' = []" "length out \<le> cap"
proof -
  have room: "length (h2_control h) \<le> cap" using assms by (auto simp: qn_h2_feed_def split: if_splits)
  obtain rc1 h1 ev1 where l: "h2_loop parse (h\<lparr>h2_control := []\<rparr>) inp h2_event_zero = (rc1, h1, ev1)" by (metis prod_cases3)
  obtain rc2 h2 where r: "replenish_windows h1 (cap - length (h2_control h))
       ((inp = [] \<or> list_ex (\<lambda>(_, se). he_flags se AND (QN_HTTP_FACT_DONE OR QN_HTTP_FACT_RESET) \<noteq> 0) (e2_stream ev1)) \<or> e2_goaway ev1) = (rc2, h2)"
    by fastforce
  note p = assms [unfolded feed_parts [OF room l r]]
  have k: "rc1 = QN_H2_OK" "ev = ev1" "h' = h2\<lparr>h2_control := []\<rparr>" "out = h2_control h @ h2_control h2" "length (h2_control h2) \<le> cap - length (h2_control h)"
    using p by (auto split: if_splits)
  have "same_frame h1 h2" using r by (auto simp: replenish_windows_def same_frame_def split: if_splits option.splits)
  then show ?thesis using that [of h1] l k room by (simp add: same_frame_def)
qed

lemma start_reading: "h2_ok h \<Longrightarrow> admitted h \<Longrightarrow> reading (h2_stream h) (h\<lparr>h2_control := []\<rparr>) h2_event_zero"
  using admitted_same [of h "h\<lparr>h2_control := []\<rparr>"] by (simp add: reading_def h2_ok_def facts_ok_def h2_event_zero_def same_frame_def)

lemma session_reading: "h2_session parse h \<Longrightarrow> h2_ok h \<and> admitted h"
proof (induction rule: h2_session.induct)
  case start
  show ?case using h2_init_ok by (simp add: admitted_def qn_h2_init_def)
next
  case (request h sid r h')
  then show ?case using open_stream_ok open_stream_admitted by blast
next
  case (fed h inp cap h' ev out)
  obtain h1 where h1: "h2_loop parse (h\<lparr>h2_control := []\<rparr>) inp h2_event_zero = (QN_H2_OK, h1, ev)" "same_frame h1 h'" by (rule feed_OK [OF fed(2)])
  have "reading (h2_stream h) (h\<lparr>h2_control := []\<rparr>) h2_event_zero" using fed(3) by (intro start_reading) auto
  then have "admitted h1" using h2_loop_reading [OF _ h1(1)] by (auto simp: reading_def)
  then show ?case using admitted_same [OF _ h1(2)] feed_ok [OF _ fed(2)] fed(3) by blast
qed

lemma feed_facts:
  assumes "h2_ok h" "admitted h" "qn_h2_feed parse h inp cap = (QN_H2_OK, h', ev, out)"
  shows "facts_ok (h2_stream h) (h2_stream h') ev"
proof -
  obtain h1 where h1: "h2_loop parse (h\<lparr>h2_control := []\<rparr>) inp h2_event_zero = (QN_H2_OK, h1, ev)" "same_frame h1 h'" by (rule feed_OK [OF assms(3)])
  have "reading (h2_stream h) (h\<lparr>h2_control := []\<rparr>) h2_event_zero" using assms(1,2) by (rule start_reading)
  then show ?thesis using h2_loop_reading [OF _ h1(1)] h1(2) by (auto simp: reading_def same_frame_def)
qed

section \<open>A sample\<close>

text \<open>One request and the head that answers and ends it, step by step.\<close>

lemma init_fields:
  "h2_hdr qn_h2_init = []" "h2_control qn_h2_init = []" "h2_setting qn_h2_init = []" "h2_hblock qn_h2_init = []" "h2_hblock_open qn_h2_init = False"
  "h2_hblock_end qn_h2_init = False" "h2_conn_consumed qn_h2_init = 0" "h2_stream qn_h2_init = []"
  by (simp_all add: qn_h2_init_def)

definition sample_stream :: h2_stream where "sample_stream = \<lparr>sm_id = 1, sm_state = QN_H2_STREAM_OPEN, sm_head_done = False\<rparr>"

lemma sample_opens: "qn_h2_open_stream qn_h2_init 1 = (True, qn_h2_init\<lparr>h2_stream := [sample_stream]\<rparr>)"
  by (simp add: qn_h2_open_stream_def init_fields stream_index_def sample_stream_def)

definition sample_open :: qn_h2 where "sample_open = qn_h2_init\<lparr>h2_stream := [sample_stream]\<rparr>"
definition sample_head :: qn_h2 where "sample_head = sample_open\<lparr>h2_hdr := [0, 0, 1, 1, 5, 0, 0, 0, 1], h2_frame_len := 1, h2_type := 1, h2_flags := 5, h2_stream_id := 1, h2_frame_got := 0, h2_pad_len := 0, h2_data_start := 0, h2_data_end := 1\<rparr>"

lemma sample_begins: "begin_frame (sample_open\<lparr>h2_hdr := [0, 0, 1, 1, 5, 0, 0, 0, 1]\<rparr>) = (QN_H2_OK, sample_head)"
proof -
  have f: "frame_head (sample_open\<lparr>h2_hdr := [0, 0, 1, 1, 5, 0, 0, 0, 1]\<rparr>) = sample_head"
    by (simp add: frame_head_def Let_def be24_def be32_def sample_head_def sample_open_def)
  have r: "\<not> stream_refuses sample_head" by (simp add: stream_refuses_def stream_index_def sample_head_def sample_open_def sample_stream_def)
  show ?thesis unfolding begin_frame_def f Let_def by (simp add: r) (simp add: sample_head_def sample_open_def init_fields)
qed

definition sample_read :: qn_h2 where "sample_read = sample_head\<lparr>h2_hblock := [0x88], h2_frame_got := 1\<rparr>"

lemma sample_consumes: "consume_payload p sample_head [0x88] ev = (QN_H2_OK, sample_read, ev)"
proof -
  have t: "take_padding sample_head [0x88] = (True, sample_head)" by (simp add: take_padding_def sample_head_def)
  have d: "data_part sample_head [0x88] = [0x88]" by (simp add: data_part_def sample_head_def)
  have "consume_body p sample_head [0x88] ev = (QN_H2_OK, sample_head\<lparr>h2_hblock := [0x88]\<rparr>, ev)"
    unfolding consume_body_def d by (simp add: sample_head_def sample_open_def init_fields)
  then show ?thesis unfolding consume_payload_def t by (simp add: sample_read_def) (simp add: sample_head_def)
qed

lemma sample_block: "parse_hpack [0x88] se False = Some (se\<lparr>he_status := 200\<rparr>, \<lparr>hb_status_count = 1, hb_saw_regular = False\<rparr>)"
  unfolding parse_hpack_def
  by (subst parse_fields.simps, simp add: indexed_field_def pull_hpack_int_def static_index_is_pseudo_def take_status_def static_status_def, 
      subst parse_fields.simps, simp)

definition sample_done :: qn_h2 where "sample_done = sample_read\<lparr>h2_hdr := [], h2_hblock := [], h2_hblock_stream := 1, h2_stream := [\<lparr>sm_id = 1, sm_state = QN_H2_STREAM_CLOSED, sm_head_done = True\<rparr>]\<rparr>"
definition sample_event :: qn_h2_event where "sample_event = \<lparr>e2_goaway = False, e2_stream = [(1, \<lparr>he_flags = 5, he_response_index = 1, he_body_bytes = 0, he_status = 200, he_colo = []\<rparr>)]\<rparr>"

lemma sample_closes: "close_frame sample_read h2_event_zero = (QN_H2_OK, sample_done, sample_event)"
proof -
  show ?thesis
    by (simp add: close_frame_def finish_frame_def complete_hblock_def sample_read_def sample_head_def sample_open_def init_fields stream_event_def h2_event_zero_def stream_index_def sample_stream_def sample_block
      set_event_def set_stream_def mark_fact_def event_zero_def sample_done_def sample_event_def)
qed
lemma sample_feed: "qn_h2_feed parse sample_open [0, 0, 1, 1, 5, 0, 0, 0, 1, 0x88] 64 = (QN_H2_OK, sample_done, sample_event, [])"
proof -
  have o: "sample_open\<lparr>h2_control := []\<rparr> = sample_open" "h2_hdr sample_open = []" "h2_control sample_open = []"
    by (simp_all add: sample_open_def init_fields)
  have f: "feed_payload parse sample_head [0x88] h2_event_zero = ((QN_H2_OK, sample_done, sample_event), [])"
  proof -
    have m: "h2_frame_len sample_head = 1" "h2_frame_got sample_head = 0" "h2_frame_len sample_read = 1" "h2_frame_got sample_read = 1"
      by (simp_all add: sample_read_def sample_head_def)
    show ?thesis by (simp add: feed_payload_def m sample_consumes sample_closes)
  qed
  have "h2_frame_len sample_head \<noteq> 0" by (simp add: sample_head_def)
  then have st: "h2_step parse sample_open [0, 0, 1, 1, 5, 0, 0, 0, 1, 0x88] h2_event_zero = ((QN_H2_OK, sample_done, sample_event), [])"
    by (simp add: h2_step_def o sample_begins f)
  have l: "h2_loop parse (sample_open\<lparr>h2_control := []\<rparr>) [0, 0, 1, 1, 5, 0, 0, 0, 1, 0x88] h2_event_zero = (QN_H2_OK, sample_done, sample_event)"
    by (subst h2_loop.simps, simp add: o st, subst h2_loop.simps, simp)
  have c: "h2_control sample_done = []" "h2_conn_consumed sample_done = 0" "h2_flow sample_done = replicate 4 \<lparr>fl_id = 0, fl_consumed = 0\<rparr>"
    by (simp_all add: sample_done_def sample_read_def sample_head_def sample_open_def init_fields) (simp add: qn_h2_init_def)
  have "\<not> credit_worth_publishing sample_done b" for b by (auto simp: credit_worth_publishing_def c list_ex_iff)
  then have r: "replenish_windows sample_done 64 b = (QN_H2_OK, sample_done)" for b by (simp add: replenish_windows_def)
  have "sample_done\<lparr>h2_control := []\<rparr> = sample_done" using c(1) by (cases sample_done) simp
  then show ?thesis using feed_parts [OF _ l, of 64 QN_H2_OK sample_done] r by (simp add: o c)
qed

section \<open>Properties\<close>

text \<open>
  Property C29.  The facts of a successful call are about streams whose request was declared and that
  were not closed before the call, each at most once and at most four in all.  A body, a trace marker
  or trailers are reported only once a valid final head was read; a head is reported once per stream
  and with a status from 200 to 599; a stream reported as done or reset is closed, and no stream
  reopens or loses its head.
\<close>

theorem h2_facts_sound:
  assumes "h2_session parse h" "qn_h2_feed parse h inp cap = (QN_H2_OK, h', ev, out)"
  shows "facts_ok (h2_stream h) (h2_stream h') ev \<and> length (e2_stream ev) \<le> QN_H2_EVENT_STREAMS \<and> length out \<le> cap"
proof -
  have r: "h2_ok h" "admitted h" using session_reading [OF assms(1)] by auto
  have f: "facts_ok (h2_stream h) (h2_stream h') ev" by (rule feed_facts [OF r assms(2)])
  have "set (map fst (e2_stream ev)) \<subseteq> set (map sm_id (h2_stream h'))" using facts_entry [OF f] by (force simp: in_set_conv_nth)
  then have "card (set (map fst (e2_stream ev))) \<le> card (set (map sm_id (h2_stream h')))" by (intro card_mono) auto
  moreover have "card (set (map fst (e2_stream ev))) = length (e2_stream ev)" using f distinct_card [of "map fst (e2_stream ev)"] by (simp add: facts_ok_def)
  ultimately have "length (e2_stream ev) \<le> length (h2_stream h')" using card_length [of "map sm_id (h2_stream h')"] by simp
  moreover have "length (h2_stream h') \<le> 4" using feed_ok [OF r(1) assms(2)] by (simp add: h2_ok_def)
  moreover have "length out \<le> cap" by (rule feed_OK [OF assms(2)])
  ultimately show ?thesis using f by simp
qed

theorem h2_facts_sound_witness:
  "facts_ok [sample_stream] (h2_stream sample_done) sample_event \<and> length (e2_stream sample_event) = 1"
proof -
  have s: "h2_session (\<lambda>_. None) sample_open" unfolding sample_open_def by (rule request [OF start sample_opens])
  have "h2_stream sample_open = [sample_stream]" by (simp add: sample_open_def)
  then show ?thesis using h2_facts_sound [OF s sample_feed] by (simp add: sample_event_def)
qed

end
