(* ===== verification/Le_Bytes.thy ===== *)
theory Le_Bytes
  imports Bytes
begin

unbundle bit_operations_syntax

text \<open>
  Little-endian numbers and machine words as natural numbers, for the ciphers: the value of a byte
  string, its parts, and the bit operations of C on numbers below a power of two.
\<close>

section \<open>Byte strings\<close>

fun le_value :: "bytes \<Rightarrow> nat" where
  "le_value [] = 0"
| "le_value (b # bs) = unat b + 256 * le_value bs"

definition le_bytes :: "nat \<Rightarrow> nat \<Rightarrow> bytes" where
  "le_bytes n v = map (\<lambda>i. word_of_nat (v div 256 ^ i)) [0..<n]"

lemma le_value_less: "le_value bs < 256 ^ length bs"
proof (induction bs)
  case (Cons b bs)
  have "unat b < 256" using unsigned_less [of b] by simp
  then have "unat b + 256 * le_value bs < 256 * (le_value bs + 1)" by simp
  also have "\<dots> \<le> 256 * 256 ^ length bs" using Cons by (intro mult_le_mono2) simp
  finally show ?case by simp
qed simp

lemma le_value_append: "le_value (xs @ ys) = le_value xs + 256 ^ length xs * le_value ys"
  by (induction xs) (simp_all add: algebra_simps)

lemma le_value_zeros [simp]: "le_value (replicate n 0) = 0" by (induction n) simp_all

lemma le_value_drop: "le_value (drop i bs) = le_value bs div 256 ^ i"
proof (cases "i \<le> length bs")
  case True
  have "le_value bs = le_value (take i bs) + 256 ^ i * le_value (drop i bs)"
    using le_value_append [of "take i bs" "drop i bs"] True by simp
  moreover have "le_value (take i bs) < 256 ^ i" using le_value_less [of "take i bs"] True by simp
  ultimately show ?thesis by simp
next
  case False
  then have "(256::nat) ^ length bs \<le> 256 ^ i" by (intro power_increasing) auto
  then have "le_value bs < 256 ^ i" using le_value_less [of bs] by linarith
  then show ?thesis using False by simp
qed

lemma le_value_take: "le_value (take n bs) = le_value bs mod 256 ^ n"
proof (cases "n \<le> length bs")
  case True
  have "le_value bs = le_value (take n bs) + 256 ^ n * le_value (drop n bs)"
    using le_value_append [of "take n bs" "drop n bs"] True by simp
  moreover have "le_value (take n bs) < 256 ^ n" using le_value_less [of "take n bs"] True by simp
  ultimately show ?thesis by simp
next
  case False
  then have "(256::nat) ^ length bs \<le> 256 ^ n" by (intro power_increasing) auto
  then have "le_value bs < 256 ^ n" using le_value_less [of bs] by linarith
  then show ?thesis using False by simp
qed

lemma le_bytes_length [simp]: "length (le_bytes n v) = n" by (simp add: le_bytes_def)

lemma le_bytes_Suc: "le_bytes (Suc n) v = word_of_nat v # le_bytes n (v div 256)"
  by (simp add: le_bytes_def upt_conv_Cons map_Suc_upt [symmetric] div_mult2_eq del: upt_Suc)

lemma le_bytes_append: "le_bytes (m + n) v = le_bytes m v @ le_bytes n (v div 256 ^ m)"
  by (induction m arbitrary: v) (simp_all add: le_bytes_Suc div_mult2_eq, simp add: le_bytes_def)

lemma unat_u8: "unat (word_of_nat v :: u8) = v mod 256" using unat_of_nat [of v, where 'a = 8] by simp

lemma u8_mod: "(word_of_nat (v mod 256) :: u8) = word_of_nat v"
proof -
  have "unat (word_of_nat (v mod 256) :: u8) = unat (word_of_nat v :: u8)" by (simp only: unat_u8 mod_mod_trivial)
  then show ?thesis by simp
qed

lemma le_bytes_mod: "le_bytes n (v mod 256 ^ n) = le_bytes n v"
proof (induction n arbitrary: v)
  case (Suc n)
  have "v mod 256 ^ Suc n div 256 = v div 256 mod 256 ^ n" by (simp add: mod_mult2_eq)
  moreover have "(word_of_nat (v mod 256 ^ Suc n) :: u8) = word_of_nat v"
    using u8_mod [of "v mod 256 ^ Suc n"] u8_mod [of v] by (simp add: mod_mod_cancel)
  ultimately show ?case using Suc by (simp add: le_bytes_Suc)
qed (simp add: le_bytes_def)

lemma le_bytes_high: "le_bytes 8 (a + 2 ^ 64 * q) = le_bytes 8 a"
proof -
  have "(256::nat) ^ 8 = 2 ^ 64" by simp
  then show ?thesis using le_bytes_mod [of 8 "a + 2 ^ 64 * q"] le_bytes_mod [of 8 a] by (simp only: mod_mult_self2)
qed

lemma le_value_bytes: "le_value (le_bytes n v) = v mod 256 ^ n"
proof (induction n arbitrary: v)
  case (Suc n)
  then show ?case by (simp add: le_bytes_Suc unat_u8 mod_mult2_eq)
qed (simp add: le_bytes_def)

lemma div_bound: "x < m * n \<Longrightarrow> x div m < n" for x m n :: nat
  by (simp add: less_mult_imp_div_less mult.commute)

section \<open>Bits of numbers\<close>

lemma and_mask: "x AND (2 ^ k - 1) = x mod 2 ^ k" for x :: nat
  by (simp add: take_bit_eq_mask mask_eq_exp_minus_1 flip: take_bit_eq_mod)

text \<open>Conjunction part by part.\<close>

lemma and_split: "x AND m = (x mod 2 ^ k AND m mod 2 ^ k) + 2 ^ k * (x div 2 ^ k AND m div 2 ^ k)" for x m :: nat
proof -
  have "x AND m = take_bit k (x AND m) + push_bit k (drop_bit k (x AND m))" using bits_ident [of k "x AND m"] by (simp add: add.commute)
  also have "\<dots> = (x mod 2 ^ k AND m mod 2 ^ k) + 2 ^ k * (x div 2 ^ k AND m div 2 ^ k)"
    unfolding take_bit_and drop_bit_and unfolding take_bit_eq_mod drop_bit_eq_div push_bit_eq_mult by (simp only: mult.commute)
  finally show ?thesis .
qed

lemma and_below: "m < 2 ^ k \<Longrightarrow> x AND m = x mod 2 ^ k AND m" for x m :: nat
  by (subst and_split [of x m k]) simp

text \<open>A disjunction of parts that do not overlap is their sum.\<close>

lemma or_plus: "a < 2 ^ k \<Longrightarrow> a OR 2 ^ k * b = a + 2 ^ k * b" for a b :: nat
proof -
  assume a: "a < 2 ^ k"
  have "a AND 2 ^ k * b = 0" by (subst and_split [of a _ k]) (simp add: a)
  then show ?thesis by (rule disjunctive_add_eq_or [symmetric])
qed

lemma drop_bit_byte: "(ucast (drop_bit k x) :: u8) = word_of_nat (unat x div 2 ^ k)" for x :: "'a :: len word"
  using of_nat_unat [of "drop_bit k x", where 'a = u8] by (simp only: unat_drop_bit_eq drop_bit_eq_div [of k "unat x"])

text \<open>Big-endian bytes.\<close>

definition be_bytes :: "nat \<Rightarrow> nat \<Rightarrow> bytes" where "be_bytes n v = rev (le_bytes n v)"

lemma be_bytes_length [simp]: "length (be_bytes n v) = n" by (simp add: be_bytes_def)

lemma be_bytes_append: "be_bytes (m + n) v = be_bytes n (v div 256 ^ m) @ be_bytes m v"
  by (simp add: be_bytes_def le_bytes_append)

lemma be_bytes_mod: "be_bytes n (v mod 256 ^ n) = be_bytes n v" by (simp add: be_bytes_def le_bytes_mod)

lemma be_bytes_high: "be_bytes 8 (a + 2 ^ 64 * q) = be_bytes 8 a" by (simp only: be_bytes_def le_bytes_high)

end
