(* ===== verification/Poly1305.thy ===== *)
theory Poly1305
  imports Le_Bytes
begin

text \<open>
  The one-time authenticator of \<^verbatim>\<open>src/crypto/poly1305.c\<close> in both of its layouts, three limbs of 44 bits
  with 128-bit products and five limbs of 26 bits with 64-bit products.  A machine integer is the
  natural number it stands for, with the wrap-around of every operation written out; the bytes of a
  partial block and their count are a list.  The assembly for AArch64 is not part of the model.
\<close>

section \<open>Words\<close>

abbreviation w32 :: "nat \<Rightarrow> nat" where "w32 x \<equiv> x mod 2 ^ 32"
abbreviation w64 :: "nat \<Rightarrow> nat" where "w64 x \<equiv> x mod 2 ^ 64"
abbreviation w128 :: "nat \<Rightarrow> nat" where "w128 x \<equiv> x mod 2 ^ 128"

definition not32 :: "nat \<Rightarrow> nat" where "not32 x = 2 ^ 32 - 1 - x"
definition not64 :: "nat \<Rightarrow> nat" where "not64 x = 2 ^ 64 - 1 - x"

text \<open>Loading combines disjoint bytes, which is their little-endian value.\<close>

definition ld64le :: "bytes \<Rightarrow> nat" where "ld64le p = le_value (take 8 p)"
definition ld32le :: "bytes \<Rightarrow> nat" where "ld32le p = le_value (take 4 p)"
definition st64le :: "nat \<Rightarrow> bytes" where "st64le v = le_bytes 8 v"

section \<open>Three limbs of 44 bits\<close>

abbreviation M44 :: nat where "M44 \<equiv> 0xfffffffffff"
abbreviation M42 :: nat where "M42 \<equiv> 0x3ffffffffff"

record limbs44 =
  q_r0 :: nat
  q_r1 :: nat
  q_r2 :: nat
  q_h0 :: nat
  q_h1 :: nat
  q_h2 :: nat
  q_pad0 :: nat
  q_pad1 :: nat

definition setup44 :: "bytes \<Rightarrow> limbs44" where
  "setup44 key =
     (let t0 = ld64le key; t1 = ld64le (drop 8 key) in
      \<lparr>q_r0 = t0 AND 0xffc0fffffff, q_r1 = (drop_bit 44 t0 OR w64 (push_bit 20 t1)) AND 0xfffffc0ffff, q_r2 = drop_bit 24 t1 AND 0x00ffffffc0f,
       q_h0 = 0, q_h1 = 0, q_h2 = 0, q_pad0 = ld64le (drop 16 key), q_pad1 = ld64le (drop 24 key)\<rparr>)"

text \<open>The products of a block, and the carries through the limbs.\<close>

definition mul44 :: "nat \<Rightarrow> nat \<Rightarrow> nat \<Rightarrow> nat \<Rightarrow> nat \<Rightarrow> nat \<Rightarrow> nat \<times> nat \<times> nat" where
  "mul44 r0 r1 r2 h0 h1 h2 =
     (let s1 = w64 (r1 * 20); s2 = w64 (r2 * 20)
      in (w128 (h0 * r0 + h1 * s2 + h2 * s1), w128 (h0 * r1 + h1 * r0 + h2 * s2), w128 (h0 * r2 + h1 * r1 + h2 * r0)))"

definition carry44 :: "nat \<times> nat \<times> nat \<Rightarrow> nat \<times> nat \<times> nat" where
  "carry44 d =
     (let (d0, d1, d2) = d;
          c = w64 (drop_bit 44 d0); h0 = w64 d0 AND M44; d1 = w128 (d1 + c);
          c = w64 (drop_bit 44 d1); h1 = w64 d1 AND M44; d2 = w128 (d2 + c);
          c = w64 (drop_bit 42 d2); h2 = w64 d2 AND M42; h0 = w64 (h0 + w64 (c * 5));
          c = drop_bit 44 h0; h0 = h0 AND M44; h1 = w64 (h1 + c)
      in (h0, h1, h2))"

definition block44 :: "bool \<Rightarrow> bytes \<Rightarrow> limbs44 \<Rightarrow> limbs44" where
  "block44 full m l =
     (let hibit = (if full then 2 ^ 40 else 0); t0 = ld64le m; t1 = ld64le (drop 8 m);
          h0 = w64 (q_h0 l + (t0 AND M44));
          h1 = w64 (q_h1 l + ((drop_bit 44 t0 OR w64 (push_bit 20 t1)) AND M44));
          h2 = w64 (q_h2 l + ((drop_bit 24 t1 AND M42) OR hibit));
          (h0, h1, h2) = carry44 (mul44 (q_r0 l) (q_r1 l) (q_r2 l) h0 h1 h2)
      in l\<lparr>q_h0 := h0, q_h1 := h1, q_h2 := h2\<rparr>)"

text \<open>The carries of \<^verbatim>\<open>poly_done\<close>, which the code writes out twice.\<close>

definition chain44 :: "nat \<times> nat \<times> nat \<Rightarrow> nat \<times> nat \<times> nat" where
  "chain44 h =
     (let (h0, h1, h2) = h;
          c = drop_bit 44 h1; h1 = h1 AND M44; h2 = w64 (h2 + c);
          c = drop_bit 42 h2; h2 = h2 AND M42; h0 = w64 (h0 + w64 (c * 5));
          c = drop_bit 44 h0; h0 = h0 AND M44; h1 = w64 (h1 + c)
      in (h0, h1, h2))"

definition settle44 :: "nat \<times> nat \<times> nat \<Rightarrow> nat \<times> nat \<times> nat" where "settle44 h = chain44 (chain44 h)"

text \<open>The number or the number less the modulus, chosen by a mask.\<close>

definition select44 :: "nat \<times> nat \<times> nat \<Rightarrow> nat \<times> nat \<times> nat" where
  "select44 h =
     (let (h0, h1, h2) = h;
          g0 = w64 (h0 + 5); c = drop_bit 44 g0; g0 = g0 AND M44;
          g1 = w64 (h1 + c); c = drop_bit 44 g1; g1 = g1 AND M44;
          g2 = w64 (h2 + c + 2 ^ 64 - 2 ^ 42);
          c = w64 (drop_bit 63 g2 + 2 ^ 64 - 1);
          g0 = g0 AND c; g1 = g1 AND c; g2 = g2 AND c; c = not64 c
      in ((h0 AND c) OR g0, (h1 AND c) OR g1, (h2 AND c) OR g2))"

definition tag44 :: "limbs44 \<Rightarrow> bytes" where
  "tag44 l =
     (let (h0, h1, h2) = select44 (settle44 (q_h0 l, q_h1 l, q_h2 l)); t0 = q_pad0 l; t1 = q_pad1 l;
          h0 = w64 (h0 + (t0 AND M44)); c = drop_bit 44 h0; h0 = h0 AND M44;
          h1 = w64 (h1 + w64 (((drop_bit 44 t0 OR w64 (push_bit 20 t1)) AND M44) + c)); c = drop_bit 44 h1; h1 = h1 AND M44;
          h2 = w64 (h2 + w64 ((drop_bit 24 t1 AND M42) + c)); h2 = h2 AND M42
      in st64le (h0 OR w64 (push_bit 44 h1)) @ st64le (drop_bit 20 h1 OR w64 (push_bit 24 h2)))"

section \<open>Five limbs of 26 bits\<close>

abbreviation M26 :: nat where "M26 \<equiv> 0x03ffffff"

record limbs26 =
  f_r :: "nat \<times> nat \<times> nat \<times> nat \<times> nat"
  f_h :: "nat \<times> nat \<times> nat \<times> nat \<times> nat"
  f_pad :: "nat \<times> nat \<times> nat \<times> nat"

definition setup26 :: "bytes \<Rightarrow> limbs26" where
  "setup26 key =
     \<lparr>f_r = (ld32le key AND 0x03ffffff, drop_bit 2 (ld32le (drop 3 key)) AND 0x03ffff03, drop_bit 4 (ld32le (drop 6 key)) AND 0x03ffc0ff,
             drop_bit 6 (ld32le (drop 9 key)) AND 0x03f03fff, drop_bit 8 (ld32le (drop 12 key)) AND 0x000fffff),
      f_h = (0, 0, 0, 0, 0),
      f_pad = (ld32le (drop 16 key), ld32le (drop 20 key), ld32le (drop 24 key), ld32le (drop 28 key))\<rparr>"

definition mul26 :: "nat \<times> nat \<times> nat \<times> nat \<times> nat \<Rightarrow> nat \<times> nat \<times> nat \<times> nat \<times> nat \<Rightarrow> nat \<times> nat \<times> nat \<times> nat \<times> nat" where
  "mul26 r h =
     (let (r0, r1, r2, r3, r4) = r; (h0, h1, h2, h3, h4) = h;
          s1 = w32 (r1 * 5); s2 = w32 (r2 * 5); s3 = w32 (r3 * 5); s4 = w32 (r4 * 5)
      in (w64 (h0 * r0 + h1 * s4 + h2 * s3 + h3 * s2 + h4 * s1), w64 (h0 * r1 + h1 * r0 + h2 * s4 + h3 * s3 + h4 * s2),
          w64 (h0 * r2 + h1 * r1 + h2 * r0 + h3 * s4 + h4 * s3), w64 (h0 * r3 + h1 * r2 + h2 * r1 + h3 * r0 + h4 * s4),
          w64 (h0 * r4 + h1 * r3 + h2 * r2 + h3 * r1 + h4 * r0)))"

definition carry26 :: "nat \<times> nat \<times> nat \<times> nat \<times> nat \<Rightarrow> nat \<times> nat \<times> nat \<times> nat \<times> nat" where
  "carry26 d =
     (let (d0, d1, d2, d3, d4) = d;
          c = w32 (drop_bit 26 d0); h0 = w32 d0 AND M26; d1 = w64 (d1 + c);
          c = w32 (drop_bit 26 d1); h1 = w32 d1 AND M26; d2 = w64 (d2 + c);
          c = w32 (drop_bit 26 d2); h2 = w32 d2 AND M26; d3 = w64 (d3 + c);
          c = w32 (drop_bit 26 d3); h3 = w32 d3 AND M26; d4 = w64 (d4 + c);
          c = w32 (drop_bit 26 d4); h4 = w32 d4 AND M26; h0 = w32 (h0 + w32 (c * 5));
          c = drop_bit 26 h0; h0 = h0 AND M26; h1 = w32 (h1 + c)
      in (h0, h1, h2, h3, h4))"

definition block26 :: "bool \<Rightarrow> bytes \<Rightarrow> limbs26 \<Rightarrow> limbs26" where
  "block26 full m l =
     (let hibit = (if full then 2 ^ 24 else 0); (h0, h1, h2, h3, h4) = f_h l;
          h0 = w32 (h0 + (ld32le m AND M26));
          h1 = w32 (h1 + (drop_bit 2 (ld32le (drop 3 m)) AND M26));
          h2 = w32 (h2 + (drop_bit 4 (ld32le (drop 6 m)) AND M26));
          h3 = w32 (h3 + (drop_bit 6 (ld32le (drop 9 m)) AND M26));
          h4 = w32 (h4 + (drop_bit 8 (ld32le (drop 12 m)) OR hibit))
      in l\<lparr>f_h := carry26 (mul26 (f_r l) (h0, h1, h2, h3, h4))\<rparr>)"

definition settle26 :: "nat \<times> nat \<times> nat \<times> nat \<times> nat \<Rightarrow> nat \<times> nat \<times> nat \<times> nat \<times> nat" where
  "settle26 h =
     (let (h0, h1, h2, h3, h4) = h;
          c = drop_bit 26 h1; h1 = h1 AND M26; h2 = w32 (h2 + c);
          c = drop_bit 26 h2; h2 = h2 AND M26; h3 = w32 (h3 + c);
          c = drop_bit 26 h3; h3 = h3 AND M26; h4 = w32 (h4 + c);
          c = drop_bit 26 h4; h4 = h4 AND M26; h0 = w32 (h0 + w32 (c * 5));
          c = drop_bit 26 h0; h0 = h0 AND M26; h1 = w32 (h1 + c)
      in (h0, h1, h2, h3, h4))"

definition select26 :: "nat \<times> nat \<times> nat \<times> nat \<times> nat \<Rightarrow> nat \<times> nat \<times> nat \<times> nat \<times> nat" where
  "select26 h =
     (let (h0, h1, h2, h3, h4) = h;
          g0 = w32 (h0 + 5); c = drop_bit 26 g0; g0 = g0 AND M26;
          g1 = w32 (h1 + c); c = drop_bit 26 g1; g1 = g1 AND M26;
          g2 = w32 (h2 + c); c = drop_bit 26 g2; g2 = g2 AND M26;
          g3 = w32 (h3 + c); c = drop_bit 26 g3; g3 = g3 AND M26;
          g4 = w32 (h4 + c + 2 ^ 32 - 2 ^ 26);
          mk = w32 (drop_bit 31 g4 + 2 ^ 32 - 1);
          g0 = g0 AND mk; g1 = g1 AND mk; g2 = g2 AND mk; g3 = g3 AND mk; g4 = g4 AND mk; mk = not32 mk
      in ((h0 AND mk) OR g0, (h1 AND mk) OR g1, (h2 AND mk) OR g2, (h3 AND mk) OR g3, (h4 AND mk) OR g4))"

definition tag26 :: "limbs26 \<Rightarrow> bytes" where
  "tag26 l =
     (let (h0, h1, h2, h3, h4) = select26 (settle26 (f_h l)); (p0, p1, p2, p3) = f_pad l;
          h0 = (h0 OR w32 (push_bit 26 h1)) AND 0xffffffff;
          h1 = (drop_bit 6 h1 OR w32 (push_bit 20 h2)) AND 0xffffffff;
          h2 = (drop_bit 12 h2 OR w32 (push_bit 14 h3)) AND 0xffffffff;
          h3 = (drop_bit 18 h3 OR w32 (push_bit 8 h4)) AND 0xffffffff;
          f = w64 (h0 + p0); h0 = w32 f;
          f = w64 (h1 + p1 + drop_bit 32 f); h1 = w32 f;
          f = w64 (h2 + p2 + drop_bit 32 f); h2 = w32 f;
          f = w64 (h3 + p3 + drop_bit 32 f); h3 = w32 f
      in st64le (h0 OR w64 (push_bit 32 h1)) @ st64le (h2 OR w64 (push_bit 32 h3)))"

section \<open>Streaming\<close>

text \<open>The state of either layout with the bytes of a partial block.\<close>

record 'l poly =
  po_limbs :: 'l
  po_buf :: bytes

text \<open>Whole blocks, as the loop of \<^verbatim>\<open>poly_run\<close> takes them.\<close>

function poly_run :: "(bool \<Rightarrow> bytes \<Rightarrow> 'l \<Rightarrow> 'l) \<Rightarrow> bool \<Rightarrow> bytes \<Rightarrow> 'l \<Rightarrow> 'l" where
  "poly_run block full m l = (if length m < 16 then l else poly_run block full (drop 16 m) (block full (take 16 m) l))"
  by pat_completeness auto
termination by (relation "measure (\<lambda>(_, _, m, _). length m)") auto

declare poly_run.simps [simp del]

definition poly_update :: "(bool \<Rightarrow> bytes \<Rightarrow> 'l \<Rightarrow> 'l) \<Rightarrow> 'l poly \<Rightarrow> bytes \<Rightarrow> 'l poly" where
  "poly_update block st m =
     (let (st, m) =
            (if po_buf st \<noteq> []
             then (let n = min (16 - length (po_buf st)) (length m); st = st\<lparr>po_buf := po_buf st @ take n m\<rparr>
                   in (if length (po_buf st) = 16 then st\<lparr>po_limbs := poly_run block True (po_buf st) (po_limbs st), po_buf := []\<rparr> else st, drop n m))
             else (st, m));
          whole = length m - length m mod 16;
          (st, m) = (if length m \<ge> 16 then (st\<lparr>po_limbs := poly_run block True (take whole m) (po_limbs st)\<rparr>, drop whole m) else (st, m))
      in if m \<noteq> [] then st\<lparr>po_buf := m\<rparr> else st)"

text \<open>The last block carries its end mark in the buffer.\<close>

definition poly_done :: "(bool \<Rightarrow> bytes \<Rightarrow> 'l \<Rightarrow> 'l) \<Rightarrow> ('l \<Rightarrow> bytes) \<Rightarrow> 'l poly \<Rightarrow> bytes" where
  "poly_done block tag st =
     tag (if po_buf st \<noteq> []
          then poly_run block False (po_buf st @ [1] @ replicate (15 - length (po_buf st)) 0) (po_limbs st)
          else po_limbs st)"

definition qn_poly1305_init :: "bytes \<Rightarrow> limbs44 poly" where
  "qn_poly1305_init key = \<lparr>po_limbs = setup44 key, po_buf = []\<rparr>"

definition qn_poly1305_update :: "limbs44 poly \<Rightarrow> bytes \<Rightarrow> limbs44 poly" where
  "qn_poly1305_update st m = poly_update block44 st m"

definition qn_poly1305_final :: "limbs44 poly \<Rightarrow> bytes" where
  "qn_poly1305_final st = poly_done block44 tag44 st"

text \<open>The same operations where there are no 128-bit products.\<close>

definition poly1305_init26 :: "bytes \<Rightarrow> limbs26 poly" where
  "poly1305_init26 key = \<lparr>po_limbs = setup26 key, po_buf = []\<rparr>"

definition poly1305_update26 :: "limbs26 poly \<Rightarrow> bytes \<Rightarrow> limbs26 poly" where
  "poly1305_update26 st m = poly_update block26 st m"

definition poly1305_final26 :: "limbs26 poly \<Rightarrow> bytes" where
  "poly1305_final26 st = poly_done block26 tag26 st"

end
