(* ===== verification/Poly1305_Limbs.thy ===== *)
theory Poly1305_Limbs
  imports Poly1305
begin

text \<open>
  Both limb layouts compute with numbers modulo \<open>2 ^ 130 - 5\<close>: no operation wraps around, carries keep
  the residue, and the tag is the residue plus the pad.  The two layouts meet the interface of the
  authenticator in \<^verbatim>\<open>Poly1305_Exact\<close>.
\<close>

section \<open>Arithmetic\<close>

abbreviation P :: nat where "P \<equiv> 2 ^ 130 - 5"

lemma mod_add_multiple: "a + P * c = b \<Longrightarrow> a mod P = b mod P" by auto

text \<open>Carries through three limbs of base \<open>A\<close>, the top one of base \<open>B\<close> folded back as five.\<close>

lemma carry_three_eq:
  fixes A B :: nat
  assumes "d0 = x0 + A * y0" "d1 + y0 = x1 + A * y1" "d2 + y1 = x2 + B * c" "x0 + 5 * c = xg + A * yg"
  shows "xg + A * (x1 + yg) + A * A * x2 + A * A * B * c = d0 + A * d1 + A * A * d2 + 5 * c"
proof -
  have "xg + A * (x1 + yg) + A * A * x2 + A * A * B * c = (xg + A * yg) + A * x1 + A * A * (x2 + B * c)" by (simp add: algebra_simps)
  also have "\<dots> = x0 + 5 * c + A * (x1 + A * y1) + A * A * d2" unfolding assms(3,4) [symmetric] by (simp add: algebra_simps)
  also have "\<dots> = d0 + A * d1 + A * A * d2 + 5 * c" unfolding assms(2) [symmetric] assms(1) by (simp add: algebra_simps)
  finally show ?thesis .
qed

lemma carry_three:
  fixes A B d0 d1 d2 :: nat
  defines "e1 \<equiv> d1 + d0 div A" defines "e2 \<equiv> d2 + e1 div A" defines "c \<equiv> e2 div B" defines "g \<equiv> d0 mod A + 5 * c"
  shows "g mod A + A * (e1 mod A + g div A) + A * A * (e2 mod B) + A * A * B * c = d0 + A * d1 + A * A * d2 + 5 * c"
proof (rule carry_three_eq)
  show "d0 = d0 mod A + A * (d0 div A)" by simp
  show "d1 + d0 div A = e1 mod A + A * (e1 div A)" by (simp add: e1_def)
  show "d2 + e1 div A = e2 mod B + B * c" by (simp add: e2_def c_def)
  show "d0 mod A + 5 * c = g mod A + A * (g div A)" by (simp add: g_def)
qed

lemma mod_small: "x < a \<Longrightarrow> a \<le> b \<Longrightarrow> x mod b = x" for x a b :: nat by simp

section \<open>Three limbs\<close>

definition val44 :: "nat \<times> nat \<times> nat \<Rightarrow> nat" where
  "val44 h = (case h of (h0, h1, h2) \<Rightarrow> h0 + 2 ^ 44 * h1 + 2 ^ 88 * h2)"

lemma bits44:
  "x AND M44 = x mod 2 ^ 44" "x AND M42 = x mod 2 ^ 42" "x mod 2 ^ 64 mod 2 ^ 44 = x mod (2 ^ 44 :: nat)" "x mod 2 ^ 64 mod 2 ^ 42 = x mod (2 ^ 42 :: nat)"
  using and_mask [of x 44] and_mask [of x 42] by (simp_all add: mod_mod_cancel)

lemma carry44_value:
  assumes "d0 < 2 ^ 100" "d1 < 2 ^ 100" "d2 < 2 ^ 100" "carry44 (d0, d1, d2) = (h0, h1, h2)"
  shows "h0 < 2 ^ 44 \<and> h1 < 2 ^ 45 \<and> h2 < 2 ^ 42 \<and> val44 (h0, h1, h2) mod P = val44 (d0, d1, d2) mod P"
proof -
  define e1 where "e1 = d1 + d0 div 2 ^ 44"
  define e2 where "e2 = d2 + e1 div 2 ^ 44"
  define c where "c = e2 div 2 ^ 42"
  define g where "g = d0 mod 2 ^ 44 + 5 * c"
  have b1: "d0 div 2 ^ 44 < 2 ^ 56" using assms(1) by (intro div_bound) simp
  then have b2: "e1 < 2 ^ 101" using assms(2) by (simp add: e1_def)
  then have b3: "e1 div 2 ^ 44 < 2 ^ 57" by (intro div_bound) simp
  then have b4: "e2 < 2 ^ 101" using assms(3) by (simp add: e2_def)
  then have b5: "c < 2 ^ 59" unfolding c_def by (intro div_bound) simp
  then have b6: "g < 2 ^ 62" using mod_less_divisor [of "2 ^ 44" d0] by (simp add: g_def)
  then have b7: "g div 2 ^ 44 < 2 ^ 18" by (intro div_bound) simp
  have "carry44 (d0, d1, d2) = (g mod 2 ^ 44, e1 mod 2 ^ 44 + g div 2 ^ 44, e2 mod 2 ^ 42)"
  proof -
    have w1: "w64 (drop_bit 44 d0) = d0 div 2 ^ 44" unfolding drop_bit_eq_div by (rule mod_small [OF b1]) simp
    have w2: "w128 (d1 + d0 div 2 ^ 44) = e1" unfolding e1_def [symmetric] by (rule mod_small [OF b2]) simp
    have w3: "w64 (drop_bit 44 e1) = e1 div 2 ^ 44" unfolding drop_bit_eq_div by (rule mod_small [OF b3]) simp
    have w4: "w128 (d2 + e1 div 2 ^ 44) = e2" unfolding e2_def [symmetric] by (rule mod_small [OF b4]) simp
    have w5: "w64 (drop_bit 42 e2) = c" unfolding drop_bit_eq_div c_def [symmetric] by (rule mod_small [OF b5]) simp
    have w6: "w64 (c * 5) = 5 * c" using b5 by (subst mult.commute) (intro mod_less, simp)
    have w7: "w64 (d0 mod 2 ^ 44 + 5 * c) = g" unfolding g_def [symmetric] by (rule mod_small [OF b6]) simp
    have "e1 mod 2 ^ 44 + g div 2 ^ 44 < 2 ^ 44 + 2 ^ 18" using b7 by (intro add_strict_mono) simp_all
    then have w8: "w64 (e1 mod 2 ^ 44 + g div 2 ^ 44) = e1 mod 2 ^ 44 + g div 2 ^ 44" by (rule mod_small) simp
    show ?thesis unfolding carry44_def Let_def prod.case bits44 w1 w2 w3 w4 w5 w6 w7 w8 drop_bit_eq_div [of 44 g] by (simp only: g_def)
  qed
  then have h: "h0 = g mod 2 ^ 44" "h1 = e1 mod 2 ^ 44 + g div 2 ^ 44" "h2 = e2 mod 2 ^ 42" using assms(4) by auto
  have "val44 (h0, h1, h2) + P * c = val44 (d0, d1, d2)"
    using carry_three [where A = "2 ^ 44" and B = "2 ^ 42" and ?d0.0 = d0 and ?d1.0 = d1 and ?d2.0 = d2] unfolding e1_def [symmetric] e2_def [symmetric] c_def [symmetric] g_def [symmetric] h [symmetric]
    by (simp add: val44_def diff_mult_distrib)
  then have "val44 (h0, h1, h2) mod P = val44 (d0, d1, d2) mod P" by (rule mod_add_multiple)
  moreover have "h1 < 2 ^ 45" unfolding h using b7 mod_less_divisor [of "2 ^ 44" e1] by simp
  ultimately show ?thesis by (simp add: h)
qed

lemma mul_bound: "a < m \<Longrightarrow> b < n \<Longrightarrow> a * b < m * n" for a b m n :: nat
  by (rule mult_strict_mono) auto

lemma mul44_value:
  assumes "h0 < 2 ^ 45" "h1 < 2 ^ 46" "h2 < 2 ^ 43" "r0 < 2 ^ 44" "r1 < 2 ^ 44" "r2 < 2 ^ 36"
  shows "\<exists>d0 d1 d2. mul44 r0 r1 r2 h0 h1 h2 = (d0, d1, d2) \<and> d0 < 2 ^ 100 \<and> d1 < 2 ^ 100 \<and> d2 < 2 ^ 100 \<and>
    val44 (d0, d1, d2) mod P = val44 (h0, h1, h2) * val44 (r0, r1, r2) mod P"
proof -
  have s: "w64 (r1 * 20) = r1 * 20" "w64 (r2 * 20) = r2 * 20" "r1 * 20 < 2 ^ 49" "r2 * 20 < 2 ^ 41" using assms(5,6) by simp_all
  define d0 d1 d2 where "d0 = h0 * r0 + h1 * (r2 * 20) + h2 * (r1 * 20)" and "d1 = h0 * r1 + h1 * r0 + h2 * (r2 * 20)"
    and "d2 = h0 * r2 + h1 * r1 + h2 * r0"
  note m = mul_bound [OF assms(1) assms(4)] mul_bound [OF assms(2) s(4)] mul_bound [OF assms(3) s(3)] mul_bound [OF assms(1) assms(5)]
    mul_bound [OF assms(2) assms(4)] mul_bound [OF assms(3) s(4)] mul_bound [OF assms(1) assms(6)] mul_bound [OF assms(2) assms(5)] mul_bound [OF assms(3) assms(4)]
  have b: "d0 < 2 ^ 100" "d1 < 2 ^ 100" "d2 < 2 ^ 100" unfolding d0_def d1_def d2_def using m by simp_all
  have "mul44 r0 r1 r2 h0 h1 h2 = (w128 d0, w128 d1, w128 d2)" unfolding mul44_def Let_def s d0_def d1_def d2_def ..
  then have e: "mul44 r0 r1 r2 h0 h1 h2 = (d0, d1, d2)" using b by simp
  have "val44 (d0, d1, d2) + P * (4 * (h1 * r2 + h2 * r1 + 2 ^ 44 * (h2 * r2))) = val44 (h0, h1, h2) * val44 (r0, r1, r2)"
    by (simp add: val44_def d0_def d1_def d2_def algebra_simps)
  then have "val44 (d0, d1, d2) mod P = val44 (h0, h1, h2) * val44 (r0, r1, r2) mod P" by (rule mod_add_multiple)
  then show ?thesis using e b by blast
qed

text \<open>The limbs of sixteen bytes.\<close>

lemma sixteen:
  assumes "length m = 16"
  shows "le_value m = ld64le m + 2 ^ 64 * ld64le (drop 8 m)" "ld64le m < 2 ^ 64" "ld64le (drop 8 m) < 2 ^ 64"
  using le_value_append [of "take 8 m" "drop 8 m"] le_value_less [of "take 8 m"] le_value_less [of "take 8 (drop 8 m)"] assms by (simp_all add: ld64le_def)

lemma limb44_0: "t0 mod 2 ^ 44 = (t0 + 2 ^ 64 * t1) mod 2 ^ 44" for t0 t1 :: nat
proof -
  have "t0 + 2 ^ 64 * t1 = t0 + 2 ^ 44 * (2 ^ 20 * t1)" by simp
  then show ?thesis by (simp only: mod_mult_self2)
qed

lemma limb44_1:
  fixes t0 t1 :: nat
  assumes "t0 < 2 ^ 64"
  shows "(drop_bit 44 t0 OR w64 (push_bit 20 t1)) mod 2 ^ 44 = (t0 + 2 ^ 64 * t1) div 2 ^ 44 mod 2 ^ 44"
proof -
  have a: "drop_bit 44 t0 < 2 ^ 20" unfolding drop_bit_eq_div using assms by (intro div_bound) simp
  have b: "w64 (push_bit 20 t1) = 2 ^ 20 * (t1 mod 2 ^ 44)" by (simp add: push_bit_eq_mult mult.commute mult_mod_right)
  have "(drop_bit 44 t0 OR w64 (push_bit 20 t1)) mod 2 ^ 44 = (drop_bit 44 t0 + w64 (push_bit 20 t1)) mod 2 ^ 44"
    unfolding b using or_plus [OF a] by simp
  also have "\<dots> = (t0 div 2 ^ 44 + w64 (2 ^ 20 * t1) mod 2 ^ 44) mod 2 ^ 44" by (simp only: drop_bit_eq_div push_bit_eq_mult mod_add_right_eq mult.commute)
  also have "\<dots> = (t0 div 2 ^ 44 + 2 ^ 20 * t1) mod 2 ^ 44" by (simp only: bits44(3) mod_add_right_eq)
  also have "t0 div 2 ^ 44 + 2 ^ 20 * t1 = (t0 + 2 ^ 64 * t1) div 2 ^ 44"
  proof -
    have "t0 + 2 ^ 64 * t1 = t0 + 2 ^ 44 * (2 ^ 20 * t1)" by simp
    then show ?thesis by (simp only: div_mult_self2) simp
  qed
  finally show ?thesis .
qed

lemma limb44_2:
  fixes t0 t1 :: nat
  assumes "t0 < 2 ^ 64" "t1 < 2 ^ 64"
  shows "drop_bit 24 t1 = (t0 + 2 ^ 64 * t1) div 2 ^ 88" "drop_bit 24 t1 < 2 ^ 40"
proof -
  have "(t0 + 2 ^ 64 * t1) div (2 ^ 64 * 2 ^ 24) = t1 div 2 ^ 24" using assms(1) by (simp only: div_mult2_eq div_mult_self2) simp
  then show "drop_bit 24 t1 = (t0 + 2 ^ 64 * t1) div 2 ^ 88" by (simp add: drop_bit_eq_div)
  show "drop_bit 24 t1 < 2 ^ 40" unfolding drop_bit_eq_div using assms(2) by (intro div_bound) simp
qed

lemma digits44: "t mod 2 ^ 44 + 2 ^ 44 * (t div 2 ^ 44 mod 2 ^ 44) + 2 ^ 88 * (t div 2 ^ 88) = (t :: nat)"
proof -
  have *: "x + A * y + B * z = t" if "A * A = B" "t = x + A * q" "q = y + A * z" for x y z q A B :: nat
    using that by (simp add: algebra_simps)
  have e: "t div 2 ^ 44 div 2 ^ 44 = t div 2 ^ 88" by (simp add: div_mult2_eq [symmetric])
  have "t div 2 ^ 44 = t div 2 ^ 44 mod 2 ^ 44 + 2 ^ 44 * (t div 2 ^ 88)" unfolding e [symmetric] by (rule mod_mult_div_eq [symmetric])
  then show ?thesis by (rule * [rotated 2]) simp_all
qed

definition ok44 :: "bytes \<Rightarrow> limbs44 \<Rightarrow> bool" where
  "ok44 key l \<longleftrightarrow> q_h0 l < 2 ^ 44 \<and> q_h1 l < 2 ^ 45 \<and> q_h2 l < 2 ^ 42 \<and> q_r0 l < 2 ^ 44 \<and> q_r1 l < 2 ^ 44 \<and> q_r2 l < 2 ^ 36 \<and>
     val44 (q_r0 l, q_r1 l, q_r2 l) = le_value (take 16 key) AND 0x0ffffffc0ffffffc0ffffffc0fffffff \<and>
     q_pad0 l = ld64le (drop 16 key) \<and> q_pad1 l = ld64le (drop 24 key)"

definition num44 :: "limbs44 \<Rightarrow> nat" where "num44 l = val44 (q_h0 l, q_h1 l, q_h2 l)"

lemma block44_ok:
  assumes ok: "ok44 key l" and m: "length m = 16"
  shows "ok44 key (block44 full m l) \<and>
    num44 (block44 full m l) mod P = (num44 l + le_value m + (if full then 2 ^ 128 else 0)) * (le_value (take 16 key) AND 0x0ffffffc0ffffffc0ffffffc0fffffff) mod P"
proof -
  define t where "t = le_value m"
  define top2 where "top2 = t div 2 ^ 88 + (if full then 2 ^ 40 else 0)"
  note x = sixteen [OF m, folded t_def]
  have t: "t = ld64le m + 2 ^ 64 * ld64le (drop 8 m)" by (rule x(1))
  have a0: "ld64le m AND M44 = t mod 2 ^ 44" unfolding t bits44 by (rule limb44_0)
  have a1: "(drop_bit 44 (ld64le m) OR w64 (push_bit 20 (ld64le (drop 8 m)))) AND M44 = t div 2 ^ 44 mod 2 ^ 44"
    unfolding bits44 t by (rule limb44_1 [OF x(2)])
  note l2 = limb44_2 [OF x(2,3), folded t]
  have a2: "(drop_bit 24 (ld64le (drop 8 m)) AND M42) OR (if full then 2 ^ 40 else 0) = top2"
  proof -
    have "drop_bit 24 (ld64le (drop 8 m)) AND M42 = t div 2 ^ 88" unfolding bits44 using l2 by simp
    moreover have "t div 2 ^ 88 OR 2 ^ 40 = t div 2 ^ 88 + 2 ^ 40" using or_plus [of "t div 2 ^ 88" 40 1] l2 by simp
    ultimately show ?thesis by (simp add: top2_def)
  qed
  have t2: "top2 < 2 ^ 41" using l2 by (simp add: top2_def)
  define h0 h1 h2 where "h0 = q_h0 l + t mod 2 ^ 44" and "h1 = q_h1 l + t div 2 ^ 44 mod 2 ^ 44" and "h2 = q_h2 l + top2"
  have "h0 < 2 ^ 44 + 2 ^ 44" unfolding h0_def using ok by (intro add_strict_mono) (simp_all add: ok44_def)
  moreover have "h1 < 2 ^ 45 + 2 ^ 44" unfolding h1_def using ok by (intro add_strict_mono) (simp_all add: ok44_def)
  ultimately have b: "h0 < 2 ^ 45" "h1 < 2 ^ 46" "h2 < 2 ^ 43" using ok t2 by (simp_all add: ok44_def h2_def)
  have w: "w64 (q_h0 l + t mod 2 ^ 44) = h0" "w64 (q_h1 l + t div 2 ^ 44 mod 2 ^ 44) = h1" "w64 (q_h2 l + top2) = h2"
    unfolding h0_def [symmetric] h1_def [symmetric] h2_def [symmetric] by (rule mod_small [OF b(1)], simp, rule mod_small [OF b(2)], simp, rule mod_small [OF b(3)], simp)
  have r: "q_r0 l < 2 ^ 44" "q_r1 l < 2 ^ 44" "q_r2 l < 2 ^ 36" using ok by (simp_all add: ok44_def)
  obtain d0 d1 d2 where d: "mul44 (q_r0 l) (q_r1 l) (q_r2 l) h0 h1 h2 = (d0, d1, d2)" "d0 < 2 ^ 100" "d1 < 2 ^ 100" "d2 < 2 ^ 100"
      "val44 (d0, d1, d2) mod P = val44 (h0, h1, h2) * val44 (q_r0 l, q_r1 l, q_r2 l) mod P"
    using mul44_value [OF b r] by blast
  obtain k0 k1 k2 where k: "carry44 (d0, d1, d2) = (k0, k1, k2)" by (metis prod_cases3)
  note c = carry44_value [OF d(2-4) k]
  have e: "block44 full m l = l\<lparr>q_h0 := k0, q_h1 := k1, q_h2 := k2\<rparr>"
    unfolding block44_def Let_def a0 a1 a2 w d(1) k prod.case ..
  have v: "val44 (h0, h1, h2) = num44 l + t + (if full then 2 ^ 128 else 0)"
    using digits44 [of t] by (simp add: val44_def num44_def h0_def h1_def h2_def top2_def algebra_simps)
  show ?thesis using ok c d(5) v by (simp add: e ok44_def num44_def t_def)
qed

lemma and_bound: "x AND m \<le> m" for x m :: nat
proof -
  have "int (x AND m) \<le> int m" by (simp add: of_nat_and_eq AND_upper2)
  then show ?thesis by simp
qed

lemma clamp44:
  fixes t :: nat
  shows "t AND 0x0ffffffc0ffffffc0ffffffc0fffffff =
    (t mod 2 ^ 44 AND 0xffc0fffffff) + 2 ^ 44 * ((t div 2 ^ 44 mod 2 ^ 44 AND 0xfffffc0ffff) + 2 ^ 44 * (t div 2 ^ 88 AND 0x00ffffffc0f))"
proof -
  have "t div 2 ^ 44 div 2 ^ 44 = t div 2 ^ 88" by (simp add: div_mult2_eq [symmetric])
  then show ?thesis
    by (subst and_split [of _ _ 44], subst (2) and_split [of _ _ 44]) simp
qed

lemma setup44_ok:
  assumes "length key = 32"
  shows "ok44 key (setup44 key) \<and> num44 (setup44 key) = 0"
proof -
  let ?m = "take 16 key"
  define t where "t = le_value ?m"
  have m: "length ?m = 16" using assms by simp
  have l: "ld64le ?m = ld64le key" "ld64le (drop 8 ?m) = ld64le (drop 8 key)" by (simp_all add: ld64le_def drop_take)
  note x = sixteen [OF m, folded t_def, unfolded l]
  have r0: "ld64le key AND 0xffc0fffffff = t mod 2 ^ 44 AND 0xffc0fffffff"
    using and_below [of "0xffc0fffffff" 44 "ld64le key"] limb44_0 [of "ld64le key" "ld64le (drop 8 key)"] x(1) by simp
  have r1: "(drop_bit 44 (ld64le key) OR w64 (push_bit 20 (ld64le (drop 8 key)))) AND 0xfffffc0ffff = t div 2 ^ 44 mod 2 ^ 44 AND 0xfffffc0ffff"
    using and_below [of "0xfffffc0ffff" 44 "drop_bit 44 (ld64le key) OR w64 (push_bit 20 (ld64le (drop 8 key)))"] limb44_1 [OF x(2), of "ld64le (drop 8 key)"] x(1) by simp
  have r2: "drop_bit 24 (ld64le (drop 8 key)) = t div 2 ^ 88" using limb44_2 [OF x(2,3)] x(1) by simp
  have b: "x AND 0xffc0fffffff < 2 ^ 44" "x AND 0xfffffc0ffff < 2 ^ 44" "x AND 0x00ffffffc0f < 2 ^ 36" for x :: nat
    using and_bound [of x "0xffc0fffffff"] and_bound [of x "0xfffffc0ffff"] and_bound [of x "0x00ffffffc0f"] by simp_all
  show ?thesis using b clamp44 [of t] unfolding setup44_def Let_def r0 r1 r2 by (simp add: ok44_def num44_def val44_def t_def)
qed

text \<open>One pass of carries keeps the residue; after two passes every limb is within its width.\<close>

definition pass44 :: "nat \<times> nat \<times> nat \<Rightarrow> nat \<times> nat \<times> nat" where
  "pass44 h = (case h of (h0, h1, h2) \<Rightarrow>
     (let k2 = h2 + h1 div 2 ^ 44; c = k2 div 2 ^ 42; k0 = h0 + 5 * c in (k0 mod 2 ^ 44, h1 mod 2 ^ 44 + k0 div 2 ^ 44, k2 mod 2 ^ 42)))"

lemma pass_three_eq:
  fixes A B :: nat
  assumes "h1 = x1 + A * y1" "h2 + y1 = x2 + B * c" "h0 + 5 * c = x0 + A * y0"
  shows "x0 + A * (x1 + y0) + A * A * x2 + A * A * B * c = h0 + A * h1 + A * A * h2 + 5 * c"
proof -
  have "x0 + A * (x1 + y0) + A * A * x2 + A * A * B * c = (x0 + A * y0) + A * x1 + A * A * (x2 + B * c)" by (simp add: algebra_simps)
  also have "\<dots> = h0 + 5 * c + A * (x1 + A * y1) + A * A * h2" unfolding assms(2,3) [symmetric] by (simp add: algebra_simps)
  also have "\<dots> = h0 + A * h1 + A * A * h2 + 5 * c" unfolding assms(1) by (simp add: algebra_simps)
  finally show ?thesis .
qed

lemma pass44_value: "val44 (pass44 h) mod P = val44 h mod P"
proof -
  obtain h0 h1 h2 where h: "h = (h0, h1, h2)" by (metis prod_cases3)
  define k2 where "k2 = h2 + h1 div 2 ^ 44"
  define c where "c = k2 div 2 ^ 42"
  define k0 where "k0 = h0 + 5 * c"
  have "k0 mod 2 ^ 44 + 2 ^ 44 * (h1 mod 2 ^ 44 + k0 div 2 ^ 44) + 2 ^ 44 * 2 ^ 44 * (k2 mod 2 ^ 42) + 2 ^ 44 * 2 ^ 44 * 2 ^ 42 * c =
      h0 + 2 ^ 44 * h1 + 2 ^ 44 * 2 ^ 44 * h2 + 5 * c"
  proof (rule pass_three_eq)
    show "h1 = h1 mod 2 ^ 44 + 2 ^ 44 * (h1 div 2 ^ 44)" by simp
    show "h2 + h1 div 2 ^ 44 = k2 mod 2 ^ 42 + 2 ^ 42 * c" unfolding k2_def [symmetric] c_def by (rule mod_mult_div_eq [symmetric])
    show "h0 + 5 * c = k0 mod 2 ^ 44 + 2 ^ 44 * (k0 div 2 ^ 44)" unfolding k0_def [symmetric] by (rule mod_mult_div_eq [symmetric])
  qed
  moreover have "pass44 h = (k0 mod 2 ^ 44, h1 mod 2 ^ 44 + k0 div 2 ^ 44, k2 mod 2 ^ 42)"
    unfolding h pass44_def prod.case Let_def k2_def [symmetric] c_def [symmetric] k0_def [symmetric] ..
  ultimately have "val44 (pass44 h) + P * c = val44 h" unfolding h val44_def by simp
  then show ?thesis by (rule mod_add_multiple)
qed

definition norm44 :: "nat \<times> nat \<times> nat \<Rightarrow> bool" where "norm44 h = (case h of (h0, h1, h2) \<Rightarrow> h0 < 2 ^ 44 \<and> h1 < 2 ^ 44 \<and> h2 < 2 ^ 42)"

lemma pass44_once:
  assumes "h0 < 2 ^ 44" "h1 < 2 ^ 45" "h2 < 2 ^ 42"
  obtains k0 k1 k2 where "pass44 (h0, h1, h2) = (k0, k1, k2)" "k0 < 2 ^ 44" "k1 \<le> 2 ^ 44" "k2 < 2 ^ 42"
    "h1 div 2 ^ 44 = 0 \<longrightarrow> k1 = h1" "h1 = 2 ^ 44 \<longrightarrow> k1 \<le> 1"
proof -
  have y: "h1 div 2 ^ 44 \<le> 1" using div_bound [of h1 "2 ^ 44" 2] assms(2) by simp
  define q where "q = h2 + h1 div 2 ^ 44"
  have q: "q \<le> 2 ^ 42" using y assms(3) by (simp add: q_def)
  then have c: "q div 2 ^ 42 \<le> 1" using div_bound [of q "2 ^ 42" 2] by simp
  define k where "k = h0 + 5 * (q div 2 ^ 42)"
  have "k < 2 ^ 44 * 2" using c assms(1) by (simp add: k_def)
  then have y0: "k div 2 ^ 44 \<le> 1" using div_bound [of k "2 ^ 44" 2] by simp
  have e: "pass44 (h0, h1, h2) = (k mod 2 ^ 44, h1 mod 2 ^ 44 + k div 2 ^ 44, q mod 2 ^ 42)" by (simp add: pass44_def k_def q_def Let_def)
  have "h1 mod 2 ^ 44 < 2 ^ 44" by simp
  then have le: "h1 mod 2 ^ 44 + k div 2 ^ 44 \<le> 2 ^ 44" using y0 by linarith
  have z: "k div 2 ^ 44 = 0" "h1 mod 2 ^ 44 = h1" if "h1 div 2 ^ 44 = 0"
  proof -
    have "q div 2 ^ 42 = 0" using that assms(3) by (simp add: q_def)
    then show "k div 2 ^ 44 = 0" using assms(1) by (simp add: k_def)
    show "h1 mod 2 ^ 44 = h1" using that by (simp add: div_eq_0_iff)
  qed
  show ?thesis
    by (rule that [OF e]) (use le z y0 in auto)
qed

lemma chain44_pass:
  assumes "h0 < 2 ^ 44" "h1 < 2 ^ 45" "h2 < 2 ^ 42"
  shows "chain44 (h0, h1, h2) = pass44 (h0, h1, h2)"
proof -
  have y: "h1 div 2 ^ 44 \<le> 1" using div_bound [of h1 "2 ^ 44" 2] assms(2) by simp
  define q where "q = h2 + h1 div 2 ^ 44"
  have q: "q \<le> 2 ^ 42" using y assms(3) by (simp add: q_def)
  then have c: "q div 2 ^ 42 \<le> 1" using div_bound [of q "2 ^ 42" 2] by simp
  define k where "k = h0 + 5 * (q div 2 ^ 42)"
  have k: "k < 2 ^ 45" using c assms(1) by (simp add: k_def)
  have y0: "k div 2 ^ 44 < 2" using div_bound [of k "2 ^ 44" 2] k by simp
  have w1: "w64 (h2 + h1 div 2 ^ 44) = q" unfolding q_def [symmetric] by (rule mod_less) (use q in simp)
  have w2: "w64 (q div 2 ^ 42 * 5) = 5 * (q div 2 ^ 42)" using c by (subst mult.commute) (intro mod_less, simp)
  have w3: "w64 (h0 + 5 * (q div 2 ^ 42)) = k" unfolding k_def [symmetric] by (rule mod_small [OF k]) simp
  have "h1 mod 2 ^ 44 + k div 2 ^ 44 < 2 ^ 44 + 2" using y0 by (intro add_strict_mono) simp_all
  then have w4: "w64 (h1 mod 2 ^ 44 + k div 2 ^ 44) = h1 mod 2 ^ 44 + k div 2 ^ 44" by (rule mod_small) simp
  show ?thesis
    unfolding chain44_def Let_def prod.case bits44 drop_bit_eq_div w1 w2 w3 w4 unfolding pass44_def prod.case Let_def q_def [symmetric] k_def [symmetric] ..
qed

lemma settle44_norm:
  assumes "h0 < 2 ^ 44" "h1 < 2 ^ 45" "h2 < 2 ^ 42"
  shows "norm44 (settle44 (h0, h1, h2)) \<and> val44 (settle44 (h0, h1, h2)) mod P = val44 (h0, h1, h2) mod P"
proof -
  obtain k0 k1 k2 where k: "pass44 (h0, h1, h2) = (k0, k1, k2)" "k0 < 2 ^ 44" "k1 \<le> 2 ^ 44" "k2 < 2 ^ 42"
    using pass44_once [OF assms] by metis
  have k1: "k1 < 2 ^ 45" using k(3) by simp
  obtain j0 j1 j2 where j: "pass44 (k0, k1, k2) = (j0, j1, j2)" "j0 < 2 ^ 44" "j2 < 2 ^ 42" "k1 div 2 ^ 44 = 0 \<longrightarrow> j1 = k1" "k1 = 2 ^ 44 \<longrightarrow> j1 \<le> 1"
    using pass44_once [OF k(2) k1 k(4)] by metis
  have "j1 < 2 ^ 44" using j(4,5) k(3) by (cases "k1 = 2 ^ 44") auto
  then have n: "norm44 (j0, j1, j2)" using j by (simp add: norm44_def)
  have "settle44 (h0, h1, h2) = pass44 (pass44 (h0, h1, h2))"
    unfolding settle44_def using chain44_pass [OF assms] chain44_pass [OF k(2) k1 k(4)] by (simp only: k(1))
  then show ?thesis using n pass44_value [of "(k0, k1, k2)"] pass44_value [of "(h0, h1, h2)"] by (simp add: k(1) j(1))
qed

text \<open>The choice between a number and the number less the modulus is the residue.\<close>

lemma residue_of: "v < 2 ^ 130 \<Longrightarrow> v mod P = (if v + 5 \<ge> 2 ^ 130 then v + 5 - 2 ^ 130 else v)" for v :: nat
  by (auto simp: mod_if)

lemma and_ones: "x < 2 ^ 64 \<Longrightarrow> x AND 0xffffffffffffffff = x" for x :: nat using and_mask [of x 64] by simp

lemma wrap_down_ge: "a \<le> x \<Longrightarrow> x - a < 2 ^ k \<Longrightarrow> (x + 2 ^ k - a) mod 2 ^ k = x - a" for x a :: nat
proof -
  assume a: "a \<le> x" "x - a < 2 ^ k"
  then have "x + 2 ^ k - a = (x - a) + 2 ^ k" by simp
  then have "(x + 2 ^ k - a) mod 2 ^ k = (x - a) mod 2 ^ k" by (simp only: mod_add_self2)
  then show ?thesis using a(2) by simp
qed

lemma norm44_less: "norm44 h \<Longrightarrow> val44 h < 2 ^ 130"
  by (auto simp: norm44_def val44_def split: prod.splits)

lemma select44_value:
  assumes "norm44 h"
  shows "norm44 (select44 h) \<and> val44 (select44 h) = val44 h mod P"
proof -
  obtain h0 h1 h2 where h: "h = (h0, h1, h2)" by (metis prod_cases3)
  have n: "h0 < 2 ^ 44" "h1 < 2 ^ 44" "h2 < 2 ^ 42" using assms by (simp_all add: h norm44_def)
  have v: "val44 h < 2 ^ 130" by (rule norm44_less [OF assms])
  define c0 c1 where "c0 = (h0 + 5) div 2 ^ 44" and "c1 = (h1 + c0) div 2 ^ 44"
  have b0: "c0 < 2" unfolding c0_def using n(1) by (intro div_bound) simp
  have b1: "c1 < 2" unfolding c1_def using n(2) b0 by (intro div_bound) simp
  define g0 g1 where "g0 = (h0 + 5) mod 2 ^ 44" and "g1 = (h1 + c0) mod 2 ^ 44"
  have g: "g0 < 2 ^ 44" "g1 < 2 ^ 44" by (simp_all add: g0_def g1_def)
  have e: "val44 h + 5 = g0 + 2 ^ 44 * g1 + 2 ^ 88 * (h2 + c1)"
  proof -
    have *: "h0 + A * h1 + B * h2 + 5 = g0 + A * g1 + B * (h2 + c1)" if "h0 + 5 = g0 + A * c0" "h1 + c0 = g1 + A * c1" "A * A = B" for A B :: nat
    proof -
      have "h0 + A * h1 + B * h2 + 5 = g0 + A * (h1 + c0) + B * h2" using that(1) by (simp add: algebra_simps)
      also have "\<dots> = g0 + A * g1 + B * (h2 + c1)" unfolding that(2) that(3) [symmetric] by (simp add: algebra_simps)
      finally show ?thesis .
    qed
    show ?thesis unfolding h val44_def prod.case by (rule *) (simp_all only: g0_def c0_def g1_def c1_def mod_mult_div_eq, simp)
  qed
  have w: "w64 (h0 + 5) = h0 + 5" "w64 (h1 + c0) = h1 + c0" using n b0 by simp_all
  define m where "m = w64 (drop_bit 63 (w64 (h2 + c1 + 2 ^ 64 - 2 ^ 42)) + 2 ^ 64 - 1)"
  have s: "select44 h = ((h0 AND not64 m) OR (g0 AND m), (h1 AND not64 m) OR (g1 AND m), (h2 AND not64 m) OR (w64 (h2 + c1 + 2 ^ 64 - 2 ^ 42) AND m))"
    unfolding select44_def h Let_def prod.case w bits44 drop_bit_eq_div [of 44] c0_def [symmetric] c1_def [symmetric] g0_def [symmetric] g1_def [symmetric] m_def ..
  show ?thesis
  proof (cases "h2 + c1 \<ge> 2 ^ 42")
    case True
    then have x: "w64 (h2 + c1 + 2 ^ 64 - 2 ^ 42) = h2 + c1 - 2 ^ 42" using n(3) b1 by (intro wrap_down_ge) simp_all
    have k: "h2 + c1 - 2 ^ 42 < 2 ^ 42" using n(3) b1 by simp
    then have z: "drop_bit 63 (h2 + c1 - 2 ^ 42) = 0" by (simp add: drop_bit_eq_div)
    then have "m = 2 ^ 64 - 1" unfolding m_def x z by simp
    then have "select44 h = (g0, g1, h2 + c1 - 2 ^ 42)" unfolding s x using g k by (simp add: not64_def and_ones del: One_nat_def)
    moreover have "val44 (g0, g1, h2 + c1 - 2 ^ 42) = val44 h + 5 - 2 ^ 130" unfolding e using True by (simp add: val44_def diff_mult_distrib2)
    moreover have "val44 h + 5 \<ge> 2 ^ 130" unfolding e using True by simp
    ultimately show ?thesis using residue_of [OF v] g k by (simp add: norm44_def)
  next
    case False
    then have "w64 (h2 + c1 + 2 ^ 64 - 2 ^ 42) = h2 + c1 + 2 ^ 64 - 2 ^ 42" by (intro mod_less) simp
    moreover have "drop_bit 63 (h2 + c1 + 2 ^ 64 - 2 ^ 42) = 1" unfolding drop_bit_eq_div using False by (intro div_nat_eqI) simp_all
    ultimately have "m = w64 (1 + 2 ^ 64 - 1)" unfolding m_def by (simp only:)
    then have "m = 0" by simp
    then have "select44 h = h" unfolding s unfolding h using n by (simp add: not64_def and_ones del: One_nat_def)
    moreover have "val44 h + 5 < 2 ^ 130" unfolding e using False g by simp
    ultimately show ?thesis using residue_of [OF v] assms by simp
  qed
qed

text \<open>Storing sixteen bytes from three limbs.\<close>

lemma store_two:
  fixes a0 a1 a2 :: nat
  assumes "a0 < 2 ^ 44" "a1 < 2 ^ 44"
  shows "st64le (a0 OR w64 (push_bit 44 a1)) @ st64le (drop_bit 20 a1 OR w64 (push_bit 24 a2)) = le_bytes 16 (val44 (a0, a1, a2))"
proof -
  define x y z where "x = a1 mod 2 ^ 20" and "y = a1 div 2 ^ 20" and "z = a2 mod 2 ^ 40"
  have y: "y < 2 ^ 24" unfolding y_def using assms(2) by (intro div_bound) simp
  have x: "x < 2 ^ 20" by (simp add: x_def)
  have p: "w64 (push_bit 44 a1) = 2 ^ 44 * x" "w64 (push_bit 24 a2) = 2 ^ 24 * z"
    using mult_mod_right [of "2 ^ 44" a1 "2 ^ 20"] mult_mod_right [of "2 ^ 24" a2 "2 ^ 40"] by (simp_all add: x_def z_def push_bit_eq_mult mult.commute)
  have o1: "a0 OR w64 (push_bit 44 a1) = a0 + 2 ^ 44 * x" unfolding p by (rule or_plus [OF assms(1)])
  have o2: "drop_bit 20 a1 OR w64 (push_bit 24 a2) = y + 2 ^ 24 * z" unfolding p drop_bit_eq_div y_def [symmetric] by (rule or_plus [OF y])
  have *: "a0 + A * (x + C * y) + B * (z + D * w) = (a0 + A * x) + F * (y + G * z + F * w)"
    if "A * C = F" "B = F * G" "G * D = F" for A B C D F G w :: nat
  proof -
    have "B * (z + D * w) = F * (G * z + G * D * w)" unfolding that(2) by (simp add: algebra_simps)
    then have "a0 + A * (x + C * y) + B * (z + D * w) = a0 + A * x + A * C * y + F * (G * z + G * D * w)" by (simp add: algebra_simps)
    then show ?thesis unfolding that by (simp add: algebra_simps)
  qed
  have "val44 (a0, x + 2 ^ 20 * y, z + 2 ^ 40 * (a2 div 2 ^ 40)) = (a0 + 2 ^ 44 * x) + 2 ^ 64 * (y + 2 ^ 24 * z + 2 ^ 64 * (a2 div 2 ^ 40))"
    unfolding val44_def prod.case by (rule *) simp_all
  moreover have "x + 2 ^ 20 * y = a1" "z + 2 ^ 40 * (a2 div 2 ^ 40) = a2" by (simp_all only: x_def y_def z_def mod_mult_div_eq)
  ultimately have v: "val44 (a0, a1, a2) = (a0 + 2 ^ 44 * x) + 2 ^ 64 * (y + 2 ^ 24 * z + 2 ^ 64 * (a2 div 2 ^ 40))" by simp
  have lo: "a0 + 2 ^ 44 * x < 2 ^ 64" using assms(1) x by simp
  have "le_bytes 16 (val44 (a0, a1, a2)) = le_bytes 8 (val44 (a0, a1, a2)) @ le_bytes 8 (val44 (a0, a1, a2) div 2 ^ 64)"
    using le_bytes_append [of 8 8] by simp
  also have "le_bytes 8 (val44 (a0, a1, a2)) = le_bytes 8 (a0 + 2 ^ 44 * x)" unfolding v by (rule le_bytes_high)
  also have "val44 (a0, a1, a2) div 2 ^ 64 = y + 2 ^ 24 * z + 2 ^ 64 * (a2 div 2 ^ 40)" unfolding v using lo by (simp only: div_mult_self2) simp
  also have "le_bytes 8 \<dots> = le_bytes 8 (y + 2 ^ 24 * z)" by (rule le_bytes_high)
  finally show ?thesis unfolding o1 o2 st64le_def ..
qed

text \<open>Addition with carries, the last one dropped.\<close>

lemma add_three:
  fixes A B :: nat
  assumes "k0 + s0 = a0 + A * c0" "k1 + (s1 + c0) = a1 + A * c1" "k2 + (s2 + c1) = a2 + B * c2"
  shows "(k0 + A * k1 + A * A * k2) + (s0 + A * s1 + A * A * s2) = a0 + A * a1 + A * A * a2 + A * A * B * c2"
proof -
  have "a0 + A * a1 + A * A * a2 + A * A * B * c2 = a0 + A * a1 + A * A * (k2 + (s2 + c1))" unfolding assms(3) by (simp add: algebra_simps)
  also have "\<dots> = a0 + A * (a1 + A * c1) + A * A * (k2 + s2)" by (simp add: algebra_simps)
  also have "\<dots> = (a0 + A * c0) + A * (k1 + s1) + A * A * (k2 + s2)" unfolding assms(2) [symmetric] by (simp add: algebra_simps)
  finally show ?thesis unfolding assms(1) [symmetric] by (simp add: algebra_simps)
qed

lemma tag44_ok:
  assumes ok: "ok44 key l" and key: "length key = 32"
  shows "tag44 l = le_bytes 16 (num44 l mod P + le_value (drop 16 key))"
proof -
  define s where "s = le_value (drop 16 key)"
  have "length (drop 16 key) = 16" using key by simp
  note x = sixteen [OF this, folded s_def, simplified, folded s_def]
  have pads: "q_pad0 l = ld64le (drop 16 key)" "q_pad1 l = ld64le (drop 24 key)" using ok by (simp_all add: ok44_def)
  have t: "s = q_pad0 l + 2 ^ 64 * q_pad1 l" "q_pad0 l < 2 ^ 64" "q_pad1 l < 2 ^ 64" using x by (simp_all add: pads)
  define s0 s1 s2 where "s0 = s mod 2 ^ 44" and "s1 = s div 2 ^ 44 mod 2 ^ 44" and "s2 = s div 2 ^ 88"
  have a0: "q_pad0 l AND M44 = s0" unfolding s0_def t(1) bits44 by (rule limb44_0)
  have a1: "(drop_bit 44 (q_pad0 l) OR w64 (push_bit 20 (q_pad1 l))) AND M44 = s1" unfolding s1_def t(1) bits44 by (rule limb44_1 [OF t(2)])
  have a2: "drop_bit 24 (q_pad1 l) AND M42 = s2" "s2 < 2 ^ 40" unfolding s2_def bits44 using limb44_2 [OF t(2,3), folded t(1)] by simp_all
  have sb: "s0 < 2 ^ 44" "s1 < 2 ^ 44" by (simp_all add: s0_def s1_def)
  have h: "q_h0 l < 2 ^ 44" "q_h1 l < 2 ^ 45" "q_h2 l < 2 ^ 42" using ok by (simp_all add: ok44_def)
  obtain k0 k1 k2 where k: "select44 (settle44 (q_h0 l, q_h1 l, q_h2 l)) = (k0, k1, k2)" by (metis prod_cases3)
  have "norm44 (k0, k1, k2) \<and> val44 (k0, k1, k2) = num44 l mod P"
    using settle44_norm [OF h] select44_value [of "settle44 (q_h0 l, q_h1 l, q_h2 l)"] by (simp add: k num44_def)
  then have kb: "k0 < 2 ^ 44" "k1 < 2 ^ 44" "k2 < 2 ^ 42" and kv: "val44 (k0, k1, k2) = num44 l mod P" by (simp_all add: norm44_def)
  define u0 where "u0 = k0 + s0"
  define u1 where "u1 = k1 + (s1 + u0 div 2 ^ 44)"
  define u2 where "u2 = k2 + (s2 + u1 div 2 ^ 44)"
  have b0: "u0 < 2 ^ 45" using kb sb by (simp add: u0_def)
  then have c0: "u0 div 2 ^ 44 < 2" by (intro div_bound) simp
  have b1: "u1 < 2 ^ 46" using kb sb c0 by (simp add: u1_def)
  then have c1: "u1 div 2 ^ 44 < 4" by (intro div_bound) simp
  have b2: "u2 < 2 ^ 44" using kb a2 c1 by (simp add: u2_def)
  have w0: "w64 (k0 + s0) = u0" unfolding u0_def [symmetric] by (rule mod_small [OF b0]) simp
  have w1: "w64 (s1 + u0 div 2 ^ 44) = s1 + u0 div 2 ^ 44" using sb c0 by (intro mod_less) simp
  have w2: "w64 (k1 + (s1 + u0 div 2 ^ 44)) = u1" unfolding u1_def [symmetric] by (rule mod_small [OF b1]) simp
  have w3: "w64 (s2 + u1 div 2 ^ 44) = s2 + u1 div 2 ^ 44" using a2(2) c1 by (intro mod_less) simp
  have w4: "w64 (k2 + (s2 + u1 div 2 ^ 44)) = u2" unfolding u2_def [symmetric] by (rule mod_small [OF b2]) simp
  have "tag44 l = st64le (u0 mod 2 ^ 44 OR w64 (push_bit 44 (u1 mod 2 ^ 44))) @ st64le (drop_bit 20 (u1 mod 2 ^ 44) OR w64 (push_bit 24 (u2 mod 2 ^ 42)))"
    unfolding tag44_def k prod.case Let_def a0 a1 a2(1) unfolding bits44 drop_bit_eq_div [of 44] w0 w1 w2 w3 w4 ..
  also have "\<dots> = le_bytes 16 (val44 (u0 mod 2 ^ 44, u1 mod 2 ^ 44, u2 mod 2 ^ 42))" by (rule store_two) simp_all
  also have "\<dots> = le_bytes 16 (val44 (k0, k1, k2) + s)"
  proof -
    have sum: "(k0 + 2 ^ 44 * k1 + 2 ^ 44 * 2 ^ 44 * k2) + (s0 + 2 ^ 44 * s1 + 2 ^ 44 * 2 ^ 44 * s2) =
        u0 mod 2 ^ 44 + 2 ^ 44 * (u1 mod 2 ^ 44) + 2 ^ 44 * 2 ^ 44 * (u2 mod 2 ^ 42) + 2 ^ 44 * 2 ^ 44 * 2 ^ 42 * (u2 div 2 ^ 42)"
      by (rule add_three [where ?c0.0 = "u0 div 2 ^ 44" and ?c1.0 = "u1 div 2 ^ 44"]) (simp_all only: mod_mult_div_eq u0_def [symmetric] u1_def [symmetric] u2_def [symmetric])
    have *: "val44 (k0, k1, k2) + s = val44 (x0, x1, x2) + 256 ^ 16 * (4 * y)"
      if "(k0 + 2 ^ 44 * k1 + 2 ^ 44 * 2 ^ 44 * k2) + (s0 + 2 ^ 44 * s1 + 2 ^ 44 * 2 ^ 44 * s2) = x0 + 2 ^ 44 * x1 + 2 ^ 44 * 2 ^ 44 * x2 + 2 ^ 44 * 2 ^ 44 * 2 ^ 42 * y"
      for x0 x1 x2 y
    proof -
      have "s = s0 + 2 ^ 44 * s1 + 2 ^ 88 * s2" unfolding s0_def s1_def s2_def by (rule digits44 [symmetric])
      then have "val44 (k0, k1, k2) + s = (k0 + 2 ^ 44 * k1 + 2 ^ 44 * 2 ^ 44 * k2) + (s0 + 2 ^ 44 * s1 + 2 ^ 44 * 2 ^ 44 * s2)" by (simp add: val44_def)
      then show ?thesis unfolding that by (simp add: val44_def)
    qed
    have "val44 (k0, k1, k2) + s = val44 (u0 mod 2 ^ 44, u1 mod 2 ^ 44, u2 mod 2 ^ 42) + 256 ^ 16 * (4 * (u2 div 2 ^ 42))" by (rule * [OF sum])
    then show ?thesis using le_bytes_mod [of 16 "val44 (k0, k1, k2) + s"] le_bytes_mod [of 16 "val44 (u0 mod 2 ^ 44, u1 mod 2 ^ 44, u2 mod 2 ^ 42)"]
      by (simp only: mod_mult_self2)
  qed
  finally show ?thesis by (simp only: kv s_def)
qed

end
