(* ===== verification/Poly1305_Limbs26.thy ===== *)
theory Poly1305_Limbs26
  imports Poly1305_Limbs
begin

text \<open>
  The layout of five limbs of 26 bits, for machines without 128-bit products: the bounds that keep
  every 32-bit and 64-bit operation from wrapping around, the residue of each step, and the tag.
\<close>

section \<open>Arithmetic\<close>

type_synonym five = "nat \<times> nat \<times> nat \<times> nat \<times> nat"

definition val26 :: "five \<Rightarrow> nat" where
  "val26 h = (case h of (h0, h1, h2, h3, h4) \<Rightarrow> h0 + 2 ^ 26 * (h1 + 2 ^ 26 * (h2 + 2 ^ 26 * (h3 + 2 ^ 26 * h4))))"

lemma carry_five_eq:
  fixes A :: nat
  assumes "d0 = x0 + A * y0" "d1 + y0 = x1 + A * y1" "d2 + y1 = x2 + A * y2" "d3 + y2 = x3 + A * y3" "d4 + y3 = x4 + A * c" "x0 + 5 * c = xg + A * yg"
  shows "xg + A * (x1 + yg + A * (x2 + A * (x3 + A * x4))) + A ^ 5 * c = d0 + A * (d1 + A * (d2 + A * (d3 + A * d4))) + 5 * c"
proof -
  have "A ^ 5 * c = A * (A * (A * (A * (A * c))))" by (simp add: eval_nat_numeral)
  then have "xg + A * (x1 + yg + A * (x2 + A * (x3 + A * x4))) + A ^ 5 * c = (xg + A * yg) + A * (x1 + A * (x2 + A * (x3 + A * (x4 + A * c))))"
    by (simp add: algebra_simps)
  also have "\<dots> = x0 + 5 * c + A * (x1 + A * (x2 + A * (d4 * A + (x3 + A * y3))))" unfolding assms(5,6) [symmetric] by (simp add: algebra_simps)
  also have "\<dots> = x0 + 5 * c + A * (x1 + A * (d3 * A + d4 * A * A + (x2 + A * y2)))" unfolding assms(4) [symmetric] by (simp add: algebra_simps)
  also have "\<dots> = x0 + 5 * c + A * (d2 * A + d3 * A * A + d4 * A * A * A + (x1 + A * y1))" unfolding assms(3) [symmetric] by (simp add: algebra_simps)
  also have "\<dots> = (x0 + A * y0) + 5 * c + A * (d1 + d2 * A + d3 * A * A + d4 * A * A * A)" unfolding assms(2) [symmetric] by (simp add: algebra_simps)
  finally show ?thesis unfolding assms(1) [symmetric] by (simp add: algebra_simps)
qed

lemma five_modulus: "x + (2 ^ 26) ^ 5 * c = y + 5 * c \<Longrightarrow> x + P * c = y" for x y c :: nat
  by (simp add: diff_mult_distrib)

lemma bits26:
  "x AND M26 = x mod 2 ^ 26" "x mod 2 ^ 32 mod 2 ^ 26 = x mod (2 ^ 26 :: nat)"
  using and_mask [of x 26] by (simp_all add: mod_mod_cancel)

text \<open>The carries of a block: the last one folds back as five and cannot overflow 32 bits.\<close>

lemma carry26_value:
  assumes "d0 < 3 * 2 ^ 56" "d1 < 3 * 2 ^ 56" "d2 < 3 * 2 ^ 56" "d3 < 3 * 2 ^ 56" "d4 < 23 * 2 ^ 51" "carry26 (d0, d1, d2, d3, d4) = (h0, h1, h2, h3, h4)"
  shows "h0 < 2 ^ 26 \<and> h1 < 2 ^ 26 + 64 \<and> h2 < 2 ^ 26 \<and> h3 < 2 ^ 26 \<and> h4 < 2 ^ 26 \<and> val26 (h0, h1, h2, h3, h4) mod P = val26 (d0, d1, d2, d3, d4) mod P"
proof -
  define e1 where "e1 = d1 + d0 div 2 ^ 26"
  define e2 where "e2 = d2 + e1 div 2 ^ 26"
  define e3 where "e3 = d3 + e2 div 2 ^ 26"
  define e4 where "e4 = d4 + e3 div 2 ^ 26"
  define c where "c = e4 div 2 ^ 26"
  define g where "g = d0 mod 2 ^ 26 + 5 * c"
  have b0: "d0 div 2 ^ 26 < 2 ^ 32" using assms(1) by (intro div_bound) simp
  then have b1: "e1 < 2 ^ 58" "e1 div 2 ^ 26 < 2 ^ 32" unfolding e1_def using assms(2) by (simp, intro div_bound) simp
  then have b2: "e2 < 2 ^ 58" "e2 div 2 ^ 26 < 2 ^ 32" unfolding e2_def using assms(3) by (simp, intro div_bound) simp
  then have b3: "e3 < 2 ^ 58" "e3 div 2 ^ 26 < 2 ^ 32" unfolding e3_def using assms(4) by (simp, intro div_bound) simp
  then have b4: "e4 < 3 * 2 ^ 54" unfolding e4_def using assms(5) by simp
  then have b5: "c < 3 * 2 ^ 28" unfolding c_def by (intro div_bound) simp
  then have b6: "g < 2 ^ 32" using mod_less_divisor [of "2 ^ 26" d0] by (simp add: g_def)
  then have b7: "g div 2 ^ 26 < 64" by (intro div_bound) simp
  have "carry26 (d0, d1, d2, d3, d4) = (g mod 2 ^ 26, e1 mod 2 ^ 26 + g div 2 ^ 26, e2 mod 2 ^ 26, e3 mod 2 ^ 26, e4 mod 2 ^ 26)"
  proof -
    have w0: "w32 (drop_bit 26 d0) = d0 div 2 ^ 26" unfolding drop_bit_eq_div by (rule mod_less [OF b0])
    have w1: "w64 (d1 + d0 div 2 ^ 26) = e1" unfolding e1_def [symmetric] by (rule mod_small [OF b1(1)]) simp
    have v1: "w32 (drop_bit 26 e1) = e1 div 2 ^ 26" unfolding drop_bit_eq_div by (rule mod_less [OF b1(2)])
    have w2: "w64 (d2 + e1 div 2 ^ 26) = e2" unfolding e2_def [symmetric] by (rule mod_small [OF b2(1)]) simp
    have v2: "w32 (drop_bit 26 e2) = e2 div 2 ^ 26" unfolding drop_bit_eq_div by (rule mod_less [OF b2(2)])
    have w3: "w64 (d3 + e2 div 2 ^ 26) = e3" unfolding e3_def [symmetric] by (rule mod_small [OF b3(1)]) simp
    have v3: "w32 (drop_bit 26 e3) = e3 div 2 ^ 26" unfolding drop_bit_eq_div by (rule mod_less [OF b3(2)])
    have w4: "w64 (d4 + e3 div 2 ^ 26) = e4" unfolding e4_def [symmetric] by (rule mod_small [OF b4]) simp
    have v4: "w32 (drop_bit 26 e4) = c" unfolding drop_bit_eq_div c_def [symmetric] by (rule mod_small [OF b5]) simp
    have w5: "w32 (c * 5) = 5 * c" using b5 by (subst mult.commute) (intro mod_less, simp)
    have w6: "w32 (d0 mod 2 ^ 26 + 5 * c) = g" unfolding g_def [symmetric] by (rule mod_less [OF b6])
    have "e1 mod 2 ^ 26 + g div 2 ^ 26 < 2 ^ 26 + 64" using b7 by (intro add_strict_mono) simp_all
    then have w7: "w32 (e1 mod 2 ^ 26 + g div 2 ^ 26) = e1 mod 2 ^ 26 + g div 2 ^ 26" by (rule mod_small) simp
    show ?thesis
      unfolding carry26_def Let_def prod.case bits26 w0 w1 v1 w2 v2 w3 v3 w4 v4 w5 w6 drop_bit_eq_div [of 26 g] w7 by (simp only: g_def)
  qed
  then have h: "h0 = g mod 2 ^ 26" "h1 = e1 mod 2 ^ 26 + g div 2 ^ 26" "h2 = e2 mod 2 ^ 26" "h3 = e3 mod 2 ^ 26" "h4 = e4 mod 2 ^ 26" using assms(6) by auto
  have "h0 + 2 ^ 26 * (e1 mod 2 ^ 26 + g div 2 ^ 26 + 2 ^ 26 * (h2 + 2 ^ 26 * (h3 + 2 ^ 26 * h4))) + (2 ^ 26) ^ 5 * c =
      d0 + 2 ^ 26 * (d1 + 2 ^ 26 * (d2 + 2 ^ 26 * (d3 + 2 ^ 26 * d4))) + 5 * c"
    unfolding h
    by (rule carry_five_eq [where ?x0.0 = "d0 mod 2 ^ 26" and ?y0.0 = "d0 div 2 ^ 26" and ?y1.0 = "e1 div 2 ^ 26" and ?y2.0 = "e2 div 2 ^ 26" and ?y3.0 = "e3 div 2 ^ 26"])
      (simp_all only: c_def [symmetric] mod_mult_div_eq e1_def [symmetric] e2_def [symmetric] e3_def [symmetric] e4_def [symmetric] g_def [symmetric], simp add: c_def)
  then have "val26 (h0, h1, h2, h3, h4) + P * c = val26 (d0, d1, d2, d3, d4)" unfolding val26_def prod.case h(2) [symmetric] by (simp add: diff_mult_distrib)
  then have "val26 (h0, h1, h2, h3, h4) mod P = val26 (d0, d1, d2, d3, d4) mod P" by (rule mod_add_multiple)
  moreover have "h1 < 2 ^ 26 + 64" unfolding h using b7 by (intro add_strict_mono) simp_all
  ultimately show ?thesis by (simp add: h(1,3-5))
qed

lemma mul26_value:
  assumes h: "h0 < 2 ^ 27" "h1 < 2 ^ 27 + 64" "h2 < 2 ^ 27" "h3 < 2 ^ 27" "h4 < 3 * 2 ^ 25"
    and r: "r0 < 2 ^ 26" "r1 < 2 ^ 26" "r2 < 2 ^ 26" "r3 < 2 ^ 26" "r4 < 2 ^ 20"
  shows "\<exists>d0 d1 d2 d3 d4. mul26 (r0, r1, r2, r3, r4) (h0, h1, h2, h3, h4) = (d0, d1, d2, d3, d4) \<and>
    d0 < 3 * 2 ^ 56 \<and> d1 < 3 * 2 ^ 56 \<and> d2 < 3 * 2 ^ 56 \<and> d3 < 3 * 2 ^ 56 \<and> d4 < 23 * 2 ^ 51 \<and>
    val26 (d0, d1, d2, d3, d4) mod P = val26 (h0, h1, h2, h3, h4) * val26 (r0, r1, r2, r3, r4) mod P"
proof -
  have s: "w32 (r1 * 5) = r1 * 5" "w32 (r2 * 5) = r2 * 5" "w32 (r3 * 5) = r3 * 5" "w32 (r4 * 5) = r4 * 5" using r by simp_all
  have t: "r1 * 5 < 5 * 2 ^ 26" "r2 * 5 < 5 * 2 ^ 26" "r3 * 5 < 5 * 2 ^ 26" "r4 * 5 < 5 * 2 ^ 20" using r by simp_all
  define d0 where "d0 = h0 * r0 + h1 * (r4 * 5) + h2 * (r3 * 5) + h3 * (r2 * 5) + h4 * (r1 * 5)"
  define d1 where "d1 = h0 * r1 + h1 * r0 + h2 * (r4 * 5) + h3 * (r3 * 5) + h4 * (r2 * 5)"
  define d2 where "d2 = h0 * r2 + h1 * r1 + h2 * r0 + h3 * (r4 * 5) + h4 * (r3 * 5)"
  define d3 where "d3 = h0 * r3 + h1 * r2 + h2 * r1 + h3 * r0 + h4 * (r4 * 5)"
  define d4 where "d4 = h0 * r4 + h1 * r3 + h2 * r2 + h3 * r1 + h4 * r0"
  have b0: "d0 < 3 * 2 ^ 56" unfolding d0_def
    using mul_bound [OF h(1) r(1)] mul_bound [OF h(2) t(4)] mul_bound [OF h(3) t(3)] mul_bound [OF h(4) t(2)] mul_bound [OF h(5) t(1)] by simp
  have b1: "d1 < 3 * 2 ^ 56" unfolding d1_def
    using mul_bound [OF h(1) r(2)] mul_bound [OF h(2) r(1)] mul_bound [OF h(3) t(4)] mul_bound [OF h(4) t(3)] mul_bound [OF h(5) t(2)] by simp
  have b2: "d2 < 3 * 2 ^ 56" unfolding d2_def
    using mul_bound [OF h(1) r(3)] mul_bound [OF h(2) r(2)] mul_bound [OF h(3) r(1)] mul_bound [OF h(4) t(4)] mul_bound [OF h(5) t(3)] by simp
  have b3: "d3 < 3 * 2 ^ 56" unfolding d3_def
    using mul_bound [OF h(1) r(4)] mul_bound [OF h(2) r(3)] mul_bound [OF h(3) r(2)] mul_bound [OF h(4) r(1)] mul_bound [OF h(5) t(4)] by simp
  have b4: "d4 < 23 * 2 ^ 51" unfolding d4_def
    using mul_bound [OF h(1) r(5)] mul_bound [OF h(2) r(4)] mul_bound [OF h(3) r(3)] mul_bound [OF h(4) r(2)] mul_bound [OF h(5) r(1)] by simp
  have "mul26 (r0, r1, r2, r3, r4) (h0, h1, h2, h3, h4) = (w64 d0, w64 d1, w64 d2, w64 d3, w64 d4)"
    unfolding mul26_def prod.case Let_def s d0_def d1_def d2_def d3_def d4_def ..
  also have "\<dots> = (d0, d1, d2, d3, d4)" using b0 b1 b2 b3 b4 by simp
  finally have e: "mul26 (r0, r1, r2, r3, r4) (h0, h1, h2, h3, h4) = (d0, d1, d2, d3, d4)" .
  have "val26 (d0, d1, d2, d3, d4) + P * ((h1 * r4 + h2 * r3 + h3 * r2 + h4 * r1) + 2 ^ 26 * ((h2 * r4 + h3 * r3 + h4 * r2) + 2 ^ 26 * ((h3 * r4 + h4 * r3) + 2 ^ 26 * (h4 * r4)))) =
      val26 (h0, h1, h2, h3, h4) * val26 (r0, r1, r2, r3, r4)"
    by (simp add: val26_def d0_def d1_def d2_def d3_def d4_def algebra_simps)
  then have "val26 (d0, d1, d2, d3, d4) mod P = val26 (h0, h1, h2, h3, h4) * val26 (r0, r1, r2, r3, r4) mod P" by (rule mod_add_multiple)
  then show ?thesis using e b0 b1 b2 b3 b4 by blast
qed

text \<open>The limbs of sixteen bytes, loaded at overlapping places.\<close>

lemma load26:
  assumes "k \<le> 6"
  shows "drop_bit k (ld32le (drop n m)) mod 2 ^ 26 = le_value m div 2 ^ (8 * n + k) mod 2 ^ 26"
proof -
  have p: "(256::nat) ^ n = 2 ^ (8 * n)" "(256::nat) ^ 4 = 2 ^ 32" by (simp_all add: power_mult)
  have "drop_bit k (ld32le (drop n m)) mod 2 ^ 26 = take_bit 26 (drop_bit k (take_bit 32 (drop_bit (8 * n) (le_value m))))"
    unfolding ld32le_def le_value_take le_value_drop p by (simp add: take_bit_eq_mod drop_bit_eq_div)
  also have "\<dots> = take_bit 26 (drop_bit (8 * n + k) (le_value m))" using assms by (auto simp: drop_bit_take_bit take_bit_take_bit min_def add.commute)
  finally show ?thesis by (simp add: take_bit_eq_mod drop_bit_eq_div)
qed

lemma load26_0: "ld32le m mod 2 ^ 26 = le_value m mod 2 ^ 26"
  using load26 [of 0 0 m] by simp

lemma places26: "8 * 3 + 2 = (26 :: nat)" "8 * 6 + 4 = (52 :: nat)" "8 * 9 + 6 = (78 :: nat)" "2 \<le> (6 :: nat)" "4 \<le> (6 :: nat)" "6 \<le> (6 :: nat)" by simp_all

lemmas load26_mid =
  load26 [of 2 3, OF places26(4), unfolded places26(1)] load26 [of 4 6, OF places26(5), unfolded places26(2)] load26 [of 6 9, OF places26(6), unfolded places26(3)]

lemma load26_4: "length m = 16 \<Longrightarrow> drop_bit 8 (ld32le (drop 12 m)) = le_value m div 2 ^ 104"
proof -
  assume l: "length m = 16"
  then have "ld32le (drop 12 m) = le_value m div 2 ^ 96" using le_value_drop [of 12 m] by (simp add: ld32le_def)
  then show ?thesis by (simp add: drop_bit_eq_div div_mult2_eq [symmetric])
qed

lemma digits26:
  "t mod 2 ^ 26 + 2 ^ 26 * (t div 2 ^ 26 mod 2 ^ 26 + 2 ^ 26 * (t div 2 ^ 52 mod 2 ^ 26 + 2 ^ 26 * (t div 2 ^ 78 mod 2 ^ 26 + 2 ^ 26 * (t div 2 ^ 104)))) = (t :: nat)"
proof -
  have e: "t div 2 ^ 52 = t div 2 ^ 26 div 2 ^ 26" "t div 2 ^ 78 = t div 2 ^ 26 div 2 ^ 26 div 2 ^ 26" "t div 2 ^ 104 = t div 2 ^ 26 div 2 ^ 26 div 2 ^ 26 div 2 ^ 26"
    by (simp_all add: div_mult2_eq [symmetric])
  show ?thesis unfolding e by (simp only: mod_mult_div_eq)
qed

section \<open>Blocks\<close>

definition ok26 :: "bytes \<Rightarrow> limbs26 \<Rightarrow> bool" where
  "ok26 key l \<longleftrightarrow>
     (case f_h l of (h0, h1, h2, h3, h4) \<Rightarrow> h0 < 2 ^ 26 \<and> h1 < 2 ^ 26 + 64 \<and> h2 < 2 ^ 26 \<and> h3 < 2 ^ 26 \<and> h4 < 2 ^ 26) \<and>
     (case f_r l of (r0, r1, r2, r3, r4) \<Rightarrow> r0 < 2 ^ 26 \<and> r1 < 2 ^ 26 \<and> r2 < 2 ^ 26 \<and> r3 < 2 ^ 26 \<and> r4 < 2 ^ 20) \<and>
     val26 (f_r l) = le_value (take 16 key) AND 0x0ffffffc0ffffffc0ffffffc0fffffff \<and>
     f_pad l = (ld32le (drop 16 key), ld32le (drop 20 key), ld32le (drop 24 key), ld32le (drop 28 key))"

definition num26 :: "limbs26 \<Rightarrow> nat" where "num26 l = val26 (f_h l)"

lemma add_limb: "h < a \<Longrightarrow> a + 2 ^ 26 \<le> 2 ^ 32 \<Longrightarrow> w32 (h + t mod 2 ^ 26) = h + t mod 2 ^ 26 \<and> h + t mod 2 ^ 26 < a + 2 ^ 26" for h t a :: nat
proof -
  assume a: "h < a" "a + 2 ^ 26 \<le> 2 ^ 32"
  have "h + t mod 2 ^ 26 < a + 2 ^ 26" using a(1) by (intro add_strict_mono) simp_all
  then show ?thesis using mod_small [OF _ a(2)] by simp
qed

lemma block26_ok:
  assumes ok: "ok26 key l" and m: "length m = 16"
  shows "ok26 key (block26 full m l) \<and>
    num26 (block26 full m l) mod P = (num26 l + le_value m + (if full then 2 ^ 128 else 0)) * (le_value (take 16 key) AND 0x0ffffffc0ffffffc0ffffffc0fffffff) mod P"
proof -
  obtain h0 h1 h2 h3 h4 where h: "f_h l = (h0, h1, h2, h3, h4)" by (metis prod_cases5)
  obtain r0 r1 r2 r3 r4 where r: "f_r l = (r0, r1, r2, r3, r4)" by (metis prod_cases5)
  have hb: "h0 < 2 ^ 26" "h1 < 2 ^ 26 + 64" "h2 < 2 ^ 26" "h3 < 2 ^ 26" "h4 < 2 ^ 26" using ok by (simp_all add: ok26_def h)
  have rb: "r0 < 2 ^ 26" "r1 < 2 ^ 26" "r2 < 2 ^ 26" "r3 < 2 ^ 26" "r4 < 2 ^ 20" using ok by (simp_all add: ok26_def r)
  define t where "t = le_value m"
  define top4 where "top4 = t div 2 ^ 104 + (if full then 2 ^ 24 else 0)"
  have "t < 2 ^ 128" using le_value_less [of m] m by (simp add: t_def)
  then have tb: "t div 2 ^ 104 < 2 ^ 24" by (intro div_bound) simp
  have t4: "t div 2 ^ 104 OR (if full then 2 ^ 24 else 0) = top4" using or_plus [OF tb, of 1] by (simp add: top4_def)
  have b4: "top4 < 2 ^ 25" using tb by (simp add: top4_def)
  define k0 k1 k2 k3 k4 where "k0 = h0 + t mod 2 ^ 26" and "k1 = h1 + t div 2 ^ 26 mod 2 ^ 26" and "k2 = h2 + t div 2 ^ 52 mod 2 ^ 26"
    and "k3 = h3 + t div 2 ^ 78 mod 2 ^ 26" and "k4 = h4 + top4"
  have a: "ld32le m AND M26 = t mod 2 ^ 26" "drop_bit 2 (ld32le (drop 3 m)) AND M26 = t div 2 ^ 26 mod 2 ^ 26"
    "drop_bit 4 (ld32le (drop 6 m)) AND M26 = t div 2 ^ 52 mod 2 ^ 26" "drop_bit 6 (ld32le (drop 9 m)) AND M26 = t div 2 ^ 78 mod 2 ^ 26"
    "drop_bit 8 (ld32le (drop 12 m)) = t div 2 ^ 104"
    unfolding t_def bits26 by (rule load26_0 load26_mid load26_4 [OF m])+
  note w0 = add_limb [OF hb(1), of t, folded k0_def, simplified] note w1 = add_limb [OF hb(2), of "t div 2 ^ 26", folded k1_def, simplified]
  note w2 = add_limb [OF hb(3), of "t div 2 ^ 52", folded k2_def, simplified] note w3 = add_limb [OF hb(4), of "t div 2 ^ 78", folded k3_def, simplified]
  have w4: "w32 k4 = k4" "k4 < 3 * 2 ^ 25" using hb(5) b4 by (simp_all add: k4_def)
  have kb: "k0 < 2 ^ 27" "k1 < 2 ^ 27 + 64" "k2 < 2 ^ 27" "k3 < 2 ^ 27" using w0 w1 w2 w3 by simp_all
  have w: "w32 k0 = k0" "w32 k1 = k1" "w32 k2 = k2" "w32 k3 = k3" using w0 w1 w2 w3 by simp_all
  obtain d0 d1 d2 d3 d4 where d: "mul26 (r0, r1, r2, r3, r4) (k0, k1, k2, k3, k4) = (d0, d1, d2, d3, d4)"
      "d0 < 3 * 2 ^ 56" "d1 < 3 * 2 ^ 56" "d2 < 3 * 2 ^ 56" "d3 < 3 * 2 ^ 56" "d4 < 23 * 2 ^ 51"
      "val26 (d0, d1, d2, d3, d4) mod P = val26 (k0, k1, k2, k3, k4) * val26 (r0, r1, r2, r3, r4) mod P"
    using mul26_value [OF kb w4(2) rb] by blast
  obtain j0 j1 j2 j3 j4 where j: "carry26 (d0, d1, d2, d3, d4) = (j0, j1, j2, j3, j4)" by (metis prod_cases5)
  note c = carry26_value [OF d(2-6) j]
  have e: "block26 full m l = l\<lparr>f_h := (j0, j1, j2, j3, j4)\<rparr>"
    unfolding block26_def h prod.case Let_def a t4 unfolding k0_def [symmetric] k1_def [symmetric] k2_def [symmetric] k3_def [symmetric] k4_def [symmetric] w w4(1) r d(1) j ..
  have v: "val26 (k0, k1, k2, k3, k4) = num26 l + t + (if full then 2 ^ 128 else 0)"
  proof -
    have *: "val26 (h0 + x0, h1 + x1, h2 + x2, h3 + x3, h4 + (x4 + b)) = val26 (h0, h1, h2, h3, h4) + (x0 + 2 ^ 26 * (x1 + 2 ^ 26 * (x2 + 2 ^ 26 * (x3 + 2 ^ 26 * x4)))) + 2 ^ 104 * b"
      for x0 x1 x2 x3 x4 b by (simp add: val26_def)
    have "2 ^ 104 * (if full then 2 ^ 24 else 0 :: nat) = (if full then 2 ^ 128 else 0)" by simp
    then show ?thesis unfolding k0_def k1_def k2_def k3_def k4_def top4_def * digits26 num26_def h by (simp only:)
  qed
  show ?thesis using ok c d(7) v by (simp add: e ok26_def num26_def t_def r)
qed

section \<open>Setting up\<close>

lemma clamp26:
  fixes t :: nat
  shows "t AND 0x0ffffffc0ffffffc0ffffffc0fffffff =
    (t mod 2 ^ 26 AND 0x03ffffff) + 2 ^ 26 * ((t div 2 ^ 26 mod 2 ^ 26 AND 0x03ffff03) + 2 ^ 26 * ((t div 2 ^ 52 mod 2 ^ 26 AND 0x03ffc0ff) +
      2 ^ 26 * ((t div 2 ^ 78 mod 2 ^ 26 AND 0x03f03fff) + 2 ^ 26 * (t div 2 ^ 104 AND 0x000fffff))))"
proof -
  have e: "t div 2 ^ 52 = t div 2 ^ 26 div 2 ^ 26" "t div 2 ^ 78 = t div 2 ^ 26 div 2 ^ 26 div 2 ^ 26" "t div 2 ^ 104 = t div 2 ^ 26 div 2 ^ 26 div 2 ^ 26 div 2 ^ 26"
    by (simp_all add: div_mult2_eq [symmetric])
  have s: "x AND 0x0ffffffc0ffffffc0ffffffc0fffffff = (x mod 2 ^ 26 AND 0x03ffffff) + 2 ^ 26 * (x div 2 ^ 26 AND 0x3ffffff03ffffff03ffffff03)"
    "x AND 0x3ffffff03ffffff03ffffff03 = (x mod 2 ^ 26 AND 0x03ffff03) + 2 ^ 26 * (x div 2 ^ 26 AND 0xffffffc0ffffffc0ff)"
    "x AND 0xffffffc0ffffffc0ff = (x mod 2 ^ 26 AND 0x03ffc0ff) + 2 ^ 26 * (x div 2 ^ 26 AND 0x3ffffff03fff)"
    "x AND 0x3ffffff03fff = (x mod 2 ^ 26 AND 0x03f03fff) + 2 ^ 26 * (x div 2 ^ 26 AND 0x000fffff)" for x :: nat
    by (rule trans [OF and_split [of _ _ 26]], simp)+
  show ?thesis unfolding e s ..
qed

lemma setup26_ok:
  assumes "length key = 32"
  shows "ok26 key (setup26 key) \<and> num26 (setup26 key) = 0"
proof -
  define t where "t = le_value (take 16 key)"
  have l: "length (take 16 key) = 16" using assms by simp
  have d: "ld32le (take 16 key) = ld32le key" "ld32le (drop 3 (take 16 key)) = ld32le (drop 3 key)" "ld32le (drop 6 (take 16 key)) = ld32le (drop 6 key)"
    "ld32le (drop 9 (take 16 key)) = ld32le (drop 9 key)" "ld32le (drop 12 (take 16 key)) = ld32le (drop 12 key)"
    by (simp_all add: ld32le_def drop_take)
  have r: "ld32le key AND 0x03ffffff = t mod 2 ^ 26 AND 0x03ffffff" "drop_bit 2 (ld32le (drop 3 key)) AND 0x03ffff03 = t div 2 ^ 26 mod 2 ^ 26 AND 0x03ffff03"
    "drop_bit 4 (ld32le (drop 6 key)) AND 0x03ffc0ff = t div 2 ^ 52 mod 2 ^ 26 AND 0x03ffc0ff" "drop_bit 6 (ld32le (drop 9 key)) AND 0x03f03fff = t div 2 ^ 78 mod 2 ^ 26 AND 0x03f03fff"
    "drop_bit 8 (ld32le (drop 12 key)) = t div 2 ^ 104"
    unfolding t_def load26_0 [symmetric] load26_mid [symmetric] load26_4 [OF l, symmetric] unfolding d
    by (rule and_below, simp)+ (rule refl)
  have b: "x AND 0x03ffffff < 2 ^ 26" "x AND 0x03ffff03 < 2 ^ 26" "x AND 0x03ffc0ff < 2 ^ 26" "x AND 0x03f03fff < 2 ^ 26" "x AND 0x000fffff < 2 ^ 20" for x :: nat
    using and_bound [of x "0x03ffffff"] and_bound [of x "0x03ffff03"] and_bound [of x "0x03ffc0ff"] and_bound [of x "0x03f03fff"] and_bound [of x "0x000fffff"] by simp_all
  have e: "f_r (setup26 key) = (t mod 2 ^ 26 AND 0x03ffffff, t div 2 ^ 26 mod 2 ^ 26 AND 0x03ffff03, t div 2 ^ 52 mod 2 ^ 26 AND 0x03ffc0ff,
      t div 2 ^ 78 mod 2 ^ 26 AND 0x03f03fff, t div 2 ^ 104 AND 0x000fffff)"
    "f_h (setup26 key) = (0, 0, 0, 0, 0)" "f_pad (setup26 key) = (ld32le (drop 16 key), ld32le (drop 20 key), ld32le (drop 24 key), ld32le (drop 28 key))"
    by (simp_all only: setup26_def r limbs26.select_convs)
  have "val26 (f_r (setup26 key)) = t AND 0x0ffffffc0ffffffc0ffffffc0fffffff" unfolding e val26_def prod.case by (rule clamp26 [symmetric])
  then have "ok26 key (setup26 key)" unfolding ok26_def t_def [symmetric] unfolding e prod.case by (intro conjI b) simp_all
  then show ?thesis by (simp add: num26_def e(2) val26_def)
qed

section \<open>The tag\<close>

definition norm26 :: "five \<Rightarrow> bool" where
  "norm26 h = (case h of (h0, h1, h2, h3, h4) \<Rightarrow> h0 < 2 ^ 26 \<and> h1 < 2 ^ 26 \<and> h2 < 2 ^ 26 \<and> h3 < 2 ^ 26 \<and> h4 < 2 ^ 26)"

lemma norm26_less: "norm26 h \<Longrightarrow> val26 h < 2 ^ 130"
  by (auto simp: norm26_def val26_def split: prod.splits)

text \<open>
  One pass of carries is enough here: a carry out of \<^verbatim>\<open>h1\<close> leaves it below 64, and without one
  nothing moves.
\<close>

lemma settle26_norm:
  assumes "h0 < 2 ^ 26" "h1 < 2 ^ 26 + 64" "h2 < 2 ^ 26" "h3 < 2 ^ 26" "h4 < 2 ^ 26"
  shows "norm26 (settle26 (h0, h1, h2, h3, h4)) \<and> val26 (settle26 (h0, h1, h2, h3, h4)) mod P = val26 (h0, h1, h2, h3, h4) mod P"
proof (cases "h1 < 2 ^ 26")
  case True
  have z: "h div 2 ^ 26 = 0" "h mod 2 ^ 26 = h" "w32 h = h" if "h < 2 ^ 26" for h :: nat using that by simp_all
  have "settle26 (h0, h1, h2, h3, h4) = (h0, h1, h2, h3, h4)"
    by (simp only: settle26_def Let_def prod.case bits26 drop_bit_eq_div z [OF True] z [OF assms(1)] z [OF assms(3)] z [OF assms(4)] z [OF assms(5)] add_0_right mult_zero_left mod_0)
  then show ?thesis using assms True by (simp add: norm26_def)
next
  case False
  define x1 where "x1 = h1 - 2 ^ 26"
  have x1: "h1 = x1 + 2 ^ 26" "x1 < 64" using False assms(2) by (simp_all add: x1_def)
  have one: "h div 2 ^ 26 \<le> 1" if "h < 2 ^ 27" for h :: nat using div_bound [of h "2 ^ 26" 2] that by simp
  define e2 where "e2 = h2 + 1"
  define e3 where "e3 = h3 + e2 div 2 ^ 26"
  define e4 where "e4 = h4 + e3 div 2 ^ 26"
  define g where "g = h0 + 5 * (e4 div 2 ^ 26)"
  have b2: "e2 < 2 ^ 27" using assms by (simp add: e2_def)
  have b3: "e3 < 2 ^ 27" using assms one [OF b2] by (simp add: e3_def)
  have b4: "e4 < 2 ^ 27" using assms one [OF b3] by (simp add: e4_def)
  have b5: "g < 2 ^ 27" using assms one [OF b4] by (simp add: g_def)
  have d1: "h1 div 2 ^ 26 = 1" "h1 mod 2 ^ 26 = x1" using x1 by (simp_all add: div_nat_eqI)
  have w2: "w32 (h2 + 1) = e2" unfolding e2_def [symmetric] by (rule mod_small [OF b2]) simp
  have w3: "w32 (h3 + e2 div 2 ^ 26) = e3" unfolding e3_def [symmetric] by (rule mod_small [OF b3]) simp
  have w4: "w32 (h4 + e3 div 2 ^ 26) = e4" unfolding e4_def [symmetric] by (rule mod_small [OF b4]) simp
  have w5: "w32 (e4 div 2 ^ 26 * 5) = 5 * (e4 div 2 ^ 26)" using one [OF b4] by (subst mult.commute) (intro mod_less, simp)
  have w6: "w32 (h0 + 5 * (e4 div 2 ^ 26)) = g" unfolding g_def [symmetric] by (rule mod_small [OF b5]) simp
  have b6: "x1 + g div 2 ^ 26 < 2 ^ 26" using x1(2) one [OF b5] by simp
  then have w7: "w32 (x1 + g div 2 ^ 26) = x1 + g div 2 ^ 26" by (rule mod_small) simp
  have e: "settle26 (h0, h1, h2, h3, h4) = (g mod 2 ^ 26, x1 + g div 2 ^ 26, e2 mod 2 ^ 26, e3 mod 2 ^ 26, e4 mod 2 ^ 26)"
    unfolding settle26_def Let_def prod.case bits26(1) drop_bit_eq_div d1 w2 w3 w4 w5 w6 w7 ..
  have "g mod 2 ^ 26 + 2 ^ 26 * (x1 + g div 2 ^ 26 + 2 ^ 26 * (e2 mod 2 ^ 26 + 2 ^ 26 * (e3 mod 2 ^ 26 + 2 ^ 26 * (e4 mod 2 ^ 26)))) + (2 ^ 26) ^ 5 * (e4 div 2 ^ 26) =
      h0 + 2 ^ 26 * (h1 + 2 ^ 26 * (h2 + 2 ^ 26 * (h3 + 2 ^ 26 * h4))) + 5 * (e4 div 2 ^ 26)"
    by (rule carry_five_eq [where ?x0.0 = h0 and ?y0.0 = 0 and ?y1.0 = 1 and ?y2.0 = "e2 div 2 ^ 26" and ?y3.0 = "e3 div 2 ^ 26"])
      (simp_all only: mod_mult_div_eq e2_def [symmetric] e3_def [symmetric] e4_def [symmetric] g_def [symmetric] x1(1) mult_0_right add_0_right mult_1_right)
  then have "val26 (g mod 2 ^ 26, x1 + g div 2 ^ 26, e2 mod 2 ^ 26, e3 mod 2 ^ 26, e4 mod 2 ^ 26) + P * (e4 div 2 ^ 26) = val26 (h0, h1, h2, h3, h4)"
    unfolding val26_def prod.case by (rule five_modulus)
  from mod_add_multiple [OF this] show ?thesis using b6 by (simp add: e norm26_def)
qed

lemma and_ones32: "x < 2 ^ 32 \<Longrightarrow> x AND 0xffffffff = x" for x :: nat using and_mask [of x 32] by simp

lemma select26_value:
  assumes "norm26 h"
  shows "norm26 (select26 h) \<and> val26 (select26 h) = val26 h mod P"
proof -
  obtain h0 h1 h2 h3 h4 where h: "h = (h0, h1, h2, h3, h4)" by (metis prod_cases5)
  have n: "h0 < 2 ^ 26" "h1 < 2 ^ 26" "h2 < 2 ^ 26" "h3 < 2 ^ 26" "h4 < 2 ^ 26" using assms by (simp_all add: h norm26_def)
  have v: "val26 h < 2 ^ 130" by (rule norm26_less [OF assms])
  have one: "x div 2 ^ 26 < 2" if "x < 2 ^ 27" for x :: nat using that by (intro div_bound) simp
  define e0 where "e0 = h0 + 5"
  define e1 where "e1 = h1 + e0 div 2 ^ 26"
  define e2 where "e2 = h2 + e1 div 2 ^ 26"
  define e3 where "e3 = h3 + e2 div 2 ^ 26"
  define q where "q = h4 + e3 div 2 ^ 26"
  have b0: "e0 < 2 ^ 27" using n by (simp add: e0_def)
  have b1: "e1 < 2 ^ 27" using n one [OF b0] by (simp add: e1_def)
  have b2: "e2 < 2 ^ 27" using n one [OF b1] by (simp add: e2_def)
  have b3: "e3 < 2 ^ 27" using n one [OF b2] by (simp add: e3_def)
  have b4: "q \<le> 2 ^ 26" using n one [OF b3] by (simp add: q_def)
  define g0 g1 g2 g3 where "g0 = e0 mod 2 ^ 26" and "g1 = e1 mod 2 ^ 26" and "g2 = e2 mod 2 ^ 26" and "g3 = e3 mod 2 ^ 26"
  have g: "g0 < 2 ^ 26" "g1 < 2 ^ 26" "g2 < 2 ^ 26" "g3 < 2 ^ 26" by (simp_all add: g0_def g1_def g2_def g3_def)
  have e: "val26 h + 5 = val26 (g0, g1, g2, g3, q)"
  proof -
    have *: "h0 + A * (h1 + A * (h2 + A * (h3 + A * h4))) + 5 = g0 + A * (g1 + A * (g2 + A * (g3 + A * (h4 + y3))))"
      if "h0 + 5 = g0 + A * y0" "h1 + y0 = g1 + A * y1" "h2 + y1 = g2 + A * y2" "h3 + y2 = g3 + A * y3" for A y0 y1 y2 y3 :: nat
    proof -
      have "g0 + A * (g1 + A * (g2 + A * (g3 + A * (h4 + y3)))) = g0 + A * (g1 + A * (g2 + A * (h4 * A + (g3 + A * y3))))" by (simp add: algebra_simps)
      also have "\<dots> = g0 + A * (g1 + A * (h3 * A + h4 * A * A + (g2 + A * y2)))" unfolding that(4) [symmetric] by (simp add: algebra_simps)
      also have "\<dots> = g0 + A * (h2 * A + h3 * A * A + h4 * A * A * A + (g1 + A * y1))" unfolding that(3) [symmetric] by (simp add: algebra_simps)
      also have "\<dots> = (g0 + A * y0) + A * (h1 + h2 * A + h3 * A * A + h4 * A * A * A)" unfolding that(2) [symmetric] by (simp add: algebra_simps)
      finally show ?thesis unfolding that(1) [symmetric] by (simp add: algebra_simps)
    qed
    show ?thesis unfolding h val26_def prod.case q_def
      by (rule * [where ?y0.0 = "e0 div 2 ^ 26" and ?y1.0 = "e1 div 2 ^ 26" and ?y2.0 = "e2 div 2 ^ 26"])
        (simp_all only: mod_mult_div_eq e0_def [symmetric] e1_def [symmetric] e2_def [symmetric] e3_def [symmetric] g0_def g1_def g2_def g3_def)
  qed
  have w: "w32 (h0 + 5) = e0" "w32 (h1 + e0 div 2 ^ 26) = e1" "w32 (h2 + e1 div 2 ^ 26) = e2" "w32 (h3 + e2 div 2 ^ 26) = e3"
    unfolding e0_def [symmetric] e1_def [symmetric] e2_def [symmetric] e3_def [symmetric]
    by (rule mod_small [OF b0], simp, rule mod_small [OF b1], simp, rule mod_small [OF b2], simp, rule mod_small [OF b3], simp)
  define m where "m = w32 (drop_bit 31 (w32 (q + 2 ^ 32 - 2 ^ 26)) + 2 ^ 32 - 1)"
  have s: "select26 h = ((h0 AND not32 m) OR (g0 AND m), (h1 AND not32 m) OR (g1 AND m), (h2 AND not32 m) OR (g2 AND m),
      (h3 AND not32 m) OR (g3 AND m), (h4 AND not32 m) OR (w32 (q + 2 ^ 32 - 2 ^ 26) AND m))"
    unfolding select26_def h Let_def prod.case bits26(1) drop_bit_eq_div [of 26] w q_def [symmetric] g0_def [symmetric] g1_def [symmetric] g2_def [symmetric] g3_def [symmetric] m_def ..
  show ?thesis
  proof (cases "q = 2 ^ 26")
    case True
    have "w32 (q + 2 ^ 32 - 2 ^ 26) = 0" "m = 2 ^ 32 - 1" by (simp_all add: m_def True)
    then have "select26 h = (g0, g1, g2, g3, 0)" unfolding s using g by (simp add: not32_def and_ones32 del: One_nat_def)
    moreover have "val26 (g0, g1, g2, g3, 0) = val26 h + 5 - 2 ^ 130" "val26 h + 5 \<ge> 2 ^ 130" unfolding e by (simp_all add: val26_def True)
    ultimately show ?thesis using residue_of [OF v] g by (simp add: norm26_def)
  next
    case False
    then have q: "q < 2 ^ 26" using b4 by simp
    then have "w32 (q + 2 ^ 32 - 2 ^ 26) = q + 2 ^ 32 - 2 ^ 26" by (intro mod_less) simp
    moreover have "drop_bit 31 (q + 2 ^ 32 - 2 ^ 26) = 1" unfolding drop_bit_eq_div using q by (intro div_nat_eqI) simp_all
    ultimately have "m = w32 (1 + 2 ^ 32 - 1)" unfolding m_def by (simp only:)
    then have "m = 0" by simp
    then have "select26 h = h" unfolding s unfolding h using n by (simp add: not32_def and_ones32 del: One_nat_def)
    moreover have "val26 h + 5 < 2 ^ 130" unfolding e by (rule norm26_less) (use g q in \<open>simp add: norm26_def\<close>)
    ultimately show ?thesis using residue_of [OF v] assms by simp
  qed
qed

text \<open>Four words of 32 bits from five limbs, and their sum with the pad.\<close>

lemma join32:
  assumes "a < 2 ^ k" "k + j = 32"
  shows "(a OR w32 (push_bit k b)) AND 0xffffffff = a + 2 ^ k * (b mod 2 ^ j)" "a + 2 ^ k * (b mod 2 ^ j) < 2 ^ 32"
proof -
  have p: "(2::nat) ^ 32 = 2 ^ k * 2 ^ j" using assms(2) by (simp only: power_add [symmetric])
  have "w32 (push_bit k b) = 2 ^ k * (b mod 2 ^ j)" unfolding p push_bit_eq_mult by (simp only: mult.commute [of b] mult_mod_right)
  then have e: "a OR w32 (push_bit k b) = a + 2 ^ k * (b mod 2 ^ j)" by (simp only: or_plus [OF assms(1)])
  have "b mod 2 ^ j + 1 \<le> 2 ^ j" by (simp add: Suc_leI)
  then have "2 ^ k * (b mod 2 ^ j + 1) \<le> 2 ^ k * 2 ^ j" by (rule mult_le_mono2)
  then show l: "a + 2 ^ k * (b mod 2 ^ j) < 2 ^ 32" unfolding p using assms(1) by (simp add: algebra_simps)
  show "(a OR w32 (push_bit k b)) AND 0xffffffff = a + 2 ^ k * (b mod 2 ^ j)" unfolding e by (rule and_ones32 [OF l])
qed

lemma words26:
  assumes "norm26 (h0, h1, h2, h3, h4)"
  defines "w0 \<equiv> h0 + 2 ^ 26 * (h1 mod 2 ^ 6)" and "w1 \<equiv> h1 div 2 ^ 6 + 2 ^ 20 * (h2 mod 2 ^ 12)"
    and "w2 \<equiv> h2 div 2 ^ 12 + 2 ^ 14 * (h3 mod 2 ^ 18)" and "w3 \<equiv> h3 div 2 ^ 18 + 2 ^ 8 * (h4 mod 2 ^ 24)"
  shows "(h0 OR w32 (push_bit 26 h1)) AND 0xffffffff = w0" "(drop_bit 6 h1 OR w32 (push_bit 20 h2)) AND 0xffffffff = w1"
    "(drop_bit 12 h2 OR w32 (push_bit 14 h3)) AND 0xffffffff = w2" "(drop_bit 18 h3 OR w32 (push_bit 8 h4)) AND 0xffffffff = w3"
    "w0 < 2 ^ 32" "w1 < 2 ^ 32" "w2 < 2 ^ 32" "w3 < 2 ^ 32"
    "val26 (h0, h1, h2, h3, h4) = w0 + 2 ^ 32 * (w1 + 2 ^ 32 * (w2 + 2 ^ 32 * (w3 + 2 ^ 32 * (h4 div 2 ^ 24))))"
proof -
  have n: "h0 < 2 ^ 26" "h1 < 2 ^ 6 * 2 ^ 20" "h2 < 2 ^ 12 * 2 ^ 14" "h3 < 2 ^ 18 * 2 ^ 8" using assms(1) by (simp_all add: norm26_def)
  note d = div_bound [OF n(2)] div_bound [OF n(3)] div_bound [OF n(4)]
  have s: "26 + 6 = (32 :: nat)" "20 + 12 = (32 :: nat)" "14 + 18 = (32 :: nat)" "8 + 24 = (32 :: nat)" by simp_all
  note j = join32 [OF n(1) s(1), of h1, folded w0_def] join32 [OF d(1) s(2), of h2, folded w1_def] join32 [OF d(2) s(3), of h3, folded w2_def] join32 [OF d(3) s(4), of h4, folded w3_def]
  show "(h0 OR w32 (push_bit 26 h1)) AND 0xffffffff = w0" "(drop_bit 6 h1 OR w32 (push_bit 20 h2)) AND 0xffffffff = w1"
    "(drop_bit 12 h2 OR w32 (push_bit 14 h3)) AND 0xffffffff = w2" "(drop_bit 18 h3 OR w32 (push_bit 8 h4)) AND 0xffffffff = w3"
    "w0 < 2 ^ 32" "w1 < 2 ^ 32" "w2 < 2 ^ 32" "w3 < 2 ^ 32"
    unfolding drop_bit_eq_div by (rule j)+
  have *: "val26 (h0, a1 + 2 ^ 6 * b1, a2 + 2 ^ 12 * b2, a3 + 2 ^ 18 * b3, a4 + 2 ^ 24 * b4) =
      (h0 + 2 ^ 26 * a1) + 2 ^ 32 * ((b1 + 2 ^ 20 * a2) + 2 ^ 32 * ((b2 + 2 ^ 14 * a3) + 2 ^ 32 * ((b3 + 2 ^ 8 * a4) + 2 ^ 32 * b4)))" for a1 a2 a3 a4 b1 b2 b3 b4
    by (simp add: val26_def)
  show "val26 (h0, h1, h2, h3, h4) = w0 + 2 ^ 32 * (w1 + 2 ^ 32 * (w2 + 2 ^ 32 * (w3 + 2 ^ 32 * (h4 div 2 ^ 24))))"
    using * [of "h1 mod 2 ^ 6" "h1 div 2 ^ 6" "h2 mod 2 ^ 12" "h2 div 2 ^ 12" "h3 mod 2 ^ 18" "h3 div 2 ^ 18" "h4 mod 2 ^ 24" "h4 div 2 ^ 24"]
    unfolding w0_def w1_def w2_def w3_def by (simp only: mod_mult_div_eq)
qed

lemma add_four:
  fixes A :: nat
  assumes "w0 + p0 = x0 + A * c0" "w1 + p1 + c0 = x1 + A * c1" "w2 + p2 + c1 = x2 + A * c2" "w3 + p3 + c2 = x3 + A * c3"
  shows "x0 + A * (x1 + A * (x2 + A * (x3 + A * (c3 + y)))) = (w0 + A * (w1 + A * (w2 + A * (w3 + A * y)))) + (p0 + A * (p1 + A * (p2 + A * p3)))"
proof -
  have "x0 + A * (x1 + A * (x2 + A * (x3 + A * (c3 + y)))) = x0 + A * (x1 + A * (x2 + A * (A * y + (x3 + A * c3))))" by (simp add: algebra_simps)
  also have "\<dots> = x0 + A * (x1 + A * (A * (w3 + p3 + A * y) + (x2 + A * c2)))" unfolding assms(4) [symmetric] by (simp add: algebra_simps)
  also have "\<dots> = x0 + A * (A * (w2 + p2 + A * (w3 + p3 + A * y)) + (x1 + A * c1))" unfolding assms(3) [symmetric] by (simp add: algebra_simps)
  also have "\<dots> = (x0 + A * c0) + A * (w1 + p1 + A * (w2 + p2 + A * (w3 + p3 + A * y)))" unfolding assms(2) [symmetric] by (simp add: algebra_simps)
  finally show ?thesis unfolding assms(1) [symmetric] by (simp add: algebra_simps)
qed

lemma store_words:
  fixes x0 x1 x2 x3 :: nat
  assumes "x0 < 2 ^ 32" "x1 < 2 ^ 32" "x2 < 2 ^ 32" "x3 < 2 ^ 32"
  shows "st64le (x0 OR w64 (push_bit 32 x1)) @ st64le (x2 OR w64 (push_bit 32 x3)) = le_bytes 16 (x0 + 2 ^ 32 * (x1 + 2 ^ 32 * (x2 + 2 ^ 32 * (x3 + 2 ^ 32 * y))))"
proof -
  have w: "w64 (push_bit 32 x1) = 2 ^ 32 * x1" "w64 (push_bit 32 x3) = 2 ^ 32 * x3" using assms by (simp_all add: push_bit_eq_mult)
  have lo: "x0 + 2 ^ 32 * x1 < 2 ^ 64" using assms by simp
  have v: "x0 + 2 ^ 32 * (x1 + 2 ^ 32 * (x2 + 2 ^ 32 * (x3 + 2 ^ 32 * y))) = (x0 + 2 ^ 32 * x1) + 2 ^ 64 * (x2 + 2 ^ 32 * x3 + 2 ^ 64 * y)" by simp
  have "le_bytes 16 n = le_bytes 8 n @ le_bytes 8 (n div 2 ^ 64)" for n using le_bytes_append [of 8 8 n] by simp
  moreover have "((x0 + 2 ^ 32 * x1) + 2 ^ 64 * (x2 + 2 ^ 32 * x3 + 2 ^ 64 * y)) div 2 ^ 64 = x2 + 2 ^ 32 * x3 + 2 ^ 64 * y" using lo by (simp only: div_mult_self2) simp
  ultimately show ?thesis unfolding v w or_plus [OF assms(1)] or_plus [OF assms(3)] st64le_def by (simp only: le_bytes_high)
qed

lemma pad26:
  assumes "length m = 16"
  shows "le_value m = ld32le m + 2 ^ 32 * (ld32le (drop 4 m) + 2 ^ 32 * (ld32le (drop 8 m) + 2 ^ 32 * ld32le (drop 12 m)))"
    "ld32le m < 2 ^ 32" "ld32le (drop 4 m) < 2 ^ 32" "ld32le (drop 8 m) < 2 ^ 32" "ld32le (drop 12 m) < 2 ^ 32"
proof -
  have b: "ld32le x < 2 ^ 32" if "length x \<ge> 4" for x using le_value_less [of "take 4 x"] that by (simp add: ld32le_def)
  then show "ld32le m < 2 ^ 32" "ld32le (drop 4 m) < 2 ^ 32" "ld32le (drop 8 m) < 2 ^ 32" "ld32le (drop 12 m) < 2 ^ 32" using assms by simp_all
  have s: "le_value x = ld32le x + 2 ^ 32 * le_value (drop 4 x)" if "length x \<ge> 4" for x
    using le_value_append [of "take 4 x" "drop 4 x"] that by (simp add: ld32le_def)
  have "le_value (drop 12 m) = ld32le (drop 12 m)" using assms by (simp add: ld32le_def)
  then show "le_value m = ld32le m + 2 ^ 32 * (ld32le (drop 4 m) + 2 ^ 32 * (ld32le (drop 8 m) + 2 ^ 32 * ld32le (drop 12 m)))"
    using s [of m] s [of "drop 4 m"] s [of "drop 8 m"] assms by simp
qed

lemma tag26_ok:
  assumes ok: "ok26 key l" and key: "length key = 32"
  shows "tag26 l = le_bytes 16 (num26 l mod P + le_value (drop 16 key))"
proof -
  obtain h0 h1 h2 h3 h4 where h: "f_h l = (h0, h1, h2, h3, h4)" by (metis prod_cases5)
  have hb: "h0 < 2 ^ 26" "h1 < 2 ^ 26 + 64" "h2 < 2 ^ 26" "h3 < 2 ^ 26" "h4 < 2 ^ 26" using ok by (simp_all add: ok26_def h)
  obtain k0 k1 k2 k3 k4 where k: "select26 (settle26 (h0, h1, h2, h3, h4)) = (k0, k1, k2, k3, k4)" by (metis prod_cases5)
  have "norm26 (k0, k1, k2, k3, k4) \<and> val26 (k0, k1, k2, k3, k4) = num26 l mod P"
    using settle26_norm [OF hb] select26_value [of "settle26 (h0, h1, h2, h3, h4)"] by (simp add: k num26_def h)
  then have kn: "norm26 (k0, k1, k2, k3, k4)" and kv: "val26 (k0, k1, k2, k3, k4) = num26 l mod P" by simp_all
  define w0 w1 w2 w3 where "w0 = k0 + 2 ^ 26 * (k1 mod 2 ^ 6)" and "w1 = k1 div 2 ^ 6 + 2 ^ 20 * (k2 mod 2 ^ 12)"
    and "w2 = k2 div 2 ^ 12 + 2 ^ 14 * (k3 mod 2 ^ 18)" and "w3 = k3 div 2 ^ 18 + 2 ^ 8 * (k4 mod 2 ^ 24)"
  note w = words26 [OF kn, folded w0_def w1_def w2_def w3_def]
  define p0 p1 p2 p3 where "p0 = ld32le (drop 16 key)" and "p1 = ld32le (drop 20 key)" and "p2 = ld32le (drop 24 key)" and "p3 = ld32le (drop 28 key)"
  have "length (drop 16 key) = 16" using key by simp
  note p = pad26 [OF this, unfolded drop_drop, simplified numeral_plus_numeral add_num_simps, folded p0_def p1_def p2_def p3_def]
  define f0 where "f0 = w0 + p0"
  define f1 where "f1 = w1 + p1 + f0 div 2 ^ 32"
  define f2 where "f2 = w2 + p2 + f1 div 2 ^ 32"
  define f3 where "f3 = w3 + p3 + f2 div 2 ^ 32"
  have c: "x div 2 ^ 32 < 2 ^ 32" if "x < 2 ^ 64" for x :: nat using that by (intro div_bound) simp
  have b0: "f0 < 2 ^ 64" using w(5) p(2) by (simp add: f0_def)
  have b1: "f1 < 2 ^ 64" using w(6) p(3) c [OF b0] by (simp add: f1_def)
  have b2: "f2 < 2 ^ 64" using w(7) p(4) c [OF b1] by (simp add: f2_def)
  have b3: "f3 < 2 ^ 64" using w(8) p(5) c [OF b2] by (simp add: f3_def)
  have v: "w64 (w0 + p0) = f0" "w64 (w1 + p1 + f0 div 2 ^ 32) = f1" "w64 (w2 + p2 + f1 div 2 ^ 32) = f2" "w64 (w3 + p3 + f2 div 2 ^ 32) = f3"
    unfolding f0_def [symmetric] f1_def [symmetric] f2_def [symmetric] f3_def [symmetric] by (rule mod_less [OF b0] mod_less [OF b1] mod_less [OF b2] mod_less [OF b3])+
  have pad: "f_pad l = (p0, p1, p2, p3)" using ok by (simp add: ok26_def p0_def p1_def p2_def p3_def)
  have "tag26 l = st64le (w32 f0 OR w64 (push_bit 32 (w32 f1))) @ st64le (w32 f2 OR w64 (push_bit 32 (w32 f3)))"
    unfolding tag26_def h k pad prod.case Let_def w(1-4) drop_bit_eq_div [of 32] v ..
  also have "\<dots> = le_bytes 16 (w32 f0 + 2 ^ 32 * (w32 f1 + 2 ^ 32 * (w32 f2 + 2 ^ 32 * (w32 f3 + 2 ^ 32 * (f3 div 2 ^ 32 + k4 div 2 ^ 24)))))"
    by (rule store_words) simp_all
  also have "w32 f0 + 2 ^ 32 * (w32 f1 + 2 ^ 32 * (w32 f2 + 2 ^ 32 * (w32 f3 + 2 ^ 32 * (f3 div 2 ^ 32 + k4 div 2 ^ 24)))) =
      (w0 + 2 ^ 32 * (w1 + 2 ^ 32 * (w2 + 2 ^ 32 * (w3 + 2 ^ 32 * (k4 div 2 ^ 24))))) + (p0 + 2 ^ 32 * (p1 + 2 ^ 32 * (p2 + 2 ^ 32 * p3)))"
    by (rule add_four [where ?c0.0 = "f0 div 2 ^ 32" and ?c1.0 = "f1 div 2 ^ 32" and ?c2.0 = "f2 div 2 ^ 32"])
      (simp_all only: mod_mult_div_eq f0_def [symmetric] f1_def [symmetric] f2_def [symmetric] f3_def [symmetric])
  also have "\<dots> = num26 l mod P + le_value (drop 16 key)" unfolding w(9) [symmetric] kv p(1) ..
  finally show ?thesis .
qed

end
