(* ===== verification/Poly1305_Exact.thy ===== *)
theory Poly1305_Exact
  imports Poly1305_Limbs26
begin

text \<open>
  The authenticator as RFC 8439 defines it, over numbers, and the interface through which a limb
  layout implements it: what setting up, one block and the tag do to the number the limbs stand for.
  Inside the interface every way of cutting a message into updates gives the authenticator of the
  whole message.
\<close>

section \<open>The reference\<close>

definition poly1305_r :: "bytes \<Rightarrow> nat" where
  "poly1305_r key = le_value (take 16 key) AND 0x0ffffffc0ffffffc0ffffffc0fffffff"

function poly1305_sum :: "nat \<Rightarrow> bytes \<Rightarrow> nat \<Rightarrow> nat" where
  "poly1305_sum r m a = (if m = [] then a else poly1305_sum r (drop 16 m) ((a + le_value (take 16 m @ [1])) * r mod (2 ^ 130 - 5)))"
  by pat_completeness auto
termination by (relation "measure (\<lambda>(_, m, _). length m)") auto

declare poly1305_sum.simps [simp del]

definition poly1305_mac :: "bytes \<Rightarrow> bytes \<Rightarrow> bytes" where
  "poly1305_mac key m = le_bytes 16 (poly1305_sum (poly1305_r key) m 0 + le_value (drop 16 key))"

lemma poly1305_sum_append: "16 dvd length m \<Longrightarrow> poly1305_sum r (m @ n) a = poly1305_sum r n (poly1305_sum r m a)"
proof (induction r m a rule: poly1305_sum.induct)
  case (1 r m a)
  show ?case
  proof (cases "m = []")
    case False
    then have len: "16 \<le> length m" using 1(2) by (simp add: dvd_imp_le)
    then have "16 dvd length (drop 16 m)" using 1(2) by (simp add: dvd_diff_nat)
    note ih = 1(1) [OF False this]
    have "poly1305_sum r (m @ n) a = poly1305_sum r (drop 16 m @ n) ((a + le_value (take 16 m @ [1])) * r mod P)"
      using False len by (subst poly1305_sum.simps) simp
    also have "\<dots> = poly1305_sum r n (poly1305_sum r m a)" unfolding ih by (subst (3) poly1305_sum.simps) (simp add: False)
    finally show ?thesis .
  qed (simp add: poly1305_sum.simps)
qed

lemma poly1305_sum_block: "m \<noteq> [] \<Longrightarrow> length m \<le> 16 \<Longrightarrow> poly1305_sum r m a = (a + le_value (m @ [1])) * r mod P"
  by (subst poly1305_sum.simps, subst poly1305_sum.simps) simp

lemma mark_full: "length m = 16 \<Longrightarrow> le_value (m @ [1]) = le_value m + 2 ^ 128"
  by (simp add: le_value_append)

text \<open>An update of an empty buffer, and one that fills the buffer.\<close>

lemma poly_update_empty:
  assumes "po_buf st = []"
  shows "poly_update block st m =
    (let whole = length m - length m mod 16; st = (if length m \<ge> 16 then st\<lparr>po_limbs := poly_run block True (take whole m) (po_limbs st)\<rparr> else st);
         m = (if length m \<ge> 16 then drop whole m else m)
     in if m \<noteq> [] then st\<lparr>po_buf := m\<rparr> else st)"
  by (cases "length m \<ge> 16") (simp_all only: poly_update_def assms Let_def if_True if_False prod.case not_True_eq_False simp_thms)

lemma poly_update_fill:
  assumes "po_buf st \<noteq> []" "length (po_buf st @ take (min (16 - length (po_buf st)) (length m)) m) = 16"
  shows "poly_update block st m =
    poly_update block (st\<lparr>po_limbs := poly_run block True (po_buf st @ take (min (16 - length (po_buf st)) (length m)) m) (po_limbs st), po_buf := []\<rparr>)
      (drop (min (16 - length (po_buf st)) (length m)) m)" (is "_ = poly_update block ?s ?m")
proof -
  let ?first = "\<lambda>st m. if po_buf st \<noteq> []
     then (let n = min (16 - length (po_buf st)) (length m); st = st\<lparr>po_buf := po_buf st @ take n m\<rparr>
           in (if length (po_buf st) = 16 then st\<lparr>po_limbs := poly_run block True (po_buf st) (po_limbs st), po_buf := []\<rparr> else st, drop n m))
     else (st, m)"
  have "?first st m = (?s, ?m)" using assms by (simp add: Let_def)
  moreover have "?first ?s ?m = (?s, ?m)" by simp
  ultimately have "?first st m = ?first ?s ?m" by simp
  then show ?thesis unfolding poly_update_def by (simp only:)
qed

section \<open>The interface of a layout\<close>

locale poly_layout =
  fixes start :: "bytes \<Rightarrow> 'l" and block :: "bool \<Rightarrow> bytes \<Rightarrow> 'l \<Rightarrow> 'l" and tag :: "'l \<Rightarrow> bytes"
    and ok :: "bytes \<Rightarrow> 'l \<Rightarrow> bool" and num :: "'l \<Rightarrow> nat"
  assumes start_ok: "length key = 32 \<Longrightarrow> ok key (start key) \<and> num (start key) = 0"
    and block_ok: "ok key l \<Longrightarrow> length m = 16 \<Longrightarrow>
      ok key (block full m l) \<and> num (block full m l) mod (2 ^ 130 - 5) = (num l + le_value m + (if full then 2 ^ 128 else 0)) * poly1305_r key mod (2 ^ 130 - 5)"
    and tag_ok: "ok key l \<Longrightarrow> length key = 32 \<Longrightarrow> tag l = le_bytes 16 (num l mod (2 ^ 130 - 5) + le_value (drop 16 key))"
begin

lemma step_mod: "(a mod P + b) * r mod P = (a + b) * r mod P"
  by (metis mod_add_left_eq mod_mult_left_eq)

lemma run_ok:
  "ok key l \<Longrightarrow> 16 dvd length m \<Longrightarrow>
    ok key (poly_run block True m l) \<and> num (poly_run block True m l) mod P = poly1305_sum (poly1305_r key) m (num l mod P)"
proof (induction m arbitrary: l rule: measure_induct_rule [of length])
  case (less m)
  show ?case
  proof (cases "length m < 16")
    case True
    then have "m = []" using less(3) by (auto dest: dvd_imp_le)
    then show ?thesis using less(2) by (simp add: poly_run.simps poly1305_sum.simps)
  next
    case False
    then have len: "length (take 16 m) = 16" "16 dvd length (drop 16 m)" "m \<noteq> []" "length (drop 16 m) < length m" using less(3) by (auto simp: dvd_diff_nat)
    note b = block_ok [OF less(2) len(1), of True]
    note ih = less(1) [OF len(4) conjunct1 [OF b] len(2)]
    have "num (block True (take 16 m) l) mod P = (num l mod P + le_value (take 16 m @ [1])) * poly1305_r key mod P"
      unfolding step_mod mark_full [OF len(1)] using conjunct2 [OF b] by (simp only: if_True add.assoc)
    then have "poly1305_sum (poly1305_r key) m (num l mod P) = poly1305_sum (poly1305_r key) (drop 16 m) (num (block True (take 16 m) l) mod P)"
      using len(3) by (subst poly1305_sum.simps) (simp only: if_False)
    moreover have "poly_run block True m l = poly_run block True (drop 16 m) (block True (take 16 m) l)" using False by (subst poly_run.simps) simp
    ultimately show ?thesis using ih by (simp only:)
  qed
qed

text \<open>What a state has absorbed: whole blocks in the limbs, fewer than sixteen bytes beside them.\<close>

definition holds :: "bytes \<Rightarrow> bytes \<Rightarrow> 'l poly \<Rightarrow> bool" where
  "holds key m st \<longleftrightarrow> ok key (po_limbs st) \<and> length (po_buf st) < 16 \<and>
     (\<exists>d. m = d @ po_buf st \<and> 16 dvd length d \<and> num (po_limbs st) mod P = poly1305_sum (poly1305_r key) d 0)"

lemma run_absorbs:
  assumes "ok key l" "num l mod P = poly1305_sum (poly1305_r key) d 0" "16 dvd length d" "16 dvd length m"
  shows "ok key (poly_run block True m l) \<and> num (poly_run block True m l) mod P = poly1305_sum (poly1305_r key) (d @ m) 0"
  using run_ok [OF assms(1,4)] assms(2,3) by (simp add: poly1305_sum_append)

text \<open>An empty buffer takes whole blocks and keeps the rest.\<close>

lemma whole_ok:
  assumes "ok key (po_limbs st)" "num (po_limbs st) mod P = poly1305_sum (poly1305_r key) d 0" "16 dvd length d" "po_buf st = []"
  shows "holds key (d @ m) (poly_update block st m)"
proof -
  define whole where "whole = length m - length m mod 16"
  have "whole \<le> length m" "16 dvd whole" by (simp_all add: whole_def)
  then have w: "16 dvd length (take whole m)" "length (drop whole m) < 16" by (simp_all add: whole_def)
  note r = run_absorbs [OF assms(1-3) w(1)]
  have z: "whole = 0" if "length m < 16" using that by (simp add: whole_def)
  have e: "po_limbs (poly_update block st m) = poly_run block True (take whole m) (po_limbs st)" "po_buf (poly_update block st m) = drop whole m"
    using poly_update_empty [OF assms(4), of block m] z unfolding whole_def [symmetric] by (auto simp: Let_def poly_run.simps [of _ _ "[]"] assms(4))
  have "d @ m = (d @ take whole m) @ drop whole m" by simp
  moreover have "16 dvd length (d @ take whole m)" unfolding length_append by (rule dvd_add [OF assms(3) w(1)])
  ultimately show ?thesis unfolding holds_def e using r w(2) by blast
qed

lemma update_ok:
  assumes "holds key m st"
  shows "holds key (m @ n) (poly_update block st n)"
proof -
  obtain d where d: "m = d @ po_buf st" "16 dvd length d" "num (po_limbs st) mod P = poly1305_sum (poly1305_r key) d 0"
    and o: "ok key (po_limbs st)" "length (po_buf st) < 16" using assms by (auto simp: holds_def)
  define k where "k = min (16 - length (po_buf st)) (length n)"
  consider "po_buf st = []" | "po_buf st \<noteq> []" "length (po_buf st) + length n < 16" | "po_buf st \<noteq> []" "length (po_buf st) + length n \<ge> 16"
    by linarith
  then show ?thesis
  proof cases
    case 1
    then show ?thesis using whole_ok [OF o(1) d(3,2) 1, of n] d(1) by simp
  next
    case 2
    then have "poly_update block st n = st\<lparr>po_buf := po_buf st @ n\<rparr>" by (simp add: poly_update_def Let_def)
    then show ?thesis using 2(2) d o(1) by (auto simp: holds_def)
  next
    case 3
    define b where "b = po_buf st @ take k n"
    define s1 where "s1 = st\<lparr>po_limbs := poly_run block True b (po_limbs st), po_buf := []\<rparr>"
    have b: "length b = 16" using 3 o(2) by (simp add: b_def k_def)
    have "poly_update block st n = poly_update block s1 (drop k n)"
      unfolding s1_def b_def k_def by (rule poly_update_fill [OF 3(1)]) (use b in \<open>simp add: b_def k_def\<close>)
    moreover have "holds key ((d @ b) @ drop k n) (poly_update block s1 (drop k n))"
      by (rule whole_ok) (use run_absorbs [OF o(1) d(3,2), of b] b d(2) in \<open>simp_all add: s1_def\<close>)
    ultimately show ?thesis unfolding d(1) by (simp add: b_def)
  qed
qed

lemma done_ok:
  assumes "holds key m st" "length key = 32"
  shows "poly_done block tag st = poly1305_mac key m"
proof -
  obtain d where d: "m = d @ po_buf st" "16 dvd length d" "num (po_limbs st) mod P = poly1305_sum (poly1305_r key) d 0"
    and o: "ok key (po_limbs st)" "length (po_buf st) < 16" using assms(1) by (auto simp: holds_def)
  show ?thesis
  proof (cases "po_buf st = []")
    case True
    then show ?thesis using tag_ok [OF o(1) assms(2)] d by (simp add: poly_done_def poly1305_mac_def)
  next
    case False
    define b where "b = po_buf st @ [1] @ replicate (15 - length (po_buf st)) 0"
    define l where "l = block False b (po_limbs st)"
    have b: "length b = 16" using o(2) by (simp add: b_def)
    have v: "le_value b = le_value (po_buf st @ [1])" by (simp add: b_def le_value_append)
    have "poly_run block False b (po_limbs st) = l" using b by (subst poly_run.simps, subst poly_run.simps) (simp add: l_def)
    then have "poly_done block tag st = tag l" using False by (simp add: poly_done_def b_def)
    moreover have "ok key l \<and> num l mod P = (num (po_limbs st) + le_value b) * poly1305_r key mod P"
      using block_ok [OF o(1) b, of False] by (simp add: l_def)
    moreover have "poly1305_sum (poly1305_r key) m 0 = (num (po_limbs st) + le_value b) * poly1305_r key mod P"
      unfolding d(1) poly1305_sum_append [OF d(2)] d(3) [symmetric] v using poly1305_sum_block [OF False less_imp_le [OF o(2)]] by (simp only: step_mod)
    ultimately show ?thesis using tag_ok [of key l] assms(2) by (simp add: poly1305_mac_def)
  qed
qed

lemma updates_ok: "holds key m st \<Longrightarrow> holds key (m @ concat ms) (foldl (poly_update block) st ms)"
proof (induction ms arbitrary: m st)
  case (Cons n ms)
  then show ?case using Cons(1) [OF update_ok [OF Cons(2), of n]] by simp
qed simp

lemma any_split:
  assumes "length key = 32"
  shows "poly_done block tag (foldl (poly_update block) \<lparr>po_limbs = start key, po_buf = []\<rparr> ms) = poly1305_mac key (concat ms)"
proof -
  have "holds key [] \<lparr>po_limbs = start key, po_buf = []\<rparr>" using start_ok [OF assms] by (simp add: holds_def poly1305_sum.simps)
  from done_ok [OF updates_ok [OF this] assms] show ?thesis by simp
qed

end

interpretation p44: poly_layout setup44 block44 tag44 ok44 num44
  by unfold_locales (rule setup44_ok, assumption, rule block44_ok [folded poly1305_r_def], assumption+, rule tag44_ok)

interpretation p26: poly_layout setup26 block26 tag26 ok26 num26
  by unfold_locales (rule setup26_ok, assumption, rule block26_ok [folded poly1305_r_def], assumption+, rule tag26_ok)

text \<open>The operations of either layout on a message cut into pieces.\<close>

lemma mac44_split: "length key = 32 \<Longrightarrow> qn_poly1305_final (foldl qn_poly1305_update (qn_poly1305_init key) ms) = poly1305_mac key (concat ms)"
proof -
  assume k: "length key = 32"
  have "qn_poly1305_update = poly_update block44" by (intro ext) (simp add: qn_poly1305_update_def)
  then show ?thesis using p44.any_split [OF k, of ms] by (simp add: qn_poly1305_init_def qn_poly1305_final_def)
qed

lemma mac26_split: "length key = 32 \<Longrightarrow> poly1305_final26 (foldl poly1305_update26 (poly1305_init26 key) ms) = poly1305_mac key (concat ms)"
proof -
  assume k: "length key = 32"
  have "poly1305_update26 = poly_update block26" by (intro ext) (simp add: poly1305_update26_def)
  then show ?thesis using p26.any_split [OF k, of ms] by (simp add: poly1305_init26_def poly1305_final26_def)
qed

text \<open>
  Property C38. However a message is cut into updates, empty ones included, both limb layouts give the
  authenticator RFC 8439 defines for the whole message: the polynomial over the 16-byte blocks modulo
  \<open>2 ^ 130 - 5\<close> at the clamped key, plus the pad, as sixteen bytes.
\<close>

theorem poly1305_any_split:
  assumes "length key = 32"
  shows "qn_poly1305_final (foldl qn_poly1305_update (qn_poly1305_init key) ms) = poly1305_mac key (concat ms) \<and>
    poly1305_final26 (foldl poly1305_update26 (poly1305_init26 key) ms) = poly1305_mac key (concat ms)"
  using mac44_split [OF assms] mac26_split [OF assms] by blast

theorem poly1305_any_split_witness:
  "qn_poly1305_final (foldl qn_poly1305_update (qn_poly1305_init (replicate 32 7)) [[1, 2], [], [3]]) = poly1305_mac (replicate 32 7) [1, 2, 3] \<and>
   poly1305_final26 (foldl poly1305_update26 (poly1305_init26 (replicate 32 7)) [[1, 2], [], [3]]) = poly1305_mac (replicate 32 7) [1, 2, 3]"
  using poly1305_any_split [of "replicate 32 7" "[[1, 2], [], [3]]"] by (simp only: length_replicate concat.simps append.simps)

end
