(* ===== verification/Chacha.thy ===== *)
theory Chacha
  imports Poly1305_Exact
begin

text \<open>
  ChaCha20 and its combination with Poly1305 in \<^verbatim>\<open>src/crypto/chacha.c\<close>, and the comparison of
  \<^verbatim>\<open>src/crypto/rand.c\<close>.  A buffer is the list of its bytes; sealing and opening return the bytes
  written, or nothing where the code returns false before it writes.  The vector code for AArch64 is
  not part of the model, and wiping dead buffers has no effect on it.
\<close>

section \<open>The block function\<close>

definition rol32 :: "u32 \<Rightarrow> nat \<Rightarrow> u32" where "rol32 x n = push_bit n x OR drop_bit (32 - n) x"

definition ld32w :: "bytes \<Rightarrow> u32" where
  "ld32w p = ucast (p ! 0) OR push_bit 8 (ucast (p ! 1)) OR push_bit 16 (ucast (p ! 2)) OR push_bit 24 (ucast (p ! 3))"

definition st32le :: "u32 \<Rightarrow> bytes" where
  "st32le v = [ucast v, ucast (drop_bit 8 v), ucast (drop_bit 16 v), ucast (drop_bit 24 v)]"

definition st64w :: "u64 \<Rightarrow> bytes" where
  "st64w v = st32le (ucast v) @ st32le (ucast (drop_bit 32 v))"

definition QR :: "nat \<Rightarrow> nat \<Rightarrow> nat \<Rightarrow> nat \<Rightarrow> u32 list \<Rightarrow> u32 list" where
  "QR i j k l x =
     (let a = x ! i; b = x ! j; c = x ! k; d = x ! l;
          a = a + b; d = rol32 (d XOR a) 16;
          c = c + d; b = rol32 (b XOR c) 12;
          a = a + b; d = rol32 (d XOR a) 8;
          c = c + d; b = rol32 (b XOR c) 7
      in x[i := a, j := b, k := c, l := d])"

definition double_round :: "u32 list \<Rightarrow> u32 list" where
  "double_round x =
     (QR 3 4 9 14 \<circ> QR 2 7 8 13 \<circ> QR 1 6 11 12 \<circ> QR 0 5 10 15 \<circ> QR 3 7 11 15 \<circ> QR 2 6 10 14 \<circ> QR 1 5 9 13 \<circ> QR 0 4 8 12) x"

definition chacha_state :: "bytes \<Rightarrow> u32 \<Rightarrow> bytes \<Rightarrow> u32 list" where
  "chacha_state key counter nonce =
     [0x61707865, 0x3320646e, 0x79622d32, 0x6b206574] @ map (\<lambda>i. ld32w (drop (4 * i) key)) [0..<8] @ [counter] @
     map (\<lambda>i. ld32w (drop (4 * i) nonce)) [0..<3]"

definition chacha_block :: "bytes \<Rightarrow> u32 \<Rightarrow> bytes \<Rightarrow> bytes" where
  "chacha_block key counter nonce =
     (let s = chacha_state key counter nonce; x = (double_round ^^ 10) s in concat (map (\<lambda>i. st32le (x ! i + s ! i)) [0..<16]))"

section \<open>Encryption\<close>

function chacha20_xor_scalar :: "bytes \<Rightarrow> u32 \<Rightarrow> bytes \<Rightarrow> bytes \<Rightarrow> bytes" where
  "chacha20_xor_scalar key counter nonce m =
     (if m = [] then []
      else (let n = min (length m) 64; ks = chacha_block key counter nonce
            in map (\<lambda>i. m ! i XOR ks ! i) [0..<n] @ chacha20_xor_scalar key (counter + 1) nonce (drop n m)))"
  by pat_completeness auto
termination by (relation "measure (\<lambda>(_, _, _, m). length m)") auto

declare chacha20_xor_scalar.simps [simp del]

definition chacha20_xor :: "bytes \<Rightarrow> u32 \<Rightarrow> bytes \<Rightarrow> bytes \<Rightarrow> bytes" where
  "chacha20_xor key counter nonce m = chacha20_xor_scalar key counter nonce m"

section \<open>The tag\<close>

definition poly_pad16 :: "limbs44 poly \<Rightarrow> nat \<Rightarrow> limbs44 poly" where
  "poly_pad16 st n = (let rem = n mod 16 in if rem \<noteq> 0 then qn_poly1305_update st (replicate (16 - rem) 0) else st)"

definition chacha_tag :: "bytes \<Rightarrow> bytes \<Rightarrow> bytes \<Rightarrow> bytes \<Rightarrow> bytes" where
  "chacha_tag key nonce aad ct =
     (let st = qn_poly1305_init (take 32 (chacha_block key 0 nonce));
          st = (if aad \<noteq> [] then qn_poly1305_update st aad else st);
          st = poly_pad16 st (length aad);
          st = (if ct \<noteq> [] then qn_poly1305_update st ct else st);
          st = poly_pad16 st (length ct);
          lens = st64w (word_of_nat (length aad)) @ st64w (word_of_nat (length ct))
      in qn_poly1305_final (qn_poly1305_update st lens))"

definition chacha_counter_ok :: "u32 \<Rightarrow> nat \<Rightarrow> bool" where
  "chacha_counter_ok counter n \<longleftrightarrow> n = 0 \<or> (n - 1) div 64 + 1 \<le> 2 ^ 32 - 1 - unat counter + 1"

text \<open>Every byte is read whatever the outcome.\<close>

definition qn_ct_eq :: "bytes \<Rightarrow> bytes \<Rightarrow> nat \<Rightarrow> bool" where
  "qn_ct_eq a b n \<longleftrightarrow> foldl (\<lambda>d i. d OR (a ! i XOR b ! i)) 0 [0..<n] = 0"

definition QN_AEAD_TAG_LEN :: nat where "QN_AEAD_TAG_LEN = 16"

definition qn_chacha20poly1305_seal :: "bytes \<Rightarrow> bytes \<Rightarrow> bytes \<Rightarrow> bytes \<Rightarrow> bytes option" where
  "qn_chacha20poly1305_seal key nonce aad pt =
     (if \<not> chacha_counter_ok 1 (length pt) then None
      else (let ct = chacha20_xor key 1 nonce pt in Some (ct @ chacha_tag key nonce aad ct)))"

definition qn_chacha20poly1305_open :: "bytes \<Rightarrow> bytes \<Rightarrow> bytes \<Rightarrow> bytes \<Rightarrow> bytes option" where
  "qn_chacha20poly1305_open key nonce aad ct =
     (if length ct < QN_AEAD_TAG_LEN then None
      else (let n = length ct - QN_AEAD_TAG_LEN in
            if \<not> chacha_counter_ok 1 n then None
            else if \<not> qn_ct_eq (chacha_tag key nonce aad (take n ct)) (drop n ct) QN_AEAD_TAG_LEN then None
            else Some (chacha20_xor key 1 nonce (take n ct))))"

section \<open>Lengths and bytes\<close>

lemma st32le_length [simp]: "length (st32le v) = 4" by (simp add: st32le_def)

lemma le_bytes_4: "le_bytes 4 v = [word_of_nat v, word_of_nat (v div 2 ^ 8), word_of_nat (v div 2 ^ 16), word_of_nat (v div 2 ^ 24)]"
  by (simp add: le_bytes_def upt_conv_Cons)

lemma st32le_bytes: "st32le v = le_bytes 4 (unat v)"
  unfolding st32le_def le_bytes_4 using drop_bit_byte [of 0 v] by (simp only: drop_bit_byte drop_bit_0 id_apply power_0 div_by_1)

lemma st64w_bytes: "st64w v = le_bytes 8 (unat v)"
proof -
  have m: "le_bytes 4 (x mod 2 ^ 32) = le_bytes 4 x" for x using le_bytes_mod [of 4 x] by simp
  have d: "unat (drop_bit 32 v) = unat v div 256 ^ 4" unfolding unat_drop_bit_eq by (simp add: drop_bit_eq_div [of 32 "unat v"])
  have "le_bytes 8 (unat v) = le_bytes 4 (unat v) @ le_bytes 4 (unat v div 256 ^ 4)" using le_bytes_append [of 4 4 "unat v"] by simp
  then show ?thesis unfolding st64w_def st32le_bytes unat_ucast_down m d ..
qed

lemma chacha_block_length [simp]: "length (chacha_block key counter nonce) = 64"
  by (simp add: chacha_block_def Let_def length_concat o_def sum_list_triv)

lemma poly1305_mac_length [simp]: "length (poly1305_mac key m) = 16" by (simp add: poly1305_mac_def)

lemma xor_zero: "a XOR b = 0 \<longleftrightarrow> a = b" for a b :: "'a :: len word"
  by (auto simp: bit_eq_iff bit_simps)

lemma ct_eq_foldl: "foldl (\<lambda>d i. d OR (a ! i XOR b ! i)) e js = 0 \<longleftrightarrow> e = 0 \<and> (\<forall>i\<in>set js. a ! i = b ! i)" for a b :: bytes
  by (induction js arbitrary: e) (auto simp: or_eq_0_iff xor_zero)

lemma ct_eq_iff:
  assumes "length a = n" "length b = n"
  shows "qn_ct_eq a b n \<longleftrightarrow> a = b"
  unfolding qn_ct_eq_def ct_eq_foldl using assms by (simp add: list_eq_iff_nth_eq Ball_def)

section \<open>Encryption is its own inverse\<close>

text \<open>Byte by byte: the key stream is the concatenated blocks of consecutive counters.\<close>

lemma xor_scalar_length [simp]: "length (chacha20_xor_scalar key c nonce m) = length m"
proof (induction key c nonce m rule: chacha20_xor_scalar.induct)
  case (1 key c nonce m)
  then show ?case by (subst chacha20_xor_scalar.simps) (auto simp: Let_def)
qed

lemma xor_scalar_nth:
  "i < length m \<Longrightarrow> chacha20_xor_scalar key c nonce m ! i = m ! i XOR chacha_block key (c + word_of_nat (i div 64)) nonce ! (i mod 64)"
proof (induction key c nonce m arbitrary: i rule: chacha20_xor_scalar.induct)
  case (1 key c nonce m)
  define n where "n = min (length m) 64"
  have m: "m \<noteq> []" using 1(2) by auto
  have e: "chacha20_xor_scalar key c nonce m =
      map (\<lambda>i. m ! i XOR chacha_block key c nonce ! i) [0..<n] @ chacha20_xor_scalar key (c + 1) nonce (drop n m)"
    using m by (subst chacha20_xor_scalar.simps) (simp add: Let_def n_def)
  show ?case
  proof (cases "i < n")
    case True
    then show ?thesis by (simp add: e nth_append n_def)
  next
    case False
    then have n: "n = 64" "i - 64 < length (drop n m)" using 1(2) by (auto simp: n_def min_def)
    have s: "i div 64 = Suc ((i - 64) div 64)" "i mod 64 = (i - 64) mod 64" using False n(1) by (simp_all add: le_div_geq le_mod_geq)
    have "chacha20_xor_scalar key (c + 1) nonce (drop n m) ! (i - 64) = drop n m ! (i - 64) XOR chacha_block key (c + 1 + word_of_nat ((i - 64) div 64)) nonce ! ((i - 64) mod 64)"
      by (rule 1(1) [OF m n_def refl n(2)])
    then show ?thesis using False 1(2) n(1) by (simp add: e nth_append s add.assoc)
  qed
qed

lemma xor_scalar_twice: "chacha20_xor_scalar key c nonce (chacha20_xor_scalar key c nonce m) = m"
  by (rule nth_equalityI) (simp_all add: xor_scalar_nth xor.assoc)

lemmas chacha_xor_simps = chacha20_xor_def xor_scalar_length xor_scalar_twice

section \<open>The tag is the authenticator\<close>

definition pad16 :: "bytes \<Rightarrow> bytes" where "pad16 m = replicate ((16 - length m mod 16) mod 16) 0"

definition rfc_tag :: "bytes \<Rightarrow> bytes \<Rightarrow> bytes \<Rightarrow> bytes \<Rightarrow> bytes" where
  "rfc_tag key nonce aad ct =
     poly1305_mac (take 32 (chacha_block key 0 nonce)) (aad @ pad16 aad @ ct @ pad16 ct @ le_bytes 8 (length aad) @ le_bytes 8 (length ct))"

lemma le_length: "le_bytes 8 (unat (word_of_nat n :: u64)) = le_bytes 8 n"
  using le_bytes_mod [of 8 n] by (simp add: unsigned_of_nat take_bit_eq_mod)

lemma chacha_tag_mac: "chacha_tag key nonce aad ct = rfc_tag key nonce aad ct"
proof -
  let ?one = "\<lambda>m. if m \<noteq> [] then [m] else []" and ?pad = "\<lambda>m. if length m mod 16 \<noteq> 0 then [replicate (16 - length m mod 16) 0] else []"
  let ?ms = "?one aad @ ?pad aad @ ?one ct @ ?pad ct @ [le_bytes 8 (length aad) @ le_bytes 8 (length ct)]"
  have f: "foldl qn_poly1305_update st (?one m) = (if m \<noteq> [] then qn_poly1305_update st m else st)"
    "foldl qn_poly1305_update st (?pad m) = poly_pad16 st (length m)" for st m by (simp_all add: poly_pad16_def)
  have "chacha_tag key nonce aad ct = qn_poly1305_final (foldl qn_poly1305_update (qn_poly1305_init (take 32 (chacha_block key 0 nonce))) ?ms)"
    unfolding foldl_append f chacha_tag_def Let_def st64w_bytes le_length by simp
  also have "\<dots> = poly1305_mac (take 32 (chacha_block key 0 nonce)) (concat ?ms)" by (rule mac44_split) simp
  also have "concat ?ms = aad @ pad16 aad @ ct @ pad16 ct @ le_bytes 8 (length aad) @ le_bytes 8 (length ct)"
  proof -
    have "concat (?one m) = m" "concat (?pad m) = pad16 m" for m by (simp_all add: pad16_def)
    then show ?thesis by (simp only: concat_append) simp
  qed
  finally show ?thesis unfolding rfc_tag_def .
qed

lemma rfc_tag_length [simp]: "length (rfc_tag key nonce aad ct) = 16" by (simp add: rfc_tag_def)

section \<open>Sealing and opening\<close>

text \<open>
  What both record ciphers are made of: a key stream that undoes itself, and a tag over the text it
  produced.  Opening accepts exactly what sealing makes.
\<close>

locale stream_aead =
  fixes crypt :: "bytes \<Rightarrow> bytes" and tag :: "bytes \<Rightarrow> bytes" and fits :: "nat \<Rightarrow> bool"
  assumes crypt_length: "length (crypt m) = length m" and crypt_twice: "crypt (crypt m) = m" and tag_length: "length (tag m) = 16"
begin

lemma tag_matches: "length ct \<ge> 16 \<Longrightarrow> qn_ct_eq (tag (take (length ct - 16) ct)) (drop (length ct - 16) ct) 16 \<longleftrightarrow> drop (length ct - 16) ct = tag (take (length ct - 16) ct)"
  by (subst ct_eq_iff) (auto simp: tag_length)

lemma accepts_iff:
  "length ct \<ge> 16 \<and> fits (length ct - 16) \<and> qn_ct_eq (tag (take (length ct - 16) ct)) (drop (length ct - 16) ct) 16 \<and> pt = crypt (take (length ct - 16) ct) \<longleftrightarrow>
   fits (length pt) \<and> ct = crypt pt @ tag (crypt pt)"
proof
  assume a: "length ct \<ge> 16 \<and> fits (length ct - 16) \<and> qn_ct_eq (tag (take (length ct - 16) ct)) (drop (length ct - 16) ct) 16 \<and> pt = crypt (take (length ct - 16) ct)"
  then have "ct = take (length ct - 16) ct @ tag (take (length ct - 16) ct)" using tag_matches [of ct] by (metis append_take_drop_id)
  moreover have "crypt pt = take (length ct - 16) ct" "length pt = length ct - 16" using a by (simp_all add: crypt_twice crypt_length)
  ultimately show "fits (length pt) \<and> ct = crypt pt @ tag (crypt pt)" using a by simp
next
  assume a: "fits (length pt) \<and> ct = crypt pt @ tag (crypt pt)"
  then have "length ct - 16 = length pt" by (simp add: crypt_length tag_length)
  then show "length ct \<ge> 16 \<and> fits (length ct - 16) \<and> qn_ct_eq (tag (take (length ct - 16) ct)) (drop (length ct - 16) ct) 16 \<and> pt = crypt (take (length ct - 16) ct)"
    using a by (simp add: ct_eq_iff crypt_length crypt_twice tag_length)
qed

end

interpretation cc: stream_aead "chacha20_xor key 1 nonce" "chacha_tag key nonce aad" "chacha_counter_ok 1" for key nonce aad
  by unfold_locales (simp_all add: chacha_xor_simps chacha_tag_mac)

lemma chacha_open_iff:
  "qn_chacha20poly1305_open key nonce aad ct = Some pt \<longleftrightarrow> qn_chacha20poly1305_seal key nonce aad pt = Some ct"
  using cc.accepts_iff [of ct key nonce aad pt]
  by (auto simp: qn_chacha20poly1305_open_def qn_chacha20poly1305_seal_def Let_def QN_AEAD_TAG_LEN_def)

text \<open>
  Property C37. Sealing with ChaCha20-Poly1305 is refused exactly when the block counter would wrap
  around.  Otherwise byte \<open>i\<close> of the text is covered by byte \<open>i mod 64\<close> of block \<open>1 + i div 64\<close>, no two of
  these blocks share a counter or use that of the one-time key, and the text is followed by the
  RFC 8439 authenticator of the associated data, the ciphertext and their lengths.
\<close>

theorem chacha_seal_exact:
  "(qn_chacha20poly1305_seal key nonce aad pt = None \<longleftrightarrow> length pt > 64 * (2 ^ 32 - 1)) \<and>
   (\<forall>ct. qn_chacha20poly1305_seal key nonce aad pt = Some ct \<longrightarrow>
      length ct = length pt + 16 \<and> drop (length pt) ct = rfc_tag key nonce aad (take (length pt) ct) \<and>
      (\<forall>i < length pt. ct ! i = pt ! i XOR chacha_block key (1 + word_of_nat (i div 64)) nonce ! (i mod 64) \<and>
         unat (1 + word_of_nat (i div 64) :: u32) = 1 + i div 64))"
proof (intro conjI allI impI)
  have b: "(n - 1) div 64 + 1 \<le> 2 ^ 32 - 1 \<longleftrightarrow> n \<le> 64 * (2 ^ 32 - 1)" if "n > 0" for n :: nat using that by (cases n) (auto simp: div_le_mono less_eq_Suc_le [symmetric] Suc_le_eq div_less_iff_less_mult)
  then have ok: "chacha_counter_ok 1 n \<longleftrightarrow> n \<le> 64 * (2 ^ 32 - 1)" for n by (cases "n = 0") (simp_all add: chacha_counter_ok_def)
  then show "qn_chacha20poly1305_seal key nonce aad pt = None \<longleftrightarrow> length pt > 64 * (2 ^ 32 - 1)"
    by (auto simp: qn_chacha20poly1305_seal_def Let_def)
  fix ct assume "qn_chacha20poly1305_seal key nonce aad pt = Some ct"
  then have l: "length pt \<le> 64 * (2 ^ 32 - 1)" and ct: "ct = chacha20_xor key 1 nonce pt @ rfc_tag key nonce aad (chacha20_xor key 1 nonce pt)"
    by (auto simp: qn_chacha20poly1305_seal_def Let_def chacha_tag_mac ok split: if_splits)
  show "length ct = length pt + 16" "drop (length pt) ct = rfc_tag key nonce aad (take (length pt) ct)" by (simp_all add: ct chacha_xor_simps)
  fix i assume i: "i < length pt"
  show "ct ! i = pt ! i XOR chacha_block key (1 + word_of_nat (i div 64)) nonce ! (i mod 64)"
    using i by (simp add: ct nth_append chacha_xor_simps xor_scalar_nth)
  have "i div 64 < 2 ^ 32 - 1" using i l by (intro div_bound) linarith
  then show "unat (1 + word_of_nat (i div 64) :: u32) = 1 + i div 64" using unat_word_of_nat(2) [of "1 + i div 64"] by simp
qed

theorem chacha_seal_exact_witness:
  "\<exists>ct. qn_chacha20poly1305_seal (replicate 32 1) (replicate 12 2) [3] [4, 5] = Some ct \<and> length ct = 18 \<and>
     drop 2 ct = rfc_tag (replicate 32 1) (replicate 12 2) [3] (take 2 ct) \<and> ct ! 1 = 5 XOR chacha_block (replicate 32 1) 1 (replicate 12 2) ! 1"
proof -
  note t = chacha_seal_exact [of "replicate 32 1" "replicate 12 2" "[3]" "[4, 5]"]
  obtain ct where c: "qn_chacha20poly1305_seal (replicate 32 1) (replicate 12 2) [3] [4, 5] = Some ct" using conjunct1 [OF t] by fastforce
  have l: "length [4, 5 :: u8] = 2" "1 < length [4, 5 :: u8]" by simp_all
  note s = conjunct2 [OF t, THEN spec, THEN mp, OF c]
  have "ct ! 1 = [4, 5] ! 1 XOR chacha_block (replicate 32 1) (1 + word_of_nat (1 div 64)) (replicate 12 2) ! (1 mod 64)" using s l(2) by blast
  then show ?thesis using c s unfolding l(1) by (intro exI [of _ ct]) simp
qed

end
