(* ===== verification/Aesgcm.thy ===== *)
theory Aesgcm
  imports Chacha
begin

text \<open>
  AES and its Galois counter mode in \<^verbatim>\<open>src/crypto/aesgcm.c\<close>: the portable code, with the 4-bit table
  of the hash.  The code for the AArch64 instructions, and the fused path that only it has, are not
  part of the model; the powers \<^verbatim>\<open>hp\<close> are kept since setting a key computes them.
\<close>

section \<open>AES\<close>

definition SBOX :: "u8 list" where
  "SBOX =
    [0x63, 0x7c, 0x77, 0x7b, 0xf2, 0x6b, 0x6f, 0xc5, 0x30, 0x01, 0x67, 0x2b, 0xfe, 0xd7, 0xab, 0x76,
     0xca, 0x82, 0xc9, 0x7d, 0xfa, 0x59, 0x47, 0xf0, 0xad, 0xd4, 0xa2, 0xaf, 0x9c, 0xa4, 0x72, 0xc0,
     0xb7, 0xfd, 0x93, 0x26, 0x36, 0x3f, 0xf7, 0xcc, 0x34, 0xa5, 0xe5, 0xf1, 0x71, 0xd8, 0x31, 0x15,
     0x04, 0xc7, 0x23, 0xc3, 0x18, 0x96, 0x05, 0x9a, 0x07, 0x12, 0x80, 0xe2, 0xeb, 0x27, 0xb2, 0x75,
     0x09, 0x83, 0x2c, 0x1a, 0x1b, 0x6e, 0x5a, 0xa0, 0x52, 0x3b, 0xd6, 0xb3, 0x29, 0xe3, 0x2f, 0x84,
     0x53, 0xd1, 0x00, 0xed, 0x20, 0xfc, 0xb1, 0x5b, 0x6a, 0xcb, 0xbe, 0x39, 0x4a, 0x4c, 0x58, 0xcf,
     0xd0, 0xef, 0xaa, 0xfb, 0x43, 0x4d, 0x33, 0x85, 0x45, 0xf9, 0x02, 0x7f, 0x50, 0x3c, 0x9f, 0xa8,
     0x51, 0xa3, 0x40, 0x8f, 0x92, 0x9d, 0x38, 0xf5, 0xbc, 0xb6, 0xda, 0x21, 0x10, 0xff, 0xf3, 0xd2,
     0xcd, 0x0c, 0x13, 0xec, 0x5f, 0x97, 0x44, 0x17, 0xc4, 0xa7, 0x7e, 0x3d, 0x64, 0x5d, 0x19, 0x73,
     0x60, 0x81, 0x4f, 0xdc, 0x22, 0x2a, 0x90, 0x88, 0x46, 0xee, 0xb8, 0x14, 0xde, 0x5e, 0x0b, 0xdb,
     0xe0, 0x32, 0x3a, 0x0a, 0x49, 0x06, 0x24, 0x5c, 0xc2, 0xd3, 0xac, 0x62, 0x91, 0x95, 0xe4, 0x79,
     0xe7, 0xc8, 0x37, 0x6d, 0x8d, 0xd5, 0x4e, 0xa9, 0x6c, 0x56, 0xf4, 0xea, 0x65, 0x7a, 0xae, 0x08,
     0xba, 0x78, 0x25, 0x2e, 0x1c, 0xa6, 0xb4, 0xc6, 0xe8, 0xdd, 0x74, 0x1f, 0x4b, 0xbd, 0x8b, 0x8a,
     0x70, 0x3e, 0xb5, 0x66, 0x48, 0x03, 0xf6, 0x0e, 0x61, 0x35, 0x57, 0xb9, 0x86, 0xc1, 0x1d, 0x9e,
     0xe1, 0xf8, 0x98, 0x11, 0x69, 0xd9, 0x8e, 0x94, 0x9b, 0x1e, 0x87, 0xe9, 0xce, 0x55, 0x28, 0xdf,
     0x8c, 0xa1, 0x89, 0x0d, 0xbf, 0xe6, 0x42, 0x68, 0x41, 0x99, 0x2d, 0x0f, 0xb0, 0x54, 0xbb, 0x16]"

definition RCON :: "u32 list" where
  "RCON = [0x01000000, 0x02000000, 0x04000000, 0x08000000, 0x10000000, 0x20000000, 0x40000000, 0x80000000, 0x1b000000, 0x36000000]"

definition gcm_be32 :: "bytes \<Rightarrow> u32" where
  "gcm_be32 p = push_bit 24 (ucast (p ! 0)) OR push_bit 16 (ucast (p ! 1)) OR push_bit 8 (ucast (p ! 2)) OR ucast (p ! 3)"

definition be64 :: "bytes \<Rightarrow> u64" where
  "be64 p = foldl (\<lambda>v b. push_bit 8 v OR ucast b) 0 (take 8 p)"

definition put_be64 :: "u64 \<Rightarrow> bytes" where
  "put_be64 v = map (\<lambda>i. ucast (drop_bit (56 - 8 * i) v)) [0..<8]"

definition subword :: "u32 \<Rightarrow> u32" where
  "subword w =
     push_bit 24 (ucast (SBOX ! unat (drop_bit 24 w AND 0xFF))) OR push_bit 16 (ucast (SBOX ! unat (drop_bit 16 w AND 0xFF))) OR
     push_bit 8 (ucast (SBOX ! unat (drop_bit 8 w AND 0xFF))) OR ucast (SBOX ! unat (w AND 0xFF))"

definition xtime :: "u8 \<Rightarrow> u8" where
  "xtime x = push_bit 1 x XOR ((drop_bit 7 x AND 1) * 0x1b)"

definition expand_word :: "nat \<Rightarrow> u32 list \<Rightarrow> nat \<Rightarrow> u32 list" where
  "expand_word nk rk i =
     (let t = rk ! (i - 1);
          t = (if i mod nk = 0 then subword (push_bit 8 t OR drop_bit 24 t) XOR RCON ! (i div nk - 1)
               else if nk > 6 \<and> i mod nk = 4 then subword t else t)
      in rk @ [rk ! (i - nk) XOR t])"

definition aes_expand :: "bytes \<Rightarrow> u32 list \<times> nat" where
  "aes_expand key =
     (let nk = length key div 4; nr = nk + 6
      in (foldl (expand_word nk) (map (\<lambda>i. gcm_be32 (drop (4 * i) key)) [0..<nk]) [nk..<4 * (nr + 1)], nr))"

definition add_rk :: "bytes \<Rightarrow> u32 list \<Rightarrow> bytes" where
  "add_rk s rk = map (\<lambda>i. s ! i XOR ucast (drop_bit (24 - 8 * (i mod 4)) (rk ! (i div 4)))) [0..<16]"

text \<open>Row \<open>j\<close> rotates left by \<open>j\<close>.\<close>

definition shift_rows :: "bytes \<Rightarrow> bytes" where
  "shift_rows t = [t ! 0, t ! 5, t ! 10, t ! 15, t ! 4, t ! 9, t ! 14, t ! 3, t ! 8, t ! 13, t ! 2, t ! 7, t ! 12, t ! 1, t ! 6, t ! 11]"

definition mix_column :: "bytes \<Rightarrow> nat \<Rightarrow> bytes" where
  "mix_column s c =
     (let a0 = s ! (4 * c); a1 = s ! (4 * c + 1); a2 = s ! (4 * c + 2); a3 = s ! (4 * c + 3); x = a0 XOR a1 XOR a2 XOR a3
      in [a0 XOR x XOR xtime (a0 XOR a1), a1 XOR x XOR xtime (a1 XOR a2), a2 XOR x XOR xtime (a2 XOR a3), a3 XOR x XOR xtime (a3 XOR a0)])"

definition aes_round :: "u32 list \<Rightarrow> nat \<Rightarrow> bytes \<Rightarrow> nat \<Rightarrow> bytes" where
  "aes_round rk nr s r =
     (let s = shift_rows (map (\<lambda>b. SBOX ! unat b) s);
          s = (if r \<noteq> nr then concat (map (mix_column s) [0..<4]) else s)
      in add_rk s (drop (4 * r) rk))"

definition aes_encrypt :: "u32 list \<Rightarrow> nat \<Rightarrow> bytes \<Rightarrow> bytes" where
  "aes_encrypt rk nr inp = foldl (aes_round rk nr) (add_rk inp rk) [1..<nr + 1]"

section \<open>The hash\<close>

record qn_aes_gcm =
  g_rk :: "u32 list"
  g_nr :: nat
  g_hh :: "(u64 \<times> u64) list"
  g_hp :: "bytes list"

definition LAST4 :: "u64 list" where
  "LAST4 = [0x0000, 0x1c20, 0x3840, 0x2460, 0x7080, 0x6ca0, 0x48c0, 0x54e0, 0xe100, 0xfd20, 0xd940, 0xc560, 0x9180, 0x8da0, 0xa9c0, 0xb5e0]"

text \<open>Four bits to the right with the reduction of what falls out, and the table entry of a nibble.\<close>

definition ghash_shift :: "u64 \<times> u64 \<Rightarrow> u64 \<times> u64" where
  "ghash_shift z = (case z of (zh, zl) \<Rightarrow>
     (drop_bit 4 zh XOR push_bit 48 (LAST4 ! unat (zl AND 0x0f)), push_bit 60 zh OR drop_bit 4 zl))"

definition ghash_add :: "(u64 \<times> u64) list \<Rightarrow> u8 \<Rightarrow> u64 \<times> u64 \<Rightarrow> u64 \<times> u64" where
  "ghash_add hh nib z = (case z of (zh, zl) \<Rightarrow> (zh XOR fst (hh ! unat nib), zl XOR snd (hh ! unat nib)))"

definition ghash_byte :: "(u64 \<times> u64) list \<Rightarrow> bytes \<Rightarrow> u64 \<times> u64 \<Rightarrow> nat \<Rightarrow> u64 \<times> u64" where
  "ghash_byte hh x z i =
     (let lo = x ! i AND 0x0f; hi = drop_bit 4 (x ! i) AND 0x0f;
          z = (if i \<noteq> 15 then ghash_add hh lo (ghash_shift z) else z)
      in ghash_add hh hi (ghash_shift z))"

definition ghash_mul :: "(u64 \<times> u64) list \<Rightarrow> bytes \<Rightarrow> bytes" where
  "ghash_mul hh x =
     (let (zh, zl) = foldl (ghash_byte hh x) (hh ! unat (x ! 15 AND 0x0f)) (rev [0..<16])
      in put_be64 zh @ put_be64 zl)"

text \<open>The table: the key, its next three shifts, and their sums.\<close>

definition table_shift :: "u64 \<times> u64 \<Rightarrow> u64 \<times> u64" where
  "table_shift v = (case v of (vh, vl) \<Rightarrow>
     (let t = ucast (vl AND 1) * 0xe1000000 :: u32
      in (drop_bit 1 vh XOR push_bit 32 (ucast t), push_bit 63 vh OR drop_bit 1 vl)))"

definition table_sum :: "(u64 \<times> u64) list \<Rightarrow> nat \<Rightarrow> (u64 \<times> u64) list" where
  "table_sum hh i = foldl (\<lambda>hh j. hh[i + j := (fst (hh ! i) XOR fst (hh ! j), snd (hh ! i) XOR snd (hh ! j))]) hh [1..<i]"

definition ghash_table :: "bytes \<Rightarrow> (u64 \<times> u64) list" where
  "ghash_table h =
     (let v8 = (be64 h, be64 (drop 8 h)); v4 = table_shift v8; v2 = table_shift v4; v1 = table_shift v2;
          hh = (replicate 16 (0, 0))[8 := v8, 4 := v4, 2 := v2, 1 := v1]
      in foldl table_sum hh [2, 4, 8])"

definition qn_aes_gcm_setkey :: "bytes \<Rightarrow> qn_aes_gcm option" where
  "qn_aes_gcm_setkey key =
     (if length key \<noteq> 16 \<and> length key \<noteq> 32 then None
      else (let (rk, nr) = aes_expand key; h = aes_encrypt rk nr (replicate 16 0); hh = ghash_table h;
                h2 = ghash_mul hh h; h3 = ghash_mul hh h2; h4 = ghash_mul hh h3
            in Some \<lparr>g_rk = rk, g_nr = nr, g_hh = hh, g_hp = [h, h2, h3, h4]\<rparr>))"

function ghash_bytes_scalar :: "(u64 \<times> u64) list \<Rightarrow> bytes \<Rightarrow> bytes \<Rightarrow> bytes" where
  "ghash_bytes_scalar hh acc p =
     (if p = [] then acc
      else (let n = min (length p) 16; acc = map (\<lambda>i. if i < n then acc ! i XOR p ! i else acc ! i) [0..<16]
            in ghash_bytes_scalar hh (ghash_mul hh acc) (drop n p)))"
  by pat_completeness auto
termination by (relation "measure (\<lambda>(_, _, p). length p)") auto

declare ghash_bytes_scalar.simps [simp del]

section \<open>Counter mode\<close>

text \<open>The last four bytes count up, big-endian, and wrap around.\<close>

definition next_counter :: "bytes \<Rightarrow> bytes" where
  "next_counter ctr =
     (let c = gcm_be32 (drop 12 ctr) + 1
      in take 12 ctr @ [ucast (drop_bit 24 c), ucast (drop_bit 16 c), ucast (drop_bit 8 c), ucast c])"

function gctr_scalar :: "qn_aes_gcm \<Rightarrow> bytes \<Rightarrow> bytes \<Rightarrow> bytes" where
  "gctr_scalar g ctr inp =
     (if inp = [] then []
      else (let n = min (length inp) 16; ks = aes_encrypt (g_rk g) (g_nr g) ctr
            in map (\<lambda>i. inp ! i XOR ks ! i) [0..<n] @ gctr_scalar g (next_counter ctr) (drop n inp)))"
  by pat_completeness auto
termination by (relation "measure (\<lambda>(_, _, inp). length inp)") auto

declare gctr_scalar.simps [simp del]

definition gcm_j0 :: "bytes \<Rightarrow> bytes" where "gcm_j0 iv = take 12 iv @ [0, 0, 0, 1]"

definition gcm_lengths_ok :: "nat \<Rightarrow> nat \<Rightarrow> bool" where
  "gcm_lengths_ok aadlen textlen \<longleftrightarrow> aadlen \<le> (2 ^ 64 - 1) div 8 \<and> textlen \<le> 0xfffffffe * 16"

definition gcm_tag :: "qn_aes_gcm \<Rightarrow> bytes \<Rightarrow> bytes \<Rightarrow> bytes \<Rightarrow> bytes" where
  "gcm_tag g j0 aad ct =
     (let acc = ghash_bytes_scalar (g_hh g) (replicate 16 0) aad;
          acc = ghash_bytes_scalar (g_hh g) acc ct;
          lens = put_be64 (push_bit 3 (word_of_nat (length aad))) @ put_be64 (push_bit 3 (word_of_nat (length ct)));
          acc = ghash_bytes_scalar (g_hh g) acc lens;
          ek = aes_encrypt (g_rk g) (g_nr g) j0
      in map (\<lambda>i. acc ! i XOR ek ! i) [0..<16])"

definition qn_aes_gcm_seal :: "qn_aes_gcm \<Rightarrow> bytes \<Rightarrow> bytes \<Rightarrow> bytes \<Rightarrow> bytes option" where
  "qn_aes_gcm_seal g iv aad pt =
     (if \<not> gcm_lengths_ok (length aad) (length pt) then None
      else (let j0 = gcm_j0 iv; ctr = j0[15 := 2]; ct = (if pt \<noteq> [] then gctr_scalar g ctr pt else [])
            in Some (ct @ gcm_tag g j0 aad ct)))"

definition qn_aes_gcm_open :: "qn_aes_gcm \<Rightarrow> bytes \<Rightarrow> bytes \<Rightarrow> bytes \<Rightarrow> bytes option" where
  "qn_aes_gcm_open g iv aad ct =
     (if length ct < QN_AEAD_TAG_LEN then None
      else (let n = length ct - QN_AEAD_TAG_LEN in
            if \<not> gcm_lengths_ok (length aad) n then None
            else (let j0 = gcm_j0 iv in
                  if \<not> qn_ct_eq (gcm_tag g j0 aad (take n ct)) (drop n ct) QN_AEAD_TAG_LEN then None
                  else (let ctr = j0[15 := 2] in Some (if n \<noteq> 0 then gctr_scalar g ctr (take n ct) else [])))))"

section \<open>Counter mode is its own inverse\<close>

lemma gctr_length [simp]: "length (gctr_scalar g c m) = length m"
proof (induction g c m rule: gctr_scalar.induct)
  case (1 g c m)
  then show ?case by (subst gctr_scalar.simps) (auto simp: Let_def)
qed

lemma gctr_nth:
  "i < length m \<Longrightarrow> gctr_scalar g c m ! i = m ! i XOR aes_encrypt (g_rk g) (g_nr g) ((next_counter ^^ (i div 16)) c) ! (i mod 16)"
proof (induction g c m arbitrary: i rule: gctr_scalar.induct)
  case (1 g c m)
  define n where "n = min (length m) 16"
  have m: "m \<noteq> []" using 1(2) by auto
  have e: "gctr_scalar g c m = map (\<lambda>i. m ! i XOR aes_encrypt (g_rk g) (g_nr g) c ! i) [0..<n] @ gctr_scalar g (next_counter c) (drop n m)"
    using m by (subst gctr_scalar.simps) (simp add: Let_def n_def)
  show ?case
  proof (cases "i < n")
    case True
    then show ?thesis by (simp add: e nth_append n_def)
  next
    case False
    then have n: "n = 16" "i - 16 < length (drop n m)" using 1(2) by (auto simp: n_def min_def)
    have s: "i div 16 = Suc ((i - 16) div 16)" "i mod 16 = (i - 16) mod 16" using False n(1) by (simp_all add: le_div_geq le_mod_geq)
    have "gctr_scalar g (next_counter c) (drop n m) ! (i - 16) = drop n m ! (i - 16) XOR
        aes_encrypt (g_rk g) (g_nr g) ((next_counter ^^ ((i - 16) div 16)) (next_counter c)) ! ((i - 16) mod 16)"
      by (rule 1(1) [OF m n_def refl n(2)])
    then show ?thesis using False 1(2) n(1) by (simp add: e nth_append s funpow_swap1)
  qed
qed

lemma gctr_twice: "gctr_scalar g c (gctr_scalar g c m) = m"
  by (rule nth_equalityI) (simp_all add: gctr_nth xor.assoc)

lemma gctr_empty [simp]: "gctr_scalar g c [] = []" by (simp add: gctr_scalar.simps)

lemma gcm_tag_length [simp]: "length (gcm_tag g j0 aad ct) = 16" by (simp add: gcm_tag_def Let_def)

interpretation gc: stream_aead "gctr_scalar g c" "gcm_tag g j0 aad" "gcm_lengths_ok (length aad)" for g c j0 aad
  by unfold_locales (simp_all add: gctr_twice)

lemma gcm_open_iff:
  "qn_aes_gcm_open g iv aad ct = Some pt \<longleftrightarrow> qn_aes_gcm_seal g iv aad pt = Some ct"
proof -
  have e: "(if n \<noteq> 0 then gctr_scalar g c (take n m) else []) = gctr_scalar g c (take n m)" "(if m \<noteq> [] then gctr_scalar g c m else []) = gctr_scalar g c m" for n c m by simp_all
  show ?thesis using gc.accepts_iff [of ct aad g "gcm_j0 iv" pt "(gcm_j0 iv)[15 := 2]"]
    unfolding qn_aes_gcm_open_def qn_aes_gcm_seal_def Let_def QN_AEAD_TAG_LEN_def e by auto
qed

end
