(* ===== verification/Ghash_Exact.thy ===== *)
theory Ghash_Exact
  imports Aesgcm
begin

text \<open>
  The table-driven hash of AES-GCM against the multiplication of SP 800-38D, bit by bit in the field
  of \<open>2 ^ 128\<close> elements: four bits at a time through the table give the same product, so the hash of the
  code is the GHASH of the standard and its tag the one the standard defines.
\<close>

type_synonym w128 = "128 word"

section \<open>The field\<close>

text \<open>Multiplication by the indeterminate: one place to the right, reduced.\<close>

definition mulx :: "w128 \<Rightarrow> w128" where
  "mulx v = drop_bit 1 v XOR (if bit v 0 then 0xe1000000000000000000000000000000 else 0)"

fun gf_mul_bits :: "bool list \<Rightarrow> w128 \<Rightarrow> w128 \<Rightarrow> w128" where
  "gf_mul_bits [] z v = z"
| "gf_mul_bits (b # bs) z v = gf_mul_bits bs (if b then z XOR v else z) (mulx v)"

definition block_bits :: "bytes \<Rightarrow> bool list" where
  "block_bits x = concat (map (\<lambda>b. map (\<lambda>i. bit b (7 - i)) [0..<8]) x)"

definition word_of_block :: "bytes \<Rightarrow> w128" where
  "word_of_block x = foldl (\<lambda>v b. push_bit 8 v OR ucast b) 0 x"

definition block_of_word :: "w128 \<Rightarrow> bytes" where
  "block_of_word z = map (\<lambda>i. ucast (drop_bit (120 - 8 * i) z)) [0..<16]"

definition gf_mul :: "bytes \<Rightarrow> bytes \<Rightarrow> bytes" where
  "gf_mul x h = block_of_word (gf_mul_bits (block_bits x) 0 (word_of_block h))"

lemma mulx_xor: "mulx (a XOR b) = mulx a XOR mulx b"
  by (rule bit_word_eqI) (auto simp: mulx_def bit_simps)

lemma mulx_zero [simp]: "mulx 0 = 0" by (simp add: mulx_def)

fun horner :: "bool list \<Rightarrow> w128 \<Rightarrow> w128" where
  "horner [] v = 0"
| "horner (b # bs) v = (if b then v else 0) XOR mulx (horner bs v)"

lemma horner_mulx: "horner bs (mulx v) = mulx (horner bs v)"
  by (induction bs) (simp_all add: mulx_xor)

lemma gf_mul_horner: "gf_mul_bits bs z v = z XOR horner bs v"
  by (induction bs arbitrary: z v) (simp_all add: horner_mulx xor.assoc)

section \<open>Pairs of words\<close>

definition pair128 :: "u64 \<times> u64 \<Rightarrow> w128" where
  "pair128 z = (case z of (zh, zl) \<Rightarrow> push_bit 64 (ucast zh) OR ucast zl)"

lemma bit_pair128: "bit (pair128 (zh, zl)) n \<longleftrightarrow> (if n < 64 then bit zl n else n < 128 \<and> bit zh (n - 64))"
proof -
  have "bit zl n \<Longrightarrow> n < 64" "bit zh (n - 64) \<Longrightarrow> n - 64 < 64" using bit_imp_le_length [of zl n] bit_imp_le_length [of zh "n - 64"] by simp_all
  then show ?thesis by (auto simp: pair128_def bit_simps)
qed

lemma pair128_xor: "pair128 (a XOR c, b XOR d) = pair128 (a, b) XOR pair128 (c, d)"
  by (rule bit_word_eqI) (simp add: bit_pair128 bit_simps)

lemma pair128_zero [simp]: "pair128 (0, 0) = 0" by (simp add: pair128_def)

lemma pair128_shift:
  assumes "0 < k" "k < 64"
  shows "pair128 (drop_bit k zh, push_bit (64 - k) zh OR drop_bit k zl) = drop_bit k (pair128 (zh, zl))"
proof (rule bit_word_eqI)
  fix n assume n: "n < LENGTH(128)"
  have z: "\<not> bit zl (k + n)" if "64 \<le> k + n" using that bit_imp_le_length [of zl "k + n"] by auto
  have y: "\<not> bit zh (k + n - 64)" if "128 \<le> k + n" using that bit_imp_le_length [of zh "k + n - 64"] by auto
  consider "k + n < 64" | "64 \<le> k + n" "n < 64" | "64 \<le> n" using assms by linarith
  then show "bit (pair128 (drop_bit k zh, push_bit (64 - k) zh OR drop_bit k zl)) n \<longleftrightarrow> bit (drop_bit k (pair128 (zh, zl))) n"
  proof cases
    case 1
    then have "\<not> 64 - k \<le> n" by simp
    then show ?thesis using 1 by (simp add: bit_pair128 bit_simps)
  next
    case 2
    then have "n - (64 - k) = k + n - 64" using assms by simp
    then show ?thesis using 2 assms z by (simp add: bit_pair128 bit_simps) linarith
  next
    case 3
    then have "k + (n - 64) = k + n - 64" by simp
    then show ?thesis using 3 y n by (cases "k + n < 128") (simp_all add: bit_pair128 bit_simps)
  qed
qed

lemma pair128_reduce:
  assumes "0 < k" "k < 64"
  shows "pair128 (drop_bit k zh XOR c, push_bit (64 - k) zh OR drop_bit k zl) = drop_bit k (pair128 (zh, zl)) XOR push_bit 64 (ucast c)"
  using pair128_xor [of "drop_bit k zh" c "push_bit (64 - k) zh OR drop_bit k zl" 0] pair128_shift [OF assms, of zh zl] by (simp add: pair128_def)

lemma pair128_low: "ucast zl = take_bit 64 (pair128 (zh, zl))"
  by (rule bit_word_eqI) (auto simp: bit_pair128 bit_simps dest: bit_imp_le_length)

lemma table_shift_mulx: "pair128 (table_shift v) = mulx (pair128 v)"
proof -
  obtain vh vl where v: "v = (vh, vl)" by force
  have t: "push_bit 32 (ucast (ucast (vl AND 1) * 0xe1000000 :: u32) :: u64) = (if bit vl 0 then 0xe100000000000000 else 0)"
  proof (cases "bit vl 0")
    case True
    then have "vl AND 1 = 1" by (simp add: and_one_eq odd_iff_mod_2_eq_one [symmetric] bit_0)
    then show ?thesis using True by simp
  next
    case False
    then have "vl AND 1 = 0" by (simp add: and_one_eq even_iff_mod_2_eq_zero [symmetric] bit_0)
    then show ?thesis using False by simp
  qed
  have "bit (pair128 (vh, vl)) 0 = bit vl 0" by (simp add: bit_pair128)
  then show ?thesis unfolding v table_shift_def prod.case Let_def t mulx_def using pair128_reduce [of 1 vh _ vl] by simp
qed

lemma mulx_shift:
  assumes "0 < j" "j \<le> 4"
  shows "mulx (push_bit j (drop_bit 4 z)) = push_bit (j - 1) (drop_bit 4 z)"
proof (rule bit_word_eqI)
  fix n assume n: "n < LENGTH(128)"
  have y: "\<not> bit z i" if "128 \<le> i" for i using that bit_imp_le_length [of z i] by auto
  have "\<not> bit (push_bit j (drop_bit 4 z)) 0" using assms(1) by (simp add: bit_simps)
  then have "bit (mulx (push_bit j (drop_bit 4 z))) n \<longleftrightarrow> j \<le> Suc n \<and> Suc n < 128 \<and> bit z (4 + (Suc n - j))" by (auto simp: mulx_def bit_simps)
  also have "\<dots> \<longleftrightarrow> j - 1 \<le> n \<and> bit z (4 + (n - (j - 1)))"
  proof -
    have "bit z (4 + (Suc n - j)) \<Longrightarrow> 4 + (Suc n - j) < 128" using y by (meson not_le)
    then show ?thesis using assms by (auto simp: Suc_diff_le le_diff_conv)
  qed
  finally show "bit (mulx (push_bit j (drop_bit 4 z))) n \<longleftrightarrow> bit (push_bit (j - 1) (drop_bit 4 z)) n" using n by (simp add: bit_simps)
qed

text \<open>What the last four bits become is looked up.\<close>

lemma last4_mulx: "n < 16 \<Longrightarrow> mulx (mulx (mulx (mulx (word_of_nat n)))) = push_bit 112 (ucast (LAST4 ! n))"
proof -
  have "\<forall>n\<in>set [0..<16]. mulx (mulx (mulx (mulx (word_of_nat n)))) = push_bit 112 (ucast (LAST4 ! n))" by code_simp
  then show "n < 16 \<Longrightarrow> mulx (mulx (mulx (mulx (word_of_nat n)))) = push_bit 112 (ucast (LAST4 ! n))" by simp
qed

lemma last4_high: "n < 16 \<Longrightarrow> push_bit 64 (ucast (push_bit 48 (LAST4 ! n)) :: w128) = push_bit 112 (ucast (LAST4 ! n))"
proof -
  have "\<forall>n\<in>set [0..<16]. push_bit 64 (ucast (push_bit 48 (LAST4 ! n)) :: w128) = push_bit 112 (ucast (LAST4 ! n))" by code_simp
  then show "n < 16 \<Longrightarrow> push_bit 64 (ucast (push_bit 48 (LAST4 ! n)) :: w128) = push_bit 112 (ucast (LAST4 ! n))" by simp
qed

lemma ghash_shift_mulx: "pair128 (ghash_shift v) = mulx (mulx (mulx (mulx (pair128 v))))"
proof -
  obtain zh zl where v: "v = (zh, zl)" by force
  define z where "z = pair128 (zh, zl)"
  define r where "r = unat (zl AND 0x0f)"
  have r: "r < 16" unfolding r_def using word_and_le1 [of zl "0x0f"] by (simp add: word_le_nat_alt)
  have low: "take_bit 4 z = word_of_nat r"
  proof -
    have "take_bit 4 z = take_bit 4 (ucast zl)" unfolding z_def pair128_low [of zl zh] by (simp add: take_bit_take_bit)
    also have "\<dots> = ucast (zl AND 0x0f)" by (rule bit_word_eqI) (auto simp: bit_simps take_bit_eq_mask [of 4 zl, simplified mask_eq_exp_minus_1, simplified, symmetric])
    finally show ?thesis by (simp add: r_def)
  qed
  have "z = push_bit 4 (drop_bit 4 z) XOR take_bit 4 z" by (rule bit_word_eqI) (auto simp: bit_simps)
  then have "mulx (mulx (mulx (mulx z))) = mulx (mulx (mulx (mulx (push_bit 4 (drop_bit 4 z))))) XOR mulx (mulx (mulx (mulx (word_of_nat r))))"
    unfolding low by (metis mulx_xor)
  also have "mulx (mulx (mulx (mulx (push_bit 4 (drop_bit 4 z))))) = drop_bit 4 z"
    using mulx_shift [of 4 z] mulx_shift [of 3 z] mulx_shift [of 2 z] mulx_shift [of 1 z] by simp
  finally have m: "mulx (mulx (mulx (mulx z))) = drop_bit 4 z XOR push_bit 112 (ucast (LAST4 ! r))" by (simp only: last4_mulx [OF r])
  have "push_bit 64 (ucast (push_bit 48 (LAST4 ! r)) :: w128) = push_bit 112 (ucast (LAST4 ! r))" by (rule last4_high [OF r])
  then show ?thesis unfolding v ghash_shift_def prod.case r_def [symmetric] using pair128_reduce [of 4 zh "push_bit 48 (LAST4 ! r)" zl] unfolding z_def [symmetric] m by simp
qed

section \<open>Blocks as words\<close>

lemma bit_be_fold:
  "bit (foldl (\<lambda>v b. push_bit 8 v OR ucast b) a xs :: 'a :: len word) n \<longleftrightarrow>
    n < LENGTH('a) \<and> (if n < 8 * length xs then bit (xs ! (length xs - 1 - n div 8)) (n mod 8) else bit a (n - 8 * length xs))" for xs :: bytes
proof (induction xs arbitrary: n rule: rev_induct)
  case Nil
  then show ?case by (auto dest: bit_imp_le_length)
next
  case (snoc x xs)
  show ?case
  proof (cases "n < 8")
    case True
    then show ?thesis by (auto simp: bit_simps)
  next
    case False
    have x: "\<not> bit x n" using False bit_imp_le_length [of x n] by auto
    have d: "(n - 8) div 8 = n div 8 - 1" "(n - 8) mod 8 = n mod 8" "n div 8 \<ge> 1" using False by (simp_all add: le_div_geq le_mod_geq)
    have i: "(xs @ [x]) ! (length xs - n div 8) = xs ! (length xs - 1 - (n div 8 - 1))" if "n < 8 * Suc (length xs)"
    proof -
      have "n div 8 < Suc (length xs)" using that by (intro div_bound) simp
      then show ?thesis using d(3) by (auto simp: nth_append)
    qed
    show ?thesis using False x d i by (auto simp: bit_simps snoc less_imp_diff_less)
  qed
qed

lemma word_of_block_pair:
  assumes "length h = 16"
  shows "word_of_block h = pair128 (be64 h, be64 (drop 8 h))"
proof (rule bit_word_eqI)
  fix n assume n: "n < LENGTH(128)"
  have b: "bit (be64 p) k \<longleftrightarrow> bit (p ! (7 - k div 8)) (k mod 8)" if "8 \<le> length p" "k < 64" for p k
  proof -
    have "k div 8 < 8" using that(2) by (intro div_bound) simp
    then show ?thesis using that unfolding be64_def bit_be_fold by simp
  qed
  show "bit (word_of_block h) n \<longleftrightarrow> bit (pair128 (be64 h, be64 (drop 8 h))) n"
  proof (cases "n < 64")
    case True
    then have "n div 8 < 8" by (intro div_bound) simp
    then have "8 + (7 - n div 8) = 15 - n div 8" by simp
    then show ?thesis using True assms by (simp add: word_of_block_def bit_be_fold bit_pair128 b)
  next
    case False
    then obtain k where k: "n = k + 8 * 8" using le_iff_add [of 64 n] by (auto simp: add.commute)
    have d: "n div 8 = 8 + k div 8" "n mod 8 = k mod 8" "n - 64 = k" unfolding k by (simp, rule mod_mult_self2, simp)
    have "k div 8 < 8" using n k by (intro div_bound) simp
    then have "7 - (n - 64) div 8 = 15 - n div 8" "(n - 64) mod 8 = n mod 8" using d by simp_all
    then show ?thesis using False assms n by (simp add: word_of_block_def bit_be_fold bit_pair128 b)
  qed
qed

lemma block_of_pair: "block_of_word (pair128 (zh, zl)) = put_be64 zh @ put_be64 zl"
proof (rule nth_equalityI)
  show "length (block_of_word (pair128 (zh, zl))) = length (put_be64 zh @ put_be64 zl)" by (simp add: block_of_word_def put_be64_def)
  fix i assume "i < length (block_of_word (pair128 (zh, zl)))"
  then have i: "i < 16" by (simp add: block_of_word_def)
  show "block_of_word (pair128 (zh, zl)) ! i = (put_be64 zh @ put_be64 zl) ! i"
  proof (cases "i < 8")
    case True
    then have "ucast (drop_bit (120 - 8 * i) (pair128 (zh, zl))) = (ucast (drop_bit (56 - 8 * i) zh) :: u8)"
      by (intro bit_word_eqI) (auto simp: bit_simps bit_pair128)
    then show ?thesis using True i by (simp add: block_of_word_def put_be64_def nth_append)
  next
    case False
    then obtain j where j: "i = j + 8" "j < 8" using i le_iff_add [of 8 i] by (auto simp: add.commute)
    have "ucast (drop_bit (56 - 8 * j) (pair128 (zh, zl))) = (ucast (drop_bit (56 - 8 * j) zl) :: u8)"
      by (intro bit_word_eqI) (auto simp: bit_simps bit_pair128)
    then show ?thesis using j by (simp add: block_of_word_def put_be64_def nth_append)
  qed
qed

section \<open>The table\<close>

definition nib_bits :: "u8 \<Rightarrow> bool list" where "nib_bits b = [bit b 3, bit b 2, bit b 1, bit b 0]"

definition pair_xor :: "u64 \<times> u64 \<Rightarrow> u64 \<times> u64 \<Rightarrow> u64 \<times> u64" where "pair_xor a b = (fst a XOR fst b, snd a XOR snd b)"

lemma pair128_pair_xor [simp]: "pair128 (pair_xor a b) = pair128 a XOR pair128 b"
  by (cases a, cases b) (simp add: pair_xor_def pair128_xor)

lemma table_entries:
  "foldl table_sum ((replicate 16 (0, 0))[8 := v8, 4 := v4, 2 := v2, 1 := v1]) [2, 4, 8] =
    [(0, 0), v1, v2, pair_xor v2 v1, v4, pair_xor v4 v1, pair_xor v4 v2, pair_xor v4 (pair_xor v2 v1),
     v8, pair_xor v8 v1, pair_xor v8 v2, pair_xor v8 (pair_xor v2 v1), pair_xor v8 v4, pair_xor v8 (pair_xor v4 v1), pair_xor v8 (pair_xor v4 v2),
     pair_xor v8 (pair_xor v4 (pair_xor v2 v1))]"
  by (simp add: table_sum_def upt_rec numeral_eq_Suc pair_xor_def)

lemma table_nib:
  assumes "length h = 16" "unat nib < 16"
  shows "pair128 (ghash_table h ! unat nib) = horner (nib_bits nib) (word_of_block h)"
proof -
  define v8 where "v8 = (be64 h, be64 (drop 8 h))"
  define v4 where "v4 = table_shift v8"
  define v2 where "v2 = table_shift v4"
  define v1 where "v1 = table_shift v2"
  have v: "word_of_block h = pair128 v8" using word_of_block_pair [OF assms(1)] by (simp add: v8_def)
  have m: "mulx (pair128 v8) = pair128 v4" "mulx (pair128 v4) = pair128 v2" "mulx (pair128 v2) = pair128 v1"
    by (simp_all add: v4_def v2_def v1_def table_shift_mulx)
  have t: "ghash_table h = [(0, 0), v1, v2, pair_xor v2 v1, v4, pair_xor v4 v1, pair_xor v4 v2, pair_xor v4 (pair_xor v2 v1),
     v8, pair_xor v8 v1, pair_xor v8 v2, pair_xor v8 (pair_xor v2 v1), pair_xor v8 v4, pair_xor v8 (pair_xor v4 v1), pair_xor v8 (pair_xor v4 v2),
     pair_xor v8 (pair_xor v4 (pair_xor v2 v1))]"
    unfolding ghash_table_def Let_def v8_def [symmetric] v4_def [symmetric] v2_def [symmetric] v1_def [symmetric] by (rule table_entries)
  obtain n where n: "n < 16" "nib = word_of_nat n" using assms(2) by (intro that [of "unat nib"]) simp_all
  have u: "unat nib = n" using n by simp
  from n(1) have "n \<in> {0, 1, 2, 3, 4, 5, 6, 7, 8, 9, 10, 11, 12, 13, 14, 15}" by (simp only: insert_iff empty_iff) presburger
  then show ?thesis unfolding t v u unfolding n(2) nib_bits_def by (elim insertE emptyE; simp add: mulx_xor m xor.assoc bit_numeral_rec)
qed

lemma horner_append: "horner (nib_bits nib @ bs) v = horner (nib_bits nib) v XOR mulx (mulx (mulx (mulx (horner bs v))))"
  by (simp add: nib_bits_def mulx_xor xor.assoc)

lemma byte_nibs: "map (\<lambda>i. bit b (7 - i)) [0..<8] = nib_bits (drop_bit 4 b AND 0x0f) @ nib_bits (b AND 0x0f)" for b :: u8
proof -
  have "(0x0f :: u8) = mask 4" by (simp add: mask_eq_exp_minus_1)
  then show ?thesis by (simp add: nib_bits_def upt_rec numeral_eq_Suc bit_simps)
qed

lemma nib_less: "unat (x AND 0x0f) < 16" for x :: u8
  using word_and_le1 [of x "0x0f"] by (simp add: word_le_nat_alt)

lemma ghash_add_nib:
  assumes "length h = 16" "unat nib < 16" "pair128 z = horner bs (word_of_block h)"
  shows "pair128 (ghash_add (ghash_table h) nib (ghash_shift z)) = horner (nib_bits nib @ bs) (word_of_block h)"
proof -
  have "ghash_add hh nib z = pair_xor z (hh ! unat nib)" for hh z by (cases z) (simp add: ghash_add_def pair_xor_def)
  then show ?thesis using assms(3) by (simp add: horner_append ghash_shift_mulx table_nib [OF assms(1,2)] xor.commute)
qed

lemma block_bits_drop: "i < length x \<Longrightarrow> block_bits (drop i x) = nib_bits (drop_bit 4 (x ! i) AND 0x0f) @ nib_bits (x ! i AND 0x0f) @ block_bits (drop (Suc i) x)"
  unfolding block_bits_def by (subst Cons_nth_drop_Suc [symmetric], assumption) (simp add: byte_nibs del: upt_Suc)

lemma ghash_byte_bits:
  assumes "length h = 16" "length x = 16" "i < 15" "pair128 z = horner (block_bits (drop (Suc i) x)) (word_of_block h)"
  shows "pair128 (ghash_byte (ghash_table h) x z i) = horner (block_bits (drop i x)) (word_of_block h)"
  using assms ghash_add_nib [OF assms(1) nib_less ghash_add_nib [OF assms(1) nib_less assms(4)]]
  by (simp add: ghash_byte_def Let_def block_bits_drop)

lemma ghash_bytes_bits:
  assumes "length h = 16" "length x = 16" "k \<le> 15" "pair128 z = horner (block_bits (drop k x)) (word_of_block h)"
  shows "pair128 (foldl (ghash_byte (ghash_table h) x) z (rev [0..<k])) = horner (block_bits x) (word_of_block h)"
  using assms(3,4)
proof (induction k arbitrary: z)
  case (Suc k)
  then show ?case using ghash_byte_bits [OF assms(1,2), of k z] by simp
qed simp

lemma ghash_mul_gf:
  assumes "length h = 16" "length x = 16"
  shows "ghash_mul (ghash_table h) x = gf_mul x h"
proof -
  let ?z = "ghash_table h ! unat (x ! 15 AND 0x0f)"
  have r: "rev [0..<16] = 15 # rev [0..<15]" by (simp add: upt_rec numeral_eq_Suc)
  have e: "block_bits (drop 16 x) = []" using assms(2) by (simp add: block_bits_def)
  have "pair128 ?z = horner (nib_bits (x ! 15 AND 0x0f)) (word_of_block h)" by (rule table_nib [OF assms(1) nib_less])
  from ghash_add_nib [OF assms(1) nib_less this] have "pair128 (ghash_byte (ghash_table h) x ?z 15) = horner (block_bits (drop 15 x)) (word_of_block h)"
    using block_bits_drop [of 15 x] assms(2) e by (simp add: ghash_byte_def Let_def)
  from ghash_bytes_bits [OF assms order_refl this]
  have "pair128 (foldl (ghash_byte (ghash_table h) x) ?z (rev [0..<16])) = gf_mul_bits (block_bits x) 0 (word_of_block h)"
    unfolding r by (simp add: gf_mul_horner)
  then show ?thesis unfolding ghash_mul_def gf_mul_def by (simp add: block_of_pair [symmetric] split: prod.split)
qed

section \<open>The hash of a message\<close>

definition xor_block :: "bytes \<Rightarrow> bytes \<Rightarrow> bytes" where "xor_block a b = map (\<lambda>i. a ! i XOR b ! i) [0..<16]"

text \<open>GHASH over whole blocks.\<close>

function ghash :: "bytes \<Rightarrow> bytes \<Rightarrow> bytes \<Rightarrow> bytes" where
  "ghash h acc m = (if m = [] then acc else ghash h (gf_mul (xor_block acc (take 16 m)) h) (drop 16 m))"
  by pat_completeness auto
termination by (relation "measure (\<lambda>(_, _, m). length m)") auto

declare ghash.simps [simp del]

lemma block_lengths [simp]: "length (xor_block a b) = 16" "length (gf_mul x h) = 16" by (simp_all add: xor_block_def gf_mul_def block_of_word_def)

lemma ghash_append: "16 dvd length m \<Longrightarrow> ghash h acc (m @ n) = ghash h (ghash h acc m) n"
proof (induction h acc m rule: ghash.induct)
  case (1 h acc m)
  show ?case
  proof (cases "m = []")
    case False
    then have len: "16 \<le> length m" "16 dvd length (drop 16 m)" using 1(2) by (auto simp: dvd_imp_le dvd_diff_nat)
    have "ghash h acc (m @ n) = ghash h (gf_mul (xor_block acc (take 16 m)) h) (drop 16 m @ n)" using False len by (subst ghash.simps) simp
    also have "\<dots> = ghash h (ghash h acc m) n" unfolding 1(1) [OF False len(2)] by (subst (3) ghash.simps) (simp add: False)
    finally show ?thesis .
  qed (simp add: ghash.simps)
qed

lemma pad16_whole: "16 \<le> length p \<Longrightarrow> pad16 (drop 16 p) = pad16 p" by (simp add: pad16_def le_mod_geq)

lemma pad16_dvd: "16 dvd length (m @ pad16 m)"
proof -
  have "(length m + (16 - length m mod 16) mod 16) mod 16 = (length m mod 16 + (16 - length m mod 16)) mod 16" by (metis mod_add_left_eq mod_add_right_eq)
  also have "\<dots> = 0" by simp
  finally show ?thesis by (simp only: pad16_def length_append length_replicate dvd_eq_mod_eq_0)
qed

lemma ghash_bytes_ghash: "length h = 16 \<Longrightarrow> length acc = 16 \<Longrightarrow> ghash_bytes_scalar (ghash_table h) acc p = ghash h acc (p @ pad16 p)"
proof (induction "ghash_table h" acc p rule: ghash_bytes_scalar.induct)
  case (1 acc p)
  show ?case
  proof (cases "p = []")
    case True
    then show ?thesis by (simp add: ghash_bytes_scalar.simps ghash.simps pad16_def)
  next
    case False
    define n where "n = min (length p) 16"
    define x where "x = map (\<lambda>i. if i < n then acc ! i XOR p ! i else acc ! i) [0..<16]"
    have x: "x = xor_block acc (take 16 (p @ pad16 p))" unfolding x_def xor_block_def
    proof (rule map_cong [OF refl])
      fix i assume i: "i \<in> set [0..<16]"
      show "(if i < n then acc ! i XOR p ! i else acc ! i) = acc ! i XOR take 16 (p @ pad16 p) ! i"
        using i False by (auto simp: n_def nth_append pad16_def)
    qed
    have d: "drop 16 (p @ pad16 p) = drop n p @ pad16 (drop n p)"
    proof (cases "16 \<le> length p")
      case True
      then show ?thesis using pad16_whole [OF True] by (simp add: n_def)
    next
      case short: False
      then have "length (p @ pad16 p) = 16" using False by (simp add: pad16_def)
      then show ?thesis using short by (simp add: n_def pad16_def)
    qed
    have "length x = 16" by (simp add: x_def)
    then have g: "ghash_mul (ghash_table h) x = gf_mul x h" by (rule ghash_mul_gf [OF 1(2)])
    have "ghash_bytes_scalar (ghash_table h) acc p = ghash_bytes_scalar (ghash_table h) (ghash_mul (ghash_table h) x) (drop n p)"
      using False by (subst ghash_bytes_scalar.simps) (simp add: Let_def n_def x_def)
    also have "\<dots> = ghash h (gf_mul x h) (drop n p @ pad16 (drop n p))"
      using 1(1) [OF False n_def x_def 1(2)] g by simp
    also have "\<dots> = ghash h acc (p @ pad16 p)" unfolding x d [symmetric] using False by (subst (2) ghash.simps) simp
    finally show ?thesis .
  qed
qed

lemma ghash_length: "length acc = 16 \<Longrightarrow> length (ghash h acc m) = 16"
proof (induction h acc m rule: ghash.induct)
  case (1 h acc m)
  then show ?case by (subst ghash.simps) simp
qed

text \<open>The tag of SP 800-38D.\<close>

definition gcm_tag_ref :: "(bytes \<Rightarrow> bytes) \<Rightarrow> bytes \<Rightarrow> bytes \<Rightarrow> bytes \<Rightarrow> bytes" where
  "gcm_tag_ref enc j0 aad ct =
     xor_block (ghash (enc (replicate 16 0)) (replicate 16 0)
       (aad @ pad16 aad @ ct @ pad16 ct @ put_be64 (word_of_nat (8 * length aad)) @ put_be64 (word_of_nat (8 * length ct)))) (enc j0)"

lemma add_rk_length [simp]: "length (add_rk s rk) = 16" by (simp add: add_rk_def)

lemma aes_encrypt_length [simp]: "length (aes_encrypt rk nr m) = 16"
proof -
  have "length (foldl (aes_round rk nr) s rs) = 16" if "length s = 16" for s rs
    using that by (induction rs arbitrary: s) (simp_all add: aes_round_def Let_def)
  then show ?thesis by (simp add: aes_encrypt_def)
qed

lemma gcm_tag_exact:
  assumes "qn_aes_gcm_setkey key = Some g"
  shows "gcm_tag g j0 aad ct = gcm_tag_ref (aes_encrypt (g_rk g) (g_nr g)) j0 aad ct"
proof -
  define h where "h = aes_encrypt (g_rk g) (g_nr g) (replicate 16 0)"
  have t: "g_hh g = ghash_table h" using assms by (auto simp: qn_aes_gcm_setkey_def Let_def h_def split: if_splits prod.splits)
  have h: "length h = 16" by (simp add: h_def)
  define lens where "lens = put_be64 (word_of_nat (8 * length aad)) @ put_be64 (word_of_nat (8 * length ct))"
  have l: "put_be64 (push_bit 3 (word_of_nat (length aad))) @ put_be64 (push_bit 3 (word_of_nat (length ct))) = lens"
    by (simp add: lens_def push_bit_eq_mult mult.commute)
  have p: "pad16 lens = []" by (simp add: lens_def pad16_def put_be64_def)
  have "ghash_bytes_scalar (g_hh g) (ghash_bytes_scalar (g_hh g) (ghash_bytes_scalar (g_hh g) (replicate 16 0) aad) ct) lens =
      ghash h (replicate 16 0) ((aad @ pad16 aad) @ (ct @ pad16 ct) @ lens)"
    unfolding t by (simp only: ghash_bytes_ghash [OF h] ghash_length length_replicate p append_Nil2 ghash_append pad16_dvd)
  then show ?thesis unfolding gcm_tag_def Let_def l gcm_tag_ref_def h_def [symmetric] xor_block_def lens_def by simp
qed

text \<open>
  Property C36. With a key the code accepted, sealing with AES-GCM is refused exactly beyond the lengths of
  SP 800-38D.  Otherwise byte \<open>i\<close> of the text is covered by the cipher of the initial counter advanced
  \<open>i div 16\<close> times, and the text is followed by the tag of the standard: the hash computed in the field
  bit by bit, which the code computes through its table, over the associated data, the ciphertext and
  their lengths in bits.
\<close>

theorem gcm_seal_exact:
  assumes "qn_aes_gcm_setkey key = Some g"
  shows "(qn_aes_gcm_seal g iv aad pt = None \<longleftrightarrow> length aad > (2 ^ 64 - 1) div 8 \<or> length pt > 2 ^ 36 - 32) \<and>
    (\<forall>ct. qn_aes_gcm_seal g iv aad pt = Some ct \<longrightarrow>
       length ct = length pt + 16 \<and> drop (length pt) ct = gcm_tag_ref (aes_encrypt (g_rk g) (g_nr g)) (take 12 iv @ [0, 0, 0, 1]) aad (take (length pt) ct) \<and>
       (\<forall>i < length pt. ct ! i = pt ! i XOR aes_encrypt (g_rk g) (g_nr g) ((next_counter ^^ (i div 16)) ((take 12 iv @ [0, 0, 0, 1])[15 := 2])) ! (i mod 16)))"
proof (intro conjI allI impI)
  have ok: "gcm_lengths_ok a n \<longleftrightarrow> \<not> (a > (2 ^ 64 - 1) div 8 \<or> n > 2 ^ 36 - 32)" for a n by (auto simp: gcm_lengths_ok_def)
  then show "qn_aes_gcm_seal g iv aad pt = None \<longleftrightarrow> length aad > (2 ^ 64 - 1) div 8 \<or> length pt > 2 ^ 36 - 32"
    by (simp add: qn_aes_gcm_seal_def Let_def)
  fix ct assume "qn_aes_gcm_seal g iv aad pt = Some ct"
  then have ct: "ct = gctr_scalar g ((gcm_j0 iv)[15 := 2]) pt @ gcm_tag g (gcm_j0 iv) aad (gctr_scalar g ((gcm_j0 iv)[15 := 2]) pt)"
    by (auto simp: qn_aes_gcm_seal_def Let_def split: if_splits)
  show "length ct = length pt + 16" by (simp add: ct)
  show "drop (length pt) ct = gcm_tag_ref (aes_encrypt (g_rk g) (g_nr g)) (take 12 iv @ [0, 0, 0, 1]) aad (take (length pt) ct)"
    by (simp add: ct gcm_tag_exact [OF assms] gcm_j0_def)
  fix i assume "i < length pt"
  then show "ct ! i = pt ! i XOR aes_encrypt (g_rk g) (g_nr g) ((next_counter ^^ (i div 16)) ((take 12 iv @ [0, 0, 0, 1])[15 := 2])) ! (i mod 16)"
    by (simp add: ct nth_append gctr_nth gcm_j0_def)
qed

text \<open>A key of either length is accepted.\<close>

lemma setkey_accepts: "length key = 16 \<or> length key = 32 \<Longrightarrow> \<exists>g. qn_aes_gcm_setkey key = Some g"
  by (auto simp: qn_aes_gcm_setkey_def Let_def split: prod.splits)

theorem gcm_seal_exact_witness:
  "\<exists>g ct. qn_aes_gcm_setkey (replicate 16 1) = Some g \<and> qn_aes_gcm_seal g (replicate 12 2) [3] [4, 5] = Some ct \<and> length ct = 18 \<and>
     drop 2 ct = gcm_tag_ref (aes_encrypt (g_rk g) (g_nr g)) (replicate 12 2 @ [0, 0, 0, 1]) [3] (take 2 ct)"
proof -
  obtain g where g: "qn_aes_gcm_setkey (replicate 16 1) = Some g" using setkey_accepts [of "replicate 16 1"] by auto
  note t = gcm_seal_exact [OF g, of "replicate 12 2" "[3]" "[4, 5]"]
  obtain ct where c: "qn_aes_gcm_seal g (replicate 12 2) [3] [4, 5] = Some ct" using conjunct1 [OF t] by fastforce
  have l: "length [4, 5 :: u8] = 2" by simp
  show ?thesis using g c conjunct2 [OF t, THEN spec, THEN mp, OF c] unfolding l by (intro exI [of _ g] exI [of _ ct]) simp
qed

end
