(* ===== verification/Aead.thy ===== *)
theory Aead
  imports Ghash_Exact
begin

text \<open>
  The choice between the record ciphers in \<^verbatim>\<open>src/crypto/aead.c\<close>.  The union of key states is a datatype; an
  identifier outside the enumeration and null pointers are not modelled, so the \<^verbatim>\<open>default\<close> branches and
  the checks for null pointers have no counterpart.
\<close>

datatype qn_aead_id = QN_AEAD_AES128GCM | QN_AEAD_AES256GCM | QN_AEAD_CHACHA20POLY1305

datatype aead_state = No_Key | Gcm_Key qn_aes_gcm | Chacha_Key bytes

record qn_aead =
  ae_id :: qn_aead_id
  ae_ready :: bool
  ae_u :: aead_state

definition aead_zero :: qn_aead where "aead_zero = \<lparr>ae_id = QN_AEAD_AES128GCM, ae_ready = False, ae_u = No_Key\<rparr>"

fun qn_aead_key_len :: "qn_aead_id \<Rightarrow> nat" where
  "qn_aead_key_len QN_AEAD_AES128GCM = 16"
| "qn_aead_key_len QN_AEAD_AES256GCM = 32"
| "qn_aead_key_len QN_AEAD_CHACHA20POLY1305 = 32"

text \<open>The identifier is published only after the key schedule is installed.\<close>

definition qn_aead_init :: "qn_aead_id \<Rightarrow> bytes \<Rightarrow> bool \<times> qn_aead" where
  "qn_aead_init i key =
     (let u = (case i of QN_AEAD_AES128GCM \<Rightarrow> map_option Gcm_Key (qn_aes_gcm_setkey (take 16 key))
                       | QN_AEAD_AES256GCM \<Rightarrow> map_option Gcm_Key (qn_aes_gcm_setkey (take 32 key))
                       | QN_AEAD_CHACHA20POLY1305 \<Rightarrow> Some (Chacha_Key (take 32 key)))
      in case u of None \<Rightarrow> (False, aead_zero) | Some k \<Rightarrow> (True, \<lparr>ae_id = i, ae_ready = True, ae_u = k\<rparr>))"

definition qn_aead_seal :: "qn_aead \<Rightarrow> bytes \<Rightarrow> bytes \<Rightarrow> bytes \<Rightarrow> bytes option" where
  "qn_aead_seal a iv aad pt =
     (if \<not> ae_ready a then None
      else (case (ae_id a, ae_u a) of
              (QN_AEAD_AES128GCM, Gcm_Key g) \<Rightarrow> qn_aes_gcm_seal g iv aad pt
            | (QN_AEAD_AES256GCM, Gcm_Key g) \<Rightarrow> qn_aes_gcm_seal g iv aad pt
            | (QN_AEAD_CHACHA20POLY1305, Chacha_Key k) \<Rightarrow> qn_chacha20poly1305_seal k iv aad pt
            | _ \<Rightarrow> None))"

definition qn_aead_open :: "qn_aead \<Rightarrow> bytes \<Rightarrow> bytes \<Rightarrow> bytes \<Rightarrow> bytes option" where
  "qn_aead_open a iv aad ct =
     (if \<not> ae_ready a then None
      else (case (ae_id a, ae_u a) of
              (QN_AEAD_AES128GCM, Gcm_Key g) \<Rightarrow> qn_aes_gcm_open g iv aad ct
            | (QN_AEAD_AES256GCM, Gcm_Key g) \<Rightarrow> qn_aes_gcm_open g iv aad ct
            | (QN_AEAD_CHACHA20POLY1305, Chacha_Key k) \<Rightarrow> qn_chacha20poly1305_open k iv aad ct
            | _ \<Rightarrow> None))"

lemma aead_open_iff: "qn_aead_open a iv aad ct = Some pt \<longleftrightarrow> qn_aead_seal a iv aad pt = Some ct"
  by (auto simp: qn_aead_open_def qn_aead_seal_def gcm_open_iff chacha_open_iff split: qn_aead_id.splits aead_state.splits if_splits)

lemma seal_accepts:
  assumes "length aad \<le> (2 ^ 64 - 1) div 8" "length pt \<le> 2 ^ 36 - 32"
  shows "qn_aes_gcm_seal g iv aad pt \<noteq> None" "qn_chacha20poly1305_seal k iv aad pt \<noteq> None"
proof -
  show "qn_aes_gcm_seal g iv aad pt \<noteq> None" using assms by (simp add: qn_aes_gcm_seal_def gcm_lengths_ok_def Let_def)
  have "(length pt - 1) div 64 \<le> (2 ^ 36 - 32) div 64" using assms(2) by (intro div_le_mono) simp
  then have "chacha_counter_ok 1 (length pt)" by (simp add: chacha_counter_ok_def)
  then show "qn_chacha20poly1305_seal k iv aad pt \<noteq> None" by (simp add: qn_chacha20poly1305_seal_def Let_def)
qed

text \<open>
  Property C35. Every cipher takes a key of its length, then seals every text within the limits of the
  standards, and opening returns a text exactly if the input is what sealing that text gives: what was
  sealed opens to itself, and nothing else is ever accepted or released.
\<close>

theorem aead_open_exact:
  assumes "length key \<ge> qn_aead_key_len i"
  shows "\<exists>a. qn_aead_init i key = (True, a) \<and>
    (length aad \<le> (2 ^ 64 - 1) div 8 \<and> length pt \<le> 2 ^ 36 - 32 \<longrightarrow> qn_aead_seal a iv aad pt \<noteq> None) \<and>
    (\<forall>ct. qn_aead_open a iv aad ct = Some pt \<longleftrightarrow> qn_aead_seal a iv aad pt = Some ct)"
proof -
  obtain u where u: "qn_aead_init i key = (True, \<lparr>ae_id = i, ae_ready = True, ae_u = u\<rparr>)"
      "case i of QN_AEAD_CHACHA20POLY1305 \<Rightarrow> u = Chacha_Key (take 32 key) | _ \<Rightarrow> \<exists>g. u = Gcm_Key g"
    using assms setkey_accepts [of "take 16 key"] setkey_accepts [of "take 32 key"] by (cases i) (auto simp: qn_aead_init_def)
  have "qn_aead_seal \<lparr>ae_id = i, ae_ready = True, ae_u = u\<rparr> iv aad pt \<noteq> None" if "length aad \<le> (2 ^ 64 - 1) div 8" "length pt \<le> 2 ^ 36 - 32"
    using u(2) seal_accepts [OF that] by (cases i) (auto simp: qn_aead_seal_def)
  then show ?thesis using u(1) aead_open_iff by blast
qed

theorem aead_open_exact_witness:
  "\<exists>a ct. qn_aead_init QN_AEAD_CHACHA20POLY1305 (replicate 32 9) = (True, a) \<and> qn_aead_seal a (replicate 12 0) [] [1, 2, 3] = Some ct \<and>
     qn_aead_open a (replicate 12 0) [] ct = Some [1, 2, 3]"
proof -
  obtain a where a: "qn_aead_init QN_AEAD_CHACHA20POLY1305 (replicate 32 9) = (True, a)" "qn_aead_seal a (replicate 12 0) [] [1, 2, 3] \<noteq> None"
    "\<forall>ct. qn_aead_open a (replicate 12 0) [] ct = Some [1, 2, 3] \<longleftrightarrow> qn_aead_seal a (replicate 12 0) [] [1, 2, 3] = Some ct"
    using aead_open_exact [of QN_AEAD_CHACHA20POLY1305 "replicate 32 9" "[]" "[1, 2, 3]" "replicate 12 0"] by auto
  then show ?thesis by blast
qed

end
