(* ===== verification/Sha2.thy ===== *)
theory Sha2
  imports Le_Bytes
begin

text \<open>
  SHA-256 and SHA-384 in \<^verbatim>\<open>src/crypto/sha2.c\<close>.  A hash state keeps the bytes of its partial block as a
  list; lengths keep the width of their counters.  The instructions of AArch64 are not part of the
  model.
\<close>

section \<open>SHA-256\<close>

text \<open>The tables of round constants, by rows.\<close>

definition K256 :: "u32 list" where
  "K256 =
    concat
      [[0x428a2f98, 0x71374491, 0xb5c0fbcf, 0xe9b5dba5, 0x3956c25b, 0x59f111f1, 0x923f82a4, 0xab1c5ed5],
       [0xd807aa98, 0x12835b01, 0x243185be, 0x550c7dc3, 0x72be5d74, 0x80deb1fe, 0x9bdc06a7, 0xc19bf174],
       [0xe49b69c1, 0xefbe4786, 0x0fc19dc6, 0x240ca1cc, 0x2de92c6f, 0x4a7484aa, 0x5cb0a9dc, 0x76f988da],
       [0x983e5152, 0xa831c66d, 0xb00327c8, 0xbf597fc7, 0xc6e00bf3, 0xd5a79147, 0x06ca6351, 0x14292967],
       [0x27b70a85, 0x2e1b2138, 0x4d2c6dfc, 0x53380d13, 0x650a7354, 0x766a0abb, 0x81c2c92e, 0x92722c85],
       [0xa2bfe8a1, 0xa81a664b, 0xc24b8b70, 0xc76c51a3, 0xd192e819, 0xd6990624, 0xf40e3585, 0x106aa070],
       [0x19a4c116, 0x1e376c08, 0x2748774c, 0x34b0bcb5, 0x391c0cb3, 0x4ed8aa4a, 0x5b9cca4f, 0x682e6ff3],
       [0x748f82ee, 0x78a5636f, 0x84c87814, 0x8cc70208, 0x90befffa, 0xa4506ceb, 0xbef9a3f7, 0xc67178f2]]"

definition ror32 :: "u32 \<Rightarrow> nat \<Rightarrow> u32" where "ror32 x n = drop_bit n x OR push_bit (32 - n) x"

definition sha_ld32 :: "bytes \<Rightarrow> u32" where
  "sha_ld32 p = push_bit 24 (ucast (p ! 0)) OR push_bit 16 (ucast (p ! 1)) OR push_bit 8 (ucast (p ! 2)) OR ucast (p ! 3)"

definition sha_st32 :: "u32 \<Rightarrow> bytes" where
  "sha_st32 v = [ucast (drop_bit 24 v), ucast (drop_bit 16 v), ucast (drop_bit 8 v), ucast v]"

definition schedule256 :: "u32 list \<Rightarrow> nat \<Rightarrow> u32 list" where
  "schedule256 w i =
     (let x0 = w ! (i - 15); x1 = w ! (i - 2);
          s0 = ror32 x0 7 XOR ror32 x0 18 XOR drop_bit 3 x0;
          s1 = ror32 x1 17 XOR ror32 x1 19 XOR drop_bit 10 x1
      in w @ [w ! (i - 16) + s0 + w ! (i - 7) + s1])"

definition round256 :: "u32 list \<Rightarrow> u32 list \<Rightarrow> nat \<Rightarrow> u32 list" where
  "round256 w v i =
     (let a = v ! 0; b = v ! 1; c = v ! 2; d = v ! 3; e = v ! 4; f = v ! 5; g = v ! 6; h = v ! 7;
          S1 = ror32 e 6 XOR ror32 e 11 XOR ror32 e 25; ch = (e AND f) XOR (NOT e AND g);
          S0 = ror32 a 2 XOR ror32 a 13 XOR ror32 a 22; maj = (a AND b) XOR (a AND c) XOR (b AND c);
          t1 = h + S1 + ch + K256 ! i + w ! i; t2 = S0 + maj
      in [t1 + t2, a, b, c, d + t1, e, f, g])"

definition sha256_block :: "bytes \<Rightarrow> u32 list \<Rightarrow> u32 list" where
  "sha256_block b h =
     (let w = foldl schedule256 (map (\<lambda>i. sha_ld32 (drop (4 * i) b)) [0..<16]) [16..<64];
          v = foldl (round256 w) h [0..<64]
      in map (\<lambda>i. h ! i + v ! i) [0..<8])"

record qn_sha256 =
  s2_h :: "u32 list"
  s2_len :: u64
  s2_buf :: bytes

definition iv256 :: "u32 list" where
  "iv256 = [0x6a09e667, 0xbb67ae85, 0x3c6ef372, 0xa54ff53a, 0x510e527f, 0x9b05688c, 0x1f83d9ab, 0x5be0cd19]"

definition qn_sha256_init :: qn_sha256 where "qn_sha256_init = \<lparr>s2_h = iv256, s2_len = 0, s2_buf = []\<rparr>"

text \<open>Whole blocks, one after the other.\<close>

function hash_blocks :: "nat \<Rightarrow> (bytes \<Rightarrow> 'h \<Rightarrow> 'h) \<Rightarrow> bytes \<Rightarrow> 'h \<Rightarrow> 'h" where
  "hash_blocks n block p h = (if length p < n \<or> n = 0 then h else hash_blocks n block (drop n p) (block (take n p) h))"
  by pat_completeness auto
termination by (relation "measure (\<lambda>(_, _, p, _). length p)") auto

declare hash_blocks.simps [simp del]

definition sha256_blocks :: "bytes \<Rightarrow> u32 list \<Rightarrow> u32 list" where
  "sha256_blocks p h = hash_blocks 64 sha256_block p h"

definition update_rest256 :: "qn_sha256 \<Rightarrow> bytes \<Rightarrow> qn_sha256" where
  "update_rest256 s d =
     (let blocks = length d div 64;
          (s, d) = (if length d \<ge> 64 then (s\<lparr>s2_h := sha256_blocks (take (blocks * 64) d) (s2_h s)\<rparr>, drop (blocks * 64) d) else (s, d))
      in if d \<noteq> [] then s\<lparr>s2_buf := d\<rparr> else s)"

definition qn_sha256_update :: "qn_sha256 \<Rightarrow> bytes \<Rightarrow> qn_sha256" where
  "qn_sha256_update s d =
     (let s = s\<lparr>s2_len := s2_len s + word_of_nat (length d)\<rparr> in
      if s2_buf s \<noteq> []
      then (let n = min (64 - length (s2_buf s)) (length d); b = s2_buf s @ take n d in
            if length b < 64 then s\<lparr>s2_buf := b\<rparr>
            else update_rest256 (s\<lparr>s2_h := sha256_blocks b (s2_h s), s2_buf := []\<rparr>) (drop n d))
      else update_rest256 s d)"

definition qn_sha256_final :: "qn_sha256 \<Rightarrow> bytes" where
  "qn_sha256_final s =
     (let bits = push_bit 3 (s2_len s); tail = map (\<lambda>i. ucast (drop_bit (56 - 8 * i) bits)) [0..<8];
          h = s2_h s; b = s2_buf s @ [0x80];
          (h, b) = (if length b > 56 then (sha256_blocks (b @ replicate (64 - length b) 0) h, []) else (h, b));
          h = sha256_blocks (b @ replicate (56 - length b) 0 @ tail) h
      in concat (map (\<lambda>i. sha_st32 (h ! i)) [0..<8]))"

section \<open>SHA-512 and SHA-384\<close>

definition K512 :: "u64 list" where
  "K512 =
    concat
      [[0x428a2f98d728ae22, 0x7137449123ef65cd, 0xb5c0fbcfec4d3b2f, 0xe9b5dba58189dbbc],
       [0x3956c25bf348b538, 0x59f111f1b605d019, 0x923f82a4af194f9b, 0xab1c5ed5da6d8118],
       [0xd807aa98a3030242, 0x12835b0145706fbe, 0x243185be4ee4b28c, 0x550c7dc3d5ffb4e2],
       [0x72be5d74f27b896f, 0x80deb1fe3b1696b1, 0x9bdc06a725c71235, 0xc19bf174cf692694],
       [0xe49b69c19ef14ad2, 0xefbe4786384f25e3, 0x0fc19dc68b8cd5b5, 0x240ca1cc77ac9c65],
       [0x2de92c6f592b0275, 0x4a7484aa6ea6e483, 0x5cb0a9dcbd41fbd4, 0x76f988da831153b5],
       [0x983e5152ee66dfab, 0xa831c66d2db43210, 0xb00327c898fb213f, 0xbf597fc7beef0ee4],
       [0xc6e00bf33da88fc2, 0xd5a79147930aa725, 0x06ca6351e003826f, 0x142929670a0e6e70],
       [0x27b70a8546d22ffc, 0x2e1b21385c26c926, 0x4d2c6dfc5ac42aed, 0x53380d139d95b3df],
       [0x650a73548baf63de, 0x766a0abb3c77b2a8, 0x81c2c92e47edaee6, 0x92722c851482353b],
       [0xa2bfe8a14cf10364, 0xa81a664bbc423001, 0xc24b8b70d0f89791, 0xc76c51a30654be30],
       [0xd192e819d6ef5218, 0xd69906245565a910, 0xf40e35855771202a, 0x106aa07032bbd1b8],
       [0x19a4c116b8d2d0c8, 0x1e376c085141ab53, 0x2748774cdf8eeb99, 0x34b0bcb5e19b48a8],
       [0x391c0cb3c5c95a63, 0x4ed8aa4ae3418acb, 0x5b9cca4f7763e373, 0x682e6ff3d6b2b8a3],
       [0x748f82ee5defb2fc, 0x78a5636f43172f60, 0x84c87814a1f0ab72, 0x8cc702081a6439ec],
       [0x90befffa23631e28, 0xa4506cebde82bde9, 0xbef9a3f7b2c67915, 0xc67178f2e372532b],
       [0xca273eceea26619c, 0xd186b8c721c0c207, 0xeada7dd6cde0eb1e, 0xf57d4f7fee6ed178],
       [0x06f067aa72176fba, 0x0a637dc5a2c898a6, 0x113f9804bef90dae, 0x1b710b35131c471b],
       [0x28db77f523047d84, 0x32caab7b40c72493, 0x3c9ebe0a15c9bebc, 0x431d67c49c100d4c],
       [0x4cc5d4becb3e42b6, 0x597f299cfc657e2a, 0x5fcb6fab3ad6faec, 0x6c44198c4a475817]]"

definition ror64 :: "u64 \<Rightarrow> nat \<Rightarrow> u64" where "ror64 x n = drop_bit n x OR push_bit (64 - n) x"

definition sha_ld64 :: "bytes \<Rightarrow> u64" where "sha_ld64 p = foldl (\<lambda>v b. push_bit 8 v OR ucast b) 0 (take 8 p)"

definition sha_st64 :: "u64 \<Rightarrow> bytes" where "sha_st64 v = map (\<lambda>i. ucast (drop_bit (56 - 8 * i) v)) [0..<8]"

text \<open>The schedule keeps only the last sixteen words, in a circle.\<close>

definition schedule512 :: "u64 list \<Rightarrow> nat \<Rightarrow> u64 list" where
  "schedule512 w i =
     (let j = i mod 16 in
      if i \<ge> 16
      then (let x0 = w ! ((j + 1) mod 16); x1 = w ! ((j + 14) mod 16);
                s0 = ror64 x0 1 XOR ror64 x0 8 XOR drop_bit 7 x0;
                s1 = ror64 x1 19 XOR ror64 x1 61 XOR drop_bit 6 x1
            in w[j := w ! j + (s0 + w ! ((j + 9) mod 16) + s1)])
      else w)"

definition round512 :: "u64 list \<times> u64 list \<Rightarrow> nat \<Rightarrow> u64 list \<times> u64 list" where
  "round512 wv i =
     (let (w, v) = wv; w = schedule512 w i;
          a = v ! 0; b = v ! 1; c = v ! 2; d = v ! 3; e = v ! 4; f = v ! 5; g = v ! 6; h = v ! 7;
          S1 = ror64 e 14 XOR ror64 e 18 XOR ror64 e 41; ch = (e AND f) XOR (NOT e AND g);
          S0 = ror64 a 28 XOR ror64 a 34 XOR ror64 a 39; maj = (a AND b) XOR (a AND c) XOR (b AND c);
          t1 = h + S1 + ch + K512 ! i + w ! (i mod 16); t2 = S0 + maj
      in (w, [t1 + t2, a, b, c, d + t1, e, f, g]))"

definition sha512_block_c :: "bytes \<Rightarrow> u64 list \<Rightarrow> u64 list" where
  "sha512_block_c b h =
     (let (w, v) = foldl round512 (map (\<lambda>i. sha_ld64 (drop (8 * i) b)) [0..<16], h) [0..<80]
      in map (\<lambda>i. h ! i + v ! i) [0..<8])"

record qn_sha512 =
  s5_h :: "u64 list"
  s5_len_lo :: u64
  s5_len_hi :: u64
  s5_buf :: bytes
  s5_outlen :: nat

definition iv512 :: "u64 list" where
  "iv512 = [0x6a09e667f3bcc908, 0xbb67ae8584caa73b, 0x3c6ef372fe94f82b, 0xa54ff53a5f1d36f1,
            0x510e527fade682d1, 0x9b05688c2b3e6c1f, 0x1f83d9abfb41bd6b, 0x5be0cd19137e2179]"

definition iv384 :: "u64 list" where
  "iv384 = [0xcbbb9d5dc1059ed8, 0x629a292a367cd507, 0x9159015a3070dd17, 0x152fecd8f70e5939,
            0x67332667ffc00b31, 0x8eb44a8768581511, 0xdb0c2e0d64f98fa7, 0x47b5481dbefa4fa4]"

definition qn_sha512_init :: "nat \<Rightarrow> qn_sha512" where
  "qn_sha512_init outlen =
     \<lparr>s5_h = (if outlen = 48 then iv384 else iv512), s5_len_lo = 0, s5_len_hi = 0, s5_buf = [], s5_outlen = (if outlen = 48 then 48 else 64)\<rparr>"

function update_loop512 :: "qn_sha512 \<Rightarrow> bytes \<Rightarrow> qn_sha512" where
  "update_loop512 s d =
     (if d = [] \<or> length (s5_buf s) > 128 then s
      else (let n = min (128 - length (s5_buf s)) (length d); b = s5_buf s @ take n d;
                s = (if length b = 128 then s\<lparr>s5_h := sha512_block_c b (s5_h s), s5_buf := []\<rparr> else s\<lparr>s5_buf := b\<rparr>)
            in update_loop512 s (drop n d)))"
  by pat_completeness auto
termination by (relation "measures [\<lambda>(_, d). length d, \<lambda>(s, _). length (s5_buf s)]") auto

declare update_loop512.simps [simp del]

definition qn_sha512_update :: "qn_sha512 \<Rightarrow> bytes \<Rightarrow> qn_sha512" where
  "qn_sha512_update s d =
     (let old = s5_len_lo s; lo = old + word_of_nat (length d);
          s = s\<lparr>s5_len_lo := lo, s5_len_hi := (if lo < old then s5_len_hi s + 1 else s5_len_hi s)\<rparr>
      in update_loop512 s d)"

definition qn_sha512_final :: "qn_sha512 \<Rightarrow> bytes" where
  "qn_sha512_final s =
     (let lo = push_bit 3 (s5_len_lo s); hi = push_bit 3 (s5_len_hi s) OR drop_bit 61 (s5_len_lo s);
          tail = sha_st64 hi @ sha_st64 lo; h = s5_h s; b = s5_buf s @ [0x80];
          (h, b) = (if length b > 112 then (sha512_block_c (b @ replicate (128 - length b) 0) h, []) else (h, b));
          h = sha512_block_c (b @ replicate (112 - length b) 0 @ tail) h
      in concat (map (\<lambda>i. sha_st64 (h ! i)) [0..<s5_outlen s div 8]))"

section \<open>Either hash\<close>

datatype qn_hash_id = QN_HASH_SHA256 | QN_HASH_SHA384

datatype qn_hash = S256 qn_sha256 | S384 qn_sha512

definition qn_hash_len :: "qn_hash_id \<Rightarrow> nat" where "qn_hash_len i = (if i = QN_HASH_SHA384 then 48 else 32)"

definition qn_hash_block :: "qn_hash_id \<Rightarrow> nat" where "qn_hash_block i = (if i = QN_HASH_SHA384 then 128 else 64)"

definition qn_hash_init :: "qn_hash_id \<Rightarrow> qn_hash" where
  "qn_hash_init i = (if i = QN_HASH_SHA384 then S384 (qn_sha512_init 48) else S256 qn_sha256_init)"

fun qn_hash_update :: "qn_hash \<Rightarrow> bytes \<Rightarrow> qn_hash" where
  "qn_hash_update (S384 s) p = S384 (qn_sha512_update s p)"
| "qn_hash_update (S256 s) p = S256 (qn_sha256_update s p)"

fun qn_hash_final :: "qn_hash \<Rightarrow> bytes" where
  "qn_hash_final (S384 s) = qn_sha512_final s"
| "qn_hash_final (S256 s) = qn_sha256_final s"

end
