(* ===== verification/Sha2_Exact.thy ===== *)
theory Sha2_Exact
  imports Sha2
begin

text \<open>
  Hashing in pieces.  The interface of a block hash says what one update does to the chaining value,
  the partial block and the length counter; inside it any sequence of updates leaves the state that
  the whole message determines.  Both hashes provide it, and their padding is that of FIPS 180-4.
\<close>

section \<open>Blocks and the rest\<close>

definition rest_of :: "nat \<Rightarrow> bytes \<Rightarrow> bytes" where "rest_of n m = drop (length m div n * n) m"

lemma rest_length: "0 < n \<Longrightarrow> length (rest_of n m) = length m mod n"
  by (simp add: rest_of_def minus_div_mult_eq_mod)

lemma rest_short: "length m < n \<Longrightarrow> rest_of n m = m" by (simp add: rest_of_def)

lemma rest_drop: "0 < n \<Longrightarrow> n \<le> length m \<Longrightarrow> rest_of n (drop n m) = rest_of n m"
proof -
  assume a: "0 < n" "n \<le> length m"
  then have "length m div n = Suc ((length m - n) div n)" by (simp add: le_div_geq)
  then have "n + (length m - n) div n * n = length m div n * n" by simp
  then show ?thesis by (simp add: rest_of_def add.commute)
qed

lemma hash_blocks_append: "0 < n \<Longrightarrow> hash_blocks n block (m @ d) h = hash_blocks n block (rest_of n m @ d) (hash_blocks n block m h)"
proof (induction n block m h rule: hash_blocks.induct)
  case (1 n block m h)
  show ?case
  proof (cases "length m < n")
    case True
    then show ?thesis using 1(2) by (simp add: rest_short hash_blocks.simps [of n block m])
  next
    case False
    have e: "hash_blocks n block (m @ d) h = hash_blocks n block (drop n m @ d) (block (take n m) h)"
      using False 1(2) by (subst hash_blocks.simps) simp
    have "hash_blocks n block m h = hash_blocks n block (drop n m) (block (take n m) h)" using False 1(2) by (subst hash_blocks.simps) simp
    then show ?thesis using 1(1) [OF _ 1(2)] False 1(2) rest_drop [OF 1(2), of m] by (simp add: e)
  qed
qed

lemma rest_append: "0 < n \<Longrightarrow> rest_of n (m @ d) = rest_of n (rest_of n m @ d)"
proof (induction m rule: measure_induct_rule [of length])
  case (less m)
  show ?case
  proof (cases "length m < n")
    case True
    then show ?thesis by (simp add: rest_short)
  next
    case False
    then have l: "length (drop n m) < length m" using less(2) by simp
    have "rest_of n (m @ d) = rest_of n (drop n m @ d)" using rest_drop [OF less(2), of "m @ d"] False by simp
    then show ?thesis using less(1) [OF l less(2)] rest_drop [OF less(2), of m] False by simp
  qed
qed

lemma hash_blocks_one: "length b = n \<Longrightarrow> 0 < n \<Longrightarrow> hash_blocks n block b h = block b h"
  by (subst hash_blocks.simps, subst hash_blocks.simps) simp

lemma hash_blocks_whole: "0 < n \<Longrightarrow> length b = n \<Longrightarrow> hash_blocks n block (b @ d) h = hash_blocks n block d (block b h)"
  by (subst hash_blocks.simps) simp

lemma rest_whole: "0 < n \<Longrightarrow> length b = n \<Longrightarrow> rest_of n (b @ d) = rest_of n d"
  using rest_drop [of n "b @ d"] by simp

section \<open>The interface\<close>

locale block_hash =
  fixes n :: nat and block :: "bytes \<Rightarrow> 'h \<Rightarrow> 'h" and upd :: "'s \<Rightarrow> bytes \<Rightarrow> 's" and chain :: "'s \<Rightarrow> 'h" and part :: "'s \<Rightarrow> bytes"
    and counted :: "'s \<Rightarrow> nat" and wrap :: nat
  assumes size_pos: "0 < n"
    and upd_chain: "length (part s) < n \<Longrightarrow> chain (upd s d) = hash_blocks n block (part s @ d) (chain s)"
    and upd_part: "length (part s) < n \<Longrightarrow> part (upd s d) = rest_of n (part s @ d)"
    and upd_counted: "length (part s) < n \<Longrightarrow> length d < 2 ^ 64 \<Longrightarrow> counted (upd s d) = (counted s + length d) mod wrap"
begin

definition absorbed :: "'h \<Rightarrow> bytes \<Rightarrow> 's \<Rightarrow> bool" where
  "absorbed iv m s \<longleftrightarrow> chain s = hash_blocks n block m iv \<and> part s = rest_of n m \<and> counted s = length m mod wrap"

lemma update_absorbs:
  assumes "absorbed iv m s" "length d < 2 ^ 64"
  shows "absorbed iv (m @ d) (upd s d)"
proof -
  have "length (part s) < n" using assms(1) size_pos by (simp add: absorbed_def rest_length)
  then show ?thesis using assms
    by (simp add: absorbed_def upd_chain upd_part upd_counted hash_blocks_append [OF size_pos, of block m d] rest_append [OF size_pos, of m d] mod_add_left_eq)
qed

lemma updates_absorb: "absorbed iv m s \<Longrightarrow> \<forall>d\<in>set ds. length d < 2 ^ 64 \<Longrightarrow> absorbed iv (m @ concat ds) (foldl upd s ds)"
proof (induction ds arbitrary: m s)
  case (Cons d ds)
  then have "length d < 2 ^ 64" "\<forall>d\<in>set ds. length d < 2 ^ 64" by simp_all
  then show ?case using Cons(1) [OF update_absorbs [OF Cons(2)]] by simp
qed simp

end

section \<open>SHA-256\<close>

lemma update_rest256:
  assumes "s2_buf s = []"
  shows "s2_h (update_rest256 s d) = hash_blocks 64 sha256_block d (s2_h s)" "s2_buf (update_rest256 s d) = rest_of 64 d"
    "s2_len (update_rest256 s d) = s2_len s"
proof -
  let ?w = "length d div 64 * 64"
  have t: "hash_blocks 64 sha256_block d h = hash_blocks 64 sha256_block (take ?w d) h" for h
  proof -
    have "rest_of 64 (take ?w d) = []" by (simp add: rest_of_def)
    moreover have "length (drop ?w d) < 64" by (simp add: minus_div_mult_eq_mod)
    then have "hash_blocks 64 sha256_block (drop ?w d) g = g" for g by (simp add: hash_blocks.simps)
    ultimately show ?thesis using hash_blocks_append [of 64 sha256_block "take ?w d" "drop ?w d" h] by simp
  qed
  have z: "hash_blocks 64 sha256_block d h = h" "rest_of 64 d = d" if "length d < 64" for h using that by (simp_all add: hash_blocks.simps rest_short)
  show "s2_h (update_rest256 s d) = hash_blocks 64 sha256_block d (s2_h s)"
  proof (cases "length d \<ge> 64")
    case True
    then show ?thesis using t [of "s2_h s", symmetric] by (simp add: update_rest256_def Let_def sha256_blocks_def)
  next
    case False
    then show ?thesis using z(1) by (simp add: update_rest256_def Let_def)
  qed
  show "s2_buf (update_rest256 s d) = rest_of 64 d" using z(2) assms by (auto simp: update_rest256_def Let_def rest_of_def)
  show "s2_len (update_rest256 s d) = s2_len s" by (simp add: update_rest256_def Let_def)
qed

lemma sha256_update_chain:
  assumes "length (s2_buf s) < 64"
  shows "s2_h (qn_sha256_update s d) = hash_blocks 64 sha256_block (s2_buf s @ d) (s2_h s) \<and> s2_buf (qn_sha256_update s d) = rest_of 64 (s2_buf s @ d)"
proof -
  define k where "k = min (64 - length (s2_buf s)) (length d)"
  define b where "b = s2_buf s @ take k d"
  define s1 where "s1 = s\<lparr>s2_len := s2_len s + word_of_nat (length d)\<rparr>"
  have e: "s2_buf s1 = s2_buf s" "s2_h s1 = s2_h s" by (simp_all add: s1_def)
  consider "s2_buf s = []" | "s2_buf s \<noteq> []" "length b < 64" | "s2_buf s \<noteq> []" "length b \<ge> 64" by linarith
  then show ?thesis
  proof cases
    case 1
    then show ?thesis using update_rest256 [of s1 d] by (simp add: qn_sha256_update_def Let_def s1_def)
  next
    case 2
    then have "k = length d" "b = s2_buf s @ d" using assms by (auto simp: k_def b_def)
    then show ?thesis using 2 by (simp add: qn_sha256_update_def Let_def k_def [symmetric] b_def [symmetric] hash_blocks.simps rest_short)
  next
    case 3
    then have b: "length b = 64" "s2_buf s @ d = b @ drop k d" using assms by (auto simp: k_def b_def)
    have l: "\<not> length (s2_buf s @ take k d) < 64" using b(1) by (simp add: b_def)
    have "qn_sha256_update s d = update_rest256 (s1\<lparr>s2_h := sha256_block b (s2_h s), s2_buf := []\<rparr>) (drop k d)"
      using 3(1) l hash_blocks_one [OF b(1), of sha256_block "s2_h s"] unfolding qn_sha256_update_def Let_def sha256_blocks_def by (simp add: k_def [symmetric] b_def s1_def)
    then show ?thesis using update_rest256 [of "s1\<lparr>s2_h := sha256_block b (s2_h s), s2_buf := []\<rparr>" "drop k d"] b
      by (simp add: hash_blocks_whole rest_whole)
  qed
qed

lemma sha256_update_len: "unat (s2_len (qn_sha256_update s d)) = (unat (s2_len s) + length d) mod 2 ^ 64"
proof -
  have "s2_len (qn_sha256_update s d) = s2_len s + word_of_nat (length d)"
    by (simp add: qn_sha256_update_def Let_def update_rest256_def)
  then show ?thesis by (simp add: unat_word_ariths unsigned_of_nat take_bit_eq_mod mod_simps)
qed

interpretation h256: block_hash 64 sha256_block qn_sha256_update s2_h s2_buf "\<lambda>s. unat (s2_len s)" "2 ^ 64"
  by unfold_locales (simp, rule conjunct1 [OF sha256_update_chain], assumption, rule conjunct2 [OF sha256_update_chain], assumption, rule sha256_update_len)

section \<open>SHA-384\<close>

lemma loop512_chain:
  "length (s5_buf s) < 128 \<Longrightarrow>
    s5_h (update_loop512 s d) = hash_blocks 128 sha512_block_c (s5_buf s @ d) (s5_h s) \<and> s5_buf (update_loop512 s d) = rest_of 128 (s5_buf s @ d) \<and>
    s5_len_lo (update_loop512 s d) = s5_len_lo s \<and> s5_len_hi (update_loop512 s d) = s5_len_hi s \<and> s5_outlen (update_loop512 s d) = s5_outlen s"
proof (induction s d rule: update_loop512.induct)
  case (1 s d)
  show ?case
  proof (cases "d = []")
    case True
    then show ?thesis using 1(2) by (simp add: update_loop512.simps hash_blocks.simps rest_short)
  next
    case False
    define k where "k = min (128 - length (s5_buf s)) (length d)"
    define b where "b = s5_buf s @ take k d"
    define s1 where "s1 = (if length b = 128 then s\<lparr>s5_h := sha512_block_c b (s5_h s), s5_buf := []\<rparr> else s\<lparr>s5_buf := b\<rparr>)"
    have e: "update_loop512 s d = update_loop512 s1 (drop k d)" using False 1(2) by (subst update_loop512.simps) (simp add: Let_def k_def b_def s1_def)
    have split: "s5_buf s @ d = b @ drop k d" by (simp add: b_def)
    have l: "length b \<le> 128" using 1(2) by (simp add: b_def k_def)
    have "\<not> (d = [] \<or> 128 < length (s5_buf s))" using False 1(2) by simp
    note ih = 1(1) [OF this k_def b_def s1_def]
    show ?thesis
    proof (cases "length b = 128")
      case True
      then have "length (s5_buf s1) < 128" by (simp add: s1_def)
      note i = ih [OF this]
      show ?thesis using i True unfolding e split by (simp add: s1_def hash_blocks_whole rest_whole)
    next
      case False
      then have "length (s5_buf s1) < 128" using l by (simp add: s1_def)
      note i = ih [OF this]
      show ?thesis using i False unfolding e split by (simp add: s1_def)
    qed
  qed
qed

definition count512 :: "qn_sha512 \<Rightarrow> nat" where "count512 s = unat (s5_len_lo s) + 2 ^ 64 * unat (s5_len_hi s)"

lemma sha512_update_chain:
  assumes "length (s5_buf s) < 128"
  shows "s5_h (qn_sha512_update s d) = hash_blocks 128 sha512_block_c (s5_buf s @ d) (s5_h s) \<and> s5_buf (qn_sha512_update s d) = rest_of 128 (s5_buf s @ d)"
  using loop512_chain [of "s\<lparr>s5_len_lo := lo, s5_len_hi := hi\<rparr>" d for lo hi] assms by (simp add: qn_sha512_update_def Let_def)

lemma split_mod: "l < A \<Longrightarrow> (l + A * q) mod (A * A) = l + A * (q mod A)" for l A q :: nat
  by (simp add: mod_mult2_eq)

lemma sha512_update_len:
  assumes "length (s5_buf s) < 128" "length d < 2 ^ 64"
  shows "count512 (qn_sha512_update s d) = (count512 s + length d) mod 2 ^ 128"
proof -
  define lo where "lo = s5_len_lo s + word_of_nat (length d)"
  define hi where "hi = (if lo < s5_len_lo s then s5_len_hi s + 1 else s5_len_hi s)"
  have e: "s5_len_lo (qn_sha512_update s d) = lo" "s5_len_hi (qn_sha512_update s d) = hi"
    using loop512_chain [of "s\<lparr>s5_len_lo := lo, s5_len_hi := hi\<rparr>" d] assms(1) by (simp_all add: qn_sha512_update_def Let_def lo_def hi_def)
  define x y z where "x = unat (s5_len_lo s)" and "y = unat (s5_len_hi s)" and "z = length d"
  have b: "x < 2 ^ 64" "y < 2 ^ 64" "z < 2 ^ 64" using unsigned_less [of "s5_len_lo s"] unsigned_less [of "s5_len_hi s"] assms(2) by (simp_all add: x_def y_def z_def)
  have lo: "unat lo = (x + z) mod 2 ^ 64" using assms(2) by (simp add: lo_def x_def z_def unat_word_ariths unsigned_of_nat take_bit_eq_mod)
  have A: "unat lo + A * ((y + 1) mod A) = (x + A * y + z) mod (A * A)" if "A \<le> x + z" "unat lo = (x + z) mod A" "x < A" "y < A" "z < A" for A :: nat
  proof -
    have q: "(x + z) div A = 1" using that by (intro div_nat_eqI) simp_all
    have "x + A * y + z = unat lo + A * (y + 1)" using mod_mult_div_eq [of "x + z" A] that(2) by (simp add: q algebra_simps)
    also have "\<dots> mod (A * A) = unat lo + A * ((y + 1) mod A)" by (rule split_mod) (use that(2,3) in simp)
    finally show ?thesis by simp
  qed
  show ?thesis
  proof (cases "x + z < 2 ^ 64")
    case True
    then have l: "unat lo = x + z" using lo by simp
    then have "hi = s5_len_hi s" unfolding hi_def by (simp add: word_less_nat_alt x_def)
    then have "count512 (qn_sha512_update s d) = x + z + 2 ^ 64 * y" by (simp add: count512_def e l y_def)
    moreover have "x + z + 2 ^ 64 * y < 2 ^ 128" using True b by simp
    ultimately show ?thesis by (simp add: count512_def x_def y_def z_def)
  next
    case False
    then have "unat lo < x" using b lo by (simp add: le_mod_geq)
    then have "hi = s5_len_hi s + 1" unfolding hi_def by (simp add: word_less_nat_alt x_def)
    then have "unat hi = (y + 1) mod 2 ^ 64" by (simp add: y_def unat_word_ariths)
    moreover have "unat lo + 2 ^ 64 * ((y + 1) mod 2 ^ 64) = (x + 2 ^ 64 * y + z) mod (2 ^ 64 * 2 ^ 64)" using False b lo by (intro A) simp_all
    ultimately show ?thesis by (simp add: count512_def e x_def y_def z_def)
  qed
qed

interpretation h384: block_hash 128 sha512_block_c qn_sha512_update s5_h s5_buf count512 "2 ^ 128"
  by unfold_locales (simp, rule conjunct1 [OF sha512_update_chain], assumption, rule conjunct2 [OF sha512_update_chain], assumption, rule sha512_update_len)

section \<open>Padding\<close>

definition md_pad :: "nat \<Rightarrow> nat \<Rightarrow> bytes \<Rightarrow> bytes" where
  "md_pad n t m = m @ [0x80] @ replicate ((2 * n - 1 - t - length m mod n) mod n) 0 @ be_bytes t (8 * length m)"

lemma pad_blocks:
  assumes "0 < t" "t < n" "b = rest_of n m @ [0x80]" "h = hash_blocks n block m iv"
  shows "hash_blocks n block (md_pad n t m) iv =
    (if length b > n - t then block (replicate (n - t) 0 @ be_bytes t (8 * length m)) (block (b @ replicate (n - length b) 0) h)
     else block (b @ replicate (n - t - length b) 0 @ be_bytes t (8 * length m)) h)"
proof -
  define r where "r = length m mod n"
  have n: "0 < n" using assms by simp
  have r: "r < n" "length b = Suc r" using n by (simp_all add: r_def assms(3) rest_length)
  define k where "k = (2 * n - 1 - t - r) mod n"
  have "hash_blocks n block (md_pad n t m) iv = hash_blocks n block (b @ replicate k 0 @ be_bytes t (8 * length m)) h"
    using hash_blocks_append [OF n, of block m "[0x80] @ replicate k 0 @ be_bytes t (8 * length m)" iv] by (simp add: md_pad_def k_def r_def assms(3,4))
  also have "\<dots> = (if length b > n - t then block (replicate (n - t) 0 @ be_bytes t (8 * length m)) (block (b @ replicate (n - length b) 0) h)
     else block (b @ replicate (n - t - length b) 0 @ be_bytes t (8 * length m)) h)"
  proof (cases "length b > n - t")
    case True
    then have "2 * n - 1 - t - r < n" using r(2) assms(1,2) by linarith
    then have "k = (n - length b) + (n - t)" using True r assms(1,2) by (simp add: k_def)
    then have e: "b @ replicate k 0 @ be_bytes t (8 * length m) = (b @ replicate (n - length b) 0) @ replicate (n - t) 0 @ be_bytes t (8 * length m)" by (simp add: replicate_add)
    have "length (b @ replicate (n - length b) 0) = n" "length (replicate (n - t) 0 @ be_bytes t (8 * length m)) = n" using r assms(2) by simp_all
    then show ?thesis unfolding e using True by (simp only: hash_blocks_whole [OF n] hash_blocks_one n if_True)
  next
    case False
    have "2 * n - 1 - t - r = (n - t - length b) + n" using False r assms(1,2) by simp
    then have "k = (n - t - length b) mod n" by (simp only: k_def mod_add_self2)
    then have "k = n - t - length b" using assms(1,2) by simp
    then show ?thesis using False n assms(2) by (simp add: hash_blocks_one)
  qed
  finally show ?thesis .
qed

lemma st64_bytes: "map (\<lambda>i. ucast (drop_bit (56 - 8 * i) v) :: u8) [0..<8] = be_bytes 8 (unat v)" for v :: u64
proof -
  have "map (\<lambda>i. ucast (drop_bit (56 - 8 * i) v) :: u8) [0..<8] = map (\<lambda>i. word_of_nat (unat v div 2 ^ (56 - 8 * i))) [0..<8]" by (simp only: drop_bit_byte)
  also have "\<dots> = be_bytes 8 (unat v)" by (simp add: be_bytes_def le_bytes_def upt_rec)
  finally show ?thesis .
qed

definition sha256_ref :: "bytes \<Rightarrow> bytes" where
  "sha256_ref m = (let h = hash_blocks 64 sha256_block (md_pad 64 8 m) iv256 in concat (map (\<lambda>i. sha_st32 (h ! i)) [0..<8]))"

definition sha384_ref :: "bytes \<Rightarrow> bytes" where
  "sha384_ref m = (let h = hash_blocks 128 sha512_block_c (md_pad 128 16 m) iv384 in concat (map (\<lambda>i. sha_st64 (h ! i)) [0..<6]))"

lemma sha256_final_ref:
  assumes "h256.absorbed iv256 m s"
  shows "qn_sha256_final s = sha256_ref m"
proof -
  have a: "s2_h s = hash_blocks 64 sha256_block m iv256" "s2_buf s = rest_of 64 m" "unat (s2_len s) = length m mod 2 ^ 64" using assms unfolding h256.absorbed_def by blast+
  have "unat (push_bit 3 (s2_len s)) = (8 * length m) mod 2 ^ 64"
    by (simp add: push_bit_eq_mult unat_word_ariths a(3) mod_mult_right_eq mult.commute)
  then have t: "map (\<lambda>i. ucast (drop_bit (56 - 8 * i) (push_bit 3 (s2_len s)))) [0..<8] = be_bytes 8 (8 * length m)"
    using be_bytes_mod [of 8 "8 * length m"] unfolding st64_bytes by simp
  define b where "b = s2_buf s @ [0x80]"
  have l: "length b \<le> 64" using rest_length [of 64 m] by (simp add: b_def a(2))
  have one: "hash_blocks 64 sha256_block x h = sha256_block x h" if "length x = 64" for x h using hash_blocks_one [OF that] by simp
  have p: "hash_blocks 64 sha256_block (md_pad 64 8 m) iv256 =
      (if length b > 56 then sha256_block (replicate 56 0 @ be_bytes 8 (8 * length m)) (sha256_block (b @ replicate (64 - length b) 0) (s2_h s))
       else sha256_block (b @ replicate (56 - length b) 0 @ be_bytes 8 (8 * length m)) (s2_h s))"
    using pad_blocks [of 8 64 b m "s2_h s" sha256_block iv256] by (simp add: b_def a(1,2))
  show ?thesis
    using l unfolding qn_sha256_final_def sha256_ref_def Let_def t p sha256_blocks_def b_def [symmetric] by (simp add: one)
qed

lemma sha384_final_ref:
  assumes "h384.absorbed iv384 m s" "s5_outlen s = 48"
  shows "qn_sha512_final s = sha384_ref m"
proof -
  have a: "s5_h s = hash_blocks 128 sha512_block_c m iv384" "s5_buf s = rest_of 128 m" "count512 s = length m mod 2 ^ 128" using assms(1) unfolding h384.absorbed_def by blast+
  define lo hi where "lo = push_bit 3 (s5_len_lo s)" and "hi = push_bit 3 (s5_len_hi s) OR drop_bit 61 (s5_len_lo s)"
  have t: "sha_st64 hi @ sha_st64 lo = be_bytes 16 (8 * length m)"
  proof -
    define x y where "x = unat (s5_len_lo s)" and "y = unat (s5_len_hi s)"
    have x: "x < 2 ^ 64" using unsigned_less [of "s5_len_lo s"] by (simp add: x_def)
    have l: "unat lo = 8 * x mod 2 ^ 64" by (simp add: lo_def x_def push_bit_eq_mult unat_word_ariths mult.commute)
    have "push_bit 3 (s5_len_hi s) AND drop_bit 61 (s5_len_lo s) = 0"
      by (rule bit_word_eqI) (auto simp: bit_simps dest: bit_imp_le_length)
    then have "hi = push_bit 3 (s5_len_hi s) + drop_bit 61 (s5_len_lo s)" by (simp add: hi_def disjunctive_add_eq_or)
    then have h: "unat hi mod 2 ^ 64 = (8 * y + x div 2 ^ 61) mod 2 ^ 64"
      by (simp add: unat_word_ariths push_bit_eq_mult y_def x_def unat_drop_bit_eq [of 61] drop_bit_eq_div [of 61 "unat _"] mod_simps mult.commute)
    have q: "8 * x div 2 ^ 64 = x div 2 ^ 61" using div_mult_mult1 [of 8 x "2 ^ 61"] by simp
    have c: "8 * (x + 2 ^ 64 * y) = 8 * x mod 2 ^ 64 + 2 ^ 64 * (8 * y + x div 2 ^ 61)" using mod_mult_div_eq [of "8 * x" "2 ^ 64"] unfolding q by simp
    have "be_bytes 16 (8 * length m) = be_bytes 16 (8 * (x + 2 ^ 64 * y))"
    proof -
      have p: "(256 :: nat) ^ 16 = 2 ^ 128" by simp
      have "8 * count512 s mod 256 ^ 16 = 8 * length m mod 256 ^ 16" unfolding a(3) p by (rule mod_mult_right_eq)
      then have "be_bytes 16 (8 * count512 s) = be_bytes 16 (8 * length m)" using be_bytes_mod [of 16 "8 * count512 s"] be_bytes_mod [of 16 "8 * length m"] by simp
      then show ?thesis unfolding count512_def x_def y_def by simp
    qed
    also have "\<dots> = be_bytes 8 (8 * (x + 2 ^ 64 * y) div 2 ^ 64) @ be_bytes 8 (8 * (x + 2 ^ 64 * y))" using be_bytes_append [of 8 8] by simp
    also have "be_bytes 8 (8 * (x + 2 ^ 64 * y)) = be_bytes 8 (unat lo)" unfolding c l by (rule be_bytes_high)
    also have "8 * (x + 2 ^ 64 * y) div 2 ^ 64 = 8 * y + x div 2 ^ 61" unfolding c by simp
    also have "be_bytes 8 \<dots> = be_bytes 8 (unat hi)" using be_bytes_mod [of 8 "unat hi"] be_bytes_mod [of 8 "8 * y + x div 2 ^ 61"] h by simp
    finally show ?thesis by (simp add: sha_st64_def st64_bytes)
  qed
  define b where "b = s5_buf s @ [0x80]"
  have p: "hash_blocks 128 sha512_block_c (md_pad 128 16 m) iv384 =
      (if length b > 112 then sha512_block_c (replicate 112 0 @ be_bytes 16 (8 * length m)) (sha512_block_c (b @ replicate (128 - length b) 0) (s5_h s))
       else sha512_block_c (b @ replicate (112 - length b) 0 @ be_bytes 16 (8 * length m)) (s5_h s))"
    using pad_blocks [of 16 128 b m "s5_h s" sha512_block_c iv384] by (simp add: b_def a(1,2))
  show ?thesis
    unfolding qn_sha512_final_def sha384_ref_def Let_def lo_def [symmetric] hi_def [symmetric] t p b_def [symmetric] using assms(2) by simp
qed

section \<open>Hashing in pieces\<close>

definition hash_ref :: "qn_hash_id \<Rightarrow> bytes \<Rightarrow> bytes" where
  "hash_ref i m = (if i = QN_HASH_SHA384 then sha384_ref m else sha256_ref m)"

lemma sha512_outlen: "length (s5_buf s) < 128 \<Longrightarrow> s5_outlen (qn_sha512_update s d) = s5_outlen s"
  using loop512_chain [of "s\<lparr>s5_len_lo := lo, s5_len_hi := hi\<rparr>" d for lo hi] by (simp add: qn_sha512_update_def Let_def)

lemma updates_outlen: "h384.absorbed iv m s \<Longrightarrow> \<forall>d\<in>set ds. length d < 2 ^ 64 \<Longrightarrow> s5_outlen (foldl qn_sha512_update s ds) = s5_outlen s"
proof (induction ds arbitrary: m s)
  case (Cons d ds)
  have "s5_buf s = rest_of 128 m" using Cons(2) unfolding h384.absorbed_def by blast
  then have "length (s5_buf s) < 128" by (simp add: rest_length)
  moreover have "length d < 2 ^ 64" "\<forall>d\<in>set ds. length d < 2 ^ 64" using Cons(3) by simp_all
  ultimately show ?case using Cons(1) [OF h384.update_absorbs [OF Cons(2)]] sha512_outlen by simp
qed simp

lemma hash_updates: "foldl qn_hash_update (S384 s) ms = S384 (foldl qn_sha512_update s ms)" "foldl qn_hash_update (S256 t) ms = S256 (foldl qn_sha256_update t ms)"
  by (induction ms arbitrary: s t) simp_all

lemma hash_split:
  assumes "\<forall>m\<in>set ms. length m < 2 ^ 64"
  shows "qn_hash_final (foldl qn_hash_update (qn_hash_init i) ms) = hash_ref i (concat ms)"
proof (cases "i = QN_HASH_SHA384")
  case True
  have a: "h384.absorbed iv384 [] (qn_sha512_init 48)" unfolding h384.absorbed_def by (simp add: qn_sha512_init_def hash_blocks.simps rest_of_def count512_def)
  show ?thesis using sha384_final_ref [OF h384.updates_absorb [OF a assms]] updates_outlen [OF a assms] True
    by (simp add: qn_hash_init_def hash_updates hash_ref_def) (simp add: qn_sha512_init_def)
next
  case False
  have a: "h256.absorbed iv256 [] qn_sha256_init" unfolding h256.absorbed_def by (simp add: qn_sha256_init_def hash_blocks.simps rest_of_def)
  show ?thesis using sha256_final_ref [OF h256.updates_absorb [OF a assms]] False by (simp add: qn_hash_init_def hash_updates hash_ref_def)
qed



end
