(* ===== verification/Kdf.thy ===== *)
theory Kdf
  imports Sha2_Exact
begin

text \<open>
  HMAC, HKDF with the labels of TLS 1.3, and the pseudo-random function of TLS 1.2 in
  \<^verbatim>\<open>src/crypto/kdf.c\<close>, and that they compute what RFC 2104, RFC 5869, RFC 8446 and RFC 5246 define.  A
  label is the bytes of the C string; null pointers other than an absent salt are not modelled.
\<close>

section \<open>HMAC\<close>

record qn_hmac =
  hm_inner :: qn_hash
  hm_outer :: qn_hash

definition hmac_key :: "qn_hash_id \<Rightarrow> bytes \<Rightarrow> bytes" where
  "hmac_key i key =
     (let k = (if length key > qn_hash_block i then qn_hash_final (qn_hash_update (qn_hash_init i) key) else if key \<noteq> [] then key else [])
      in k @ replicate (128 - length k) 0)"

definition hmac_pad :: "qn_hash_id \<Rightarrow> bytes \<Rightarrow> u8 \<Rightarrow> bytes" where
  "hmac_pad i k b = map (\<lambda>j. k ! j XOR b) [0..<qn_hash_block i]"

definition qn_hmac_init :: "qn_hash_id \<Rightarrow> bytes \<Rightarrow> qn_hmac" where
  "qn_hmac_init i key =
     (let k = hmac_key i key
      in \<lparr>hm_inner = qn_hash_update (qn_hash_init i) (hmac_pad i k 0x36), hm_outer = qn_hash_update (qn_hash_init i) (hmac_pad i k 0x5c)\<rparr>)"

definition qn_hmac_update :: "qn_hmac \<Rightarrow> bytes \<Rightarrow> qn_hmac" where
  "qn_hmac_update m p = m\<lparr>hm_inner := qn_hash_update (hm_inner m) p\<rparr>"

definition qn_hmac_final :: "qn_hmac \<Rightarrow> bytes" where
  "qn_hmac_final m = (let ih = qn_hash_final (hm_inner m) in qn_hash_final (qn_hash_update (hm_outer m) ih))"

definition qn_hmac_once :: "qn_hash_id \<Rightarrow> bytes \<Rightarrow> bytes \<Rightarrow> bytes" where
  "qn_hmac_once i key msg = qn_hmac_final (qn_hmac_update (qn_hmac_init i key) msg)"

section \<open>HKDF\<close>

definition qn_hkdf_extract :: "qn_hash_id \<Rightarrow> bytes option \<Rightarrow> bytes \<Rightarrow> bytes" where
  "qn_hkdf_extract i salt ikm =
     (let salt = (case salt of None \<Rightarrow> replicate (qn_hash_len i) 0 | Some s \<Rightarrow> if s = [] then replicate (qn_hash_len i) 0 else s)
      in qn_hmac_once i salt ikm)"

text \<open>One round: the previous block, the context and a counter of one byte.\<close>

definition expand_round :: "qn_hash_id \<Rightarrow> bytes \<Rightarrow> bytes \<Rightarrow> bytes \<Rightarrow> u8 \<Rightarrow> bytes" where
  "expand_round i prk info t ctr =
     (let m = qn_hmac_init i (take (qn_hash_len i) prk);
          m = (if t \<noteq> [] then qn_hmac_update m t else m);
          m = (if info \<noteq> [] then qn_hmac_update m info else m)
      in qn_hmac_final (qn_hmac_update m [ctr]))"

lemma hash_len_pos [simp]: "0 < qn_hash_len i" by (simp add: qn_hash_len_def)

function expand_loop :: "qn_hash_id \<Rightarrow> bytes \<Rightarrow> bytes \<Rightarrow> nat \<Rightarrow> bytes \<Rightarrow> u8 \<Rightarrow> bytes" where
  "expand_loop i prk info left t ctr =
     (if left = 0 then []
      else (let t = expand_round i prk info t ctr; n = min left (qn_hash_len i)
            in take n t @ expand_loop i prk info (left - n) t (ctr + 1)))"
  by pat_completeness auto
termination by (relation "measure (\<lambda>(_, _, _, left, _, _). left)") (auto simp: min_def)

declare expand_loop.simps [simp del]

definition qn_hkdf_expand :: "qn_hash_id \<Rightarrow> bytes \<Rightarrow> bytes \<Rightarrow> nat \<Rightarrow> bytes option" where
  "qn_hkdf_expand i prk info olen = (if olen > 255 * qn_hash_len i then None else Some (expand_loop i prk info olen [] 1))"

definition label_info :: "bytes \<Rightarrow> bytes \<Rightarrow> nat \<Rightarrow> bytes" where
  "label_info label ctx olen =
     [word_of_nat (olen div 256), word_of_nat olen, word_of_nat (6 + length label)] @ [116, 108, 115, 49, 51, 32] @ label @
     [word_of_nat (length ctx)] @ ctx"

definition qn_hkdf_expand_label :: "qn_hash_id \<Rightarrow> bytes \<Rightarrow> bytes \<Rightarrow> bytes \<Rightarrow> nat \<Rightarrow> bytes option" where
  "qn_hkdf_expand_label i secret label ctx olen =
     (if length label + 6 > 255 \<or> length ctx > 255 \<or> olen > 0xFFFF then None
      else qn_hkdf_expand i secret (label_info label ctx olen) olen)"

definition qn_derive_secret :: "qn_hash_id \<Rightarrow> bytes \<Rightarrow> bytes \<Rightarrow> qn_hash \<Rightarrow> bytes option" where
  "qn_derive_secret i secret label transcript =
     (let th = qn_hash_final transcript in qn_hkdf_expand_label i secret label (take (qn_hash_len i) th) (qn_hash_len i))"

section \<open>The function of TLS 1.2\<close>

definition hmac3 :: "qn_hash_id \<Rightarrow> bytes \<Rightarrow> bytes list \<Rightarrow> bytes" where
  "hmac3 i secret ps = qn_hmac_final (foldl qn_hmac_update (qn_hmac_init i secret) ps)"

function prf_loop :: "qn_hash_id \<Rightarrow> bytes \<Rightarrow> bytes \<Rightarrow> bytes \<Rightarrow> nat \<Rightarrow> bytes \<Rightarrow> bytes" where
  "prf_loop i secret label seed left a =
     (if left = 0 then []
      else (let blk = hmac3 i secret [a, label, seed]; n = min left (qn_hash_len i)
            in take n blk @ prf_loop i secret label seed (left - n) (hmac3 i secret [a])))"
  by pat_completeness auto
termination by (relation "measure (\<lambda>(_, _, _, _, left, _). left)") (auto simp: min_def)

declare prf_loop.simps [simp del]

definition qn_tls12_prf :: "qn_hash_id \<Rightarrow> bytes \<Rightarrow> bytes \<Rightarrow> bytes \<Rightarrow> nat \<Rightarrow> bytes" where
  "qn_tls12_prf i secret label seed olen = prf_loop i secret label seed olen (hmac3 i secret [label, seed])"

section \<open>HMAC is RFC 2104\<close>

definition hmac_ref :: "qn_hash_id \<Rightarrow> bytes \<Rightarrow> bytes \<Rightarrow> bytes" where
  "hmac_ref i key msg =
     (let k = (if length key > qn_hash_block i then hash_ref i key else key);
          k = k @ replicate (qn_hash_block i - length k) 0
      in hash_ref i (map (\<lambda>b. b XOR 0x5c) k @ hash_ref i (map (\<lambda>b. b XOR 0x36) k @ msg)))"

lemma hash_ref_length [simp]: "length (hash_ref i m) = qn_hash_len i"
  by (simp add: hash_ref_def qn_hash_len_def sha256_ref_def sha384_ref_def Let_def length_concat o_def sum_list_triv sha_st32_def sha_st64_def)

lemma hmac_ref_length [simp]: "length (hmac_ref i key msg) = qn_hash_len i" by (simp add: hmac_ref_def Let_def)

lemma pad_key:
  assumes "length k \<le> qn_hash_block i"
  shows "hmac_pad i (k @ replicate (128 - length k) 0) b = map (\<lambda>x. x XOR b) (k @ replicate (qn_hash_block i - length k) 0)"
proof (rule nth_equalityI)
  have n: "qn_hash_block i \<le> 128" by (simp add: qn_hash_block_def)
  show "length (hmac_pad i (k @ replicate (128 - length k) 0) b) = length (map (\<lambda>x. x XOR b) (k @ replicate (qn_hash_block i - length k) 0))" using assms by (simp add: hmac_pad_def)
  fix j assume "j < length (hmac_pad i (k @ replicate (128 - length k) 0) b)"
  then have "j < qn_hash_block i" by (simp add: hmac_pad_def)
  then show "hmac_pad i (k @ replicate (128 - length k) 0) b ! j = map (\<lambda>x. x XOR b) (k @ replicate (qn_hash_block i - length k) 0) ! j"
    using n assms by (auto simp: hmac_pad_def nth_append)
qed

lemma hmac_updates: "foldl qn_hmac_update m ps = m\<lparr>hm_inner := foldl qn_hash_update (hm_inner m) ps\<rparr>"
  by (induction ps arbitrary: m) (simp_all add: qn_hmac_update_def)

lemma hmac_exact:
  assumes "length key < 2 ^ 64" "\<forall>p\<in>set ps. length p < 2 ^ 64"
  shows "qn_hmac_final (foldl qn_hmac_update (qn_hmac_init i key) ps) = hmac_ref i key (concat ps)"
proof -
  define k0 where "k0 = (if length key > qn_hash_block i then hash_ref i key else key)"
  define k where "k = k0 @ replicate (qn_hash_block i - length k0) 0"
  have l0: "length k0 \<le> qn_hash_block i" by (simp add: k0_def qn_hash_block_def qn_hash_len_def)
  have "hmac_key i key = k0 @ replicate (128 - length k0) 0"
    using hash_split [of "[key]" i] assms(1) by (simp add: hmac_key_def k0_def Let_def)
  then have p: "hmac_pad i (hmac_key i key) b = map (\<lambda>x. x XOR b) k" for b using pad_key [OF l0, of b] by (simp add: k_def)
  have l: "length k < 2 ^ 64" using l0 by (simp add: k_def qn_hash_block_def)
  have inner: "qn_hash_final (foldl qn_hash_update (qn_hash_init i) (map (\<lambda>b. b XOR 0x36) k # ps)) = hash_ref i (map (\<lambda>b. b XOR 0x36) k @ concat ps)"
    using hash_split [of "map (\<lambda>b. b XOR 0x36) k # ps" i] assms(2) l by simp
  have outer: "qn_hash_final (foldl qn_hash_update (qn_hash_init i) [map (\<lambda>b. b XOR 0x5c) k, hash_ref i m]) = hash_ref i (map (\<lambda>b. b XOR 0x5c) k @ hash_ref i m)" for m
    using hash_split [of "[map (\<lambda>b. b XOR 0x5c) k, hash_ref i m]" i] l by (simp add: qn_hash_len_def)
  have "hmac_ref i key m = hash_ref i (map (\<lambda>b. b XOR 0x5c) k @ hash_ref i (map (\<lambda>b. b XOR 0x36) k @ m))" for m
    unfolding hmac_ref_def Let_def k0_def [symmetric] k_def [symmetric] ..
  then show ?thesis using inner outer by (simp add: qn_hmac_final_def qn_hmac_init_def Let_def hmac_updates p)
qed

lemma hmac3_exact: "length secret < 2 ^ 64 \<Longrightarrow> \<forall>p\<in>set ps. length p < 2 ^ 64 \<Longrightarrow> hmac3 i secret ps = hmac_ref i secret (concat ps)"
  by (simp add: hmac3_def hmac_exact)

section \<open>HKDF is RFC 5869\<close>

fun hkdf_t :: "qn_hash_id \<Rightarrow> bytes \<Rightarrow> bytes \<Rightarrow> nat \<Rightarrow> bytes" where
  "hkdf_t i prk info 0 = []"
| "hkdf_t i prk info (Suc j) = hmac_ref i prk (hkdf_t i prk info j @ info @ [word_of_nat (Suc j)])"

lemma hkdf_t_length: "length (hkdf_t i prk info j) \<le> qn_hash_len i" by (cases j) simp_all

lemma hash_len_le: "qn_hash_len i \<le> 48" by (simp add: qn_hash_len_def)

lemma expand_round_exact:
  assumes "length prk = qn_hash_len i" "length info < 2 ^ 64"
  shows "expand_round i prk info (hkdf_t i prk info j) (word_of_nat (Suc j)) = hkdf_t i prk info (Suc j)"
proof -
  let ?t = "hkdf_t i prk info j" and ?one = "\<lambda>m. if m \<noteq> [] then [m] else []"
  let ?ps = "?one ?t @ ?one info @ [[word_of_nat (Suc j)]]"
  have l: "length prk < 2 ^ 64" "length ?t < 2 ^ 64" using assms(1) hash_len_le [of i] hkdf_t_length [of i prk info j] by simp_all
  have f: "foldl qn_hmac_update m (?one p) = (if p \<noteq> [] then qn_hmac_update m p else m)" for m p by simp
  have "expand_round i prk info ?t (word_of_nat (Suc j)) = qn_hmac_final (foldl qn_hmac_update (qn_hmac_init i prk) ?ps)"
    unfolding foldl_append f expand_round_def Let_def using assms(1) by simp
  also have "\<dots> = hmac_ref i prk (concat ?ps)" using l assms(2) by (intro hmac_exact) auto
  also have "concat ?ps = ?t @ info @ [word_of_nat (Suc j)]" by simp
  finally show ?thesis by simp
qed

lemma take_blocks: "length x = n \<Longrightarrow> take (min left n) x @ take (left - min left n) y = take left (x @ y)" by (auto simp: min_def)

lemma expand_loop_exact:
  assumes "length prk = qn_hash_len i" "length info < 2 ^ 64"
  shows "left \<le> N * qn_hash_len i \<Longrightarrow>
    expand_loop i prk info left (hkdf_t i prk info j) (word_of_nat (Suc j)) = take left (concat (map (hkdf_t i prk info) [Suc j..<Suc j + N]))"
proof (induction N arbitrary: left j)
  case 0
  then show ?case by (simp add: expand_loop.simps)
next
  case (Suc N)
  show ?case
  proof (cases "left = 0")
    case False
    define n where "n = min left (qn_hash_len i)"
    have "left - n \<le> N * qn_hash_len i" using Suc(2) by (auto simp: n_def min_def)
    note ih = Suc(1) [OF this, of "Suc j"]
    have c: "word_of_nat (Suc j) + 1 = (word_of_nat (Suc (Suc j)) :: u8)" by simp
    have "expand_loop i prk info left (hkdf_t i prk info j) (word_of_nat (Suc j)) =
        take n (hkdf_t i prk info (Suc j)) @ expand_loop i prk info (left - n) (hkdf_t i prk info (Suc j)) (word_of_nat (Suc (Suc j)))"
      using False by (subst expand_loop.simps) (simp only: Let_def expand_round_exact [OF assms] n_def [symmetric] c if_False)
    also have "\<dots> = take left (hkdf_t i prk info (Suc j) @ concat (map (hkdf_t i prk info) [Suc (Suc j)..<Suc (Suc j) + N]))"
      unfolding ih unfolding n_def by (rule take_blocks) simp
    also have "\<dots> = take left (concat (map (hkdf_t i prk info) [Suc j..<Suc j + Suc N]))" by (simp add: upt_conv_Cons del: upt_Suc hkdf_t.simps)
    finally show ?thesis .
  qed (simp add: expand_loop.simps)
qed

lemma hkdf_expand_spec:
  assumes "length prk = qn_hash_len i" "length info < 2 ^ 64"
  shows "qn_hkdf_expand i prk info olen = (if olen > 255 * qn_hash_len i then None else Some (take olen (concat (map (hkdf_t i prk info) [1..<256]))))"
  using expand_loop_exact [OF assms, of olen 255 0] by (simp add: qn_hkdf_expand_def del: upt_Suc upt_rec_numeral)

section \<open>P-hash is RFC 5246\<close>

fun prf_a :: "qn_hash_id \<Rightarrow> bytes \<Rightarrow> bytes \<Rightarrow> nat \<Rightarrow> bytes" where
  "prf_a i secret seed 0 = seed"
| "prf_a i secret seed (Suc j) = hmac_ref i secret (prf_a i secret seed j)"

lemma prf_loop_exact:
  assumes "length secret < 2 ^ 64" "length label < 2 ^ 64" "length seed < 2 ^ 64"
  shows "left \<le> N * qn_hash_len i \<Longrightarrow>
    prf_loop i secret label seed left (prf_a i secret (label @ seed) (Suc j)) =
      take left (concat (map (\<lambda>k. hmac_ref i secret (prf_a i secret (label @ seed) k @ label @ seed)) [Suc j..<Suc j + N]))"
proof (induction N arbitrary: left j)
  case 0
  then show ?case by (simp add: prf_loop.simps)
next
  case (Suc N)
  let ?a = "prf_a i secret (label @ seed)" and ?b = "\<lambda>k. hmac_ref i secret (prf_a i secret (label @ seed) k @ label @ seed)"
  show ?case
  proof (cases "left = 0")
    case False
    define n where "n = min left (qn_hash_len i)"
    have "left - n \<le> N * qn_hash_len i" using Suc(2) by (auto simp: n_def min_def)
    note ih = Suc(1) [OF this, of "Suc j"]
    have a: "length (?a (Suc j)) < 2 ^ 64" using hash_len_le [of i] by simp
    have h: "hmac3 i secret [?a (Suc j), label, seed] = ?b (Suc j)" "hmac3 i secret [?a (Suc j)] = ?a (Suc (Suc j))"
      using a assms by (simp_all add: hmac3_exact)
    have "prf_loop i secret label seed left (?a (Suc j)) = take n (?b (Suc j)) @ prf_loop i secret label seed (left - n) (?a (Suc (Suc j)))"
      using False by (subst prf_loop.simps) (simp add: Let_def h n_def del: prf_a.simps)
    also have "\<dots> = take left (?b (Suc j) @ concat (map ?b [Suc (Suc j)..<Suc (Suc j) + N]))" unfolding ih unfolding n_def by (rule take_blocks) simp
    also have "\<dots> = take left (concat (map ?b [Suc j..<Suc j + Suc N]))" by (simp add: upt_conv_Cons del: upt_Suc prf_a.simps)
    finally show ?thesis .
  qed (simp add: prf_loop.simps)
qed

section \<open>Labels\<close>

text \<open>Length prefixes keep the parts apart.\<close>

lemma label_info_inj:
  assumes "label_info l c n = label_info l' c' n'" "length l + 6 \<le> 255" "length c \<le> 255" "n \<le> 0xFFFF" "length l' + 6 \<le> 255" "length c' \<le> 255" "n' \<le> 0xFFFF"
  shows "l = l' \<and> c = c' \<and> n = n'"
proof -
  have u: "x = y" if "(word_of_nat x :: u8) = word_of_nat y" "x < 256" "y < 256" for x y :: nat
    using that by (metis unat_u8 mod_less)
  have e: "(word_of_nat (n div 256) :: u8) = word_of_nat (n' div 256)" "(word_of_nat n :: u8) = word_of_nat n'" "(word_of_nat (6 + length l) :: u8) = word_of_nat (6 + length l')"
    "l @ [word_of_nat (length c)] @ c = l' @ [word_of_nat (length c')] @ c'" using assms(1) by (simp_all add: label_info_def)
  have "length l = length l'" using u [OF e(3)] assms by simp
  then have "l = l'" "c = c'" using e(4) by simp_all
  moreover have "n div 256 = n' div 256" using u [OF e(1)] assms by (simp add: div_bound)
  moreover have "n mod 256 = n' mod 256" using e(2) by (metis unat_u8)
  ultimately show ?thesis by (metis div_mult_mod_eq)
qed

lemma label_info_length: "length (label_info l c n) = 10 + length l + length c" by (simp add: label_info_def)

lemma tls12_prf_exact:
  assumes "length secret < 2 ^ 64" "length label < 2 ^ 64" "length seed < 2 ^ 64"
  shows "qn_tls12_prf i secret label seed olen =
    take olen (concat (map (\<lambda>k. hmac_ref i secret (prf_a i secret (label @ seed) k @ label @ seed)) [1..<1 + olen]))"
proof -
  have "hmac3 i secret [label, seed] = prf_a i secret (label @ seed) (Suc 0)" using assms by (simp add: hmac3_exact)
  moreover have "olen \<le> olen * qn_hash_len i" using hash_len_pos [of i] by (cases "qn_hash_len i") simp_all
  ultimately show ?thesis using prf_loop_exact [OF assms, of olen olen i 0] unfolding qn_tls12_prf_def One_nat_def by (simp only:)
qed



end
