(* ===== verification/Spec2Isabelle.thy ===== *)
theory Spec2Isabelle
  imports Timewheel_Time Arena Outcome Ring Stats Histogram Bandit_Schedule Cidr_File Cf_Phases Store_File Socks5 Wire Http1_Body Scan_Plan_Sound Scan_Settings Hpack_Codes Http2_Facts Aead Kdf
begin

text \<open>
  A verification development for Qanat.
\<close>

end
